(* ===== verification/AurionPrelude.thy ===== *)
theory AurionPrelude
  imports Main "HOL-Library.Word" "HOL-Library.Monad_Syntax"
begin

unbundle bit_operations_syntax

text \<open>
  Shared vocabulary of the development: the fixed-width integers of the kernel's C code,
  byte buffers, NUL-terminated strings, byte order, and the reading of an access outside a
  C object as the value \<open>None\<close>.

  Conventions used by every theory:
  \<^item> \<open>uint8_t\<close>, \<open>uint16_t\<close>, \<open>uint32_t\<close> and \<open>uint64_t\<close> are words of that width, so arithmetic
    wraps as in C. A plain \<open>int\<close> is \<open>int\<close> where the code's guards keep it far from overflow,
    and a signed word otherwise.
  \<^item> A byte buffer or the memory behind a \<open>char *\<close> is a list of bytes. A \<open>const char *\<close> is the
    list of the bytes that precede the end of its memory; \<open>peek\<close> reads \<open>*p\<close>, which is the
    terminating 0 at the end of the list.
  \<^item> An access outside a C object (undefined behaviour) is \<open>None\<close> in the option monad.
  \<^item> Diagnostic console output (\<open>puts\<close>, \<open>putc\<close>, \<open>c_puts\<close>) does not influence any state
    and is left out.
\<close>

section \<open>Machine integers\<close>

type_synonym u8 = "8 word"
type_synonym u16 = "16 word"
type_synonym u32 = "32 word"
type_synonym u64 = "64 word"
type_synonym bytes = "8 word list"

named_theorems cstring \<open>facts on NUL-terminated strings\<close>
named_theorems wire \<open>facts on byte order and header fields\<close>
named_theorems bufs \<open>facts on checked buffer accesses\<close>

section \<open>NUL-terminated strings\<close>

text \<open>\<open>*p\<close> for a string pointer: 0 at the terminator.\<close>

definition peek :: "bytes \<Rightarrow> u8" where
  "peek s = (case s of [] \<Rightarrow> 0 | c # _ \<Rightarrow> c)"

text \<open>The content of a C string: the bytes before the first NUL.\<close>

definition cstr :: "bytes \<Rightarrow> bytes" where
  "cstr s = takeWhile (\<lambda>c. c \<noteq> 0) s"

text \<open>A byte list that is its own content.\<close>

definition nul_free :: "bytes \<Rightarrow> bool" where
  "nul_free s \<longleftrightarrow> 0 \<notin> set s"

text \<open>String literals as bytes.\<close>

definition lit :: "string \<Rightarrow> bytes" where
  "lit s = map of_char s"

definition is_digit8 :: "u8 \<Rightarrow> bool" where
  "is_digit8 c \<longleftrightarrow> 0x30 \<le> c \<and> c \<le> 0x39"

text \<open>
  The ASCII case folding that the code writes out in many places,
  \<open>if (c >= 'A' && c <= 'Z') c += 32\<close> and its upper-case twin. A \<open>char\<close> is signed on i386,
  but bytes from 128 on fail both tests under either reading.
\<close>

definition lower8 :: "u8 \<Rightarrow> u8" where
  "lower8 c = (if 0x41 \<le> c \<and> c \<le> 0x5A then c + 32 else c)"

definition upper8 :: "u8 \<Rightarrow> u8" where
  "upper8 c = (if 0x61 \<le> c \<and> c \<le> 0x7A then c - 32 else c)"

lemma peek_Nil [simp]: "peek [] = 0"
  by (simp add: peek_def)

lemma peek_Cons [simp]: "peek (c # s) = c"
  by (simp add: peek_def)

lemma peek_not_0 [dest]: "peek s \<noteq> 0 \<Longrightarrow> s \<noteq> []"
  by auto

text \<open>Loops that step over a byte they have seen to be non-zero terminate.\<close>

lemma length_tl_peek [termination_simp]: "peek s \<noteq> 0 \<Longrightarrow> length s - Suc 0 < length s"
  by (cases s) auto

lemma cstr_unfold: "cstr s = (if peek s = 0 then [] else peek s # cstr (tl s))"
  by (cases s) (auto simp: cstr_def)

lemma cstr_Nil [simp]: "cstr [] = []"
  by (simp add: cstr_def)

lemma cstr_Cons [simp]: "cstr (c # s) = (if c = 0 then [] else c # cstr s)"
  by (simp add: cstr_def)

lemma nul_free_Nil [simp]: "nul_free []"
  by (simp add: nul_free_def)

lemma nul_free_Cons [simp]: "nul_free (c # s) \<longleftrightarrow> c \<noteq> 0 \<and> nul_free s"
  by (auto simp: nul_free_def)

lemma nul_free_append [simp]: "nul_free (s @ t) \<longleftrightarrow> nul_free s \<and> nul_free t"
  by (auto simp: nul_free_def)

lemma nul_free_cstr [simp]: "nul_free (cstr s)"
  by (induction s) auto

lemma cstr_nul_free [simp]: "nul_free s \<Longrightarrow> cstr s = s"
  by (induction s) auto

lemma cstr_idem [simp]: "cstr (cstr s) = cstr s"
  by simp

lemma length_cstr_le [cstring]: "length (cstr s) \<le> length s"
  by (simp add: cstr_def length_takeWhile_le)

lemma cstr_append_nul [cstring]: "nul_free s \<Longrightarrow> cstr (s @ 0 # t) = s"
  by (induction s) auto

lemma nul_free_take [intro]: "nul_free s \<Longrightarrow> nul_free (take n s)"
  by (auto simp: nul_free_def dest: in_set_takeD)

lemma nul_free_drop [intro]: "nul_free s \<Longrightarrow> nul_free (drop n s)"
  by (auto simp: nul_free_def dest: in_set_dropD)

lemma lit_Nil [simp]: "lit [] = []"
  by (simp add: lit_def)

lemma lit_Cons [simp]: "lit (c # s) = of_char c # lit s"
  by (simp add: lit_def)

lemma lit_append [simp]: "lit (s @ t) = lit s @ lit t"
  by (simp add: lit_def)

lemma uint_eq_iff [simp]: "uint a = uint b \<longleftrightarrow> a = (b :: u8)" "uint a = 0 \<longleftrightarrow> a = (0 :: u8)"
  by (rule word_uint_eq_iff [symmetric], rule unsigned_eq_0_iff)

lemma uint_diff_0_iff [simp]: "uint a - uint b = 0 \<longleftrightarrow> a = (b :: u8)"
  by simp

section \<open>Checked buffer accesses\<close>

definition rd8 :: "bytes \<Rightarrow> nat \<Rightarrow> u8 option" where
  "rd8 b i = (if i < length b then Some (b ! i) else None)"

text \<open>\<open>n\<close> bytes from offset \<open>i\<close>, as a copy loop reads them.\<close>

definition rdn :: "bytes \<Rightarrow> nat \<Rightarrow> nat \<Rightarrow> bytes option" where
  "rdn b i n = (if i + n \<le> length b then Some (take n (drop i b)) else None)"

text \<open>The buffer after the bytes \<open>s\<close> were written from offset \<open>i\<close> on.\<close>

definition wrn :: "bytes \<Rightarrow> nat \<Rightarrow> bytes \<Rightarrow> bytes option" where
  "wrn b i s = (if i + length s \<le> length b
     then Some (take i b @ s @ drop (i + length s) b) else None)"

lemma rd8_Some [bufs]: "i < length b \<Longrightarrow> rd8 b i = Some (b ! i)"
  by (simp add: rd8_def)

lemma rd8_None_iff [bufs]: "rd8 b i = None \<longleftrightarrow> length b \<le> i"
  by (auto simp: rd8_def)

lemma rdn_Some [bufs]: "i + n \<le> length b \<Longrightarrow> rdn b i n = Some (take n (drop i b))"
  by (simp add: rdn_def)

lemma rdn_None_iff [bufs]: "rdn b i n = None \<longleftrightarrow> length b < i + n"
  by (auto simp: rdn_def)

lemma length_rdn [bufs]: "rdn b i n = Some s \<Longrightarrow> length s = n"
  by (auto simp: rdn_def split: if_splits)

lemma wrn_Some_iff [bufs]: "(\<exists>b'. wrn b i s = Some b') \<longleftrightarrow> i + length s \<le> length b"
  by (auto simp: wrn_def)

lemma length_wrn [bufs]: "wrn b i s = Some b' \<Longrightarrow> length b' = length b"
  by (auto simp: wrn_def split: if_splits)

lemma take_wrn [bufs]: "wrn b i s = Some b' \<Longrightarrow> take (i + length s) b' = take i b @ s"
  by (auto simp: wrn_def split: if_splits)

lemma rdn_wrn_same [bufs]: "wrn b i s = Some b' \<Longrightarrow> rdn b' i (length s) = Some s"
  by (auto simp: wrn_def rdn_def min_def split: if_splits)

section \<open>Byte order\<close>

text \<open>
  Multi-byte fields. The kernel runs on a little-endian machine: a plain load of a field is
  little-endian, one wrapped in \<open>htons\<close>, \<open>htonl\<close> or \<open>__builtin_bswap\<close> is big-endian.
\<close>

definition join16 :: "u8 \<Rightarrow> u8 \<Rightarrow> u16" where
  "join16 hi lo = push_bit 8 (ucast hi) OR ucast lo"

definition join32 :: "u8 \<Rightarrow> u8 \<Rightarrow> u8 \<Rightarrow> u8 \<Rightarrow> u32" where
  "join32 a b c d = push_bit 24 (ucast a) OR push_bit 16 (ucast b) OR push_bit 8 (ucast c) OR ucast d"

definition put16be :: "u16 \<Rightarrow> bytes" where
  "put16be w = [ucast (drop_bit 8 w), ucast w]"

definition put32be :: "u32 \<Rightarrow> bytes" where
  "put32be w = [ucast (drop_bit 24 w), ucast (drop_bit 16 w), ucast (drop_bit 8 w), ucast w]"

definition put16le :: "u16 \<Rightarrow> bytes" where
  "put16le w = [ucast w, ucast (drop_bit 8 w)]"

definition put32le :: "u32 \<Rightarrow> bytes" where
  "put32le w = [ucast w, ucast (drop_bit 8 w), ucast (drop_bit 16 w), ucast (drop_bit 24 w)]"

definition rd16be :: "bytes \<Rightarrow> nat \<Rightarrow> u16 option" where
  "rd16be b i = (if i + 2 \<le> length b then Some (join16 (b ! i) (b ! (i + 1))) else None)"

definition rd16le :: "bytes \<Rightarrow> nat \<Rightarrow> u16 option" where
  "rd16le b i = (if i + 2 \<le> length b then Some (join16 (b ! (i + 1)) (b ! i)) else None)"

definition rd32be :: "bytes \<Rightarrow> nat \<Rightarrow> u32 option" where
  "rd32be b i = (if i + 4 \<le> length b
     then Some (join32 (b ! i) (b ! (i + 1)) (b ! (i + 2)) (b ! (i + 3))) else None)"

definition rd32le :: "bytes \<Rightarrow> nat \<Rightarrow> u32 option" where
  "rd32le b i = (if i + 4 \<le> length b
     then Some (join32 (b ! (i + 3)) (b ! (i + 2)) (b ! (i + 1)) (b ! i)) else None)"

lemma join16_put16 [simp, wire]: "join16 (ucast (drop_bit 8 w)) (ucast w) = w"
  unfolding join16_def
  by (rule bit_word_eqI) (auto simp: bit_simps)

lemma join32_put32 [simp, wire]:
  "join32 (ucast (drop_bit 24 w)) (ucast (drop_bit 16 w)) (ucast (drop_bit 8 w)) (ucast w) = w"
proof (rule bit_word_eqI)
  fix n
  assume "n < LENGTH(32)"
  then show "bit (join32 (ucast (drop_bit 24 w)) (ucast (drop_bit 16 w)) (ucast (drop_bit 8 w)) (ucast w)) n
      \<longleftrightarrow> bit w n"
    by (cases "n < 8"; cases "n < 16"; cases "n < 24") (auto simp: join32_def bit_simps)
qed

lemma length_put [simp, wire]:
  "length (put16be w) = 2" "length (put16le w) = 2" "length (put32be v) = 4" "length (put32le v) = 4"
  by (simp_all add: put16be_def put16le_def put32be_def put32le_def)

lemma unat_u8_less [simp]: "unat (c :: u8) < 256"
  using unsigned_less [of c] by simp

lemma unat_u16_less [simp]: "unat (w :: u16) < 65536"
  using unsigned_less [of w] by simp

lemma unat_u32_less [simp]: "unat (w :: u32) < 4294967296"
  using unsigned_less [of w] by simp

lemma unat_of_nat_small: "n < 2 ^ 32 \<Longrightarrow> unat (of_nat n :: u32) = n"
  by (simp add: unsigned_of_nat take_bit_nat_eq_self)

lemma unat_add_small32: "unat a + n < 2 ^ 32 \<Longrightarrow> unat (a + of_nat n :: u32) = unat a + n"
  by (simp add: unat_word_ariths unat_of_nat_small)

lemma sint_of_nat_small:
  assumes "n < 2 ^ 31"
  shows "sint (of_nat n :: u32) = int n"
proof -
  have "signed_take_bit 31 (int n) = int n"
    using assms by (intro signed_take_bit_int_eq_self) simp_all
  then show ?thesis
    using assms by (simp add: sint_uint unsigned_of_nat take_bit_nat_eq_self)
qed

lemma unat_join16 [wire]: "unat (join16 hi lo) = 256 * unat hi + unat lo"
proof -
  have *: "join16 hi lo = push_bit 8 (ucast hi) + (ucast lo :: u16)"
    unfolding join16_def
    by (rule disjunctive_add [symmetric]) (auto simp: bit_simps dest: bit_imp_le_length)
  have "(a mod 65536 * 256 mod 65536 + b mod 65536) mod 65536 = 256 * a + b"
    if "a < 256" "b < 256" for a b :: nat
    using that by simp
  from this [of "unat hi" "unat lo"] show ?thesis
    by (simp add: * unat_word_ariths push_bit_eq_mult unsigned_ucast_eq take_bit_eq_mod)
qed

text \<open>Reading off the steps of a monadic definition.\<close>

lemma bind_SomeE:
  assumes "Option.bind m f = Some r"
  obtains x where "m = Some x" "f x = Some r"
  using assms by (cases m) auto

end
