(* ===== verification/Scrollback.thy ===== *)
theory Scrollback
  imports AurionPrelude
begin

text \<open>
  The text-mode scrollback of \<open>src/src/scrollback.c\<close>: a circular buffer of 500 lines, the
  copy of the live screen that is taken when the user starts to scroll, and the redraw of
  the VGA text memory from both.

  The VGA memory is its 25 rows of 80 cells: the code's \<open>VGA_MEMORY[y * SCREEN_WIDTH + x]\<close> is
  column \<open>x\<close> of row \<open>y\<close>. Positions are naturals (the code keeps them below 500 by its own
  \<open>%\<close> and comparison), the scroll offset is the code's \<open>int32_t\<close> as an integer.

  The interface \<open>bounded_log\<close> says what a store of the most recent \<open>cap\<close> entries promises;
  its interpretation on the circular buffer is the refinement of the buffer to a list.
\<close>

section \<open>State\<close>

abbreviation SCROLLBACK_LINES :: nat where "SCROLLBACK_LINES \<equiv> 500"
abbreviation SCREEN_WIDTH :: nat where "SCREEN_WIDTH \<equiv> 80"
abbreviation SCREEN_HEIGHT :: nat where "SCREEN_HEIGHT \<equiv> 25"

type_synonym cells = "u16 list"

record scrollback =
  sb_buffer :: "cells list"
  sb_write_pos :: nat
  sb_count :: nat
  sb_offset :: int
  sb_saved_screen :: "cells list"
  sb_screen_saved :: bool
  sb_vga :: "cells list"

section \<open>Operations\<close>

definition save_current_screen :: "scrollback \<Rightarrow> scrollback" where
  "save_current_screen s =
     (if sb_screen_saved s then s
      else s\<lparr>sb_saved_screen := sb_vga s, sb_screen_saved := True\<rparr>)"

definition restore_saved_screen :: "scrollback \<Rightarrow> scrollback" where
  "restore_saved_screen s =
     (if \<not> sb_screen_saved s then s
      else s\<lparr>sb_vga := sb_saved_screen s, sb_screen_saved := False\<rparr>)"

text \<open>The two writers of the circular buffer share the advance of the write position.\<close>

definition sb_push :: "cells \<Rightarrow> scrollback \<Rightarrow> scrollback" where
  "sb_push row s =
     s\<lparr>sb_buffer := (sb_buffer s)[sb_write_pos s := row],
       sb_write_pos := (sb_write_pos s + 1) mod SCROLLBACK_LINES,
       sb_count := (if sb_count s < SCROLLBACK_LINES then sb_count s + 1 else sb_count s)\<rparr>"

definition scrollback_capture_line :: "scrollback \<Rightarrow> scrollback" where
  "scrollback_capture_line s = sb_push (sb_vga s ! 0) s"

text \<open>
  \<open>line\<close> and \<open>attrs\<close> are null (\<open>None\<close>) or point to memory of which the first 80 bytes are
  read; \<open>None\<close> as the result is a read past the end of that memory.
\<close>

definition sb_cell :: "u8 \<Rightarrow> u8 \<Rightarrow> u16" where
  "sb_cell at ch = push_bit 8 (ucast at) OR ucast ch"

definition scrollback_save_line ::
    "bytes option \<Rightarrow> bytes option \<Rightarrow> scrollback \<Rightarrow> scrollback option" where
  "scrollback_save_line line attrs s = do {
     chs \<leftarrow> (case line of None \<Rightarrow> Some (replicate SCREEN_WIDTH 0x20) | Some l \<Rightarrow> rdn l 0 SCREEN_WIDTH);
     ats \<leftarrow> (case attrs of None \<Rightarrow> Some (replicate SCREEN_WIDTH 0x07) | Some a \<Rightarrow> rdn a 0 SCREEN_WIDTH);
     Some (sb_push (map2 sb_cell ats chs) s) }"

text \<open>One row of \<open>scrollback_redraw\<close>: what row \<open>y\<close> of the screen becomes.\<close>

definition redraw_row :: "scrollback \<Rightarrow> nat \<Rightarrow> cells" where
  "redraw_row s y =
     (let total_lines = int (sb_count s) + int SCREEN_HEIGHT;
          view_start = total_lines - int SCREEN_HEIGHT - sb_offset s;
          line_idx = view_start + int y
      in if line_idx < 0 then replicate SCREEN_WIDTH 0x0720
         else if line_idx < int (sb_count s) then
           sb_buffer s ! ((sb_write_pos s + SCROLLBACK_LINES - sb_count s + nat line_idx) mod SCROLLBACK_LINES)
         else
           (let screen_y = line_idx - int (sb_count s)
            in if screen_y < int SCREEN_HEIGHT \<and> sb_screen_saved s
               then sb_saved_screen s ! nat screen_y else sb_vga s ! y))"

definition set_cell :: "cells list \<Rightarrow> nat \<Rightarrow> nat \<Rightarrow> u16 \<Rightarrow> cells list" where
  "set_cell v y x c = v[y := (v ! y)[x := c]]"

definition scrollback_redraw :: "scrollback \<Rightarrow> scrollback" where
  "scrollback_redraw s =
     (if sb_count s = 0 then s
      else
        (let v = map (redraw_row s) [0..<SCREEN_HEIGHT]
         in s\<lparr>sb_vga :=
              (if 0 < sb_offset s
               then set_cell (set_cell v 0 79 (0x4E00 OR 0x5E)) 24 79 (0x4E00 OR 0x76)
               else v)\<rparr>))"

definition scrollback_scroll_up :: "scrollback \<Rightarrow> scrollback" where
  "scrollback_scroll_up s =
     (if sb_count s = 0 then s
      else
        (let s1 = (if sb_offset s = 0 then save_current_screen s else s)
         in if sb_offset s1 < int (sb_count s1) then
              scrollback_redraw
                (s1\<lparr>sb_offset := (if int (sb_count s1) < sb_offset s1 + 5
                    then int (sb_count s1) else sb_offset s1 + 5)\<rparr>)
            else s1))"

definition scrollback_scroll_down :: "scrollback \<Rightarrow> scrollback" where
  "scrollback_scroll_down s =
     (if 0 < sb_offset s then
        (let s1 = s\<lparr>sb_offset := sb_offset s - 5\<rparr>
         in if sb_offset s1 \<le> 0 then restore_saved_screen (s1\<lparr>sb_offset := 0\<rparr>)
            else scrollback_redraw s1)
      else s)"

definition scrollback_get_offset :: "scrollback \<Rightarrow> int" where
  "scrollback_get_offset s = sb_offset s"

definition scrollback_reset :: "scrollback \<Rightarrow> scrollback" where
  "scrollback_reset s =
     (if 0 < sb_offset s then restore_saved_screen (s\<lparr>sb_offset := 0\<rparr>) else s)"

definition scrollback_is_active :: "scrollback \<Rightarrow> bool" where
  "scrollback_is_active s \<longleftrightarrow> 0 < sb_offset s"

text \<open>The static initialisers, with \<open>v\<close> on the screen.\<close>

definition scrollback_init :: "cells list \<Rightarrow> scrollback" where
  "scrollback_init v =
     \<lparr>sb_buffer = replicate SCROLLBACK_LINES (replicate SCREEN_WIDTH 0), sb_write_pos = 0,
      sb_count = 0, sb_offset = 0,
      sb_saved_screen = replicate SCREEN_HEIGHT (replicate SCREEN_WIDTH 0),
      sb_screen_saved = False, sb_vga = v\<rparr>"

section \<open>Invariant and abstraction\<close>

definition sb_screen :: "cells list \<Rightarrow> bool" where
  "sb_screen v \<longleftrightarrow> length v = SCREEN_HEIGHT \<and> (\<forall>r \<in> set v. length r = SCREEN_WIDTH)"

definition sb_inv :: "scrollback \<Rightarrow> bool" where
  "sb_inv s \<longleftrightarrow>
     length (sb_buffer s) = SCROLLBACK_LINES \<and> (\<forall>r \<in> set (sb_buffer s). length r = SCREEN_WIDTH) \<and>
     sb_write_pos s < SCROLLBACK_LINES \<and> sb_count s \<le> SCROLLBACK_LINES \<and>
     0 \<le> sb_offset s \<and> sb_offset s \<le> int (sb_count s) \<and>
     (0 < sb_offset s \<longleftrightarrow> sb_screen_saved s) \<and>
     sb_screen (sb_vga s) \<and> sb_screen (sb_saved_screen s)"

text \<open>The history that the buffer stands for, oldest line first.\<close>

definition sb_history :: "scrollback \<Rightarrow> cells list" where
  "sb_history s =
     map (\<lambda>i. sb_buffer s ! ((sb_write_pos s + SCROLLBACK_LINES - sb_count s + i) mod SCROLLBACK_LINES))
       [0..<sb_count s]"

lemma length_sb_history [simp]: "length (sb_history s) = sb_count s"
  by (simp add: sb_history_def)

section \<open>The interface of a bounded log\<close>

locale bounded_log =
  fixes cap :: nat
    and log_of :: "'s \<Rightarrow> 'a list"
    and push :: "'a \<Rightarrow> 's \<Rightarrow> 's"
    and inv :: "'s \<Rightarrow> bool"
    and ok :: "'a \<Rightarrow> bool"
  assumes log_push: "inv s \<Longrightarrow> ok x \<Longrightarrow> log_of (push x s) = drop (length (log_of s) + 1 - cap) (log_of s @ [x])"
    and inv_push: "inv s \<Longrightarrow> ok x \<Longrightarrow> inv (push x s)"
    and log_bound: "inv s \<Longrightarrow> length (log_of s) \<le> cap"
    and cap_pos: "0 < cap"
begin

lemma inv_pushes: "inv s \<Longrightarrow> (\<And>x. x \<in> set xs \<Longrightarrow> ok x) \<Longrightarrow> inv (fold push xs s)"
  by (induction xs arbitrary: s) (auto intro: inv_push)

lemma log_pushes:
  assumes "inv s" and "\<And>x. x \<in> set xs \<Longrightarrow> ok x"
  shows "log_of (fold push xs s) = drop (length (log_of s) + length xs - cap) (log_of s @ xs)"
  using assms
proof (induction xs arbitrary: s)
  case Nil
  then show ?case using log_bound [of s] by simp
next
  case (Cons x xs)
  let ?l = "log_of s"
  have inv': "inv (push x s)" and ok: "ok x"
    using Cons.prems by (auto intro: inv_push)
  have lg: "log_of (push x s) = drop (length ?l + 1 - cap) (?l @ [x])"
    using Cons.prems by (simp add: log_push)
  have "log_of (fold push (x # xs) s)
      = drop (length (log_of (push x s)) + length xs - cap) (log_of (push x s) @ xs)"
    using Cons inv' by simp
  also have "log_of (push x s) @ xs = drop (length ?l + 1 - cap) (?l @ x # xs)"
    using log_bound [OF Cons.prems(1)] cap_pos by (simp add: lg)
  also have "drop (length (log_of (push x s)) + length xs - cap) \<dots>
      = drop (length ?l + length (x # xs) - cap) (?l @ x # xs)"
  proof (cases "length ?l = cap")
    case True
    then show ?thesis
      using cap_pos by (simp add: lg)
  next
    case False
    then have "length ?l + 1 - cap = 0"
      using log_bound [OF Cons.prems(1)] by simp
    then show ?thesis
      by (simp add: lg)
  qed
  finally show ?case .
qed

end

section \<open>The circular buffer is a bounded log\<close>

lemma sb_history_push:
  assumes "sb_inv s"
  shows "sb_history (sb_push row s) = drop (sb_count s + 1 - SCROLLBACK_LINES) (sb_history s @ [row])"
    (is "?l = ?r")
proof (rule nth_equalityI)
  let ?w = "sb_write_pos s" and ?c = "sb_count s"
  have b: "length (sb_buffer s) = 500" "?w < 500" "?c \<le> 500"
    using assms by (auto simp: sb_inv_def)
  show len: "length ?l = length ?r"
    using b by (auto simp: sb_push_def)
  fix i
  assume "i < length ?l"
  then have i: "i < (if ?c < 500 then ?c + 1 else ?c)"
    by (simp add: sb_push_def)
  show "?l ! i = ?r ! i"
  proof (cases "?c < 500")
    case True
    have pos: "((?w + 1) mod 500 + 500 - (?c + 1) + i) mod 500 = (?w + 500 - ?c + i) mod 500"
    proof (cases "?w + 1 = 500")
      case True
      then show ?thesis using \<open>?c < 500\<close>
        by (simp add: mod_if)
    next
      case False
      then have "(?w + 1) mod 500 + 500 - (?c + 1) + i = ?w + 500 - ?c + i"
        using b \<open>?c < 500\<close> by simp
      then show ?thesis by (simp only:)
    qed
    have hit: "(?w + 500 - ?c + i) mod 500 = ?w \<longleftrightarrow> i = ?c" if "i \<le> ?c"
    proof (cases "i = ?c")
      case True
      then show ?thesis using b by simp
    next
      case False
      then show ?thesis using b that \<open>?c < 500\<close> by (cases "?w + 500 - ?c + i < 500") (auto simp: mod_if)
    qed
    show ?thesis
      using True i b pos hit
      by (auto simp: sb_history_def sb_push_def nth_append nth_list_update)
  next
    case False
    with b have c: "?c = 500" by simp
    have pos: "((?w + 1) mod 500 + i) mod 500 = (?w + (i + 1)) mod 500"
      by presburger
    have "(?w + (i + 1)) mod 500 = ?w \<longleftrightarrow> i + 1 = 500" if "i < 500"
      using b that by (cases "?w + (i + 1) < 500") (auto simp: mod_if)
    then show ?thesis
      using c i b pos
      by (auto simp: sb_history_def sb_push_def nth_append nth_list_update)
  qed
qed

lemma sb_inv_push: "sb_inv s \<Longrightarrow> length row = SCREEN_WIDTH \<Longrightarrow> sb_inv (sb_push row s)"
  by (auto simp: sb_inv_def sb_push_def dest!: set_update_subset_insert [THEN subsetD])

interpretation vga_log: bounded_log SCROLLBACK_LINES sb_history sb_push sb_inv
    "\<lambda>row. length row = SCREEN_WIDTH"
  by unfold_locales (simp_all add: sb_history_push sb_inv_push, simp add: sb_inv_def)

section \<open>Every operation keeps the invariant\<close>

lemma redraw_row_length:
  assumes "sb_inv s" and "y < SCREEN_HEIGHT"
  shows "length (redraw_row s y) = SCREEN_WIDTH"
proof -
  have "(sb_write_pos s + 500 - sb_count s + k) mod 500 < 500" for k
    by simp
  with assms show ?thesis
    by (auto simp: redraw_row_def sb_inv_def sb_screen_def Let_def)
qed

lemma sb_screen_set_cell: "sb_screen v \<Longrightarrow> y < SCREEN_HEIGHT \<Longrightarrow> sb_screen (set_cell v y x c)"
  by (auto simp: sb_screen_def set_cell_def dest!: set_update_subset_insert [THEN subsetD])

lemma sb_screen_redraw: "sb_inv s \<Longrightarrow> sb_screen (map (redraw_row s) [0..<SCREEN_HEIGHT])"
  by (auto simp: sb_screen_def redraw_row_length)

lemma sb_inv_redraw: "sb_inv s \<Longrightarrow> sb_inv (scrollback_redraw s)"
  using sb_screen_redraw [of s]
  by (auto simp: scrollback_redraw_def Let_def sb_inv_def intro!: sb_screen_set_cell)

lemma sb_inv_capture: "sb_inv s \<Longrightarrow> sb_inv (scrollback_capture_line s)"
  unfolding scrollback_capture_line_def
  by (rule sb_inv_push) (auto simp: sb_inv_def sb_screen_def)

lemma sb_inv_save_line:
  "sb_inv s \<Longrightarrow> scrollback_save_line line attrs s = Some s' \<Longrightarrow> sb_inv s'"
  by (auto simp: scrollback_save_line_def rdn_def bind_eq_Some_conv
      split: option.splits if_splits intro!: sb_inv_push)

lemma sb_inv_scroll_up: "sb_inv s \<Longrightarrow> sb_inv (scrollback_scroll_up s)"
  by (auto simp: scrollback_scroll_up_def Let_def save_current_screen_def
      intro!: sb_inv_redraw) (auto simp: sb_inv_def)

lemma sb_inv_scroll_down: "sb_inv s \<Longrightarrow> sb_inv (scrollback_scroll_down s)"
  by (auto simp: scrollback_scroll_down_def Let_def restore_saved_screen_def
      intro!: sb_inv_redraw) (auto simp: sb_inv_def)

lemma sb_inv_reset: "sb_inv s \<Longrightarrow> sb_inv (scrollback_reset s)"
  by (auto simp: scrollback_reset_def restore_saved_screen_def sb_inv_def)

lemma sb_inv_init: "sb_screen v \<Longrightarrow> sb_inv (scrollback_init v)"
  by (auto simp: sb_inv_def scrollback_init_def sb_screen_def)

text \<open>The component as a step relation: what the console and the keyboard interrupt may call.\<close>

inductive sb_step :: "scrollback \<Rightarrow> scrollback \<Rightarrow> bool" where
  capture: "sb_step s (scrollback_capture_line s)"
| save_line: "scrollback_save_line line attrs s = Some s' \<Longrightarrow> sb_step s s'"
| up: "sb_step s (scrollback_scroll_up s)"
| down: "sb_step s (scrollback_scroll_down s)"
| reset: "sb_step s (scrollback_reset s)"

inductive sb_reach :: "cells list \<Rightarrow> scrollback \<Rightarrow> bool" for v where
  init: "sb_reach v (scrollback_init v)"
| step: "sb_reach v s \<Longrightarrow> sb_step s s' \<Longrightarrow> sb_reach v s'"

lemma sb_step_inv: "sb_step s s' \<Longrightarrow> sb_inv s \<Longrightarrow> sb_inv s'"
  by (induction rule: sb_step.induct)
    (auto intro: sb_inv_capture sb_inv_save_line sb_inv_scroll_up sb_inv_scroll_down sb_inv_reset)

lemma sb_reach_inv: "sb_reach v s \<Longrightarrow> sb_screen v \<Longrightarrow> sb_inv s"
  by (induction rule: sb_reach.induct) (auto intro: sb_inv_init sb_step_inv)

section \<open>What the redraw shows\<close>

lemma redraw_row_view:
  assumes inv: "sb_inv s" and off: "0 < sb_offset s" and y: "y < SCREEN_HEIGHT"
  shows "redraw_row s y = (sb_history s @ sb_saved_screen s) ! (sb_count s - nat (sb_offset s) + y)"
proof -
  have b: "0 < sb_offset s" "sb_offset s \<le> int (sb_count s)" "sb_screen_saved s"
      "length (sb_saved_screen s) = 25"
    using inv off by (auto simp: sb_inv_def sb_screen_def)
  define k where "k = sb_count s - nat (sb_offset s) + y"
  have idx: "int (sb_count s) + int SCREEN_HEIGHT - int SCREEN_HEIGHT - sb_offset s + int y = int k"
    using b by (simp add: k_def)
  have "k - sb_count s < 25" "int k - int (sb_count s) < 25"
    using b y unfolding k_def by linarith+
  then show ?thesis
    using b idx y unfolding k_def [symmetric]
    by (auto simp: redraw_row_def Let_def sb_history_def nth_append nat_diff_distrib')
qed

text \<open>Scrolling only: the three keys, in any order.\<close>

datatype scroll_key = PgUp | PgDn | Reset

fun scroll_key_step :: "scrollback \<Rightarrow> scroll_key \<Rightarrow> scrollback" where
  "scroll_key_step s PgUp = scrollback_scroll_up s"
| "scroll_key_step s PgDn = scrollback_scroll_down s"
| "scroll_key_step s Reset = scrollback_reset s"

text \<open>While scrolled the saved screen is the live one; otherwise the live one is on display.\<close>

definition live_screen :: "scrollback \<Rightarrow> cells list" where
  "live_screen s = (if 0 < sb_offset s then sb_saved_screen s else sb_vga s)"

lemma sb_redraw_frame [simp]:
  "sb_offset (scrollback_redraw s) = sb_offset s"
  "sb_saved_screen (scrollback_redraw s) = sb_saved_screen s"
  "sb_count (scrollback_redraw s) = sb_count s"
  "sb_history (scrollback_redraw s) = sb_history s"
  by (auto simp: scrollback_redraw_def Let_def sb_history_def)

lemma live_screen_step: "sb_inv s \<Longrightarrow> live_screen (scroll_key_step s k) = live_screen s"
  by (cases k)
    (auto simp: live_screen_def scrollback_scroll_up_def scrollback_scroll_down_def Let_def
      scrollback_reset_def save_current_screen_def restore_saved_screen_def sb_inv_def)

lemma sb_inv_key: "sb_inv s \<Longrightarrow> sb_inv (scroll_key_step s k)"
  by (cases k) (auto intro: sb_inv_scroll_up sb_inv_scroll_down sb_inv_reset)

lemma live_screen_keys: "sb_inv s \<Longrightarrow> live_screen (foldl scroll_key_step s ks) = live_screen s"
  by (induction ks arbitrary: s) (simp_all add: live_screen_step sb_inv_key)

section \<open>Properties\<close>

text \<open>
  The circular buffer is a log of the last 500 lines: after any sequence of captured
  rows the history, oldest first, is exactly the last 500 rows of the sequence.
\<close>

theorem scrollback_keeps_last_500:
  assumes "\<forall>r \<in> set rows. length r = SCREEN_WIDTH" and "sb_screen v"
  shows "sb_history (fold sb_push rows (scrollback_init v)) = drop (length rows - SCROLLBACK_LINES) rows"
proof -
  have "sb_history (scrollback_init v) = []"
    by (simp add: sb_history_def scrollback_init_def)
  then show ?thesis
    using vga_log.log_pushes [OF sb_inv_init [OF assms(2)], of rows] assms(1) by simp
qed

theorem scrollback_keeps_last_500_witness:
  "sb_history (fold sb_push [replicate 80 1, replicate 80 2]
     (scrollback_init (replicate 25 (replicate 80 0)))) = [replicate 80 1, replicate 80 2]"
proof -
  have "sb_screen (replicate 25 (replicate 80 0))"
    by (simp add: sb_screen_def)
  then show ?thesis
    using scrollback_keeps_last_500 [of "[replicate 80 1, replicate 80 2]"
        "replicate 25 (replicate 80 0)"] by simp
qed

text \<open>
  In every reachable state, scrolling up displays the 25 lines of history and live screen
  that start \<open>offset\<close> lines above the live screen (all cells but the two scroll markers), the
  offset grows by 5 and never exceeds the number of stored lines.
\<close>

theorem scroll_up_shows_window:
  assumes "sb_reach v s" and "sb_screen v" and "0 < sb_count s" and "sb_offset s < int (sb_count s)"
    and "y < SCREEN_HEIGHT" and "x < SCREEN_WIDTH" and "(y, x) \<notin> {(0, 79), (24, 79)}"
  shows "sb_offset (scrollback_scroll_up s) = min (sb_offset s + 5) (int (sb_count s))
    \<and> sb_vga (scrollback_scroll_up s) ! y ! x
      = (sb_history s @ live_screen s)
          ! (sb_count s - nat (sb_offset (scrollback_scroll_up s)) + y) ! x"
proof -
  let ?o = "min (sb_offset s + 5) (int (sb_count s))"
  let ?s1 = "if sb_offset s = 0 then save_current_screen s else s"
  let ?t = "?s1\<lparr>sb_offset := ?o\<rparr>"
  have inv: "sb_inv s"
    using assms(1,2) by (rule sb_reach_inv)
  have up: "scrollback_scroll_up s = scrollback_redraw ?t"
    using assms(3,4) by (auto simp: scrollback_scroll_up_def Let_def save_current_screen_def min_def)
  have o: "0 < ?o"
    using inv assms(3) by (auto simp: sb_inv_def)
  have t: "sb_inv ?t" "sb_history ?t = sb_history s" "sb_count ?t = sb_count s"
      "sb_saved_screen ?t = live_screen s"
    using inv o by (auto simp: sb_inv_def save_current_screen_def sb_history_def live_screen_def)
  have "sb_vga (scrollback_redraw ?t) ! y ! x = redraw_row ?t y ! x"
    using assms(3,5,6,7) o redraw_row_length [OF t(1)]
    by (auto simp: scrollback_redraw_def Let_def set_cell_def nth_list_update save_current_screen_def)
  also have "redraw_row ?t y = (sb_history s @ live_screen s) ! (sb_count s - nat ?o + y)"
    using redraw_row_view [OF t(1) _ assms(5)] o t by simp
  finally show ?thesis
    by (simp add: up)
qed

theorem scroll_up_shows_window_witness:
  "\<exists>s. sb_reach (replicate 25 (replicate 80 0)) s \<and>
    sb_vga (scrollback_scroll_up s) ! 1 ! 5
      = (sb_history s @ live_screen s) ! (1 - nat (sb_offset (scrollback_scroll_up s)) + 1) ! 5"
proof -
  let ?v = "replicate 25 (replicate 80 0) :: cells list"
  let ?s = "scrollback_capture_line (scrollback_init ?v)"
  have r: "sb_reach ?v ?s"
    by (rule sb_reach.step [OF sb_reach.init sb_step.capture])
  have c: "sb_count ?s = 1" "sb_offset ?s = 0"
    by (simp_all add: scrollback_capture_line_def sb_push_def scrollback_init_def)
  have v: "sb_screen ?v"
    by (simp add: sb_screen_def)
  show ?thesis
    using scroll_up_shows_window [OF r v, of 1 5] r c by auto
qed

text \<open>
  Scrolling never damages the live screen: from a reachable state in live view, any
  sequence of page-up, page-down and reset that ends in live view leaves the VGA memory
  exactly as it was.
\<close>

theorem scrolling_restores_live_screen:
  assumes "sb_reach v s" and "sb_screen v" and "\<not> scrollback_is_active s"
    and "\<not> scrollback_is_active (foldl scroll_key_step s ks)"
  shows "sb_vga (foldl scroll_key_step s ks) = sb_vga s"
  using live_screen_keys [OF sb_reach_inv [OF assms(1,2)], of ks] assms(3,4)
  by (simp add: live_screen_def scrollback_is_active_def)

theorem scrolling_restores_live_screen_witness:
  "\<exists>s. sb_reach (replicate 25 (replicate 80 7)) s \<and> 0 < sb_count s \<and>
     sb_vga (foldl scroll_key_step s [PgUp, PgDn]) = sb_vga s"
proof -
  let ?v = "replicate 25 (replicate 80 7) :: cells list"
  let ?s = "scrollback_capture_line (scrollback_init ?v)"
  have r: "sb_reach ?v ?s"
    by (rule sb_reach.step [OF sb_reach.init sb_step.capture])
  have c: "sb_count ?s = 1" "sb_offset ?s = 0"
    by (simp_all add: scrollback_capture_line_def sb_push_def scrollback_init_def)
  have v: "sb_screen ?v"
    by (simp add: sb_screen_def)
  have a: "\<not> scrollback_is_active ?s" "\<not> scrollback_is_active (foldl scroll_key_step ?s [PgUp, PgDn])"
    using c by (auto simp: scrollback_is_active_def scrollback_scroll_up_def Let_def
        save_current_screen_def scrollback_scroll_down_def restore_saved_screen_def)
  show ?thesis
    using scrolling_restores_live_screen [OF r v a] r c by auto
qed

end
