(* ===== verification/KMath.thy ===== *)
theory KMath
  imports AurionPrelude
begin

text \<open>
  The integer routines of \<open>src/src/utils.c\<close>: minimum, power, square root, the linear
  congruential generator, the bit tricks, and the one-key input latch.

  \<open>int32_t\<close> arguments of the routines that wrap are signed 32-bit words (\<open>sint\<close> reads them);
  where no operation can leave the range they are integers. Division by zero traps: the
  square root returns an option, \<open>None\<close> for the trap.
\<close>

section \<open>Signed integers of C\<close>

text \<open>The value of an \<open>int32_t\<close> after wrapping, and the truncating division of C.\<close>

definition wrap32 :: "int \<Rightarrow> int" where
  "wrap32 x = (x + 2 ^ 31) mod 2 ^ 32 - 2 ^ 31"

definition int32 :: "int \<Rightarrow> bool" where
  "int32 x \<longleftrightarrow> - (2 ^ 31) \<le> x \<and> x < 2 ^ 31"

definition cdiv :: "int \<Rightarrow> int \<Rightarrow> int" where
  "cdiv a b = sgn a * sgn b * (\<bar>a\<bar> div \<bar>b\<bar>)"

definition cmod :: "int \<Rightarrow> int \<Rightarrow> int" where
  "cmod a b = a - b * cdiv a b"

lemma wrap32_id [simp]: "int32 x \<Longrightarrow> wrap32 x = x"
  by (simp add: wrap32_def int32_def)

lemma int32_wrap32 [simp]: "int32 (wrap32 x)"
proof -
  have "0 \<le> (x + 2 ^ 31) mod 2 ^ 32" "(x + 2 ^ 31) mod 2 ^ 32 < 2 ^ 32"
    by (simp_all del: add_divide_distrib)
  then show ?thesis
    by (simp add: wrap32_def int32_def)
qed

lemma cdiv_nonneg: "0 \<le> a \<Longrightarrow> 0 < b \<Longrightarrow> cdiv a b = a div b"
  by (cases "a = 0") (simp_all add: cdiv_def)

lemma cmod_nonneg: "0 \<le> a \<Longrightarrow> 0 < b \<Longrightarrow> cmod a b = a mod b"
  by (simp add: cmod_def cdiv_nonneg minus_mult_div_eq_mod)

section \<open>Comparison and power\<close>

definition min_c :: "int \<Rightarrow> int \<Rightarrow> int" where
  "min_c a b = (if a < b then a else b)"

definition max_c :: "int \<Rightarrow> int \<Rightarrow> int" where
  "max_c a b = (if a > b then a else b)"

definition clamp :: "int \<Rightarrow> int \<Rightarrow> int \<Rightarrow> int" where
  "clamp val min_val max_val =
     (if val < min_val then min_val else if val > max_val then max_val else val)"

text \<open>\<open>-value\<close> wraps for the least \<open>int32_t\<close>.\<close>

definition abs_c :: "int \<Rightarrow> int" where
  "abs_c value = (if value < 0 then wrap32 (- value) else value)"

text \<open>The loop of \<open>pow\<close>: square and multiply on wrapping 32-bit products.\<close>

function pow_loop :: "u32 \<Rightarrow> u32 \<Rightarrow> nat \<Rightarrow> u32" where
  "pow_loop result base exp =
     (if 0 < exp
      then pow_loop (if odd exp then result * base else result) (base * base) (exp div 2)
      else result)"
  by pat_completeness auto
termination
  by (relation "measure (\<lambda>(_, _, e). e)") auto

declare pow_loop.simps [simp del]

definition pow_c :: "u32 \<Rightarrow> int \<Rightarrow> u32" where
  "pow_c base exp = (if exp < 0 then 0 else if exp = 0 then 1 else pow_loop 1 base (nat exp))"

lemma pow_loop_eq: "pow_loop r b e = r * b ^ e"
proof (induction r b e rule: pow_loop.induct)
  case (1 r b e)
  show ?case
  proof (cases "0 < e")
    case True
    have sq: "(b * b) ^ (e div 2) = b ^ (2 * (e div 2))"
      by (simp add: power_mult power2_eq_square)
    have "r * b ^ e = (if odd e then r * b else r) * (b * b) ^ (e div 2)"
    proof (cases "odd e")
      case True
      then have "b ^ e = b * b ^ (2 * (e div 2))"
        by (metis odd_two_times_div_two_succ power_Suc Suc_eq_plus1)
      with True show ?thesis by (simp add: sq mult.assoc)
    qed (simp add: sq)
    with True 1 show ?thesis
      by (simp add: pow_loop.simps [of r b e])
  qed (simp add: pow_loop.simps)
qed

lemma pow_c_eq: "0 \<le> e \<Longrightarrow> pow_c b e = b ^ nat e"
  by (auto simp: pow_c_def pow_loop_eq)

section \<open>Square root\<close>

text \<open>
  Newton's iteration; the \<open>uint32_t\<close> divisions trap on a zero divisor. The recursion is
  bounded by \<open>x\<close>, which the guard \<open>y < x\<close> makes smaller in every round.
\<close>

function sqrt_loop :: "u32 \<Rightarrow> u32 \<Rightarrow> u32 \<Rightarrow> u32 option" where
  "sqrt_loop n x y =
     (if y < x
      then (if y = 0 then None else sqrt_loop n y ((y + n div y) div 2))
      else Some x)"
  by pat_completeness auto
termination
  by (relation "measure (\<lambda>(_, x, _). unat x)") (auto simp: word_less_nat_alt)

declare sqrt_loop.simps [simp del]

definition sqrt_c :: "u32 \<Rightarrow> u32 option" where
  "sqrt_c n = (if n = 0 then Some 0 else if n = 1 then Some 1 else sqrt_loop n n ((n + 1) div 2))"

lemma newton_ge:
  fixes n x :: nat
  assumes "0 < x" and "m * m \<le> n"
  shows "m \<le> (x + n div x) div 2"
proof -
  have "2 * m * x \<le> m * m + x * x"
  proof -
    have "2 * int m * int x \<le> int m * int m + int x * int x"
      using zero_le_square [of "int m - int x"] by (simp add: algebra_simps)
    then show ?thesis
      by (metis of_nat_add of_nat_le_iff of_nat_mult of_nat_numeral)
  qed
  then have "2 * m * x \<le> n + x * x"
    using assms by linarith
  then have "2 * m * x div x \<le> (n + x * x) div x"
    by (rule div_le_mono)
  then have "2 * m \<le> (n + x * x) div x"
    using assms(1) by simp
  also have "(n + x * x) div x = x + n div x"
    using assms(1) by simp
  finally show ?thesis by simp
qed

lemma newton_stop:
  fixes n x :: nat
  assumes "0 < x" and "x \<le> (x + n div x) div 2"
  shows "x * x \<le> n"
proof -
  have "x \<le> n div x"
    using assms(2) by linarith
  then have "x * x \<le> n div x * x"
    by simp
  also have "\<dots> \<le> n"
    by simp
  finally show ?thesis .
qed

text \<open>
  The loop on natural numbers: for \<open>y\<close> the Newton step of \<open>x\<close>, it returns the integer root.
\<close>

definition isqrt :: "nat \<Rightarrow> nat" where
  "isqrt n = (GREATEST m. m * m \<le> n)"

lemma isqrt_unique:
  assumes "r * r \<le> n" and "n < (r + 1) * (r + 1)"
  shows "isqrt n = r"
  unfolding isqrt_def
proof (rule Greatest_equality)
  show "r * r \<le> n" by fact
next
  fix m assume "m * m \<le> n"
  then have "m * m < (r + 1) * (r + 1)"
    using assms(2) by linarith
  then have "m < r + 1"
    by (meson mult_le_mono not_less)
  then show "m \<le> r" by simp
qed

lemma sqrt_loop_correct:
  assumes "0 < x" and "unat y = (unat x + unat n div unat x) div 2" and "unat x < 2 ^ 32 - 1"
    and "unat n < (unat x + 1) * (unat x + 1)" and "0 < n"
  shows "\<exists>r. sqrt_loop n x y = Some r \<and> unat r * unat r \<le> unat n \<and> unat n < (unat r + 1) * (unat r + 1)"
  using assms
proof (induction n x y rule: sqrt_loop.induct)
  case (1 n x y)
  have x0: "0 < unat x"
    using "1.prems"(1) by (simp add: word_less_nat_alt)
  show ?case
  proof (cases "y < x")
    case False
    then have "unat x \<le> (unat x + unat n div unat x) div 2"
      using "1.prems"(2) by (simp add: word_less_nat_alt)
    then have "unat x * unat x \<le> unat n"
      using x0 by (rule newton_stop [rotated])
    with False "1.prems" show ?thesis
      by (simp add: sqrt_loop.simps [of n x y])
  next
    case True
    have yx: "unat y < unat x"
      using True by (simp add: word_less_nat_alt)
    have n1: "1 * 1 \<le> unat n"
      using "1.prems"(5) by (simp add: word_less_nat_alt)
    have y1: "1 \<le> unat y"
      using newton_ge [OF x0 n1] "1.prems"(2) by simp
    then have y0: "y \<noteq> 0" by auto
    have below: "unat n < (unat y + 1) * (unat y + 1)"
    proof (rule ccontr)
      assume "\<not> ?thesis"
      then have "unat y + 1 \<le> (unat x + unat n div unat x) div 2"
        using newton_ge [OF x0, of "unat y + 1" "unat n"] by linarith
      then show False using "1.prems"(2) by simp
    qed
    have quot: "unat n div unat y \<le> unat y + 2"
    proof -
      have "unat n \<le> unat y * (unat y + 2)"
        using below by (simp add: algebra_simps)
      then have "unat n div unat y \<le> unat y * (unat y + 2) div unat y"
        by (rule div_le_mono)
      with y1 show ?thesis by simp
    qed
    have "2 * unat y \<le> unat x + unat n div unat x"
      using "1.prems"(2) by linarith
    have nofl: "unat y + unat n div unat y < 2 ^ 32"
    proof (cases "unat y \<le> 65536")
      case True
      then show ?thesis using quot by simp
    next
      case False
      have "unat n div unat y \<le> unat n div 65536"
        using False by (simp add: div_le_mono2)
      moreover have "unat n div 65536 < 65536"
        by (simp add: less_mult_imp_div_less)
      moreover have "unat y < 2 ^ 31 + 2 ^ 31 - 65536"
      proof -
        have "unat n div unat x \<le> unat n div 65536"
          using False yx by (simp add: div_le_mono2)
        then have "unat y \<le> (2 ^ 32 + 65536) div 2"
          using "1.prems"(2,3) \<open>unat n div 65536 < 65536\<close> by simp
        then show ?thesis by simp
      qed
      ultimately show ?thesis by simp
    qed
    have step: "unat ((y + n div y) div 2) = (unat y + unat n div unat y) div 2"
      using nofl by (simp add: unat_div unat_word_ariths)
    show ?thesis
      using "1.IH" [OF True y0 _ step _ below "1.prems"(5)] y0 yx "1.prems"(3) True
      by (simp add: sqrt_loop.simps [of n x y] word_gt_0)
  qed
qed

text \<open>
  Wherever the first step does not wrap, the routine returns the integer square root; at
  the largest \<open>uint32_t\<close> the first step \<open>(n + 1) / 2\<close> wraps to 0 and the next one divides by it.
\<close>

lemma sqrt_c_correct:
  assumes "unat n < 2 ^ 32 - 1"
  shows "\<exists>r. sqrt_c n = Some r \<and> unat r * unat r \<le> unat n \<and> unat n < (unat r + 1) * (unat r + 1)"
proof (cases "n = 0 \<or> n = 1")
  case True
  then show ?thesis by (auto simp: sqrt_c_def)
next
  case False
  then have "unat n \<noteq> 0" "unat n \<noteq> 1"
    by (simp_all add: word_unat_eq_iff)
  then have "0 < n" "1 < unat n"
    by (simp_all add: word_less_nat_alt)
  moreover have "unat ((n + 1) div 2) = (unat n + unat n div unat n) div 2"
    using assms \<open>1 < unat n\<close> by (simp add: unat_div unat_word_ariths)
  moreover have "unat n < (unat n + 1) * (unat n + 1)"
    by simp
  ultimately show ?thesis
    using sqrt_loop_correct [of n "(n + 1) div 2" n] assms False by (simp add: sqrt_c_def)
qed

lemma sqrt_c_max: "sqrt_c 0xFFFFFFFF = None"
  by (simp add: sqrt_c_def sqrt_loop.simps)

section \<open>Random numbers\<close>

definition srand :: "u32 \<Rightarrow> u32" where
  "srand seed = seed"

definition rand :: "u32 \<Rightarrow> u32 \<times> u32" where
  "rand rng_seed =
     (let seed' = rng_seed * 1103515245 + 12345
      in ((seed' div 65536) mod 32768, seed'))"

text \<open>
  \<open>rand() % (max - min + 1)\<close> is unsigned; \<open>None\<close> is the trap on a modulus that wrapped to 0.
\<close>

definition rand_range :: "int \<Rightarrow> int \<Rightarrow> u32 \<Rightarrow> (int \<times> u32) option" where
  "rand_range min_val max_val rng_seed =
     (if max_val \<le> min_val then Some (min_val, rng_seed)
      else
        (let (r, seed') = rand rng_seed; m = (word_of_int (max_val - min_val + 1) :: u32)
         in if m = 0 then None
            else Some (sint (word_of_int (min_val + uint (r mod m)) :: u32), seed')))"

lemma rand_bound: "unat (fst (rand s)) < 32768"
proof -
  have "unat ((s' div 65536) mod 32768 :: u32) < 32768" for s' :: u32
    by (simp add: unat_mod)
  then show ?thesis by (simp add: rand_def Let_def)
qed

section \<open>Bits\<close>

fun popcount_loop :: "nat \<Rightarrow> nat \<Rightarrow> nat" where
  "popcount_loop n count =
     (if n = 0 then count else popcount_loop (n div 2) (count + n mod 2))"

declare popcount_loop.simps [simp del]

definition popcount :: "u32 \<Rightarrow> nat" where
  "popcount n = popcount_loop (unat n) 0"

definition clz :: "u32 \<Rightarrow> nat" where
  "clz n =
     (if n = 0 then 32
      else
        (let (c, n) = (if n AND 0xFFFF0000 = 0 then (16, push_bit 16 n) else (0, n));
             (c, n) = (if n AND 0xFF000000 = 0 then (c + 8, push_bit 8 n) else (c, n));
             (c, n) = (if n AND 0xF0000000 = 0 then (c + 4, push_bit 4 n) else (c, n));
             (c, n) = (if n AND 0xC0000000 = 0 then (c + 2, push_bit 2 n) else (c, n))
         in if n AND 0x80000000 = 0 then c + 1 else c))"

function ctz_loop :: "nat \<Rightarrow> nat \<Rightarrow> nat" where
  "ctz_loop n count = (if n \<noteq> 0 \<and> even n then ctz_loop (n div 2) (count + 1) else count)"
  by pat_completeness auto
termination
  by (relation "measure fst") auto

declare ctz_loop.simps [simp del]

definition ctz :: "u32 \<Rightarrow> nat" where
  "ctz n = (if n = 0 then 32 else ctz_loop (unat n) 0)"

definition is_power_of_2 :: "u32 \<Rightarrow> bool" where
  "is_power_of_2 n \<longleftrightarrow> n \<noteq> 0 \<and> n AND (n - 1) = 0"

definition next_power_of_2 :: "u32 \<Rightarrow> u32" where
  "next_power_of_2 n =
     (if n = 0 then 1
      else
        (let n = n - 1;
             n = n OR drop_bit 1 n;
             n = n OR drop_bit 2 n;
             n = n OR drop_bit 4 n;
             n = n OR drop_bit 8 n;
             n = n OR drop_bit 16 n
         in n + 1))"

lemma smear_step:
  fixes w n :: u32
  assumes "\<And>i. bit w i \<longleftrightarrow> (\<exists>k<m. bit n (i + k))"
  shows "bit (w OR drop_bit m w) i \<longleftrightarrow> (\<exists>k<2 * m. bit n (i + k))"
proof -
  have "(\<exists>k<m. bit n (i + k)) \<or> (\<exists>k<m. bit n (m + i + k)) \<longleftrightarrow> (\<exists>k<2 * m. bit n (i + k))"
  proof (intro iffI; elim disjE exE conjE)
    fix k assume k: "k < 2 * m" "bit n (i + k)"
    show "(\<exists>k<m. bit n (i + k)) \<or> (\<exists>k<m. bit n (m + i + k))"
    proof (cases "k < m")
      case True
      with k show ?thesis by blast
    next
      case False
      then have "k - m < m" "bit n (m + i + (k - m))"
        using k by (simp_all add: algebra_simps)
      then show ?thesis by blast
    qed
  next
    fix k assume "k < m" "bit n (m + i + k)"
    then show "\<exists>k<2 * m. bit n (i + k)"
      by (auto intro!: exI [of _ "m + k"] simp: algebra_simps)
  next
    fix k assume "k < m" "bit n (i + k)"
    then show "\<exists>k<2 * m. bit n (i + k)"
      by (intro exI [of _ k]) simp
  qed
  then show ?thesis
    by (simp add: bit_or_iff bit_drop_bit_eq assms)
qed

lemma smear_bits:
  fixes n :: u32
  defines "a \<equiv> n OR drop_bit 1 n"
  defines "b \<equiv> a OR drop_bit 2 a"
  defines "c \<equiv> b OR drop_bit 4 b"
  defines "d \<equiv> c OR drop_bit 8 c"
  defines "e \<equiv> d OR drop_bit 16 d"
  shows "bit e i \<longleftrightarrow> (\<exists>k<32. bit n (i + k))"
proof -
  have "bit a i \<longleftrightarrow> (\<exists>k<2. bit n (i + k))" for i
    using smear_step [of n 1 n i] by (simp add: a_def)
  then have "bit b i \<longleftrightarrow> (\<exists>k<4. bit n (i + k))" for i
    using smear_step [of a 2 n i] by (simp add: b_def)
  then have "bit c i \<longleftrightarrow> (\<exists>k<8. bit n (i + k))" for i
    using smear_step [of b 4 n i] by (simp add: c_def)
  then have "bit d i \<longleftrightarrow> (\<exists>k<16. bit n (i + k))" for i
    using smear_step [of c 8 n i] by (simp add: d_def)
  then show ?thesis
    using smear_step [of d 16 n i] by (simp add: e_def)
qed

text \<open>The smeared word is the mask of the bit length of the argument.\<close>

lemma smear_mask:
  fixes n e :: u32
  assumes top: "bit n t" and above: "\<And>j. t < j \<Longrightarrow> \<not> bit n j"
    and e: "\<And>i. bit e i \<longleftrightarrow> (\<exists>k<32. bit n (i + k))"
  shows "e = mask (t + 1)"
proof (rule bit_word_eqI)
  fix i assume "i < LENGTH(32)"
  have t: "t < 32"
    using top bit_imp_le_length by force
  show "bit e i \<longleftrightarrow> bit (mask (t + 1) :: u32) i"
  proof (cases "i \<le> t")
    case True
    then have "\<exists>k<32. bit n (i + k)"
      using top t by (intro exI [of _ "t - i"]) auto
    with True show ?thesis using \<open>i < LENGTH(32)\<close> by (simp add: e bit_mask_iff)
  next
    case False
    then show ?thesis using above by (auto simp: e bit_mask_iff)
  qed
qed

lemma unat_top_bit:
  fixes n :: u32
  assumes "n \<noteq> 0"
  obtains t where "bit n t" "\<And>j. t < j \<Longrightarrow> \<not> bit n j" "2 ^ t \<le> unat n" "unat n < 2 ^ (t + 1)"
proof -
  have "1 \<le> unat n"
    using assms by (simp add: Suc_leI unat_gt_0)
  then obtain t where t: "2 ^ t \<le> unat n" "unat n < 2 ^ (t + 1)"
    using ex_power_ivl1 [of 2 "unat n"] by auto
  have bit: "bit n j \<longleftrightarrow> odd (unat n div 2 ^ j)" for j
    using bit_imp_le_length [of n j] by (auto simp: bit_iff_odd [of "unat n"] bit_unsigned_iff simp flip: bit_iff_odd)
  have "unat n div 2 ^ t = 1"
    using t by (intro div_nat_eqI) simp_all
  then have "bit n t"
    by (simp add: bit)
  moreover have "\<not> bit n j" if "t < j" for j
  proof -
    have "(2::nat) ^ (t + 1) \<le> 2 ^ j"
      using that by (intro power_increasing) simp_all
    then have "unat n div 2 ^ j = 0"
      using t by simp
    then show ?thesis by (simp add: bit)
  qed
  ultimately show ?thesis
    using that t by blast
qed

lemma unat_exp32: "k < 32 \<Longrightarrow> unat (2 ^ k :: u32) = 2 ^ k"
proof -
  assume "k < 32"
  then have "(2::nat) ^ k < 2 ^ 32"
    by (intro power_strict_increasing) simp_all
  moreover have "(2 :: u32) ^ k = word_of_nat (2 ^ k)"
    by simp
  ultimately show ?thesis
    by (simp only: unat_of_nat) simp
qed

lemma next_power_of_2_correct:
  assumes "1 \<le> unat n" and "unat n \<le> 2 ^ 31"
  shows "\<exists>k. unat (next_power_of_2 n) = 2 ^ k \<and> unat n \<le> 2 ^ k \<and> (\<forall>j. unat n \<le> 2 ^ j \<longrightarrow> k \<le> j)"
proof (cases "n = 1")
  case True
  then show ?thesis
    by (intro exI [of _ 0]) (simp add: next_power_of_2_def Let_def)
next
  case False
  have n0: "n \<noteq> 0" "unat n \<noteq> 1"
    using assms(1) False by (auto simp: word_unat_eq_iff)
  have m: "unat (n - 1) = unat n - 1" "n - 1 \<noteq> 0"
    using assms n0 by (auto simp: unat_sub_if' word_unat_eq_iff)
  obtain t where t: "bit (n - 1) t" "\<And>j. t < j \<Longrightarrow> \<not> bit (n - 1) j"
      "2 ^ t \<le> unat (n - 1)" "unat (n - 1) < 2 ^ (t + 1)"
    using unat_top_bit [OF m(2)] by blast
  have "(2::nat) ^ t < 2 ^ 31"
    using t(3) m(1) assms n0 by linarith
  then have "t < 31"
    by (simp only: power_strict_increasing_iff)
  have "next_power_of_2 n = mask (t + 1) + 1"
    using n0 smear_mask [OF t(1,2) smear_bits] by (simp add: next_power_of_2_def Let_def)
  also have "\<dots> = 2 ^ (t + 1)"
    by (simp add: mask_eq_exp_minus_1)
  finally have "unat (next_power_of_2 n) = 2 ^ (t + 1)"
    using \<open>t < 31\<close> by (simp only: unat_exp32)
  moreover have "unat n \<le> 2 ^ (t + 1)"
    using t(4) m(1) by linarith
  moreover have "t + 1 \<le> j" if "unat n \<le> 2 ^ j" for j
  proof (rule ccontr)
    assume "\<not> t + 1 \<le> j"
    then have "(2::nat) ^ j \<le> 2 ^ t"
      by (intro power_increasing) simp_all
    then show False
      using that t(3) m(1) assms(1) by linarith
  qed
  ultimately show ?thesis by blast
qed

text \<open>Population count, trailing zeros and leading zeros against the bits of the word.\<close>

lemma bits_nat_rec: "{i. bit m i} = (if odd m then {0} else {}) \<union> Suc ` {i. bit (m div 2) i}" for m :: nat
proof (rule set_eqI)
  fix i
  show "i \<in> {i. bit m i} \<longleftrightarrow> i \<in> (if odd m then {0} else {}) \<union> Suc ` {i. bit (m div 2) i}"
    by (cases i) (auto simp: bit_0 bit_Suc)
qed

lemma finite_bits_nat: "finite {i. bit m i}" for m :: nat
proof (induction m rule: less_induct)
  case (less m)
  show ?case
  proof (cases "m = 0")
    case False
    then have "m div 2 < m" by simp
    then show ?thesis
      using less.IH by (subst bits_nat_rec) simp
  qed simp
qed

lemma popcount_loop_eq: "popcount_loop n c = c + card {i. bit n i}"
proof (induction n c rule: popcount_loop.induct)
  case (1 n c)
  show ?case
  proof (cases "n = 0")
    case False
    have "card {i. bit n i} = n mod 2 + card {i. bit (n div 2) i}"
      using finite_bits_nat [of "n div 2"]
      by (subst bits_nat_rec) (auto simp: card_image odd_iff_mod_2_eq_one)
    with False 1 show ?thesis
      by (simp add: popcount_loop.simps [of n c])
  qed (simp add: popcount_loop.simps)
qed

lemma popcount_correct: "popcount n = card {i. bit n i}"
proof -
  have "{i. bit (unat n) i} = {i. bit n i}"
    using bit_imp_le_length [of n] by (auto simp: bit_unsigned_iff)
  then show ?thesis
    by (simp add: popcount_def popcount_loop_eq)
qed

lemma ctz_loop_eq:
  assumes "n \<noteq> 0"
  shows "\<exists>k. ctz_loop n c = c + k \<and> bit n k \<and> (\<forall>j<k. \<not> bit n j)"
  using assms
proof (induction n c rule: ctz_loop.induct)
  case (1 n c)
  show ?case
  proof (cases "even n")
    case True
    then obtain k where "ctz_loop (n div 2) (c + 1) = c + 1 + k" "bit (n div 2) k"
        "\<forall>j<k. \<not> bit (n div 2) j"
      using 1 by (auto elim!: evenE)
    with True "1.prems" show ?thesis
      by (intro exI [of _ "Suc k"]) (auto simp: ctz_loop.simps [of n c] bit_Suc less_Suc_eq_0_disj bit_0)
  next
    case False
    then show ?thesis
      by (intro exI [of _ 0]) (auto simp: ctz_loop.simps [of n c] bit_0)
  qed
qed

lemma ctz_correct: "n \<noteq> 0 \<Longrightarrow> bit n (ctz n) \<and> (\<forall>j<ctz n. \<not> bit n j)"
proof -
  assume "n \<noteq> 0"
  then have "unat n \<noteq> 0" by (simp add: unat_eq_0)
  then obtain k where "ctz_loop (unat n) 0 = k" "bit (unat n) k" "\<forall>j<k. \<not> bit (unat n) j"
    using ctz_loop_eq [of "unat n" 0] by auto
  with \<open>n \<noteq> 0\<close> show ?thesis
    using bit_imp_le_length [of n] by (auto simp: ctz_def bit_unsigned_iff)
qed

definition clz_inv :: "u32 \<Rightarrow> nat \<Rightarrow> nat \<times> u32 \<Rightarrow> bool" where
  "clz_inv n k cw \<longleftrightarrow> (case cw of (c, w) \<Rightarrow> w = push_bit c n \<and> (\<forall>j. 32 - c \<le> j \<longrightarrow> \<not> bit n j) \<and>
     c + k \<le> 32 \<and> (\<exists>i. 32 - k \<le> i \<and> i < 32 \<and> bit w i))"

lemma clz_step:
  assumes inv: "clz_inv n (2 * k) (c, w)" and k: "0 < k" "k \<le> 16" and M: "M = push_bit (32 - k) (mask k)"
  shows "clz_inv n k (if w AND M = 0 then (c + k, push_bit k w) else (c, w))"
proof -
  have bM: "bit (w AND M) i \<longleftrightarrow> bit w i \<and> 32 - k \<le> i" if "i < 32" for i
    using that k by (auto simp: M bit_and_iff bit_push_bit_iff bit_mask_iff)
  have w: "bit w i \<longleftrightarrow> c \<le> i \<and> bit n (i - c)" if "i < 32" for i
    using inv that by (auto simp: clz_inv_def bit_push_bit_iff)
  show ?thesis
  proof (cases "w AND M = 0")
    case True
    then have z: "\<not> bit w i" if "32 - k \<le> i" "i < 32" for i
      using bM [OF that(2)] that by simp
    obtain i where i: "32 - 2 * k \<le> i" "i < 32" "bit w i"
      using inv by (auto simp: clz_inv_def)
    then have "i < 32 - k"
      using z by (meson not_less)
    have hi: "\<not> bit n j" if "32 - (c + k) \<le> j" for j
    proof (cases "32 - c \<le> j")
      case True
      then show ?thesis using inv by (auto simp: clz_inv_def)
    next
      case False
      then have "32 - k \<le> j + c" "j + c < 32"
        using that inv by (auto simp: clz_inv_def)
      then show ?thesis using z [of "j + c"] w [of "j + c"] by simp
    qed
    have "bit (push_bit k w) (i + k)"
      using i \<open>i < 32 - k\<close> by (simp add: bit_push_bit_iff)
    moreover have "32 - k \<le> i + k" "i + k < 32"
      using i k \<open>i < 32 - k\<close> by auto
    ultimately show ?thesis
      using True inv hi by (auto simp: clz_inv_def push_bit_push_bit add.commute)
  next
    case False
    then obtain i where "bit (w AND M) i" "i < 32"
      using bit_imp_le_length [of "w AND M"] by (auto simp: bit_eq_iff)
    then have "32 - k \<le> i" "bit w i" "i < 32"
      using bM by auto
    then show ?thesis
      using False inv by (auto simp: clz_inv_def)
  qed
qed

lemma clz_correct:
  assumes "n \<noteq> 0"
  shows "clz n < 32 \<and> bit n (31 - clz n) \<and> (\<forall>j. 31 - clz n < j \<longrightarrow> \<not> bit n j)"
proof -
  define s where "s k cw = (case cw of (c, w :: u32) \<Rightarrow>
      if w AND push_bit (32 - k) (mask k) = 0 then (c + k, push_bit k w) else (c, w))" for k cw
  have step: "clz_inv n (2 * k) cw \<Longrightarrow> 0 < k \<Longrightarrow> k \<le> 16 \<Longrightarrow> clz_inv n k (s k cw)" for k cw
    by (cases cw) (simp only: s_def prod.case clz_step)
  obtain j where "bit n j" "j < 32"
    using assms bit_imp_le_length [of n] by (auto simp: bit_eq_iff)
  then have "clz_inv n 32 (0, n)"
    by (auto simp: clz_inv_def dest: bit_imp_le_length)
  then have "clz_inv n 16 (s 16 (0, n))"
    using step [of 16] by simp
  then have "clz_inv n 8 (s 8 (s 16 (0, n)))"
    using step [of 8] by simp
  then have "clz_inv n 4 (s 4 (s 8 (s 16 (0, n))))"
    using step [of 4] by simp
  then have "clz_inv n 2 (s 2 (s 4 (s 8 (s 16 (0, n)))))"
    using step [of 2] by simp
  then have "clz_inv n 1 (s 1 (s 2 (s 4 (s 8 (s 16 (0, n))))))"
    using step [of 1] by simp
  moreover obtain c w where cw: "s 1 (s 2 (s 4 (s 8 (s 16 (0, n))))) = (c, w)"
    by (cases "s 1 (s 2 (s 4 (s 8 (s 16 (0, n)))))")
  moreover have "clz n = fst (s 1 (s 2 (s 4 (s 8 (s 16 (0, n))))))"
  proof -
    have masks: "push_bit (32 - 16) (mask 16) = (0xFFFF0000 :: u32)"
        "push_bit (32 - 8) (mask 8) = (0xFF000000 :: u32)" "push_bit (32 - 4) (mask 4) = (0xF0000000 :: u32)"
        "push_bit (32 - 2) (mask 2) = (0xC0000000 :: u32)" "push_bit (32 - 1) (mask 1) = (0x80000000 :: u32)"
      by (simp_all add: mask_eq_exp_minus_1 push_bit_eq_mult)
    show ?thesis
      using assms unfolding clz_def s_def Let_def case_prod_beta masks fst_conv snd_conv add_0
      by (simp only: if_False if_distrib [of fst] fst_conv)
  qed
  ultimately have *: "clz n = c" "clz_inv n 1 (c, w)"
    by auto
  moreover have "31 \<le> i \<and> i < 32 \<longleftrightarrow> i = 31" for i :: nat
    by auto
  ultimately have "bit (push_bit c n) 31" "\<forall>j. 32 - c \<le> j \<longrightarrow> \<not> bit n j" "c + 1 \<le> 32"
    by (auto simp: clz_inv_def simp flip: conj_assoc)
  then show ?thesis
    using * by (auto simp: bit_push_bit_iff Suc_le_eq)
qed

section \<open>Array reversal and the key latch\<close>

text \<open>
  \<open>swap\<close> and \<open>reverse_array\<close> on an \<open>int32_t\<close> array; the two indices move towards each other.
\<close>

definition swap_at :: "'a list \<Rightarrow> nat \<Rightarrow> nat \<Rightarrow> 'a list" where
  "swap_at arr i j = arr[i := arr ! j, j := arr ! i]"

function reverse_loop :: "'a list \<Rightarrow> nat \<Rightarrow> nat \<Rightarrow> 'a list" where
  "reverse_loop arr i j = (if i < j then reverse_loop (swap_at arr i j) (i + 1) (j - 1) else arr)"
  by pat_completeness auto
termination
  by (relation "measure (\<lambda>(_, i, j). j - i)") auto

declare reverse_loop.simps [simp del]

definition reverse_array :: "'a list \<Rightarrow> nat \<Rightarrow> 'a list" where
  "reverse_array arr n = (if n = 0 then arr else reverse_loop arr 0 (n - 1))"

lemma reverse_loop_nth:
  assumes "j < length a" and "i \<le> j + 1"
  shows "length (reverse_loop a i j) = length a
    \<and> (\<forall>k < length a. reverse_loop a i j ! k = (if i \<le> k \<and> k \<le> j then a ! (i + j - k) else a ! k))"
  using assms
proof (induction a i j rule: reverse_loop.induct)
  case (1 a i j)
  show ?case
  proof (cases "i < j")
    case True
    have len: "length (swap_at a i j) = length a"
      by (simp add: swap_at_def)
    have "length (reverse_loop (swap_at a i j) (i + 1) (j - 1)) = length a \<and>
        (\<forall>k < length a. reverse_loop (swap_at a i j) (i + 1) (j - 1) ! k
          = (if i + 1 \<le> k \<and> k \<le> j - 1 then swap_at a i j ! (i + 1 + (j - 1) - k) else swap_at a i j ! k))"
      using "1.IH" [OF True] True "1.prems" by (simp add: len)
    with True "1.prems" show ?thesis
      by (auto simp: reverse_loop.simps [of a i j] swap_at_def nth_list_update)
  next
    case False
    with "1.prems" have "\<forall>k. i \<le> k \<and> k \<le> j \<longrightarrow> i + j - k = k"
      by auto
    with False show ?thesis
      by (simp add: reverse_loop.simps [of a i j])
  qed
qed

lemma reverse_array_rev: "reverse_array a (length a) = rev a"
proof (cases "a = []")
  case False
  then show ?thesis
    using reverse_loop_nth [of "length a - 1" a 0]
    by (intro nth_equalityI) (auto simp: reverse_array_def rev_nth)
qed (simp add: reverse_array_def)

text \<open>
  The terminal's one-character latch over the keyboard: \<open>sys_getkey\<close> and \<open>sys_kb_hit\<close> are the
  keyboard's answers, \<open>latch\<close> is \<open>terminal_last_char\<close>. \<open>c_getkey\<close> returns the key and the
  new latch.
\<close>

definition c_kb_hit :: "int \<Rightarrow> int \<Rightarrow> int" where
  "c_kb_hit latch sys_kb_hit = (if latch \<noteq> 0 then 1 else sys_kb_hit)"

definition c_getkey :: "int \<Rightarrow> u16 \<Rightarrow> u16 \<times> int" where
  "c_getkey latch sys_getkey = (if latch \<noteq> 0 then (word_of_int latch, 0) else (sys_getkey, latch))"

definition c_getkey_nonblock :: "int \<Rightarrow> int \<Rightarrow> u16 \<Rightarrow> u16 \<times> int" where
  "c_getkey_nonblock latch sys_kb_hit sys_getkey =
     (if c_kb_hit latch sys_kb_hit \<noteq> 0 then c_getkey latch sys_getkey else (0, latch))"

lemma latch_is_delivered_once:
  "latch \<noteq> 0 \<Longrightarrow> c_getkey_nonblock latch h k = (word_of_int latch, 0)
    \<and> c_getkey_nonblock 0 0 k = (0, 0)"
  by (simp add: c_getkey_nonblock_def c_kb_hit_def c_getkey_def)

section \<open>Properties\<close>

text \<open>
  The integer square root is right for every argument below the largest \<open>uint32_t\<close>, and
  for that one argument, and only there, the routine divides by zero.
\<close>

theorem sqrt_c_spec:
  "sqrt_c n = (if n = 0xFFFFFFFF then None else Some (of_nat (isqrt (unat n))))"
proof (cases "n = 0xFFFFFFFF")
  case False
  then have "unat n \<noteq> 4294967295"
    by (simp add: word_unat_eq_iff)
  then have "unat n < 4294967295"
    using unat_u32_less [of n] by linarith
  then have "unat n < 2 ^ 32 - 1"
    by simp
  then obtain r where r: "sqrt_c n = Some r" "unat r * unat r \<le> unat n"
      "unat n < (unat r + 1) * (unat r + 1)"
    using sqrt_c_correct by blast
  then have "isqrt (unat n) = unat r"
    by (intro isqrt_unique)
  with r False show ?thesis by simp
qed (simp add: sqrt_c_max)

text \<open>
  \<open>next_power_of_2\<close> returns the least power of two that is not below its argument, for every
  argument from 1 to \<open>2 ^ 31\<close>.
\<close>

theorem next_power_of_2_least:
  assumes "1 \<le> unat n" and "unat n \<le> 2 ^ 31"
  shows "\<exists>k. unat (next_power_of_2 n) = 2 ^ k \<and> unat n \<le> 2 ^ k \<and> (\<forall>j. unat n \<le> 2 ^ j \<longrightarrow> k \<le> j)"
  using assms by (rule next_power_of_2_correct)

theorem next_power_of_2_least_witness:
  "\<exists>k. unat (next_power_of_2 100) = 2 ^ k \<and> 100 \<le> (2::nat) ^ k \<and> (\<forall>j. (100::nat) \<le> 2 ^ j \<longrightarrow> k \<le> j)"
  using next_power_of_2_least [of 100] by simp

text \<open>
  The counting tricks agree with the bits of the word: \<open>popcount\<close> is the number of set bits,
  \<open>ctz\<close> the position of the lowest one, \<open>clz\<close> the distance of the highest one from bit 31, and
  both are 32 for zero.
\<close>

theorem bit_counting_correct:
  "popcount n = card {i. bit n i}
   \<and> (if n = 0 then ctz n = 32 \<and> clz n = 32
      else ctz n = (LEAST i. bit n i) \<and> clz n = 31 - (GREATEST i. bit n i))"
proof (cases "n = 0")
  case True
  then show ?thesis by (simp add: popcount_correct ctz_def clz_def)
next
  case False
  have "ctz n = (LEAST i. bit n i)"
    using ctz_correct [OF False] by (metis (mono_tags, lifting) LeastI_ex Least_le linorder_neqE_nat not_less_Least)
  moreover have "(GREATEST i. bit n i) = 31 - clz n"
    using clz_correct [OF False] by (intro Greatest_equality) (auto intro: leI)
  ultimately show ?thesis
    using False clz_correct [OF False] by (simp add: popcount_correct)
qed

end
