(* ===== verification/KString.thy ===== *)
theory KString
  imports KMath
begin

text \<open>
  The string, memory and conversion routines of \<open>src/src/utils.c\<close>.

  A pointer argument that the code compares with \<open>NULL\<close> is \<open>Null\<close> or \<open>Ptr m\<close> with the memory
  \<open>m\<close> from the pointed-to byte to the end of its object. Destination buffers are passed and
  returned; \<open>None\<close> is a write or read past the end of an object. Results that are pointers into
  an argument are offsets from its start.
\<close>

datatype ptr = Null | Ptr bytes

section \<open>Length, copy, concatenation\<close>

fun strlen_loop :: "bytes \<Rightarrow> nat" where
  "strlen_loop [] = 0"
| "strlen_loop (c # s) = (if c = 0 then 0 else Suc (strlen_loop s))"

fun strlen :: "ptr \<Rightarrow> nat" where
  "strlen Null = 0"
| "strlen (Ptr s) = strlen_loop s"

lemma strlen_loop_eq [cstring]: "strlen_loop s = length (cstr s)"
  by (induction s) auto

text \<open>\<open>while ((*ptr++ = *src++));\<close>\<close>

fun strcpy_loop :: "bytes \<Rightarrow> bytes \<Rightarrow> bytes option" where
  "strcpy_loop [] s = None"
| "strcpy_loop (_ # d) s =
     (if peek s = 0 then Some (0 # d) else map_option ((#) (peek s)) (strcpy_loop d (tl s)))"

fun strcpy :: "ptr \<Rightarrow> ptr \<Rightarrow> ptr option" where
  "strcpy (Ptr d) (Ptr s) = map_option Ptr (strcpy_loop d s)"
| "strcpy d s = Some d"

lemma strcpy_loop_eq [cstring]:
  "strcpy_loop d s = (if length (cstr s) < length d
     then Some (cstr s @ 0 # drop (length (cstr s) + 1) d) else None)"
proof (induction d s rule: strcpy_loop.induct)
  case (2 x d s)
  then show ?case by (cases s) auto
qed simp

text \<open>The two counted loops of \<open>strncpy\<close>: copy, then pad with NULs.\<close>

fun strncpy_loop :: "bytes \<Rightarrow> bytes \<Rightarrow> nat \<Rightarrow> bytes option" where
  "strncpy_loop d s 0 = Some d"
| "strncpy_loop [] s (Suc n) = None"
| "strncpy_loop (_ # d) s (Suc n) =
     (if peek s = 0 then map_option ((#) 0) (strncpy_loop d [] n)
      else map_option ((#) (peek s)) (strncpy_loop d (tl s) n))"

fun strncpy :: "ptr \<Rightarrow> ptr \<Rightarrow> nat \<Rightarrow> ptr option" where
  "strncpy (Ptr d) (Ptr s) n = map_option Ptr (strncpy_loop d s n)"
| "strncpy d s n = Some d"

lemma strncpy_loop_eq [cstring]:
  "strncpy_loop d s n = (if n \<le> length d
     then Some (take n (cstr s @ replicate n 0) @ drop n d) else None)"
proof (induction d s n rule: strncpy_loop.induct)
  case (3 x d s n)
  have "take n (replicate n (0::u8)) = replicate n 0"
    by simp
  with 3 show ?case
    by (cases s) (auto simp: take_Cons', metis Suc_diff_Suc linorder_not_le replicate_Suc)
qed auto

fun strcat_loop :: "bytes \<Rightarrow> bytes \<Rightarrow> bytes option" where
  "strcat_loop [] s = None"
| "strcat_loop (c # d) s =
     (if c \<noteq> 0 then map_option ((#) c) (strcat_loop d s) else strcpy_loop (c # d) s)"

fun strcat :: "ptr \<Rightarrow> ptr \<Rightarrow> ptr option" where
  "strcat (Ptr d) (Ptr s) = map_option Ptr (strcat_loop d s)"
| "strcat d s = Some d"

lemma strcat_loop_eq:
  "0 \<in> set d \<Longrightarrow> strcat_loop d s =
     (if length (cstr d) + length (cstr s) < length d
      then Some (cstr d @ cstr s @ 0 # drop (length (cstr d) + length (cstr s) + 1) d) else None)"
  by (induction d) (auto simp: strcpy_loop_eq)

text \<open>
  \<open>strncat\<close>: \<open>n\<close> is unsigned, so when the count runs out it wraps below 0 and the final
  \<open>if (n == 0) *ptr = 0\<close> does not fire; it fires exactly when the terminator of the source was
  the \<open>n\<close>-th byte copied. The first component counts what is left of \<open>n\<close>.
\<close>

fun strncat_copy :: "bytes \<Rightarrow> bytes \<Rightarrow> nat \<Rightarrow> bytes option" where
  "strncat_copy d s 0 = Some d"
| "strncat_copy [] s (Suc n) = None"
| "strncat_copy (_ # d) s (Suc n) =
     (if peek s \<noteq> 0 then map_option ((#) (peek s)) (strncat_copy d (tl s) n)
      else if n = 0 then (case d of [] \<Rightarrow> None | _ # d' \<Rightarrow> Some (0 # 0 # d'))
      else Some (0 # d))"

fun strncat_loop :: "bytes \<Rightarrow> bytes \<Rightarrow> nat \<Rightarrow> bytes option" where
  "strncat_loop [] s n = None"
| "strncat_loop (c # d) s n =
     (if c \<noteq> 0 then map_option ((#) c) (strncat_loop d s n) else strncat_copy (c # d) s n)"

fun strncat :: "ptr \<Rightarrow> ptr \<Rightarrow> nat \<Rightarrow> ptr option" where
  "strncat (Ptr d) (Ptr s) n = map_option Ptr (strncat_loop d s n)"
| "strncat d s n = Some d"

lemma strncat_copy_short:
  "length (cstr s) < n \<Longrightarrow> n < length d \<Longrightarrow>
     strncat_copy d s n = Some (cstr s @ 0 # (if length (cstr s) + 1 = n
       then 0 # drop (n + 1) d else drop (length (cstr s) + 1) d))"
proof (induction d s n rule: strncat_copy.induct)
  case (3 x d s n)
  then show ?case by (cases s; cases d) auto
qed auto

lemma strncat_copy_long:
  "n \<le> length (cstr s) \<Longrightarrow> n \<le> length d \<Longrightarrow>
     strncat_copy d s n = Some (take n (cstr s) @ drop n d)"
proof (induction d s n rule: strncat_copy.induct)
  case (3 x d s n)
  then show ?case by (cases s) (auto split: if_splits)
qed auto

section \<open>Comparison and search\<close>

fun strcmp_loop :: "bytes \<Rightarrow> bytes \<Rightarrow> int" where
  "strcmp_loop a b =
     (if peek a \<noteq> 0 \<and> peek a = peek b then strcmp_loop (tl a) (tl b)
      else uint (peek a) - uint (peek b))"

declare strcmp_loop.simps [simp del]

fun strcmp :: "ptr \<Rightarrow> ptr \<Rightarrow> int" where
  "strcmp (Ptr a) (Ptr b) = strcmp_loop a b"
| "strcmp _ _ = 0"

lemma strcmp_loop_zero [cstring]: "strcmp_loop a b = 0 \<longleftrightarrow> cstr a = cstr b"
proof (induction a b rule: strcmp_loop.induct)
  case (1 a b)
  show ?case
  proof (cases "peek a \<noteq> 0 \<and> peek a = peek b")
    case True
    with 1 show ?thesis
      by (simp add: strcmp_loop.simps [of a b] cstr_unfold [of a] cstr_unfold [of b])
  next
    case False
    then show ?thesis
      by (auto simp: strcmp_loop.simps [of a b] cstr_unfold [of a] cstr_unfold [of b])
  qed
qed

fun strncmp_loop :: "bytes \<Rightarrow> bytes \<Rightarrow> nat \<Rightarrow> int" where
  "strncmp_loop a b n =
     (if 0 < n \<and> peek a \<noteq> 0 \<and> peek a = peek b then strncmp_loop (tl a) (tl b) (n - 1)
      else if n = 0 then 0 else uint (peek a) - uint (peek b))"

declare strncmp_loop.simps [simp del]

fun strncmp :: "ptr \<Rightarrow> ptr \<Rightarrow> nat \<Rightarrow> int" where
  "strncmp (Ptr a) (Ptr b) n = (if n = 0 then 0 else strncmp_loop a b n)"
| "strncmp _ _ _ = 0"

lemma strncmp_loop_zero [cstring]:
  "strncmp_loop a b n = 0 \<longleftrightarrow> take n (cstr a) = take n (cstr b)"
proof (induction a b n rule: strncmp_loop.induct)
  case (1 a b n)
  show ?case
  proof (cases "0 < n \<and> peek a \<noteq> 0 \<and> peek a = peek b")
    case True
    with 1 show ?thesis
      by (simp add: strncmp_loop.simps [of a b n] cstr_unfold [of a] cstr_unfold [of b] take_Cons')
  next
    case False
    then show ?thesis
      by (auto simp: strncmp_loop.simps [of a b n] cstr_unfold [of a] cstr_unfold [of b] take_Cons')
  qed
qed

text \<open>Offset of the first (last) occurrence; the terminator itself can be searched for.\<close>

fun strchr_loop :: "bytes \<Rightarrow> u8 \<Rightarrow> nat \<Rightarrow> nat option" where
  "strchr_loop [] c i = (if c = 0 then Some i else None)"
| "strchr_loop (x # s) c i =
     (if x = 0 then (if c = 0 then Some i else None)
      else if x = c then Some i else strchr_loop s c (i + 1))"

fun strchr :: "ptr \<Rightarrow> u8 \<Rightarrow> nat option" where
  "strchr Null c = None"
| "strchr (Ptr s) c = strchr_loop s c 0"

fun strrchr_loop :: "bytes \<Rightarrow> u8 \<Rightarrow> nat \<Rightarrow> nat option \<Rightarrow> nat option" where
  "strrchr_loop [] c i lastp = (if c = 0 then Some i else lastp)"
| "strrchr_loop (x # s) c i lastp =
     (if x = 0 then (if c = 0 then Some i else lastp)
      else strrchr_loop s c (i + 1) (if x = c then Some i else lastp))"

fun strrchr :: "ptr \<Rightarrow> u8 \<Rightarrow> nat option" where
  "strrchr Null c = None"
| "strrchr (Ptr s) c = strrchr_loop s c 0 None"

text \<open>\<open>while (*h && *n && *h == *n)\<close>: has the needle been used up?\<close>

fun prefix_match :: "bytes \<Rightarrow> bytes \<Rightarrow> bool" where
  "prefix_match h [] = True"
| "prefix_match h (n # ns) =
     (if n = 0 then True else peek h \<noteq> 0 \<and> peek h = n \<and> prefix_match (tl h) ns)"

fun strstr_loop :: "bytes \<Rightarrow> bytes \<Rightarrow> nat \<Rightarrow> nat option" where
  "strstr_loop [] n i = None"
| "strstr_loop (x # h) n i =
     (if x = 0 then None else if prefix_match (x # h) n then Some i else strstr_loop h n (i + 1))"

fun strstr :: "ptr \<Rightarrow> ptr \<Rightarrow> nat option" where
  "strstr (Ptr h) (Ptr n) = (if peek n = 0 then Some 0 else strstr_loop h n 0)"
| "strstr _ _ = None"

section \<open>In-place rewriting\<close>

text \<open>
  \<open>strrev\<close> swaps the bytes of the content pairwise with two pointers that move towards each
  other; the memory behind the terminator is untouched.
\<close>

fun strrev :: "ptr \<Rightarrow> ptr" where
  "strrev Null = Null"
| "strrev (Ptr s) =
     (let len = strlen_loop s
      in Ptr (if len = 0 then s else reverse_loop s 0 (len - 1)))"

lemma strrev_eq: "strrev (Ptr s) = Ptr (rev (cstr s) @ drop (length (cstr s)) s)"
proof -
  let ?n = "length (cstr s)"
  have pre: "cstr s = take ?n s" "?n \<le> length s"
    by (simp_all add: cstr_def takeWhile_eq_take [symmetric] length_takeWhile_le)
  show ?thesis
  proof (cases "?n = 0")
    case True
    then show ?thesis by (simp add: strlen_loop_eq)
  next
    case False
    then obtain m where m: "?n = Suc m"
      by (cases "?n") auto
    then have "m < length s"
      using pre(2) by linarith
    then have r: "length (reverse_loop s 0 m) = length s"
        "\<And>k. k < length s \<Longrightarrow> reverse_loop s 0 m ! k = (if k \<le> m then s ! (m - k) else s ! k)"
      using reverse_loop_nth [of m s 0] by auto
    have "reverse_loop s 0 (?n - 1) = rev (take ?n s) @ drop ?n s"
      using r pre(2) by (intro nth_equalityI) (auto simp: m nth_append rev_nth)
    then show ?thesis
      using False pre by (simp add: strlen_loop_eq)
  qed
qed

fun strupr_loop :: "bytes \<Rightarrow> bytes" where
  "strupr_loop [] = []"
| "strupr_loop (c # s) = (if c = 0 then c # s else upper8 c # strupr_loop s)"

fun strupr :: "ptr \<Rightarrow> ptr" where
  "strupr Null = Null"
| "strupr (Ptr s) = Ptr (strupr_loop s)"

fun strlwr_loop :: "bytes \<Rightarrow> bytes" where
  "strlwr_loop [] = []"
| "strlwr_loop (c # s) = (if c = 0 then c # s else lower8 c # strlwr_loop s)"

fun strlwr :: "ptr \<Rightarrow> ptr" where
  "strlwr Null = Null"
| "strlwr (Ptr s) = Ptr (strlwr_loop s)"

text \<open>
  \<open>strdup\<close>: \<open>kmalloc\<close> is a parameter that maps a size to fresh memory (\<open>None\<close> when it fails).
\<close>

fun strdup :: "(nat \<Rightarrow> bytes option) \<Rightarrow> ptr \<Rightarrow> ptr option" where
  "strdup kmalloc Null = Some Null"
| "strdup kmalloc (Ptr s) =
     (case kmalloc (strlen_loop s + 1) of
        None \<Rightarrow> Some Null
      | Some m \<Rightarrow> map_option Ptr (strcpy_loop m s))"

section \<open>Character classes\<close>

text \<open>The arguments are C \<open>int\<close>s.\<close>

definition isalpha :: "int \<Rightarrow> bool" where
  "isalpha c \<longleftrightarrow> (0x41 \<le> c \<and> c \<le> 0x5A) \<or> (0x61 \<le> c \<and> c \<le> 0x7A)"

definition isdigit :: "int \<Rightarrow> bool" where
  "isdigit c \<longleftrightarrow> 0x30 \<le> c \<and> c \<le> 0x39"

definition isalnum :: "int \<Rightarrow> bool" where
  "isalnum c \<longleftrightarrow> isalpha c \<or> isdigit c"

definition isspace :: "int \<Rightarrow> bool" where
  "isspace c \<longleftrightarrow> c = 0x20 \<or> c = 0x09 \<or> c = 0x0A \<or> c = 0x0D \<or> c = 0x0C \<or> c = 0x0B"

definition isupper :: "int \<Rightarrow> bool" where
  "isupper c \<longleftrightarrow> 0x41 \<le> c \<and> c \<le> 0x5A"

definition islower :: "int \<Rightarrow> bool" where
  "islower c \<longleftrightarrow> 0x61 \<le> c \<and> c \<le> 0x7A"

definition toupper :: "int \<Rightarrow> int" where
  "toupper c = (if islower c then c - 32 else c)"

definition tolower :: "int \<Rightarrow> int" where
  "tolower c = (if isupper c then c + 32 else c)"

lemma char_class_laws:
  "isalpha c \<longleftrightarrow> isupper c \<or> islower c" "\<not> (isupper c \<and> islower c)"
  "isupper c \<Longrightarrow> islower (tolower c)" "islower c \<Longrightarrow> isupper (toupper c)"
  "isupper c \<Longrightarrow> toupper (tolower c) = c" "islower c \<Longrightarrow> tolower (toupper c) = c"
  by (auto simp: isalpha_def isupper_def islower_def toupper_def tolower_def)

section \<open>Conversions\<close>

text \<open>
  \<open>(rem > 9) ? (rem - 10) + 'A' : rem + '0'\<close>, stored to a \<open>char\<close>; the remainder of a negative
  number is negative in C.
\<close>

definition digit_char :: "int \<Rightarrow> u8" where
  "digit_char rem = word_of_int (if 9 < rem then (rem - 10) + 0x41 else rem + 0x30)"

text \<open>The digit loop shared by \<open>itoa\<close> and \<open>utoa\<close>: least significant digit first.\<close>

lemma abs_cdiv: "1 < b \<Longrightarrow> \<bar>cdiv n b\<bar> = \<bar>n\<bar> div b"
  by (cases n "0 :: int" rule: linorder_cases)
    (simp_all add: cdiv_def abs_mult pos_imp_zdiv_nonneg_iff)

lemma cdiv_abs: "1 < b \<Longrightarrow> n \<noteq> 0 \<Longrightarrow> \<bar>cdiv n b\<bar> < \<bar>n\<bar>"
  by (simp add: abs_cdiv int_div_less_self)

function digits_loop :: "int \<Rightarrow> int \<Rightarrow> bytes" where
  "digits_loop num base =
     (if num \<noteq> 0 \<and> 1 < base
      then digit_char (cmod num base) # digits_loop (cdiv num base) base
      else [])"
  by pat_completeness auto
termination
  by (relation "measure (\<lambda>(n, _). nat \<bar>n\<bar>)") (auto dest: cdiv_abs)

declare digits_loop.simps [simp del]

text \<open>
  \<open>itoa\<close> returns the string it leaves in the buffer (\<open>None\<close> for the null pointer it returns on a
  bad base; the buffer is assumed large enough, 33 bytes are). The negation of the least
  \<open>int32_t\<close> wraps. Bases other than 10 keep the negative number: the cast to \<open>uint32_t\<close> is
  stored back into an \<open>int32_t\<close>.
\<close>

definition itoa :: "int \<Rightarrow> int \<Rightarrow> bytes option" where
  "itoa value base =
     (if base < 2 \<or> 36 < base then None
      else if value = 0 then Some [0x30]
      else if value < 0 \<and> base = 10 then
        Some (rev (digits_loop (wrap32 (- value)) base @ [0x2D]))
      else Some (rev (digits_loop value base)))"

definition utoa :: "u32 \<Rightarrow> int \<Rightarrow> bytes option" where
  "utoa value base =
     (if base < 2 \<or> 36 < base then None
      else if value = 0 then Some [0x30]
      else Some (rev (digits_loop (uint value) base)))"

fun skip_space :: "bytes \<Rightarrow> bytes" where
  "skip_space [] = []"
| "skip_space (c # s) = (if isspace (sint c) then skip_space s else c # s)"

text \<open>\<open>result = result * 10 + (*str - '0')\<close> on a wrapping \<open>int32_t\<close>.\<close>

fun atoi_loop :: "int \<Rightarrow> bytes \<Rightarrow> int" where
  "atoi_loop result [] = result"
| "atoi_loop result (c # s) =
     (if isdigit (sint c) then atoi_loop (wrap32 (result * 10 + (sint c - 0x30))) s else result)"

fun atoi :: "ptr \<Rightarrow> int" where
  "atoi Null = 0"
| "atoi (Ptr str) =
     (let str = skip_space str
      in if peek str = 0x2D then wrap32 (- atoi_loop 0 (tl str))
         else if peek str = 0x2B then atoi_loop 0 (tl str)
         else atoi_loop 0 str)"

definition atol :: "ptr \<Rightarrow> int" where
  "atol str = atoi str"

definition hex_value :: "u8 \<Rightarrow> u32 option" where
  "hex_value c =
     (if 0x30 \<le> c \<and> c \<le> 0x39 then Some (ucast c - 0x30)
      else if 0x61 \<le> c \<and> c \<le> 0x66 then Some (ucast c - 0x61 + 10)
      else if 0x41 \<le> c \<and> c \<le> 0x46 then Some (ucast c - 0x41 + 10)
      else None)"

fun htoi_loop :: "u32 \<Rightarrow> bytes \<Rightarrow> u32" where
  "htoi_loop result [] = result"
| "htoi_loop result (c # s) =
     (case hex_value c of None \<Rightarrow> result | Some v \<Rightarrow> htoi_loop (push_bit 4 result OR v) s)"

fun htoi :: "ptr \<Rightarrow> u32" where
  "htoi Null = 0"
| "htoi (Ptr str) =
     (let str = skip_space str;
          str = (if peek str = 0x30 \<and> (peek (tl str) = 0x78 \<or> peek (tl str) = 0x58) then drop 2 str else str)
      in htoi_loop 0 str)"

fun btoi_loop :: "u32 \<Rightarrow> bytes \<Rightarrow> u32" where
  "btoi_loop result [] = result"
| "btoi_loop result (c # s) =
     (if c = 0x30 \<or> c = 0x31 then btoi_loop (push_bit 1 result + (ucast c - 0x30)) s else result)"

fun btoi :: "ptr \<Rightarrow> u32" where
  "btoi Null = 0"
| "btoi (Ptr str) =
     (let str = skip_space str;
          str = (if peek str = 0x30 \<and> (peek (tl str) = 0x62 \<or> peek (tl str) = 0x42) then drop 2 str else str)
      in btoi_loop 0 str)"

text \<open>\<open>int_to_str\<close>: digits into a temporary, then reversed into the caller's buffer.\<close>

definition int_to_str :: "u32 \<Rightarrow> bytes" where
  "int_to_str n = (if n = 0 then [0x30] else rev (digits_loop (uint n) 10))"

section \<open>Memory blocks\<close>

text \<open>
  Copies inside one object, so that overlap is visible: destination and source are offsets into
  the same memory, and every byte is read from the memory as the loop has left it.
\<close>

fun copy_forward :: "bytes \<Rightarrow> nat \<Rightarrow> nat \<Rightarrow> nat \<Rightarrow> bytes option" where
  "copy_forward mem d s 0 = Some mem"
| "copy_forward mem d s (Suc n) =
     (if d < length mem \<and> s < length mem
      then copy_forward (mem[d := mem ! s]) (d + 1) (s + 1) n else None)"

fun copy_backward :: "bytes \<Rightarrow> nat \<Rightarrow> nat \<Rightarrow> nat \<Rightarrow> bytes option" where
  "copy_backward mem d s 0 = Some mem"
| "copy_backward mem d s (Suc n) =
     (if d + n < length mem \<and> s + n < length mem
      then copy_backward (mem[d + n := mem ! (s + n)]) d s n else None)"

definition memcpy :: "bytes \<Rightarrow> nat \<Rightarrow> nat \<Rightarrow> nat \<Rightarrow> bytes option" where
  "memcpy mem dest src n = copy_forward mem dest src n"

definition memmove :: "bytes \<Rightarrow> nat \<Rightarrow> nat \<Rightarrow> nat \<Rightarrow> bytes option" where
  "memmove mem dest src n =
     (if n = 0 then Some mem
      else if dest < src then copy_forward mem dest src n
      else copy_backward mem dest src n)"

lemma copy_forward_nth:
  assumes "d \<le> s \<or> s + n \<le> d" and "d + n \<le> length mem" and "s + n \<le> length mem"
  shows "\<exists>m. copy_forward mem d s n = Some m \<and> length m = length mem \<and>
    (\<forall>k < length mem. m ! k = (if d \<le> k \<and> k < d + n then mem ! (s + (k - d)) else mem ! k))"
  using assms
proof (induction mem d s n rule: copy_forward.induct)
  case (2 mem d s n)
  let ?m = "mem[d := mem ! s]"
  obtain m where m: "copy_forward ?m (d + 1) (s + 1) n = Some m" "length m = length mem"
      "\<forall>k < length mem. m ! k = (if d + 1 \<le> k \<and> k < d + 1 + n then ?m ! (s + 1 + (k - (d + 1))) else ?m ! k)"
    using 2 by auto
  have src: "?m ! (s + 1 + (k - (d + 1))) = mem ! (s + (k - d))" if "d + 1 \<le> k" "k < d + 1 + n" for k
  proof -
    have e: "s + 1 + (k - (d + 1)) = s + (k - d)" and ne: "d \<noteq> s + (k - d)"
      using that "2.prems"(1) by auto
    show ?thesis
      unfolding e by (rule nth_list_update_neq [OF ne])
  qed
  have "m ! k = (if d \<le> k \<and> k < d + Suc n then mem ! (s + (k - d)) else mem ! k)" if "k < length mem" for k
    using m(3) src that "2.prems" by (cases "k = d") auto
  with m(1,2) "2.prems" show ?case by auto
qed auto

lemma copy_backward_nth:
  assumes "s \<le> d" and "d + n \<le> length mem"
  shows "\<exists>m. copy_backward mem d s n = Some m \<and> length m = length mem \<and>
    (\<forall>k < length mem. m ! k = (if d \<le> k \<and> k < d + n then mem ! (s + (k - d)) else mem ! k))"
  using assms
proof (induction mem d s n rule: copy_backward.induct)
  case (2 mem d s n)
  let ?m = "mem[d + n := mem ! (s + n)]"
  obtain m where m: "copy_backward ?m d s n = Some m" "length m = length mem"
      "\<forall>k < length mem. m ! k = (if d \<le> k \<and> k < d + n then ?m ! (s + (k - d)) else ?m ! k)"
    using 2 by auto
  have src: "?m ! (s + (k - d)) = mem ! (s + (k - d))" if "d \<le> k" "k < d + n" for k
    using that "2.prems"(1) by simp
  have "m ! k = (if d \<le> k \<and> k < d + Suc n then mem ! (s + (k - d)) else mem ! k)" if "k < length mem" for k
    using m(3) src that "2.prems" by (cases "k = d + n") auto
  with m(1,2) "2.prems" show ?case by auto
qed auto

lemma splice_nth:
  assumes "d + n \<le> length mem" and "s + n \<le> length mem" and "length m = length mem"
    and "\<forall>k < length mem. m ! k = (if d \<le> k \<and> k < d + n then mem ! (s + (k - d)) else mem ! k)"
  shows "m = take d mem @ take n (drop s mem) @ drop (d + n) mem"
proof (rule nth_equalityI)
  have len: "length (take d mem) = d" "length (take n (drop s mem)) = n"
    using assms by simp_all
  show "length m = length (take d mem @ take n (drop s mem) @ drop (d + n) mem)"
    using assms by simp
  fix k
  assume "k < length m"
  then have "m ! k = (if d \<le> k \<and> k < d + n then mem ! (s + (k - d)) else mem ! k)"
    using assms(3,4) by simp
  moreover have "(take d mem @ take n (drop s mem) @ drop (d + n) mem) ! k =
      (if d \<le> k \<and> k < d + n then mem ! (s + (k - d)) else mem ! k)"
    using assms(1,2) \<open>k < length m\<close> assms(3) unfolding nth_append len by auto
  ultimately show "m ! k = (take d mem @ take n (drop s mem) @ drop (d + n) mem) ! k"
    by simp
qed

definition memset :: "bytes \<Rightarrow> nat \<Rightarrow> int \<Rightarrow> nat \<Rightarrow> bytes option" where
  "memset mem ptr value n = wrn mem ptr (replicate n (word_of_int value))"

fun memcmp :: "bytes \<Rightarrow> bytes \<Rightarrow> nat \<Rightarrow> int option" where
  "memcmp s1 s2 0 = Some 0"
| "memcmp (x # s1) (y # s2) (Suc n) = (if x \<noteq> y then Some (uint x - uint y) else memcmp s1 s2 n)"
| "memcmp _ _ (Suc n) = None"

fun memchr_loop :: "bytes \<Rightarrow> u8 \<Rightarrow> nat \<Rightarrow> nat \<Rightarrow> nat option option" where
  "memchr_loop s val 0 i = Some None"
| "memchr_loop [] val (Suc n) i = None"
| "memchr_loop (x # s) val (Suc n) i = (if x = val then Some (Some i) else memchr_loop s val n (i + 1))"

definition memchr :: "bytes \<Rightarrow> int \<Rightarrow> nat \<Rightarrow> nat option option" where
  "memchr s value n = memchr_loop s (word_of_int value) n 0"

lemma memcmp_zero_iff:
  "n \<le> length a \<Longrightarrow> n \<le> length b \<Longrightarrow> memcmp a b n = Some 0 \<longleftrightarrow> take n a = take n b"
  by (induction a b n rule: memcmp.induct) auto

section \<open>Tokens\<close>

text \<open>\<open>*p && strchr(delim, *p)\<close> for the byte under the pointer.\<close>

definition is_delim :: "bytes \<Rightarrow> u8 \<Rightarrow> bool" where
  "is_delim delim c \<longleftrightarrow> strchr_loop delim c 0 \<noteq> None"

fun skip_delims :: "bytes \<Rightarrow> bytes \<Rightarrow> nat \<Rightarrow> nat" where
  "skip_delims delim [] p = p"
| "skip_delims delim (c # s) p = (if c \<noteq> 0 \<and> is_delim delim c then skip_delims delim s (p + 1) else p)"

fun find_delim :: "bytes \<Rightarrow> bytes \<Rightarrow> nat \<Rightarrow> nat" where
  "find_delim delim [] p = p"
| "find_delim delim (c # s) p = (if c \<noteq> 0 \<and> \<not> is_delim delim c then find_delim delim s (p + 1) else p)"

text \<open>
  \<open>strtok_r\<close> on the string memory \<open>mem\<close>: \<open>str\<close> and \<open>saveptr\<close> are offsets into it or null. The
  result is the start of the token (or null), the memory with the delimiter overwritten, and
  the new save pointer. \<open>strtok\<close> is the same with its static save pointer.
\<close>

definition strtok_r :: "bytes \<Rightarrow> nat option \<Rightarrow> bytes \<Rightarrow> nat option \<Rightarrow> nat option \<times> bytes \<times> nat option" where
  "strtok_r mem str delim saveptr =
     (case (case str of Some p \<Rightarrow> Some p | None \<Rightarrow> saveptr) of
        None \<Rightarrow> (None, mem, None)
      | Some p \<Rightarrow>
          (let p = skip_delims delim (drop p mem) p
           in if peek (drop p mem) = 0 then (None, mem, None)
              else
                (let start = p; p = find_delim delim (drop p mem) p
                 in if peek (drop p mem) \<noteq> 0 then (Some start, mem[p := 0], Some (p + 1))
                    else (Some start, mem, None))))"

definition strtok :: "bytes \<Rightarrow> nat option \<Rightarrow> bytes \<Rightarrow> nat option \<Rightarrow> nat option \<times> bytes \<times> nat option" where
  "strtok mem str delim strtok_saveptr = strtok_r mem str delim strtok_saveptr"

text \<open>The calling idiom: one call with the string, then calls with null until null comes back.\<close>

fun strtok_all :: "nat \<Rightarrow> bytes \<Rightarrow> nat option \<Rightarrow> bytes \<Rightarrow> nat option \<Rightarrow> bytes list option" where
  "strtok_all 0 mem str delim saveptr = None"
| "strtok_all (Suc fuel) mem str delim saveptr =
     (case strtok_r mem str delim saveptr of
        (None, _, _) \<Rightarrow> Some []
      | (Some start, mem', save') \<Rightarrow>
          map_option ((#) (cstr (drop start mem'))) (strtok_all fuel mem' None delim save'))"

text \<open>The words of a string: maximal runs of non-delimiters.\<close>

lemma dropWhile_shrinks:
  assumes "dropWhile d xs \<noteq> []"
  shows "length (dropWhile (\<lambda>c. \<not> d c) (dropWhile d xs)) < length xs"
proof -
  obtain y zs where yz: "dropWhile d xs = y # zs" "\<not> d y"
    using assms by (metis hd_dropWhile list.collapse)
  have "length (dropWhile (\<lambda>c. \<not> d c) zs) \<le> length zs"
    by (rule length_dropWhile_le)
  moreover have "Suc (length zs) \<le> length xs"
    using length_dropWhile_le [of d xs] yz(1) by simp
  ultimately show ?thesis
    using yz by simp
qed

function words_of :: "('a \<Rightarrow> bool) \<Rightarrow> 'a list \<Rightarrow> 'a list list" where
  "words_of d xs =
     (let ys = dropWhile d xs
      in if ys = [] then [] else takeWhile (\<lambda>c. \<not> d c) ys # words_of d (dropWhile (\<lambda>c. \<not> d c) ys))"
  by pat_completeness auto
termination
  by (relation "measure (\<lambda>(_, xs). length xs)") (auto intro: dropWhile_shrinks)

declare words_of.simps [simp del]

section \<open>Correctness\<close>

text \<open>Decimal digits read back.\<close>

lemma digits_loop_pos:
  "0 < n \<Longrightarrow> digits_loop n 10 = digit_char (n mod 10) # digits_loop (n div 10) 10"
  by (simp add: digits_loop.simps [of n] cmod_nonneg cdiv_nonneg)

lemma digits_loop_0 [simp]: "digits_loop 0 b = []"
  by (simp add: digits_loop.simps)

lemma sint_digit_char: "0 \<le> k \<Longrightarrow> k < 10 \<Longrightarrow> sint (digit_char k) = k + 0x30"
proof -
  assume "0 \<le> k" "k < 10"
  then have "k \<in> {0, 1, 2, 3, 4, 5, 6, 7, 8, 9}"
    unfolding insert_iff empty_iff by presburger
  then show ?thesis
    by (auto simp: digit_char_def)
qed

lemma digits_loop_digits:
  "0 \<le> n \<Longrightarrow> c \<in> set (digits_loop n 10) \<Longrightarrow> isdigit (sint c)"
proof (induction "nat n" arbitrary: n rule: less_induct)
  case less
  show ?case
  proof (cases "n = 0")
    case False
    have d: "digits_loop n 10 = digit_char (n mod 10) # digits_loop (n div 10) 10"
      using False less.prems(1) by (intro digits_loop_pos) simp
    have "isdigit (sint (digit_char (n mod 10)))"
      by (simp add: isdigit_def sint_digit_char)
    moreover have "nat (n div 10) < nat n" "0 \<le> n div 10"
      using False less.prems(1) by simp_all
    ultimately show ?thesis
      using less.hyps [of "n div 10"] less.prems(2) unfolding d by auto
  qed (use less in simp)
qed

lemma atoi_loop_digits:
  "0 \<le> n \<Longrightarrow> n < 2147483648 \<Longrightarrow> atoi_loop 0 (rev (digits_loop n 10) @ s) = atoi_loop n s"
proof (induction "nat n" arbitrary: n s rule: less_induct)
  case less
  show ?case
  proof (cases "n = 0")
    case False
    have d: "digits_loop n 10 = digit_char (n mod 10) # digits_loop (n div 10) 10"
      using False less.prems(1) by (intro digits_loop_pos) simp
    have "nat (n div 10) < nat n" "0 \<le> n div 10" "n div 10 < 2147483648"
      using False less.prems by simp_all
    then have "atoi_loop 0 (rev (digits_loop n 10) @ s) =
        atoi_loop (n div 10) (digit_char (n mod 10) # s)"
      unfolding d using less.hyps [of "n div 10" "digit_char (n mod 10) # s"] by simp
    moreover have "n mod 10 \<le> 9"
      by presburger
    then have "atoi_loop (n div 10) (digit_char (n mod 10) # s) = atoi_loop (wrap32 n) s"
      by (simp add: sint_digit_char isdigit_def)
    moreover have "wrap32 n = n"
      using less.prems by (simp add: int32_def)
    ultimately show ?thesis by simp
  qed simp
qed

lemma itoa_decimal_head:
  assumes "0 < n"
  obtains c s where "rev (digits_loop n 10) = c # s" and "isdigit (sint c)"
proof -
  have "rev (digits_loop n 10) \<noteq> []"
    using assms by (simp add: digits_loop_pos)
  then obtain c s where "rev (digits_loop n 10) = c # s"
    by (cases "rev (digits_loop n 10)") auto
  moreover from this have "c \<in> set (digits_loop n 10)"
    by (metis list.set_intros(1) set_rev)
  then have "isdigit (sint c)"
    using digits_loop_digits [of n c] assms by linarith
  ultimately show thesis
    by (rule that)
qed

lemma isdigit_not_sign: "isdigit (sint (c :: u8)) \<Longrightarrow> c \<noteq> 0x2D \<and> c \<noteq> 0x2B \<and> \<not> isspace (sint c)"
  by (auto simp: isdigit_def isspace_def)

lemma atoi_decimal:
  assumes "0 < n" and "n < 2147483648"
  shows "atoi (Ptr (rev (digits_loop n 10))) = n" and "atoi (Ptr (0x2D # rev (digits_loop n 10))) = - n"
proof -
  obtain c s where cs: "rev (digits_loop n 10) = c # s" "isdigit (sint c)"
    using assms(1) by (rule itoa_decimal_head)
  have "atoi_loop 0 (rev (digits_loop n 10)) = n"
    using atoi_loop_digits [of n "[]"] assms by simp
  then show "atoi (Ptr (rev (digits_loop n 10))) = n" "atoi (Ptr (0x2D # rev (digits_loop n 10))) = - n"
    using isdigit_not_sign [OF cs(2)] assms
    by (simp_all add: cs(1) isspace_def int32_def)
qed

text \<open>
  Every \<open>int32_t\<close> but the least one survives \<open>itoa\<close> in base 10 followed by \<open>atoi\<close>.
\<close>

theorem atoi_itoa:
  assumes "int32 v" and "v \<noteq> - (2 ^ 31)"
  shows "map_option (\<lambda>s. atoi (Ptr s)) (itoa v 10) = Some v"
proof -
  consider "v = 0" | "0 < v" | "v < 0"
    by linarith
  then show ?thesis
  proof cases
    case 1
    then show ?thesis by (simp add: itoa_def isspace_def isdigit_def int32_def)
  next
    case 2
    with assms show ?thesis by (simp add: itoa_def atoi_decimal int32_def del: atoi.simps)
  next
    case 3
    with assms have "wrap32 (- v) = - v" "0 < - v" "- v < 2147483648"
      by (simp_all add: int32_def)
    with 3 show ?thesis by (simp add: itoa_def atoi_decimal del: atoi.simps)
  qed
qed

theorem atoi_itoa_witness: "map_option (\<lambda>s. atoi (Ptr s)) (itoa (-2147483647) 10) = Some (-2147483647)"
  using atoi_itoa [of "-2147483647"] by (simp add: int32_def)

lemma memmove_eq:
  assumes "d + n \<le> length mem" and "s + n \<le> length mem"
  shows "memmove mem d s n = Some (take d mem @ take n (drop s mem) @ drop (d + n) mem)"
proof -
  consider "n = 0" | "n \<noteq> 0" "d < s" | "n \<noteq> 0" "s \<le> d"
    by linarith
  then show ?thesis
  proof cases
    case 1
    then show ?thesis by (simp add: memmove_def)
  next
    case 2
    obtain m where "copy_forward mem d s n = Some m" "length m = length mem"
        "\<forall>k < length mem. m ! k = (if d \<le> k \<and> k < d + n then mem ! (s + (k - d)) else mem ! k)"
      using copy_forward_nth [of d s n mem] 2 assms by auto
    then show ?thesis
      using splice_nth [OF assms] 2 by (auto simp: memmove_def)
  next
    case 3
    obtain m where "copy_backward mem d s n = Some m" "length m = length mem"
        "\<forall>k < length mem. m ! k = (if d \<le> k \<and> k < d + n then mem ! (s + (k - d)) else mem ! k)"
      using copy_backward_nth [of s d n mem] 3 assms by auto
    then show ?thesis
      using splice_nth [OF assms] 3 by (auto simp: memmove_def)
  qed
qed

text \<open>
  \<open>memmove\<close> moves any two overlapping regions of one object correctly: the destination
  holds the source bytes as they were before the call, and nothing else changes.
\<close>

theorem memmove_overlap:
  assumes "d + n \<le> length mem" and "s + n \<le> length mem"
  shows "memmove mem d s n = Some (take d mem @ take n (drop s mem) @ drop (d + n) mem)"
  by (rule memmove_eq [OF assms])

theorem memmove_overlap_witness:
  "memmove [1, 2, 3, 4, 5] 1 0 3 = Some [1, 1, 2, 3, 5]"
  using memmove_overlap [of 1 3 "[1, 2, 3, 4, 5]" 0] by simp

section \<open>Tokens are words\<close>

lemma strchr_loop_None: "nul_free delim \<Longrightarrow> c \<noteq> 0 \<Longrightarrow> strchr_loop delim c i = None \<longleftrightarrow> c \<notin> set delim"
  by (induction delim arbitrary: i) auto

lemma skip_delims_eq:
  "skip_delims delim s p = p + length (takeWhile (\<lambda>c. c \<noteq> 0 \<and> is_delim delim c) s)"
  by (induction delim s p rule: skip_delims.induct) auto

lemma find_delim_eq:
  "find_delim delim s p = p + length (takeWhile (\<lambda>c. c \<noteq> 0 \<and> \<not> is_delim delim c) s)"
  by (induction delim s p rule: find_delim.induct) auto

lemma takeWhile_nul_free: "nul_free s \<Longrightarrow> takeWhile (\<lambda>c. c \<noteq> 0 \<and> P c) s = takeWhile P s"
  by (induction s) auto

lemma drop_takeWhile: "drop (length (takeWhile P s)) s = dropWhile P s"
  by (induction s) auto

lemma cstr_list_update_nul: "nul_free s \<Longrightarrow> k < length s \<Longrightarrow> cstr (s[k := 0]) = take k s"
proof (induction s arbitrary: k)
  case (Cons c s)
  then show ?case by (cases k) auto
qed simp

text \<open>
  One call on a NUL-free string \<open>rest\<close> that is the tail of the memory from the save pointer on.
\<close>

lemma strtok_r_step:
  fixes delim mem
  defines "d \<equiv> is_delim delim"
  assumes p: "p \<le> length mem" and nf: "nul_free (drop p mem)"
    and ptr: "(case str of Some q \<Rightarrow> Some q | None \<Rightarrow> save) = Some p"
  defines "ys \<equiv> dropWhile d (drop p mem)"
  defines "tok \<equiv> takeWhile (\<lambda>c. \<not> d c) ys" and "rest \<equiv> dropWhile (\<lambda>c. \<not> d c) ys"
  shows "ys = [] \<Longrightarrow> strtok_r mem str delim save = (None, mem, None)"
    and "ys \<noteq> [] \<Longrightarrow> \<exists>q mem'. strtok_r mem str delim save =
          (Some q, mem', if rest = [] then None else Some (length mem - length rest + 1)) \<and>
        length mem' = length mem \<and> cstr (drop q mem') = tok \<and>
        (rest \<noteq> [] \<longrightarrow> drop (length mem - length rest + 1) mem' = tl rest)"
proof -
  let ?s = "drop p mem"
  define q where "q = p + length (takeWhile d ?s)"
  define r where "r = q + length tok"
  have ys: "ys = drop q mem"
    using drop_takeWhile [of d ?s] by (simp add: ys_def q_def add.commute)
  have rest: "rest = drop r mem"
    using drop_takeWhile [of "\<lambda>c. \<not> d c" ys] by (simp add: rest_def tok_def ys r_def add.commute)
  have nf': "nul_free ys" "nul_free rest"
    using nf set_drop_subset_set_drop [of p q mem] set_drop_subset_set_drop [of p r mem]
    unfolding ys rest nul_free_def by (auto simp: q_def r_def)
  have skip: "skip_delims delim ?s p = q"
    by (simp add: skip_delims_eq q_def d_def takeWhile_nul_free [OF nf])
  have find: "find_delim delim (drop q mem) q = r"
    using nf'(1) by (simp add: find_delim_eq r_def tok_def d_def takeWhile_nul_free flip: ys)
  have peek: "peek ys = 0 \<longleftrightarrow> ys = []" "peek rest = 0 \<longleftrightarrow> rest = []"
    using nf' by (cases ys; cases rest; simp)+
  note step = strtok_r_def ptr Let_def skip find peek [unfolded ys rest]
  show "strtok_r mem str delim save = (None, mem, None)" if "ys = []"
    using that by (simp add: step ys)
  show "\<exists>q mem'. strtok_r mem str delim save =
          (Some q, mem', if rest = [] then None else Some (length mem - length rest + 1)) \<and>
        length mem' = length mem \<and> cstr (drop q mem') = tok \<and>
        (rest \<noteq> [] \<longrightarrow> drop (length mem - length rest + 1) mem' = tl rest)" if ne: "ys \<noteq> []"
  proof (cases "rest = []")
    case True
    then have "tok = ys"
      by (simp add: rest_def tok_def dropWhile_eq_Nil_conv takeWhile_eq_all_conv)
    then have "cstr (drop q mem) = tok"
      using nf'(1) by (simp flip: ys)
    moreover have "strtok_r mem str delim save = (Some q, mem, None)"
      using True ne unfolding ys rest by (simp add: step)
    ultimately show ?thesis
      using True by auto
  next
    case False
    then have r: "r < length mem" "length mem - length rest = r"
      by (auto simp: rest)
    have len: "length tok < length ys"
      using r by (simp add: ys r_def)
    have "drop q (mem[r := 0]) = ys[length tok := 0]"
      by (simp add: r_def ys drop_update_swap)
    then have "cstr (drop q (mem[r := 0])) = tok"
      using cstr_list_update_nul [OF nf'(1) len] by (simp add: tok_def takeWhile_eq_take [symmetric])
    moreover have "strtok_r mem str delim save = (Some q, mem[r := 0], Some (r + 1))"
      using False ne unfolding ys rest by (simp add: step)
    moreover have "drop (r + 1) (mem[r := 0]) = tl rest"
      by (simp add: rest tl_drop drop_Suc flip: drop_Suc)
    ultimately show ?thesis
      using False r(2) by auto
  qed
qed

lemma strtok_all_words:
  assumes "p \<le> length mem" and "nul_free (drop p mem)" and "length (drop p mem) < fuel"
    and "(case str of Some q \<Rightarrow> Some q | None \<Rightarrow> save) = Some p"
  shows "strtok_all fuel mem str delim save = Some (words_of (is_delim delim) (drop p mem))"
  using assms
proof (induction fuel arbitrary: mem str save p)
  case (Suc fuel)
  let ?d = "is_delim delim" and ?s = "drop p mem"
  let ?ys = "dropWhile ?d ?s"
  let ?tok = "takeWhile (\<lambda>c. \<not> ?d c) ?ys" and ?rest = "dropWhile (\<lambda>c. \<not> ?d c) ?ys"
  note step = strtok_r_step [OF Suc.prems(1,2,4)]
  show ?case
  proof (cases "?ys = []")
    case True
    then show ?thesis using step(1) by (simp add: words_of.simps [of ?d ?s])
  next
    case ys: False
    obtain q mem' where q: "strtok_r mem str delim save =
          (Some q, mem', if ?rest = [] then None else Some (length mem - length ?rest + 1))"
        "length mem' = length mem" "cstr (drop q mem') = ?tok"
        "?rest \<noteq> [] \<longrightarrow> drop (length mem - length ?rest + 1) mem' = tl ?rest"
      using step(2) [OF ys] by auto
    have words: "words_of ?d ?s = ?tok # words_of ?d ?rest"
      using ys by (simp add: words_of.simps [of ?d ?s] Let_def)
    have short: "length ?rest < length ?s"
      using dropWhile_shrinks ys by blast
    show ?thesis
    proof (cases "?rest = []")
      case True
      obtain f where "fuel = Suc f"
        using Suc.prems(3) short by (cases fuel) auto
      then have "strtok_all fuel mem' None delim None = Some []"
        by (simp add: strtok_r_def)
      moreover have "words_of ?d ?rest = []"
        unfolding True by (simp add: words_of.simps)
      ultimately show ?thesis
        unfolding words \<open>words_of ?d ?rest = []\<close> using True q(1,3) by simp
    next
      case False
      let ?p = "length mem - length ?rest + 1"
      have t: "drop ?p mem' = tl ?rest" and "length ?rest \<le> length mem"
        using q(4) False short by auto
      then have p: "?p \<le> length mem'"
        using False q(2) by (cases ?rest) auto
      have "set (tl ?rest) \<subseteq> set ?s"
        by (metis list.set_sel(2) False set_dropWhileD subsetI)
      then have nf: "nul_free (drop ?p mem')"
        using Suc.prems(2) unfolding t nul_free_def by blast
      have "length (drop ?p mem') < fuel"
        unfolding t length_tl using short Suc.prems(3) by linarith
      then have "strtok_all fuel mem' None delim (Some ?p) = Some (words_of ?d (tl ?rest))"
        using Suc.IH [OF p nf, of "Some ?p" None] by (simp only: t option.case)
      moreover have "words_of ?d (tl ?rest) = words_of ?d ?rest"
      proof -
        have "?d (hd ?rest)"
          using hd_dropWhile [OF False] by simp
        then have "dropWhile ?d ?rest = dropWhile ?d (tl ?rest)"
          using False by (cases ?rest) auto
        then show ?thesis
          by (simp add: words_of.simps [of ?d ?rest] words_of.simps [of ?d "tl ?rest"])
      qed
      ultimately show ?thesis
        unfolding words using False q(1,3) by (simp del: dropWhile_eq_Nil_conv)
    qed
  qed
qed simp

text \<open>
  Tokenising a string with \<open>strtok_r\<close> (a first call with the string, then calls with null
  until null comes back) returns exactly the maximal runs of non-delimiters, in order, and the
  sequence of calls ends.
\<close>

theorem strtok_r_words:
  assumes "nul_free s"
  shows "strtok_all (length s + 1) s (Some 0) delim save = Some (words_of (is_delim delim) s)"
  using strtok_all_words [of 0 s] assms by (simp del: strtok_all.simps)

theorem strtok_r_words_witness:
  "strtok_all (length (lit '' ls  -a'') + 1) (lit '' ls  -a'') (Some 0) (lit '' '') None = Some [lit ''ls'', lit ''-a'']"
  using strtok_r_words [of "lit '' ls  -a''" "lit '' ''" None]
  by (simp add: words_of.simps is_delim_def del: strtok_all.simps)

end
