(* ===== verification/Fat32.thy ===== *)
theory Fat32
  imports AurionPrelude
begin

text \<open>
  The FAT32 reader, \<open>src/src/fat32.c\<close>: mounting, following cluster chains, matching 8.3
  names, searching and listing directories, reading files.

  The disk is a parameter that maps a sector number to the content of the sector, or to
  \<open>None\<close> when \<open>disk_read_lba_hdd\<close> reports an error. The buffers \<open>fat_sector_buffer\<close> and
  \<open>fat_dir_buffer\<close> are always filled by the call that then reads them, so they are the values
  these calls return; a write past the 8 sectors of \<open>fat_dir_buffer\<close> is \<open>None\<close>.
\<close>

section \<open>Data\<close>

type_synonym disk = "u32 \<Rightarrow> (nat \<Rightarrow> u8) option"

definition disk_read_lba_hdd :: "disk \<Rightarrow> u32 \<Rightarrow> bytes option" where
  "disk_read_lba_hdd disk lba = map_option (\<lambda>f. map f [0..<512]) (disk lba)"

lemma length_disk_read [simp, bufs]: "disk_read_lba_hdd disk lba = Some b \<Longrightarrow> length b = 512"
  by (auto simp: disk_read_lba_hdd_def)

record bpb =
  bytes_per_sector :: u16
  sectors_per_cluster :: u8
  reserved_sectors :: u16
  num_fats :: u8
  total_sectors_32 :: u32
  sectors_per_fat_32 :: u32
  bpb_root_cluster :: u32
  signature :: u8
  bpb_volume_label :: bytes

record dir_entry =
  de_name :: bytes
  de_attributes :: u8
  first_cluster_high :: u16
  first_cluster_low :: u16
  de_file_size :: u32

record mount_info =
  sectors_per_fat :: u32
  fat_start_lba :: u32
  data_start_lba :: u32
  cluster_size :: u32
  root_cluster :: u32
  total_clusters :: u32
  volume_label :: bytes
  fat_valid :: bool
  fat_mounted :: bool

definition g_fat_init :: mount_info where
  "g_fat_init = \<lparr>sectors_per_fat = 0, fat_start_lba = 0, data_start_lba = 0, cluster_size = 0,
     root_cluster = 0, total_clusters = 0, volume_label = replicate 12 0,
     fat_valid = False, fat_mounted = False\<rparr>"

text \<open>The packed structures read from a sector, field by field at their offsets.\<close>

definition le16 :: "bytes \<Rightarrow> nat \<Rightarrow> u16" where
  "le16 b i = join16 (b ! (i + 1)) (b ! i)"

definition le32 :: "bytes \<Rightarrow> nat \<Rightarrow> u32" where
  "le32 b i = join32 (b ! (i + 3)) (b ! (i + 2)) (b ! (i + 1)) (b ! i)"

definition bpb_of :: "bytes \<Rightarrow> bpb" where
  "bpb_of b = \<lparr>bytes_per_sector = le16 b 11, sectors_per_cluster = b ! 13,
     reserved_sectors = le16 b 14, num_fats = b ! 16, total_sectors_32 = le32 b 32,
     sectors_per_fat_32 = le32 b 36, bpb_root_cluster = le32 b 44, signature = b ! 66,
     bpb_volume_label = take 11 (drop 71 b)\<rparr>"

definition dir_entry_of :: "bytes \<Rightarrow> dir_entry" where
  "dir_entry_of b = \<lparr>de_name = take 11 b, de_attributes = b ! 11,
     first_cluster_high = le16 b 20, first_cluster_low = le16 b 26, de_file_size = le32 b 28\<rparr>"

section \<open>Sectors, clusters and the allocation table\<close>

definition fat_read_sector :: "disk \<Rightarrow> u32 \<Rightarrow> bytes option" where
  "fat_read_sector disk lba = disk_read_lba_hdd disk lba"

definition fat_get_fat_entry :: "disk \<Rightarrow> mount_info \<Rightarrow> u32 \<Rightarrow> u32" where
  "fat_get_fat_entry disk g cluster =
     (if \<not> fat_valid g then 0xFFFFFFFF
      else
        let fat_offset = cluster * 4;
            sector_offset = fat_offset div 512;
            entry_offset = fat_offset mod 512;
            fat_lba = fat_start_lba g + sector_offset
        in case fat_read_sector disk fat_lba of
             None \<Rightarrow> 0xFFFFFFFF
           | Some fat_sector_buffer \<Rightarrow> le32 fat_sector_buffer (unat entry_offset) AND 0x0FFFFFFF)"

definition fat_cluster_to_lba :: "mount_info \<Rightarrow> u32 \<Rightarrow> u32" where
  "fat_cluster_to_lba g cluster =
     (if \<not> fat_valid g \<or> cluster < 2 then 0
      else data_start_lba g + (cluster - 2) * cluster_size g)"

text \<open>
  The sector loop that fills \<open>fat_dir_buffer\<close>: sector \<open>s\<close> of \<open>n\<close> remaining. The outer \<open>None\<close> is
  the write behind the buffer, the inner one a failed read.
\<close>

fun read_dir_sectors :: "disk \<Rightarrow> u32 \<Rightarrow> nat \<Rightarrow> nat \<Rightarrow> bytes option option" where
  "read_dir_sectors disk lba s 0 = Some (Some [])"
| "read_dir_sectors disk lba s (Suc n) =
     (if 8 \<le> s then None
      else case disk_read_lba_hdd disk (lba + of_nat s) of
        None \<Rightarrow> Some None
      | Some b \<Rightarrow> map_option (map_option ((@) b)) (read_dir_sectors disk lba (s + 1) n))"

definition fat_read_one_cluster :: "disk \<Rightarrow> mount_info \<Rightarrow> u32 \<Rightarrow> bytes option option" where
  "fat_read_one_cluster disk g cluster =
     (let lba = fat_cluster_to_lba g cluster
      in if lba = 0 then Some None else read_dir_sectors disk lba 0 (unat (cluster_size g)))"

definition fat_read_dir_cluster :: "disk \<Rightarrow> mount_info \<Rightarrow> u32 \<Rightarrow> bytes option option" where
  "fat_read_dir_cluster disk g cluster = fat_read_one_cluster disk g cluster"

section \<open>Names\<close>

text \<open>
  The bytes of a name field that are copied while the output has room for \<open>k\<close> more.
\<close>

fun copy_name :: "bytes \<Rightarrow> nat \<Rightarrow> bytes" where
  "copy_name [] k = []"
| "copy_name (c # s) k =
     (if k = 0 then []
      else if c \<noteq> 0x20 \<and> c \<noteq> 0 then c # copy_name s (k - 1) else copy_name s k)"

definition fat_to_filename :: "bytes \<Rightarrow> nat \<Rightarrow> bytes option" where
  "fat_to_filename fat_name out_size =
     (let out = copy_name (take 8 fat_name) (out_size - 1);
          c0 = fat_name ! 0; c8 = fat_name ! 8;
          out = (if c0 \<noteq> 0x20 \<and> c0 \<noteq> 0 \<and> c8 \<noteq> 0x20 \<and> c8 \<noteq> 0 then out @ [0x2E] else out);
          out = out @ copy_name (take 3 (drop 8 fat_name)) (out_size - 1 - length out)
      in if length out < out_size then Some out else None)"

fun fat_filename_match :: "bytes \<Rightarrow> bytes \<Rightarrow> bool" where
  "fat_filename_match e f =
     (if peek f \<noteq> 0 \<and> peek e \<noteq> 0
      then (if lower8 (peek f) \<noteq> lower8 (peek e) then False else fat_filename_match (tl e) (tl f))
      else peek f = 0 \<and> peek e = 0)"

declare fat_filename_match.simps [simp del]

section \<open>Directory search\<close>

definition entries_per_cluster :: "mount_info \<Rightarrow> nat" where
  "entries_per_cluster g = unat ((cluster_size g * 512) div 32)"

text \<open>
  \<open>entry->name[0] == 0xE5\<close> compares a signed \<open>char\<close> with 229.
\<close>

definition marked_deleted :: "dir_entry \<Rightarrow> bool" where
  "marked_deleted e \<longleftrightarrow> sint (de_name e ! 0) = 0xE5"

fun find_entry :: "bytes \<Rightarrow> bytes \<Rightarrow> nat \<Rightarrow> nat \<Rightarrow> (nat \<times> dir_entry) option option" where
  "find_entry fat_dir_buffer filename i 0 = Some None"
| "find_entry fat_dir_buffer filename i (Suc n) =
     (let entry = dir_entry_of (take 32 (drop (i * 32) fat_dir_buffer))
      in if de_name entry ! 0 = 0 then Some None
         else if marked_deleted entry then find_entry fat_dir_buffer filename (i + 1) n
         else if de_attributes entry AND 0x08 \<noteq> 0 then find_entry fat_dir_buffer filename (i + 1) n
         else do {
           entry_name \<leftarrow> fat_to_filename (de_name entry) 13;
           if fat_filename_match entry_name filename then Some (Some (i, entry))
           else find_entry fat_dir_buffer filename (i + 1) n })"

definition fat_find_in_buffer :: "mount_info \<Rightarrow> bytes \<Rightarrow> bytes \<Rightarrow> (nat \<times> dir_entry) option option" where
  "fat_find_in_buffer g fat_dir_buffer filename =
     find_entry fat_dir_buffer filename 0 (entries_per_cluster g)"

text \<open>
  The loop of \<open>fat_search_directory\<close>; \<open>n\<close> is \<open>65536 - visited\<close>.
\<close>

fun search_loop :: "disk \<Rightarrow> mount_info \<Rightarrow> bytes \<Rightarrow> nat \<Rightarrow> u32 \<Rightarrow> (nat \<times> dir_entry) option option" where
  "search_loop disk g filename n cluster =
     (if cluster < 0x0FFFFFF8 \<and> 0 < n then
        do {
          r \<leftarrow> fat_read_dir_cluster disk g cluster;
          case r of
            None \<Rightarrow> Some None
          | Some fat_dir_buffer \<Rightarrow>
              do {
                entry \<leftarrow> fat_find_in_buffer g fat_dir_buffer filename;
                case entry of
                  Some e \<Rightarrow> Some (Some e)
                | None \<Rightarrow> search_loop disk g filename (n - 1) (fat_get_fat_entry disk g cluster) } }
      else Some None)"

declare search_loop.simps [simp del]

definition fat_search_directory :: "disk \<Rightarrow> mount_info \<Rightarrow> u32 \<Rightarrow> bytes \<Rightarrow> (nat \<times> dir_entry) option option" where
  "fat_search_directory disk g start_cluster filename = search_loop disk g filename 65536 start_cluster"

section \<open>Mounting\<close>

text \<open>
  The result is the returned flag and \<open>g_fat\<close>; \<open>None\<close> is the division by a zero
  \<open>sectors_per_cluster\<close>.
\<close>

definition fat32_mount :: "disk \<Rightarrow> mount_info \<Rightarrow> u32 \<Rightarrow> (bool \<times> mount_info) option" where
  "fat32_mount disk g start_lba =
     (let g = g\<lparr>fat_valid := False, fat_mounted := False\<rparr>
      in case fat_read_sector disk start_lba of
           None \<Rightarrow> Some (False, g)
         | Some fat_sector_buffer \<Rightarrow>
             (let bpb = bpb_of fat_sector_buffer
              in if signature bpb \<noteq> 0x29 \<and> signature bpb \<noteq> 0x28 then Some (False, g)
                 else if bytes_per_sector bpb \<noteq> 512 then Some (False, g)
                 else if sectors_per_cluster bpb = 0 then None
                 else
                   let fats = ucast (num_fats bpb) * sectors_per_fat_32 bpb;
                       start = start_lba + ucast (reserved_sectors bpb)
                   in Some (True, g\<lparr>
                        sectors_per_fat := sectors_per_fat_32 bpb,
                        fat_start_lba := start,
                        data_start_lba := start + fats,
                        cluster_size := ucast (sectors_per_cluster bpb),
                        root_cluster := bpb_root_cluster bpb,
                        total_clusters := (total_sectors_32 bpb - ucast (reserved_sectors bpb) - fats)
                          div ucast (sectors_per_cluster bpb),
                        volume_label := bpb_volume_label bpb @ [0],
                        fat_valid := True, fat_mounted := True\<rparr>)))"

definition fat32_is_mounted :: "mount_info \<Rightarrow> bool" where
  "fat32_is_mounted g \<longleftrightarrow> fat_mounted g \<and> fat_valid g"

definition fat32_get_volume_label :: "mount_info \<Rightarrow> bytes" where
  "fat32_get_volume_label g = volume_label g"

definition fat32_unmount :: "mount_info \<Rightarrow> bool \<times> mount_info" where
  "fat32_unmount g =
     (if \<not> fat_valid g then (False, g) else (True, g\<lparr>fat_mounted := False, fat_valid := False\<rparr>))"

section \<open>Files\<close>

definition first_cluster :: "dir_entry \<Rightarrow> u32" where
  "first_cluster entry = push_bit 16 (ucast (first_cluster_high entry)) OR ucast (first_cluster_low entry)"

definition fat32_find_file :: "disk \<Rightarrow> mount_info \<Rightarrow> bytes \<Rightarrow> (u32 \<times> u32) option option" where
  "fat32_find_file disk g filename =
     (if \<not> fat_valid g then Some None
      else map_option (map_option (\<lambda>(_, entry). (first_cluster entry, de_file_size entry)))
             (fat_search_directory disk g (root_cluster g) filename))"

text \<open>
  \<open>fat32_read_file\<close>. The bytes stored in the caller's buffer so far are \<open>out\<close>, and
  \<open>bytes_read\<close> is their number. The sector loop ends early (\<open>Inl\<close>) on a read error.
\<close>

definition bytes_read :: "bytes \<Rightarrow> u32" where
  "bytes_read out = of_nat (length out)"

fun read_file_sectors :: "disk \<Rightarrow> u32 \<Rightarrow> u32 \<Rightarrow> nat \<Rightarrow> nat \<Rightarrow> bytes \<Rightarrow> bytes + bytes" where
  "read_file_sectors disk lba nbytes s 0 out = Inr out"
| "read_file_sectors disk lba nbytes s (Suc n) out =
     (if bytes_read out < nbytes then
        (let to_read = (if nbytes < bytes_read out + 512 then nbytes - bytes_read out else 512)
         in case disk_read_lba_hdd disk (lba + of_nat s) of
              None \<Rightarrow> Inl out
            | Some temp \<Rightarrow> read_file_sectors disk lba nbytes (s + 1) n (out @ take (unat to_read) temp))
      else Inr out)"

text \<open>
  The loop over clusters, \<open>n = 65536 - visited\<close>. The result is the returned \<open>int\<close> and the
  bytes stored.
\<close>

fun read_file_loop :: "disk \<Rightarrow> mount_info \<Rightarrow> u32 \<Rightarrow> u32 \<Rightarrow> nat \<Rightarrow> u32 \<Rightarrow> u32 \<Rightarrow> bytes \<Rightarrow> int \<times> bytes" where
  "read_file_loop disk g offset nbytes n cluster current_offset out =
     (if cluster < 0x0FFFFFF8 \<and> bytes_read out < nbytes \<and> 0 < n then
        (let cluster_bytes = cluster_size g * 512;
             cluster_end = current_offset + cluster_bytes
         in if offset < cluster_end \<and> current_offset < offset then
              (let skip_in_cluster = offset - current_offset;
                   cluster = fat_get_fat_entry disk g cluster
               in if 0 < skip_in_cluster \<and> cluster < 0x0FFFFFF8 then
                    (let lba = fat_cluster_to_lba g cluster;
                         sector_in_cluster = skip_in_cluster div 512;
                         byte_in_sector = skip_in_cluster mod 512
                     in case disk_read_lba_hdd disk (lba + sector_in_cluster) of
                          None \<Rightarrow> (sint (bytes_read out), out)
                        | Some temp \<Rightarrow>
                            (let to_skip = 512 - byte_in_sector;
                                 to_skip = (if nbytes - bytes_read out < to_skip then nbytes - bytes_read out else to_skip);
                                 out = out @ take (unat to_skip) (drop (unat byte_in_sector) temp)
                             in if nbytes \<le> bytes_read out then (sint (bytes_read out), out)
                                else read_file_loop disk g offset nbytes (n - 1) cluster offset out))
                  else read_file_loop disk g offset nbytes (n - 1) cluster offset out)
            else
              (case (if offset \<le> current_offset \<and> bytes_read out < nbytes
                     then read_file_sectors disk (fat_cluster_to_lba g cluster) nbytes 0 (unat (cluster_size g)) out
                     else Inr out) of
                 Inl out \<Rightarrow> (if 0 < bytes_read out then sint (bytes_read out) else -1, out)
               | Inr out \<Rightarrow> read_file_loop disk g offset nbytes (n - 1)
                     (fat_get_fat_entry disk g cluster) (current_offset + cluster_bytes) out))
      else (sint (bytes_read out), out))"

declare read_file_loop.simps [simp del]

definition fat32_read_file :: "disk \<Rightarrow> mount_info \<Rightarrow> u32 \<Rightarrow> u32 \<Rightarrow> u32 \<Rightarrow> int \<times> bytes" where
  "fat32_read_file disk g start_cluster offset nbytes =
     (if \<not> fat_valid g then (-1, [])
      else if start_cluster = 0 \<or> 0x0FFFFFF8 \<le> start_cluster then (-1, [])
      else if nbytes = 0 then (0, [])
      else read_file_loop disk g offset nbytes 65536 start_cluster 0 [])"

text \<open>
  The returned flag, the value stored through \<open>out_actual_size\<close>, and the bytes stored.
\<close>

definition fat32_read_file_by_name ::
    "disk \<Rightarrow> mount_info \<Rightarrow> bytes \<Rightarrow> u32 \<Rightarrow> (bool \<times> u32 option \<times> bytes) option" where
  "fat32_read_file_by_name disk g filename max_size =
     (if \<not> fat_valid g then Some (False, None, [])
      else do {
        r \<leftarrow> fat32_find_file disk g filename;
        case r of
          None \<Rightarrow> Some (False, None, [])
        | Some (cluster, file_size) \<Rightarrow>
            (let to_read = (if max_size < file_size then max_size else file_size);
                 (result, out) = fat32_read_file disk g cluster 0 to_read
             in Some (0 \<le> result, Some file_size, out)) })"

definition fat32_get_file_size_by_name :: "disk \<Rightarrow> mount_info \<Rightarrow> bytes \<Rightarrow> u32 option" where
  "fat32_get_file_size_by_name disk g filename =
     (if \<not> fat_valid g then Some 0
      else map_option (\<lambda>r. case r of None \<Rightarrow> 0 | Some (_, file_size) \<Rightarrow> file_size)
             (fat32_find_file disk g filename))"

section \<open>Listing\<close>

text \<open>
  The callback invocations are the list of (name, is-directory, size). \<open>list_entries\<close> is the
  loop over one cluster; its flag says that a 0 entry ended the directory.
\<close>

type_synonym listing = "(bytes \<times> bool \<times> u32) list"

fun list_entries :: "bytes \<Rightarrow> nat \<Rightarrow> nat \<Rightarrow> (bool \<times> listing) option" where
  "list_entries fat_dir_buffer i 0 = Some (False, [])"
| "list_entries fat_dir_buffer i (Suc n) =
     (let entry = dir_entry_of (take 32 (drop (i * 32) fat_dir_buffer))
      in if de_name entry ! 0 = 0 then Some (True, [])
         else if marked_deleted entry then list_entries fat_dir_buffer (i + 1) n
         else if de_attributes entry AND 0x08 \<noteq> 0 then list_entries fat_dir_buffer (i + 1) n
         else do {
           entry_name \<leftarrow> fat_to_filename (de_name entry) 13;
           if peek entry_name = 0 then list_entries fat_dir_buffer (i + 1) n
           else
             (let is_dir = (de_attributes entry AND 0x10 \<noteq> 0);
                  file_size = (if is_dir then 0 else de_file_size entry)
              in map_option (\<lambda>(ended, l). (ended, (entry_name, is_dir, file_size) # l))
                   (list_entries fat_dir_buffer (i + 1) n)) })"

fun list_loop :: "disk \<Rightarrow> mount_info \<Rightarrow> nat \<Rightarrow> u32 \<Rightarrow> (bool \<times> listing) option" where
  "list_loop disk g n cluster =
     (if cluster < 0x0FFFFFF8 \<and> 0 < n then
        (let lba = fat_cluster_to_lba g cluster
         in if lba = 0 then Some (True, [])
            else do {
              r \<leftarrow> read_dir_sectors disk lba 0 (unat (cluster_size g));
              case r of
                None \<Rightarrow> Some (False, [])
              | Some fat_dir_buffer \<Rightarrow>
                  do {
                    (ended, l) \<leftarrow> list_entries fat_dir_buffer 0 (16 * unat (cluster_size g));
                    if ended then Some (True, l)
                    else map_option (\<lambda>(ok, l'). (ok, l @ l'))
                           (list_loop disk g (n - 1) (fat_get_fat_entry disk g cluster)) } })
      else Some (True, []))"

declare list_loop.simps [simp del]

definition fat32_list_directory :: "disk \<Rightarrow> mount_info \<Rightarrow> bytes \<Rightarrow> (bool \<times> listing) option" where
  "fat32_list_directory disk g dirname =
     (if \<not> fat_valid g then Some (False, [])
      else if peek dirname = 0 \<or> (peek dirname = 0x2F \<and> peek (tl dirname) = 0)
        then list_loop disk g 65536 (root_cluster g)
      else do {
        r \<leftarrow> fat32_find_file disk g dirname;
        case r of
          None \<Rightarrow> Some (False, [])
        | Some (dir_cluster, _) \<Rightarrow> list_loop disk g 65536 dir_cluster })"

section \<open>Names: 8.3 form and comparison\<close>

lemma lower8_0_iff [simp]: "lower8 c = 0 \<longleftrightarrow> c = 0"
proof
  assume z: "lower8 c = 0"
  show "c = 0"
  proof (rule ccontr)
    assume "c \<noteq> 0"
    with z have h: "0x41 \<le> c" "c \<le> 0x5A" and "c + 32 = 0"
      by (auto simp: lower8_def split: if_splits)
    from this(3) have "c = - 32"
      by (simp add: eq_neg_iff_add_eq_0)
    with h show False by simp
  qed
qed (simp add: lower8_def)

lemma fat_filename_match_iff [cstring]:
  "fat_filename_match e f \<longleftrightarrow> map lower8 (cstr e) = map lower8 (cstr f)"
proof (induction e f rule: fat_filename_match.induct)
  case (1 e f)
  show ?case
  proof (cases "peek f \<noteq> 0 \<and> peek e \<noteq> 0")
    case True
    with 1 show ?thesis
      by (cases "lower8 (peek f) = lower8 (peek e)")
        (auto simp: fat_filename_match.simps [of e f] cstr_unfold [of e] cstr_unfold [of f])
  next
    case False
    then show ?thesis
      by (auto simp: fat_filename_match.simps [of e f] cstr_unfold [of e] cstr_unfold [of f])
  qed
qed

definition name_byte :: "u8 \<Rightarrow> bool" where
  "name_byte c \<longleftrightarrow> c \<noteq> 0x20 \<and> c \<noteq> 0"

lemma copy_name_eq: "copy_name s k = take k (filter name_byte s)"
  by (induction s k rule: copy_name.induct) (auto simp: name_byte_def take_Cons')

text \<open>What the name of an entry looks like to the user.\<close>

definition display_name :: "bytes \<Rightarrow> bytes" where
  "display_name s =
     filter name_byte (take 8 s) @ (if name_byte (s ! 0) \<and> name_byte (s ! 8) then [0x2E] else []) @
     filter name_byte (take 3 (drop 8 s))"

lemma fat_to_filename_eq: "fat_to_filename s 13 = Some (display_name s)"
proof -
  define A B where "A = filter name_byte (take 8 s)" and "B = filter name_byte (take 3 (drop 8 s))"
  have l: "length A \<le> 8" "length B \<le> 3"
    unfolding A_def B_def by (rule order.trans [OF length_filter_le], simp)+
  have A: "copy_name (take 8 s) (13 - 1) = A"
    using l(1) by (simp add: copy_name_eq flip: A_def)
  have B: "copy_name (take 3 (drop 8 s)) k = B" if "3 \<le> k" for k
    using l(2) that by (simp add: copy_name_eq flip: B_def)
  show ?thesis
    unfolding fat_to_filename_def display_name_def A A_def [symmetric] B_def [symmetric] Let_def
    using l by (auto simp: name_byte_def B)
qed

lemma replicate_numeral: "replicate (numeral k) x = x # replicate (pred_numeral k) x"
  by (simp add: numeral_eq_Suc)

lemma filter_name_byte_pad: "\<forall>c \<in> set s. name_byte c \<Longrightarrow> filter name_byte (s @ replicate n 0x20) = s"
  by (simp add: name_byte_def)

text \<open>
  A short name stored in the space-padded 8.3 form is read back as \<open>base.ext\<close> (or just
  \<open>base\<close> when there is no extension), and is found under exactly the names that differ from it
  in case only.
\<close>

theorem short_name_roundtrip:
  assumes "base \<noteq> []" and "length base \<le> 8" and "length ext \<le> 3"
    and "\<forall>c \<in> set base \<union> set ext. name_byte c"
  shows "\<exists>s. fat_to_filename ((base @ replicate (8 - length base) 0x20) @
        ext @ replicate (3 - length ext) 0x20) 13 = Some s \<and>
      s = base @ (if ext = [] then [] else 0x2E # ext) \<and>
      (\<forall>f. fat_filename_match s f \<longleftrightarrow> map lower8 (cstr f) = map lower8 s)"
proof -
  define stored where "stored = (base @ replicate (8 - length base) 0x20) @ ext @ replicate (3 - length ext) 0x20"
  let ?s = "base @ (if ext = [] then [] else 0x2E # ext)"
  have t: "take 8 stored = base @ replicate (8 - length base) 0x20"
      "take 3 (drop 8 stored) = ext @ replicate (3 - length ext) 0x20"
    using assms(2,3) by (simp_all add: stored_def)
  have "stored ! 0 = hd base" "stored ! 8 = (if ext = [] then 0x20 else hd ext)"
    using assms(1-3) by (simp_all add: stored_def nth_append hd_conv_nth)
  moreover have "name_byte (hd base)" "ext \<noteq> [] \<Longrightarrow> name_byte (hd ext)"
    using assms(1,4) by auto
  ultimately have "fat_to_filename stored 13 = Some ?s"
    using assms(4) unfolding fat_to_filename_eq display_name_def t
    by (subst filter_name_byte_pad, simp, subst filter_name_byte_pad, simp) (simp add: name_byte_def)
  moreover have "nul_free ?s"
    using assms(4) by (auto simp: nul_free_def name_byte_def)
  then have "fat_filename_match ?s f \<longleftrightarrow> map lower8 (cstr f) = map lower8 ?s" for f
    unfolding fat_filename_match_iff by (simp only: cstr_nul_free) (rule eq_commute)
  ultimately show ?thesis
    unfolding stored_def by blast
qed

theorem short_name_roundtrip_witness:
  "fat_to_filename (lit ''BOOT    CFG'') 13 = Some (lit ''BOOT.CFG'')"
  using short_name_roundtrip [of "lit ''BOOT''" "lit ''CFG''"]
  by (simp add: name_byte_def replicate_numeral)

section \<open>Cluster chains\<close>

text \<open>
  The chain of a file or directory: the clusters met when following the allocation table, if
  its end is reached within \<open>n\<close> steps.
\<close>

fun fat_chain :: "disk \<Rightarrow> mount_info \<Rightarrow> nat \<Rightarrow> u32 \<Rightarrow> u32 list option" where
  "fat_chain disk g n c =
     (if c < 0x0FFFFFF8 then
        (if n = 0 then None else map_option ((#) c) (fat_chain disk g (n - 1) (fat_get_fat_entry disk g c)))
      else Some [])"

declare fat_chain.simps [simp del]

text \<open>The content of \<open>n\<close> consecutive sectors, when all can be read.\<close>

fun sector_run :: "disk \<Rightarrow> u32 \<Rightarrow> nat \<Rightarrow> nat \<Rightarrow> bytes option" where
  "sector_run disk lba s 0 = Some []"
| "sector_run disk lba s (Suc n) =
     (case disk_read_lba_hdd disk (lba + of_nat s) of
        None \<Rightarrow> None
      | Some b \<Rightarrow> map_option ((@) b) (sector_run disk lba (s + 1) n))"

definition cluster_data :: "disk \<Rightarrow> mount_info \<Rightarrow> u32 \<Rightarrow> bytes option" where
  "cluster_data disk g c = sector_run disk (fat_cluster_to_lba g c) 0 (unat (cluster_size g))"

text \<open>Chains whose clusters are all addressable and readable, with their content.\<close>

definition chain_reads :: "disk \<Rightarrow> mount_info \<Rightarrow> u32 \<Rightarrow> u32 list \<Rightarrow> (u32 \<Rightarrow> bytes) \<Rightarrow> bool" where
  "chain_reads disk g c cs D \<longleftrightarrow> fat_chain disk g 65536 c = Some cs \<and>
     (\<forall>x \<in> set cs. fat_cluster_to_lba g x \<noteq> 0 \<and> cluster_data disk g x = Some (D x))"

lemma length_sector_run: "sector_run disk lba s n = Some b \<Longrightarrow> length b = 512 * n"
  by (induction disk lba s n arbitrary: b rule: sector_run.induct) (auto split: option.splits)

lemma read_dir_sectors_eq:
  "s + n \<le> 8 \<Longrightarrow> sector_run disk lba s n = Some b \<Longrightarrow> read_dir_sectors disk lba s n = Some (Some b)"
  by (induction disk lba s n arbitrary: b rule: sector_run.induct) (auto split: option.splits)

section \<open>Directory search is a case-insensitive lookup\<close>

definition dir_entries :: "bytes \<Rightarrow> nat \<Rightarrow> nat \<Rightarrow> (nat \<times> dir_entry) list" where
  "dir_entries buf i n = map (\<lambda>k. (k, dir_entry_of (take 32 (drop (k * 32) buf)))) [i..<i + n]"

lemma dir_entries_Suc:
  "dir_entries buf i (Suc n) = (i, dir_entry_of (take 32 (drop (i * 32) buf))) # dir_entries buf (i + 1) n"
  unfolding dir_entries_def add_Suc_right by (subst upt_conv_Cons) simp_all

text \<open>The entries that the lookup inspects in one cluster: those before the first one whose name starts with 0.\<close>

definition inspected :: "bytes \<Rightarrow> (nat \<times> dir_entry) list" where
  "inspected buf = takeWhile (\<lambda>(_, e). de_name e ! 0 \<noteq> 0) (dir_entries buf 0 (length buf div 32))"

text \<open>
  The directory as the file system defines it: the entries along the chain up to the end mark, a name that
  starts with 0, without the deleted ones, whose name starts with \<open>0xE5\<close>.
\<close>

definition all_entries :: "bytes \<Rightarrow> (nat \<times> dir_entry) list" where
  "all_entries buf = dir_entries buf 0 (length buf div 32)"

definition live_entries :: "bytes list \<Rightarrow> (nat \<times> dir_entry) list" where
  "live_entries bufs = filter (\<lambda>(_, e). de_name e ! 0 \<noteq> 0xE5)
     (takeWhile (\<lambda>(_, e). de_name e ! 0 \<noteq> 0) (concat (map all_entries bufs)))"

text \<open>No end mark before the last cluster.\<close>

definition ends_last :: "bytes list \<Rightarrow> bool" where
  "ends_last bufs \<longleftrightarrow> (\<forall>buf \<in> set (butlast bufs). \<forall>(_, e) \<in> set (all_entries buf). de_name e ! 0 \<noteq> 0)"

definition entry_matches :: "bytes \<Rightarrow> nat \<times> dir_entry \<Rightarrow> bool" where
  "entry_matches filename = (\<lambda>(_, e). de_attributes e AND 0x08 = 0 \<and>
     map lower8 (cstr (display_name (de_name e))) = map lower8 (cstr filename))"

lemma not_marked_deleted: "\<not> marked_deleted e"
proof -
  have "sint (de_name e ! 0) < 2 ^ (8 - 1)"
    using sint_lt [of "de_name e ! 0"] by simp
  then show ?thesis
    by (simp add: marked_deleted_def)
qed

lemma find_entry_eq:
  "find_entry buf filename i n = Some (List.find (entry_matches filename)
     (takeWhile (\<lambda>(_, e). de_name e ! 0 \<noteq> 0) (dir_entries buf i n)))"
proof (induction buf filename i n rule: find_entry.induct)
  case (2 buf filename i n)
  show ?case
    unfolding dir_entries_Suc using 2
    by (auto simp: not_marked_deleted fat_to_filename_eq fat_filename_match_iff entry_matches_def Let_def)
qed (simp add: dir_entries_def)

lemma entries_per_cluster_eq: "cluster_size g \<le> 8 \<Longrightarrow> entries_per_cluster g = 16 * unat (cluster_size g)"
  by (simp add: entries_per_cluster_def unat_word_ariths unat_div word_le_nat_alt)

lemma search_loop_eq:
  assumes "fat_chain disk g n c = Some cs" and "cluster_size g \<le> 8"
    and "\<forall>x \<in> set cs. fat_cluster_to_lba g x \<noteq> 0 \<and> cluster_data disk g x = Some (D x)"
  shows "search_loop disk g filename n c =
    Some (List.find (entry_matches filename) (concat (map (inspected \<circ> D) cs)))"
  using assms(1,3)
proof (induction n arbitrary: c cs)
  case 0
  then show ?case
    by (simp add: fat_chain.simps [of _ _ 0] search_loop.simps [of _ _ _ 0] split: if_splits)
next
  case (Suc n)
  show ?case
  proof (cases "c < 0x0FFFFFF8")
    case False
    with Suc.prems(1) have "cs = []"
      by (simp add: fat_chain.simps [of _ _ "Suc n"])
    with False show ?thesis
      by (simp add: search_loop.simps [of _ _ _ "Suc n"])
  next
    case True
    with Suc.prems(1) obtain cs' where cs: "cs = c # cs'"
        "fat_chain disk g n (fat_get_fat_entry disk g c) = Some cs'"
      by (auto simp: fat_chain.simps [of _ _ "Suc n"])
    have lba: "fat_cluster_to_lba g c \<noteq> 0" and d: "cluster_data disk g c = Some (D c)"
      using Suc.prems(2) cs by auto
    have n8: "unat (cluster_size g) \<le> 8"
      using assms(2) by (simp add: word_le_nat_alt)
    have rd: "fat_read_dir_cluster disk g c = Some (Some (D c))"
      using lba d n8
      by (simp add: fat_read_dir_cluster_def fat_read_one_cluster_def cluster_data_def read_dir_sectors_eq)
    have "length (D c) = 512 * unat (cluster_size g)"
      using d by (simp add: cluster_data_def length_sector_run)
    then have f: "fat_find_in_buffer g (D c) filename = Some (List.find (entry_matches filename) (inspected (D c)))"
      using assms(2) by (simp add: fat_find_in_buffer_def find_entry_eq inspected_def entries_per_cluster_eq)
    have "List.find P (xs @ ys) = (case List.find P xs of None \<Rightarrow> List.find P ys | Some x \<Rightarrow> Some x)"
      for P :: "nat \<times> dir_entry \<Rightarrow> bool" and xs ys
      by (induction xs) auto
    with Suc.IH [OF cs(2)] Suc.prems(2) True rd f show ?thesis
      by (simp add: search_loop.simps [of _ _ _ "Suc n"] cs(1) split: option.splits)
  qed
qed

lemma inspected_live:
  assumes "ends_last bufs"
  shows "filter (\<lambda>(_, e). de_name e ! 0 \<noteq> 0xE5) (concat (map inspected bufs)) = live_entries bufs"
  using assms
proof (induction bufs)
  case (Cons buf bufs)
  show ?case
  proof (cases "bufs = []")
    case True
    then show ?thesis
      by (simp add: inspected_def live_entries_def all_entries_def)
  next
    case False
    then have buf: "\<forall>x \<in> set (all_entries buf). case x of (_, e) \<Rightarrow> de_name e ! 0 \<noteq> 0" and "ends_last bufs"
      using Cons.prems by (auto simp: ends_last_def)
    then have "inspected buf = all_entries buf"
      by (simp add: inspected_def all_entries_def [symmetric] takeWhile_eq_all_conv)
    then show ?thesis
      using Cons.IH [OF \<open>ends_last bufs\<close>] takeWhile_append2 [of "all_entries buf"] buf by (simp add: live_entries_def)
  qed
qed (simp add: live_entries_def)

lemma lower8_E5: "lower8 c = 0xE5 \<longleftrightarrow> c = 0xE5"
proof -
  have "c + 32 \<noteq> 0xE5" if "0x41 \<le> c" "c \<le> 0x5A"
  proof
    assume "c + 32 = 0xE5"
    then have "c = 0xE5 - 32"
      by (simp add: eq_diff_eq)
    with that(2) show False
      by simp
  qed
  then show ?thesis
    by (auto simp: lower8_def)
qed

text \<open>The name of a deleted entry starts with \<open>0xE5\<close>, so it matches no other name.\<close>

lemma deleted_matches_not:
  assumes "peek filename \<noteq> 0xE5" and "de_name e ! 0 = 0xE5" and "de_name e \<noteq> []"
  shows "\<not> entry_matches filename (k, e)"
proof
  assume m: "entry_matches filename (k, e)"
  have "peek (display_name (de_name e)) = 0xE5"
    using assms(2,3) by (cases "de_name e") (simp_all add: display_name_def name_byte_def)
  then obtain s where "display_name (de_name e) = 0xE5 # s"
    by (cases "display_name (de_name e)") auto
  then have "map lower8 (cstr filename) = 0xE5 # map lower8 (cstr s)"
    using m lower8_E5 [of "0xE5"] by (simp add: entry_matches_def)
  then show False
    using assms(1) lower8_E5 by (cases filename) (auto split: if_splits)
qed

lemma inspected_named: "(k, e) \<in> set (inspected buf) \<Longrightarrow> de_name e \<noteq> []"
  by (auto simp: inspected_def dir_entries_def dir_entry_of_def dest!: set_takeWhileD)

lemma find_filter:
  "(\<And>x. x \<in> set xs \<Longrightarrow> P x \<Longrightarrow> Q x) \<Longrightarrow> List.find P (filter Q xs) = List.find P xs"
  by (induction xs) auto

lemma find_inspected_live:
  assumes "ends_last (map D cs)" and "peek filename \<noteq> 0xE5"
  shows "List.find (entry_matches filename) (concat (map (inspected \<circ> D) cs)) = List.find (entry_matches filename) (live_entries (map D cs))"
proof -
  have "List.find (entry_matches filename) (filter (\<lambda>(_, e). de_name e ! 0 \<noteq> 0xE5) (concat (map inspected (map D cs)))) =
      List.find (entry_matches filename) (concat (map inspected (map D cs)))"
    by (rule find_filter) (use deleted_matches_not [OF assms(2)] inspected_named in fastforce)
  then show ?thesis
    unfolding inspected_live [OF assms(1)] by (simp add: comp_def)
qed


section \<open>Reading a file from its start\<close>

lemma unat_bytes_read: "length out < 2 ^ 31 \<Longrightarrow> unat (bytes_read out) = length out"
  by (simp add: bytes_read_def unat_of_nat)

lemma sint_bytes_read: "length out < 2 ^ 31 \<Longrightarrow> sint (bytes_read out) = int (length out)"
  by (simp add: bytes_read_def sint_uint signed_take_bit_int_eq_self_iff uint_nat unat_of_nat
      signed_take_bit_int_eq_self)

lemma read_file_sectors_eq:
  "unat nbytes < 2 ^ 31 \<Longrightarrow> length out \<le> unat nbytes \<Longrightarrow> sector_run disk lba s n = Some b \<Longrightarrow>
    read_file_sectors disk lba nbytes s n out = Inr (out @ take (unat nbytes - length out) b)"
proof (induction disk lba nbytes s n out arbitrary: b rule: read_file_sectors.induct)
  case (2 disk lba nbytes s n out)
  obtain t b' where t: "disk_read_lba_hdd disk (lba + of_nat s) = Some t" "sector_run disk lba (s + 1) n = Some b'"
      "b = t @ b'" "length t = 512"
    using "2.prems"(3) by (auto split: option.splits)
  have short: "length out < 2 ^ 31"
    by (rule le_less_trans [OF "2.prems"(2,1)])
  show ?case
  proof (cases "length out < unat nbytes")
    case True
    define to_read where "to_read = (if nbytes < bytes_read out + 512 then nbytes - bytes_read out else 512)"
    have "unat (bytes_read out + 512) = length out + 512"
      using short by (simp add: unat_word_ariths unat_bytes_read)
    moreover have "unat (nbytes - bytes_read out) = unat nbytes - length out"
      using short True by (subst unat_sub) (simp_all add: word_le_nat_alt unat_bytes_read)
    ultimately have tr: "unat to_read = min 512 (unat nbytes - length out)"
      by (auto simp: to_read_def word_less_nat_alt)
    let ?out = "out @ take (unat to_read) t"
    have bl: "bytes_read out < nbytes"
      using True short by (simp add: word_less_nat_alt unat_bytes_read)
    have "read_file_sectors disk lba nbytes s (Suc n) out = read_file_sectors disk lba nbytes (s + 1) n ?out"
      using bl t(1,4) by (simp add: to_read_def)
    also have "\<dots> = Inr (?out @ take (unat nbytes - length ?out) b')"
    proof (rule "2.IH")
      show "bytes_read out < nbytes"
        by (rule bl)
      show "length ?out \<le> unat nbytes"
        using True t(4) tr by simp
    qed (use t to_read_def "2.prems"(1) in auto)
    also have "?out @ take (unat nbytes - length ?out) b' = out @ take (unat nbytes - length out) b"
      using t(3,4) tr by (auto simp: min_def)
    finally show ?thesis .
  next
    case False
    with "2.prems"(2) short show ?thesis
      by (simp add: word_less_nat_alt unat_bytes_read)
  qed
qed simp

lemma read_file_loop_eq:
  assumes "unat nbytes < 2 ^ 31" and "length out \<le> unat nbytes" and "fat_chain disk g n c = Some cs"
    and "\<forall>x \<in> set cs. fat_cluster_to_lba g x \<noteq> 0 \<and> cluster_data disk g x = Some (D x)"
  defines "res \<equiv> \<lambda>out cs. out @ take (unat nbytes - length out) (concat (map D cs))"
  shows "read_file_loop disk g 0 nbytes n c off out = (int (length (res out cs)), res out cs)"
  using assms(2-4)
proof (induction n arbitrary: c cs off out)
  case 0
  then have "cs = []" "length out < 2 ^ 31"
    using assms(1) by (auto simp: fat_chain.simps [of _ _ 0] split: if_splits)
  then show ?case
    by (simp add: read_file_loop.simps [of _ _ _ _ 0] sint_bytes_read res_def)
next
  case (Suc n)
  have short: "length out < 2 ^ 31"
    by (rule le_less_trans [OF Suc.prems(1) assms(1)])
  note step = read_file_loop.simps [of _ _ _ _ "Suc n"]
  show ?case
  proof (cases "c < 0x0FFFFFF8 \<and> bytes_read out < nbytes")
    case False
    then have "cs = [] \<or> length out = unat nbytes"
      using Suc.prems(1,2) short
      by (auto simp: fat_chain.simps [of _ _ "Suc n"] word_less_nat_alt unat_bytes_read split: if_splits)
    with False short show ?thesis
      by (auto simp: step res_def sint_bytes_read)
  next
    case True
    with Suc.prems(2) obtain cs' where cs: "cs = c # cs'"
        "fat_chain disk g n (fat_get_fat_entry disk g c) = Some cs'"
      by (auto simp: fat_chain.simps [of _ _ "Suc n"])
    let ?out = "out @ take (unat nbytes - length out) (D c)"
    have rd: "read_file_sectors disk (fat_cluster_to_lba g c) nbytes 0 (unat (cluster_size g)) out = Inr ?out"
      using read_file_sectors_eq [OF assms(1) Suc.prems(1)] Suc.prems(3) cs(1)
      by (simp add: cluster_data_def)
    have "read_file_loop disk g 0 nbytes (Suc n) c off out =
        read_file_loop disk g 0 nbytes n (fat_get_fat_entry disk g c) (off + cluster_size g * 512) ?out"
      using True by (subst step) (simp add: rd Let_def)
    also have "\<dots> = (int (length (res ?out cs')), res ?out cs')"
      by (rule Suc.IH) (use Suc.prems cs in auto)
    also have "res ?out cs' = res out cs"
      using Suc.prems(1) by (simp add: res_def cs(1) min_def)
    finally show ?thesis .
  qed
qed

text \<open>
  Reading from offset 0 follows the whole chain: it stores the first \<open>size\<close> bytes of the
  concatenated clusters (all of them when the chain is shorter) and returns their number.
\<close>

theorem fat32_read_file_prefix:
  assumes "fat_valid g" and "0 < c" and "c < 0x0FFFFFF8" and "chain_reads disk g c cs D"
    and "unat nbytes < 2 ^ 31"
  shows "fat32_read_file disk g c 0 nbytes =
    (let data = take (unat nbytes) (concat (map D cs)) in (int (length data), data))"
proof (cases "nbytes = 0")
  case False
  have "0 \<noteq> c"
    using assms(2) by auto
  with False show ?thesis
    using read_file_loop_eq [of nbytes "[]" disk g 65536 c cs D 0] assms
    by (simp add: fat32_read_file_def chain_reads_def Let_def not_le)
qed (use assms in \<open>auto simp: fat32_read_file_def\<close>)

text \<open>
  C9: Reading a file by name end to end. On a mounted volume with at most eight sectors per cluster, whose root directory can be
  read and has no cluster behind its end mark, let a name that does not start with \<open>0xE5\<close> be that of a live entry, whose
  chain can be read and holds at least \<open>file_size\<close> bytes. Then the caller gets exactly the file, cut to the size of its buffer,
  which is below 2 GiB, and the true size.
\<close>

theorem fat32_read_file_by_name_contents:
  assumes "fat_valid g" and "cluster_size g \<le> 8" and "chain_reads disk g (root_cluster g) rs R"
    and "ends_last (map R rs)" and "peek filename \<noteq> 0xE5"
    and "List.find (entry_matches filename) (live_entries (map R rs)) = Some (i, e)"
    and "0 < first_cluster e" and "first_cluster e < 0x0FFFFFF8"
    and "chain_reads disk g (first_cluster e) cs D"
    and "unat (de_file_size e) \<le> length (concat (map D cs))" and "unat max_size < 2 ^ 31"
  shows "fat32_read_file_by_name disk g filename max_size =
    Some (True, Some (de_file_size e),
      take (unat max_size) (take (unat (de_file_size e)) (concat (map D cs))))"
proof -
  have find: "fat32_find_file disk g filename = Some (Some (first_cluster e, de_file_size e))"
    using search_loop_eq [of disk g 65536 "root_cluster g" rs R filename] assms(1-3,6) find_inspected_live [OF assms(4,5)]
    by (simp add: fat32_find_file_def fat_search_directory_def chain_reads_def)
  let ?n = "if max_size < de_file_size e then max_size else de_file_size e"
  have n: "unat ?n = min (unat max_size) (unat (de_file_size e))"
    by (auto simp: word_less_nat_alt)
  then have "unat ?n < 2 ^ 31"
    using assms(11) by linarith
  then have "fat32_read_file disk g (first_cluster e) 0 ?n =
      (let data = take (unat ?n) (concat (map D cs)) in (int (length data), data))"
    using read_file_loop_eq [of ?n "[]" disk g 65536 "first_cluster e" cs D 0] assms(1,7-9)
    by (auto simp: fat32_read_file_def chain_reads_def Let_def not_le)
  then show ?thesis
    using assms(1) find unfolding n by (simp add: fat32_read_file_by_name_def Let_def)
qed

section \<open>Mounting\<close>

text \<open>
  Mounting has three outcomes. With a good boot sector the volume is mounted with the
  layout the boot sector describes; a failed read, a wrong signature or sector size leaves it
  unmounted, also when a volume was mounted before; only a boot sector that passes the checks
  with zero sectors per cluster makes the code divide by zero.
\<close>

theorem fat32_mount_outcomes:
  "case fat32_mount disk g lba of
     None \<Rightarrow> \<exists>b. disk_read_lba_hdd disk lba = Some b \<and> sectors_per_cluster (bpb_of b) = 0 \<and>
       signature (bpb_of b) \<in> {0x28, 0x29} \<and> bytes_per_sector (bpb_of b) = 512
   | Some (ok, g') \<Rightarrow> fat32_is_mounted g' = ok \<and> fat_valid g' = ok \<and>
       (ok = (\<exists>b. disk_read_lba_hdd disk lba = Some b \<and>
          signature (bpb_of b) \<in> {0x28, 0x29} \<and> bytes_per_sector (bpb_of b) = 512)) \<and>
       (\<forall>b. ok = True \<and> disk_read_lba_hdd disk lba = Some b \<longrightarrow>
          cluster_size g' = ucast (sectors_per_cluster (bpb_of b)) \<and> cluster_size g' \<noteq> 0 \<and>
          root_cluster g' = le32 b 44 \<and> fat_start_lba g' = lba + ucast (le16 b 14) \<and>
          data_start_lba g' = fat_start_lba g' + ucast (b ! 16) * le32 b 36)"
proof -
  have nz: "x \<noteq> 0 \<Longrightarrow> (ucast x :: u32) \<noteq> 0" for x :: u8
  proof -
    have "unat x < 2 ^ 32"
      by (rule less_trans [OF unat_u8_less]) simp
    moreover assume "x \<noteq> 0"
    ultimately show ?thesis
      by (simp add: word_unat_eq_iff unsigned_ucast_eq take_bit_nat_eq_self del: power_numeral)
  qed
  show ?thesis
    by (auto simp: fat32_mount_def fat_read_sector_def fat32_is_mounted_def Let_def bpb_of_def nz split: option.splits)
qed

section \<open>A small volume\<close>

text \<open>
  One reserved sector with the allocation table behind it; a root directory in cluster 2 with
  the entry \<open>NOTES.TXT\<close>, whose 514 bytes occupy the clusters 3 and 4.
\<close>

definition small_table :: bytes where
  "small_table = [0xF8, 0xFF, 0xFF, 0x0F, 0xFF, 0xFF, 0xFF, 0x0F, 0xFF, 0xFF, 0xFF, 0x0F, 4, 0, 0, 0, 0xFF, 0xFF, 0xFF, 0x0F]"

definition small_dir :: bytes where
  "small_dir = lit ''NOTES   TXT'' @ [0x20, 0, 0, 0, 0, 0, 0, 0, 0, 0, 0, 0, 0, 0, 0, 3, 0, 2, 2, 0, 0]"

lemma length_small_dir: "length small_dir = 32"
  by (simp add: small_dir_def)

definition small_disk :: disk where
  "small_disk lba =
     (if lba = 1 then Some (\<lambda>i. if i < 20 then small_table ! i else 0)
      else if lba = 10 then Some (\<lambda>i. if i < 32 then small_dir ! i else 0)
      else if lba = 11 then Some (\<lambda>_. 0x61)
      else if lba = 12 then Some (\<lambda>_. 0x62)
      else None)"

definition small_volume :: mount_info where
  "small_volume = g_fat_init\<lparr>fat_start_lba := 1, data_start_lba := 10, cluster_size := 1,
     root_cluster := 2, fat_valid := True, fat_mounted := True\<rparr>"

lemma small_fat_entry:
  "fat_get_fat_entry small_disk small_volume 2 = 0x0FFFFFFF"
  "fat_get_fat_entry small_disk small_volume 3 = 4"
  "fat_get_fat_entry small_disk small_volume 4 = 0x0FFFFFFF"
  by (simp_all add: fat_get_fat_entry_def small_volume_def g_fat_init_def fat_read_sector_def
      disk_read_lba_hdd_def small_disk_def le32_def small_table_def join32_def Let_def)

lemma small_lba: "fat_cluster_to_lba small_volume 2 = 10" "fat_cluster_to_lba small_volume 3 = 11"
  "fat_cluster_to_lba small_volume 4 = 12"
  by (simp_all add: fat_cluster_to_lba_def small_volume_def)

lemma small_chain: "fat_chain small_disk small_volume 65536 2 = Some [2]"
  "fat_chain small_disk small_volume 65536 3 = Some [3, 4]"
  by (simp_all add: fat_chain.simps small_fat_entry)

definition small_data :: "u32 \<Rightarrow> bytes" where
  "small_data c = the (cluster_data small_disk small_volume c)"

lemma small_cluster_data:
  "cluster_data small_disk small_volume 2 = Some (map (\<lambda>i. if i < 32 then small_dir ! i else 0) [0..<512])"
  "cluster_data small_disk small_volume 3 = Some (replicate 512 0x61)"
  "cluster_data small_disk small_volume 4 = Some (replicate 512 0x62)"
proof -
  have "unat (cluster_size small_volume) = Suc 0"
    by (simp add: small_volume_def)
  then show "cluster_data small_disk small_volume 2 = Some (map (\<lambda>i. if i < 32 then small_dir ! i else 0) [0..<512])"
    "cluster_data small_disk small_volume 3 = Some (replicate 512 0x61)"
    "cluster_data small_disk small_volume 4 = Some (replicate 512 0x62)"
    by (simp_all add: cluster_data_def small_lba disk_read_lba_hdd_def small_disk_def map_replicate_const
        del: upt_rec_numeral)
qed

lemma small_chain_reads: "chain_reads small_disk small_volume 2 [2] small_data"
  "chain_reads small_disk small_volume 3 [3, 4] small_data"
  by (simp_all add: chain_reads_def small_chain small_lba small_data_def small_cluster_data)

definition small_entry :: dir_entry where
  "small_entry = \<lparr>de_name = lit ''NOTES   TXT'', de_attributes = 0x20, first_cluster_high = 0,
     first_cluster_low = 3, de_file_size = 514\<rparr>"

lemma small_live: "live_entries (map small_data [2]) = [(0, small_entry)]"
proof -
  have d: "small_data 2 = small_dir @ replicate 480 0"
    unfolding small_data_def small_cluster_data
    by (rule nth_equalityI) (auto simp: nth_append length_small_dir)
  have "dir_entries (small_data 2) 0 (Suc (Suc 14)) =
      (0, small_entry) # (1, dir_entry_of (replicate 32 0)) # dir_entries (small_data 2) (Suc 1) 14"
    unfolding d dir_entries_Suc
    by (simp add: dir_entry_of_def small_dir_def small_entry_def le16_def le32_def join16_def join32_def)
  then have e: "dir_entries (small_data 2) 0 16 =
      (0, small_entry) # (1, dir_entry_of (replicate 32 0)) # dir_entries (small_data 2) (Suc 1) 14"
    by simp
  have "length (small_data 2) div 32 = 16"
    by (simp add: d small_dir_def)
  then show ?thesis
    by (simp add: live_entries_def all_entries_def e small_entry_def dir_entry_of_def)
qed

lemma small_ends: "ends_last (map small_data [2])"
  by (simp add: ends_last_def)


theorem fat32_read_file_prefix_witness:
  "fat32_read_file small_disk small_volume 3 0 513 = (513, replicate 512 0x61 @ [0x62])"
proof -
  have "concat (map small_data [3, 4]) = replicate 512 0x61 @ replicate 512 0x62"
    by (simp add: small_data_def small_cluster_data)
  then show ?thesis
    using fat32_read_file_prefix [of small_volume 3 small_disk "[3, 4]" small_data 513] small_chain_reads(2)
    by (simp add: Let_def small_volume_def)
qed

theorem fat32_read_file_by_name_contents_witness:
  "fat32_read_file_by_name small_disk small_volume (lit ''NOTES.TXT'') 3 = Some (True, Some 514, [0x61, 0x61, 0x61])"
proof -
  have "concat (map small_data [3, 4]) = replicate 512 0x61 @ replicate 512 0x62"
    by (simp add: small_data_def small_cluster_data)
  moreover have "List.find (entry_matches (lit ''NOTES.TXT'')) (live_entries (map small_data [2])) = Some (0, small_entry)"
    unfolding small_live by (simp add: entry_matches_def small_entry_def display_name_def name_byte_def lower8_def)
  moreover have "first_cluster small_entry = 3" "de_file_size small_entry = 514"
    by (simp_all add: first_cluster_def small_entry_def)
  moreover have "root_cluster small_volume = 2" "fat_valid small_volume" "cluster_size small_volume \<le> 8"
    by (simp_all add: small_volume_def)
  ultimately show ?thesis
    using fat32_read_file_by_name_contents [of small_volume small_disk "[2]" small_data "lit ''NOTES.TXT''" 0 small_entry
        "[3, 4]" small_data 3] small_chain_reads small_ends
    by (simp add: replicate_numeral)
qed

theorem fat32_mount_outcomes_witness:
  "\<exists>g'. fat32_mount small_disk small_volume 5 = Some (False, g') \<and> \<not> fat32_is_mounted g'"
proof -
  obtain g' where m: "fat32_mount small_disk small_volume 5 = Some (False, g')"
    by (simp add: fat32_mount_def fat_read_sector_def disk_read_lba_hdd_def small_disk_def Let_def)
  then show ?thesis
    using fat32_mount_outcomes [where disk = small_disk and g = small_volume and lba = 5] by simp
qed

text \<open>
  Reading from an offset inside a cluster skips the whole cluster: byte 1 of the file is
  \<open>0x61\<close>, but the code returns byte 1 of the next cluster.
\<close>

lemma read_at_offset_skips_cluster:
  "fat32_read_file small_disk small_volume 3 0 2 = (2, [0x61, 0x61])"
  "fat32_read_file small_disk small_volume 3 1 1 = (1, [0x62])"
proof -
  have g: "cluster_size small_volume = 1" "fat_valid small_volume" "unat (cluster_size small_volume) = Suc 0"
    by (simp_all add: small_volume_def)
  have b: "bytes_read [] = 0" "bytes_read [x] = 1" "bytes_read [x, y] = 2" for x y
    by (simp_all add: bytes_read_def)
  have t: "take (Suc 0) (drop (Suc 0) (replicate 512 (0x62 :: u8))) = [0x62]"
    by (simp add: replicate_numeral)
  have u: "replicate 2 (0x61 :: u8) = [0x61, 0x61]"
    by (simp add: replicate_numeral)
  note step = read_file_loop.simps [of small_disk small_volume _ _ 65536] read_file_loop.simps [of small_disk small_volume _ _ 65535]
  show "fat32_read_file small_disk small_volume 3 0 2 = (2, [0x61, 0x61])"
    by (simp add: fat32_read_file_def step small_lba b g u Let_def
        disk_read_lba_hdd_def small_disk_def map_replicate_const)
  show "fat32_read_file small_disk small_volume 3 1 1 = (1, [0x62])"
    by (simp add: fat32_read_file_def step small_fat_entry small_lba b g t Let_def
        disk_read_lba_hdd_def small_disk_def map_replicate_const)
qed

text \<open>The signed comparison with \<open>0xE5\<close> never holds, so the test for deleted entries has no effect.\<close>

lemma deleted_not_skipped: "de_name e ! 0 = 0xE5 \<Longrightarrow> \<not> marked_deleted e"
  by (rule not_marked_deleted)

end
