(* ===== verification/WindowManager.thy ===== *)
theory WindowManager
  imports KMath "HOL-Library.Multiset"
begin

text \<open>
  The window manager, \<open>src/src/window_manager.c\<close> and \<open>window_manager.h\<close>: window lifecycle,
  focus, stacking order, hit testing, the input state machine and the dock's slot table. Drawing
  is not part of the state and is left out, except for the dirty flags it is driven by.

  A \<open>Window *\<close> is an index into \<open>windows[0 .. win_count - 1]\<close>, which is the list \<open>windows\<close>;
  the null pointer is \<open>None\<close>. Coordinates are \<open>int\<close>. A window's callbacks are code of the
  applications: they are parameters that may change the whole state.
\<close>

section \<open>State\<close>

datatype win_state = WM_STATE_NORMAL | WM_STATE_MINIMIZED | WM_STATE_MAXIMIZED

record window =
  wx :: int
  wy :: int
  ww :: int
  wh :: int
  saved_x :: int
  saved_y :: int
  saved_w :: int
  saved_h :: int
  min_w :: int
  min_h :: int
  title :: bytes
  state :: win_state
  visible :: bool
  focused :: bool
  z_order :: int
  app_id :: int
  is_chromeless :: bool
  on_draw :: bool
  on_key :: bool
  on_mouse :: bool
  on_close :: bool
  needs_redraw :: bool
  opacity :: int
  anim_phase :: int

record dock_slot =
  dock_name :: bytes
  dock_fn :: nat
  dock_sz :: int
  dock_bounce :: int

record wm =
  scr_w :: int
  scr_h :: int
  window_style :: int
  windows :: "window list"
  focus_win :: "nat option"
  dragging :: bool
  drag_win :: "nat option"
  drag_ox :: int
  drag_oy :: int
  drag_tx :: int
  drag_ty :: int
  resizing :: bool
  rsz_win :: "nat option"
  rsz_edge :: int
  dbl_win :: "nat option"
  dbl_tick :: u32
  prev_lmb :: bool
  prev_rmb :: bool
  res_changed :: bool
  bg_dirty :: bool
  wm_bg_dirty :: bool
  wm_dock_dirty :: bool
  wm_windows_dirty :: bool
  wm_cursor_dirty :: bool
  wm_full_redraw :: bool
  desktop_exit_reason :: int
  dock :: "dock_slot list"
  dock_hover :: int

definition win_count :: "wm \<Rightarrow> int" where
  "win_count s = int (length (windows s))"

text \<open>The window behind a pointer, and a store through it.\<close>

definition win :: "wm \<Rightarrow> nat \<Rightarrow> window" where
  "win s i = windows s ! i"

definition upd :: "nat \<Rightarrow> (window \<Rightarrow> window) \<Rightarrow> wm \<Rightarrow> wm" where
  "upd i f s = s\<lparr>windows := (windows s)[i := f (win s i)]\<rparr>"

section \<open>Dirty flags\<close>

definition wm_invalidate_windows :: "wm \<Rightarrow> wm" where
  "wm_invalidate_windows s = s\<lparr>wm_windows_dirty := True\<rparr>"

definition wm_invalidate_bg :: "wm \<Rightarrow> wm" where
  "wm_invalidate_bg s = s\<lparr>bg_dirty := True, wm_bg_dirty := True, wm_full_redraw := True\<rparr>"

definition wm_invalidate_all :: "wm \<Rightarrow> wm" where
  "wm_invalidate_all s = s\<lparr>wm_full_redraw := True, wm_bg_dirty := True, wm_dock_dirty := True,
     wm_windows_dirty := True, wm_cursor_dirty := True\<rparr>"

section \<open>Stacking and focus\<close>

definition wm_bring_to_front :: "nat option \<Rightarrow> wm \<Rightarrow> wm" where
  "wm_bring_to_front wn s =
     (case wn of
        None \<Rightarrow> s
      | Some i \<Rightarrow>
          (let oz = z_order (win s i);
               s = s\<lparr>windows := map (\<lambda>w. if oz < z_order w then w\<lparr>z_order := z_order w - 1\<rparr> else w) (windows s)\<rparr>
           in upd i (\<lambda>w. w\<lparr>z_order := win_count s - 1\<rparr>) s))"

definition wm_focus_window :: "nat option \<Rightarrow> wm \<Rightarrow> wm" where
  "wm_focus_window wn s =
     (case wn of
        None \<Rightarrow> s
      | Some i \<Rightarrow>
          if \<not> visible (win s i) then s
          else
            let s = (case focus_win s of
                       Some f \<Rightarrow> if f \<noteq> i then upd f (\<lambda>w. w\<lparr>focused := False, needs_redraw := True\<rparr>) s else s
                     | None \<Rightarrow> s);
                s = upd i (\<lambda>w. w\<lparr>focused := True, needs_redraw := True\<rparr>) s;
                s = s\<lparr>focus_win := Some i\<rparr>;
                s = wm_bring_to_front (Some i) s
            in wm_invalidate_all s)"

definition wm_clear_focus :: "wm \<Rightarrow> wm" where
  "wm_clear_focus s =
     (let s = (case focus_win s of
                 Some f \<Rightarrow> upd f (\<lambda>w. w\<lparr>focused := False, needs_redraw := True\<rparr>) s
               | None \<Rightarrow> s)
      in s\<lparr>focus_win := None\<rparr>)"

text \<open>
  The scan for the highest window that satisfies a test, shared by \<open>wm_destroy_window\<close>,
  \<open>wm_minimize_window\<close> (\<open>bz\<close>, \<open>bw\<close>) and \<open>win_at\<close> (\<open>bz\<close>, \<open>r\<close>).
\<close>

fun scan_top :: "(nat \<Rightarrow> window \<Rightarrow> bool) \<Rightarrow> window list \<Rightarrow> nat \<Rightarrow> int \<Rightarrow> nat option \<Rightarrow> nat option" where
  "scan_top P [] i bz bw = bw"
| "scan_top P (w # ws) i bz bw =
     (if P i w \<and> bz < z_order w then scan_top P ws (i + 1) (z_order w) (Some i)
      else scan_top P ws (i + 1) bz bw)"

definition next_focus :: "wm \<Rightarrow> nat \<Rightarrow> nat option" where
  "next_focus s wn =
     scan_top (\<lambda>i w. visible w \<and> state w \<noteq> WM_STATE_MINIMIZED \<and> i \<noteq> wn) (windows s) 0 (-1) None"

definition win_at :: "wm \<Rightarrow> int \<Rightarrow> int \<Rightarrow> nat option" where
  "win_at s px py =
     scan_top (\<lambda>_ w. visible w \<and> state w \<noteq> WM_STATE_MINIMIZED \<and>
         wx w \<le> px \<and> px < wx w + ww w \<and> wy w \<le> py \<and> py < wy w + wh w)
       (windows s) 0 (-1) None"

text \<open>\<open>at_z\<close>: the first window with the given height in the stack.\<close>

fun at_z_loop :: "window list \<Rightarrow> nat \<Rightarrow> int \<Rightarrow> nat option" where
  "at_z_loop [] i z = None"
| "at_z_loop (w # ws) i z = (if z_order w = z then Some i else at_z_loop ws (i + 1) z)"

definition at_z :: "wm \<Rightarrow> int \<Rightarrow> nat option" where
  "at_z s z = at_z_loop (windows s) 0 z"

text \<open>The windows in the order \<open>wm_draw_all\<close> draws them.\<close>

definition wm_draw_all :: "wm \<Rightarrow> nat list" where
  "wm_draw_all s = List.map_filter (\<lambda>z. at_z s (int z)) [0..<length (windows s)]"

section \<open>Lifecycle\<close>

definition scpy :: "bytes \<Rightarrow> nat \<Rightarrow> bytes" where
  "scpy s m = take (m - 1) (cstr s)"

definition wm_create_window :: "bytes \<Rightarrow> int \<Rightarrow> int \<Rightarrow> int \<Rightarrow> int \<Rightarrow> wm \<Rightarrow> nat option \<times> wm" where
  "wm_create_window ttl x y w h s =
     (if 16 \<le> win_count s then (None, s)
      else
        let wn = length (windows s);
            new = \<lparr>wx = x, wy = y, ww = w, wh = h, saved_x = x, saved_y = y, saved_w = w, saved_h = h,
              min_w = 200, min_h = 120, title = scpy ttl 64, state = WM_STATE_NORMAL,
              visible = True, focused = False, z_order = win_count s, app_id = win_count s,
              is_chromeless = False, on_draw = False, on_key = False, on_mouse = False, on_close = False,
              needs_redraw = True, opacity = 255, anim_phase = 0\<rparr>;
            s = s\<lparr>windows := windows s @ [new]\<rparr>;
            s = wm_focus_window (Some wn) s;
            s = s\<lparr>bg_dirty := True\<rparr>
        in (Some wn, wm_invalidate_all s))"

definition refocus :: "nat \<Rightarrow> wm \<Rightarrow> wm" where
  "refocus wn s =
     (if focus_win s = Some wn
      then let s = s\<lparr>focus_win := None\<rparr> in wm_focus_window (next_focus s wn) s
      else s)"

definition wm_destroy_window :: "nat option \<Rightarrow> wm \<Rightarrow> wm" where
  "wm_destroy_window wn s =
     (case wn of
        None \<Rightarrow> s
      | Some i \<Rightarrow>
          refocus i ((upd i (\<lambda>w. w\<lparr>visible := False, state := WM_STATE_MINIMIZED\<rparr>) s)\<lparr>bg_dirty := True\<rparr>))"

definition wm_minimize_window :: "nat option \<Rightarrow> wm \<Rightarrow> wm" where
  "wm_minimize_window wn s =
     (case wn of
        None \<Rightarrow> s
      | Some i \<Rightarrow>
          refocus i (wm_invalidate_windows
            ((upd i (\<lambda>w. w\<lparr>state := WM_STATE_MINIMIZED\<rparr>) s)\<lparr>bg_dirty := True\<rparr>)))"

definition wm_restore_window :: "nat option \<Rightarrow> wm \<Rightarrow> wm" where
  "wm_restore_window wn s =
     (case wn of
        None \<Rightarrow> s
      | Some i \<Rightarrow>
          (let s = (if state (win s i) = WM_STATE_MAXIMIZED
                    then upd i (\<lambda>w. w\<lparr>wx := saved_x w, wy := saved_y w, ww := saved_w w, wh := saved_h w\<rparr>) s
                    else s);
               s = upd i (\<lambda>w. w\<lparr>state := WM_STATE_NORMAL, needs_redraw := True\<rparr>) s
           in wm_invalidate_all (s\<lparr>bg_dirty := True\<rparr>)))"

definition wm_maximize_window :: "nat option \<Rightarrow> wm \<Rightarrow> wm" where
  "wm_maximize_window wn s =
     (case wn of
        None \<Rightarrow> s
      | Some i \<Rightarrow>
          if state (win s i) = WM_STATE_MAXIMIZED then wm_restore_window (Some i) s
          else
            let top = (if window_style s = 0 then 25 else 0);
                s = upd i (\<lambda>w. w\<lparr>saved_x := wx w, saved_y := wy w, saved_w := ww w, saved_h := wh w\<rparr>) s;
                s = upd i (\<lambda>w. w\<lparr>wx := 0, wy := top, ww := scr_w s, wh := scr_h s - 124 - top,
                        state := WM_STATE_MAXIMIZED, needs_redraw := True\<rparr>) s
            in wm_invalidate_all (s\<lparr>bg_dirty := True\<rparr>))"

text \<open>The wallpaper that \<open>wm_init\<close> looks for on the disks only matters to drawing.\<close>

definition wm_init :: "int \<Rightarrow> int \<Rightarrow> wm \<Rightarrow> wm" where
  "wm_init sw sh s = s\<lparr>scr_w := sw, scr_h := sh, windows := [], focus_win := None,
     dragging := False, resizing := False, bg_dirty := True, desktop_exit_reason := -1,
     dock := [], dock_hover := -1, prev_lmb := False, prev_rmb := False\<rparr>"

text \<open>One visible window of the loop in \<open>wm_set_screen_size\<close>.\<close>

definition fit_window :: "int \<Rightarrow> int \<Rightarrow> window \<Rightarrow> window" where
  "fit_window sw mxy w =
     (if \<not> visible w then w
      else
        let w = (if sw < wx w + ww w then w\<lparr>wx := max 0 (sw - ww w)\<rparr> else w);
            w = (if mxy < wy w + wh w then w\<lparr>wy := max 0 (mxy - wh w)\<rparr> else w);
            w = (if wx w < 0 then w\<lparr>wx := 0\<rparr> else w)
        in (if wy w < 0 then w\<lparr>wy := 0\<rparr> else w))"

definition wm_set_screen_size :: "int \<Rightarrow> int \<Rightarrow> wm \<Rightarrow> wm" where
  "wm_set_screen_size sw sh s =
     s\<lparr>scr_w := sw, scr_h := sh, res_changed := True, bg_dirty := True,
       windows := map (fit_window sw (sh - 124)) (windows s)\<rparr>"

definition wm_resolution_changed :: "wm \<Rightarrow> bool \<times> wm" where
  "wm_resolution_changed s = (res_changed s, s\<lparr>res_changed := False\<rparr>)"

definition wm_get_focused :: "wm \<Rightarrow> nat option" where
  "wm_get_focused s = focus_win s"

definition wm_get_window :: "int \<Rightarrow> wm \<Rightarrow> nat option" where
  "wm_get_window i s = (if 0 \<le> i \<and> i < win_count s then Some (nat i) else None)"

section \<open>Client area and title-bar buttons\<close>

definition wm_client_x :: "window \<Rightarrow> int" where
  "wm_client_x w = wx w"

definition wm_client_y :: "window \<Rightarrow> int" where
  "wm_client_y w = (if is_chromeless w then wy w else wy w + 30)"

definition wm_client_w :: "window \<Rightarrow> int" where
  "wm_client_w w = ww w"

definition wm_client_h :: "window \<Rightarrow> int" where
  "wm_client_h w = (if is_chromeless w then wh w else wh w - 30)"

definition tl_hit :: "window \<Rightarrow> int \<Rightarrow> int \<Rightarrow> int" where
  "tl_hit w px py =
     (let cy = wy w + 15; cx0 = wx w + 20; cx1 = cx0 + 20; cx2 = cx1 + 20; hr2 = (7 + 4) * (7 + 4)
      in if (px - cx0) * (px - cx0) + (py - cy) * (py - cy) \<le> hr2 then 0
         else if (px - cx1) * (px - cx1) + (py - cy) * (py - cy) \<le> hr2 then 1
         else if (px - cx2) * (px - cx2) + (py - cy) * (py - cy) \<le> hr2 then 2
         else -1)"

definition wb_hit :: "window \<Rightarrow> int \<Rightarrow> int \<Rightarrow> int" where
  "wb_hit w px py =
     (let bh = 22; bw = 28; b_y = wy w + (30 - bh) div 2
      in if py < b_y \<or> b_y + bh \<le> py then -1
         else
           let c0 = wx w + ww w - bw - 4; c2 = c0 - (bw + 2); c1 = c2 - (bw + 2)
           in if c0 \<le> px \<and> px < c0 + bw then 0
              else if c2 \<le> px \<and> px < c2 + bw then 2
              else if c1 \<le> px \<and> px < c1 + bw then 1
              else -1)"

section \<open>Input\<close>

record wm_input =
  in_x :: int
  in_y :: int
  in_left :: bool
  in_right :: bool
  in_ticks :: u32
  in_z :: int
  in_keys :: "u16 list"

text \<open>The application callbacks, by window.\<close>

record callbacks =
  cb_close :: "nat \<Rightarrow> wm \<Rightarrow> wm"
  cb_mouse :: "nat \<Rightarrow> int \<Rightarrow> int \<Rightarrow> bool \<Rightarrow> bool \<Rightarrow> wm \<Rightarrow> wm"
  cb_key :: "nat \<Rightarrow> u16 \<Rightarrow> wm \<Rightarrow> wm"

definition cl :: "int \<Rightarrow> int \<Rightarrow> int \<Rightarrow> int" where
  "cl v lo hi = (if v < lo then lo else if hi < v then hi else v)"

text \<open>
  One axis of the eased drag: three fifths of the way, at least one pixel, and a snap when the
  target is within one pixel.
\<close>

definition drag_step :: "int \<Rightarrow> int \<Rightarrow> int" where
  "drag_step x t =
     (let d = t - x;
          s = cdiv (d * 3) 5;
          s = (if s = 0 \<and> d \<noteq> 0 then (if 0 < d then 1 else -1) else s);
          x' = x + s
      in if \<bar>x' - t\<bar> \<le> 1 then t else x')"

definition input_drag :: "wm_input \<Rightarrow> nat \<Rightarrow> wm \<Rightarrow> wm" where
  "input_drag inp dw s =
     (let tbar_y = scr_h s - 124; min_wy = (if window_style s = 0 then 25 else 0)
      in if in_left inp then
           let s = s\<lparr>drag_tx := in_x inp - drag_ox s, drag_ty := cl (in_y inp - drag_oy s) min_wy (tbar_y - 30)\<rparr>;
               s = upd dw (\<lambda>w. w\<lparr>wx := drag_step (wx w) (drag_tx s), wy := drag_step (wy w) (drag_ty s)\<rparr>) s
           in wm_invalidate_windows (s\<lparr>wm_bg_dirty := True, bg_dirty := True\<rparr>)
         else
           let s = upd dw (\<lambda>w. w\<lparr>wx := drag_tx s, wy := drag_ty s\<rparr>) s
           in s\<lparr>dragging := False, drag_win := None\<rparr>)"

definition input_resize :: "wm_input \<Rightarrow> nat \<Rightarrow> wm \<Rightarrow> wm" where
  "input_resize inp rw s =
     (let tbar_y = scr_h s - 124
      in if in_left inp then
           let s = (if rsz_edge s AND 1 \<noteq> 0 then
                      (let nw = in_x inp - wx (win s rw)
                       in if min_w (win s rw) \<le> nw then upd rw (\<lambda>w. w\<lparr>ww := nw\<rparr>) s else s)
                    else s);
               s = (if rsz_edge s AND 2 \<noteq> 0 then
                      (let nh = in_y inp - wy (win s rw)
                       in if min_h (win s rw) \<le> nh \<and> wy (win s rw) + nh < tbar_y
                          then upd rw (\<lambda>w. w\<lparr>wh := nh\<rparr>) s else s)
                    else s);
               s = upd rw (\<lambda>w. w\<lparr>needs_redraw := True\<rparr>) s
           in wm_invalidate_windows (s\<lparr>bg_dirty := True\<rparr>)
         else s\<lparr>resizing := False, rsz_win := None\<rparr>)"

text \<open>
  A press of the left button: on the window under the pointer, once it has the focus, and before
  that. The flag says that the handler returns early.
\<close>

definition click_window :: "callbacks \<Rightarrow> wm_input \<Rightarrow> bool \<Rightarrow> nat \<Rightarrow> wm \<Rightarrow> bool \<times> wm" where
  "click_window cb inp dbl cw s =
     (let mmx = in_x inp; mmy = in_y inp;
          w = win s cw;
          on_bar = (wy w \<le> mmy \<and> mmy < wy w + 30);
          btn = (if window_style s = 0 then tl_hit w mmx mmy else wb_hit w mmx mmy);
          edge = (if wx w + ww w - 6 \<le> mmx then 1 else 0) OR (if wy w + wh w - 6 \<le> mmy then 2 else 0)
      in if on_bar \<and> dbl then
           (True, (if state w = WM_STATE_MAXIMIZED then wm_restore_window (Some cw) s
                   else wm_maximize_window (Some cw) s)\<lparr>dbl_tick := 0\<rparr>)
         else if on_bar \<and> 0 \<le> btn then
           (True,
            if btn = 0 then wm_destroy_window (Some cw) (if on_close w then cb_close cb cw s else s)
            else if btn = 1 then wm_minimize_window (Some cw) s
            else if btn = 2 then wm_maximize_window (Some cw) s
            else s)
         else if on_bar \<and> state w \<noteq> WM_STATE_MAXIMIZED then
           (True, s\<lparr>dragging := True, drag_win := Some cw, drag_ox := mmx - wx w, drag_oy := mmy - wy w,
              drag_tx := wx w, drag_ty := wy w\<rparr>)
         else if state w \<noteq> WM_STATE_MAXIMIZED \<and> edge \<noteq> 0 then
           (True, s\<lparr>resizing := True, rsz_edge := edge, rsz_win := Some cw\<rparr>)
         else
           (False, wm_invalidate_windows
              (if on_mouse w
               then cb_mouse cb cw (mmx - wm_client_x w) (mmy - wm_client_y w) True False s
               else s)))"

definition input_click :: "callbacks \<Rightarrow> wm_input \<Rightarrow> wm \<Rightarrow> bool \<times> wm" where
  "input_click cb inp s =
     (if scr_h s - 124 \<le> in_y inp then (True, s)
      else if window_style s = 0 \<and> in_y inp < 25 then (True, s)
      else case win_at s (in_x inp) (in_y inp) of
        None \<Rightarrow> (False, s)
      | Some cw \<Rightarrow>
          (let s = wm_focus_window (Some cw) s;
               now = in_ticks inp;
               dbl = (Some cw = dbl_win s \<and> now - dbl_tick s < 40);
               s = s\<lparr>dbl_tick := now, dbl_win := Some cw\<rparr>
           in click_window cb inp dbl cw s))"

definition input_rclick :: "callbacks \<Rightarrow> wm_input \<Rightarrow> wm \<Rightarrow> wm" where
  "input_rclick cb inp s =
     (case win_at s (in_x inp) (in_y inp) of
        None \<Rightarrow> s
      | Some rw \<Rightarrow>
          if on_mouse (win s rw) \<and> wm_client_y (win s rw) \<le> in_y inp then
            let s = wm_focus_window (Some rw) s
            in wm_invalidate_windows
                 (cb_mouse cb rw (in_x inp - wm_client_x (win s rw)) (in_y inp - wm_client_y (win s rw)) False True s)
          else s)"

text \<open>The focused window if it has a mouse callback.\<close>

definition mouse_focus :: "wm \<Rightarrow> nat option" where
  "mouse_focus s = (case focus_win s of Some f \<Rightarrow> if on_mouse (win s f) then Some f else None | None \<Rightarrow> None)"

definition input_hover :: "callbacks \<Rightarrow> wm_input \<Rightarrow> bool \<Rightarrow> bool \<Rightarrow> wm \<Rightarrow> wm" where
  "input_hover cb inp l r s =
     (case mouse_focus s of
        Some f \<Rightarrow>
          if \<not> dragging s \<and> \<not> resizing s then
            let w = win s f; lx = in_x inp - wm_client_x w; ly = in_y inp - wm_client_y w;
                s = (if 0 \<le> lx \<and> 0 \<le> ly \<and> lx < wm_client_w w \<and> ly < wm_client_h w
                     then cb_mouse cb f lx ly l r s else s)
            in wm_invalidate_windows s
          else s
      | None \<Rightarrow> s)"

definition input_release :: "callbacks \<Rightarrow> wm_input \<Rightarrow> wm \<Rightarrow> wm" where
  "input_release cb inp s =
     (case mouse_focus s of
        Some f \<Rightarrow> wm_invalidate_windows
          (cb_mouse cb f (in_x inp - wm_client_x (win s f)) (in_y inp - wm_client_y (win s f)) False False s)
      | None \<Rightarrow> s)"

definition remap_key :: "(u8 \<Rightarrow> u8) \<Rightarrow> u16 \<Rightarrow> u16" where
  "remap_key keyboard_remap key =
     (if key AND 0xFF \<noteq> 0 then (key AND 0xFF00) OR ucast (keyboard_remap (ucast key)) else key)"

text \<open>Keys are consumed while a window has the focus; the rest stays in the keyboard buffer.\<close>

fun input_keys :: "callbacks \<Rightarrow> (u8 \<Rightarrow> u8) \<Rightarrow> u16 list \<Rightarrow> wm \<Rightarrow> u16 list \<times> wm" where
  "input_keys cb keyboard_remap [] s = ([], s)"
| "input_keys cb keyboard_remap (key # keys) s =
     (case focus_win s of
        None \<Rightarrow> (key # keys, s)
      | Some f \<Rightarrow>
          input_keys cb keyboard_remap keys
            (wm_invalidate_windows
              (if on_key (win s f) then cb_key cb f (remap_key keyboard_remap key) s else s)))"

definition input_wheel :: "callbacks \<Rightarrow> wm_input \<Rightarrow> wm \<Rightarrow> wm" where
  "input_wheel cb inp s =
     (case focus_win s of
        Some f \<Rightarrow>
          if in_z inp \<noteq> 0 \<and> on_key (win s f) then
            wm_invalidate_windows (cb_key cb f (if in_z inp < 0 then 0x4900 else 0x5100) s)
          else s
      | None \<Rightarrow> s)"

definition save_buttons :: "wm_input \<Rightarrow> wm \<Rightarrow> wm" where
  "save_buttons inp s = s\<lparr>prev_lmb := in_left inp, prev_rmb := in_right inp\<rparr>"

definition wm_handle_input :: "callbacks \<Rightarrow> (u8 \<Rightarrow> u8) \<Rightarrow> wm_input \<Rightarrow> wm \<Rightarrow> u16 list \<times> wm" where
  "wm_handle_input cb keyboard_remap inp s =
     (let lmb = in_left inp; rmb = in_right inp;
          click = (lmb \<and> \<not> prev_lmb s);
          release = (\<not> lmb \<and> prev_lmb s);
          rclick = (rmb \<and> \<not> prev_rmb s)
      in if dragging s \<and> drag_win s \<noteq> None then
           (in_keys inp, save_buttons inp (input_drag inp (the (drag_win s)) s))
         else if resizing s \<and> rsz_win s \<noteq> None then
           (in_keys inp, save_buttons inp (input_resize inp (the (rsz_win s)) s))
         else
           let (ret, s) = (if click then input_click cb inp s else (False, s))
           in if ret then (in_keys inp, save_buttons inp s)
              else
                let s = (if rclick then input_rclick cb inp s else s);
                    s = (if lmb then input_hover cb inp lmb rmb s else s);
                    s = (if \<not> lmb \<and> \<not> rmb then input_hover cb inp False False s else s);
                    s = (if release then input_release cb inp s else s);
                    (keys, s) = input_keys cb keyboard_remap (in_keys inp) s;
                    s = input_wheel cb inp s
                in (keys, save_buttons inp s))"

section \<open>Dock\<close>

definition wm_dock_add :: "bytes \<Rightarrow> nat \<Rightarrow> wm \<Rightarrow> wm" where
  "wm_dock_add name fn s =
     (if 32 \<le> length (dock s) then s
      else s\<lparr>dock := dock s @ [\<lparr>dock_name = take 63 (cstr name), dock_fn = fn, dock_sz = 64, dock_bounce = 0\<rparr>]\<rparr>)"

definition wm_dock_clear :: "wm \<Rightarrow> wm" where
  "wm_dock_clear s = s\<lparr>dock := [], dock_hover := -1\<rparr>"

definition wm_dock_slot_count :: "wm \<Rightarrow> int" where
  "wm_dock_slot_count s = int (length (dock s))"

fun wm_string_compare :: "bytes \<Rightarrow> bytes \<Rightarrow> bool" where
  "wm_string_compare a b =
     (if peek a \<noteq> 0 \<and> peek b \<noteq> 0
      then (if peek a \<noteq> peek b then False else wm_string_compare (tl a) (tl b))
      else peek a = peek b)"

declare wm_string_compare.simps [simp del]

definition dock_is_open :: "wm \<Rightarrow> bytes \<Rightarrow> bool" where
  "dock_is_open s n \<longleftrightarrow>
     list_ex (\<lambda>w. visible w \<and> state w \<noteq> WM_STATE_MINIMIZED \<and> wm_string_compare (title w) n) (windows s)"

definition dock_layout :: "wm \<Rightarrow> int \<times> int \<times> int \<times> int" where
  "dock_layout s =
     (let tw = sum_list (map dock_sz (dock s)) + (wm_dock_slot_count s - 1) * 10 + 32;
          dh = 88
      in (tw, dh, cdiv (scr_w s - tw) 2, scr_h s - dh - 8))"

section \<open>The invariant\<close>

text \<open>
  The z-orders of the windows are a permutation of \<open>0 .. win_count - 1\<close>; the focused window
  exists, is visible, carries the \<open>focused\<close> flag and is on top; a drag or a resize in progress
  has a window.
\<close>

definition stack_ok :: "window list \<Rightarrow> bool" where
  "stack_ok ws \<longleftrightarrow> length ws \<le> 16 \<and> distinct (map z_order ws) \<and>
     set (map z_order ws) \<subseteq> {0..<int (length ws)}"

definition focus_ok :: "window list \<Rightarrow> nat option \<Rightarrow> bool" where
  "focus_ok ws f \<longleftrightarrow> (\<forall>i. f = Some i \<longrightarrow>
     i < length ws \<and> visible (ws ! i) \<and> focused (ws ! i) \<and> z_order (ws ! i) = int (length ws) - 1)"

definition grab_ok :: "wm \<Rightarrow> bool" where
  "grab_ok s \<longleftrightarrow> (dragging s \<longrightarrow> (\<exists>i < length (windows s). drag_win s = Some i)) \<and>
     (resizing s \<longrightarrow> (\<exists>i < length (windows s). rsz_win s = Some i))"

definition wm_ok :: "wm \<Rightarrow> bool" where
  "wm_ok s \<longleftrightarrow> stack_ok (windows s) \<and> focus_ok (windows s) (focus_win s) \<and> grab_ok s"

lemma windows_upd [simp]: "windows (upd i f s) = (windows s)[i := f (windows s ! i)]"
  by (simp add: upd_def win_def)

lemma upd_simps [simp]:
  "focus_win (upd i f s) = focus_win s" "dragging (upd i f s) = dragging s" "drag_win (upd i f s) = drag_win s"
  "resizing (upd i f s) = resizing s" "rsz_win (upd i f s) = rsz_win s" "scr_w (upd i f s) = scr_w s"
  "scr_h (upd i f s) = scr_h s" "window_style (upd i f s) = window_style s" "drag_tx (upd i f s) = drag_tx s"
  "drag_ty (upd i f s) = drag_ty s" "drag_ox (upd i f s) = drag_ox s" "drag_oy (upd i f s) = drag_oy s"
  "rsz_edge (upd i f s) = rsz_edge s"
  by (simp_all add: upd_def)

lemma invalidate_simps [simp]:
  "windows (wm_invalidate_all s) = windows s" "focus_win (wm_invalidate_all s) = focus_win s"
  "wm_ok (wm_invalidate_all s) = wm_ok s" "windows (wm_invalidate_windows s) = windows s"
  "focus_win (wm_invalidate_windows s) = focus_win s" "wm_ok (wm_invalidate_windows s) = wm_ok s"
  by (simp_all add: wm_invalidate_all_def wm_invalidate_windows_def wm_ok_def grab_ok_def)

lemma wm_ok_dirty [simp]: "wm_ok (s\<lparr>bg_dirty := b\<rparr>) = wm_ok s" "wm_ok (s\<lparr>wm_bg_dirty := b\<rparr>) = wm_ok s"
  "wm_ok (s\<lparr>dbl_tick := t\<rparr>) = wm_ok s" "wm_ok (s\<lparr>dbl_win := d\<rparr>) = wm_ok s"
  "wm_ok (save_buttons inp s) = wm_ok s" "wm_ok (s\<lparr>res_changed := b\<rparr>) = wm_ok s"
  "wm_ok (s\<lparr>scr_w := x\<rparr>) = wm_ok s" "wm_ok (s\<lparr>scr_h := x\<rparr>) = wm_ok s"
  "wm_ok (s\<lparr>drag_tx := x\<rparr>) = wm_ok s" "wm_ok (s\<lparr>drag_ty := x\<rparr>) = wm_ok s"
  "wm_ok (s\<lparr>dock := d\<^sub>1\<rparr>) = wm_ok s" "wm_ok (s\<lparr>dock_hover := x\<rparr>) = wm_ok s"
  by (simp_all add: wm_ok_def grab_ok_def save_buttons_def)

text \<open>Lifting one element of a permutation to the top.\<close>

lemma lift_to_top:
  assumes "distinct zs" and "set zs \<subseteq> {0..<int (length zs)}" and "i < length zs"
  defines "zs' \<equiv> (map (\<lambda>z. if zs ! i < z then z - 1 else z) zs)[i := int (length zs) - 1]"
  shows "distinct zs'" and "set zs' \<subseteq> {0..<int (length zs)}"
proof -
  have rng: "0 \<le> zs ! j \<and> zs ! j < int (length zs)" if "j < length zs" for j
    using assms(2) nth_mem [OF that] by auto
  have ne: "zs ! j \<noteq> zs ! k" if "j < length zs" "k < length zs" "j \<noteq> k" for j k
    using assms(1) that by (simp add: nth_eq_iff_index_eq)
  have nth: "zs' ! j = (if j = i then int (length zs) - 1 else if zs ! i < zs ! j then zs ! j - 1 else zs ! j)"
    if "j < length zs" for j
    using that by (simp add: zs'_def nth_list_update)
  have small: "zs' ! j < int (length zs) - 1 \<and> 0 \<le> zs' ! j" if "j < length zs" "j \<noteq> i" for j
    using rng [OF that(1)] rng [OF assms(3)] ne [OF that(1) assms(3) that(2)] that nth [OF that(1)] by auto
  have len: "length zs' = length zs"
    by (simp add: zs'_def)
  have inj: "zs' ! j \<noteq> zs' ! k" if "j < length zs" "k < length zs" "j \<noteq> k" for j k
  proof (cases "j = i \<or> k = i")
    case True
    then show ?thesis
      using small [OF that(1)] small [OF that(2)] nth [OF that(1)] nth [OF that(2)] that by auto
  next
    case False
    then show ?thesis
      using nth [OF that(1)] nth [OF that(2)] ne [OF that] ne [OF that(1) assms(3)] ne [OF that(2) assms(3)] by auto
  qed
  then show "distinct zs'"
    by (simp add: distinct_conv_nth len)
  show "set zs' \<subseteq> {0..<int (length zs)}"
  proof
    fix z
    assume "z \<in> set zs'"
    then obtain j where j: "j < length zs" "z = zs' ! j"
      by (auto simp: in_set_conv_nth len)
    show "z \<in> {0..<int (length zs)}"
      using small [OF j(1)] nth [OF j(1)] j by (cases "j = i") auto
  qed
qed

lemma map_z_update:
  assumes "z_order (w) = z_order (ws ! i)"
  shows "map z_order (ws[i := w]) = map z_order ws"
proof (cases "i < length ws")
  case True
  then show ?thesis
    using assms by (intro nth_equalityI) (auto simp: nth_list_update)
qed (simp add: list_update_beyond)

lemma stack_ok_update:
  assumes "z_order (w) = z_order (ws ! i)"
  shows "stack_ok (ws[i := w]) = stack_ok ws"
  unfolding stack_ok_def map_z_update [OF assms] length_list_update by (rule refl)

lemma bring_to_front_zs:
  assumes "stack_ok (windows s)" and "i < length (windows s)"
  defines "ws \<equiv> windows (wm_bring_to_front (Some i) s)"
  shows "stack_ok ws" and "length ws = length (windows s)" and "z_order (ws ! i) = int (length ws) - 1"
    and "j < length (windows s) \<Longrightarrow> visible (ws ! j) = visible (windows s ! j)"
    and "j < length (windows s) \<Longrightarrow> focused (ws ! j) = focused (windows s ! j)"
proof -
  let ?zs = "map z_order (windows s)"
  have ws: "ws = (map (\<lambda>w. if z_order (windows s ! i) < z_order w then w\<lparr>z_order := z_order w - 1\<rparr> else w) (windows s))
      [i := (windows s ! i)\<lparr>z_order := int (length (windows s)) - 1\<rparr>]"
    using assms(2) by (simp add: ws_def wm_bring_to_front_def Let_def win_def win_count_def)
  show len: "length ws = length (windows s)"
    by (simp add: ws)
  have "map z_order ws = (map (\<lambda>z. if ?zs ! i < z then z - 1 else z) ?zs)[i := int (length ?zs) - 1]"
    using assms(2) by (simp add: ws map_update) (rule arg_cong [of _ _ "\<lambda>l. l[i := _]"], simp)
  then show "stack_ok ws"
    using lift_to_top [of ?zs i] assms(1,2) unfolding stack_ok_def len by simp
  show "z_order (ws ! i) = int (length ws) - 1"
    using assms(2) by (simp add: ws)
  show "visible (ws ! j) = visible (windows s ! j)" "focused (ws ! j) = focused (windows s ! j)"
    if "j < length (windows s)"
    using that assms(2) by (auto simp: ws nth_list_update)
qed

section \<open>Every operation keeps it\<close>

text \<open>What an operation must do: keep the invariant and forget no window.\<close>

definition keeps :: "wm \<Rightarrow> wm \<Rightarrow> bool" where
  "keeps s s' \<longleftrightarrow> wm_ok s' \<and> length (windows s) \<le> length (windows s')"

lemma grab_ok_cong:
  "length (windows s) \<le> length (windows s') \<Longrightarrow> dragging s' = dragging s \<Longrightarrow> drag_win s' = drag_win s \<Longrightarrow>
   resizing s' = resizing s \<Longrightarrow> rsz_win s' = rsz_win s \<Longrightarrow> grab_ok s \<Longrightarrow> grab_ok s'"
  by (auto simp: grab_ok_def dest: less_le_trans)

lemma nth_list_update_if: "j < length xs \<Longrightarrow> xs[i := x] ! j = (if i = j then x else xs ! j)"
  by (cases "i < length xs") (auto simp: nth_list_update list_update_beyond)

text \<open>A store that leaves the height and the focus-related fields alone.\<close>

lemma wm_ok_upd:
  assumes "wm_ok s" and "z_order (f (win s i)) = z_order (win s i)"
    and "focus_win s = Some i \<Longrightarrow> visible (f (win s i)) = visible (win s i) \<and> focused (f (win s i)) = focused (win s i)"
  shows "wm_ok (upd i f s)"
proof -
  have "grab_ok (upd i f s)"
    by (rule grab_ok_cong [of s]) (use assms(1) in \<open>simp_all add: wm_ok_def\<close>)
  moreover have "focus_ok (windows (upd i f s)) (focus_win s)"
    using assms by (auto simp: wm_ok_def focus_ok_def win_def nth_list_update_if)
  moreover have "stack_ok (windows (upd i f s))"
    using assms(1,2) by (simp add: wm_ok_def win_def stack_ok_update)
  ultimately show ?thesis
    by (simp add: wm_ok_def)
qed

text \<open>
  Focusing needs less than the full invariant: the stack and the grabs.
\<close>

lemma bring_to_front_frame:
  "focus_win (wm_bring_to_front wn s) = focus_win s" "dragging (wm_bring_to_front wn s) = dragging s"
  "drag_win (wm_bring_to_front wn s) = drag_win s" "resizing (wm_bring_to_front wn s) = resizing s"
  "rsz_win (wm_bring_to_front wn s) = rsz_win s"
  by (simp_all add: wm_bring_to_front_def Let_def split: option.splits)

lemma wm_focus_window_ok:
  assumes "stack_ok (windows s)" and "grab_ok s" and "i < length (windows s)" and "visible (win s i)"
  defines "s' \<equiv> wm_focus_window (Some i) s"
  shows "wm_ok s'" and "length (windows s') = length (windows s)" and "focus_win s' = Some i"
proof -
  define t where "t = (case focus_win s of
     Some f \<Rightarrow> if f \<noteq> i then upd f (\<lambda>w. w\<lparr>focused := False, needs_redraw := True\<rparr>) s else s | None \<Rightarrow> s)"
  define u where "u = (upd i (\<lambda>w. w\<lparr>focused := True, needs_redraw := True\<rparr>) t)\<lparr>focus_win := Some i\<rparr>"
  have s': "s' = wm_invalidate_all (wm_bring_to_front (Some i) u)"
    using assms(4) by (simp add: s'_def wm_focus_window_def u_def t_def Let_def)
  have t: "stack_ok (windows t)" "length (windows t) = length (windows s)" "visible (windows t ! i)" "grab_ok t"
    using assms(1-4) by (auto simp: t_def stack_ok_update win_def nth_list_update grab_ok_def split: option.splits)
  have u: "stack_ok (windows u)" "length (windows u) = length (windows s)" "visible (windows u ! i)"
    "focused (windows u ! i)" "grab_ok u" "focus_win u = Some i"
    using t assms(3) by (auto simp: u_def stack_ok_update grab_ok_def)
  have iu: "i < length (windows u)"
    using u(2) assms(3) by simp
  note b = bring_to_front_zs [OF u(1) iu]
  have "grab_ok (wm_bring_to_front (Some i) u)"
    by (rule grab_ok_cong [OF _ _ _ _ _ u(5)]) (simp_all add: bring_to_front_frame b(2))
  moreover have "focus_ok (windows (wm_bring_to_front (Some i) u)) (Some i)"
    using b u iu by (simp add: focus_ok_def)
  ultimately have "wm_ok (wm_bring_to_front (Some i) u)"
    using b(1) u(6) by (simp add: wm_ok_def bring_to_front_frame)
  then show "wm_ok s'"
    by (simp add: s')
  show "length (windows s') = length (windows s)" "focus_win s' = Some i"
    using b(2) u by (simp_all add: s' bring_to_front_frame)
qed

lemma keeps_focus: "wm_ok s \<Longrightarrow> i < length (windows s) \<Longrightarrow> keeps s (wm_focus_window (Some i) s)"
  using wm_focus_window_ok [of s i]
  by (cases "visible (win s i)") (auto simp: keeps_def wm_ok_def wm_focus_window_def)

lemma keeps_upd:
  assumes "wm_ok s" and "z_order (f (win s i)) = z_order (win s i)" and "visible (f (win s i)) = visible (win s i)"
    and "focused (f (win s i)) = focused (win s i)"
  shows "keeps s (upd i f s)"
  using wm_ok_upd [where s = s and f = f and i = i] assms by (simp add: keeps_def)

lemma keeps_clear_focus: "wm_ok s \<Longrightarrow> keeps s (wm_clear_focus s)"
  by (auto simp: keeps_def wm_clear_focus_def wm_ok_def focus_ok_def grab_ok_def stack_ok_update split: option.splits)

lemma scan_top_spec:
  "(scan_top P ws k bz bw = bw \<and> (\<forall>j < length ws. P (k + j) (ws ! j) \<longrightarrow> z_order (ws ! j) \<le> bz)) \<or>
   (\<exists>j < length ws. scan_top P ws k bz bw = Some (k + j) \<and> P (k + j) (ws ! j) \<and> bz < z_order (ws ! j) \<and>
      (\<forall>j' < length ws. P (k + j') (ws ! j') \<longrightarrow> z_order (ws ! j') \<le> z_order (ws ! j)))"
proof (induction ws arbitrary: k bz bw)
  case (Cons w ws)
  define better where "better = (P k w \<and> bz < z_order w)"
  define bz' where "bz' = (if better then z_order w else bz)"
  define bw' where "bw' = (if better then Some k else bw)"
  have step: "scan_top P (w # ws) k bz bw = scan_top P ws (k + 1) bz' bw'"
    by (simp add: better_def bz'_def bw'_def)
  have le: "bz \<le> bz'" "P k w \<Longrightarrow> z_order w \<le> bz'"
    by (auto simp: bz'_def better_def)
  have all: "(\<forall>j < length (w # ws). P (k + j) ((w # ws) ! j) \<longrightarrow> z_order ((w # ws) ! j) \<le> b) \<longleftrightarrow>
      (P k w \<longrightarrow> z_order w \<le> b) \<and> (\<forall>j < length ws. P (k + 1 + j) (ws ! j) \<longrightarrow> z_order (ws ! j) \<le> b)" for b
    by (simp add: All_less_Suc2)
  consider "scan_top P ws (k + 1) bz' bw' = bw'" "\<forall>j < length ws. P (k + 1 + j) (ws ! j) \<longrightarrow> z_order (ws ! j) \<le> bz'"
    | j where "j < length ws" "scan_top P ws (k + 1) bz' bw' = Some (k + 1 + j)" "P (k + 1 + j) (ws ! j)" "bz' < z_order (ws ! j)"
        "\<forall>j' < length ws. P (k + 1 + j') (ws ! j') \<longrightarrow> z_order (ws ! j') \<le> z_order (ws ! j)"
    using Cons.IH [of "k + 1" bz' bw'] by blast
  then show ?case
  proof cases
    case 1
    then have "\<forall>j < length (w # ws). P (k + j) ((w # ws) ! j) \<longrightarrow> z_order ((w # ws) ! j) \<le> bz'"
      unfolding all using le(2) by blast
    then show ?thesis
      using 1(1) unfolding step by (cases better) (auto simp: bz'_def bw'_def better_def intro: exI [of _ 0])
  next
    case 2
    then have "\<forall>j' < length (w # ws). P (k + j') ((w # ws) ! j') \<longrightarrow> z_order ((w # ws) ! j') \<le> z_order ((w # ws) ! Suc j)"
      unfolding all using le(2) by auto
    with 2 le(1) show ?thesis
      unfolding step by (intro disjI2 exI [of _ "Suc j"]) auto
  qed
qed simp

lemma scan_top_start:
  assumes "stack_ok ws"
  shows "scan_top P ws 0 (-1) None = None \<longleftrightarrow> (\<forall>j < length ws. \<not> P j (ws ! j))"
    and "scan_top P ws 0 (-1) None = Some i \<Longrightarrow> i < length ws \<and> P i (ws ! i) \<and>
      (\<forall>j < length ws. P j (ws ! j) \<longrightarrow> z_order (ws ! j) \<le> z_order (ws ! i))"
proof -
  have "0 \<le> z_order (ws ! j)" if "j < length ws" for j
    using assms nth_mem [OF that] by (auto simp: stack_ok_def)
  then show "scan_top P ws 0 (-1) None = None \<longleftrightarrow> (\<forall>j < length ws. \<not> P j (ws ! j))"
    using scan_top_spec [of P ws 0 "-1" None] by force
  show "scan_top P ws 0 (-1) None = Some i \<Longrightarrow> i < length ws \<and> P i (ws ! i) \<and>
      (\<forall>j < length ws. P j (ws ! j) \<longrightarrow> z_order (ws ! j) \<le> z_order (ws ! i))"
    using scan_top_spec [of P ws 0 "-1" None] by auto
qed

lemma refocus_ok:
  assumes "stack_ok (windows s)" and "grab_ok s" and "focus_win s \<noteq> Some i \<Longrightarrow> wm_ok s"
  shows "keeps s (refocus i s)"
proof (cases "focus_win s = Some i")
  case True
  let ?t = "s\<lparr>focus_win := None\<rparr>"
  have t: "stack_ok (windows ?t)" "grab_ok ?t"
    using assms by (simp_all add: grab_ok_def)
  show ?thesis
  proof (cases "next_focus ?t i")
    case None
    with True t show ?thesis
      by (simp add: refocus_def wm_focus_window_def keeps_def wm_ok_def focus_ok_def)
  next
    case (Some j)
    then have "j < length (windows ?t)" "visible (win ?t j)"
      using scan_top_start(2) [OF t(1)] by (auto simp: next_focus_def win_def)
    with wm_focus_window_ok [OF t this] True Some show ?thesis
      by (simp add: refocus_def keeps_def)
  qed
qed (use assms(3) in \<open>simp add: refocus_def keeps_def\<close>)

lemma keeps_destroy:
  assumes "wm_ok s"
  shows "keeps s (wm_destroy_window (Some i) s)"
proof -
  let ?t = "(upd i (\<lambda>w. w\<lparr>visible := False, state := WM_STATE_MINIMIZED\<rparr>) s)\<lparr>bg_dirty := True\<rparr>"
  have "keeps ?t (refocus i ?t)"
  proof (rule refocus_ok)
    show "stack_ok (windows ?t)" "grab_ok ?t"
      using assms by (auto simp: wm_ok_def stack_ok_update grab_ok_def)
    show "wm_ok ?t" if "focus_win ?t \<noteq> Some i"
      using that assms by (auto intro!: wm_ok_upd)
  qed
  then show ?thesis
    by (simp add: wm_destroy_window_def keeps_def)
qed

lemma keeps_minimize:
  assumes "wm_ok s"
  shows "keeps s (wm_minimize_window (Some i) s)"
proof -
  let ?t = "wm_invalidate_windows ((upd i (\<lambda>w. w\<lparr>state := WM_STATE_MINIMIZED\<rparr>) s)\<lparr>bg_dirty := True\<rparr>)"
  have t: "wm_ok ?t"
    using assms by (simp add: wm_ok_upd)
  then have "keeps ?t (refocus i ?t)"
    by (intro refocus_ok) (simp_all add: wm_ok_def)
  then show ?thesis
    by (simp add: wm_minimize_window_def keeps_def)
qed

lemma keeps_restore: "wm_ok s \<Longrightarrow> keeps s (wm_restore_window (Some i) s)"
  by (simp add: keeps_def wm_restore_window_def Let_def wm_ok_upd)

lemma keeps_maximize: "wm_ok s \<Longrightarrow> keeps s (wm_maximize_window (Some i) s)"
  using keeps_restore [of s i] by (simp add: keeps_def wm_maximize_window_def Let_def wm_ok_upd)

lemma keeps_create:
  assumes "wm_ok s"
  shows "keeps s (snd (wm_create_window ttl x y w h s))"
proof (cases "16 \<le> win_count s")
  case False
  let ?n = "length (windows s)"
  define new where "new = \<lparr>wx = x, wy = y, ww = w, wh = h, saved_x = x, saved_y = y, saved_w = w, saved_h = h,
     min_w = 200, min_h = 120, title = scpy ttl 64, state = WM_STATE_NORMAL,
     visible = True, focused = False, z_order = win_count s, app_id = win_count s,
     is_chromeless = False, on_draw = False, on_key = False, on_mouse = False, on_close = False,
     needs_redraw = True, opacity = 255, anim_phase = 0\<rparr>"
  let ?t = "s\<lparr>windows := windows s @ [new]\<rparr>"
  have z: "z_order new = int ?n" "visible new"
    by (simp_all add: new_def win_count_def)
  have t: "stack_ok (windows ?t)"
    using assms False z(1) by (auto simp: wm_ok_def stack_ok_def win_count_def)
  have "grab_ok ?t"
    by (rule grab_ok_cong [of s]) (use assms in \<open>simp_all add: wm_ok_def\<close>)
  from wm_focus_window_ok [OF t this, of ?n] z(2) have "keeps ?t (wm_focus_window (Some ?n) ?t)"
    by (simp add: keeps_def win_def)
  then show ?thesis
    using False unfolding wm_create_window_def Let_def new_def [symmetric] by (simp add: keeps_def)
qed (use assms in \<open>simp add: wm_create_window_def keeps_def\<close>)

lemma fit_window_frame:
  "z_order (fit_window sw m w) = z_order w" "visible (fit_window sw m w) = visible w"
  "focused (fit_window sw m w) = focused w" "ww (fit_window sw m w) = ww w" "wh (fit_window sw m w) = wh w"
  by (simp_all add: fit_window_def Let_def)

lemma keeps_set_screen_size: "wm_ok s \<Longrightarrow> keeps s (wm_set_screen_size sw sh s)"
  by (auto simp: keeps_def wm_ok_def wm_set_screen_size_def stack_ok_def focus_ok_def grab_ok_def
      fit_window_frame comp_def)

lemma wm_init_ok: "wm_ok (wm_init sw sh s)"
  by (simp add: wm_ok_def wm_init_def stack_ok_def focus_ok_def grab_ok_def)

lemma keeps_dock: "wm_ok s \<Longrightarrow> keeps s (wm_dock_add name fn s)" "wm_ok s \<Longrightarrow> keeps s (wm_dock_clear s)"
  by (simp_all add: keeps_def wm_dock_add_def wm_dock_clear_def)

section \<open>The input handler keeps it\<close>

text \<open>What is expected of application callbacks.\<close>

definition callbacks_ok :: "callbacks \<Rightarrow> bool" where
  "callbacks_ok cb \<longleftrightarrow> (\<forall>s i x y l r k. wm_ok s \<and> i < length (windows s) \<longrightarrow>
     keeps s (cb_close cb i s) \<and> keeps s (cb_mouse cb i x y l r s) \<and> keeps s (cb_key cb i k s))"

lemma keeps_refl: "wm_ok s \<Longrightarrow> keeps s s"
  by (simp add: keeps_def)

lemma keeps_trans: "keeps s t \<Longrightarrow> keeps t u \<Longrightarrow> keeps s u"
  by (simp add: keeps_def)

lemma keeps_wm_ok: "keeps s t \<Longrightarrow> wm_ok t" "keeps s t \<Longrightarrow> i < length (windows s) \<Longrightarrow> i < length (windows t)"
  by (simp_all add: keeps_def)

lemma keeps_flags:
  "keeps s (wm_invalidate_windows t) = keeps s t" "keeps s (save_buttons inp t) = keeps s t"
  "keeps s (t\<lparr>dbl_tick := tk\<rparr>) = keeps s t" "keeps s (t\<lparr>dbl_tick := tk, dbl_win := d\<rparr>) = keeps s t"
  "keeps s (t\<lparr>bg_dirty := b\<rparr>) = keeps s t" "keeps s (t\<lparr>wm_bg_dirty := b\<rparr>) = keeps s t"
  by (simp_all add: keeps_def) (simp_all add: save_buttons_def)

lemma callback_keeps:
  assumes "callbacks_ok cb" and "wm_ok s" and "i < length (windows s)"
  shows "keeps s (cb_close cb i s)" "keeps s (cb_mouse cb i x y l r s)" "keeps s (cb_key cb i k s)"
  using assms by (simp_all add: callbacks_ok_def)

lemma focus_index: "wm_ok s \<Longrightarrow> focus_win s = Some f \<Longrightarrow> f < length (windows s)"
  by (simp add: wm_ok_def focus_ok_def)

lemma mouse_focus_index: "wm_ok s \<Longrightarrow> mouse_focus s = Some f \<Longrightarrow> f < length (windows s)"
  by (auto simp: mouse_focus_def focus_index split: option.splits if_splits)

lemma win_at_index: "wm_ok s \<Longrightarrow> win_at s x y = Some i \<Longrightarrow> i < length (windows s)"
  using scan_top_start(2) [of "windows s"] by (auto simp: win_at_def wm_ok_def)

lemma keeps_drag: "wm_ok s \<Longrightarrow> keeps s (input_drag inp dw s)"
proof -
  assume ok: "wm_ok s"
  have u: "wm_ok (upd dw (\<lambda>w. w\<lparr>wx := f w, wy := g w\<rparr>) t)" if "wm_ok t" for f g t
    using that by (simp add: wm_ok_upd)
  have "wm_ok (upd dw (\<lambda>w. w\<lparr>wx := drag_tx s, wy := drag_ty s\<rparr>) s \<lparr>dragging := False, drag_win := None\<rparr>)"
    using u [OF ok, of "\<lambda>_. drag_ty s" "\<lambda>_. drag_tx s"] by (simp add: wm_ok_def grab_ok_def)
  then show ?thesis
    using ok by (simp add: input_drag_def Let_def keeps_def u)
qed

lemma keeps_resize: "wm_ok s \<Longrightarrow> keeps s (input_resize inp rw s)"
proof -
  assume ok: "wm_ok s"
  have "wm_ok (s\<lparr>resizing := False, rsz_win := None\<rparr>)"
    using ok by (simp add: wm_ok_def grab_ok_def)
  then show ?thesis
    using ok by (simp add: input_resize_def Let_def keeps_def wm_ok_upd)
qed

lemma keeps_hover:
  assumes "callbacks_ok cb" and "wm_ok s"
  shows "keeps s (input_hover cb inp l r s)"
proof (cases "mouse_focus s")
  case (Some f)
  show ?thesis
    using callback_keeps(2) [OF assms mouse_focus_index [OF assms(2) Some]] assms(2) Some
    by (simp add: input_hover_def Let_def keeps_flags keeps_refl)
qed (simp add: input_hover_def keeps_refl assms)

lemma keeps_release:
  assumes "callbacks_ok cb" and "wm_ok s"
  shows "keeps s (input_release cb inp s)"
proof (cases "mouse_focus s")
  case (Some f)
  show ?thesis
    using callback_keeps(2) [OF assms mouse_focus_index [OF assms(2) Some]] assms(2) Some
    by (simp add: input_release_def keeps_flags)
qed (simp add: input_release_def keeps_refl assms)

lemma keeps_wheel:
  assumes "callbacks_ok cb" and "wm_ok s"
  shows "keeps s (input_wheel cb inp s)"
proof (cases "focus_win s")
  case (Some f)
  show ?thesis
    using callback_keeps(3) [OF assms focus_index [OF assms(2) Some]] assms(2) Some
    by (simp add: input_wheel_def keeps_flags keeps_refl)
qed (simp add: input_wheel_def keeps_refl assms)

lemma keeps_keys:
  assumes "callbacks_ok cb"
  shows "wm_ok s \<Longrightarrow> keeps s (snd (input_keys cb remap keys s))"
proof (induction keys arbitrary: s)
  case (Cons key keys)
  show ?case
  proof (cases "focus_win s")
    case (Some f)
    let ?t = "wm_invalidate_windows (if on_key (win s f) then cb_key cb f (remap_key remap key) s else s)"
    have t: "keeps s ?t"
      using callback_keeps(3) [OF assms Cons.prems focus_index [OF Cons.prems Some]]
      by (simp add: keeps_flags keeps_refl Cons.prems)
    show ?thesis
      using keeps_trans [OF t Cons.IH [OF keeps_wm_ok(1) [OF t]]] Some by simp
  qed (simp add: keeps_refl Cons.prems)
qed (simp add: keeps_refl)

lemma keeps_rclick:
  assumes "callbacks_ok cb" and "wm_ok s"
  shows "keeps s (input_rclick cb inp s)"
proof (cases "win_at s (in_x inp) (in_y inp)")
  case (Some rw)
  note i = win_at_index [OF assms(2) Some]
  note f = keeps_focus [OF assms(2) i]
  show ?thesis
    using keeps_trans [OF f callback_keeps(2) [OF assms(1) keeps_wm_ok(1) [OF f] keeps_wm_ok(2) [OF f i]]] Some
    by (simp add: input_rclick_def Let_def keeps_flags keeps_refl assms(2))
qed (simp add: input_rclick_def keeps_refl assms)

lemma keeps_click_window:
  assumes "callbacks_ok cb" and "wm_ok t" and "cw < length (windows t)"
  shows "keeps t (snd (click_window cb inp dbl cw t))"
proof -
  note c = callback_keeps [OF assms]
  have drag: "keeps t (t\<lparr>dragging := True, drag_win := Some cw, drag_ox := a, drag_oy := b, drag_tx := c, drag_ty := d\<rparr>)" for a b c d
    using assms(2,3) by (auto simp: keeps_def wm_ok_def grab_ok_def)
  have rsz: "keeps t (t\<lparr>resizing := True, rsz_edge := a, rsz_win := Some cw\<rparr>)" for a
    using assms(2,3) by (auto simp: keeps_def wm_ok_def grab_ok_def)
  have close: "keeps t (wm_destroy_window (Some cw) (cb_close cb cw t))"
    by (rule keeps_trans [OF c(1) keeps_destroy [OF keeps_wm_ok(1) [OF c(1)]]])
  show ?thesis
    unfolding click_window_def Let_def
    by (simp add: keeps_flags keeps_restore keeps_maximize keeps_minimize keeps_destroy keeps_refl assms(2) c drag rsz close)
qed

lemma keeps_click:
  assumes "callbacks_ok cb" and "wm_ok s"
  shows "keeps s (snd (input_click cb inp s))"
proof (cases "win_at s (in_x inp) (in_y inp)")
  case (Some cw)
  note i = win_at_index [OF assms(2) Some]
  let ?t = "(wm_focus_window (Some cw) s)\<lparr>dbl_tick := in_ticks inp, dbl_win := Some cw\<rparr>"
  have t: "keeps s ?t"
    using keeps_focus [OF assms(2) i] by (simp only: keeps_flags)
  have "keeps s (snd (click_window cb inp dbl cw ?t))" for dbl
    by (rule keeps_trans [OF t keeps_click_window [OF assms(1) keeps_wm_ok(1) [OF t] keeps_wm_ok(2) [OF t i]]])
  then show ?thesis
    using keeps_refl [OF assms(2)] Some by (simp add: input_click_def Let_def)
qed (simp add: input_click_def keeps_refl assms)

lemma keeps_input:
  assumes "callbacks_ok cb" and "wm_ok s"
  shows "keeps s (snd (wm_handle_input cb remap inp s))"
proof -
  have seq: "keeps s (f t)" if "keeps s t" "\<And>u. wm_ok u \<Longrightarrow> keeps u (f u)" for f t
    using keeps_trans [OF that(1) that(2) [OF keeps_wm_ok(1) [OF that(1)]]] .
  note ops = keeps_rclick [OF assms(1)] keeps_hover [OF assms(1)] keeps_release [OF assms(1)]
    keeps_keys [OF assms(1)] keeps_wheel [OF assms(1)]
  have opt: "keeps s (if b then f t else t)" if "keeps s t" "\<And>u. wm_ok u \<Longrightarrow> keeps u (f u)" for b f t
    using seq [OF that] that(1) by simp
  obtain ret t where t: "(if in_left inp \<and> \<not> prev_lmb s then input_click cb inp s else (False, s)) = (ret, t)"
    by (cases "if in_left inp \<and> \<not> prev_lmb s then input_click cb inp s else (False, s)")
  then have kt: "keeps s t"
    using keeps_click [OF assms] keeps_refl [OF assms(2)] by (metis snd_conv)
  define u where "u = (if \<not> in_left inp \<and> prev_lmb s then input_release cb inp else id)
    ((if \<not> in_left inp \<and> \<not> in_right inp then input_hover cb inp False False else id)
    ((if in_left inp then input_hover cb inp (in_left inp) (in_right inp) else id)
    ((if in_right inp \<and> \<not> prev_rmb s then input_rclick cb inp else id) t)))"
  have ku: "keeps s u"
    unfolding u_def by (intro seq [OF seq [OF seq [OF seq [OF kt]]]]) (auto intro: ops keeps_refl)
  have fin: "keeps s (input_wheel cb inp (snd (input_keys cb remap (in_keys inp) u)))"
    by (rule seq [OF seq [OF ku ops(4)] ops(5)])
  have "snd (wm_handle_input cb remap inp s) \<in>
      {save_buttons inp (input_drag inp (the (drag_win s)) s), save_buttons inp (input_resize inp (the (rsz_win s)) s),
       save_buttons inp t, save_buttons inp (input_wheel cb inp (snd (input_keys cb remap (in_keys inp) u)))}"
    unfolding wm_handle_input_def Let_def u_def by (simp add: t split_beta id_def if_distribR)
  then show ?thesis
    using kt fin keeps_drag [OF assms(2)] keeps_resize [OF assms(2)] by (auto simp: keeps_flags)
qed

section \<open>Reachable states\<close>

text \<open>
  The calls the rest of the system makes. Applications may also write the fields of a window
  (size, callbacks, chrome) but not its height, visibility or focus flag.
\<close>

inductive wm_step :: "callbacks \<Rightarrow> (u8 \<Rightarrow> u8) \<Rightarrow> wm \<Rightarrow> wm \<Rightarrow> bool" for cb remap where
  create: "wm_step cb remap s (snd (wm_create_window ttl x y w h s))"
| destroy: "wm_step cb remap s (wm_destroy_window (wm_get_window i s) s)"
| focus: "wm_step cb remap s (wm_focus_window (wm_get_window i s) s)"
| clear_focus: "wm_step cb remap s (wm_clear_focus s)"
| minimize: "wm_step cb remap s (wm_minimize_window (wm_get_window i s) s)"
| maximize: "wm_step cb remap s (wm_maximize_window (wm_get_window i s) s)"
| restore: "wm_step cb remap s (wm_restore_window (wm_get_window i s) s)"
| set_size: "wm_step cb remap s (wm_set_screen_size sw sh s)"
| input: "wm_step cb remap s (snd (wm_handle_input cb remap inp s))"
| configure: "z_order (f (win s i)) = z_order (win s i) \<Longrightarrow> visible (f (win s i)) = visible (win s i) \<Longrightarrow>
    focused (f (win s i)) = focused (win s i) \<Longrightarrow> wm_step cb remap s (upd i f s)"
| dock_add: "wm_step cb remap s (wm_dock_add name fn s)"
| dock_clear: "wm_step cb remap s (wm_dock_clear s)"

inductive wm_reach :: "callbacks \<Rightarrow> (u8 \<Rightarrow> u8) \<Rightarrow> wm \<Rightarrow> bool" for cb remap where
  init: "wm_reach cb remap (wm_init sw sh s)"
| step: "wm_reach cb remap s \<Longrightarrow> wm_step cb remap s s' \<Longrightarrow> wm_reach cb remap s'"

lemma wm_get_window_index: "wm_get_window i s = Some k \<Longrightarrow> k < length (windows s)"
  by (auto simp: wm_get_window_def win_count_def split: if_splits)

lemma null_window:
  "wm_destroy_window None s = s" "wm_focus_window None s = s" "wm_minimize_window None s = s"
  "wm_maximize_window None s = s" "wm_restore_window None s = s" "wm_bring_to_front None s = s"
  by (simp_all add: wm_destroy_window_def wm_focus_window_def wm_minimize_window_def
      wm_maximize_window_def wm_restore_window_def wm_bring_to_front_def)

lemmas wm_keeps = keeps_create keeps_destroy keeps_focus keeps_clear_focus keeps_minimize keeps_maximize
  keeps_restore keeps_set_screen_size keeps_input keeps_upd keeps_dock

lemma wm_step_keeps:
  assumes "callbacks_ok cb" and "wm_step cb remap s s'" and "wm_ok s"
  shows "keeps s s'"
  using assms(2)
proof cases
  case (destroy i)
  then show ?thesis
    using assms(3) by (cases "wm_get_window i s") (simp_all add: null_window keeps_refl wm_keeps)
next
  case (focus i)
  then show ?thesis
    using assms(3) wm_get_window_index [of i s]
    by (cases "wm_get_window i s") (simp_all add: null_window keeps_refl wm_keeps)
next
  case (minimize i)
  then show ?thesis
    using assms(3) by (cases "wm_get_window i s") (simp_all add: null_window keeps_refl wm_keeps)
next
  case (maximize i)
  then show ?thesis
    using assms(3) by (cases "wm_get_window i s") (simp_all add: null_window keeps_refl wm_keeps)
next
  case (restore i)
  then show ?thesis
    using assms(3) by (cases "wm_get_window i s") (simp_all add: null_window keeps_refl wm_keeps)
next
  case (configure f i)
  show ?thesis
    unfolding configure(1) by (rule keeps_upd, rule assms(3), rule configure(2), rule configure(3), rule configure(4))
qed (use assms in \<open>simp_all add: wm_keeps\<close>)

lemma wm_reach_ok:
  assumes "callbacks_ok cb" and "wm_reach cb remap s"
  shows "wm_ok s"
  using assms(2)
proof induction
  case (init sw sh s)
  show ?case by (rule wm_init_ok)
next
  case (step s s')
  then show ?case
    using wm_step_keeps [OF assms(1)] keeps_wm_ok(1) by blast
qed

section \<open>Correctness\<close>

lemma stack_ok_perm: "stack_ok ws \<Longrightarrow> mset (map z_order ws) = mset (map int [0..<length ws])"
proof -
  assume ok: "stack_ok ws"
  have "set (map z_order ws) = {0..<int (length ws)}"
  proof (rule card_subset_eq)
    show "card (set (map z_order ws)) = card {0..<int (length ws)}"
      using ok distinct_card [of "map z_order ws"] by (simp add: stack_ok_def)
  qed (use ok in \<open>simp_all add: stack_ok_def\<close>)
  moreover have "set (map int [0..<length ws]) = {0..<int (length ws)}"
    by (simp add: image_int_atLeastLessThan)
  moreover have "distinct (map int [0..<length ws])"
    by (simp add: distinct_map)
  ultimately show ?thesis
    using ok by (metis set_eq_iff_mset_eq_distinct stack_ok_def)
qed

lemma stack_ok_z: "stack_ok ws \<Longrightarrow> j < length ws \<Longrightarrow> 0 \<le> z_order (ws ! j) \<and> z_order (ws ! j) < int (length ws)"
  by (drule nth_mem) (auto simp: stack_ok_def image_subset_iff)

text \<open>
  C3: Whatever sequence of window calls, screen changes and input events follows the
  initialisation, and whatever the application callbacks do within their contract: the z-orders
  are a permutation of \<open>0 .. win_count - 1\<close>, there are at most 16 windows, and the focused
  window exists, is visible, is marked as focused and is above every other window.
\<close>

theorem wm_focus_on_top:
  assumes "callbacks_ok cb" and "wm_reach cb remap s"
  shows "length (windows s) \<le> 16 \<and>
    mset (map z_order (windows s)) = mset (map int [0..<length (windows s)]) \<and>
    (case focus_win s of
       None \<Rightarrow> True
     | Some i \<Rightarrow> i < length (windows s) \<and> visible (windows s ! i) \<and> focused (windows s ! i) \<and>
         list_all (\<lambda>w. z_order w \<le> z_order (windows s ! i)) (windows s))"
proof -
  have ok: "wm_ok s"
    by (rule wm_reach_ok [OF assms])
  have "length (windows s) \<le> 16"
    using ok by (simp add: wm_ok_def stack_ok_def)
  moreover have "list_all (\<lambda>w. z_order w \<le> int (length (windows s)) - 1) (windows s)"
    using ok stack_ok_z [of "windows s"] by (fastforce simp: wm_ok_def list_all_length)
  ultimately show ?thesis
    using ok stack_ok_perm [of "windows s"] by (auto simp: wm_ok_def focus_ok_def split: option.splits)
qed

definition covers :: "int \<Rightarrow> int \<Rightarrow> window \<Rightarrow> bool" where
  "covers px py w \<longleftrightarrow> visible w \<and> state w \<noteq> WM_STATE_MINIMIZED \<and>
     wx w \<le> px \<and> px < wx w + ww w \<and> wy w \<le> py \<and> py < wy w + wh w"

text \<open>
  In every reachable state the hit test finds a window exactly when one covers the point,
  and then the highest one.
\<close>

theorem win_at_topmost:
  assumes "callbacks_ok cb" and "wm_reach cb remap s"
  shows "case win_at s px py of
      None \<Rightarrow> list_all (\<lambda>w. \<not> covers px py w) (windows s)
    | Some i \<Rightarrow> i < length (windows s) \<and> covers px py (windows s ! i) \<and>
        list_all (\<lambda>w. covers px py w \<longrightarrow> w = windows s ! i \<or> z_order w < z_order (windows s ! i)) (windows s)"
proof -
  have ok: "stack_ok (windows s)"
    using wm_reach_ok [OF assms] by (simp add: wm_ok_def)
  have w: "win_at s px py = scan_top (\<lambda>_. covers px py) (windows s) 0 (-1) None"
    by (simp add: win_at_def covers_def [abs_def])
  show ?thesis
  proof (cases "win_at s px py")
    case None
    then show ?thesis
      using scan_top_start(1) [OF ok, of "\<lambda>_. covers px py"] by (simp add: w list_all_length)
  next
    case (Some i)
    have i: "i < length (windows s)" "covers px py (windows s ! i)"
      and top: "\<forall>j < length (windows s). covers px py (windows s ! j) \<longrightarrow> z_order (windows s ! j) \<le> z_order (windows s ! i)"
      using scan_top_start(2) [OF ok, of "\<lambda>_. covers px py"] Some by (simp_all add: w)
    have "z_order (windows s ! j) \<noteq> z_order (windows s ! i)" if "j < length (windows s)" "j \<noteq> i" for j
      using ok that i(1) nth_eq_iff_index_eq [of "map z_order (windows s)" j i] by (simp add: stack_ok_def)
    then have "list_all (\<lambda>w. covers px py w \<longrightarrow> w = windows s ! i \<or> z_order w < z_order (windows s ! i)) (windows s)"
      using top unfolding list_all_length by (metis order_le_less)
    with Some i show ?thesis by simp
  qed
qed

lemma at_z_loop_spec:
  "at_z_loop ws k z = Some i \<Longrightarrow> \<exists>j < length ws. i = k + j \<and> z_order (ws ! j) = z"
  "at_z_loop ws k z = None \<Longrightarrow> j < length ws \<Longrightarrow> z_order (ws ! j) \<noteq> z"
proof -
  show "at_z_loop ws k z = Some i \<Longrightarrow> \<exists>j < length ws. i = k + j \<and> z_order (ws ! j) = z"
  proof (induction ws k z rule: at_z_loop.induct)
    case (2 w ws k z)
    then show ?case
    proof (cases "z_order w = z")
      case False
      with 2 obtain j where "j < length ws" "i = k + 1 + j" "z_order (ws ! j) = z"
        by auto
      then show ?thesis
        by (intro exI [of _ "Suc j"]) simp
    qed (auto intro: exI [of _ 0])
  qed simp
  show "at_z_loop ws k z = None \<Longrightarrow> j < length ws \<Longrightarrow> z_order (ws ! j) \<noteq> z"
    by (induction ws k z arbitrary: j rule: at_z_loop.induct) (auto simp: nth_Cons' split: if_splits)
qed

text \<open>
  \<open>wm_draw_all\<close> paints every window exactly once, from the bottom of the stack to the top.
\<close>

theorem wm_draw_all_order:
  assumes "callbacks_ok cb" and "wm_reach cb remap s"
  shows "map (\<lambda>i. z_order (windows s ! i)) (wm_draw_all s) = map int [0..<length (windows s)] \<and>
    mset (wm_draw_all s) = mset [0..<length (windows s)]"
proof -
  let ?ws = "windows s" and ?n = "length (windows s)"
  have ok: "stack_ok ?ws"
    using wm_reach_ok [OF assms] by (simp add: wm_ok_def)
  have "\<exists>i < ?n. at_z s (int z) = Some i \<and> z_order (?ws ! i) = int z" if "z < ?n" for z
  proof -
    have "int z \<in> set (map z_order ?ws)"
      using that mset_eq_setD [OF stack_ok_perm [OF ok]] by auto
    then obtain j where "j < ?n" "z_order (?ws ! j) = int z"
      by (auto simp: in_set_conv_nth)
    then obtain i where "at_z s (int z) = Some i"
      using at_z_loop_spec(2) [of ?ws 0 "int z" j] by (cases "at_z s (int z)") (auto simp: at_z_def)
    with at_z_loop_spec(1) [of ?ws 0 "int z" i] show ?thesis
      by (auto simp: at_z_def)
  qed
  then obtain f where f: "\<And>z. z < ?n \<Longrightarrow> f z < ?n \<and> at_z s (int z) = Some (f z) \<and> z_order (?ws ! f z) = int z"
    by metis
  have d: "wm_draw_all s = map f [0..<?n]"
    unfolding wm_draw_all_def List.map_filter_def
    using f by (intro nth_equalityI) (auto simp: filter_id_conv [THEN iffD2] comp_def)
  have z: "map (\<lambda>i. z_order (?ws ! i)) (map f [0..<?n]) = map int [0..<?n]"
    using f by simp
  have "inj_on f {0..<?n}"
    by (rule inj_onI) (metis atLeastLessThan_iff f of_nat_eq_iff)
  then have "distinct (map f [0..<?n])"
    by (simp add: distinct_map)
  moreover have "set (map f [0..<?n]) = set [0..<?n]"
    by (rule card_subset_eq) (use f distinct_card [OF \<open>distinct (map f [0..<?n])\<close>] in auto)
  ultimately show ?thesis
    using z d by (metis distinct_upt set_eq_iff_mset_eq_distinct)
qed

text \<open>Dragging: each frame gets strictly closer.\<close>

lemma cdiv_three_fifths: "0 < d \<Longrightarrow> cdiv (d * 3) 5 = d * 3 div 5" "d < 0 \<Longrightarrow> cdiv (d * 3) 5 = - ((- d) * 3 div 5)"
  by (simp_all add: cdiv_def sgn_mult abs_mult)

lemma drag_step_closer: "\<bar>drag_step x t - t\<bar> \<le> max 0 (\<bar>x - t\<bar> - 1)"
proof -
  consider "t = x" | "x < t" | "t < x"
    by linarith
  then show ?thesis
  proof cases
    case 1
    then show ?thesis by (simp add: drag_step_def cdiv_def)
  next
    case 2
    define d where "d = t - x"
    have d0: "0 < d"
      using 2 by (simp add: d_def)
    note d = d0 cdiv_three_fifths(1) [OF d0]
    have "d * 3 div 5 \<le> d" "0 \<le> d * 3 div 5"
      using d(1) by presburger+
    then show ?thesis
      using d 2 unfolding drag_step_def Let_def d_def [symmetric] by (auto simp: d_def)
  next
    case 3
    define d where "d = t - x"
    have d0: "d < 0"
      using 3 by (simp add: d_def)
    note d = d0 cdiv_three_fifths(2) [OF d0]
    have "(- d) * 3 div 5 \<le> - d" "0 \<le> (- d) * 3 div 5"
      using d(1) by presburger+
    then show ?thesis
      using d 3 unfolding drag_step_def Let_def d_def [symmetric] by (auto simp: d_def)
  qed
qed

lemma drag_step_converges: "\<bar>x - t\<bar> \<le> int n \<Longrightarrow> ((\<lambda>x. drag_step x t) ^^ n) x = t"
proof (induction n arbitrary: x)
  case (Suc n)
  have "\<bar>drag_step x t - t\<bar> \<le> int n"
    using drag_step_closer [of x t] Suc.prems by linarith
  then show ?case
    using Suc.IH [of "drag_step x t"] by (simp add: funpow_Suc_right del: funpow.simps)
qed simp

definition drag_target :: "wm_input \<Rightarrow> wm \<Rightarrow> int \<times> int" where
  "drag_target inp s = (in_x inp - drag_ox s,
     cl (in_y inp - drag_oy s) (if window_style s = 0 then 25 else 0) (scr_h s - 124 - 30))"

lemma drag_frame:
  fixes cb remap
  assumes "dragging s" and "drag_win s = Some i" and "in_left inp" and "i < length (windows s)"
  defines "s' \<equiv> snd (wm_handle_input cb remap inp s)"
  shows "dragging s' \<and> drag_win s' = Some i \<and> length (windows s') = length (windows s) \<and>
      drag_target inp s' = drag_target inp s"
    and "wx (win s' i) = drag_step (wx (win s i)) (fst (drag_target inp s))"
    and "wy (win s' i) = drag_step (wy (win s i)) (snd (drag_target inp s))"
  using assms(1-4)
  by (simp_all add: s'_def wm_handle_input_def input_drag_def save_buttons_def drag_target_def Let_def
      wm_invalidate_windows_def win_def upd_def)

text \<open>
  C38: While the button is held and the pointer rests, a dragged window reaches the place the
  pointer asks for (clamped below the menu bar and above the dock) after at most as many input
  polls as it is pixels away, and stays there.
\<close>

theorem drag_reaches_pointer:
  assumes "dragging s" and "drag_win s = Some i" and "in_left inp" and "i < length (windows s)"
    and "\<bar>wx (win s i) - fst (drag_target inp s)\<bar> \<le> int n"
    and "\<bar>wy (win s i) - snd (drag_target inp s)\<bar> \<le> int n"
  shows "(let s' = ((\<lambda>s. snd (wm_handle_input cb remap inp s)) ^^ n) s
          in (wx (win s' i), wy (win s' i)) = drag_target inp s)"
proof -
  let ?f = "\<lambda>s. snd (wm_handle_input cb remap inp s)"
  have "dragging ((?f ^^ k) s) \<and> drag_win ((?f ^^ k) s) = Some i \<and> i < length (windows ((?f ^^ k) s)) \<and>
      drag_target inp ((?f ^^ k) s) = drag_target inp s \<and>
      wx (win ((?f ^^ k) s) i) = ((\<lambda>x. drag_step x (fst (drag_target inp s))) ^^ k) (wx (win s i)) \<and>
      wy (win ((?f ^^ k) s) i) = ((\<lambda>x. drag_step x (snd (drag_target inp s))) ^^ k) (wy (win s i))" for k
  proof (induction k)
    case (Suc k)
    then show ?case
      using drag_frame [of "(?f ^^ k) s" i inp cb remap] assms(3) by auto
  qed (use assms in simp)
  then show ?thesis
    using drag_step_converges [OF assms(5)] drag_step_converges [OF assms(6)] by (simp add: Let_def)
qed

text \<open>
  Maximising fills the screen between the bars, and maximising again gives the window its
  old geometry back; no other window moves.
\<close>

theorem maximize_twice_restores:
  assumes "i < length (windows s)" and "state (win s i) \<noteq> WM_STATE_MAXIMIZED"
  shows "let s1 = wm_maximize_window (Some i) s; s2 = wm_maximize_window (Some i) s1;
             top = (if window_style s = 0 then 25 else 0)
         in (wx (win s1 i), wy (win s1 i), ww (win s1 i), wh (win s1 i)) = (0, top, scr_w s, scr_h s - 124 - top) \<and>
            (wx (win s2 i), wy (win s2 i), ww (win s2 i), wh (win s2 i)) =
              (wx (win s i), wy (win s i), ww (win s i), wh (win s i)) \<and>
            state (win s2 i) = WM_STATE_NORMAL \<and>
            list_all2 (\<lambda>v w. v = w \<or> w = win s2 i) (windows s) (windows s2)"
  using assms
  by (auto simp: wm_maximize_window_def wm_restore_window_def Let_def win_def list_all2_conv_all_nth nth_list_update
      wm_invalidate_all_def upd_def)

text \<open>
  After a resolution change every visible window that fits lies inside the new screen, above
  the dock, with its size unchanged.
\<close>

theorem resize_screen_fits:
  "list_all (\<lambda>w. visible w \<and> 0 \<le> ww w \<and> ww w \<le> sw \<and> 0 \<le> wh w \<and> wh w \<le> sh - 124 \<longrightarrow>
       0 \<le> wx w \<and> wx w + ww w \<le> sw \<and> 0 \<le> wy w \<and> wy w + wh w \<le> sh - 124)
     (windows (wm_set_screen_size sw sh s)) \<and>
   map ww (windows (wm_set_screen_size sw sh s)) = map ww (windows s) \<and>
   map wh (windows (wm_set_screen_size sw sh s)) = map wh (windows s)"
  by (auto simp: wm_set_screen_size_def list_all_iff fit_window_def Let_def)

section \<open>Two windows\<close>

text \<open>
  A state in which the claims above are about something: two overlapping windows, and callbacks
  that change the state (a close button that clears the focus, a key that minimises).
\<close>

definition idle_wm :: wm where
  "idle_wm = \<lparr>scr_w = 0, scr_h = 0, window_style = 0, windows = [], focus_win = None,
     dragging = False, drag_win = None, drag_ox = 0, drag_oy = 0, drag_tx = 0, drag_ty = 0,
     resizing = False, rsz_win = None, rsz_edge = 0, dbl_win = None, dbl_tick = 0,
     prev_lmb = False, prev_rmb = False, res_changed = False, bg_dirty = False, wm_bg_dirty = False,
     wm_dock_dirty = False, wm_windows_dirty = False, wm_cursor_dirty = False, wm_full_redraw = False,
     desktop_exit_reason = 0, dock = [], dock_hover = 0\<rparr>"

definition two_windows :: wm where
  "two_windows = snd (wm_create_window (lit ''B'') 100 100 300 200
     (snd (wm_create_window (lit ''A'') 50 50 300 200 (wm_init 1024 768 idle_wm))))"

definition plain_callbacks :: callbacks where
  "plain_callbacks = \<lparr>cb_close = (\<lambda>_. wm_clear_focus), cb_mouse = (\<lambda>_ _ _ _ _ s. s),
     cb_key = (\<lambda>i _. wm_minimize_window (Some i))\<rparr>"

lemma plain_callbacks_ok: "callbacks_ok plain_callbacks"
  by (simp add: callbacks_ok_def plain_callbacks_def keeps_clear_focus keeps_minimize keeps_refl)

lemma two_windows_reach: "wm_reach cb remap two_windows"
  unfolding two_windows_def by (intro wm_reach.step [OF _ create] wm_reach.init)

lemmas wm_eval = two_windows_def wm_create_window_def wm_init_def idle_wm_def wm_focus_window_def
  wm_bring_to_front_def wm_invalidate_all_def wm_invalidate_windows_def win_def upd_def win_count_def Let_def

lemma two_windows_eq:
  "length (windows two_windows) = 2" "focus_win two_windows = Some 1"
  "z_order (windows two_windows ! 0) = 0" "z_order (windows two_windows ! Suc 0) = 1"
  "wx (win two_windows (Suc 0)) = 100" "wy (win two_windows (Suc 0)) = 100" "ww (win two_windows (Suc 0)) = 300" "wh (win two_windows (Suc 0)) = 200"
  "state (win two_windows (Suc 0)) = WM_STATE_NORMAL" "visible (win two_windows (Suc 0))" "scr_w two_windows = 1024" "scr_h two_windows = 768"
  "window_style two_windows = 0" "win_at two_windows 150 150 = Some 1" "win_at two_windows 60 60 = Some 0"
  by (simp_all add: wm_eval win_at_def)

theorem wm_focus_on_top_witness:
  "mset (map z_order (windows two_windows)) = {#0, 1#} \<and> focused (windows two_windows ! 1)"
  using wm_focus_on_top [OF plain_callbacks_ok two_windows_reach [where remap = id]]
  by (simp add: two_windows_eq upt_rec numeral_eq_Suc add_mset_commute)

theorem win_at_topmost_witness:
  "covers 150 150 (windows two_windows ! 1) \<and> win_at two_windows 150 150 = Some 1"
  using win_at_topmost [OF plain_callbacks_ok two_windows_reach [where remap = id], of 150 150]
  by (simp add: two_windows_eq)

theorem wm_draw_all_order_witness: "mset (wm_draw_all two_windows) = {#0, 1#}"
  using wm_draw_all_order [OF plain_callbacks_ok two_windows_reach [where remap = id]]
  by (simp add: two_windows_eq upt_rec numeral_eq_Suc add_mset_commute)

definition held :: wm_input where
  "held = \<lparr>in_x = 110, in_y = 120, in_left = True, in_right = False, in_ticks = 0, in_z = 0, in_keys = []\<rparr>"

theorem drag_reaches_pointer_witness:
  "let s = two_windows\<lparr>dragging := True, drag_win := Some 1, drag_ox := 8, drag_oy := 8\<rparr>;
       s' = ((\<lambda>s. snd (wm_handle_input plain_callbacks id held s)) ^^ 12) s
   in (wx (win s' 1), wy (win s' 1)) = (102, 112)"
proof -
  let ?s = "two_windows\<lparr>dragging := True, drag_win := Some 1, drag_ox := 8, drag_oy := 8\<rparr>"
  have "win ?s 1 = win two_windows 1"
    by (simp add: win_def)
  moreover have "drag_target held ?s = (102, 112)" "in_left held"
    by (simp_all add: drag_target_def held_def two_windows_eq cl_def)
  ultimately show ?thesis
    using drag_reaches_pointer [of ?s 1 held 12 plain_callbacks id]
    by (simp add: two_windows_eq)
qed

theorem maximize_twice_restores_witness:
  "ww (win (wm_maximize_window (Some 1) two_windows) 1) = 1024 \<and>
   ww (win (wm_maximize_window (Some 1) (wm_maximize_window (Some 1) two_windows)) 1) = 300"
  using maximize_twice_restores [of 1 two_windows] by (simp add: two_windows_eq Let_def)

theorem resize_screen_fits_witness:
  "let w = windows (wm_set_screen_size 350 400 two_windows) ! 1 in wx w + ww w \<le> 350 \<and> wy w + wh w \<le> 276"
  using resize_screen_fits [of 350 400 two_windows]
  by (simp add: wm_eval wm_set_screen_size_def fit_window_def)

text \<open>
  Minimising takes the focus away but leaves the window's \<open>focused\<close> flag set, so that after the
  next window has received the focus two windows carry the flag.
\<close>

lemma minimize_leaves_flag:
  "let s = wm_minimize_window (Some 1) two_windows
   in focus_win s = Some 0 \<and> focused (win s 0) \<and> focused (win s 1)"
  by (simp add: wm_eval wm_minimize_window_def refocus_def next_focus_def)

text \<open>Minimising a maximised window forgets its saved geometry: restoring it leaves it full-size.\<close>

lemma minimize_forgets_geometry:
  "let s = wm_maximize_window (Some 1) two_windows; s = wm_minimize_window (Some 1) s; s = wm_restore_window (Some 1) s
   in state (win s 1) = WM_STATE_NORMAL \<and> ww (win s 1) = 1024"
  by (simp add: wm_eval wm_maximize_window_def wm_minimize_window_def wm_restore_window_def refocus_def next_focus_def)

text \<open>Closed windows keep their slots: 16 creations exhaust the table for good.\<close>

lemma destroy_keeps_slot: "win_count (wm_destroy_window (Some i) s) = win_count s"
  by (simp add: wm_destroy_window_def refocus_def next_focus_def wm_focus_window_def win_count_def Let_def
      wm_bring_to_front_def wm_invalidate_all_def upd_def split: option.splits)

end
