(* ===== verification/NetBase.thy ===== *)
theory NetBase
  imports AurionPrelude
begin

text \<open>
  The transmit side of the network stack: the interface table of \<open>src/src/network_interface.c\<close>,
  and from \<open>src/src/tcp_ip_stack.c\<close> the checksums, the ARP cache and the functions that build and
  send IP, ICMP, UDP and TCP packets.

  The state of the stack is one record \<open>net\<close>. A driver's function pointers are fields of the
  interface; they act on the devices, a value of the type parameter. The static counters that
  only limit debug output are left out. A packet is the list of its bytes in wire order, so a
  field that the code wraps in \<open>htons\<close> or \<open>htonl\<close> is big-endian. \<open>None\<close> is an access outside a
  buffer.
\<close>

section \<open>State\<close>

record 'd iface =
  if_name :: bytes
  mac_addr :: bytes
  ip_addr :: u32
  netmask :: u32
  gateway :: u32
  dns_server :: u32
  link_up :: bool
  tx_packets :: u64
  rx_packets :: u64
  tx_bytes :: u64
  rx_bytes :: u64
  tx_errors :: u64
  rx_errors :: u64
  send_packet :: "('d \<Rightarrow> bytes \<Rightarrow> int \<times> 'd) option"
  recv_packet :: "('d \<Rightarrow> nat \<Rightarrow> int \<times> bytes \<times> 'd) option"

record arp_entry =
  arp_ip :: u32
  arp_mac :: bytes
  arp_valid :: bool

datatype tcp_state = TCP_CLOSED | TCP_SYN_SENT | TCP_ESTABLISHED | TCP_FIN_WAIT

record tcb =
  tcb_state :: tcp_state
  local_ip :: u32
  remote_ip :: u32
  local_port :: u16
  remote_port :: u16
  snd_nxt :: u32
  rcv_nxt :: u32
  rx_buffer :: bytes
  rx_len :: u32
  rx_processed :: u32
  has_data :: bool

text \<open>\<open>frame_buf\<close> is the static \<open>rx_buffer\<close> of \<open>netif_poll\<close>.\<close>

record 'd net =
  interfaces :: "'d iface list"
  num_interfaces :: nat
  default_interface :: "nat option"
  frame_buf :: bytes
  arp_cache :: "arp_entry list"
  last_dns_host :: bytes
  last_dns_ip :: u32
  tcb :: tcb
  dhcp_xid :: u32
  offered_ip :: u32
  server_ip :: u32
  dev :: 'd

text \<open>The statically initialised state.\<close>

definition boot_net :: "'d \<Rightarrow> 'd net" where
  "boot_net d = \<lparr>
     interfaces = replicate 4 \<lparr>if_name = replicate 16 0, mac_addr = replicate 6 0, ip_addr = 0, netmask = 0,
       gateway = 0, dns_server = 0, link_up = False, tx_packets = 0, rx_packets = 0, tx_bytes = 0,
       rx_bytes = 0, tx_errors = 0, rx_errors = 0, send_packet = None, recv_packet = None\<rparr>,
     num_interfaces = 0, default_interface = None, frame_buf = replicate 2048 0,
     arp_cache = replicate 16 \<lparr>arp_ip = 0, arp_mac = replicate 6 0, arp_valid = False\<rparr>,
     last_dns_host = replicate 64 0, last_dns_ip = 0,
     tcb = \<lparr>tcb_state = TCP_CLOSED, local_ip = 0, remote_ip = 0, local_port = 0, remote_port = 0,
       snd_nxt = 0, rcv_nxt = 0, rx_buffer = replicate 16384 0, rx_len = 0, rx_processed = 0, has_data = False\<rparr>,
     dhcp_xid = 0x12345678, offered_ip = 0, server_ip = 0, dev = d\<rparr>"

section \<open>Interfaces\<close>

definition netif_init :: "'d net \<Rightarrow> int \<times> 'd net" where
  "netif_init s =
     (0, s\<lparr>num_interfaces := 0, default_interface := None,
           interfaces := map (\<lambda>f. f\<lparr>if_name := (if_name f)[0 := 0], link_up := False, ip_addr := 0,
             netmask := 0, gateway := 0, dns_server := 0, tx_packets := 0, rx_packets := 0,
             tx_bytes := 0, rx_bytes := 0, tx_errors := 0, rx_errors := 0,
             send_packet := None, recv_packet := None\<rparr>) (interfaces s)\<rparr>)"

definition netif_register :: "'d iface \<Rightarrow> 'd net \<Rightarrow> int \<times> 'd net" where
  "netif_register iface s =
     (if 4 \<le> num_interfaces s then (-1, s)
      else
        let n = num_interfaces s;
            s = s\<lparr>interfaces := (interfaces s)[n := iface]\<rparr>;
            s = (if default_interface s = None then s\<lparr>default_interface := Some n\<rparr> else s)
        in (0, s\<lparr>num_interfaces := n + 1\<rparr>))"

definition netif_get_default :: "'d net \<Rightarrow> nat option" where
  "netif_get_default s = default_interface s"

definition the_iface :: "'d net \<Rightarrow> nat \<Rightarrow> 'd iface" where
  "the_iface s k = interfaces s ! k"

definition upd_iface :: "nat \<Rightarrow> ('d iface \<Rightarrow> 'd iface) \<Rightarrow> 'd net \<Rightarrow> 'd net" where
  "upd_iface k f s = s\<lparr>interfaces := (interfaces s)[k := f (interfaces s ! k)]\<rparr>"

definition netif_send :: "nat \<Rightarrow> bytes \<Rightarrow> 'd net \<Rightarrow> int \<times> 'd net" where
  "netif_send k data s =
     (if data = [] then (-1, s)
      else case send_packet (the_iface s k) of
        None \<Rightarrow> (-1, s)
      | Some send \<Rightarrow>
          let (result, d) = send (dev s) data;
              s = s\<lparr>dev := d\<rparr>
          in if 0 \<le> result
             then (result, upd_iface k (\<lambda>f. f\<lparr>tx_packets := tx_packets f + 1, tx_bytes := tx_bytes f + of_nat (length data)\<rparr>) s)
             else (result, upd_iface k (\<lambda>f. f\<lparr>tx_errors := tx_errors f + 1\<rparr>) s))"

text \<open>The received bytes are written over the front of the buffer.\<close>

definition netif_receive :: "nat \<Rightarrow> bytes \<Rightarrow> 'd net \<Rightarrow> int \<times> bytes \<times> 'd net" where
  "netif_receive k buf s =
     (if buf = [] then (-1, buf, s)
      else case recv_packet (the_iface s k) of
        None \<Rightarrow> (0, buf, s)
      | Some recv \<Rightarrow>
          let (result, data, d) = recv (dev s) (length buf);
              buf = take (length buf) data @ drop (length data) buf;
              s = s\<lparr>dev := d\<rparr>
          in if 0 < result
             then (result, buf, upd_iface k (\<lambda>f. f\<lparr>rx_packets := rx_packets f + 1, rx_bytes := rx_bytes f + of_int result\<rparr>) s)
             else if result < 0 then (result, buf, upd_iface k (\<lambda>f. f\<lparr>rx_errors := rx_errors f + 1\<rparr>) s)
             else (result, buf, s))"

definition netif_set_ip :: "nat \<Rightarrow> u32 \<Rightarrow> u32 \<Rightarrow> u32 \<Rightarrow> u32 \<Rightarrow> 'd net \<Rightarrow> 'd net" where
  "netif_set_ip k ip nm gw dns =
     upd_iface k (\<lambda>f. f\<lparr>ip_addr := ip, netmask := nm, gateway := gw, dns_server := dns\<rparr>)"

definition netif_set_link :: "nat \<Rightarrow> bool \<Rightarrow> 'd net \<Rightarrow> 'd net" where
  "netif_set_link k up = upd_iface k (\<lambda>f. f\<lparr>link_up := up\<rparr>)"

section \<open>Checksums\<close>

text \<open>The loop of \<open>ip_checksum\<close>: the machine loads little-endian half-words.\<close>

fun le_sum :: "bytes \<Rightarrow> u32 \<Rightarrow> u32" where
  "le_sum (a # b # r) acc = le_sum r (acc + ucast (join16 b a))"
| "le_sum [a] acc = acc + ucast a"
| "le_sum [] acc = acc"

definition ip_checksum :: "bytes \<Rightarrow> u16" where
  "ip_checksum data =
     (let acc = le_sum data 0;
          acc = drop_bit 16 acc + (acc AND 0xFFFF);
          acc = acc + drop_bit 16 acc
      in ucast (NOT acc))"

text \<open>The loops of \<open>tcp_checksum\<close> and \<open>dhcp_discover\<close>: big-endian half-words.\<close>

fun be_sum :: "bytes \<Rightarrow> u32 \<Rightarrow> u32" where
  "be_sum (a # b # r) acc = be_sum r (acc + ucast (join16 a b))"
| "be_sum [a] acc = acc + ucast (join16 a 0)"
| "be_sum [] acc = acc"

lemma low16: "s AND 0xFFFF = take_bit 16 (s :: u32)"
  by (simp add: take_bit_eq_mask mask_eq_exp_minus_1)

lemma unat_low16 [wire]: "unat (s AND 0xFFFF) = unat (s :: u32) mod 65536"
  unfolding low16 unsigned_take_bit_eq by (simp add: take_bit_eq_mod)

lemma unat_high16 [wire]: "unat (drop_bit 16 s) = unat (s :: u32) div 65536"
  unfolding unat_drop_bit_eq by (simp add: drop_bit_eq_div)

lemma unat_fold16_step [wire]: "unat ((s AND 0xFFFF) + drop_bit 16 s) = unat (s :: u32) mod 65536 + unat s div 65536"
proof -
  have "x mod 65536 + x div 65536 < 4294967296" if "x < 4294967296" for x :: nat
    using that by linarith
  from this [OF unat_u32_less] show ?thesis
    by (simp add: unat_word_ariths unat_low16 unat_high16)
qed

lemma fold_decreases: "drop_bit 16 s \<noteq> (0 :: u32) \<Longrightarrow> unat ((s AND 0xFFFF) + drop_bit 16 s) < unat s"
proof -
  assume "drop_bit 16 s \<noteq> (0 :: u32)"
  then have "0 < unat s div 65536"
    by (metis unat_high16 unat_gt_0)
  then show ?thesis
    unfolding unat_fold16_step using mult_div_mod_eq [of 65536 "unat s"] by linarith
qed

function fold16 :: "u32 \<Rightarrow> u32" where
  "fold16 s = (if drop_bit 16 s \<noteq> 0 then fold16 ((s AND 0xFFFF) + drop_bit 16 s) else s)"
  by pat_completeness auto
termination
  by (relation "measure unat") (auto simp: fold_decreases)

declare fold16.simps [simp del]

definition pseudo_header :: "u32 \<Rightarrow> u32 \<Rightarrow> u16 \<Rightarrow> bytes" where
  "pseudo_header src_ip dest_ip len = put32be src_ip @ put32be dest_ip @ [0, 6] @ put16be len"

text \<open>The value is stored little-endian, so its bytes are the checksum in wire order.\<close>

definition tcp_checksum :: "u32 \<Rightarrow> u32 \<Rightarrow> bytes \<Rightarrow> bytes" where
  "tcp_checksum src_ip dest_ip data =
     (let acc = be_sum (pseudo_header src_ip dest_ip (of_nat (length data))) 0;
          acc = be_sum data acc
      in put16be (ucast (NOT (fold16 acc))))"

section \<open>The ARP cache\<close>

definition arp_init :: "'d net \<Rightarrow> int \<times> 'd net" where
  "arp_init s = (0, s\<lparr>arp_cache := map (\<lambda>e. e\<lparr>arp_valid := False\<rparr>) (arp_cache s)\<rparr>)"

text \<open>Filling the first free slot.\<close>

fun arp_put :: "arp_entry \<Rightarrow> arp_entry list \<Rightarrow> arp_entry list option" where
  "arp_put e [] = None"
| "arp_put e (x # xs) = (if \<not> arp_valid x then Some (e # xs) else map_option ((#) x) (arp_put e xs))"

definition arp_add_entry :: "u32 \<Rightarrow> bytes \<Rightarrow> 'd net \<Rightarrow> 'd net" where
  "arp_add_entry ip mac s =
     (let e = \<lparr>arp_ip = ip, arp_mac = mac, arp_valid = True\<rparr>
      in s\<lparr>arp_cache := (case arp_put e (arp_cache s) of Some c \<Rightarrow> c | None \<Rightarrow> (arp_cache s)[0 := e])\<rparr>)"

fun arp_find :: "u32 \<Rightarrow> arp_entry list \<Rightarrow> bytes option" where
  "arp_find ip [] = None"
| "arp_find ip (x # xs) = (if arp_valid x \<and> arp_ip x = ip then Some (arp_mac x) else arp_find ip xs)"

text \<open>\<open>None\<close> is the returned \<open>-1\<close>.\<close>

definition arp_resolve :: "u32 \<Rightarrow> 'd net \<Rightarrow> bytes option" where
  "arp_resolve ip s = arp_find ip (arp_cache s)"

section \<open>Sending packets\<close>

definition eth_header :: "bytes \<Rightarrow> bytes \<Rightarrow> u16 \<Rightarrow> bytes" where
  "eth_header dst src ethertype = dst @ src @ put16be ethertype"

definition ip_header_with :: "bytes \<Rightarrow> u8 \<Rightarrow> nat \<Rightarrow> u32 \<Rightarrow> u32 \<Rightarrow> bytes" where
  "ip_header_with ck protocol len src dst =
     [0x45, 0] @ put16be (of_nat (20 + len)) @ [0, 0, 0, 0, 64, protocol] @ ck @ put32be src @ put32be dst"

definition ip_header :: "u8 \<Rightarrow> nat \<Rightarrow> u32 \<Rightarrow> u32 \<Rightarrow> bytes" where
  "ip_header protocol len src dst =
     ip_header_with (put16le (ip_checksum (ip_header_with [0, 0] protocol len src dst))) protocol len src dst"

text \<open>The next hop: the destination or the gateway, with the code's fallback addresses.\<close>

definition next_hop_mac :: "u32 \<Rightarrow> 'd iface \<Rightarrow> 'd net \<Rightarrow> bytes" where
  "next_hop_mac dest_ip f s =
     (if dest_ip AND netmask f = ip_addr f AND netmask f
      then case arp_resolve dest_ip s of Some m \<Rightarrow> m | None \<Rightarrow> replicate 6 0xFF
      else case arp_resolve (gateway f) s of Some m \<Rightarrow> m | None \<Rightarrow> [0x52, 0x55, 0x0a, 0x00, 0x02, 0x02])"

text \<open>
  The frame buffer holds 1500 bytes and the copy stops there, but the whole length is handed to
  the driver, which then reads behind the buffer.
\<close>

definition ip_send :: "u32 \<Rightarrow> u8 \<Rightarrow> bytes \<Rightarrow> 'd net \<Rightarrow> (int \<times> 'd net) option" where
  "ip_send dest_ip protocol data s =
     (case netif_get_default s of
        None \<Rightarrow> Some (-1, s)
      | Some k \<Rightarrow>
          let f = the_iface s k;
              packet = eth_header (next_hop_mac dest_ip f s) (mac_addr f) 0x0800
                @ ip_header protocol (length data) (ip_addr f) dest_ip @ take 1466 data
          in if 1466 < length data \<and> send_packet f \<noteq> None then None
             else Some (netif_send k packet s))"

definition ping_packet :: "bytes \<Rightarrow> u16 \<Rightarrow> bytes" where
  "ping_packet ck seq = [8, 0] @ ck @ put16be 0x1234 @ put16be seq @ map of_nat [8..<64]"

definition icmp_ping :: "u32 \<Rightarrow> u16 \<Rightarrow> 'd net \<Rightarrow> (int \<times> 'd net) option" where
  "icmp_ping dest_ip seq s =
     ip_send dest_ip 1 (ping_packet (put16le (ip_checksum (ping_packet [0, 0] seq))) seq) s"

definition udp_header :: "u16 \<Rightarrow> u16 \<Rightarrow> nat \<Rightarrow> bytes" where
  "udp_header src_port dest_port len =
     put16be src_port @ put16be dest_port @ put16be (of_nat (8 + len)) @ [0, 0]"

definition udp_send_packet :: "u32 \<Rightarrow> u16 \<Rightarrow> u16 \<Rightarrow> bytes \<Rightarrow> 'd net \<Rightarrow> (int \<times> 'd net) option" where
  "udp_send_packet dest_ip dest_port src_port data s =
     (if netif_get_default s = None then Some (-1, s)
      else if 1500 < 8 + length data then None
      else ip_send dest_ip 17 (udp_header src_port dest_port (length data) @ data) s)"

abbreviation (input) TCP_FLAG_FIN :: u8 where "TCP_FLAG_FIN \<equiv> 0x01"
abbreviation (input) TCP_FLAG_SYN :: u8 where "TCP_FLAG_SYN \<equiv> 0x02"
abbreviation (input) TCP_FLAG_PSH :: u8 where "TCP_FLAG_PSH \<equiv> 0x08"
abbreviation (input) TCP_FLAG_ACK :: u8 where "TCP_FLAG_ACK \<equiv> 0x10"

definition tcp_header :: "bytes \<Rightarrow> u16 \<Rightarrow> u16 \<Rightarrow> u32 \<Rightarrow> u32 \<Rightarrow> u8 \<Rightarrow> bytes" where
  "tcp_header ck src_port dest_port seq ack flags =
     put16be src_port @ put16be dest_port @ put32be seq @ put32be ack @ [0x50, flags]
       @ put16be 8192 @ ck @ [0, 0]"

definition tcp_segment :: "u32 \<Rightarrow> u32 \<Rightarrow> u16 \<Rightarrow> u16 \<Rightarrow> u32 \<Rightarrow> u32 \<Rightarrow> u8 \<Rightarrow> bytes \<Rightarrow> bytes" where
  "tcp_segment src_ip dest_ip src_port dest_port seq ack flags payload =
     tcp_header (tcp_checksum src_ip dest_ip (tcp_header [0, 0] src_port dest_port seq ack flags @ payload))
       src_port dest_port seq ack flags @ payload"

definition tcp_send_packet :: "u32 \<Rightarrow> u16 \<Rightarrow> u16 \<Rightarrow> u32 \<Rightarrow> u32 \<Rightarrow> u8 \<Rightarrow> bytes \<Rightarrow> 'd net \<Rightarrow> (int \<times> 'd net) option" where
  "tcp_send_packet dest_ip dest_port src_port seq ack flags payload s =
     (case netif_get_default s of
        None \<Rightarrow> Some (-1, s)
      | Some k \<Rightarrow>
          if 1500 < 20 + length payload then None
          else ip_send dest_ip 6
            (tcp_segment (ip_addr (the_iface s k)) dest_ip src_port dest_port seq ack flags payload) s)"

section \<open>The one's complement sum of RFC 1071\<close>

text \<open>The representative of a sum modulo 65535 that the end-around carry computes.\<close>

definition ones16 :: "nat \<Rightarrow> nat" where
  "ones16 n = (if n = 0 then 0 else (n - 1) mod 65535 + 1)"

fun words_le :: "bytes \<Rightarrow> nat" where
  "words_le (a # b # r) = unat a + 256 * unat b + words_le r"
| "words_le [a] = unat a"
| "words_le [] = 0"

fun words_be :: "bytes \<Rightarrow> nat" where
  "words_be (a # b # r) = 256 * unat a + unat b + words_be r"
| "words_be [a] = 256 * unat a"
| "words_be [] = 0"

lemma ones16_small [wire]: "0 < n \<Longrightarrow> n \<le> 65535 \<Longrightarrow> ones16 n = n"
  by (simp add: ones16_def)

lemma ones16_add [wire]: "0 < n \<Longrightarrow> ones16 (n + 65535) = ones16 n"
proof -
  assume "0 < n"
  then have "n + 65535 - 1 = (n - 1) + 65535"
    by simp
  then have "(n + 65535 - 1) mod 65535 = (n - 1) mod 65535"
    by (simp only: mod_add_self2)
  with \<open>0 < n\<close> show ?thesis
    unfolding ones16_def by (simp only: if_False neq0_conv add_is_0) auto
qed

lemma ones16_mult: "0 < n \<Longrightarrow> ones16 (n + 65535 * k) = ones16 n"
  by (induction k) (use ones16_add [of "n + 65535 * _"] in \<open>simp_all add: algebra_simps\<close>)

lemma ones16_carry: "ones16 (n mod 65536 + n div 65536) = ones16 n"
proof (cases "n = 0")
  case False
  then have pos: "0 < n mod 65536 + n div 65536"
    using mult_div_mod_eq [of 65536 n] by (metis add_gr_0 mult_is_0 neq0_conv add_0)
  have "n = n mod 65536 + n div 65536 + 65535 * (n div 65536)"
    using mult_div_mod_eq [of 65536 n] by linarith
  then show ?thesis
    using ones16_mult [OF pos, of "n div 65536"] by simp
qed simp

lemma pos_mod_bound_nat: "(n :: nat) mod 65535 + 1 \<le> 65535"
  using mod_less_divisor [of 65535 n] by linarith

lemma ones16_le: "ones16 n \<le> 65535"
  using pos_mod_bound_nat [of "n - 1"] by (auto simp: ones16_def)

lemma byte_bounds: "unat (a :: u8) \<le> 255"
  using unat_u8_less [of a] by linarith

lemma words_le_bound: "words_le d \<le> 65535 * length d"
proof (induction d rule: words_le.induct)
  case (1 a b r)
  then show ?case using byte_bounds [of a] byte_bounds [of b] by simp
next
  case (2 a)
  show ?case using byte_bounds [of a] by simp
qed simp

lemma words_be_bound: "words_be d \<le> 65535 * length d"
proof (induction d rule: words_be.induct)
  case (1 a b r)
  then show ?case using byte_bounds [of a] byte_bounds [of b] by simp
next
  case (2 a)
  show ?case using byte_bounds [of a] by simp
qed simp

lemma add_mod_small: "a + b + c < m \<Longrightarrow> ((a + b mod m) mod m + c) mod m = a + b + (c :: nat)"
  by simp

lemma unat_ucast_join: "unat (ucast (join16 a b) :: u32) = 256 * unat a + unat b"
  by (simp add: unat_join16 [symmetric] unsigned_ucast_eq take_bit_eq_mod order.strict_trans [OF unat_u16_less])

lemma unat_le_sum: "unat acc + words_le d < 4294967296 \<Longrightarrow> unat (le_sum d acc) = unat acc + words_le d"
proof (induction d acc rule: le_sum.induct)
  case (1 a b r acc)
  have "unat (acc + ucast (join16 b a)) = unat acc + (256 * unat b + unat a)"
    using 1(2) by (subst unat_add_lem [THEN iffD1]) (simp_all add: unat_ucast_join)
  with 1 show ?case
    by simp
next
  case (2 a acc)
  then show ?case
    by (subst le_sum.simps, subst unat_add_lem [THEN iffD1]) (simp_all add: unsigned_ucast_eq take_bit_eq_mod order.strict_trans [OF unat_u8_less])
qed simp

lemma unat_be_sum: "unat acc + words_be d < 4294967296 \<Longrightarrow> unat (be_sum d acc) = unat acc + words_be d"
proof (induction d acc rule: be_sum.induct)
  case (1 a b r acc)
  have "unat (acc + ucast (join16 a b)) = unat acc + (256 * unat a + unat b)"
    using 1(2) by (subst unat_add_lem [THEN iffD1]) (simp_all add: unat_ucast_join)
  with 1 show ?case
    by simp
next
  case (2 a acc)
  then show ?case
    by (subst be_sum.simps, subst unat_add_lem [THEN iffD1]) (simp_all add: unat_ucast_join)
qed simp

lemma unat_fold_once:
  fixes n :: u32
  defines "s \<equiv> drop_bit 16 n + (n AND 0xFFFF)"
  shows "unat (ucast (s + drop_bit 16 s) :: u16) = ones16 (unat n)"
proof -
  define a where "a = unat n mod 65536 + unat n div 65536"
  have s: "unat s = a"
    unfolding s_def a_def by (subst add.commute) (rule unat_fold16_step)
  have "unat n < 4294967296"
    by (rule unat_u32_less)
  then have a: "a \<le> 131070"
    unfolding a_def by linarith
  have *: "(a + a div 65536) mod 4294967296 mod 65536 = ones16 a"
  proof (cases "a < 65536")
    case True
    then show ?thesis
      by (cases "a = 0") (simp_all add: ones16_small ones16_def)
  next
    case False
    then have "a div 65536 = 1"
      using a by simp
    moreover have "ones16 (a - 65535 + 65535) = ones16 (a - 65535)"
      using False by (intro ones16_add) simp
    ultimately show ?thesis
      using False a by (simp add: ones16_small mod_if)
  qed
  have "unat (ucast (s + drop_bit 16 s) :: u16) = (a + a div 65536) mod 4294967296 mod 65536"
    by (simp add: unsigned_ucast_eq take_bit_eq_mod unat_word_ariths unat_high16 s)
  also have "\<dots> = ones16 (unat n)"
    using * ones16_carry [of "unat n"] by (simp only: a_def)
  finally show ?thesis .
qed

lemma ucast_NOT: "(ucast (NOT w) :: u16) = NOT (ucast (w :: u32))"
  by (rule bit_word_eqI) (auto simp: bit_simps)

lemma ip_checksum_eq:
  "length d < 65536 \<Longrightarrow> ip_checksum d = NOT (of_nat (ones16 (words_le d)))"
proof -
  assume "length d < 65536"
  then have "unat (le_sum d 0) = words_le d"
    using words_le_bound [of d] by (subst unat_le_sum) simp_all
  then have "ucast (drop_bit 16 (le_sum d 0) + (le_sum d 0 AND 0xFFFF)
      + drop_bit 16 (drop_bit 16 (le_sum d 0) + (le_sum d 0 AND 0xFFFF))) = (of_nat (ones16 (words_le d)) :: u16)"
    using unat_fold_once [of "le_sum d 0"] by (metis of_nat_unat ucast_id)
  then show ?thesis
    by (simp add: ip_checksum_def Let_def ucast_NOT)
qed

lemma words_le_append: "even (length a) \<Longrightarrow> words_le (a @ b) = words_le a + words_le b"
  by (induction a rule: words_le.induct) simp_all

lemma words_be_append: "even (length a) \<Longrightarrow> words_be (a @ b) = words_be a + words_be b"
  by (induction a rule: words_be.induct) simp_all

lemma words_put16: "words_le (put16le w) = unat w" "words_be (put16be w) = unat w"
proof -
  have "unat (join16 (ucast (drop_bit 8 w)) (ucast w)) = unat w"
    by simp
  then show "words_le (put16le w) = unat w" "words_be (put16be w) = unat w"
    unfolding unat_join16 by (simp_all add: put16le_def put16be_def)
qed

lemma words_zero: "words_le [0, 0] = 0" "words_be [0, 0] = 0"
  by simp_all

lemma unat_NOT_ones: "n \<le> 65535 \<Longrightarrow> unat (NOT (of_nat n) :: u16) = 65535 - n"
proof -
  assume "n \<le> 65535"
  have "NOT (of_nat n :: u16) = - 1 - of_nat n"
    by (simp add: not_eq_complement)
  also have "\<dots> = of_nat (65535 - n)"
    using \<open>n \<le> 65535\<close> by (simp add: of_nat_diff)
  finally have *: "NOT (of_nat n :: u16) = of_nat (65535 - n)" .
  have "unat (of_nat m :: u16) = m" if "m \<le> 65535" for m
    using that by (simp add: unat_of_nat)
  then show ?thesis
    unfolding * by simp
qed

text \<open>Adding the complement of the sum makes the sum the representative of zero.\<close>

lemma ones16_complement: "ones16 (n + (65535 - ones16 n)) = 65535"
proof (cases "n = 0")
  case False
  define q where "q = (n - 1) div 65535"
  have "n - 1 = 65535 * q + (n - 1) mod 65535"
    unfolding q_def by (rule mult_div_mod_eq [symmetric])
  then have "n = ones16 n + 65535 * q"
    using False by (simp add: ones16_def)
  then have "n + (65535 - ones16 n) = 65535 + 65535 * q"
    using ones16_le [of n] by linarith
  then show ?thesis
    using ones16_mult [of 65535 q] ones16_small [of 65535] by (simp only:)
qed (simp add: ones16_def)

lemma ip_checksum_verifies:
  assumes "even (length a)" and "length a + length b < 65534"
  shows "ip_checksum (a @ put16le (ip_checksum (a @ [0, 0] @ b)) @ b) = 0"
proof -
  define n where "n = words_le a + words_le b"
  have "words_le (a @ [0, 0] @ b) = n"
    using assms by (simp add: words_le_append n_def)
  then have "unat (ip_checksum (a @ [0, 0] @ b)) = 65535 - ones16 n"
    using assms by (simp add: ip_checksum_eq unat_NOT_ones ones16_le)
  moreover have "words_le (a @ put16le w @ b) = n + unat w" for w
    using assms by (simp add: words_le_append words_put16 n_def)
  ultimately have "ones16 (words_le (a @ put16le (ip_checksum (a @ [0, 0] @ b)) @ b)) = 65535"
    by (simp add: ones16_complement)
  then show ?thesis
    using assms by (subst ip_checksum_eq) simp_all
qed

lemma unat_fold16: "unat (fold16 s) = ones16 (unat s)"
proof (induction s rule: fold16.induct)
  case (1 s)
  show ?case
  proof (cases "drop_bit 16 s = 0")
    case True
    then have "unat s div 65536 = 0"
      by (simp flip: unat_high16)
    then have "unat s \<le> 65535"
      by linarith
    then have "unat s = ones16 (unat s)"
      by (cases "unat s = 0") (auto simp: ones16_small ones16_def)
    then show ?thesis
      using True by (subst fold16.simps) simp
  next
    case False
    then have "unat (fold16 s) = ones16 (unat ((s AND 0xFFFF) + drop_bit 16 s))"
      using 1 by (subst fold16.simps) simp
    then show ?thesis
      unfolding unat_fold16_step ones16_carry .
  qed
qed

lemma tcp_checksum_eq:
  assumes "length d < 60000"
  shows "tcp_checksum src dst d =
    put16be (NOT (of_nat (ones16 (words_be (pseudo_header src dst (of_nat (length d))) + words_be d))))"
proof -
  let ?p = "pseudo_header src dst (of_nat (length d))"
  let ?w = "be_sum d (be_sum ?p 0)"
  have "length ?p = 12"
    by (simp add: pseudo_header_def)
  then have "unat (be_sum ?p 0) = words_be ?p" "words_be ?p \<le> 65535 * 12"
    using words_be_bound [of ?p] by (auto simp: unat_be_sum)
  then have "unat ?w = words_be ?p + words_be d"
    using words_be_bound [of d] assms by (simp add: unat_be_sum)
  then have "unat (fold16 ?w) = ones16 (words_be ?p + words_be d)"
    by (simp add: unat_fold16)
  then have "fold16 ?w = of_nat (ones16 (words_be ?p + words_be d))"
    by (metis of_nat_unat ucast_id)
  then have "ucast (fold16 ?w) = (of_nat (ones16 (words_be ?p + words_be d)) :: u16)"
    using ones16_le by (simp add: word_unat_eq_iff unsigned_ucast_eq unat_of_nat take_bit_eq_mod le_imp_less_Suc mod_mod_cancel)
  then show ?thesis
    by (simp add: tcp_checksum_def Let_def ucast_NOT)
qed

lemma be_check_verifies:
  assumes "even (length a)" and "length a + length b < 50000"
    and ck: "ck = tcp_checksum src dst (a @ [0, 0] @ b)"
  shows "fold16 (be_sum (a @ ck @ b) (be_sum (pseudo_header src dst (of_nat (length (a @ ck @ b)))) 0)) = 0xFFFF"
proof -
  let ?p = "pseudo_header src dst (of_nat (length (a @ [0, 0] @ b)))"
  define n where "n = words_be ?p + (words_be a + words_be b)"
  have "length ?p = 12"
    by (simp add: pseudo_header_def)
  then have p: "unat (be_sum ?p 0) = words_be ?p" "words_be ?p \<le> 65535 * 12"
    using words_be_bound [of ?p] by (auto simp: unat_be_sum)
  have ck: "ck = put16be (NOT (of_nat (ones16 n)))"
    unfolding assms(3) using assms(1,2) by (subst tcp_checksum_eq) (simp_all add: words_be_append n_def)
  then have len: "length (a @ ck @ b) = length (a @ [0, 0] @ b)"
    by simp
  have "words_be (a @ ck @ b) = words_be a + (65535 - ones16 n) + words_be b"
    using assms(1) ones16_le [of n] by (simp add: ck words_be_append words_put16 unat_NOT_ones [OF ones16_le])
  then have "unat (be_sum (a @ ck @ b) (be_sum ?p 0)) = n + (65535 - ones16 n)"
    using words_be_bound [of a] words_be_bound [of b] assms(2) p by (subst unat_be_sum) (simp_all add: n_def)
  then have "unat (fold16 (be_sum (a @ ck @ b) (be_sum ?p 0))) = unat (0xFFFF :: u32)"
    by (simp add: unat_fold16 ones16_complement)
  then show ?thesis
    unfolding len by (simp only: word_unat_eq_iff)
qed

text \<open>
  Every IP header that \<open>ip_send\<close> builds and every echo request passes the checksum test of
  RFC 791: summed with its checksum in place it gives zero. Adding the half-words little-endian
  and folding the carry exactly twice is therefore enough.
\<close>

theorem ip_checksums_verify:
  "ip_checksum (ip_header protocol len src dst) = 0 \<and>
   ip_checksum (ping_packet (put16le (ip_checksum (ping_packet [0, 0] seq))) seq) = 0"
proof (rule conjI)
  have h: "ip_header_with ck protocol len src dst =
      ([0x45, 0] @ put16be (of_nat (20 + len)) @ [0, 0, 0, 0, 64, protocol]) @ ck @ put32be src @ put32be dst" for ck
    by (simp only: ip_header_with_def append_assoc)
  show "ip_checksum (ip_header protocol len src dst) = 0"
    unfolding ip_header_def h append_assoc [of "_ @ _" "_ @ _"]
    by (rule ip_checksum_verifies) (simp_all del: of_nat_add)
  define b :: bytes where "b = put16be 0x1234 @ put16be seq @ map of_nat [8..<64]"
  have "length b = 60"
    by (simp add: b_def)
  moreover have "ping_packet ck seq = [8, 0] @ ck @ b" for ck
    by (simp only: ping_packet_def b_def)
  ultimately show "ip_checksum (ping_packet (put16le (ip_checksum (ping_packet [0, 0] seq))) seq) = 0"
    by (simp only:) (rule ip_checksum_verifies, simp_all)
qed

text \<open>
  Every TCP segment the stack can send verifies at a receiver that follows RFC 793: the one's
  complement sum of the pseudo header and the segment is 0xFFFF.
\<close>

theorem tcp_checksum_verifies:
  fixes src dst seq ack :: u32 and sport dport :: u16 and flags :: u8
  assumes "length payload \<le> 1480"
  defines "seg \<equiv> tcp_segment src dst sport dport seq ack flags payload"
  shows "fold16 (be_sum seg (be_sum (pseudo_header src dst (of_nat (length seg))) 0)) = 0xFFFF"
proof -
  let ?a = "put16be sport @ put16be dport @ put32be seq @ put32be ack @ [0x50, flags] @ put16be 8192"
  have "seg = ?a @ tcp_checksum src dst (?a @ [0, 0] @ [0, 0] @ payload) @ [0, 0] @ payload"
    by (simp add: seg_def tcp_segment_def tcp_header_def)
  then show ?thesis
    using be_check_verifies [of ?a "[0, 0] @ payload" _ src dst] assms(1) by simp
qed

theorem tcp_checksum_verifies_witness:
  "fold16 (be_sum (tcp_segment 1 2 3 4 5 6 7 [8]) (be_sum (pseudo_header 1 2 (of_nat (length (tcp_segment 1 2 3 4 5 6 7 [8])))) 0)) = 0xFFFF"
  by (rule tcp_checksum_verifies) simp

section \<open>What the ARP cache remembers\<close>

text \<open>The valid entries come first.\<close>

definition arp_wf :: "arp_entry list \<Rightarrow> bool" where
  "arp_wf c \<longleftrightarrow> c \<noteq> [] \<and> list_all (\<lambda>e. \<not> arp_valid e) (dropWhile arp_valid c)"

lemma arp_put_None: "arp_put e c = None \<longleftrightarrow> list_all arp_valid c"
  by (induction c) auto

lemma arp_find_invalid: "list_all (\<lambda>e. \<not> arp_valid e) c \<Longrightarrow> arp_find ip c = None"
  by (induction c) auto

lemma arp_put_find:
  "arp_put e c = Some c' \<Longrightarrow> arp_valid e \<Longrightarrow> list_all (\<lambda>e. \<not> arp_valid e) (dropWhile arp_valid c) \<Longrightarrow>
   list_all (\<lambda>e. \<not> arp_valid e) (dropWhile arp_valid c') \<and> length c' = length c \<and>
   arp_find ip c' = (case arp_find ip c of Some m \<Rightarrow> Some m | None \<Rightarrow> if ip = arp_ip e then Some (arp_mac e) else None)"
proof (induction c arbitrary: c')
  case (Cons x c)
  show ?case
  proof (cases "arp_valid x")
    case True
    then obtain d where "arp_put e c = Some d" "c' = x # d"
      using Cons.prems(1) by auto
    with True Cons show ?thesis
      by auto
  next
    case False
    then have inv: "list_all (\<lambda>e. \<not> arp_valid e) c"
      using Cons.prems(3) by simp
    then have "dropWhile arp_valid c = c"
      by (cases c) auto
    with False inv Cons.prems show ?thesis
      by (auto simp: arp_find_invalid)
  qed
qed simp

text \<open>
  Adding to the ARP cache. While there is a free slot every address keeps the MAC it was
  first seen with, a later announcement for it is ignored; a new address resolves to the
  announced MAC. When the cache is full, the entry in slot 0 is forgotten for the new one.
\<close>

theorem arp_add_resolve:
  assumes "arp_wf (arp_cache s)"
  shows "arp_wf (arp_cache (arp_add_entry ip mac s)) \<and>
    arp_resolve q (arp_add_entry ip mac s) =
      (if list_all arp_valid (arp_cache s)
       then if q = ip then Some mac else arp_find q (tl (arp_cache s))
       else case arp_resolve q s of
         Some m \<Rightarrow> Some m
       | None \<Rightarrow> if q = ip then Some mac else None)"
proof (cases "arp_put \<lparr>arp_ip = ip, arp_mac = mac, arp_valid = True\<rparr> (arp_cache s)")
  case None
  then have "list_all arp_valid (arp_cache s)"
    unfolding arp_put_None .
  moreover from this have "list_all arp_valid (tl (arp_cache s))"
    by (cases "arp_cache s") auto
  then have "dropWhile arp_valid (tl (arp_cache s)) = []"
    by (simp add: list_all_iff)
  ultimately show ?thesis
    using assms None by (cases "arp_cache s") (auto simp: arp_add_entry_def arp_resolve_def arp_wf_def)
next
  case (Some c)
  then have "\<not> list_all arp_valid (arp_cache s)"
    using arp_put_None by (metis option.distinct(1))
  with Some assms show ?thesis
    using arp_put_find [OF Some, of q]
    by (auto simp: arp_add_entry_def arp_resolve_def arp_wf_def split: option.splits)
qed

theorem arp_add_resolve_witness:
  "arp_resolve 7 (arp_add_entry 7 [1, 2, 3, 4, 5, 6] (boot_net ())) = Some [1, 2, 3, 4, 5, 6]"
proof -
  let ?t = "boot_net ()"
  define c where "c = arp_cache ?t"
  have c: "c = replicate 16 \<lparr>arp_ip = 0, arp_mac = replicate 6 0, arp_valid = False\<rparr>"
    by (simp add: c_def boot_net_def)
  have "arp_wf c" "arp_find 7 c = None" "\<not> list_all arp_valid c"
    unfolding c by (simp_all add: arp_wf_def numeral_eq_Suc)
  then show ?thesis
    using arp_add_resolve [of ?t 7 "[1, 2, 3, 4, 5, 6]" 7] by (simp add: arp_resolve_def flip: c_def)
qed

end
