(* ===== verification/Dhcp.thy ===== *)
theory Dhcp
  imports NetBase
begin

text \<open>
  The DHCP client, \<open>src/src/dhcp_client.c\<close>: building the DISCOVER broadcast, and processing an
  answer. A received packet is the memory from its first byte on; \<open>None\<close> is an access behind it.
\<close>

section \<open>DISCOVER\<close>

definition dhcp_init :: "'d net \<Rightarrow> int \<times> 'd net" where
  "dhcp_init s = (0, s\<lparr>dhcp_xid := 0x12345678\<rparr>)"

definition dhcp_add_option :: "bytes \<Rightarrow> nat \<Rightarrow> u8 \<Rightarrow> bytes \<Rightarrow> (bytes \<times> nat) option" where
  "dhcp_add_option options offset code data =
     do { opts \<leftarrow> wrn options offset (code # of_nat (length data) # data);
          Some (opts, offset + 2 + length data) }"

definition discover_ip_header :: "bytes \<Rightarrow> bytes" where
  "discover_ip_header ck = [0x45, 0] @ put16be (20 + 8 + 552) @ put16be 0x1234 @ [0, 0, 64, 17] @ ck
     @ replicate 4 0 @ replicate 4 0xFF"

definition discover_body :: "u32 \<Rightarrow> bytes \<Rightarrow> bytes \<Rightarrow> bytes" where
  "discover_body xid mac options =
     [1, 1, 6, 0] @ put32be xid @ [0, 0] @ put16be 0x8000 @ replicate 16 0
       @ mac @ replicate 10 0 @ replicate 192 0 @ put32be 0x63825363 @ options"

definition dhcp_discover :: "nat \<Rightarrow> 'd net \<Rightarrow> (int \<times> 'd net) option" where
  "dhcp_discover k s =
     do {
       (options, opt_offset) \<leftarrow> dhcp_add_option (replicate 312 0) 0 53 [1];
       options \<leftarrow> wrn options opt_offset [255];
       let mac = mac_addr (the_iface s k);
           ck = put16be (ucast (NOT (fold16 (be_sum (discover_ip_header [0, 0]) 0))));
           packet = eth_header (replicate 6 0xFF) mac 0x0800 @ discover_ip_header ck
             @ put16be 68 @ put16be 67 @ put16be (8 + 552) @ [0, 0]
             @ discover_body (dhcp_xid s) mac options
       in Some (netif_send k packet s) }"

section \<open>Answers\<close>

record dhcp_acc =
  msg_type :: u8
  subnet :: u32
  router :: u32
  dns :: u32
  server_id :: u32

text \<open>The switch over one option whose value starts at \<open>p\<close>.\<close>

definition dhcp_option :: "bytes \<Rightarrow> nat \<Rightarrow> u8 \<Rightarrow> dhcp_acc \<Rightarrow> dhcp_acc option" where
  "dhcp_option packet p opt a =
     (if opt = 53 then map_option (\<lambda>v. a\<lparr>msg_type := v\<rparr>) (rd8 packet p)
      else if opt = 54 then map_option (\<lambda>v. a\<lparr>server_id := v\<rparr>) (rd32le packet p)
      else if opt = 1 then map_option (\<lambda>v. a\<lparr>subnet := v\<rparr>) (rd32be packet p)
      else if opt = 3 then map_option (\<lambda>v. a\<lparr>router := v\<rparr>) (rd32be packet p)
      else if opt = 6 then map_option (\<lambda>v. a\<lparr>dns := v\<rparr>) (rd32be packet p)
      else Some a)"

text \<open>The options start at byte 240; the loop is bounded by their 312 bytes, not by the packet.\<close>

function dhcp_options :: "bytes \<Rightarrow> nat \<Rightarrow> dhcp_acc \<Rightarrow> dhcp_acc option" where
  "dhcp_options packet i a =
     (if i < 312 then
        do {
          opt \<leftarrow> rd8 packet (240 + i);
          if opt = 255 then Some a
          else if opt = 0 then dhcp_options packet (i + 1) a
          else do {
            opt_len \<leftarrow> rd8 packet (240 + (i + 1));
            a \<leftarrow> dhcp_option packet (240 + (i + 2)) opt a;
            dhcp_options packet (i + 2 + unat opt_len) a } }
      else Some a)"
  by pat_completeness auto
termination
  by (relation "measure (\<lambda>(_, i, _). 312 - i)") auto

declare dhcp_options.simps [simp del]

definition dhcp_process :: "nat \<Rightarrow> bytes \<Rightarrow> u32 \<Rightarrow> 'd net \<Rightarrow> (int \<times> 'd net) option" where
  "dhcp_process k packet len s =
     (if len < 240 then Some (-1, s)
      else do {
        got_xid \<leftarrow> rd32be packet 4;
        if got_xid \<noteq> dhcp_xid s then Some (0, s)
        else do {
          a \<leftarrow> dhcp_options packet 0 \<lparr>msg_type = 0, subnet = 0, router = 0, dns = 0, server_id = server_ip s\<rparr>;
          let s = s\<lparr>server_ip := server_id a\<rparr>;
          if msg_type a = 2
          then do {
            yiaddr \<leftarrow> rd32be packet 16;
            let s = s\<lparr>offered_ip := yiaddr\<rparr>;
                host_subnet = (if subnet a \<noteq> 0 then subnet a else 0x00FFFFFF);
                host_router = (if router a \<noteq> 0 then router a else 0);
                host_dns = (if dns a \<noteq> 0 then dns a else 0x08080808)
            in Some (1, netif_set_ip k yiaddr host_subnet host_router host_dns s) }
          else Some (0, s) } })"

section \<open>Well-formed option lists\<close>

text \<open>The options as RFC 2132 encodes them, and what a list of them says.\<close>

fun enc_options :: "(u8 \<times> bytes) list \<Rightarrow> bytes" where
  "enc_options [] = []"
| "enc_options ((code, d) # os) = code # of_nat (length d) # d @ enc_options os"

definition option_ok :: "u8 \<times> bytes \<Rightarrow> bool" where
  "option_ok od \<longleftrightarrow> fst od \<noteq> 0 \<and> fst od \<noteq> 255 \<and> length (snd od) < 256 \<and>
     (fst od = 53 \<longrightarrow> snd od \<noteq> []) \<and> (fst od \<in> {54, 1, 3, 6} \<longrightarrow> 4 \<le> length (snd od))"

definition addr_of :: "bytes \<Rightarrow> u32" where
  "addr_of d = join32 (d ! 0) (d ! 1) (d ! 2) (d ! 3)"

definition said :: "(u8 \<times> bytes) list \<Rightarrow> u8 \<Rightarrow> 'a \<Rightarrow> (bytes \<Rightarrow> 'a) \<Rightarrow> 'a" where
  "said os code other f = (case map_of (rev os) code of None \<Rightarrow> other | Some d \<Rightarrow> f d)"

definition apply_option :: "dhcp_acc \<Rightarrow> u8 \<times> bytes \<Rightarrow> dhcp_acc" where
  "apply_option a od = (case od of (opt, d) \<Rightarrow>
      if opt = 53 then a\<lparr>msg_type := hd d\<rparr>
      else if opt = 54 then a\<lparr>server_id := join32 (d ! 3) (d ! 2) (d ! 1) (d ! 0)\<rparr>
      else if opt = 1 then a\<lparr>subnet := addr_of d\<rparr>
      else if opt = 3 then a\<lparr>router := addr_of d\<rparr>
      else if opt = 6 then a\<lparr>dns := addr_of d\<rparr>
      else a)"

lemma said_Nil [simp]: "said [] code x f = x"
  by (simp add: said_def)

lemma said_snoc [simp]: "said (os @ [(c, d)]) code x f = (if c = code then f d else said os code x f)"
  by (simp add: said_def)

lemma apply_fields:
  "msg_type (apply_option a (c, d)) = (if c = 53 then hd d else msg_type a)"
  "subnet (apply_option a (c, d)) = (if c = 1 then addr_of d else subnet a)"
  "router (apply_option a (c, d)) = (if c = 3 then addr_of d else router a)"
  "dns (apply_option a (c, d)) = (if c = 6 then addr_of d else dns a)"
  by (simp_all add: apply_option_def)

lemma fold_options:
  "msg_type (foldl apply_option a os) = said os 53 (msg_type a) hd"
  "subnet (foldl apply_option a os) = said os 1 (subnet a) addr_of"
  "router (foldl apply_option a os) = said os 3 (router a) addr_of"
  "dns (foldl apply_option a os) = said os 6 (dns a) addr_of"
proof (induction os rule: rev_induct)
  case (snoc od os)
  obtain c d where "od = (c, d)"
    by fastforce
  with snoc show "msg_type (foldl apply_option a (os @ [od])) = said (os @ [od]) 53 (msg_type a) hd"
    "subnet (foldl apply_option a (os @ [od])) = said (os @ [od]) 1 (subnet a) addr_of"
    "router (foldl apply_option a (os @ [od])) = said (os @ [od]) 3 (router a) addr_of"
    "dns (foldl apply_option a (os @ [od])) = said (os @ [od]) 6 (dns a) addr_of"
    by (simp_all add: apply_fields)
qed simp_all

lemma option_at:
  assumes "option_ok (c, d)" and "packet = h @ d @ t" and "length h = p"
  shows "dhcp_option packet p c a = Some (apply_option a (c, d))"
proof -
  have nth: "packet ! (p + j) = d ! j" if "j < length d" for j
    using that assms by (simp add: nth_append)
  have len: "p + length d \<le> length packet"
    using assms by simp
  show ?thesis
  proof (cases "c \<in> {54, 1, 3, 6}")
    case True
    then have "4 \<le> length d"
      using assms(1) by (simp add: option_ok_def)
    then have le: "p + 4 \<le> length packet" and lt: "0 < length d" "1 < length d" "2 < length d" "3 < length d"
      using len by linarith+
    have "packet ! p = d ! 0"
      using nth [OF lt(1)] by simp
    then have "rd32be packet p = Some (addr_of d)" "rd32le packet p = Some (join32 (d ! 3) (d ! 2) (d ! 1) (d ! 0))"
      unfolding rd32be_def rd32le_def addr_of_def if_P [OF le] nth [OF lt(2)] nth [OF lt(3)] nth [OF lt(4)]
      by simp_all
    with True show ?thesis
      by (auto simp: dhcp_option_def apply_option_def)
  next
    case False
    have "rd8 packet p = Some (hd d)" if "d \<noteq> []"
      using that nth [of 0] len by (cases d) (simp_all add: rd8_def)
    with False assms(1) show ?thesis
      by (simp add: dhcp_option_def apply_option_def option_ok_def)
  qed
qed

lemma dhcp_options_enc:
  assumes "\<forall>od \<in> set os. option_ok od" and "packet = h @ enc_options os @ 255 # t"
    and "length h = 240 + i" and "i + length (enc_options os) < 312"
  shows "dhcp_options packet i a = Some (foldl apply_option a os)"
  using assms
proof (induction os arbitrary: h i a)
  case Nil
  then show ?case
    by (subst dhcp_options.simps) (simp add: rd8_def nth_append)
next
  case (Cons od os)
  obtain c d where od: "od = (c, d)"
    by fastforce
  let ?h = "h @ c # of_nat (length d) # d"
  have ok: "option_ok (c, d)"
    using Cons.prems od by simp
  have "packet = (h @ [c, of_nat (length d)]) @ d @ (enc_options os @ 255 # t)"
    using Cons.prems od by simp
  then have "dhcp_option packet (240 + (i + 2)) c a = Some (apply_option a (c, d))"
    by (rule option_at [OF ok]) (simp add: Cons.prems(3))
  moreover have "dhcp_options packet (i + 2 + length d) b = Some (foldl apply_option b os)" for b
    using Cons.prems od by (intro Cons.IH [of ?h]) simp_all
  moreover have "rd8 packet (240 + i) = Some c" "rd8 packet (240 + (i + 1)) = Some (of_nat (length d))"
    using Cons.prems od by (simp_all add: rd8_def nth_append)
  moreover have "c \<noteq> 0" "c \<noteq> 255" "unat (of_nat (length d) :: u8) = length d"
    using ok by (simp_all add: option_ok_def unat_of_nat)
  ultimately show ?case
    using Cons.prems od by (subst dhcp_options.simps) simp
qed

section \<open>Configuring the interface\<close>

text \<open>An address the options name, or the code's default when it is absent or zero.\<close>

definition addr_or :: "(u8 \<times> bytes) list \<Rightarrow> u8 \<Rightarrow> u32 \<Rightarrow> u32" where
  "addr_or os code other = (let v = said os code 0 addr_of in if v \<noteq> 0 then v else other)"

definition same_but_config :: "nat \<Rightarrow> 'd net \<Rightarrow> 'd net \<Rightarrow> bool" where
  "same_but_config k s s' \<longleftrightarrow> tcb s' = tcb s \<and> arp_cache s' = arp_cache s \<and> dev s' = dev s \<and>
     dhcp_xid s' = dhcp_xid s \<and> last_dns_ip s' = last_dns_ip s \<and>
     (\<forall>j. j \<noteq> k \<longrightarrow> the_iface s' j = the_iface s j)"

lemma rd32be_append: "rd32be h i = Some v \<Longrightarrow> rd32be (h @ t) i = Some v"
  by (auto simp: rd32be_def nth_append split: if_splits)

lemma set_ip_fields:
  "k < length (interfaces s) \<Longrightarrow> the_iface (netif_set_ip k a b c d s) k =
     (the_iface s k)\<lparr>ip_addr := a, netmask := b, gateway := c, dns_server := d\<rparr>"
  "same_but_config k s (netif_set_ip k a b c d (s\<lparr>server_ip := v, offered_ip := w\<rparr>))"
  by (simp_all add: the_iface_def netif_set_ip_def upd_iface_def same_but_config_def)

lemma the_iface_upd:
  "the_iface (s\<lparr>server_ip := v, offered_ip := w\<rparr>) k = the_iface s k"
  by (simp add: the_iface_def)

text \<open>
  An OFFER configures the interface: whatever the order, number and content of the other
  options, it gets the offered address and the last non-zero mask, router and name server that
  the options name, and the defaults for those they do not. Nothing else of the stack changes;
  no REQUEST is sent. The default mask is 0x00FFFFFF, not the 255.255.255.0 of the comment.
\<close>

theorem dhcp_offer_configures:
  assumes "length h = 240" and "rd32be h 4 = Some (dhcp_xid s)" and "rd32be h 16 = Some yiaddr"
    and "\<forall>od \<in> set os. option_ok od" and "length (enc_options os) < 312" and "said os 53 0 hd = 2"
    and "k < length (interfaces s)" and "240 \<le> len"
  shows "\<exists>s'. dhcp_process k (h @ enc_options os @ 255 # t) len s = Some (1, s') \<and>
    the_iface s' k = (the_iface s k)\<lparr>ip_addr := yiaddr, netmask := addr_or os 1 0x00FFFFFF,
      gateway := addr_or os 3 0, dns_server := addr_or os 6 0x08080808\<rparr> \<and> same_but_config k s s'"
proof -
  let ?a = "\<lparr>msg_type = 0, subnet = 0, router = 0, dns = 0, server_id = server_ip s\<rparr>"
  have "dhcp_options (h @ enc_options os @ 255 # t) 0 ?a = Some (foldl apply_option ?a os)"
    using assms by (intro dhcp_options_enc [of _ _ h t]) simp_all
  then have "dhcp_process k (h @ enc_options os @ 255 # t) len s =
      Some (1, netif_set_ip k yiaddr (addr_or os 1 0x00FFFFFF) (addr_or os 3 0) (addr_or os 6 0x08080808)
        (s\<lparr>server_ip := server_id (foldl apply_option ?a os), offered_ip := yiaddr\<rparr>))"
    using assms by (simp add: dhcp_process_def rd32be_append fold_options addr_or_def Let_def not_less [symmetric])
  then show ?thesis
    using assms(7) by (auto simp: set_ip_fields(1) the_iface_upd intro: set_ip_fields(2))
qed

definition offer_header :: bytes where
  "offer_header = [2, 1, 6, 0] @ [0x12, 0x34, 0x56, 0x78] @ replicate 8 0 @ [10, 0, 2, 15] @ replicate 220 0"

theorem dhcp_offer_configures_witness:
  "\<exists>s'. dhcp_process 0 (offer_header @ enc_options [(3, [10, 0, 2, 2]), (53, [2])] @ [255]) 300 (boot_net ()) = Some (1, s') \<and>
    ip_addr (the_iface s' 0) = 0x0A00020F \<and> gateway (the_iface s' 0) = 0x0A000202 \<and> netmask (the_iface s' 0) = 0x00FFFFFF"
proof -
  have "rd32be offer_header 4 = Some (dhcp_xid (boot_net ()))" "rd32be offer_header 16 = Some 0x0A00020F"
    by (simp_all add: offer_header_def rd32be_def boot_net_def join32_def nth_append nth_Cons')
  moreover have "length offer_header = 240" "0 < length (interfaces (boot_net ()))"
    by (simp_all add: offer_header_def boot_net_def)
  ultimately have "\<exists>s'. dhcp_process 0 (offer_header @ enc_options [(3, [10, 0, 2, 2]), (53, [2])] @ 255 # []) 300 (boot_net ()) = Some (1, s') \<and>
    the_iface s' 0 = (the_iface (boot_net ()) 0)\<lparr>ip_addr := 0x0A00020F, netmask := addr_or [(3, [10, 0, 2, 2]), (53, [2])] 1 0x00FFFFFF,
      gateway := addr_or [(3, [10, 0, 2, 2]), (53, [2])] 3 0, dns_server := addr_or [(3, [10, 0, 2, 2]), (53, [2])] 6 0x08080808\<rparr> \<and>
    same_but_config 0 (boot_net ()) s'"
    by (intro dhcp_offer_configures) (simp_all add: option_ok_def said_def)
  then show ?thesis
    by (auto simp: addr_or_def said_def addr_of_def join32_def)
qed

text \<open>
  The DISCOVER broadcast is one frame of 594 bytes whose IP header passes the checksum test of
  the stack's own receiver, although it is summed in the other byte order, and whose options
  read back as the single message type 1.
\<close>

theorem dhcp_discover_wellformed:
  assumes "length (mac_addr (the_iface s k)) = 6"
  shows "\<exists>frame. dhcp_discover k s = Some (netif_send k frame s) \<and> length frame = 594 \<and>
    ip_checksum (take 20 (drop 14 frame)) = 0 \<and> rd32be (drop 42 frame) 4 = Some (dhcp_xid s) \<and>
    dhcp_options (drop 42 frame) 0 a = Some (a\<lparr>msg_type := 1\<rparr>)"
proof -
  let ?m = "mac_addr (the_iface s k)"
  define ck where "ck = put16be (ucast (NOT (fold16 (be_sum (discover_ip_header [0, 0]) 0))))"
  define hdr where "hdr = eth_header (replicate 6 0xFF) ?m 0x0800"
  define b where "b = discover_ip_header ck"
  define u :: bytes where "u = put16be 68 @ put16be 67 @ put16be (8 + 552) @ [0, 0]"
  define h where "h = [1, 1, 6, 0] @ put32be (dhcp_xid s) @ [0, 0] @ put16be 0x8000 @ replicate 16 0
       @ ?m @ replicate 10 0 @ replicate 192 0 @ put32be 0x63825363"
  define rest where "rest = replicate 308 (0 :: u8)"
  let ?frame = "hdr @ b @ u @ h @ enc_options [(53, [1])] @ 255 # rest"
  have len: "length hdr = 14" "length b = 20" "length u = 8" "length h = 240"
    using assms by (simp_all add: hdr_def eth_header_def b_def ck_def discover_ip_header_def u_def h_def)
  have "wrn (replicate 312 0) 0 [53, 1, 1] = Some ([53, 1, 1] @ replicate 309 (0 :: u8))"
    "wrn ([53, 1, 1] @ replicate 309 (0 :: u8)) (Suc (Suc (Suc 0))) [255] = Some ([53, 1, 1] @ 255 # rest)"
    by (simp_all add: wrn_def rest_def)
  then have "dhcp_discover k s = Some (netif_send k ?frame s)"
    by (simp add: dhcp_discover_def dhcp_add_option_def discover_body_def hdr_def b_def ck_def u_def h_def Let_def)
  moreover have "length ?frame = 594"
    using len by (simp add: rest_def)
  moreover have "take 20 (drop 14 ?frame) = b" "drop 42 ?frame = h @ enc_options [(53, [1])] @ 255 # rest"
    using len by simp_all
  moreover have "ip_checksum b = 0"
    unfolding b_def ck_def by code_simp
  moreover have "rd32be h 4 = Some (dhcp_xid s)"
    by (simp add: h_def rd32be_def put32be_def nth_append nth_Cons')
  moreover have "dhcp_options (h @ enc_options [(53, [1])] @ 255 # rest) 0 a = Some (a\<lparr>msg_type := 1\<rparr>)"
    using dhcp_options_enc [of "[(53, [1])]" _ h rest 0 a] len by (simp add: option_ok_def apply_option_def)
  ultimately show ?thesis
    by (metis rd32be_append)
qed

theorem dhcp_discover_wellformed_witness:
  "\<exists>frame. dhcp_discover 0 (boot_net ()) = Some (netif_send 0 frame (boot_net ())) \<and> length frame = 594"
  using dhcp_discover_wellformed [of "boot_net ()" 0] by (auto simp: boot_net_def the_iface_def)

end
