(* ===== verification/NetStack.thy ===== *)
theory NetStack
  imports Dhcp
begin

text \<open>
  The receive path and the sockets of \<open>src/src/tcp_ip_stack.c\<close>, and \<open>netif_poll\<close>: a frame goes
  through \<open>ip_receive\<close> to ARP, ICMP, TCP, UDP, DNS and DHCP, which may answer through the
  transmit side; the blocking calls poll until the state they wait for is reached or their spin
  count or time runs out. A spin count is a natural number the loop recurses on.

  A packet is the memory from its first byte to the end of the receive buffer, with its length
  beside it, because the code reads behind the length it checked. \<open>get_ticks\<close> is a parameter
  that reads the timer among the devices.
\<close>

section \<open>ARP and ICMP\<close>

definition arp_reply :: "bytes \<Rightarrow> u32 \<Rightarrow> bytes \<Rightarrow> bytes \<Rightarrow> bytes" where
  "arp_reply our_mac our_ip sender_mac sender_ip =
     eth_header sender_mac our_mac 0x0806 @ put16be 1 @ put16be 0x0800 @ [6, 4] @ put16be 2
       @ our_mac @ put32be our_ip @ sender_mac @ sender_ip"

definition arp_process :: "bytes \<Rightarrow> nat \<Rightarrow> 'd net \<Rightarrow> (int \<times> 'd net) option" where
  "arp_process buffer len s =
     (if len < 42 then Some (-1, s)
      else case netif_get_default s of
        None \<Rightarrow> Some (-1, s)
      | Some k \<Rightarrow>
          do {
            opcode \<leftarrow> rd16be buffer 20;
            sender_mac \<leftarrow> rdn buffer 22 6;
            sender_ip \<leftarrow> rdn buffer 28 4;
            target_ip \<leftarrow> rd32be buffer 38;
            let f = the_iface s k;
            if opcode = 1 \<and> target_ip = ip_addr f
            then Some (1, snd (netif_send k (arp_reply (mac_addr f) (ip_addr f) sender_mac sender_ip) s))
            else if opcode = 2
            then do { ip \<leftarrow> rd32be buffer 28; Some (0, arp_add_entry ip sender_mac s) }
            else Some (0, s) })"

definition icmp_process :: "bytes \<Rightarrow> nat \<Rightarrow> int option" where
  "icmp_process packet len =
     (if len < 8 then Some (-1)
      else do { type \<leftarrow> rd8 packet 0; Some (if type = 0 then 1 else 0) })"

section \<open>TCP: incoming segments\<close>

definition upd_tcb :: "(tcb \<Rightarrow> tcb) \<Rightarrow> 'd net \<Rightarrow> 'd net" where
  "upd_tcb f s = s\<lparr>tcb := f (tcb s)\<rparr>"

text \<open>Sending a control segment with the connection's numbers; the result is ignored.\<close>

definition tcp_reply :: "u8 \<Rightarrow> 'd net \<Rightarrow> 'd net option" where
  "tcp_reply flags s =
     (let t = tcb s
      in map_option snd (tcp_send_packet (remote_ip t) (remote_port t) (local_port t) (snd_nxt t) (rcv_nxt t) flags [] s))"

text \<open>The segment length is what the header leaves of the packet, modulo \<open>2 ^ 32\<close>.\<close>

definition tcp_data :: "bytes \<Rightarrow> nat \<Rightarrow> u32 \<Rightarrow> 'd net \<Rightarrow> 'd net option" where
  "tcp_data packet hdr_len seg_len s =
     (let t = tcb s
      in if 0 < seg_len \<and> rx_len t + seg_len < 16384
         then do {
           data \<leftarrow> rdn packet hdr_len (unat seg_len);
           buf \<leftarrow> wrn (rx_buffer t) (unat (rx_len t)) data;
           tcp_reply TCP_FLAG_ACK
             (upd_tcb (\<lambda>t. t\<lparr>rx_buffer := buf, rx_len := rx_len t + seg_len, has_data := True, rcv_nxt := rcv_nxt t + seg_len\<rparr>) s) }
         else Some s)"

definition tcp_dispatch :: "bytes \<Rightarrow> u32 \<Rightarrow> u32 \<Rightarrow> nat \<Rightarrow> u32 \<Rightarrow> u8 \<Rightarrow> 'd net \<Rightarrow> (int \<times> 'd net) option" where
  "tcp_dispatch packet seq ack hdr_len seg_len flags s =
     (case tcb_state (tcb s) of
        TCP_SYN_SENT \<Rightarrow>
          if flags AND TCP_FLAG_SYN \<noteq> 0 \<and> flags AND TCP_FLAG_ACK \<noteq> 0
          then do {
            s \<leftarrow> tcp_reply TCP_FLAG_ACK
              (upd_tcb (\<lambda>t. t\<lparr>rcv_nxt := seq + 1, snd_nxt := ack, tcb_state := TCP_ESTABLISHED\<rparr>) s);
            Some (1, s) }
          else Some (0, s)
      | TCP_ESTABLISHED \<Rightarrow>
          do {
            s \<leftarrow> tcp_data packet hdr_len seg_len s;
            if flags AND TCP_FLAG_FIN \<noteq> 0
            then do {
              s \<leftarrow> tcp_reply (TCP_FLAG_ACK OR TCP_FLAG_FIN) (upd_tcb (\<lambda>t. t\<lparr>rcv_nxt := rcv_nxt t + 1\<rparr>) s);
              Some (1, upd_tcb (\<lambda>t. t\<lparr>tcb_state := TCP_CLOSED\<rparr>) s) }
            else Some (0, s) }
      | _ \<Rightarrow> Some (0, s))"

definition tcp_process :: "bytes \<Rightarrow> nat \<Rightarrow> 'd net \<Rightarrow> (int \<times> 'd net) option" where
  "tcp_process packet len s =
     (if len < 20 then Some (-1, s)
      else if tcb_state (tcb s) = TCP_CLOSED then Some (0, s)
      else do {
        seq \<leftarrow> rd32be packet 4;
        ack \<leftarrow> rd32be packet 8;
        off \<leftarrow> rd8 packet 12;
        flags \<leftarrow> rd8 packet 13;
        let hdr_len = unat (drop_bit 4 off) * 4;
        let seg_len = of_nat len - of_nat hdr_len;
        tcp_dispatch packet seq ack hdr_len seg_len flags s })"

section \<open>UDP and DNS answers\<close>

text \<open>
  \<open>p < data + payload_len\<close>: the end pointer is an overflow (undefined) when the length field of
  the UDP header was below 8 and the subtraction wrapped.
\<close>

definition before_end :: "u32 \<Rightarrow> nat \<Rightarrow> bool option" where
  "before_end payload_len p = (if 0xFFFF < payload_len then None else Some (p < unat payload_len))"

function skip_labels :: "bytes \<Rightarrow> u32 \<Rightarrow> nat \<Rightarrow> nat option" where
  "skip_labels data plen p =
     do {
       b \<leftarrow> rd8 data p;
       if b \<noteq> 0
       then do { inside \<leftarrow> before_end plen p; if inside then skip_labels data plen (p + unat b + 1) else Some p }
       else Some p }"
  by pat_completeness auto
termination
  by (relation "measure (\<lambda>(data, _, p). length data - p)") (auto simp: rd8_def split: if_splits)

declare skip_labels.simps [simp del]

fun skip_questions :: "nat \<Rightarrow> bytes \<Rightarrow> u32 \<Rightarrow> nat \<Rightarrow> nat option" where
  "skip_questions 0 data plen p = Some p"
| "skip_questions (Suc n) data plen p =
     do { p \<leftarrow> skip_labels data plen p; skip_questions n data plen (p + 1 + 4) }"

fun dns_answers :: "nat \<Rightarrow> bytes \<Rightarrow> u32 \<Rightarrow> nat \<Rightarrow> 'd net \<Rightarrow> 'd net option" where
  "dns_answers 0 data plen p s = Some s"
| "dns_answers (Suc n) data plen p s =
     do {
       inside \<leftarrow> before_end plen p;
       if \<not> inside then Some s
       else do {
         b \<leftarrow> rd8 data p;
         p \<leftarrow> (if b AND 0xC0 = 0xC0 then Some (p + 2) else map_option (\<lambda>p. p + 1) (skip_labels data plen p));
         if unat plen < p + 10 then Some s
         else do {
           type \<leftarrow> rd16be data p;
           dlen \<leftarrow> rd16be data (p + 8);
           if type = 1 \<and> dlen = 4 \<and> p + 10 + 4 \<le> unat plen
           then do { ip \<leftarrow> rd32be data (p + 10); Some (s\<lparr>last_dns_ip := ip\<rparr>) }
           else dns_answers n data plen (p + 10 + unat dlen) s } } }"

definition dns_process :: "bytes \<Rightarrow> u32 \<Rightarrow> 'd net \<Rightarrow> (int \<times> 'd net) option" where
  "dns_process data payload_len s =
     (if payload_len < 12 then Some (-1, s)
      else do {
        q_count \<leftarrow> rd16be data 4;
        p \<leftarrow> skip_questions (unat q_count) data payload_len 12;
        ans_count \<leftarrow> rd16be data 6;
        s \<leftarrow> dns_answers (unat ans_count) data payload_len p s;
        Some (0, s) })"

definition udp_process :: "bytes \<Rightarrow> nat \<Rightarrow> 'd net \<Rightarrow> (int \<times> 'd net) option" where
  "udp_process packet len s =
     (if len < 8 then Some (-1, s)
      else do {
        udp_len \<leftarrow> rd16be packet 4;
        src_port \<leftarrow> rd16be packet 0;
        dst_port \<leftarrow> rd16be packet 2;
        let payload_len = ucast udp_len - 8;
        let data = drop 8 packet;
        if src_port = 67 \<and> dst_port = 68
        then (case netif_get_default s of
            Some k \<Rightarrow> dhcp_process k data payload_len s
          | None \<Rightarrow> Some (0, s))
        else if src_port = 53 then dns_process data payload_len s
        else Some (0, s) })"

section \<open>Dispatch and polling\<close>

definition ip_receive :: "bytes \<Rightarrow> nat \<Rightarrow> 'd net \<Rightarrow> (int \<times> 'd net) option" where
  "ip_receive buffer len s =
     (if len < 14 then Some (-1, s)
      else do {
        ethertype \<leftarrow> rd16be buffer 12;
        if ethertype = 0x0806 then arp_process buffer len s
        else if ethertype \<noteq> 0x0800 then Some (0, s)
        else if len < 34 then Some (-1, s)
        else do {
          protocol \<leftarrow> rd8 buffer 23;
          let payload = drop 34 buffer;
          let payload_len = len - 34;
          if protocol = 1 then map_option (\<lambda>r. (r, s)) (icmp_process payload payload_len)
          else if protocol = 6 then tcp_process payload payload_len s
          else if protocol = 17 then udp_process payload payload_len s
          else Some (0, s) } })"

definition netif_poll :: "'d net \<Rightarrow> 'd net option" where
  "netif_poll s =
     (case netif_get_default s of
        None \<Rightarrow> Some s
      | Some k \<Rightarrow>
          let (len, buf, s) = netif_receive k (frame_buf s) s;
              s = s\<lparr>frame_buf := buf\<rparr>
          in if 0 < len then map_option snd (ip_receive buf (nat len) s) else Some s)"

fun netif_polls :: "nat \<Rightarrow> 'd net \<Rightarrow> 'd net option" where
  "netif_polls 0 s = Some s"
| "netif_polls (Suc n) s = do { s \<leftarrow> netif_poll s; netif_polls n s }"

definition ticks :: "('d \<Rightarrow> u32 \<times> 'd) \<Rightarrow> 'd net \<Rightarrow> u32 \<times> 'd net" where
  "ticks get_ticks s = (let (t, d) = get_ticks (dev s) in (t, s\<lparr>dev := d\<rparr>))"

section \<open>Resolving host names\<close>

fun str_cmp :: "bytes \<Rightarrow> bytes \<Rightarrow> int" where
  "str_cmp [] b = - uint (peek b)"
| "str_cmp (c # a) b = (if c \<noteq> 0 \<and> c = peek b then str_cmp a (tl b) else uint c - uint (peek b))"

definition static_dns :: "(bytes \<times> u32) list" where
  "static_dns =
    [(lit ''httpforever.com'', 0x92BE3E27), (lit ''www.httpforever.com'', 0x92BE3E27),
     (lit ''example.com'', 0x5DB8D40E), (lit ''www.example.com'', 0x5DB8D40E),
     (lit ''httpbin.org'', 0x36F7F036), (lit ''www.httpbin.org'', 0x36F7F036),
     (lit ''google.com'', 0x8EFA7F0E), (lit ''www.google.com'', 0x8EFA7F0E),
     (lit ''localhost'', 0x0A000202), (lit ''neverssl.com'', 0x22DF7C2D),
     (lit ''www.neverssl.com'', 0x22DF7C2D), (lit ''example.org'', 0x68120218),
     (lit ''www.example.org'', 0x68120218)]"

fun find_static :: "bytes \<Rightarrow> (bytes \<times> u32) list \<Rightarrow> u32 option" where
  "find_static host [] = None"
| "find_static host ((name, ip) # es) = (if str_cmp host name = 0 then Some ip else find_static host es)"

fun ipv4_loop :: "bytes \<Rightarrow> nat \<Rightarrow> nat \<Rightarrow> bool" where
  "ipv4_loop [] dots digits \<longleftrightarrow> dots = 3 \<and> 0 < digits"
| "ipv4_loop (c # s) dots digits \<longleftrightarrow>
     (if c = 0 then dots = 3 \<and> 0 < digits
      else if is_digit8 c then ipv4_loop s dots (digits + 1)
      else if c = 0x2E then digits \<noteq> 0 \<and> ipv4_loop s (dots + 1) 0
      else False)"

definition is_ipv4_literal :: "bytes \<Rightarrow> bool" where
  "is_ipv4_literal s \<longleftrightarrow> peek s \<noteq> 0 \<and> ipv4_loop s 0 0"

fun read_part :: "bytes \<Rightarrow> u32 \<Rightarrow> u32 \<times> bytes" where
  "read_part [] part = (part, [])"
| "read_part (c # s) part =
     (if is_digit8 c then read_part s (part * 10 + (ucast c - 0x30)) else (part, c # s))"

fun parse_parts :: "nat \<Rightarrow> bytes \<Rightarrow> u32 \<Rightarrow> u32" where
  "parse_parts 0 p ip = ip"
| "parse_parts (Suc n) p ip =
     (let (part, p) = read_part p 0;
          ip = push_bit 8 ip OR (part AND 0xFF);
          p = (if peek p = 0x2E then tl p else p)
      in parse_parts n p ip)"

definition parse_ip_literal :: "bytes \<Rightarrow> u32" where
  "parse_ip_literal s = parse_parts 4 s 0"

definition dns_hostname_lower :: "bytes \<Rightarrow> nat \<Rightarrow> bytes" where
  "dns_hostname_lower s n = map lower8 (take (n - 1) (cstr s))"

text \<open>The labels of the question; \<open>None\<close> is the early return for a label above 63 bytes.\<close>

function dns_qname :: "bytes \<Rightarrow> bytes option" where
  "dns_qname p =
     (if p = [] then Some [0]
      else
        let label = takeWhile (\<lambda>c. c \<noteq> 0x2E) p;
            rest = dropWhile (\<lambda>c. c \<noteq> 0x2E) p
        in if 63 < length label then None
           else map_option (\<lambda>q. of_nat (length label) # label @ q) (dns_qname (tl rest)))"
  by pat_completeness auto
termination
proof (relation "measure length")
  fix p :: bytes and label rest
  assume "p \<noteq> []" and "rest = dropWhile (\<lambda>c. c \<noteq> 0x2E) p"
  then have "length rest \<le> length p" "0 < length p"
    by (simp_all add: length_dropWhile_le)
  then show "(tl rest, p) \<in> measure length"
    by (cases p; cases rest) simp_all
qed simp

declare dns_qname.simps [simp del]

definition dns_query :: "bytes \<Rightarrow> bytes" where
  "dns_query qname = put16be 0xCAFE @ put16be 0x0100 @ put16be 1 @ [0, 0, 0, 0, 0, 0]
     @ qname @ put16be 1 @ put16be 1"

fun dns_wait :: "('d \<Rightarrow> u32 \<times> 'd) \<Rightarrow> nat \<Rightarrow> u32 \<Rightarrow> 'd net \<Rightarrow> (u32 option \<times> 'd net) option" where
  "dns_wait get_ticks 0 start s = Some (None, s)"
| "dns_wait get_ticks (Suc spins) start s =
     (let (now, s) = ticks get_ticks s
      in if 50 \<le> now - start then Some (None, s)
         else do {
           s \<leftarrow> netif_polls 4 s;
           if last_dns_ip s \<noteq> 0 then Some (Some (last_dns_ip s), s)
           else dns_wait get_ticks spins start s })"

fun dns_tries :: "('d \<Rightarrow> u32 \<times> 'd) \<Rightarrow> nat list \<Rightarrow> u32 \<Rightarrow> bytes \<Rightarrow> 'd net \<Rightarrow> (u32 \<times> 'd net) option" where
  "dns_tries get_ticks [] server query s = Some (0, s)"
| "dns_tries get_ticks (retry # rs) server query s =
     do {
       (_, s) \<leftarrow> udp_send_packet server 53 (of_nat (52001 + retry)) query s;
       let (start, s) = ticks get_ticks s;
       (r, s) \<leftarrow> dns_wait get_ticks 20000 start s;
       case r of Some ip \<Rightarrow> Some (ip, s) | None \<Rightarrow> dns_tries get_ticks rs server query s }"

definition remember_host :: "bytes \<Rightarrow> u32 \<Rightarrow> 'd net \<Rightarrow> 'd net option" where
  "remember_host host ip s =
     do { buf \<leftarrow> wrn (last_dns_host s) 0 (host @ [0]);
          Some (s\<lparr>last_dns_ip := ip, last_dns_host := buf\<rparr>) }"

definition dns_server_of :: "'d net \<Rightarrow> u32" where
  "dns_server_of s =
     (case netif_get_default s of
        Some k \<Rightarrow> if dns_server (the_iface s k) \<noteq> 0 then dns_server (the_iface s k) else 0x0A000203
      | None \<Rightarrow> 0x0A000203)"

definition dns_resolve :: "('d \<Rightarrow> u32 \<times> 'd) \<Rightarrow> bytes \<Rightarrow> 'd net \<Rightarrow> (u32 \<times> 'd net) option" where
  "dns_resolve get_ticks hostname s =
     (if is_ipv4_literal hostname then Some (parse_ip_literal hostname, s)
      else
        let host_l = dns_hostname_lower hostname 256
        in if host_l = [] then Some (0, s)
           else if str_cmp (last_dns_host s) host_l = 0 \<and> last_dns_ip s \<noteq> 0 then Some (last_dns_ip s, s)
           else case find_static host_l static_dns of
             Some ip \<Rightarrow> do { s \<leftarrow> remember_host host_l ip s; Some (ip, s) }
           | None \<Rightarrow>
               (case dns_qname host_l of
                  None \<Rightarrow> Some (0, s)
                | Some q \<Rightarrow> do {
                    let server = dns_server_of s;
                    s \<leftarrow> remember_host host_l 0 s;
                    dns_tries get_ticks [0..<5] server (dns_query q) s }))"

section \<open>TCP sockets\<close>

fun connect_wait :: "('d \<Rightarrow> u32 \<times> 'd) \<Rightarrow> nat \<Rightarrow> u32 \<Rightarrow> 'd net \<Rightarrow> 'd net option" where
  "connect_wait get_ticks 0 start s = Some s"
| "connect_wait get_ticks (Suc spins) start s =
     (if tcb_state (tcb s) = TCP_ESTABLISHED then Some s
      else
        let (now, s) = ticks get_ticks s
        in if 320 \<le> now - start then Some s
           else do { s \<leftarrow> netif_polls 8 s; connect_wait get_ticks spins start s })"

fun connect_tries :: "('d \<Rightarrow> u32 \<times> 'd) \<Rightarrow> nat \<Rightarrow> 'd net \<Rightarrow> (int \<times> 'd net) option" where
  "connect_tries get_ticks 0 s = Some (-1, upd_tcb (\<lambda>t. t\<lparr>tcb_state := TCP_CLOSED\<rparr>) s)"
| "connect_tries get_ticks (Suc n) s =
     do {
       let t = tcb s;
       (sent, s) \<leftarrow> tcp_send_packet (remote_ip t) (remote_port t) (local_port t) (snd_nxt t) 0 TCP_FLAG_SYN [] s;
       if sent < 0 then connect_tries get_ticks n s
       else do {
         let s = upd_tcb (\<lambda>t. t\<lparr>tcb_state := TCP_SYN_SENT\<rparr>) s;
         let (start, s) = ticks get_ticks s;
         s \<leftarrow> connect_wait get_ticks 60000 start s;
         if tcb_state (tcb s) = TCP_ESTABLISHED then Some (0, s)
         else connect_tries get_ticks n s } }"

definition tcp_connect :: "('d \<Rightarrow> u32 \<times> 'd) \<Rightarrow> u32 \<Rightarrow> u16 \<Rightarrow> 'd net \<Rightarrow> (int \<times> 'd net) option" where
  "tcp_connect get_ticks dest_ip dest_port s =
     (let (t1, s) = ticks get_ticks s;
          (t2, s) = ticks get_ticks s;
          s = upd_tcb (\<lambda>t. t\<lparr>tcb_state := TCP_CLOSED, rx_len := 0, rx_processed := 0, has_data := False,
                remote_ip := dest_ip, remote_port := dest_port,
                local_port := ucast (10000 + t1 mod 50000), snd_nxt := t2, rcv_nxt := 0\<rparr>) s
      in case netif_get_default s of
           None \<Rightarrow> Some (-1, s)
         | Some k \<Rightarrow>
             if ip_addr (the_iface s k) = 0 then Some (-1, s)
             else connect_tries get_ticks 3
               (upd_tcb (\<lambda>t. t\<lparr>local_ip := ip_addr (the_iface s k)\<rparr>) s))"

definition tcp_send :: "bytes \<Rightarrow> 'd net \<Rightarrow> (int \<times> 'd net) option" where
  "tcp_send data s =
     (let t = tcb s
      in if tcb_state t \<noteq> TCP_ESTABLISHED then Some (-1, s)
         else do {
           (_, s) \<leftarrow> tcp_send_packet (remote_ip t) (remote_port t) (local_port t) (snd_nxt t) (rcv_nxt t)
             (TCP_FLAG_PSH OR TCP_FLAG_ACK) data s;
           Some (int (length data), upd_tcb (\<lambda>t. t\<lparr>snd_nxt := snd_nxt t + of_nat (length data)\<rparr>) s) })"

fun receive_wait :: "('d \<Rightarrow> u32 \<times> 'd) \<Rightarrow> nat \<Rightarrow> u32 \<Rightarrow> 'd net \<Rightarrow> 'd net option" where
  "receive_wait get_ticks 0 start s = Some s"
| "receive_wait get_ticks (Suc spins) start s =
     (if has_data (tcb s) \<or> tcb_state (tcb s) \<noteq> TCP_ESTABLISHED then Some s
      else do {
        s \<leftarrow> netif_poll s;
        let (now, s) = ticks get_ticks s;
        if 150 < now - start then Some s else receive_wait get_ticks spins start s })"

text \<open>What is copied out once the wait is over; the result is the number of bytes.\<close>

definition tcp_take :: "u32 \<Rightarrow> 'd net \<Rightarrow> (bytes \<times> 'd net) option" where
  "tcp_take max_len s =
     (let t = tcb s
      in if rx_len t \<le> rx_processed t then Some ([], s)
         else do {
           let available = rx_len t - rx_processed t;
           let to_copy = (if max_len < available then max_len else available);
           out \<leftarrow> rdn (rx_buffer t) (unat (rx_processed t)) (unat to_copy);
           let t = t\<lparr>rx_processed := rx_processed t + to_copy\<rparr>;
           Some (out, s\<lparr>tcb := (if rx_processed t = rx_len t then t\<lparr>has_data := False\<rparr> else t)\<rparr>) })"

definition tcp_receive :: "('d \<Rightarrow> u32 \<times> 'd) \<Rightarrow> u32 \<Rightarrow> 'd net \<Rightarrow> (bytes \<times> 'd net) option" where
  "tcp_receive get_ticks max_len s =
     do {
       let (start, s) = ticks get_ticks s;
       s \<leftarrow> receive_wait get_ticks 80000 start s;
       tcp_take max_len s }"

definition tcp_close :: "'d net \<Rightarrow> (int \<times> 'd net) option" where
  "tcp_close s =
     (if tcb_state (tcb s) = TCP_ESTABLISHED
      then do {
        s \<leftarrow> tcp_reply (TCP_FLAG_FIN OR TCP_FLAG_ACK) s;
        Some (0, upd_tcb (\<lambda>t. t\<lparr>tcb_state := TCP_CLOSED\<rparr>) s) }
      else Some (0, s))"

end
