(* ===== verification/NetFacts.thy ===== *)
theory NetFacts
  imports NetStack
begin

text \<open>
  What the network stack guarantees: the consistency of its state in every reachable state, the
  byte stream that the TCP connection is, with its limits, delivery from one host to another,
  and the name resolver.
\<close>

section \<open>Transmission touches only counters and devices\<close>

named_theorems tx \<open>effects of the transmit side\<close>

definition iface_config :: "'d iface \<Rightarrow> bytes \<times> u32 \<times> u32 \<times> u32 \<times> u32" where
  "iface_config f = (mac_addr f, ip_addr f, netmask f, gateway f, dns_server f)"

definition tx_only :: "'d net \<Rightarrow> 'd net \<Rightarrow> bool" where
  "tx_only s s' \<longleftrightarrow> s' = s\<lparr>interfaces := interfaces s', dev := dev s'\<rparr> \<and>
     length (interfaces s') = length (interfaces s) \<and>
     map iface_config (interfaces s') = map iface_config (interfaces s) \<and>
     map send_packet (interfaces s') = map send_packet (interfaces s) \<and>
     map recv_packet (interfaces s') = map recv_packet (interfaces s)"

lemma tx_only_refl [simp, intro]: "tx_only s s"
  by (simp add: tx_only_def)

lemma tx_only_trans: "tx_only s t \<Longrightarrow> tx_only t u \<Longrightarrow> tx_only s u"
  unfolding tx_only_def by (cases s; cases t; cases u) simp

lemma tx_only_fields [tx]:
  assumes "tx_only s s'"
  shows "tcb s' = tcb s" "frame_buf s' = frame_buf s" "arp_cache s' = arp_cache s"
    "last_dns_host s' = last_dns_host s" "last_dns_ip s' = last_dns_ip s"
    "default_interface s' = default_interface s" "num_interfaces s' = num_interfaces s"
    "length (interfaces s') = length (interfaces s)" "dhcp_xid s' = dhcp_xid s"
proof -
  have eq: "s' = s\<lparr>interfaces := interfaces s', dev := dev s'\<rparr>" and l: "length (interfaces s') = length (interfaces s)"
    using assms unfolding tx_only_def by blast+
  show "tcb s' = tcb s" "frame_buf s' = frame_buf s" "arp_cache s' = arp_cache s"
    "last_dns_host s' = last_dns_host s" "last_dns_ip s' = last_dns_ip s"
    "default_interface s' = default_interface s" "num_interfaces s' = num_interfaces s"
    "dhcp_xid s' = dhcp_xid s"
    by (subst eq, simp)+
  show "length (interfaces s') = length (interfaces s)"
    by (rule l)
qed

lemma map_update_same: "f y = f (xs ! k) \<Longrightarrow> map f (xs[k := y]) = map f xs"
  by (metis list_update_id map_update)

lemma tx_only_iface:
  assumes "iface_config (f (the_iface s k)) = iface_config (the_iface s k)"
    and "send_packet (f (the_iface s k)) = send_packet (the_iface s k)"
    and "recv_packet (f (the_iface s k)) = recv_packet (the_iface s k)"
  shows "tx_only s (upd_iface k f (s\<lparr>dev := d\<rparr>))"
  using assms unfolding tx_only_def upd_iface_def the_iface_def by (simp add: map_update_same)

lemma netif_send_tx [tx]: "netif_send k data s = (r, s') \<Longrightarrow> tx_only s s'"
  by (auto simp: netif_send_def Let_def iface_config_def split: if_splits option.splits prod.splits intro!: tx_only_iface)

lemma ip_send_tx [tx]: "ip_send ip proto data s = Some (r, s') \<Longrightarrow> tx_only s s'"
  by (auto simp: ip_send_def Let_def split: if_splits option.splits dest: netif_send_tx)

lemma udp_send_tx [tx]: "udp_send_packet ip dp sp data s = Some (r, s') \<Longrightarrow> tx_only s s'"
  by (auto simp: udp_send_packet_def split: if_splits dest: ip_send_tx)

lemma tcp_send_packet_tx [tx]: "tcp_send_packet ip dp sp seq ack fl data s = Some (r, s') \<Longrightarrow> tx_only s s'"
  by (auto simp: tcp_send_packet_def split: if_splits option.splits dest: ip_send_tx)

lemma tcp_reply_tx [tx]: "tcp_reply fl s = Some s' \<Longrightarrow> tx_only s s'"
  by (auto simp: tcp_reply_def Let_def dest: tcp_send_packet_tx)

text \<open>A segment without data always fits.\<close>

lemma length_tcp_segment: "length (tcp_segment a b c d e f g data) = 20 + length data"
  by (simp add: tcp_segment_def tcp_header_def tcp_checksum_def)

lemma tcp_send_packet_Some: "length data \<le> 1446 \<Longrightarrow> \<exists>r s'. tcp_send_packet ip dp sp seq ack fl data s = Some (r, s')"
  by (auto simp: tcp_send_packet_def ip_send_def length_tcp_segment Let_def split: option.splits)

lemma tcp_reply_Some: "\<exists>s'. tcp_reply fl s = Some s'"
  using tcp_send_packet_Some [of "[]"] by (fastforce simp: tcp_reply_def Let_def)

section \<open>The receive buffer as a stream\<close>

definition tcb_ok :: "tcb \<Rightarrow> bool" where
  "tcb_ok t \<longleftrightarrow> length (rx_buffer t) = 16384 \<and> rx_processed t \<le> rx_len t \<and> rx_len t < 16384 \<and>
     (has_data t \<longleftrightarrow> rx_processed t < rx_len t)"

text \<open>The bytes received and not yet handed to the application.\<close>

definition unread :: "tcb \<Rightarrow> bytes" where
  "unread t = drop (unat (rx_processed t)) (take (unat (rx_len t)) (rx_buffer t))"

text \<open>What a segment adds to the stream.\<close>

definition accepted :: "bytes \<Rightarrow> nat \<Rightarrow> tcb \<Rightarrow> bytes" where
  "accepted packet len t =
     (let hdr_len = unat (drop_bit 4 (packet ! 12)) * 4;
          seg_len = of_nat len - of_nat hdr_len :: u32
      in if tcb_state t = TCP_ESTABLISHED \<and> 20 \<le> len \<and> rx_len t + seg_len < 16384
         then take (unat seg_len) (drop hdr_len packet) else [])"

lemma tcb_ok_nat:
  "tcb_ok t \<longleftrightarrow> length (rx_buffer t) = 16384 \<and> unat (rx_processed t) \<le> unat (rx_len t) \<and>
     unat (rx_len t) < 16384 \<and> (has_data t \<longleftrightarrow> unat (rx_processed t) < unat (rx_len t))"
  by (simp add: tcb_ok_def word_le_nat_alt word_less_nat_alt)

lemma length_unread: "tcb_ok t \<Longrightarrow> length (unread t) = unat (rx_len t) - unat (rx_processed t)"
  by (simp add: tcb_ok_nat unread_def)

lemma unat_add_fits: "unat a + unat b < 4294967296 \<Longrightarrow> unat (a + b :: u32) = unat a + unat b"
  using unat_add_lem [of a b] by simp

text \<open>Everything but the TCP control block, the counters and the devices is untouched.\<close>

definition tcp_only :: "'d net \<Rightarrow> 'd net \<Rightarrow> bool" where
  "tcp_only s s' \<longleftrightarrow> tx_only (s\<lparr>tcb := tcb s'\<rparr>) s'"

lemma tcp_only_upd [simp]: "tcp_only s (upd_tcb f s)"
  by (simp add: tcp_only_def upd_tcb_def)

lemma tcb_upd_tcb [simp]: "tcb (upd_tcb f s) = f (tcb s)"
  by (simp add: upd_tcb_def)

lemma tx_tcp_only [tx]: "tx_only s s' \<Longrightarrow> tcp_only s s'"
proof -
  assume h: "tx_only s s'"
  then have "s\<lparr>tcb := tcb s'\<rparr> = s"
    using tx_only_fields(1) [OF h] by simp
  then show ?thesis
    using h by (simp add: tcp_only_def)
qed

lemma tx_only_set_tcb: "tx_only s t \<Longrightarrow> tx_only (s\<lparr>tcb := b\<rparr>) (t\<lparr>tcb := b\<rparr>)"
  by (cases s; cases t) (simp add: tx_only_def)

lemma tcp_only_trans: "tcp_only s t \<Longrightarrow> tcp_only t u \<Longrightarrow> tcp_only s u"
  unfolding tcp_only_def
  by (drule tx_only_set_tcb [where b = "tcb u"]) (auto dest: tx_only_trans)

lemma tcp_data_effect:
  assumes "tcb_ok (tcb s)" and "tcp_data packet hdr seg s = Some s'"
  shows "tcb_ok (tcb s') \<and> tcb_state (tcb s') = tcb_state (tcb s) \<and> rx_processed (tcb s') = rx_processed (tcb s) \<and>
    unread (tcb s') = unread (tcb s) @ (if rx_len (tcb s) + seg < 16384 then take (unat seg) (drop hdr packet) else []) \<and>
    tcp_only s s'"
proof (cases "0 < seg \<and> rx_len (tcb s) + seg < 16384")
  case False
  then show ?thesis
    using assms by (auto simp: tcp_data_def Let_def tx_tcp_only word_gt_0)
next
  case True
  define t where "t = tcb s"
  define rl where "rl = unat (rx_len t)"
  obtain data buf where d: "rdn packet hdr (unat seg) = Some data" "wrn (rx_buffer t) rl data = Some buf"
    and s': "tcp_reply TCP_FLAG_ACK (upd_tcb (\<lambda>t. t\<lparr>rx_buffer := buf, rx_len := rx_len t + seg,
        has_data := True, rcv_nxt := rcv_nxt t + seg\<rparr>) s) = Some s'"
    using assms(2) True unfolding tcp_data_def Let_def if_P [OF True] t_def rl_def
    by (auto split: Option.bind_splits)
  have data: "data = take (unat seg) (drop hdr packet)" "length data = unat seg"
    using d(1) by (auto simp: rdn_def split: if_splits)
  have ok: "length (rx_buffer t) = 16384" "unat (rx_processed t) \<le> rl" "rl < 16384"
    using assms(1) by (auto simp: tcb_ok_nat t_def rl_def)
  have fit: "rl + unat seg \<le> 16384" and buf: "buf = take rl (rx_buffer t) @ data @ drop (rl + unat seg) (rx_buffer t)"
    using d(2) data ok by (auto simp: wrn_def split: if_splits)
  then have len: "unat (rx_len t + seg) = rl + unat seg"
    by (simp add: rl_def unat_add_fits)
  moreover have "0 < unat seg"
    using True by (simp add: word_gt_0 unat_gt_0)
  moreover have "unat (rx_len t + seg) < 16384"
    using True by (simp add: word_less_nat_alt t_def)
  moreover have "tcb s' = (tcb s)\<lparr>rx_buffer := buf, rx_len := rx_len t + seg, has_data := True, rcv_nxt := rcv_nxt t + seg\<rparr>"
    using tx_only_fields(1) [OF tcp_reply_tx [OF s']] by (simp add: t_def)
  moreover have "tcp_only s s'"
    using tcp_only_upd tx_tcp_only [OF tcp_reply_tx [OF s']] by (rule tcp_only_trans)
  ultimately show ?thesis
    using True ok fit data(2) buf by (simp add: tcb_ok_nat unread_def t_def [symmetric] flip: data(1)) (simp add: rl_def)
qed

lemma unread_cong:
  "rx_buffer t' = rx_buffer t \<Longrightarrow> rx_len t' = rx_len t \<Longrightarrow> rx_processed t' = rx_processed t \<Longrightarrow> unread t' = unread t"
  by (simp add: unread_def)

lemma tcb_ok_cong:
  "rx_buffer t' = rx_buffer t \<Longrightarrow> rx_len t' = rx_len t \<Longrightarrow> rx_processed t' = rx_processed t \<Longrightarrow>
   has_data t' = has_data t \<Longrightarrow> tcb_ok t' = tcb_ok t"
  by (simp add: tcb_ok_def)

text \<open>A reply after an update of the numbers or the state leaves the buffer alone.\<close>

lemma tcp_reply_upd:
  assumes "tcp_reply fl (upd_tcb f s) = Some s'"
  shows "tcb s' = f (tcb s)" and "tcp_only s s'"
  using tx_only_fields(1) [OF tcp_reply_tx [OF assms]]
    tcp_only_trans [OF tcp_only_upd tx_tcp_only [OF tcp_reply_tx [OF assms]]] by simp_all

lemma tcp_dispatch_effect:
  assumes "tcb_ok (tcb s)" and "tcp_dispatch packet seq ack hdr seg flags s = Some (r, s')"
  shows "tcb_ok (tcb s') \<and> rx_processed (tcb s') = rx_processed (tcb s) \<and>
    unread (tcb s') = unread (tcb s) @
      (if tcb_state (tcb s) = TCP_ESTABLISHED \<and> rx_len (tcb s) + seg < 16384 then take (unat seg) (drop hdr packet) else []) \<and>
    tcp_only s s'"
proof (cases "tcb_state (tcb s)")
  case TCP_ESTABLISHED
  obtain u where u: "tcp_data packet hdr seg s = Some u"
    and rest: "(if flags AND TCP_FLAG_FIN \<noteq> 0
        then do { s \<leftarrow> tcp_reply (TCP_FLAG_ACK OR TCP_FLAG_FIN) (upd_tcb (\<lambda>t. t\<lparr>rcv_nxt := rcv_nxt t + 1\<rparr>) u);
               Some (1, upd_tcb (\<lambda>t. t\<lparr>tcb_state := TCP_CLOSED\<rparr>) s) }
        else Some (0, u)) = Some (r, s')"
    using assms(2) TCP_ESTABLISHED unfolding tcp_dispatch_def by (cases "tcp_data packet hdr seg s") auto
  note eff = tcp_data_effect [OF assms(1) u]
  show ?thesis
  proof (cases "flags AND TCP_FLAG_FIN = 0")
    case False
    then obtain v where v: "tcp_reply (TCP_FLAG_ACK OR TCP_FLAG_FIN) (upd_tcb (\<lambda>t. t\<lparr>rcv_nxt := rcv_nxt t + 1\<rparr>) u) = Some v"
      and s': "s' = upd_tcb (\<lambda>t. t\<lparr>tcb_state := TCP_CLOSED\<rparr>) v"
      using rest by (auto split: Option.bind_splits)
    have "tcb s' = (tcb u)\<lparr>rcv_nxt := rcv_nxt (tcb u) + 1, tcb_state := TCP_CLOSED\<rparr>"
      using tcp_reply_upd(1) [OF v] s' by simp
    moreover have "tcp_only s s'"
      using eff tcp_reply_upd(2) [OF v] s' by (metis tcp_only_trans tcp_only_upd)
    moreover from calculation(1) have "tcb_ok (tcb s') = tcb_ok (tcb u)" "unread (tcb s') = unread (tcb u)"
      by (simp_all add: tcb_ok_def unread_def)
    ultimately show ?thesis
      using eff TCP_ESTABLISHED by simp
  qed (use rest eff TCP_ESTABLISHED in simp)
next
  case TCP_SYN_SENT
  show ?thesis
  proof (cases "flags AND TCP_FLAG_SYN \<noteq> 0 \<and> flags AND TCP_FLAG_ACK \<noteq> 0")
    case True
    then have v: "tcp_reply TCP_FLAG_ACK (upd_tcb (\<lambda>t. t\<lparr>rcv_nxt := seq + 1, snd_nxt := ack, tcb_state := TCP_ESTABLISHED\<rparr>) s) = Some s'"
      using assms(2) TCP_SYN_SENT unfolding tcp_dispatch_def by (auto split: Option.bind_splits)
    show ?thesis
      using tcp_reply_upd [OF v] assms(1) TCP_SYN_SENT by (simp add: tcb_ok_def unread_def)
  next
    case False
    then have "s' = s"
      using assms(2) TCP_SYN_SENT unfolding tcp_dispatch_def by (auto split: if_splits)
    then show ?thesis
      using assms(1) TCP_SYN_SENT by (simp add: tx_tcp_only)
  qed
qed (use assms in \<open>simp_all add: tcp_dispatch_def tx_tcp_only\<close>)

text \<open>A segment either is dropped before its header is read, or dispatched.\<close>

lemma tcp_process_cases:
  assumes "tcp_process packet len s = Some (r, s')"
  obtains (drop) "s' = s" "accepted packet len (tcb s) = []"
  | (go) seq ack flags where "tcp_dispatch packet seq ack (unat (drop_bit 4 (packet ! 12)) * 4)
        (of_nat len - of_nat (unat (drop_bit 4 (packet ! 12)) * 4)) flags s = Some (r, s')" "20 \<le> len"
proof (cases "len < 20 \<or> tcb_state (tcb s) = TCP_CLOSED")
  case True
  then show thesis
    using assms by (intro drop) (auto simp: tcp_process_def accepted_def split: if_splits)
next
  case False
  then obtain seq ack off flags where rd: "rd8 packet 12 = Some off"
    and "tcp_dispatch packet seq ack (unat (drop_bit 4 off) * 4) (of_nat len - of_nat (unat (drop_bit 4 off) * 4)) flags s = Some (r, s')"
    using assms unfolding tcp_process_def Let_def by (auto simp del: of_nat_mult of_nat_unat split: Option.bind_splits)
  moreover have "off = packet ! 12"
    using rd by (auto simp: rd8_def split: if_splits)
  ultimately show thesis
    using go False by (metis linorder_not_less)
qed

lemma tcp_process_effect:
  assumes "tcb_ok (tcb s)" and "tcp_process packet len s = Some (r, s')"
  shows "tcb_ok (tcb s') \<and> rx_processed (tcb s') = rx_processed (tcb s) \<and>
    unread (tcb s') = unread (tcb s) @ accepted packet len (tcb s) \<and> tcp_only s s'"
  using assms(2)
proof (cases rule: tcp_process_cases)
  case drop
  then show ?thesis
    using assms(1) by (simp add: tx_tcp_only)
next
  case (go seq ack flags)
  then show ?thesis
    using tcp_dispatch_effect [OF assms(1) go(1)] by (simp add: accepted_def Let_def)
qed

section \<open>Consistent states\<close>

named_theorems keeps \<open>operations preserve consistency\<close>

definition net_ok :: "'d net \<Rightarrow> bool" where
  "net_ok s \<longleftrightarrow> tcb_ok (tcb s) \<and> length (frame_buf s) = 2048 \<and>
     length (last_dns_host s) = 64 \<and> 0 \<in> set (last_dns_host s) \<and>
     length (arp_cache s) = 16 \<and> arp_wf (arp_cache s) \<and>
     length (interfaces s) = 4 \<and> num_interfaces s \<le> 4 \<and>
     (\<forall>k. default_interface s = Some k \<longrightarrow> k < num_interfaces s)"

lemma net_ok_tx [keeps]: "tx_only s s' \<Longrightarrow> net_ok s \<Longrightarrow> net_ok s'"
  by (simp add: net_ok_def tx_only_fields)

lemma net_ok_tcp [keeps]: "tcp_only s s' \<Longrightarrow> tcb_ok (tcb s') \<Longrightarrow> net_ok s \<Longrightarrow> net_ok s'"
  unfolding tcp_only_def by (drule net_ok_tx) (auto simp: net_ok_def)

lemma net_ok_upd_tcb: "net_ok s \<Longrightarrow> tcb_ok (f (tcb s)) \<Longrightarrow> net_ok (upd_tcb f s)"
  by (simp add: net_ok_def upd_tcb_def)

lemma net_ok_upd_iface: "net_ok s \<Longrightarrow> net_ok (upd_iface k f s)"
  by (simp add: net_ok_def upd_iface_def)

lemma net_ok_fields: "net_ok s \<Longrightarrow> net_ok (s\<lparr>dev := d\<rparr>)" "net_ok s \<Longrightarrow> net_ok (s\<lparr>last_dns_ip := ip\<rparr>)"
  "net_ok s \<Longrightarrow> net_ok (s\<lparr>server_ip := a\<rparr>)" "net_ok s \<Longrightarrow> net_ok (s\<lparr>server_ip := a, offered_ip := b\<rparr>)"
  "net_ok s \<Longrightarrow> length buf = 2048 \<Longrightarrow> net_ok (s\<lparr>frame_buf := buf\<rparr>)"
  by (simp_all add: net_ok_def)

lemma arp_add_ok [keeps]: "net_ok s \<Longrightarrow> net_ok (arp_add_entry ip mac s)"
proof -
  assume ok: "net_ok s"
  let ?e = "\<lparr>arp_ip = ip, arp_mac = mac, arp_valid = True\<rparr>"
  have len: "length (arp_cache s) = 16" "arp_wf (arp_cache s)"
    using ok by (simp_all add: net_ok_def)
  show ?thesis
  proof (cases "arp_put ?e (arp_cache s)")
    case None
    then have v: "list_all arp_valid (arp_cache s)"
      by (simp add: arp_put_None)
    then have "list_all arp_valid ((arp_cache s)[0 := ?e])"
      using len by (cases "arp_cache s") auto
    then have "dropWhile arp_valid ((arp_cache s)[0 := ?e]) = []"
      by (simp add: list_all_iff)
    then have "arp_wf ((arp_cache s)[0 := ?e])"
      using len unfolding arp_wf_def by (metis list.pred_inject(1) list_update_nonempty)
    then show ?thesis
      using ok None by (simp add: net_ok_def arp_add_entry_def)
  next
    case (Some c)
    then have "length c = 16" "arp_wf c"
      using arp_put_find [OF Some, of ip] len by (auto simp: arp_wf_def)
    then show ?thesis
      using ok Some by (simp add: net_ok_def arp_add_entry_def)
  qed
qed

lemma arp_process_ok [keeps]: "arp_process buf len s = Some (r, s') \<Longrightarrow> net_ok s \<Longrightarrow> net_ok s'"
  unfolding arp_process_def
  by (auto simp: Let_def arp_add_ok split: if_splits option.splits Option.bind_splits)
    (metis net_ok_tx netif_send_tx prod.collapse)

lemma dhcp_process_ok [keeps]: "dhcp_process k packet len s = Some (r, s') \<Longrightarrow> net_ok s \<Longrightarrow> net_ok s'"
  unfolding dhcp_process_def netif_set_ip_def
  by (auto simp: Let_def net_ok_upd_iface net_ok_fields split: if_splits Option.bind_splits)

lemma same_last_ip: "\<exists>ip. s = s\<lparr>last_dns_ip := ip\<rparr>"
  by (rule exI [of _ "last_dns_ip s"]) simp

lemma dns_answers_last: "dns_answers n data plen p s = Some s' \<Longrightarrow> \<exists>ip. s' = s\<lparr>last_dns_ip := ip\<rparr>"
proof (induction n data plen p s rule: dns_answers.induct)
  case (2 n data plen p s)
  then show ?case
    by (auto intro!: same_last_ip split: if_splits Option.bind_splits)
qed (auto intro!: same_last_ip)

lemma dns_process_ok [keeps]: "dns_process data len s = Some (r, s') \<Longrightarrow> net_ok s \<Longrightarrow> net_ok s'"
  unfolding dns_process_def
  by (auto simp: net_ok_fields dest!: dns_answers_last split: if_splits Option.bind_splits)

lemma udp_process_ok [keeps]: "udp_process packet len s = Some (r, s') \<Longrightarrow> net_ok s \<Longrightarrow> net_ok s'"
  unfolding udp_process_def
  by (auto simp: Let_def dest: dhcp_process_ok dns_process_ok split: if_splits Option.bind_splits option.splits)

lemma tcp_process_ok [keeps]: "tcp_process packet len s = Some (r, s') \<Longrightarrow> net_ok s \<Longrightarrow> net_ok s'"
  using tcp_process_effect [of s packet len r s'] net_ok_tcp [of s s'] unfolding net_ok_def [of s] by blast

lemma ip_receive_ok [keeps]: "ip_receive buf len s = Some (r, s') \<Longrightarrow> net_ok s \<Longrightarrow> net_ok s'"
  unfolding ip_receive_def
  by (auto simp: Let_def dest: arp_process_ok tcp_process_ok udp_process_ok split: if_splits Option.bind_splits)

lemma netif_receive_keeps: "netif_receive k buf s = (r, buf', s') \<Longrightarrow> tx_only s s' \<and> length buf' = length buf"
  by (auto simp: netif_receive_def Let_def iface_config_def split: if_splits option.splits prod.splits intro!: tx_only_iface)
    (simp_all add: tx_only_def)

lemma netif_poll_ok [keeps]: "netif_poll s = Some s' \<Longrightarrow> net_ok s \<Longrightarrow> net_ok s'"
  unfolding netif_poll_def
  by (auto simp: Let_def net_ok_fields net_ok_tx split: option.splits prod.splits if_splits
      dest!: netif_receive_keeps ip_receive_ok)
    (metis net_ok_fields(5) net_ok_tx net_ok_def)+

lemma netif_polls_ok [keeps]: "netif_polls n s = Some s' \<Longrightarrow> net_ok s \<Longrightarrow> net_ok s'"
  by (induction n s rule: netif_polls.induct) (auto dest: netif_poll_ok split: Option.bind_splits)

lemma ticks_ok [keeps]: "ticks g s = (t, s') \<Longrightarrow> net_ok s \<Longrightarrow> net_ok s'"
  by (auto simp: ticks_def net_ok_fields split: prod.splits)

lemma upd_state_ok [keeps]: "net_ok s \<Longrightarrow> net_ok (upd_tcb (\<lambda>t. t\<lparr>tcb_state := st\<rparr>) s)"
  by (rule net_ok_upd_tcb) (simp_all add: net_ok_def tcb_ok_def)

lemma cstr_nul: "0 \<in> set (xs @ [0 :: u8])"
  by simp

lemma remember_host_ok [keeps]: "remember_host host ip s = Some s' \<Longrightarrow> net_ok s \<Longrightarrow> net_ok s'"
  by (auto simp: remember_host_def net_ok_def wrn_def split: Option.bind_splits if_splits)

lemma dns_wait_ok [keeps]: "dns_wait g n start s = Some (r, s') \<Longrightarrow> net_ok s \<Longrightarrow> net_ok s'"
  by (induction g n start s arbitrary: r s' rule: dns_wait.induct)
    (auto dest: netif_polls_ok ticks_ok simp del: netif_polls.simps split: prod.splits if_splits Option.bind_splits)

lemma dns_tries_ok [keeps]: "dns_tries g rs server query s = Some (r, s') \<Longrightarrow> net_ok s \<Longrightarrow> net_ok s'"
proof (induction rs arbitrary: s)
  case (Cons retry rs)
  obtain r1 s1 where send: "udp_send_packet server 53 (of_nat (52001 + retry)) query s = Some (r1, s1)"
    using Cons.prems(1) by (auto split: Option.bind_splits)
  obtain start s2 where t: "ticks g s1 = (start, s2)"
    by fastforce
  obtain r3 s3 where w: "dns_wait g 20000 start s2 = Some (r3, s3)"
    using Cons.prems(1) send t by (auto simp del: dns_wait.simps of_nat_add split: Option.bind_splits)
  have "net_ok s3"
    using Cons.prems(2) send t w by (metis dns_wait_ok net_ok_tx ticks_ok udp_send_tx)
  then show ?case
    using Cons.IH Cons.prems(1) send t w by (auto simp del: dns_wait.simps of_nat_add split: option.splits)
qed simp

lemma dns_resolve_ok [keeps]: "dns_resolve g host s = Some (r, s') \<Longrightarrow> net_ok s \<Longrightarrow> net_ok s'"
  unfolding dns_resolve_def
  by (auto simp: Let_def dest: dns_tries_ok remember_host_ok split: if_splits option.splits Option.bind_splits)

lemma connect_wait_ok [keeps]: "connect_wait g n start s = Some s' \<Longrightarrow> net_ok s \<Longrightarrow> net_ok s'"
  by (induction g n start s arbitrary: s' rule: connect_wait.induct)
    (auto dest: netif_polls_ok ticks_ok simp del: netif_polls.simps split: prod.splits if_splits Option.bind_splits)

text \<open>One attempt: the SYN, and the wait for the answer.\<close>

lemma connect_tries_cases:
  assumes "connect_tries g (Suc n) s = Some (r, s')"
  obtains (retry) s1 where "tx_only s s1" "connect_tries g n s1 = Some (r, s')"
  | (wait) s1 start s2 s3 where "tx_only s s1"
      "ticks g (upd_tcb (\<lambda>t. t\<lparr>tcb_state := TCP_SYN_SENT\<rparr>) s1) = (start, s2)"
      "connect_wait g 60000 start s2 = Some s3"
      "if tcb_state (tcb s3) = TCP_ESTABLISHED then (r, s') = (0, s3) else connect_tries g n s3 = Some (r, s')"
proof -
  define syn where "syn = tcp_send_packet (remote_ip (tcb s)) (remote_port (tcb s)) (local_port (tcb s)) (snd_nxt (tcb s)) 0 TCP_FLAG_SYN [] s"
  obtain sent s1 where syn: "syn = Some (sent, s1)"
    unfolding syn_def using tcp_send_packet_Some [of "[]"] by fastforce
  then have tx: "tx_only s s1"
    unfolding syn_def by (rule tcp_send_packet_tx)
  obtain start s2 where t: "ticks g (upd_tcb (\<lambda>t. t\<lparr>tcb_state := TCP_SYN_SENT\<rparr>) s1) = (start, s2)"
    by fastforce
  have eq: "connect_tries g (Suc n) s = (if sent < 0 then connect_tries g n s1
      else do { s3 \<leftarrow> connect_wait g 60000 start s2;
        if tcb_state (tcb s3) = TCP_ESTABLISHED then Some (0, s3) else connect_tries g n s3 })"
    using syn t unfolding syn_def by (simp add: Let_def del: connect_wait.simps)
  show thesis
  proof (cases "sent < 0")
    case True
    with assms eq tx retry show thesis by simp
  next
    case False
    then obtain s3 where "connect_wait g 60000 start s2 = Some s3"
      and "(if tcb_state (tcb s3) = TCP_ESTABLISHED then Some (0, s3) else connect_tries g n s3) = Some (r, s')"
      using assms eq by (cases "connect_wait g 60000 start s2") (auto simp del: connect_wait.simps)
    with wait [OF tx t] show thesis
      by (auto split: if_splits)
  qed
qed

lemma connect_tries_ok [keeps]: "connect_tries g n s = Some (r, s') \<Longrightarrow> net_ok s \<Longrightarrow> net_ok s'"
proof (induction n arbitrary: s)
  case 0
  then show ?case by (auto simp: upd_state_ok)
next
  case (Suc n)
  from Suc.prems(1) show ?case
  proof (cases rule: connect_tries_cases)
    case (retry s1)
    then show ?thesis
      using Suc net_ok_tx by blast
  next
    case (wait s1 start s2 s3)
    then have "net_ok s3"
      using Suc.prems(2) by (metis connect_wait_ok net_ok_tx ticks_ok upd_state_ok)
    then show ?thesis
      using Suc.IH wait(4) by (auto split: if_splits)
  qed
qed

lemma tcp_connect_ok [keeps]: "tcp_connect g ip port s = Some (r, s') \<Longrightarrow> net_ok s \<Longrightarrow> net_ok s'"
proof -
  assume h: "tcp_connect g ip port s = Some (r, s')" and ok: "net_ok s"
  obtain t1 s1 t2 s2 where t: "ticks g s = (t1, s1)" "ticks g s1 = (t2, s2)"
    by (meson surj_pair)
  define f where "f = (\<lambda>t :: tcb. t\<lparr>tcb_state := TCP_CLOSED, rx_len := 0, rx_processed := 0, has_data := False,
      remote_ip := ip, remote_port := port, local_port := ucast (10000 + t1 mod 50000), snd_nxt := t2, rcv_nxt := 0\<rparr>)"
  have "net_ok s2"
    using t ok ticks_ok by blast
  then have s3: "net_ok (upd_tcb f s2)"
    by (rule net_ok_upd_tcb) (simp add: f_def \<open>net_ok s2\<close>, insert \<open>net_ok s2\<close>, simp add: net_ok_def tcb_ok_def)
  then have "net_ok (upd_tcb (\<lambda>t. t\<lparr>local_ip := v\<rparr>) (upd_tcb f s2))" for v
    by (rule net_ok_upd_tcb) (use s3 in \<open>simp add: net_ok_def tcb_ok_def\<close>)
  then show ?thesis
    using h t s3 unfolding tcp_connect_def Let_def
    by (auto simp: f_def [symmetric] simp del: connect_tries.simps dest: connect_tries_ok split: option.splits if_splits)
qed

lemma tcp_send_cases:
  assumes "tcp_send data s = Some (r, s')"
  obtains (closed) "tcb_state (tcb s) \<noteq> TCP_ESTABLISHED" "r = -1" "s' = s"
  | (sent) s1 where "tcb_state (tcb s) = TCP_ESTABLISHED" "r = int (length data)" "tx_only s s1"
      "s' = upd_tcb (\<lambda>t. t\<lparr>snd_nxt := snd_nxt t + of_nat (length data)\<rparr>) s1"
  using assms unfolding tcp_send_def Let_def
  by (auto split: if_splits Option.bind_splits dest: tcp_send_packet_tx)

lemma tcp_send_ok [keeps]: "tcp_send data s = Some (r, s') \<Longrightarrow> net_ok s \<Longrightarrow> net_ok s'"
proof (erule tcp_send_cases)
  fix s1
  assume "net_ok s" and "tx_only s s1"
    and s': "s' = upd_tcb (\<lambda>t. t\<lparr>snd_nxt := snd_nxt t + of_nat (length data)\<rparr>) s1"
  then have "net_ok s1"
    by (simp add: net_ok_tx)
  then show "net_ok s'"
    unfolding s' by (rule net_ok_upd_tcb) (use \<open>net_ok s1\<close> in \<open>simp add: net_ok_def tcb_ok_def\<close>)
qed simp

lemma receive_wait_ok [keeps]: "receive_wait g n start s = Some s' \<Longrightarrow> net_ok s \<Longrightarrow> net_ok s'"
proof (induction n arbitrary: s)
  case (Suc n)
  then show ?case
    by (auto split: if_splits Option.bind_splits prod.splits) (metis netif_poll_ok ticks_ok)+
qed simp

lemma tcp_take_effect:
  assumes "tcb_ok (tcb s)"
  shows "\<exists>t. tcp_take n s = Some (take (unat n) (unread (tcb s)), s\<lparr>tcb := t\<rparr>) \<and> tcb_ok t \<and>
    unread t = drop (unat n) (unread (tcb s)) \<and> rx_len t = rx_len (tcb s) \<and> tcb_state t = tcb_state (tcb s)"
proof (cases "rx_len (tcb s) \<le> rx_processed (tcb s)")
  case True
  then have "unread (tcb s) = []"
    using assms by (simp add: unread_def word_le_nat_alt)
  then show ?thesis
    using True assms by (intro exI [of _ "tcb s"]) (simp add: tcp_take_def Let_def)
next
  case False
  define t where "t = tcb s"
  define p l where "p = unat (rx_processed t)" and "l = unat (rx_len t)"
  define c where "c = (if n < rx_len t - rx_processed t then n else rx_len t - rx_processed t)"
  have ok: "length (rx_buffer t) = 16384" "p < l" "l < 16384"
    using assms False by (auto simp: tcb_ok_nat t_def p_def l_def word_le_nat_alt)
  have "unat (rx_len t - rx_processed t) = l - p"
    using ok by (simp add: unat_sub word_le_nat_alt p_def l_def)
  then have c: "unat c = min (unat n) (l - p)"
    by (auto simp: c_def word_less_nat_alt)
  then have "p + unat c \<le> l"
    using ok by simp
  then have p': "unat (rx_processed t + c) = p + unat c"
    using ok by (simp add: p_def unat_add_fits)
  have u: "unread t = drop p (take l (rx_buffer t))" "length (unread t) = l - p"
    using ok by (simp_all add: unread_def p_def l_def)
  have out: "take (unat c) (drop p (rx_buffer t)) = take (unat n) (unread t)"
    using ok u c by (simp add: drop_take min.commute)
  define t' where "t' = (if rx_processed t + c = rx_len t then t\<lparr>rx_processed := rx_processed t + c, has_data := False\<rparr>
      else t\<lparr>rx_processed := rx_processed t + c\<rparr>)"
  have f: "rx_buffer t' = rx_buffer t" "rx_len t' = rx_len t" "rx_processed t' = rx_processed t + c"
      "tcb_state t' = tcb_state t" "has_data t' \<longleftrightarrow> rx_processed t + c \<noteq> rx_len t \<and> has_data t"
    by (simp_all add: t'_def)
  have eq: "rx_processed t + c = rx_len t \<longleftrightarrow> p + unat c = l"
    using p' by (metis l_def word_unat_eq_iff)
  have "tcb_ok t'"
    using assms ok p' \<open>p + unat c \<le> l\<close> eq unfolding tcb_ok_nat f t_def [symmetric] by (auto simp: l_def p_def)
  moreover have "unread t' = drop (unat n) (unread t)"
    using ok c p' u(1) by (simp add: unread_def f l_def [symmetric]) (simp add: min_def add.commute)
  moreover have "tcp_take n s = Some (take (unat n) (unread t), s\<lparr>tcb := t'\<rparr>)"
    using False ok \<open>p + unat c \<le> l\<close>
    by (simp add: tcp_take_def Let_def c_def [symmetric] t_def [symmetric] t'_def rdn_def p_def [symmetric] out)
  ultimately show ?thesis
    using f by (auto simp: t_def)
qed

lemma tcp_take_ok [keeps]: "tcp_take n s = Some (out, s') \<Longrightarrow> net_ok s \<Longrightarrow> net_ok s'"
  using tcp_take_effect [of s n] by (auto simp: net_ok_def)

lemma tcp_receive_ok [keeps]: "tcp_receive g n s = Some (out, s') \<Longrightarrow> net_ok s \<Longrightarrow> net_ok s'"
  unfolding tcp_receive_def
  by (auto split: prod.splits Option.bind_splits simp del: receive_wait.simps) (metis receive_wait_ok tcp_take_ok ticks_ok)

lemma tcp_close_ok [keeps]: "tcp_close s = Some (r, s') \<Longrightarrow> net_ok s \<Longrightarrow> net_ok s'"
  unfolding tcp_close_def
  by (auto split: if_splits Option.bind_splits) (metis tcp_reply_tx net_ok_tx upd_state_ok)

lemma register_ok [keeps]: "net_ok s \<Longrightarrow> net_ok (snd (netif_register f s))"
  by (auto simp: netif_register_def net_ok_def Let_def)

lemma discover_ok [keeps]: "dhcp_discover k s = Some (r, s') \<Longrightarrow> net_ok s \<Longrightarrow> net_ok s'"
proof -
  assume h: "dhcp_discover k s = Some (r, s')" and ok: "net_ok s"
  obtain x where x: "dhcp_add_option (replicate 312 0) 0 53 [1] = x"
    by blast
  have "\<exists>frame. netif_send k frame s = (r, s')"
  proof (cases x)
    case None
    with h show ?thesis
      unfolding dhcp_discover_def Let_def x None by simp
  next
    case (Some y)
    obtain opts off where y: "y = (opts, off)"
      by fastforce
    show ?thesis
      using h unfolding dhcp_discover_def Let_def x Some y
      by (cases "wrn opts off [255]")
        (simp_all only: Option.bind.simps prod.case option.distinct option.inject, blast)
  qed
  with ok show ?thesis
    using netif_send_tx net_ok_tx by blast
qed

text \<open>One call of the interface that the rest of the kernel uses.\<close>

inductive net_step :: "('d \<Rightarrow> u32 \<times> 'd) \<Rightarrow> 'd net \<Rightarrow> 'd net \<Rightarrow> bool" for g where
  register: "net_step g s (snd (netif_register f s))"
| poll: "netif_poll s = Some s' \<Longrightarrow> net_step g s s'"
| discover: "dhcp_discover k s = Some (r, s') \<Longrightarrow> net_step g s s'"
| set_ip: "net_step g s (netif_set_ip k ip nm gw ns s)"
| ping: "icmp_ping ip seq s = Some (r, s') \<Longrightarrow> net_step g s s'"
| resolve: "dns_resolve g host s = Some (r, s') \<Longrightarrow> net_step g s s'"
| connect: "tcp_connect g ip port s = Some (r, s') \<Longrightarrow> net_step g s s'"
| send: "tcp_send data s = Some (r, s') \<Longrightarrow> net_step g s s'"
| receive: "tcp_receive g n s = Some (out, s') \<Longrightarrow> net_step g s s'"
| close: "tcp_close s = Some (r, s') \<Longrightarrow> net_step g s s'"

inductive net_reach :: "('d \<Rightarrow> u32 \<times> 'd) \<Rightarrow> 'd net \<Rightarrow> bool" for g where
  boot: "net_reach g (boot_net d)"
| step: "net_reach g s \<Longrightarrow> net_step g s s' \<Longrightarrow> net_reach g s'"

inductive_cases net_stepE: "net_step g s s'"

lemma boot_net_ok: "net_ok (boot_net d)"
proof -
  define c where "c = replicate 16 \<lparr>arp_ip = 0, arp_mac = replicate 6 0, arp_valid = False\<rparr>"
  have "arp_wf c" "length c = 16"
    unfolding c_def by (simp_all add: arp_wf_def numeral_eq_Suc)
  then show ?thesis
    by (simp add: net_ok_def boot_net_def tcb_ok_def flip: c_def)
qed

lemma net_step_ok: "net_step g s s' \<Longrightarrow> net_ok s \<Longrightarrow> net_ok s'"
  by (erule net_stepE)
    (auto simp: netif_set_ip_def net_ok_upd_iface icmp_ping_def
      dest: keeps intro: net_ok_tx ip_send_tx)

text \<open>
  C1: In every state that the network stack can reach, whatever frames arrive and whatever the
  drivers do, the control block is consistent (the read position is at most the fill level,
  which is below the buffer's 16384 bytes, and the data flag says whether there is unread data),
  the ARP cache fills from the front, the remembered host name is terminated and the default
  interface is a registered one.
\<close>

theorem net_reach_ok:
  assumes "net_reach g s"
  shows "net_ok s"
  using assms by (induction rule: net_reach.induct) (simp_all add: boot_net_ok net_step_ok)

theorem net_reach_ok_witness:
  "net_ok (snd (netif_register (the_iface (boot_net ()) 1) (boot_net ())))"
  by (rule net_reach_ok [where g = "\<lambda>d. (0, d)"], rule net_reach.step [OF net_reach.boot net_step.register])

section \<open>The connection is a bounded first-in first-out stream\<close>

text \<open>
  A history of the receive side: what arrives and what the application takes, with the bytes that
  went in and came out.
\<close>

datatype ('x, 'n) stream_event = Put 'x | Get 'n

fun run_events :: "('x \<Rightarrow> 's \<Rightarrow> 's option) \<Rightarrow> ('x \<Rightarrow> 's \<Rightarrow> bytes) \<Rightarrow> ('n \<Rightarrow> 's \<Rightarrow> (bytes \<times> 's) option) \<Rightarrow>
    ('x, 'n) stream_event list \<Rightarrow> 's \<Rightarrow> (bytes \<times> bytes \<times> 's) option" where
  "run_events put adds get [] s = Some ([], [], s)"
| "run_events put adds get (Put x # es) s =
     do { t \<leftarrow> put x s; (ins, outs, u) \<leftarrow> run_events put adds get es t; Some (adds x s @ ins, outs, u) }"
| "run_events put adds get (Get n # es) s =
     do { (out, t) \<leftarrow> get n s; (ins, outs, u) \<leftarrow> run_events put adds get es t; Some (ins, out @ outs, u) }"

locale byte_stream =
  fixes ok :: "'s \<Rightarrow> bool" and content :: "'s \<Rightarrow> bytes"
    and put :: "'x \<Rightarrow> 's \<Rightarrow> 's option" and adds :: "'x \<Rightarrow> 's \<Rightarrow> bytes"
    and get :: "'n \<Rightarrow> 's \<Rightarrow> (bytes \<times> 's) option"
  assumes put_law: "ok s \<Longrightarrow> put x s = Some t \<Longrightarrow> ok t \<and> content t = content s @ adds x s"
    and get_law: "ok s \<Longrightarrow> get n s = Some (out, t) \<Longrightarrow> ok t \<and> content s = out @ content t"
begin

lemma fifo:
  "ok s \<Longrightarrow> run_events put adds get es s = Some (ins, outs, u) \<Longrightarrow> ok u \<and> content s @ ins = outs @ content u"
proof (induction es arbitrary: s ins outs)
  case (Cons e es)
  show ?case
  proof (cases e)
    case (Put x)
    with Cons.prems(2) obtain t ins' where "put x s = Some t"
        "run_events put adds get es t = Some (ins', outs, u)" "ins = adds x s @ ins'"
      by (auto split: Option.bind_splits)
    then show ?thesis
      using put_law [OF Cons.prems(1)] Cons.IH [of t ins' outs] by auto
  next
    case (Get n)
    with Cons.prems(2) obtain out t outs' where "get n s = Some (out, t)"
        "run_events put adds get es t = Some (ins, outs', u)" "outs = out @ outs'"
      by (auto split: Option.bind_splits)
    then show ?thesis
      using get_law [OF Cons.prems(1)] Cons.IH [of t ins outs'] by auto
  qed
qed simp

end

text \<open>A stream whose buffer is filled once and never reused.\<close>

locale one_shot_stream = byte_stream +
  fixes level :: "'a \<Rightarrow> nat" and cap :: nat
  assumes level_put: "ok s \<Longrightarrow> put x s = Some t \<Longrightarrow> level t = level s + length (adds x s)"
    and level_get: "ok s \<Longrightarrow> get n s = Some (out, t) \<Longrightarrow> level t = level s"
    and level_cap: "ok s \<Longrightarrow> level s < cap"
begin

lemma total: "ok s \<Longrightarrow> run_events put adds get es s = Some (ins, outs, u) \<Longrightarrow> level u = level s + length ins"
proof (induction es arbitrary: s ins outs)
  case (Cons e es)
  show ?case
  proof (cases e)
    case (Put x)
    with Cons.prems(2) obtain t ins' where "put x s = Some t"
        "run_events put adds get es t = Some (ins', outs, u)" "ins = adds x s @ ins'"
      by (auto split: Option.bind_splits)
    then show ?thesis
      using put_law [OF Cons.prems(1)] level_put [OF Cons.prems(1)] Cons.IH [of t ins' outs] by auto
  next
    case (Get n)
    with Cons.prems(2) obtain out t outs' where "get n s = Some (out, t)"
        "run_events put adds get es t = Some (ins, outs', u)" "outs = out @ outs'"
      by (auto split: Option.bind_splits)
    then show ?thesis
      using get_law [OF Cons.prems(1)] level_get [OF Cons.prems(1)] Cons.IH [of t ins outs'] by auto
  qed
qed simp

lemma limited: "ok s \<Longrightarrow> run_events put adds get es s = Some (ins, outs, u) \<Longrightarrow> level s + length ins < cap"
  using total fifo level_cap by metis

end

definition seg_put :: "bytes \<times> nat \<Rightarrow> 'd net \<Rightarrow> 'd net option" where
  "seg_put x s = map_option snd (tcp_process (fst x) (snd x) s)"

definition seg_adds :: "bytes \<times> nat \<Rightarrow> 'd net \<Rightarrow> bytes" where
  "seg_adds x s = accepted (fst x) (snd x) (tcb s)"

lemma tcp_process_level:
  assumes "tcb_ok (tcb s)" and "tcp_process packet len s = Some (r, s')"
  shows "unat (rx_len (tcb s')) = unat (rx_len (tcb s)) + length (accepted packet len (tcb s))"
proof -
  note eff = tcp_process_effect [OF assms]
  have "length (unread (tcb s')) = length (unread (tcb s)) + length (accepted packet len (tcb s))"
    using eff by simp
  then have "unat (rx_len (tcb s')) - unat (rx_processed (tcb s)) =
      unat (rx_len (tcb s)) - unat (rx_processed (tcb s)) + length (accepted packet len (tcb s))"
    using eff assms(1) by (metis length_unread)
  moreover have "unat (rx_processed (tcb s)) \<le> unat (rx_len (tcb s'))" "unat (rx_processed (tcb s)) \<le> unat (rx_len (tcb s))"
    using eff assms(1) by (auto simp: tcb_ok_nat)
  ultimately show ?thesis
    by linarith
qed

interpretation tcp_stream: one_shot_stream "\<lambda>s. tcb_ok (tcb s)" "\<lambda>s. unread (tcb s)" seg_put seg_adds tcp_take
  "\<lambda>s. unat (rx_len (tcb s))" 16384
proof unfold_locales
  fix s t :: "'a net" and x
  assume "tcb_ok (tcb s)" and "seg_put x s = Some t"
  then show "tcb_ok (tcb t) \<and> unread (tcb t) = unread (tcb s) @ seg_adds x s"
    and "unat (rx_len (tcb t)) = unat (rx_len (tcb s)) + length (seg_adds x s)"
    using tcp_process_effect [of s "fst x" "snd x" _ t] tcp_process_level [of s "fst x" "snd x" _ t]
    by (auto simp: seg_put_def seg_adds_def)
next
  fix s t :: "'a net" and n out
  assume "tcb_ok (tcb s)" and "tcp_take n s = Some (out, t)"
  then show "tcb_ok (tcb t) \<and> unread (tcb s) = out @ unread (tcb t)"
    and "unat (rx_len (tcb t)) = unat (rx_len (tcb s))"
    using tcp_take_effect [of s n] by auto
next
  fix s :: "'a net"
  assume "tcb_ok (tcb s)"
  then show "unat (rx_len (tcb s)) < 16384"
    by (simp add: tcb_ok_nat)
qed

text \<open>The dispatch of a segment on an established connection.\<close>

lemma tcp_process_established:
  assumes "tcb_state (tcb s) = TCP_ESTABLISHED" and "20 \<le> len" and "20 \<le> length packet"
  shows "tcp_process packet len s =
    tcp_dispatch packet (join32 (packet ! 4) (packet ! 5) (packet ! 6) (packet ! 7))
      (join32 (packet ! 8) (packet ! 9) (packet ! 10) (packet ! 11)) (unat (drop_bit 4 (packet ! 12)) * 4)
      (of_nat len - of_nat (unat (drop_bit 4 (packet ! 12)) * 4)) (packet ! 13) s"
  using assms by (simp add: tcp_process_def rd32be_def rd8_def Let_def del: of_nat_mult of_nat_unat)

lemma tcp_dispatch_None:
  "tcb_state (tcb s) = TCP_ESTABLISHED \<Longrightarrow>
   tcp_dispatch packet seq ack hdr seg flags s = None \<longleftrightarrow> tcp_data packet hdr seg s = None"
proof (cases "tcp_data packet hdr seg s")
  case (Some u)
  obtain v where "tcp_reply (TCP_FLAG_ACK OR TCP_FLAG_FIN) (upd_tcb (\<lambda>t. t\<lparr>rcv_nxt := rcv_nxt t + 1\<rparr>) u) = Some v"
    using tcp_reply_Some by blast
  then show "tcb_state (tcb s) = TCP_ESTABLISHED \<Longrightarrow> ?thesis"
    using Some by (simp add: tcp_dispatch_def)
qed (simp add: tcp_dispatch_def)

lemma tcp_data_Some:
  assumes "tcb_ok (tcb s)" and "hdr + unat seg \<le> length packet" and "unat seg < 65536"
  shows "\<exists>u. tcp_data packet hdr seg s = Some u"
proof (cases "0 < seg \<and> rx_len (tcb s) + seg < 16384")
  case True
  have rl: "unat (rx_len (tcb s)) < 16384" and len: "length (rx_buffer (tcb s)) = 16384"
    using assms(1) by (simp_all add: tcb_ok_nat)
  then have "unat (rx_len (tcb s) + seg) = unat (rx_len (tcb s)) + unat seg"
    using assms(3) by (intro unat_add_fits) simp
  then have fit: "unat (rx_len (tcb s)) + unat seg < 16384"
    using True by (simp add: word_less_nat_alt)
  define data where "data = take (unat seg) (drop hdr packet)"
  have data: "rdn packet hdr (unat seg) = Some data" "length data = unat seg"
    using assms(2) by (simp_all add: rdn_def data_def)
  moreover obtain buf where buf: "wrn (rx_buffer (tcb s)) (unat (rx_len (tcb s))) data = Some buf"
    using fit data(2) len by (auto simp: wrn_def)
  ultimately show ?thesis
    using tcp_reply_Some unfolding tcp_data_def Let_def if_P [OF True] data(1) Option.bind.simps buf by blast
qed (auto simp: tcp_data_def Let_def)

text \<open>A segment whose header lies inside it is always processed.\<close>

lemma tcp_process_Some:
  assumes "tcb_ok (tcb s)" and "tcb_state (tcb s) = TCP_ESTABLISHED" and "20 \<le> len" and "len \<le> length packet"
    and "unat (drop_bit 4 (packet ! 12)) * 4 \<le> len" and "len < 65536"
  shows "\<exists>r u. tcp_process packet len s = Some (r, u)"
proof -
  define hdr where "hdr = unat (drop_bit 4 (packet ! 12)) * 4"
  have "(of_nat len - of_nat hdr :: u32) = of_nat (len - hdr)"
    using assms(5) by (simp add: of_nat_diff hdr_def)
  then have seg: "unat (of_nat len - of_nat hdr :: u32) = len - hdr"
    using assms(6) by (simp add: unat_of_nat)
  then have "\<exists>u. tcp_data packet hdr (of_nat len - of_nat hdr) s = Some u"
    using assms by (intro tcp_data_Some) (simp_all add: hdr_def)
  then have "tcp_process packet len s \<noteq> None"
    using assms tcp_dispatch_None [OF assms(2)]
    by (subst tcp_process_established) (auto simp: hdr_def [symmetric] simp del: of_nat_mult of_nat_unat)
  then show ?thesis
    by auto
qed

definition established :: "unit net" where
  "established = upd_tcb (\<lambda>t. t\<lparr>tcb_state := TCP_ESTABLISHED\<rparr>) (boot_net ())"

definition sample_segment :: bytes where
  "sample_segment = tcp_header [0, 0] 80 10000 1 1 0x10 @ [7, 8, 9]"

lemma established_fields:
  "tcb_ok (tcb established)" "tcb_state (tcb established) = TCP_ESTABLISHED" "rx_len (tcb established) = 0"
  "rx_processed (tcb established) = 0" "length (rx_buffer (tcb established)) = 16384"
  "default_interface established = None" "unread (tcb established) = []"
  by (simp_all add: established_def boot_net_def upd_tcb_def tcb_ok_def unread_def)

lemma sample_run:
  "\<exists>u. seg_put (sample_segment, 23) established = Some u \<and> tcb_ok (tcb u) \<and> seg_adds (sample_segment, 23) established = [7, 8, 9]"
proof -
  have len: "length sample_segment = 23" and off: "unat (drop_bit 4 (sample_segment ! 12)) = 5"
    and data: "drop 20 sample_segment = [7, 8, 9]"
    by (simp_all add: sample_segment_def tcp_header_def put16be_def put32be_def)
  then have "\<exists>r u. tcp_process sample_segment 23 established = Some (r, u)"
    by (intro tcp_process_Some) (simp_all add: established_fields)
  then obtain r u where u: "tcp_process sample_segment 23 established = Some (r, u)"
    by blast
  then have "tcb_ok (tcb u)"
    using tcp_process_effect [OF established_fields(1) u] by simp
  moreover have "seg_adds (sample_segment, 23) established = [7, 8, 9]"
    by (simp add: seg_adds_def accepted_def Let_def off established_fields data)
  ultimately show ?thesis
    using u by (auto simp: seg_put_def)
qed

lemma sample_events:
  "\<exists>outs u. run_events seg_put seg_adds tcp_take [Put (sample_segment, 23), Get 2] established = Some ([7, 8, 9], outs, u)"
proof -
  obtain u where "seg_put (sample_segment, 23) established = Some u" "tcb_ok (tcb u)"
      "seg_adds (sample_segment, 23) established = [7, 8, 9]"
    using sample_run by blast
  then show ?thesis
    using tcp_take_effect [of u 2] by auto
qed

text \<open>
  C32: A TCP connection is a byte stream: whatever segments arrive in whatever order and however
  the application's reads interleave with them, the bytes it reads followed by those still in
  the buffer are exactly the bytes that were waiting followed by the payloads accepted, in
  arrival order. (Arrival order is not sequence order: the code never compares the sequence
  number, so a retransmitted segment is delivered twice.)
\<close>

theorem tcp_stream_fifo:
  assumes "tcb_ok (tcb s)" and "run_events seg_put seg_adds tcp_take es s = Some (ins, outs, s')"
  shows "unread (tcb s) @ ins = outs @ unread (tcb s')"
  using tcp_stream.fifo [OF assms] by simp

theorem tcp_stream_fifo_witness:
  "\<exists>outs u. run_events seg_put seg_adds tcp_take [Put (sample_segment, 23), Get 2] established = Some ([7, 8, 9], outs, u) \<and>
    outs @ unread (tcb u) = [7, 8, 9]"
proof -
  obtain outs u where r: "run_events seg_put seg_adds tcp_take [Put (sample_segment, 23), Get 2] established = Some ([7, 8, 9], outs, u)"
    using sample_events by blast
  show ?thesis
    using r tcp_stream_fifo [OF established_fields(1) r] established_fields(7) by auto
qed

text \<open>
  A connection delivers less than 16384 bytes in its whole life: the fill level only grows
  until the next connect, however much of the buffer the application has already read.
\<close>

theorem tcp_connection_limit:
  assumes "tcb_ok (tcb s)" and "run_events seg_put seg_adds tcp_take es s = Some (ins, outs, s')"
  shows "unat (rx_len (tcb s)) + length ins < 16384"
  by (rule tcp_stream.limited [OF assms])

theorem tcp_connection_limit_witness:
  "\<exists>outs u. run_events seg_put seg_adds tcp_take [Put (sample_segment, 23), Get 2] established = Some ([7, 8, 9], outs, u) \<and>
    unat (rx_len (tcb established)) + length [7 :: u8, 8, 9] < 16384"
proof -
  obtain outs u where r: "run_events seg_put seg_adds tcp_take [Put (sample_segment, 23), Get 2] established = Some ([7, 8, 9], outs, u)"
    using sample_events by blast
  show ?thesis
    using r tcp_connection_limit [OF established_fields(1) r] by auto
qed

lemma wrapped_sum:
  assumes "d \<le> (100 :: nat)" and "0 < d" and "unat (rl :: u32) < 16384"
  shows "unat (- of_nat d :: u32) = 4294967296 - d" and "rl + - of_nat d < 16384 \<longleftrightarrow> d \<le> unat rl"
proof -
  have d: "unat (of_nat d :: u32) = d"
    using assms by (simp add: unat_of_nat)
  have *: "- of_nat d = (of_nat (4294967296 - d) :: u32)"
    using assms(1) by (simp add: of_nat_diff)
  have "unat (of_nat k :: u32) = k" if "k < 4294967296" for k
    using that by (simp add: unat_of_nat)
  then show n: "unat (- of_nat d :: u32) = 4294967296 - d"
    unfolding * using assms(2) by simp
  show "rl + - of_nat d < 16384 \<longleftrightarrow> d \<le> unat rl"
  proof (cases "d \<le> unat rl")
    case True
    then have "rl + - of_nat d = rl - of_nat d" "of_nat d \<le> rl"
      by (simp_all add: word_le_nat_alt d)
    then have "unat (rl + - of_nat d) = unat rl - d"
      by (simp add: unat_sub d)
    then show ?thesis
      using True assms(3) by (simp add: word_less_nat_alt)
  next
    case False
    then have "unat (rl + - of_nat d) = unat rl + (4294967296 - d)"
      using assms by (subst unat_add_fits) (simp_all add: n)
    then show ?thesis
      using False assms by (simp add: word_less_nat_alt)
  qed
qed

text \<open>
  A segment whose header claims more bytes than it has makes the length wrap: once the
  connection has received as many bytes as are missing, the copy runs over both buffers; before
  that the segment is ignored. One forged segment therefore crashes an established connection.
\<close>

theorem tcp_process_overread:
  assumes "tcb_ok (tcb s)" and "tcb_state (tcb s) = TCP_ESTABLISHED"
    and "20 \<le> len" and "len \<le> length packet" and "length packet \<le> 2014"
    and "len < 4 * unat (drop_bit 4 (packet ! 12))"
  shows "tcp_process packet len s = None \<longleftrightarrow> 4 * unat (drop_bit 4 (packet ! 12)) - len \<le> unat (rx_len (tcb s))"
proof -
  define hdr where "hdr = unat (drop_bit 4 (packet ! 12)) * 4"
  define d where "d = hdr - len"
  have "unat (packet ! 12) div 16 < 16"
    using unat_u8_less [of "packet ! 12"] by linarith
  then have "hdr \<le> 60"
    unfolding hdr_def unat_drop_bit_eq by (simp add: drop_bit_eq_div)
  then have d: "d \<le> 100" "0 < d" "len + d = hdr"
    using assms(6) by (simp_all add: d_def hdr_def mult.commute)
  have seg: "of_nat len - of_nat hdr = (- of_nat d :: u32)"
    unfolding d(3) [symmetric] of_nat_add by simp
  have rl: "unat (rx_len (tcb s)) < 16384"
    using assms(1) by (simp add: tcb_ok_nat)
  note w = wrapped_sum [OF d(1,2) rl]
  have "rdn packet hdr (unat (- of_nat d :: u32)) = None"
    using d(1) assms(5) unfolding rdn_None_iff w(1) by linarith
  moreover have "0 < (- of_nat d :: u32)"
    using w(1) d(1) by (simp add: word_less_nat_alt)
  ultimately have "tcp_data packet hdr (- of_nat d) s = None \<longleftrightarrow> d \<le> unat (rx_len (tcb s))"
    unfolding tcp_data_def Let_def w(2) by simp
  moreover have "tcp_process packet len s = None \<longleftrightarrow> tcp_data packet hdr (- of_nat d) s = None"
    using tcp_process_established [of s len packet] assms tcp_dispatch_None [OF assms(2)]
    by (simp only: hdr_def [symmetric] seg le_trans)
  ultimately show ?thesis
    by (simp add: d_def hdr_def mult.commute)
qed

theorem tcp_process_overread_witness:
  "tcp_process (replicate 12 0 @ [0xF0, 0x10] @ replicate 6 0) 20
     (upd_tcb (\<lambda>t. t\<lparr>rx_len := 100, rx_processed := 100\<rparr>) established) = None"
proof -
  let ?s = "upd_tcb (\<lambda>t. t\<lparr>rx_len := 100, rx_processed := 100\<rparr>) established"
  define p :: bytes where "p = replicate 12 0 @ [0xF0, 0x10] @ replicate 6 0"
  have p: "length p = 20" "unat (drop_bit 4 (p ! 12)) = 15"
    by (simp_all add: p_def nth_append)
  have s: "tcb_ok (tcb ?s)" "tcb_state (tcb ?s) = TCP_ESTABLISHED" "unat (rx_len (tcb ?s)) = 100"
    by (simp_all add: established_def boot_net_def upd_tcb_def tcb_ok_def)
  show ?thesis
    using tcp_process_overread [OF s(1,2), of 20 p] p s(3) by (simp add: p_def)
qed

end
