(* ===== verification/NetDelivery.thy ===== *)
theory NetDelivery
  imports NetFacts
begin

text \<open>
  From one host to another: what \<open>tcp_send\<close> and \<open>udp_send_packet\<close> hand to a driver, given to the
  receive path of a second host. The devices of this theory are a wire: a list of frames to be
  received and the list of frames sent.
\<close>

section \<open>A wire\<close>

record wire =
  inbox :: "bytes list"
  outbox :: "bytes list"

definition wire_send :: "wire \<Rightarrow> bytes \<Rightarrow> int \<times> wire" where
  "wire_send d frame = (int (length frame), d\<lparr>outbox := outbox d @ [frame]\<rparr>)"

definition wire_recv :: "wire \<Rightarrow> nat \<Rightarrow> int \<times> bytes \<times> wire" where
  "wire_recv d room =
     (case inbox d of
        [] \<Rightarrow> (0, [], d)
      | f # fs \<Rightarrow> (int (length f), f, d\<lparr>inbox := fs\<rparr>))"

text \<open>A host whose default interface is on the wire.\<close>

definition on_wire :: "wire net \<Rightarrow> bool" where
  "on_wire s \<longleftrightarrow> net_ok s \<and> (\<forall>e \<in> set (arp_cache s). length (arp_mac e) = 6) \<and>
     (case default_interface s of
        None \<Rightarrow> False
      | Some k \<Rightarrow> length (mac_addr (the_iface s k)) = 6 \<and> send_packet (the_iface s k) = Some wire_send \<and>
          recv_packet (the_iface s k) = Some wire_recv)"

definition deliver :: "bytes \<Rightarrow> wire net \<Rightarrow> wire net" where
  "deliver frame s = s\<lparr>dev := (dev s)\<lparr>inbox := [frame]\<rparr>\<rparr>"

section \<open>Frames\<close>

definition ip_frame :: "bytes \<Rightarrow> bytes \<Rightarrow> u8 \<Rightarrow> u32 \<Rightarrow> u32 \<Rightarrow> bytes \<Rightarrow> bytes" where
  "ip_frame dst_mac src_mac protocol src dst data =
     eth_header dst_mac src_mac 0x0800 @ ip_header protocol (length data) src dst @ data"

lemma length_ip_header: "length (ip_header protocol n src dst) = 20"
  by (simp add: ip_header_def ip_header_with_def)

lemma arp_find_length: "\<forall>e \<in> set c. length (arp_mac e) = 6 \<Longrightarrow> arp_find ip c = Some m \<Longrightarrow> length m = 6"
  by (induction c) (auto split: if_splits)

lemma length_next_hop:
  "\<forall>e \<in> set (arp_cache s). length (arp_mac e) = 6 \<Longrightarrow> length (next_hop_mac ip f s) = 6"
  by (auto simp: next_hop_mac_def arp_resolve_def dest: arp_find_length split: option.splits)

lemma ip_send_on_wire:
  assumes "on_wire s" and "default_interface s = Some k" and "length data \<le> 1466"
  shows "\<exists>m s'. ip_send ip protocol data s = Some (int (34 + length data), s') \<and> length m = 6 \<and>
    outbox (dev s') = outbox (dev s) @ [ip_frame m (mac_addr (the_iface s k)) protocol (ip_addr (the_iface s k)) ip data] \<and>
    inbox (dev s') = inbox (dev s)"
proof -
  let ?m = "next_hop_mac ip (the_iface s k) s"
  define frame where "frame = ip_frame ?m (mac_addr (the_iface s k)) protocol (ip_addr (the_iface s k)) ip data"
  have m: "length ?m = 6" "length (mac_addr (the_iface s k)) = 6"
    using assms(1,2) by (simp_all add: on_wire_def length_next_hop)
  then have len: "length frame = 34 + length data"
    by (simp add: frame_def ip_frame_def eth_header_def length_ip_header)
  then have ne: "frame \<noteq> []"
    by auto
  have "ip_send ip protocol data s = Some (netif_send k frame s)"
    using assms by (simp add: ip_send_def netif_get_default_def Let_def frame_def ip_frame_def)
  moreover have "send_packet (the_iface s k) = Some wire_send"
    using assms(1,2) by (simp add: on_wire_def)
  ultimately show ?thesis
    using ne len m(1) by (auto simp: netif_send_def wire_send_def upd_iface_def frame_def)
qed

text \<open>The dispatch of a well-formed IP frame.\<close>

lemma ip_receive_frame:
  assumes "length dst_mac = 6" and "length src_mac = 6"
  shows "ip_receive (ip_frame dst_mac src_mac protocol src dst data @ rest) (34 + length data) s =
    (if protocol = 1 then map_option (\<lambda>r. (r, s)) (icmp_process (data @ rest) (length data))
     else if protocol = 6 then tcp_process (data @ rest) (length data) s
     else if protocol = 17 then udp_process (data @ rest) (length data) s
     else Some (0, s))"
proof -
  let ?b = "ip_frame dst_mac src_mac protocol src dst data @ rest"
  have e: "length (eth_header dst_mac src_mac 0x0800) = 14" "eth_header dst_mac src_mac 0x0800 = (dst_mac @ src_mac) @ [8, 0]"
    using assms by (simp_all add: eth_header_def put16be_def)
  have i: "ip_header protocol n src dst ! 9 = protocol" for n
    by (simp add: ip_header_def ip_header_with_def nth_append put16be_def)
  have "length ?b = 34 + length data + length rest"
    using assms by (simp add: ip_frame_def e(1) length_ip_header)
  moreover have "?b ! 12 = 8" "?b ! 13 = 0"
    using assms by (simp_all add: ip_frame_def e(2) nth_append)
  moreover have "?b ! 23 = protocol"
    unfolding ip_frame_def using i by (simp add: nth_append e(1) length_ip_header)
  moreover have "drop 34 ?b = data @ rest"
    by (simp add: ip_frame_def e(1) length_ip_header)
  ultimately show ?thesis
    by (simp add: ip_receive_def rd16be_def rd8_def join16_def Let_def)
qed

text \<open>Polling a host takes the frame from the wire to \<open>ip_receive\<close>.\<close>

lemma netif_poll_deliver:
  assumes "on_wire s" and "0 < length frame" and "length frame \<le> 2048"
  shows "\<exists>t rest. tx_only s (t\<lparr>frame_buf := frame_buf s\<rparr>) \<and> length rest + length frame = 2048 \<and> frame_buf t = frame @ rest \<and>
    dev t = (dev s)\<lparr>inbox := []\<rparr> \<and>
    netif_poll (deliver frame s) = map_option snd (ip_receive (frame @ rest) (length frame) t)"
proof -
  obtain k where k: "default_interface s = Some k" "recv_packet (the_iface s k) = Some wire_recv"
    using assms(1) by (auto simp: on_wire_def split: option.splits)
  have fb: "length (frame_buf s) = 2048" "frame_buf s \<noteq> []"
    using assms(1) by (auto simp: on_wire_def net_ok_def)
  define rest where "rest = drop (length frame) (frame_buf s)"
  define u where "u = upd_iface k (\<lambda>f. f\<lparr>rx_packets := rx_packets f + 1, rx_bytes := rx_bytes f + of_int (int (length frame))\<rparr>)
      (s\<lparr>dev := (dev s)\<lparr>inbox := []\<rparr>\<rparr>)"
  have "netif_receive k (frame_buf s) (deliver frame s) = (int (length frame), frame @ rest, u)"
    using k fb assms by (simp add: netif_receive_def deliver_def the_iface_def wire_recv_def u_def rest_def upd_iface_def)
  then have "netif_poll (deliver frame s) = map_option snd (ip_receive (frame @ rest) (length frame) (u\<lparr>frame_buf := frame @ rest\<rparr>))"
    using k assms(2) by (simp add: netif_poll_def netif_get_default_def deliver_def)
  moreover have "tx_only s u"
    unfolding u_def by (rule tx_only_iface) (simp_all add: iface_config_def)
  moreover have "u\<lparr>frame_buf := frame_buf s\<rparr> = u"
    by (simp add: u_def upd_iface_def)
  moreover have "dev u = (dev s)\<lparr>inbox := []\<rparr>"
    by (simp add: u_def upd_iface_def)
  ultimately show ?thesis
    using fb assms(3) by (intro exI [of _ "u\<lparr>frame_buf := frame @ rest\<rparr>"] exI [of _ rest]) (simp add: rest_def)
qed

lemma the_iface_tx:
  assumes "tx_only s s'" and "k < length (interfaces s)"
  shows "iface_config (the_iface s' k) = iface_config (the_iface s k)"
    "send_packet (the_iface s' k) = send_packet (the_iface s k)"
    "recv_packet (the_iface s' k) = recv_packet (the_iface s k)"
  using assms unfolding tx_only_def the_iface_def by (metis nth_map)+

lemma on_wire_tx: "on_wire s \<Longrightarrow> tx_only s s' \<Longrightarrow> on_wire s'"
proof -
  assume w: "on_wire s" and t: "tx_only s s'"
  obtain k where k: "default_interface s = Some k"
    using w by (auto simp: on_wire_def split: option.splits)
  have "k < length (interfaces s)"
    using w k by (auto simp: on_wire_def net_ok_def)
  from the_iface_tx [OF t this] show ?thesis
    using w k t net_ok_tx [OF t] by (simp add: on_wire_def tx_only_fields [OF t] iface_config_def)
qed

lemma on_wire_frame_buf: "on_wire s \<Longrightarrow> length b = 2048 \<Longrightarrow> on_wire (s\<lparr>frame_buf := b\<rparr>)"
  by (simp add: on_wire_def net_ok_def the_iface_def split: option.splits)

lemma on_wire_upd_tcb: "on_wire s \<Longrightarrow> tcb_ok (f (tcb s)) \<Longrightarrow> on_wire (upd_tcb f s)"
  by (simp add: on_wire_def net_ok_def upd_tcb_def the_iface_def split: option.splits)

section \<open>Delivery\<close>

lemma tcp_segment_shape:
  "length (tcp_segment a b c d e f g data) = 20 + length data"
  "tcp_segment a b c d e f g data ! 12 = 0x50"
  "drop 20 (tcp_segment a b c d e f g data) = data"
proof -
  let ?ck = "tcp_checksum a b (tcp_header [0, 0] c d e f g @ data)"
  let ?h = "tcp_header ?ck c d e f g"
  have ck: "length ?ck = 2"
    by (simp only: tcp_checksum_def Let_def length_put)
  have "length (tcp_header ck c d e f g) = 18 + length ck" "tcp_header ck c d e f g ! 12 = 0x50" for ck
    by (simp_all add: tcp_header_def put16be_def put32be_def)
  then have h: "length ?h = 20" "?h ! 12 = 0x50"
    using ck by simp_all
  then show "length (tcp_segment a b c d e f g data) = 20 + length data"
    "tcp_segment a b c d e f g data ! 12 = 0x50" "drop 20 (tcp_segment a b c d e f g data) = data"
    by (simp_all add: tcp_segment_def nth_append)
qed

lemma accepted_segment:
  assumes "tcb_state t = TCP_ESTABLISHED" and "unat (rx_len t) + length data < 16384"
  shows "accepted (tcp_segment a b c d e f g data @ rest) (20 + length data) t = data"
proof -
  let ?p = "tcp_segment a b c d e f g data @ rest"
  have off: "unat (drop_bit 4 (?p ! 12)) * 4 = 20"
    by (simp add: nth_append tcp_segment_shape)
  have seg: "of_nat (20 + length data) - of_nat 20 = (of_nat (length data) :: u32)"
    by simp
  have n: "unat (of_nat (length data) :: u32) = length data"
    using assms(2) by (simp add: unat_of_nat)
  then have "rx_len t + of_nat (length data) < 16384"
    using assms(2) by (simp add: word_less_nat_alt unat_add_fits)
  then show ?thesis
    unfolding accepted_def Let_def off seg using assms(1) n by (simp add: tcp_segment_shape)
qed

text \<open>
  C21: Delivery: when an established host sends up to 1446 bytes, exactly one frame goes on the
  wire, and an established host that polls that frame appends exactly those bytes to its stream
  if its buffer still has room for them. (Neither addresses, ports, sequence numbers nor
  checksums are compared, so the receiver need not be the peer of the sender.)
\<close>

theorem tcp_end_to_end:
  assumes "on_wire a" and "on_wire b"
    and "tcb_state (tcb a) = TCP_ESTABLISHED" and "tcb_state (tcb b) = TCP_ESTABLISHED"
    and "length data \<le> 1446" and "unat (rx_len (tcb b)) + length data < 16384"
  shows "\<exists>frame a' b'. tcp_send data a = Some (int (length data), a') \<and>
    outbox (dev a') = outbox (dev a) @ [frame] \<and>
    netif_poll (deliver frame b) = Some b' \<and> unread (tcb b') = unread (tcb b) @ data"
proof -
  let ?t = "tcb a"
  obtain k where k: "default_interface a = Some k"
    using assms(1) by (auto simp: on_wire_def split: option.splits)
  let ?ip = "ip_addr (the_iface a k)" and ?mac = "mac_addr (the_iface a k)"
  define seg where "seg = tcp_segment ?ip (remote_ip ?t) (local_port ?t) (remote_port ?t) (snd_nxt ?t) (rcv_nxt ?t)
      (TCP_FLAG_PSH OR TCP_FLAG_ACK) data"
  have len: "length seg = 20 + length data" and off: "seg ! 12 = 0x50"
    by (simp_all add: seg_def tcp_segment_shape)
  obtain m a1 where sent: "ip_send (remote_ip ?t) 6 seg a = Some (int (34 + length seg), a1)" and m: "length m = 6"
    and out: "outbox (dev a1) = outbox (dev a) @ [ip_frame m ?mac 6 ?ip (remote_ip ?t) seg]"
    using ip_send_on_wire [OF assms(1) k, of seg "remote_ip ?t" 6] len assms(5) by auto
  define frame where "frame = ip_frame m ?mac 6 ?ip (remote_ip ?t) seg"
  have mac: "length ?mac = 6"
    using assms(1) k by (simp add: on_wire_def)
  have flen: "length frame = 34 + length seg"
    using m mac by (simp add: frame_def ip_frame_def eth_header_def length_ip_header)
  have "tcp_send data a = Some (int (length data), upd_tcb (\<lambda>t. t\<lparr>snd_nxt := snd_nxt t + of_nat (length data)\<rparr>) a1)"
    using sent assms(3,5) k by (simp add: tcp_send_def tcp_send_packet_def netif_get_default_def Let_def seg_def)
  moreover have "outbox (dev (upd_tcb f a1)) = outbox (dev a) @ [frame]" for f
    by (simp add: upd_tcb_def out frame_def)
  moreover obtain t rest where t: "tx_only b (t\<lparr>frame_buf := frame_buf b\<rparr>)"
    and poll: "netif_poll (deliver frame b) = map_option snd (ip_receive (frame @ rest) (length frame) t)"
    using netif_poll_deliver [OF assms(2), of frame] flen len assms(5) by auto
  have tcb: "tcb t = tcb b"
    using tx_only_fields(1) [OF t] by simp
  have ok: "tcb_ok (tcb t)"
    using assms(2) by (simp add: tcb on_wire_def net_ok_def)
  have recv: "ip_receive (frame @ rest) (length frame) t = tcp_process (seg @ rest) (length seg) t"
    using ip_receive_frame [OF m mac, of 6 ?ip "remote_ip ?t" seg rest t] by (simp add: frame_def flen [unfolded frame_def])
  have "\<exists>r u. tcp_process (seg @ rest) (length seg) t = Some (r, u)"
    using ok assms(4,5) off len by (intro tcp_process_Some) (simp_all add: tcb nth_append)
  then obtain r u where u: "tcp_process (seg @ rest) (length seg) t = Some (r, u)"
    by blast
  have "unread (tcb u) = unread (tcb b) @ data"
    using tcp_process_effect [OF ok u] accepted_segment [OF assms(4,6)] by (simp add: tcb len) (simp add: seg_def)
  ultimately show ?thesis
    using poll recv u by auto
qed

definition wire_iface :: "wire iface" where
  "wire_iface = (the_iface (boot_net \<lparr>inbox = [], outbox = []\<rparr>) 0)\<lparr>ip_addr := 0x0A00020F,
     send_packet := Some wire_send, recv_packet := Some wire_recv\<rparr>"

definition wire_host :: "wire net" where
  "wire_host = upd_tcb (\<lambda>t. t\<lparr>tcb_state := TCP_ESTABLISHED\<rparr>)
     (snd (netif_register wire_iface (boot_net \<lparr>inbox = [], outbox = []\<rparr>)))"

lemma wire_host_ok: "on_wire wire_host" "tcb_state (tcb wire_host) = TCP_ESTABLISHED" "rx_len (tcb wire_host) = 0"
    "unread (tcb wire_host) = []"
proof -
  have "net_ok wire_host"
    unfolding wire_host_def by (intro upd_state_ok register_ok boot_net_ok)
  then show "on_wire wire_host"
    by (simp add: on_wire_def wire_host_def wire_iface_def upd_tcb_def netif_register_def the_iface_def boot_net_def)
  show "tcb_state (tcb wire_host) = TCP_ESTABLISHED" "rx_len (tcb wire_host) = 0" "unread (tcb wire_host) = []"
    by (simp_all add: wire_host_def upd_tcb_def netif_register_def boot_net_def unread_def)
qed

theorem tcp_end_to_end_witness:
  "\<exists>frame a' b'. tcp_send [1, 2, 3] wire_host = Some (3, a') \<and> outbox (dev a') = outbox (dev wire_host) @ [frame] \<and>
    netif_poll (deliver frame wire_host) = Some b' \<and> unread (tcb b') = [1, 2, 3]"
  using tcp_end_to_end [OF wire_host_ok(1,1,2,2), of "[1, 2, 3]"] wire_host_ok(3,4) by simp

end
