(* ===== verification/NetDns.thy ===== *)
theory NetDns
  imports NetDelivery
begin

text \<open>
  What the resolver and \<open>tcp_connect\<close> guarantee: address literals, the length limit of host names,
  the reading of DNS answers, the result of a connect and the handshake.
\<close>

section \<open>Address literals\<close>

text \<open>Decimal digits as text, and the number they denote.\<close>

definition digits :: "nat list \<Rightarrow> bytes" where
  "digits ds = map (\<lambda>d. 0x30 + of_nat d) ds"

definition dec_val :: "nat list \<Rightarrow> nat" where
  "dec_val ds = foldl (\<lambda>v d. v * 10 + d) 0 ds"

definition is_dec :: "nat list \<Rightarrow> bool" where
  "is_dec ds \<longleftrightarrow> ds \<noteq> [] \<and> (\<forall>d \<in> set ds. d < 10)"

lemma digit_cases: "d < 10 \<Longrightarrow> d \<in> {0, 1, 2, 3, 4, 5, 6, 7, 8, 9 :: nat}"
  by auto

lemma digit_byte:
  assumes "d < 10"
  shows "is_digit8 (0x30 + of_nat d)" "0x30 + of_nat d \<noteq> (0 :: u8)" "ucast (0x30 + of_nat d :: u8) - 0x30 = (of_nat d :: u32)"
  using digit_cases [OF assms] by (auto simp: is_digit8_def)

lemma dot_not_digit: "\<not> is_digit8 0x2E"
  by (simp add: is_digit8_def)

lemma read_part_digits:
  "\<forall>d \<in> set ds. d < 10 \<Longrightarrow> rest = [] \<or> \<not> is_digit8 (hd rest) \<Longrightarrow>
   read_part (digits ds @ rest) v = (foldl (\<lambda>v d. v * 10 + of_nat d) v ds, rest)"
proof (induction ds arbitrary: v)
  case Nil
  then show ?case
    by (cases rest) (auto simp: digits_def)
next
  case (Cons d ds)
  then show ?case
    using digit_byte [of d] by (simp add: digits_def del: of_nat_add)
qed

lemma foldl_of_nat: "foldl (\<lambda>v d. v * 10 + of_nat d) (of_nat n) ds = (of_nat (foldl (\<lambda>v d. v * 10 + d) n ds) :: u32)"
proof (induction ds arbitrary: n)
  case (Cons d ds)
  have "(of_nat n * 10 + of_nat d :: u32) = of_nat (n * 10 + d)"
    by simp
  then show ?case
    using Cons [of "n * 10 + d"] by (simp del: of_nat_add of_nat_mult)
qed simp

lemma read_part_val:
  assumes "is_dec ds" and "rest = [] \<or> \<not> is_digit8 (hd rest)"
  shows "read_part (digits ds @ rest) 0 = (of_nat (dec_val ds), rest)"
  using assms read_part_digits [of ds rest 0] foldl_of_nat [of 0 ds] by (simp add: is_dec_def dec_val_def)

lemma ipv4_digits:
  "\<forall>d \<in> set ds. d < 10 \<Longrightarrow> ipv4_loop (digits ds @ rest) dots n = ipv4_loop rest dots (n + length ds)"
proof (induction ds arbitrary: n)
  case (Cons d ds)
  then show ?case
    using digit_byte [of d] by (simp add: digits_def)
qed (simp add: digits_def)

lemma and_FF_of_nat: "(of_nat n :: u32) AND 0xFF = ucast (of_nat n :: u8)"
proof -
  have "(of_nat n :: u32) AND 0xFF = take_bit 8 (of_nat n)"
    by (simp add: take_bit_eq_mask mask_eq_exp_minus_1)
  also have "\<dots> = ucast (of_nat n :: u8)"
    by (rule bit_word_eqI) (auto simp: bit_simps)
  finally show ?thesis .
qed

lemma push_join: "push_bit 8 (push_bit 8 (push_bit 8 (ucast (a :: u8)) OR ucast b) OR ucast c) OR ucast d = join32 a b c d"
  by (simp add: join32_def push_bit_or or.assoc)

text \<open>
  A dotted quad resolves to its address without any traffic: for any four decimal numbers,
  with leading zeros or above 255, the resolver returns the address of the four numbers
  modulo 256 and leaves the state unchanged.
\<close>

theorem dns_literal:
  assumes "is_dec a" and "is_dec b" and "is_dec c" and "is_dec d"
  shows "dns_resolve g (digits a @ 0x2E # digits b @ 0x2E # digits c @ 0x2E # digits d) s =
    Some (join32 (of_nat (dec_val a)) (of_nat (dec_val b)) (of_nat (dec_val c)) (of_nat (dec_val d)), s)"
proof -
  let ?h = "digits a @ 0x2E # digits b @ 0x2E # digits c @ 0x2E # digits d"
  have four: "4 = Suc (Suc (Suc (Suc 0)))"
    by simp
  have pos: "0 < length a" "0 < length b" "0 < length c" "0 < length d" "a \<noteq> []"
    using assms by (auto simp: is_dec_def)
  have lt: "\<forall>x \<in> set a. x < 10" "\<forall>x \<in> set b. x < 10" "\<forall>x \<in> set c. x < 10" "\<forall>x \<in> set d. x < 10"
    using assms by (auto simp: is_dec_def)
  have "ipv4_loop ?h 0 0"
    using pos ipv4_digits [OF lt(4), of "[]"]
    by (simp add: ipv4_digits [OF lt(1)] ipv4_digits [OF lt(2)] ipv4_digits [OF lt(3)] dot_not_digit)
  moreover have "peek ?h \<noteq> 0"
    using pos(5) lt(1) digit_byte(2) by (cases a) (auto simp: digits_def)
  ultimately have "is_ipv4_literal ?h"
    by (simp add: is_ipv4_literal_def)
  moreover have "parse_ip_literal ?h = join32 (of_nat (dec_val a)) (of_nat (dec_val b)) (of_nat (dec_val c)) (of_nat (dec_val d))"
    using read_part_val [OF assms(4), of "[]"]
    by (simp add: parse_ip_literal_def four read_part_val assms dot_not_digit and_FF_of_nat del: push_bit_and)
      (simp add: push_join [symmetric])
  ultimately show ?thesis
    by (simp add: dns_resolve_def)
qed

theorem dns_literal_witness:
  "dns_resolve (\<lambda>d. (0, d)) (lit ''10.0.02.271'') (boot_net ()) = Some (0x0A00020F, boot_net ())"
proof -
  have "lit ''10.0.02.271'' = digits [1, 0] @ 0x2E # digits [0] @ 0x2E # digits [0, 2] @ 0x2E # digits [2, 7, 1]"
    by (simp add: lit_def digits_def)
  then show ?thesis
    using dns_literal [of "[1, 0]" "[0]" "[0, 2]" "[2, 7, 1]" "\<lambda>d. (0, d)" "boot_net ()"]
    by (simp add: is_dec_def dec_val_def join32_def)
qed

section \<open>Reading answers\<close>

definition enc_name :: "bytes list \<Rightarrow> bytes" where
  "enc_name ls = concat (map (\<lambda>l. of_nat (length l) # l) ls) @ [0]"

text \<open>A resource record with a compressed name: type, class and time to live, data.\<close>

definition enc_rr :: "u16 \<times> bytes \<times> bytes \<Rightarrow> bytes" where
  "enc_rr r = (case r of (type, mid, rdata) \<Rightarrow>
     [0xC0, 0x0C] @ put16be type @ mid @ put16be (of_nat (length rdata)) @ rdata)"

definition rr_ok :: "u16 \<times> bytes \<times> bytes \<Rightarrow> bool" where
  "rr_ok r = (case r of (type, mid, rdata) \<Rightarrow> length mid = 6 \<and> length rdata < 65536)"

lemma skip_labels_enc:
  assumes "\<forall>l \<in> set ls. l \<noteq> [] \<and> length l < 256" and "data = h @ enc_name ls @ rest"
    and "length h + length (enc_name ls) \<le> unat plen" and "unat plen \<le> 65535"
  shows "skip_labels data plen (length h) = Some (length h + length (enc_name ls) - 1)"
  using assms
proof (induction ls arbitrary: h)
  case Nil
  then show ?case
    by (subst skip_labels.simps) (simp add: enc_name_def rd8_def nth_append)
next
  case (Cons l ls)
  have l: "unat (of_nat (length l) :: u8) = length l" "(of_nat (length l) :: u8) \<noteq> 0"
    using Cons.prems(1) by (auto simp: unat_of_nat word_unat_eq_iff)
  have e: "enc_name (l # ls) = (of_nat (length l) # l) @ enc_name ls"
    by (simp add: enc_name_def)
  have ih: "skip_labels data plen (length (h @ of_nat (length l) # l)) =
      Some (length (h @ of_nat (length l) # l) + length (enc_name ls) - 1)"
    using Cons.prems e by (intro Cons.IH) simp_all
  have "before_end plen (length h) = Some True"
    using Cons.prems(3,4) e by (simp add: before_end_def word_less_nat_alt)
  moreover have "rd8 data (length h) = Some (of_nat (length l))"
    using Cons.prems(2) e by (simp add: rd8_def nth_append)
  moreover have "length h + length l + 1 = length (h @ of_nat (length l) # l)"
    by simp
  ultimately have "skip_labels data plen (length h) = skip_labels data plen (length (h @ of_nat (length l) # l))"
    using l by (subst skip_labels.simps) simp
  then show ?case
    unfolding ih e by simp
qed

lemma rr_fields:
  assumes "rr_ok (type, mid, rdata)" and "data = pre @ enc_rr (type, mid, rdata) @ post"
  shows "rd8 data (length pre) = Some 0xC0" "rd16be data (length pre + 2) = Some type"
    "rd16be data (length pre + 2 + 8) = Some (of_nat (length rdata))"
    "length data = length pre + 12 + length rdata + length post"
    "\<And>j. j < length rdata \<Longrightarrow> data ! (length pre + 12 + j) = rdata ! j"
proof -
  have mid: "length mid = 6"
    using assms(1) by (simp add: rr_ok_def)
  have d: "data = pre @ [0xC0, 0x0C, ucast (drop_bit 8 type), ucast type] @ mid @
      [ucast (drop_bit 8 (of_nat (length rdata) :: u16)), ucast (of_nat (length rdata) :: u16)] @ rdata @ post"
    using assms(2) by (simp add: enc_rr_def put16be_def)
  show "rd8 data (length pre) = Some 0xC0"
    unfolding d by (simp add: rd8_def nth_append)
  have "data ! (length pre + 2) = ucast (drop_bit 8 type)" "data ! (length pre + 3) = ucast type"
    unfolding d by (simp_all add: nth_append)
  moreover have "length pre + 2 + 2 \<le> length data"
    unfolding d using mid by simp
  moreover have "length pre + 2 + 1 = length pre + 3"
    by simp
  ultimately show "rd16be data (length pre + 2) = Some type"
    unfolding rd16be_def by (simp only: join16_put16) simp
  have "data ! (length pre + 10) = ucast (drop_bit 8 (of_nat (length rdata) :: u16))"
    "data ! (length pre + 11) = ucast (of_nat (length rdata) :: u16)"
    unfolding d using mid by (simp_all add: nth_append)
  moreover have "length pre + 12 \<le> length data"
    unfolding d using mid by simp
  moreover have "length pre + 2 + 8 + 1 = length pre + 11" "length pre + 2 + 8 = length pre + 10"
    by simp_all
  ultimately show "rd16be data (length pre + 2 + 8) = Some (of_nat (length rdata))"
    unfolding rd16be_def by (simp only: join16_put16) simp
  show "length data = length pre + 12 + length rdata + length post"
    unfolding d using mid by simp
  show "data ! (length pre + 12 + j) = rdata ! j" if "j < length rdata" for j
    unfolding d using mid that by (simp add: nth_append)
qed

lemma dns_answers_enc:
  assumes "\<forall>r \<in> set rs. rr_ok r \<and> (fst r \<noteq> 1 \<or> length (snd (snd r)) \<noteq> 4)"
    and "length mid = 6" and "length rs < n" and "unat plen \<le> 65535"
    and "data = pre @ concat (map enc_rr rs) @ enc_rr (1, mid, [a, b, c, d]) @ post"
    and "length pre + length (concat (map enc_rr rs)) + 16 \<le> unat plen"
  shows "dns_answers n data plen (length pre) s = Some (s\<lparr>last_dns_ip := join32 a b c d\<rparr>)"
  using assms
proof (induction rs arbitrary: n pre)
  case Nil
  then obtain m where n: "n = Suc m"
    by (cases n) auto
  have ok: "rr_ok (1, mid, [a, b, c, d])"
    using Nil.prems(2) by (simp add: rr_ok_def)
  note f = rr_fields [OF ok, of data pre post]
  have d: "data = pre @ enc_rr (1, mid, [a, b, c, d]) @ post"
    using Nil.prems(5) by simp
  have "before_end plen (length pre) = Some True"
    using Nil.prems(4,6) by (simp add: before_end_def word_less_nat_alt)
  moreover have "rd32be data (length pre + 2 + 10) = Some (join32 a b c d)"
  proof -
    have x: "data ! (length pre + 12 + 0) = a" "data ! (length pre + 12 + 1) = b"
        "data ! (length pre + 12 + 2) = c" "data ! (length pre + 12 + 3) = d"
      using f(5) [OF d, of 0] f(5) [OF d, of 1] f(5) [OF d, of 2] f(5) [OF d, of 3] by simp_all
    have "length pre + 12 + 4 \<le> length data"
      using f(4) [OF d] by simp
    moreover have "length pre + 2 + 10 = length pre + 12 + 0" "length pre + 12 + 0 + 1 = length pre + 12 + 1"
        "length pre + 12 + 0 + 2 = length pre + 12 + 2" "length pre + 12 + 0 + 3 = length pre + 12 + 3"
      by simp_all
    ultimately show ?thesis
      unfolding rd32be_def by (simp only: x) simp
  qed
  moreover have "\<not> unat plen < length pre + 2 + 10" "length pre + 2 + 10 + 4 \<le> unat plen"
    using Nil.prems(6) by simp_all
  ultimately show ?case
    using f(1-3) [OF d] unfolding n dns_answers.simps
    by (simp only: Option.bind.simps if_True if_False simp_thms) simp
next
  case (Cons r rs)
  obtain type mid' rdata where r: "r = (type, mid', rdata)"
    by (cases r) auto
  from Cons.prems obtain m where n: "n = Suc m" and m: "length rs < m"
    by (cases n) auto
  have ok: "rr_ok (type, mid', rdata)" and ty: "type \<noteq> 1 \<or> length rdata \<noteq> 4"
    using Cons.prems(1) r by auto
  let ?post = "concat (map enc_rr rs) @ enc_rr (1, mid, [a, b, c, d]) @ post"
  have d: "data = pre @ enc_rr (type, mid', rdata) @ ?post"
    using Cons.prems(5) r by simp
  note f = rr_fields [OF ok d]
  have len: "length (enc_rr r) = 12 + length rdata" "unat (of_nat (length rdata) :: u16) = length rdata"
    using ok r by (auto simp: enc_rr_def rr_ok_def unat_of_nat)
  have ih: "dns_answers m data plen (length (pre @ enc_rr r)) s = Some (s\<lparr>last_dns_ip := join32 a b c d\<rparr>)"
    using Cons.prems m r by (intro Cons.IH) simp_all
  have "before_end plen (length pre) = Some True"
    using Cons.prems(4,6) len by (simp add: before_end_def word_less_nat_alt)
  moreover have "\<not> unat plen < length pre + 2 + 10"
    using Cons.prems(6) len by simp
  moreover have "type \<noteq> 1 \<or> (of_nat (length rdata) :: u16) \<noteq> 4"
    using ty len(2) by auto
  moreover have e: "length pre + 2 + 10 + unat (of_nat (length rdata) :: u16) = length (pre @ enc_rr r)"
    unfolding len(2) using len(1) by simp
  have "dns_answers m data plen (length pre + 2 + 10 + unat (of_nat (length rdata) :: u16)) s =
      Some (s\<lparr>last_dns_ip := join32 a b c d\<rparr>)"
    by (simp only: e ih)
  ultimately show ?case
    using f(1-3) unfolding n dns_answers.simps
    by (simp only: Option.bind.simps if_True if_False simp_thms) auto
qed

text \<open>
  Any DNS answer from port 53 is believed: a response that asks one question, about whatever
  name, with whatever identifier, and whose first four-byte address record comes after any
  number of other records, sets the resolver's result to that address and changes nothing else.
\<close>

theorem dns_answer_believed:
  assumes "length h = 12" and "rd16be h 4 = Some 1" and "rd16be h 6 = Some n"
    and "\<forall>l \<in> set ls. l \<noteq> [] \<and> length l < 256"
    and "\<forall>r \<in> set rs. rr_ok r \<and> (fst r \<noteq> 1 \<or> length (snd (snd r)) \<noteq> 4)"
    and "length q = 4" and "length mid = 6" and "length rs < unat n"
    and "length (h @ enc_name ls @ q @ concat (map enc_rr rs) @ enc_rr (1, mid, [a, b, c, d])) \<le> unat plen"
    and "unat plen \<le> 65535"
  shows "dns_process (h @ enc_name ls @ q @ concat (map enc_rr rs) @ enc_rr (1, mid, [a, b, c, d]) @ rest) plen s =
    Some (0, s\<lparr>last_dns_ip := join32 a b c d\<rparr>)"
proof -
  let ?rrs = "concat (map enc_rr rs) @ enc_rr (1, mid, [a, b, c, d]) @ rest"
  let ?data = "h @ enc_name ls @ q @ ?rrs"
  have rd: "rd16be (h @ t) 4 = Some 1" "rd16be (h @ t) 6 = Some n" for t
    using assms(1-3) by (auto simp: rd16be_def nth_append split: if_splits)
  have "0 < length (enc_name ls)"
    by (simp add: enc_name_def)
  moreover have "skip_labels ?data plen 12 = Some (12 + length (enc_name ls) - 1)"
    using assms(4,9,10) skip_labels_enc [of ls ?data h "q @ ?rrs" plen] assms(1) by simp
  ultimately have q: "skip_questions 1 ?data plen 12 = Some (length (h @ enc_name ls @ q))"
    using assms(1,6) by simp
  have "dns_answers (unat n) ?data plen (length (h @ enc_name ls @ q)) s = Some (s\<lparr>last_dns_ip := join32 a b c d\<rparr>)"
    using assms(5-10) by (intro dns_answers_enc [of rs mid _ _ _ _ a b c d rest]) (simp_all add: enc_rr_def)
  moreover have "\<not> plen < 12"
    using assms(1,9) by (simp add: word_less_nat_alt)
  moreover have "unat (1 :: u16) = 1"
    by simp
  ultimately show ?thesis
    unfolding dns_process_def by (simp only: if_False rd Option.bind.simps q)
qed

definition sample_header :: bytes where
  "sample_header = [0, 0, 0x81, 0x80, 0, 1, 0, 2, 0, 0, 0, 0]"

theorem dns_answer_believed_witness:
  "dns_process (sample_header @ enc_name [lit ''evil''] @ [0, 1, 0, 1]
      @ concat (map enc_rr [(5, [0, 1, 0, 0, 0, 9], [1, 2, 3])]) @ enc_rr (1, [0, 1, 0, 0, 0, 9], [6, 6, 6, 6]) @ []) 60 (boot_net ()) =
    Some (0, (boot_net ())\<lparr>last_dns_ip := join32 6 6 6 6\<rparr>)"
proof (rule dns_answer_believed)
  show "length sample_header = 12"
    by (simp add: sample_header_def)
  show "rd16be sample_header 4 = Some 1" "rd16be sample_header 6 = Some 2"
    by (simp_all add: sample_header_def rd16be_def join16_def)
  show "\<forall>l \<in> set [lit ''evil'']. l \<noteq> [] \<and> length l < 256"
    by simp
  show "\<forall>r \<in> set [(5, [0, 1, 0, 0, 0, 9], [1, 2, 3])]. rr_ok r \<and> (fst r \<noteq> 1 \<or> length (snd (snd r)) \<noteq> 4)"
    by (simp add: rr_ok_def)
qed (simp_all add: sample_header_def enc_name_def enc_rr_def)

section \<open>Long host names\<close>

lemma str_cmp_0: "str_cmp a b = 0 \<longleftrightarrow> cstr a = cstr b"
proof (induction a b rule: str_cmp.induct)
  case (1 b)
  then show ?case
    by (cases b) auto
next
  case (2 c a b)
  then show ?case
    by (cases b) auto
qed

lemma lower8_nonzero: "c \<noteq> 0 \<Longrightarrow> lower8 c \<noteq> 0"
proof -
  assume "c \<noteq> 0"
  have "c + 32 \<noteq> 0" if "c \<le> 0x5A"
  proof
    assume "c + 32 = 0"
    then have "c = - 32"
      by (simp add: eq_neg_iff_add_eq_0)
    with that show False
      by (simp add: word_le_nat_alt)
  qed
  with \<open>c \<noteq> 0\<close> show ?thesis
    by (simp add: lower8_def)
qed

lemma nul_free_map_lower: "nul_free xs \<Longrightarrow> nul_free (map lower8 xs)"
  by (induction xs) (simp_all add: lower8_nonzero)

lemma nul_free_lower: "nul_free (dns_hostname_lower h n)"
  unfolding dns_hostname_lower_def by (intro nul_free_map_lower nul_free_take nul_free_cstr)

lemma length_cstr_less: "0 \<in> set xs \<Longrightarrow> length (cstr xs) < length xs"
  by (induction xs) auto

text \<open>
  A host name of 64 characters or more overruns the 64-byte name cache: unless it is an
  address literal or has a label too long to ask for, resolving it writes behind the buffer.
\<close>

theorem dns_long_name:
  assumes "net_ok s" and "\<not> is_ipv4_literal h" and "64 \<le> length (cstr h)"
    and "dns_qname (dns_hostname_lower h 256) \<noteq> None"
  shows "dns_resolve g h s = None"
proof -
  define l where "l = dns_hostname_lower h 256"
  have l: "64 \<le> length l" "nul_free l"
    using assms(3) by (simp add: l_def dns_hostname_lower_def) (simp only: l_def nul_free_lower)
  have buf: "length (last_dns_host s) = 64" "0 \<in> set (last_dns_host s)"
    using assms(1) by (simp_all add: net_ok_def)
  have "length (cstr (last_dns_host s)) < length (last_dns_host s)"
    using buf(2) by (rule length_cstr_less)
  then have "str_cmp (last_dns_host s) l \<noteq> 0"
    using l buf(1) by (auto simp: str_cmp_0)
  moreover have "remember_host l ip s = None" for ip
    using l buf by (simp add: remember_host_def wrn_def)
  moreover have "l \<noteq> []"
    using l by auto
  ultimately show ?thesis
    using assms(2,4) by (auto simp: dns_resolve_def Let_def l_def [symmetric] split: option.splits)
qed

lemma dns_qname_last: "p \<noteq> [] \<Longrightarrow> length p \<le> 63 \<Longrightarrow> 0x2E \<notin> set p \<Longrightarrow> dns_qname p \<noteq> None"
proof -
  assume p: "p \<noteq> []" "length p \<le> 63" "0x2E \<notin> set p"
  then have t: "takeWhile (\<lambda>c. c \<noteq> 0x2E) p = p" "dropWhile (\<lambda>c. c \<noteq> 0x2E) p = []"
    by (auto simp: takeWhile_eq_all_conv)
  have "dns_qname [] = Some [0]"
    by (simp add: dns_qname.simps)
  then show ?thesis
    using p by (subst dns_qname.simps) (simp add: Let_def t)
qed

lemma dns_qname_dot:
  assumes "length l \<le> 63" and "0x2E \<notin> set l" and "dns_qname p \<noteq> None"
  shows "dns_qname (l @ 0x2E # p) \<noteq> None"
proof -
  have "takeWhile (\<lambda>c. c \<noteq> 0x2E) (l @ 0x2E # p) = l" "dropWhile (\<lambda>c. c \<noteq> 0x2E) (l @ 0x2E # p) = 0x2E # p"
    using assms(2) by (auto simp: takeWhile_append dropWhile_append)
  then show ?thesis
    using assms(1,3) by (subst dns_qname.simps) (auto simp: Let_def)
qed

theorem dns_long_name_witness:
  "dns_resolve (\<lambda>d. (0, d)) (replicate 40 0x61 @ 0x2E # replicate 40 0x61) (boot_net ()) = None"
proof (rule dns_long_name [OF boot_net_ok])
  define l :: bytes where "l = replicate 40 0x61"
  have l: "length l = 40" "l \<noteq> []" "0x2E \<notin> set l" "nul_free l"
    by (simp_all add: l_def nul_free_def)
  have l5: "l = 0x61 # replicate 39 0x61"
    unfolding l_def by (simp flip: replicate_Suc)
  have low: "map lower8 l = l"
    by (simp add: l_def lower8_def)
  have d: "lower8 0x2E = 0x2E"
    by (simp add: lower8_def)
  show "\<not> is_ipv4_literal (replicate 40 0x61 @ 0x2E # replicate 40 0x61)"
    unfolding l_def [symmetric] by (subst l5) (simp add: is_ipv4_literal_def is_digit8_def)
  show "64 \<le> length (cstr (replicate 40 0x61 @ 0x2E # replicate 40 0x61))"
    unfolding l_def [symmetric] using l by simp
  have "dns_hostname_lower (l @ 0x2E # l) 256 = l @ 0x2E # l"
    using l low d by (simp add: dns_hostname_lower_def)
  then show "dns_qname (dns_hostname_lower (replicate 40 0x61 @ 0x2E # replicate 40 0x61) 256) \<noteq> None"
    unfolding l_def [symmetric] using l by (simp only:) (intro dns_qname_dot dns_qname_last, simp_all)
qed

section \<open>Connecting\<close>

lemma tcp_connect_outcome:
  assumes "tcp_connect g ip port s = Some (r, s')"
  shows "(r = 0 \<and> tcb_state (tcb s') = TCP_ESTABLISHED) \<or> (r = -1 \<and> tcb_state (tcb s') = TCP_CLOSED)"
proof -
  have tries: "(r = 0 \<and> tcb_state (tcb s') = TCP_ESTABLISHED) \<or> (r = -1 \<and> tcb_state (tcb s') = TCP_CLOSED)"
    if "connect_tries g n u = Some (r, s')" for n u
    using that
  proof (induction n arbitrary: u)
    case 0
    then show ?case by auto
  next
    case (Suc n)
    from Suc.prems show ?case
      by (cases rule: connect_tries_cases) (use Suc.IH in \<open>auto split: if_splits\<close>)
  qed
  then show ?thesis
    using assms unfolding tcp_connect_def
    by (auto simp: Let_def simp del: connect_tries.simps split: prod.splits option.splits if_splits)
qed

text \<open>
  \<open>tcp_connect\<close> reports what happened: it returns 0 exactly when the connection is
  established on return, and otherwise -1 with the connection closed.
\<close>

theorem tcp_connect_result:
  assumes "tcp_connect g ip port s = Some (r, s')"
  shows "(r = 0 \<and> tcb_state (tcb s') = TCP_ESTABLISHED) \<or> (r = -1 \<and> tcb_state (tcb s') = TCP_CLOSED)"
  by (rule tcp_connect_outcome [OF assms])

theorem tcp_connect_result_witness:
  "\<exists>r s'. tcp_connect (\<lambda>d. (0, d)) 1 80 (boot_net ()) = Some (r, s') \<and> (r = 0 \<or> tcb_state (tcb s') = TCP_CLOSED)"
proof -
  have "\<exists>r s'. tcp_connect (\<lambda>d. (0, d)) 1 80 (boot_net ()) = Some (r, s')"
    by (simp add: tcp_connect_def ticks_def boot_net_def netif_get_default_def upd_tcb_def Let_def)
  then show ?thesis
    using tcp_connect_result by blast
qed

text \<open>An idle wire.\<close>

lemma netif_poll_idle:
  assumes "on_wire s" and "inbox (dev s) = []"
  shows "netif_poll s = Some s"
proof -
  obtain k where k: "default_interface s = Some k" "recv_packet (the_iface s k) = Some wire_recv"
    using assms(1) by (auto simp: on_wire_def split: option.splits)
  moreover have "frame_buf s \<noteq> []"
    using assms(1) by (auto simp: on_wire_def net_ok_def)
  ultimately show ?thesis
    using assms(2) by (simp add: netif_poll_def netif_get_default_def netif_receive_def wire_recv_def)
qed

lemma netif_polls_idle: "on_wire s \<Longrightarrow> inbox (dev s) = [] \<Longrightarrow> netif_polls n s = Some s"
  by (induction n) (simp_all add: netif_poll_idle)

lemma tcp_send_packet_on_wire:
  assumes "on_wire s" and "length data \<le> 1446"
  shows "\<exists>frame s'. tcp_send_packet ip dp sp seq ack fl data s = Some (int (54 + length data), s') \<and> tx_only s s' \<and> on_wire s' \<and>
    outbox (dev s') = outbox (dev s) @ [frame] \<and> inbox (dev s') = inbox (dev s)"
proof -
  obtain k where k: "default_interface s = Some k"
    using assms(1) by (auto simp: on_wire_def split: option.splits)
  let ?seg = "tcp_segment (ip_addr (the_iface s k)) ip sp dp seq ack fl data"
  obtain m s' where "ip_send ip 6 ?seg s = Some (int (34 + length ?seg), s')"
    "outbox (dev s') = outbox (dev s) @ [ip_frame m (mac_addr (the_iface s k)) 6 (ip_addr (the_iface s k)) ip ?seg]"
    "inbox (dev s') = inbox (dev s)"
    using ip_send_on_wire [OF assms(1) k, of ?seg ip 6] assms(2) by (auto simp: tcp_segment_shape)
  moreover from this have "tx_only s s'"
    by (auto dest: ip_send_tx)
  ultimately show ?thesis
    using k assms(2) on_wire_tx [OF assms(1), of s']
    by (auto simp: tcp_send_packet_def netif_get_default_def tcp_segment_shape)
qed

lemma tcp_reply_on_wire:
  assumes "on_wire s"
  shows "\<exists>frame s'. tcp_reply fl s = Some s' \<and> tx_only s s' \<and> on_wire s' \<and>
    outbox (dev s') = outbox (dev s) @ [frame] \<and> inbox (dev s') = inbox (dev s)"
  using tcp_send_packet_on_wire [OF assms, of "[]"] unfolding tcp_reply_def Let_def by fastforce

text \<open>A SYN-ACK that arrives while the host waits for it.\<close>

lemma syn_ack_processed:
  assumes "on_wire s" and "tcb_state (tcb s) = TCP_SYN_SENT"
    and "fl AND 0x02 \<noteq> 0" and "fl AND 0x10 \<noteq> 0"
  shows "\<exists>frame s'. tcp_process (tcp_segment a b sp dp seq ack fl [] @ rest) 20 s = Some (1, s') \<and> on_wire s' \<and>
    tcb_state (tcb s') = TCP_ESTABLISHED \<and> rcv_nxt (tcb s') = seq + 1 \<and> snd_nxt (tcb s') = ack \<and>
    outbox (dev s') = outbox (dev s) @ [frame] \<and> inbox (dev s') = inbox (dev s)"
proof -
  let ?p = "tcp_segment a b sp dp seq ack fl [] @ rest"
  let ?f = "\<lambda>t. t\<lparr>rcv_nxt := seq + 1, snd_nxt := ack, tcb_state := TCP_ESTABLISHED\<rparr>"
  have p: "?p = put16be sp @ put16be dp @ put32be seq @ put32be ack @ [0x50, fl] @
      (put16be 8192 @ tcp_checksum a b (tcp_header [0, 0] sp dp seq ack fl @ []) @ [0, 0]) @ rest"
    by (simp add: tcp_segment_def tcp_header_def)
  have "rd32be ?p 4 = Some seq" "rd32be ?p 8 = Some ack" "rd8 ?p 12 = Some 0x50" "rd8 ?p 13 = Some fl"
    unfolding p by (simp_all add: rd32be_def rd8_def put16be_def put32be_def nth_append)
  then have "tcp_process ?p 20 s = tcp_dispatch ?p seq ack 20 (20 - 20) fl s"
    using assms(2) by (simp add: tcp_process_def)
  moreover have "on_wire (upd_tcb ?f s)"
    using assms(1) by (intro on_wire_upd_tcb) (simp_all add: on_wire_def net_ok_def tcb_ok_def)
  then obtain frame s' where "tcp_reply TCP_FLAG_ACK (upd_tcb ?f s) = Some s'" "tx_only (upd_tcb ?f s) s'" "on_wire s'"
      "outbox (dev s') = outbox (dev s) @ [frame]" "inbox (dev s') = inbox (dev s)"
    using tcp_reply_on_wire [of "upd_tcb ?f s" TCP_FLAG_ACK] by (auto simp: upd_tcb_def)
  moreover from this have "tcb s' = ?f (tcb s)"
    using tx_only_fields(1) by fastforce
  ultimately show ?thesis
    using assms(2-4) by (auto simp: tcp_dispatch_def)
qed

lemma connect_wait_syn_ack:
  assumes "on_wire s" and "tcb_state (tcb s) = TCP_SYN_SENT" and "fl AND 0x02 \<noteq> 0" and "fl AND 0x10 \<noteq> 0"
    and "length m1 = 6" and "length m2 = 6"
    and "inbox (dev s) = [ip_frame m1 m2 6 src dst (tcp_segment a b sp dp seq ack fl [])]"
  shows "\<exists>frame s'. connect_wait (\<lambda>d. (now, d)) (Suc (Suc n)) now s = Some s' \<and>
    tcb_state (tcb s') = TCP_ESTABLISHED \<and> rcv_nxt (tcb s') = seq + 1 \<and> snd_nxt (tcb s') = ack \<and>
    outbox (dev s') = outbox (dev s) @ [frame]"
proof -
  let ?seg = "tcp_segment a b sp dp seq ack fl []"
  define f where "f = ip_frame m1 m2 6 src dst ?seg"
  have len: "length f = 54"
    using assms(5,6) by (simp add: f_def ip_frame_def eth_header_def length_ip_header tcp_segment_shape)
  have "deliver f s = s"
    using assms(7) by (simp add: deliver_def f_def)
  with netif_poll_deliver [OF assms(1), of f] len obtain t rest where
    tx: "tx_only s (t\<lparr>frame_buf := frame_buf s\<rparr>)" and fb: "length rest + length f = 2048" "frame_buf t = f @ rest"
    and dev: "dev t = (dev s)\<lparr>inbox := []\<rparr>"
    and poll: "netif_poll s = map_option snd (ip_receive (f @ rest) 54 t)"
    by auto
  have "on_wire ((t\<lparr>frame_buf := frame_buf s\<rparr>)\<lparr>frame_buf := frame_buf t\<rparr>)"
    using fb len by (intro on_wire_frame_buf on_wire_tx [OF assms(1) tx]) simp
  then have t: "on_wire t"
    by simp
  have "tcb t = tcb s"
    using tx_only_fields(1) [OF tx] by simp
  then have "tcb_state (tcb t) = TCP_SYN_SENT"
    using assms(2) by simp
  from syn_ack_processed [OF t this assms(3,4)] obtain frame u where
    u: "tcp_process (?seg @ rest) 20 t = Some (1, u)" "on_wire u" "tcb_state (tcb u) = TCP_ESTABLISHED"
      "rcv_nxt (tcb u) = seq + 1" "snd_nxt (tcb u) = ack" "outbox (dev u) = outbox (dev t) @ [frame]" "inbox (dev u) = inbox (dev t)"
    by blast
  have "ip_receive (f @ rest) 54 t = tcp_process (?seg @ rest) 20 t"
    using ip_receive_frame [OF assms(5,6), of 6 src dst ?seg rest t] by (simp add: f_def tcp_segment_shape)
  with u(1) poll have "netif_poll s = Some u"
    by simp
  moreover have "netif_polls 7 u = Some u"
    using netif_polls_idle [OF u(2)] u(7) dev by simp
  moreover have "(8 :: nat) = Suc 7"
    by simp
  ultimately have "netif_polls 8 s = Some u"
    by (simp only: netif_polls.simps) simp
  then have "connect_wait (\<lambda>d. (now, d)) (Suc (Suc n)) now s = connect_wait (\<lambda>d. (now, d)) (Suc n) now u"
    using assms(2) by (subst connect_wait.simps) (simp add: ticks_def del: connect_wait.simps netif_polls.simps)
  also have "\<dots> = Some u"
    using u(3) by simp
  finally show ?thesis
    using u dev by auto
qed

lemma on_wire_tcb_ok: "on_wire s \<Longrightarrow> tcb_ok ((tcb s)\<lparr>tcb_state := st\<rparr>)"
  by (simp add: on_wire_def net_ok_def tcb_ok_def)

text \<open>
  The three-way handshake completes: if the first frame that arrives after the SYN is a
  SYN-ACK, then \<open>tcp_connect\<close> returns 0 with the connection established and numbered as the peer
  asked, having sent exactly two frames, the SYN and the ACK. (The timer does not advance here.)
\<close>

theorem tcp_handshake:
  assumes "on_wire s" and "default_interface s = Some k" and "ip_addr (the_iface s k) \<noteq> 0"
    and "fl AND 0x02 \<noteq> 0" and "fl AND 0x10 \<noteq> 0" and "length m1 = 6" and "length m2 = 6"
    and "inbox (dev s) = [ip_frame m1 m2 6 src dst (tcp_segment a b sp dp seq ack fl [])]"
  shows "\<exists>s' syn fin. tcp_connect (\<lambda>d. (now, d)) ip port s = Some (0, s') \<and>
    tcb_state (tcb s') = TCP_ESTABLISHED \<and> rcv_nxt (tcb s') = seq + 1 \<and> snd_nxt (tcb s') = ack \<and>
    outbox (dev s') = outbox (dev s) @ [syn, fin]"
proof -
  have ticks: "ticks (\<lambda>d. (now, d)) u = (now, u)" for u :: "wire net"
    by (simp add: ticks_def)
  define f where "f = (\<lambda>t :: tcb. t\<lparr>tcb_state := TCP_CLOSED, rx_len := 0, rx_processed := 0, has_data := False,
      remote_ip := ip, remote_port := port, local_port := ucast (10000 + now mod 50000), snd_nxt := now, rcv_nxt := 0\<rparr>)"
  define g where "g = (\<lambda>t :: tcb. t\<lparr>local_ip := ip_addr (the_iface s k)\<rparr>)"
  define u where "u = upd_tcb g (upd_tcb f s)"
  have tcb: "tcb_ok (tcb s)"
    using assms(1) by (simp add: on_wire_def net_ok_def)
  then have "tcb_ok (f (tcb s))" "tcb_ok (g (f (tcb s)))"
    by (simp_all add: f_def g_def tcb_ok_def)
  then have u: "on_wire u" "dev u = dev s"
    unfolding u_def using assms(1) by (simp_all add: on_wire_upd_tcb) (simp add: upd_tcb_def)
  obtain syn v where v: "tcp_send_packet (remote_ip (tcb u)) (remote_port (tcb u)) (local_port (tcb u)) (snd_nxt (tcb u)) 0 TCP_FLAG_SYN [] u = Some (54, v)"
      "on_wire v" "outbox (dev v) = outbox (dev s) @ [syn]" "inbox (dev v) = inbox (dev s)"
    using tcp_send_packet_on_wire [OF u(1), of "[]"] u(2) by fastforce
  define w where "w = upd_tcb (\<lambda>t. t\<lparr>tcb_state := TCP_SYN_SENT\<rparr>) v"
  have w: "on_wire w" "tcb_state (tcb w) = TCP_SYN_SENT" "dev w = dev v"
    unfolding w_def using v(2) by (simp_all add: on_wire_upd_tcb on_wire_tcb_ok) (simp add: upd_tcb_def)
  have box: "inbox (dev w) = [ip_frame m1 m2 6 src dst (tcp_segment a b sp dp seq ack fl [])]"
    using assms(8) w(3) v(4) by simp
  have n: "Suc (Suc 59998) = 60000"
    by simp
  from connect_wait_syn_ack [OF w(1,2) assms(4-7) box, of now 59998, unfolded n]
  obtain fin x where x: "connect_wait (\<lambda>d. (now, d)) 60000 now w = Some x" "tcb_state (tcb x) = TCP_ESTABLISHED"
      "rcv_nxt (tcb x) = seq + 1" "snd_nxt (tcb x) = ack" "outbox (dev x) = outbox (dev w) @ [fin]"
    by blast
  have "connect_tries (\<lambda>d. (now, d)) (Suc n) u = Some (0, x)" for n
    using v(1) x(1,2) by (simp add: Let_def ticks w_def [symmetric] del: connect_wait.simps)
  from this [of 2] have "connect_tries (\<lambda>d. (now, d)) 3 u = Some (0, x)"
    by (simp only: eval_nat_numeral)
  moreover have "the_iface (upd_tcb f s) k = the_iface s k" "default_interface (upd_tcb f s) = Some k"
    using assms(2) by (simp_all add: upd_tcb_def the_iface_def)
  ultimately have "tcp_connect (\<lambda>d. (now, d)) ip port s = Some (0, x)"
    using assms(3) unfolding tcp_connect_def ticks Let_def prod.case f_def [symmetric] netif_get_default_def
    by (simp add: u_def g_def del: connect_tries.simps)
  then show ?thesis
    using x v(3) w(3) by auto
qed

definition peer_syn_ack :: bytes where
  "peer_syn_ack = ip_frame (replicate 6 1) (replicate 6 2) 6 9 9 (tcp_segment 9 9 80 10000 500 77 0x12 [])"

theorem tcp_handshake_witness:
  "\<exists>s'. tcp_connect (\<lambda>d. (0, d)) 9 80 (deliver peer_syn_ack wire_host) = Some (0, s') \<and>
    tcb_state (tcb s') = TCP_ESTABLISHED \<and> rcv_nxt (tcb s') = 501 \<and> length (outbox (dev s')) = 2"
proof -
  let ?s = "deliver peer_syn_ack wire_host"
  have w: "on_wire ?s"
    using wire_host_ok(1) by (simp add: on_wire_def deliver_def net_ok_def the_iface_def split: option.splits)
  have d: "default_interface ?s = Some 0" "ip_addr (the_iface ?s 0) \<noteq> 0" "outbox (dev ?s) = []"
    by (simp_all add: deliver_def wire_host_def upd_tcb_def netif_register_def boot_net_def the_iface_def wire_iface_def)
  have i: "inbox (dev ?s) = [ip_frame (replicate 6 1) (replicate 6 2) 6 9 9 (tcp_segment 9 9 80 10000 500 77 0x12 [])]"
    by (simp add: deliver_def peer_syn_ack_def)
  have fl: "(0x12 :: u8) AND 0x02 \<noteq> 0" "(0x12 :: u8) AND 0x10 \<noteq> 0" "length (replicate 6 (1 :: u8)) = 6" "length (replicate 6 (2 :: u8)) = 6"
    by simp_all
  show ?thesis
    using tcp_handshake [OF w d(1,2) fl i, of 0 9 80] d(3) by auto
qed

end
