(* ===== verification/TlsCrypto.thy ===== *)
theory TlsCrypto
  imports AurionPrelude
begin

text \<open>
  The primitives of the TLS client, \<open>src/src/Network/tls12_client.c\<close>: SHA-256, HMAC, the TLS 1.2
  pseudo-random function, AES-128 and its CBC mode.

  Arrays of fixed size are lists of that length; the functions that write through a pointer
  return the bytes they write. \<open>None\<close> is an access outside a buffer.
\<close>

section \<open>SHA-256\<close>

definition ROTR :: "u32 \<Rightarrow> nat \<Rightarrow> u32" where
  "ROTR x n = drop_bit n x OR push_bit (32 - n) x"

definition CH :: "u32 \<Rightarrow> u32 \<Rightarrow> u32 \<Rightarrow> u32" where
  "CH x y z = (x AND y) XOR (NOT x AND z)"

definition MAJ :: "u32 \<Rightarrow> u32 \<Rightarrow> u32 \<Rightarrow> u32" where
  "MAJ x y z = (x AND y) XOR (x AND z) XOR (y AND z)"

definition EP0 :: "u32 \<Rightarrow> u32" where
  "EP0 x = ROTR x 2 XOR ROTR x 13 XOR ROTR x 22"

definition EP1 :: "u32 \<Rightarrow> u32" where
  "EP1 x = ROTR x 6 XOR ROTR x 11 XOR ROTR x 25"

definition SIG0 :: "u32 \<Rightarrow> u32" where
  "SIG0 x = ROTR x 7 XOR ROTR x 18 XOR drop_bit 3 x"

definition SIG1 :: "u32 \<Rightarrow> u32" where
  "SIG1 x = ROTR x 17 XOR ROTR x 19 XOR drop_bit 10 x"

definition sha_K :: "u32 list" where
  "sha_K =
    [0x428a2f98, 0x71374491, 0xb5c0fbcf, 0xe9b5dba5, 0x3956c25b, 0x59f111f1, 0x923f82a4, 0xab1c5ed5,
     0xd807aa98, 0x12835b01, 0x243185be, 0x550c7dc3, 0x72be5d74, 0x80deb1fe, 0x9bdc06a7, 0xc19bf174,
     0xe49b69c1, 0xefbe4786, 0x0fc19dc6, 0x240ca1cc, 0x2de92c6f, 0x4a7484aa, 0x5cb0a9dc, 0x76f988da,
     0x983e5152, 0xa831c66d, 0xb00327c8, 0xbf597fc7, 0xc6e00bf3, 0xd5a79147, 0x06ca6351, 0x14292967,
     0x27b70a85, 0x2e1b2138, 0x4d2c6dfc, 0x53380d13, 0x650a7354, 0x766a0abb, 0x81c2c92e, 0x92722c85,
     0xa2bfe8a1, 0xa81a664b, 0xc24b8b70, 0xc76c51a3, 0xd192e819, 0xd6990624, 0xf40e3585, 0x106aa070,
     0x19a4c116, 0x1e376c08, 0x2748774c, 0x34b0bcb5, 0x391c0cb3, 0x4ed8aa4a, 0x5b9cca4f, 0x682e6ff3,
     0x748f82ee, 0x78a5636f, 0x84c87814, 0x8cc70208, 0x90befffa, 0xa4506ceb, 0xbef9a3f7, 0xc67178f2]"

definition sha_init :: "u32 list" where
  "sha_init = [0x6a09e667, 0xbb67ae85, 0x3c6ef372, 0xa54ff53a, 0x510e527f, 0x9b05688c, 0x1f83d9ab, 0x5be0cd19]"

text \<open>The message schedule \<open>W[16 .. 63]\<close>, one word per step.\<close>

fun sha_schedule :: "nat \<Rightarrow> u32 list \<Rightarrow> u32 list" where
  "sha_schedule 0 W = W"
| "sha_schedule (Suc n) W =
     (let i = length W
      in sha_schedule n (W @ [SIG1 (W ! (i - 2)) + W ! (i - 7) + SIG0 (W ! (i - 15)) + W ! (i - 16)]))"

type_synonym sha_regs = "u32 \<times> u32 \<times> u32 \<times> u32 \<times> u32 \<times> u32 \<times> u32 \<times> u32"

fun sha_round :: "sha_regs \<Rightarrow> u32 \<times> u32 \<Rightarrow> sha_regs" where
  "sha_round (a, b, c, d, e, f, g, h) (k, w) =
     (let t1 = h + EP1 e + CH e f g + k + w;
          t2 = EP0 a + MAJ a b c
      in (t1 + t2, a, b, c, d + t1, e, f, g))"

definition block_words :: "bytes \<Rightarrow> u32 list" where
  "block_words block = map (\<lambda>i. join32 (block ! (i * 4)) (block ! (i * 4 + 1)) (block ! (i * 4 + 2)) (block ! (i * 4 + 3))) [0..<16]"

definition sha256_transform :: "u32 list \<Rightarrow> bytes \<Rightarrow> u32 list" where
  "sha256_transform st block =
     (let W = sha_schedule 48 (block_words block);
          (a, b, c, d, e, f, g, h) = foldl sha_round
            (st ! 0, st ! 1, st ! 2, st ! 3, st ! 4, st ! 5, st ! 6, st ! 7) (zip sha_K W)
      in map2 (+) st [a, b, c, d, e, f, g, h])"

text \<open>The loop over whole blocks, and the state with the bytes that are left.\<close>

function sha_blocks :: "u32 list \<Rightarrow> bytes \<Rightarrow> u32 list \<times> bytes" where
  "sha_blocks st data =
     (if 64 \<le> length data then sha_blocks (sha256_transform st (take 64 data)) (drop 64 data)
      else (st, data))"
  by pat_completeness auto
termination
  by (relation "measure (\<lambda>(_, d). length d)") auto

declare sha_blocks.simps [simp del]

definition be64 :: "u64 \<Rightarrow> bytes" where
  "be64 v = map (\<lambda>i. ucast (drop_bit (8 * i) v)) [7, 6, 5, 4, 3, 2, 1, 0]"

text \<open>The end of \<open>sha256_raw\<close>: the state after the whole blocks, the bytes that are left, and the bit length.\<close>

definition sha_finish :: "u32 list \<Rightarrow> bytes \<Rightarrow> u64 \<Rightarrow> bytes" where
  "sha_finish st tail bitlen =
     (let rem = length tail;
          buf = tail @ [0x80] @ replicate (63 - rem) 0;
          (st, buf) = (if 56 < rem + 1 then (sha256_transform st buf, replicate 64 0) else (st, buf));
          buf = take 56 buf @ be64 bitlen;
          st = sha256_transform st buf
      in concat (map put32be st))"

text \<open>
  The loop over whole blocks as it is written, on 32-bit counters: \<open>i + 64\<close> wraps, so that the loop does not end for
  lengths from \<open>2 ^ 32 - 64\<close> on.
\<close>

partial_function (option) sha_loop :: "u32 list \<Rightarrow> bytes \<Rightarrow> u32 \<Rightarrow> u32 \<Rightarrow> (u32 list \<times> u32) option" where
  "sha_loop st data len i =
     (if i + 64 \<le> len then Option.bind (rdn data (unat i) 64) (\<lambda>block. sha_loop (sha256_transform st block) data len (i + 64))
      else Some (st, i))"

text \<open>\<open>data\<close> is the message of \<open>len\<close> bytes; \<open>None\<close> is not returning.\<close>

definition sha256_raw :: "bytes \<Rightarrow> bytes option" where
  "sha256_raw data =
     (let len = of_nat (length data)
      in do {
        (st, i) \<leftarrow> sha_loop sha_init data len 0;
        tail \<leftarrow> rdn data (unat i) (unat (len - i));
        Some (sha_finish st tail (ucast len * 8))
      })"

text \<open>
  The same as a total function, which \<open>sha256_raw\<close> is equal to below that length (lemma \<open>sha256_raw_digest\<close>). The keys and messages
  hashed by \<open>hmac_sha256\<close> are at most some kilobytes.
\<close>

definition sha256_digest :: "bytes \<Rightarrow> bytes" where
  "sha256_digest data = (let (st, tail) = sha_blocks sha_init data in sha_finish st tail (of_nat (length data) * 8))"

section \<open>HMAC and the pseudo-random function\<close>

definition xor_bytes :: "bytes \<Rightarrow> bytes \<Rightarrow> bytes" where
  "xor_bytes a b = map2 (XOR) a b"

definition xor_pad :: "u8 \<Rightarrow> bytes \<Rightarrow> bytes" where
  "xor_pad v k = map (\<lambda>x. v XOR x) k @ replicate (64 - length k) v"

definition hmac_sha256 :: "bytes \<Rightarrow> bytes \<Rightarrow> bytes" where
  "hmac_sha256 key msg =
     (let k = (if 64 < length key then sha256_digest key else key);
          kipad = xor_pad 0x36 k;
          kopad = xor_pad 0x5c k
      in if 64 + 1024 < 64 + length msg then replicate 32 0
         else
           let ih = sha256_digest (kipad @ msg)
           in sha256_digest (kopad @ ih))"

text \<open>
  \<open>prf_tls12\<close>: the loop with \<open>n = out_len - off\<close>. The buffers hold 320 and 288 bytes.
\<close>

function prf_loop :: "bytes \<Rightarrow> bytes \<Rightarrow> bytes \<Rightarrow> nat \<Rightarrow> bytes" where
  "prf_loop secret S A n =
     (if 0 < n then
        (let tmp = hmac_sha256 secret (A @ S);
             chunk = (if 32 < n then 32 else n)
         in take chunk tmp @ prf_loop secret S (hmac_sha256 secret A) (n - chunk))
      else [])"
  by pat_completeness auto
termination
  by (relation "measure (\<lambda>(_, _, _, n). n)") auto

declare prf_loop.simps [simp del]

definition prf_tls12 :: "bytes \<Rightarrow> bytes \<Rightarrow> bytes \<Rightarrow> nat \<Rightarrow> bytes option" where
  "prf_tls12 secret label seed out_len =
     (let S = take 127 (cstr label) @ seed
      in if 320 < length S \<or> (0 < out_len \<and> 288 < 32 + length S) then None
         else Some (prf_loop secret S (hmac_sha256 secret S) out_len))"

section \<open>AES-128\<close>

definition sbox :: bytes where
  "sbox =
    [0x63, 0x7c, 0x77, 0x7b, 0xf2, 0x6b, 0x6f, 0xc5, 0x30, 0x01, 0x67, 0x2b, 0xfe, 0xd7, 0xab, 0x76,
     0xca, 0x82, 0xc9, 0x7d, 0xfa, 0x59, 0x47, 0xf0, 0xad, 0xd4, 0xa2, 0xaf, 0x9c, 0xa4, 0x72, 0xc0,
     0xb7, 0xfd, 0x93, 0x26, 0x36, 0x3f, 0xf7, 0xcc, 0x34, 0xa5, 0xe5, 0xf1, 0x71, 0xd8, 0x31, 0x15,
     0x04, 0xc7, 0x23, 0xc3, 0x18, 0x96, 0x05, 0x9a, 0x07, 0x12, 0x80, 0xe2, 0xeb, 0x27, 0xb2, 0x75,
     0x09, 0x83, 0x2c, 0x1a, 0x1b, 0x6e, 0x5a, 0xa0, 0x52, 0x3b, 0xd6, 0xb3, 0x29, 0xe3, 0x2f, 0x84,
     0x53, 0xd1, 0x00, 0xed, 0x20, 0xfc, 0xb1, 0x5b, 0x6a, 0xcb, 0xbe, 0x39, 0x4a, 0x4c, 0x58, 0xcf,
     0xd0, 0xef, 0xaa, 0xfb, 0x43, 0x4d, 0x33, 0x85, 0x45, 0xf9, 0x02, 0x7f, 0x50, 0x3c, 0x9f, 0xa8,
     0x51, 0xa3, 0x40, 0x8f, 0x92, 0x9d, 0x38, 0xf5, 0xbc, 0xb6, 0xda, 0x21, 0x10, 0xff, 0xf3, 0xd2,
     0xcd, 0x0c, 0x13, 0xec, 0x5f, 0x97, 0x44, 0x17, 0xc4, 0xa7, 0x7e, 0x3d, 0x64, 0x5d, 0x19, 0x73,
     0x60, 0x81, 0x4f, 0xdc, 0x22, 0x2a, 0x90, 0x88, 0x46, 0xee, 0xb8, 0x14, 0xde, 0x5e, 0x0b, 0xdb,
     0xe0, 0x32, 0x3a, 0x0a, 0x49, 0x06, 0x24, 0x5c, 0xc2, 0xd3, 0xac, 0x62, 0x91, 0x95, 0xe4, 0x79,
     0xe7, 0xc8, 0x37, 0x6d, 0x8d, 0xd5, 0x4e, 0xa9, 0x6c, 0x56, 0xf4, 0xea, 0x65, 0x7a, 0xae, 0x08,
     0xba, 0x78, 0x25, 0x2e, 0x1c, 0xa6, 0xb4, 0xc6, 0xe8, 0xdd, 0x74, 0x1f, 0x4b, 0xbd, 0x8b, 0x8a,
     0x70, 0x3e, 0xb5, 0x66, 0x48, 0x03, 0xf6, 0x0e, 0x61, 0x35, 0x57, 0xb9, 0x86, 0xc1, 0x1d, 0x9e,
     0xe1, 0xf8, 0x98, 0x11, 0x69, 0xd9, 0x8e, 0x94, 0x9b, 0x1e, 0x87, 0xe9, 0xce, 0x55, 0x28, 0xdf,
     0x8c, 0xa1, 0x89, 0x0d, 0xbf, 0xe6, 0x42, 0x68, 0x41, 0x99, 0x2d, 0x0f, 0xb0, 0x54, 0xbb, 0x16]"

definition isbox :: bytes where
  "isbox =
    [0x52, 0x09, 0x6a, 0xd5, 0x30, 0x36, 0xa5, 0x38, 0xbf, 0x40, 0xa3, 0x9e, 0x81, 0xf3, 0xd7, 0xfb,
     0x7c, 0xe3, 0x39, 0x82, 0x9b, 0x2f, 0xff, 0x87, 0x34, 0x8e, 0x43, 0x44, 0xc4, 0xde, 0xe9, 0xcb,
     0x54, 0x7b, 0x94, 0x32, 0xa6, 0xc2, 0x23, 0x3d, 0xee, 0x4c, 0x95, 0x0b, 0x42, 0xfa, 0xc3, 0x4e,
     0x08, 0x2e, 0xa1, 0x66, 0x28, 0xd9, 0x24, 0xb2, 0x76, 0x5b, 0xa2, 0x49, 0x6d, 0x8b, 0xd1, 0x25,
     0x72, 0xf8, 0xf6, 0x64, 0x86, 0x68, 0x98, 0x16, 0xd4, 0xa4, 0x5c, 0xcc, 0x5d, 0x65, 0xb6, 0x92,
     0x6c, 0x70, 0x48, 0x50, 0xfd, 0xed, 0xb9, 0xda, 0x5e, 0x15, 0x46, 0x57, 0xa7, 0x8d, 0x9d, 0x84,
     0x90, 0xd8, 0xab, 0x00, 0x8c, 0xbc, 0xd3, 0x0a, 0xf7, 0xe4, 0x58, 0x05, 0xb8, 0xb3, 0x45, 0x06,
     0xd0, 0x2c, 0x1e, 0x8f, 0xca, 0x3f, 0x0f, 0x02, 0xc1, 0xaf, 0xbd, 0x03, 0x01, 0x13, 0x8a, 0x6b,
     0x3a, 0x91, 0x11, 0x41, 0x4f, 0x67, 0xdc, 0xea, 0x97, 0xf2, 0xcf, 0xce, 0xf0, 0xb4, 0xe6, 0x73,
     0x96, 0xac, 0x74, 0x22, 0xe7, 0xad, 0x35, 0x85, 0xe2, 0xf9, 0x37, 0xe8, 0x1c, 0x75, 0xdf, 0x6e,
     0x47, 0xf1, 0x1a, 0x71, 0x1d, 0x29, 0xc5, 0x89, 0x6f, 0xb7, 0x62, 0x0e, 0xaa, 0x18, 0xbe, 0x1b,
     0xfc, 0x56, 0x3e, 0x4b, 0xc6, 0xd2, 0x79, 0x20, 0x9a, 0xdb, 0xc0, 0xfe, 0x78, 0xcd, 0x5a, 0xf4,
     0x1f, 0xdd, 0xa8, 0x33, 0x88, 0x07, 0xc7, 0x31, 0xb1, 0x12, 0x10, 0x59, 0x27, 0x80, 0xec, 0x5f,
     0x60, 0x51, 0x7f, 0xa9, 0x19, 0xb5, 0x4a, 0x0d, 0x2d, 0xe5, 0x7a, 0x9f, 0x93, 0xc9, 0x9c, 0xef,
     0xa0, 0xe0, 0x3b, 0x4d, 0xae, 0x2a, 0xf5, 0xb0, 0xc8, 0xeb, 0xbb, 0x3c, 0x83, 0x53, 0x99, 0x61,
     0x17, 0x2b, 0x04, 0x7e, 0xba, 0x77, 0xd6, 0x26, 0xe1, 0x69, 0x14, 0x63, 0x55, 0x21, 0x0c, 0x7d]"

fun gmul_loop :: "nat \<Rightarrow> u8 \<Rightarrow> u8 \<Rightarrow> u8 \<Rightarrow> u8" where
  "gmul_loop 0 a b p = p"
| "gmul_loop (Suc n) a b p =
     (let p = (if b AND 1 \<noteq> 0 then p XOR a else p);
          c = a AND 0x80;
          a = push_bit 1 a;
          a = (if c \<noteq> 0 then a XOR 0x1b else a)
      in gmul_loop n a (drop_bit 1 b) p)"

definition gmul :: "u8 \<Rightarrow> u8 \<Rightarrow> u8" where
  "gmul a b = gmul_loop 8 a b 0"

definition aes_sub_bytes :: "bytes \<Rightarrow> bytes" where
  "aes_sub_bytes s = map (\<lambda>x. sbox ! unat x) s"

definition aes_shift_rows :: "bytes \<Rightarrow> bytes" where
  "aes_shift_rows s =
     (let t = s ! 1; s = s[1 := s ! 5]; s = s[5 := s ! 9]; s = s[9 := s ! 13]; s = s[13 := t];
          t = s ! 2; s = s[2 := s ! 10]; s = s[10 := t];
          t = s ! 6; s = s[6 := s ! 14]; s = s[14 := t];
          t = s ! 15; s = s[15 := s ! 11]; s = s[11 := s ! 7]; s = s[7 := s ! 3]; s = s[3 := t]
      in s)"

definition mix_column :: "u8 \<Rightarrow> u8 \<Rightarrow> u8 \<Rightarrow> u8 \<Rightarrow> bytes" where
  "mix_column a0 a1 a2 a3 =
     [gmul a0 2 XOR gmul a1 3 XOR a2 XOR a3,
      a0 XOR gmul a1 2 XOR gmul a2 3 XOR a3,
      a0 XOR a1 XOR gmul a2 2 XOR gmul a3 3,
      gmul a0 3 XOR a1 XOR a2 XOR gmul a3 2]"

definition columns :: "(u8 \<Rightarrow> u8 \<Rightarrow> u8 \<Rightarrow> u8 \<Rightarrow> bytes) \<Rightarrow> bytes \<Rightarrow> bytes" where
  "columns f s = concat (map (\<lambda>i. f (s ! i) (s ! (i + 1)) (s ! (i + 2)) (s ! (i + 3))) [0, 4, 8, 12])"

definition aes_mix_columns :: "bytes \<Rightarrow> bytes" where
  "aes_mix_columns = columns mix_column"

definition aes_add_round_key :: "bytes \<Rightarrow> bytes \<Rightarrow> bytes" where
  "aes_add_round_key s rk = xor_bytes s rk"

definition rcon :: "u32 list" where
  "rcon = [0x01000000, 0x02000000, 0x04000000, 0x08000000, 0x10000000,
     0x20000000, 0x40000000, 0x80000000, 0x1b000000, 0x36000000]"

definition word_at :: "bytes \<Rightarrow> nat \<Rightarrow> u32" where
  "word_at w i = join32 (w ! (i * 4)) (w ! (i * 4 + 1)) (w ! (i * 4 + 2)) (w ! (i * 4 + 3))"

definition sub_word :: "u32 \<Rightarrow> u32" where
  "sub_word k =
     (case map (\<lambda>x. sbox ! unat x) (put32be k) of [b0, b1, b2, b3] \<Rightarrow> join32 b0 b1 b2 b3 | _ \<Rightarrow> 0)"

text \<open>Word \<open>i = length w div 4\<close> of the key schedule, \<open>n\<close> words to go.\<close>

fun key_words :: "nat \<Rightarrow> bytes \<Rightarrow> bytes" where
  "key_words 0 w = w"
| "key_words (Suc n) w =
     (let i = length w div 4;
          k = word_at w (i - 1);
          k = (if i mod 4 = 0
               then sub_word (push_bit 8 k OR drop_bit 24 k) XOR rcon ! (i div 4 - 1) else k);
          k = k XOR word_at w (i - 4)
      in key_words n (w @ put32be k))"

definition aes_key_expand :: "bytes \<Rightarrow> bytes list" where
  "aes_key_expand key = (let w = key_words 40 key in map (\<lambda>r. take 16 (drop (r * 16) w)) [0..<11])"

definition aes128_encrypt_block :: "bytes \<Rightarrow> bytes \<Rightarrow> bytes" where
  "aes128_encrypt_block key inp =
     (let rk = aes_key_expand key;
          s = aes_add_round_key inp (rk ! 0);
          s = foldl (\<lambda>s r. aes_add_round_key (aes_mix_columns (aes_shift_rows (aes_sub_bytes s))) (rk ! r))
                s [1, 2, 3, 4, 5, 6, 7, 8, 9]
      in aes_add_round_key (aes_shift_rows (aes_sub_bytes s)) (rk ! 10))"

definition aes_inv_shift_rows :: "bytes \<Rightarrow> bytes" where
  "aes_inv_shift_rows s =
     (let t = s ! 13; s = s[13 := s ! 9]; s = s[9 := s ! 5]; s = s[5 := s ! 1]; s = s[1 := t];
          t = s ! 2; s = s[2 := s ! 10]; s = s[10 := t];
          t = s ! 6; s = s[6 := s ! 14]; s = s[14 := t];
          t = s ! 3; s = s[3 := s ! 7]; s = s[7 := s ! 11]; s = s[11 := s ! 15]; s = s[15 := t]
      in s)"

definition aes_inv_sub_bytes :: "bytes \<Rightarrow> bytes" where
  "aes_inv_sub_bytes s = map (\<lambda>x. isbox ! unat x) s"

definition inv_mix_column :: "u8 \<Rightarrow> u8 \<Rightarrow> u8 \<Rightarrow> u8 \<Rightarrow> bytes" where
  "inv_mix_column a0 a1 a2 a3 =
     [gmul a0 14 XOR gmul a1 11 XOR gmul a2 13 XOR gmul a3 9,
      gmul a0 9 XOR gmul a1 14 XOR gmul a2 11 XOR gmul a3 13,
      gmul a0 13 XOR gmul a1 9 XOR gmul a2 14 XOR gmul a3 11,
      gmul a0 11 XOR gmul a1 13 XOR gmul a2 9 XOR gmul a3 14]"

definition aes_inv_mix_columns :: "bytes \<Rightarrow> bytes" where
  "aes_inv_mix_columns = columns inv_mix_column"

definition aes128_decrypt_block :: "bytes \<Rightarrow> bytes \<Rightarrow> bytes" where
  "aes128_decrypt_block key inp =
     (let rk = aes_key_expand key;
          s = aes_add_round_key inp (rk ! 10);
          s = foldl (\<lambda>s r. aes_inv_mix_columns (aes_add_round_key (aes_inv_sub_bytes (aes_inv_shift_rows s)) (rk ! r)))
                s [9, 8, 7, 6, 5, 4, 3, 2, 1]
      in aes_add_round_key (aes_inv_sub_bytes (aes_inv_shift_rows s)) (rk ! 0))"

section \<open>Cipher block chaining\<close>

text \<open>
  The loops advance by 16; a last block that is not whole reaches behind the data (\<open>None\<close>). The
  block function is \<open>aes128_encrypt_block key\<close> or \<open>aes128_decrypt_block key\<close>.
\<close>

function cbc_enc_loop :: "(bytes \<Rightarrow> bytes) \<Rightarrow> bytes \<Rightarrow> bytes \<Rightarrow> bytes option" where
  "cbc_enc_loop enc prev data =
     (if data = [] then Some []
      else if length data < 16 then None
      else let c = enc (xor_bytes (take 16 data) prev)
           in map_option ((@) c) (cbc_enc_loop enc c (drop 16 data)))"
  by pat_completeness auto
termination
  by (relation "measure (\<lambda>(_, _, d). length d)") auto

function cbc_dec_loop :: "(bytes \<Rightarrow> bytes) \<Rightarrow> bytes \<Rightarrow> bytes \<Rightarrow> bytes option" where
  "cbc_dec_loop dec prev data =
     (if data = [] then Some []
      else if length data < 16 then None
      else let cur = take 16 data
           in map_option ((@) (xor_bytes (dec cur) prev)) (cbc_dec_loop dec cur (drop 16 data)))"
  by pat_completeness auto
termination
  by (relation "measure (\<lambda>(_, _, d). length d)") auto

declare cbc_enc_loop.simps [simp del] cbc_dec_loop.simps [simp del]

definition aes128_cbc_encrypt :: "bytes \<Rightarrow> bytes \<Rightarrow> bytes \<Rightarrow> bytes option" where
  "aes128_cbc_encrypt key iv data = cbc_enc_loop (aes128_encrypt_block key) iv data"

definition aes128_cbc_decrypt :: "bytes \<Rightarrow> bytes \<Rightarrow> bytes \<Rightarrow> bytes option" where
  "aes128_cbc_decrypt key iv data = cbc_dec_loop (aes128_decrypt_block key) iv data"

section \<open>AES decrypts what it encrypts\<close>

lemma sbox_inverse_table: "map (\<lambda>y. isbox ! unat y) sbox = map of_nat [0..<256]"
proof -
  have "[0..<256] = 0 # 1 # [2..<256]"
    by (simp add: upt_conv_Cons)
  then show ?thesis
    by (simp add: sbox_def isbox_def del: upt_rec_numeral) (simp add: upt_rec_numeral)
qed

lemma isbox_sbox: "isbox ! unat (sbox ! unat x) = x"
proof -
  have l: "length sbox = 256"
    by (simp add: sbox_def)
  have "isbox ! unat (sbox ! unat x) = map (\<lambda>y. isbox ! unat y) sbox ! unat x"
    by (simp add: l)
  also have "\<dots> = x"
    unfolding sbox_inverse_table by simp
  finally show ?thesis .
qed

definition xtime :: "u8 \<Rightarrow> u8" where
  "xtime a = push_bit 1 a XOR (if bit a 7 then 0x1b else 0)"

lemma and_0x80: "a AND 0x80 \<noteq> 0 \<longleftrightarrow> bit (a :: u8) 7"
  using and_exp_eq_0_iff_not_bit [of a 7] by simp

lemma gmul_step: "gmul_loop (Suc n) a b p = gmul_loop n (xtime a) (drop_bit 1 b) (if bit b 0 then p XOR a else p)"
  by (simp add: Let_def and_0x80 xtime_def and_one_eq odd_iff_mod_2_eq_one bit_0)

lemma xtime_xor: "xtime (a XOR b) = xtime a XOR xtime b"
  by (auto simp: xtime_def bit_xor_iff push_bit_xor ac_simps)

lemma gmul_unfold: "gmul a b = gmul_loop (Suc (Suc (Suc (Suc (Suc (Suc (Suc (Suc 0)))))))) a b 0"
proof -
  have "(8 :: nat) = Suc (Suc (Suc (Suc (Suc (Suc (Suc (Suc 0)))))))"
    by simp
  then show ?thesis
    by (simp only: gmul_def)
qed

lemma gmul_values:
  "gmul a 2 = xtime a"
  "gmul a 3 = a XOR xtime a"
  "gmul a 9 = a XOR xtime (xtime (xtime a))"
  "gmul a 11 = a XOR xtime a XOR xtime (xtime (xtime a))"
  "gmul a 13 = a XOR xtime (xtime a) XOR xtime (xtime (xtime a))"
  "gmul a 14 = xtime a XOR xtime (xtime a) XOR xtime (xtime (xtime a))"
  unfolding gmul_unfold gmul_step gmul_loop.simps(1)
  by (simp_all add: xor.assoc)

lemma xor_cancel: "x XOR (x XOR y) = (y :: u8)"
  by (simp flip: xor.assoc)

lemma inv_mix_mix:
  "mix_column a0 a1 a2 a3 = [b0, b1, b2, b3] \<Longrightarrow> inv_mix_column b0 b1 b2 b3 = [a0, a1, a2, a3]"
  by (auto simp: mix_column_def inv_mix_column_def gmul_values xtime_xor ac_simps xor_cancel)

lemma xor_bytes_twice: "length a \<le> length b \<Longrightarrow> xor_bytes (xor_bytes a b) b = a"
  by (auto simp: xor_bytes_def list_eq_iff_nth_eq xor.assoc)

lemma length_xor_bytes [simp]: "length (xor_bytes a b) = min (length a) (length b)"
  by (simp add: xor_bytes_def)

lemma sixteen:
  fixes s :: bytes
  assumes "length s = 16"
  obtains a0 a1 a2 a3 b0 b1 b2 b3 c0 c1 c2 c3 d0 d1 d2 d3
    where "s = [a0, a1, a2, a3, b0, b1, b2, b3, c0, c1, c2, c3, d0, d1, d2, d3]"
proof -
  have "\<exists>a0 a1 a2 a3 t. u = a0 # a1 # a2 # a3 # t \<and> length t = n" if "length u = n + 4" for u :: bytes and n
    using that by (auto simp: length_Suc_conv numeral_eq_Suc)
  note four = this
  obtain a0 a1 a2 a3 t where a: "s = a0 # a1 # a2 # a3 # t" "length t = 12"
    using four [of s 12] assms by auto
  obtain b0 b1 b2 b3 u where b: "t = b0 # b1 # b2 # b3 # u" "length u = 8"
    using four [of t 8] a by auto
  obtain c0 c1 c2 c3 v where c: "u = c0 # c1 # c2 # c3 # v" "length v = 4"
    using four [of u 4] b by auto
  obtain d0 d1 d2 d3 where "v = [d0, d1, d2, d3]"
    using four [of v 0] c by auto
  with a b c that show thesis by simp
qed

lemma length_aes [simp]:
  "length (aes_sub_bytes s) = length s" "length (aes_inv_sub_bytes s) = length s"
  "length (aes_shift_rows s) = length s" "length (aes_mix_columns s) = 16"
  by (simp_all add: aes_sub_bytes_def aes_inv_sub_bytes_def aes_shift_rows_def Let_def
      aes_mix_columns_def columns_def mix_column_def)

lemma inv_sub_sub: "aes_inv_sub_bytes (aes_sub_bytes s) = s"
  by (simp add: aes_inv_sub_bytes_def aes_sub_bytes_def isbox_sbox comp_def)

lemma inv_shift_shift: "length s = 16 \<Longrightarrow> aes_inv_shift_rows (aes_shift_rows s) = s"
  by (erule sixteen) (simp add: aes_inv_shift_rows_def aes_shift_rows_def Let_def)

lemma inv_mix_columns_mix:
  assumes "length s = 16"
  shows "aes_inv_mix_columns (aes_mix_columns s) = s"
proof -
  have mix: "\<exists>b0 b1 b2 b3. mix_column a0 a1 a2 a3 = [b0, b1, b2, b3]" for a0 a1 a2 a3
    by (simp add: mix_column_def)
  obtain a0 a1 a2 a3 b0 b1 b2 b3 c0 c1 c2 c3 d0 d1 d2 d3
    where s: "s = [a0, a1, a2, a3, b0, b1, b2, b3, c0, c1, c2, c3, d0, d1, d2, d3]"
    using assms by (rule sixteen)
  obtain a0' a1' a2' a3' b0' b1' b2' b3' c0' c1' c2' c3' d0' d1' d2' d3'
    where m: "mix_column a0 a1 a2 a3 = [a0', a1', a2', a3']" "mix_column b0 b1 b2 b3 = [b0', b1', b2', b3']"
      "mix_column c0 c1 c2 c3 = [c0', c1', c2', c3']" "mix_column d0 d1 d2 d3 = [d0', d1', d2', d3']"
    using mix by metis
  show ?thesis
    using m [THEN inv_mix_mix]
    by (simp add: s aes_mix_columns_def aes_inv_mix_columns_def columns_def m)
qed

lemma length_key_words: "length w = 4 * k \<Longrightarrow> length (key_words n w) = 4 * (k + n)"
proof (induction n arbitrary: w k)
  case (Suc n)
  then show ?case
    using Suc.IH [of "w @ put32be x" "k + 1" for x] by (simp add: Let_def)
qed simp

lemma length_round_key: "length key = 16 \<Longrightarrow> r < 11 \<Longrightarrow> length (aes_key_expand key ! r) = 16"
  using length_key_words [of key 4 40] by (simp add: aes_key_expand_def Let_def)

lemma length_add_round_key [simp]: "length (aes_add_round_key s k) = min (length s) (length k)"
  by (simp add: aes_add_round_key_def)

definition enc_round :: "bytes list \<Rightarrow> bytes \<Rightarrow> nat \<Rightarrow> bytes" where
  "enc_round rk s r = aes_add_round_key (aes_mix_columns (aes_shift_rows (aes_sub_bytes s))) (rk ! r)"

definition dec_round :: "bytes list \<Rightarrow> bytes \<Rightarrow> nat \<Rightarrow> bytes" where
  "dec_round rk s r = aes_inv_mix_columns (aes_add_round_key (aes_inv_sub_bytes (aes_inv_shift_rows s)) (rk ! r))"

lemma dec_enc_round:
  assumes "length s = 16" and "length (rk ! r) = 16"
  shows "dec_round rk (aes_shift_rows (aes_sub_bytes (enc_round rk s r))) r = aes_shift_rows (aes_sub_bytes s)"
proof -
  have "length (enc_round rk s r) = 16"
    using assms by (simp add: enc_round_def)
  then show ?thesis
    unfolding dec_round_def using assms
    by (simp add: inv_shift_shift inv_sub_sub)
      (simp add: enc_round_def aes_add_round_key_def xor_bytes_twice inv_mix_columns_mix)
qed

lemma dec_enc_rounds:
  assumes "\<forall>r \<in> set rs. length (rk ! r) = 16"
  shows "length s = 16 \<Longrightarrow> foldl (dec_round rk) (aes_shift_rows (aes_sub_bytes (foldl (enc_round rk) s rs))) (rev rs)
    = aes_shift_rows (aes_sub_bytes s)"
  using assms
proof (induction rs arbitrary: s)
  case (Cons r rs)
  have "length (enc_round rk s r) = 16"
    using Cons.prems by (simp add: enc_round_def)
  with Cons show ?case
    by (simp add: dec_enc_round)
qed simp

lemma length_enc_rounds:
  "\<forall>r \<in> set rs. length (rk ! r) = 16 \<Longrightarrow> length s = 16 \<Longrightarrow> length (foldl (enc_round rk) s rs) = 16"
  by (induction rs arbitrary: s) (simp_all add: enc_round_def)

lemma aes_decrypt_encrypt:
  assumes "length key = 16" and "length b = 16"
  shows "aes128_decrypt_block key (aes128_encrypt_block key b) = b"
    and "length (aes128_encrypt_block key b) = 16"
proof -
  define rk where "rk = aes_key_expand key"
  define s0 where "s0 = aes_add_round_key b (rk ! 0)"
  define s9 where "s9 = foldl (enc_round rk) s0 [1, 2, 3, 4, 5, 6, 7, 8, 9]"
  have rk: "length (rk ! r) = 16" if "r < 11" for r
    using length_round_key [OF assms(1) that] by (simp add: rk_def)
  have s0: "length s0 = 16"
    using assms(2) rk [of 0] by (simp add: s0_def)
  have s9: "length s9 = 16"
    unfolding s9_def by (rule length_enc_rounds) (use rk s0 in auto)
  have enc: "aes128_encrypt_block key b = aes_add_round_key (aes_shift_rows (aes_sub_bytes s9)) (rk ! 10)"
    unfolding s9_def s0_def rk_def aes128_encrypt_block_def Let_def enc_round_def [abs_def] ..
  then show "length (aes128_encrypt_block key b) = 16"
    using s9 rk [of 10] by simp
  have "foldl (dec_round rk) (aes_shift_rows (aes_sub_bytes s9)) (rev [1, 2, 3, 4, 5, 6, 7, 8, 9])
      = aes_shift_rows (aes_sub_bytes s0)"
    unfolding s9_def by (rule dec_enc_rounds) (use rk s0 in auto)
  then have "aes128_decrypt_block key (aes128_encrypt_block key b) =
      aes_add_round_key (aes_inv_sub_bytes (aes_inv_shift_rows (aes_shift_rows (aes_sub_bytes s0)))) (rk ! 0)"
    unfolding enc aes128_decrypt_block_def Let_def rk_def [symmetric] dec_round_def [abs_def]
    using s9 rk [of 10] by (simp add: aes_add_round_key_def xor_bytes_twice)
  also have "\<dots> = b"
    using s0 assms(2) rk [of 0] by (simp add: inv_shift_shift inv_sub_sub)
      (simp add: s0_def aes_add_round_key_def xor_bytes_twice)
  finally show "aes128_decrypt_block key (aes128_encrypt_block key b) = b" .
qed

section \<open>Chaining over any block cipher\<close>

text \<open>
  What CBC mode needs of a block cipher with 16-byte keys and blocks.
\<close>

locale block_cipher =
  fixes enc dec :: "bytes \<Rightarrow> bytes \<Rightarrow> bytes"
  assumes dec_enc: "length key = 16 \<Longrightarrow> length b = 16 \<Longrightarrow> dec key (enc key b) = b"
    and length_enc: "length key = 16 \<Longrightarrow> length b = 16 \<Longrightarrow> length (enc key b) = 16"
begin

lemma cbc_roundtrip:
  assumes "length key = 16"
  shows "length iv = 16 \<Longrightarrow> length data mod 16 = 0 \<Longrightarrow>
    \<exists>c. cbc_enc_loop (enc key) iv data = Some c \<and> length c = length data \<and> cbc_dec_loop (dec key) iv c = Some data"
proof (induction "enc key" iv data rule: cbc_enc_loop.induct)
  case (1 prev data)
  show ?case
  proof (cases "data = []")
    case True
    then show ?thesis
      by (simp add: cbc_enc_loop.simps [of _ _ "[]"] cbc_dec_loop.simps [of _ _ "[]"])
  next
    case False
    with "1.prems"(2) have long: "\<not> length data < 16"
      by (metis length_0_conv mod_less)
    define b where "b = xor_bytes (take 16 data) prev"
    define c where "c = enc key b"
    have lb: "length b = 16"
      using long "1.prems"(1) by (simp add: b_def)
    have lc: "length c = 16"
      using length_enc [OF assms lb] by (simp add: c_def)
    have "length (drop 16 data) mod 16 = 0"
      using "1.prems"(2) long by (metis length_drop le_mod_geq not_le_imp_less)
    moreover have "c = enc key (xor_bytes (take 16 data) prev)"
      by (simp add: c_def b_def)
    ultimately obtain cs where cs: "cbc_enc_loop (enc key) c (drop 16 data) = Some cs"
        "length cs = length (drop 16 data)" "cbc_dec_loop (dec key) c cs = Some (drop 16 data)"
      using "1.hyps" [OF False long _ lc] by auto
    have "cbc_enc_loop (enc key) prev data = Some (c @ cs)"
      using False long cs(1) by (subst cbc_enc_loop.simps) (simp add: Let_def flip: b_def c_def)
    moreover have "cbc_dec_loop (dec key) prev (c @ cs) = Some (xor_bytes (dec key c) prev @ drop 16 data)"
      using lc cs(3) by (subst cbc_dec_loop.simps) (auto simp: Let_def)
    moreover have "xor_bytes (dec key c) prev = take 16 data"
      using dec_enc [OF assms lb] long "1.prems"(1) by (simp add: c_def b_def xor_bytes_twice)
    ultimately show ?thesis
      using long cs(2) lc by auto
  qed
qed

lemma cbc_partial_block:
  "length key = 16 \<Longrightarrow> length iv = 16 \<Longrightarrow> length data mod 16 \<noteq> 0 \<Longrightarrow> cbc_enc_loop (enc key) iv data = None"
proof (induction "enc key" iv data rule: cbc_enc_loop.induct)
  case (1 prev data)
  show ?case
  proof (cases "data = [] \<or> length data < 16")
    case True
    with "1.prems" show ?thesis
      by (auto simp: cbc_enc_loop.simps [of "enc key" prev data])
  next
    case False
    have "length (enc key (xor_bytes (take 16 data) prev)) = 16"
      using False "1.prems" by (intro length_enc) auto
    moreover have "length (drop 16 data) mod 16 \<noteq> 0"
      using "1.prems"(3) False by (metis length_drop le_mod_geq not_le_imp_less)
    ultimately show ?thesis
      using False "1.hyps" "1.prems"(1) by (subst cbc_enc_loop.simps) (auto simp: Let_def)
  qed
qed

end

interpretation aes: block_cipher aes128_encrypt_block aes128_decrypt_block
  by unfold_locales (rule aes_decrypt_encrypt, assumption+)+

section \<open>The hash is SHA-256 of the padded message\<close>

text \<open>The padding of FIPS 180-4 and its blocks.\<close>

definition sha_pad :: "bytes \<Rightarrow> bytes" where
  "sha_pad m = m @ [0x80] @ replicate ((119 - length m mod 64) mod 64) 0 @ be64 (of_nat (8 * length m))"

definition blocks64 :: "bytes \<Rightarrow> bytes list" where
  "blocks64 m = map (\<lambda>i. take 64 (drop (64 * i) m)) [0..<length m div 64]"

lemma length_be64 [simp]: "length (be64 v) = 8"
  by (simp add: be64_def)

lemma blocks64_long: "64 \<le> length m \<Longrightarrow> blocks64 m = take 64 m # blocks64 (drop 64 m)"
proof -
  assume "64 \<le> length m"
  then have "length m div 64 = Suc ((length m - 64) div 64)"
    by (simp add: le_div_geq)
  then show ?thesis
    by (simp add: blocks64_def upt_conv_Cons map_Suc_upt [symmetric] comp_def del: upt_Suc) (simp add: add.commute)
qed

lemma blocks64_short: "length m < 64 \<Longrightarrow> blocks64 m = []"
  by (simp add: blocks64_def)

lemma blocks64_one: "length m = 64 \<Longrightarrow> blocks64 (m @ n) = m # blocks64 n"
  by (subst blocks64_long) auto

lemma sha_blocks_eq:
  "sha_blocks st m = (foldl sha256_transform st (blocks64 (take (64 * (length m div 64)) m)), drop (64 * (length m div 64)) m)"
proof (induction st m rule: sha_blocks.induct)
  case (1 st m)
  show ?case
  proof (cases "64 \<le> length m")
    case True
    then have "length m div 64 = Suc ((length m - 64) div 64)"
      by (simp add: le_div_geq)
    then have "take (64 * (length m div 64)) m = take 64 m @ take (64 * (length (drop 64 m) div 64)) (drop 64 m)"
      "drop (64 * (length m div 64)) m = drop (64 * (length (drop 64 m) div 64)) (drop 64 m)"
      by (simp_all add: take_add add.commute)
    then show ?thesis
      using 1 [OF True] True by (simp add: sha_blocks.simps [of st m] blocks64_one)
  next
    case False
    then show ?thesis
      by (simp add: sha_blocks.simps [of st m] blocks64_short)
  qed
qed

lemma blocks64_append: "length a mod 64 = 0 \<Longrightarrow> blocks64 (a @ b) = blocks64 a @ blocks64 b"
proof (induction a rule: length_induct)
  case (1 a)
  show ?case
  proof (cases "a = []")
    case False
    with "1.prems" have long: "64 \<le> length a"
      by (metis length_0_conv mod_less not_le_imp_less)
    have "length (drop 64 a) mod 64 = 0"
      using "1.prems" long by (metis length_drop le_mod_geq)
    with "1.IH" False have "blocks64 (drop 64 a @ b) = blocks64 (drop 64 a) @ blocks64 b"
      by simp
    then show ?thesis
      using long by (simp add: blocks64_long)
  qed (simp add: blocks64_def)
qed

lemma sha256_digest_eq:
  "length (sha_pad m) mod 64 = 0 \<and>
   sha256_digest m = concat (map put32be (foldl sha256_transform sha_init (blocks64 (sha_pad m))))"
proof -
  define q where "q = 64 * (length m div 64)"
  define tl where "tl = drop q m"
  have m: "m = take q m @ tl" "length (take q m) mod 64 = 0"
    by (simp_all add: tl_def q_def)
  have rem: "length m mod 64 = length tl" "length tl < 64"
    by (simp_all add: tl_def q_def minus_mult_div_eq_mod)
  define z where "z = (119 - length tl) mod 64"
  define L where "L = be64 (of_nat (8 * length m))"
  have pad: "sha_pad m = take q m @ (tl @ [0x80] @ replicate z 0 @ L)"
    using m(1) by (simp add: sha_pad_def rem z_def L_def)
  have bl: "be64 (of_nat (length m) * 8) = L"
    by (simp add: L_def mult.commute)
  have raw: "sha_blocks sha_init m = (foldl sha256_transform sha_init (blocks64 (take q m)), tl)"
    by (simp add: sha_blocks_eq q_def tl_def)
  have blocks: "blocks64 (tl @ [0x80] @ replicate z 0 @ L) =
     (if 56 < length tl + 1 then [tl @ [0x80] @ replicate (63 - length tl) 0, replicate 56 0 @ L]
      else [take 56 (tl @ [0x80] @ replicate (63 - length tl) 0) @ L])"
  proof (cases "56 < length tl + 1")
    case True
    with rem(2) have "z = (63 - length tl) + 56"
      by (simp add: z_def mod_if)
    then have "tl @ [0x80] @ replicate z 0 @ L = (tl @ [0x80] @ replicate (63 - length tl) 0) @ (replicate 56 0 @ L) @ []"
      by (simp add: replicate_add)
    moreover have "length (tl @ [0x80] @ replicate (63 - length tl) 0) = 64"
      using rem(2) by simp
    moreover have "length (replicate 56 0 @ L) = 64"
      by (simp add: L_def)
    ultimately show ?thesis
      using True by (simp add: blocks64_one blocks64_short del: append_assoc append_Nil2) 
  next
    case False
    with rem(2) have z: "z = 55 - length tl"
      by (simp add: z_def mod_if)
    have "tl @ [0x80] @ replicate z 0 @ L = (take 56 (tl @ [0x80] @ replicate (63 - length tl) 0) @ L) @ []"
      using False by (simp add: z min_def take_Cons')
    moreover have "length (take 56 (tl @ [0x80] @ replicate (63 - length tl) 0) @ L) = 64"
      using False by (simp add: L_def)
    ultimately show ?thesis
      using False by (simp add: blocks64_one blocks64_short del: append_assoc append_Nil2)
  qed
  have "blocks64 (sha_pad m) = blocks64 (take q m) @ blocks64 (tl @ [0x80] @ replicate z 0 @ L)"
    unfolding pad by (rule blocks64_append [OF m(2)])
  moreover define B where "B = tl @ [0x80] @ replicate (63 - length tl) 0"
  have "sha256_digest m = concat (map put32be (sha256_transform
      (if 56 < length tl + 1 then sha256_transform (foldl sha256_transform sha_init (blocks64 (take q m))) B
       else foldl sha256_transform sha_init (blocks64 (take q m)))
      (take 56 (if 56 < length tl + 1 then replicate 64 0 else B) @ L)))"
    unfolding sha256_digest_def sha_finish_def raw prod.case Let_def bl B_def by (simp split: if_split)
  ultimately have "sha256_digest m = concat (map put32be (foldl sha256_transform sha_init (blocks64 (sha_pad m))))"
    unfolding blocks B_def [symmetric] by (cases "56 < length tl + 1") simp_all
  moreover have "length (tl @ [0x80] @ replicate z 0 @ L) mod 64 = 0"
  proof (cases "55 < length tl")
    case True
    with rem(2) have "z = 119 - length tl"
      by (simp add: z_def)
    with True rem(2) show ?thesis
      by (simp add: L_def)
  next
    case False
    then have "z = 119 - length tl - 64"
      unfolding z_def by (subst le_mod_geq) simp_all
    with False show ?thesis
      by (simp add: L_def)
  qed
  then have "length (sha_pad m) mod 64 = 0"
    unfolding pad length_append [of "take q m"] mod_add_eq [symmetric, of "length (take q m)"] m(2) by simp
  ultimately show ?thesis by blast
qed

lemma sha_loop_blocks:
  assumes "unat len = length m" and "length m < 2 ^ 32 - 64" and "unat i \<le> length m"
  shows "\<exists>k. sha_loop st m len i = Some (fst (sha_blocks st (drop (unat i) m)), k) \<and> unat i \<le> unat k \<and> unat k \<le> length m \<and>
    snd (sha_blocks st (drop (unat i) m)) = drop (unat k) m"
  using assms(3)
proof (induction "length m - unat i" arbitrary: st i rule: less_induct)
  case less
  have i64: "unat (i + 64) = unat i + 64"
    using less.prems assms(2) by (simp add: unat_word_ariths)
  show ?case
  proof (cases "unat i + 64 \<le> length m")
    case True
    then have go: "i + 64 \<le> len"
      by (simp add: word_le_nat_alt i64 assms(1))
    have blk: "rdn m (unat i) 64 = Some (take 64 (drop (unat i) m))"
      using True by (simp add: rdn_def)
    have "drop 64 (drop (unat i) m) = drop (unat (i + 64)) m"
      by (simp add: i64 add.commute)
    then have "sha_blocks st (drop (unat i) m) = sha_blocks (sha256_transform st (take 64 (drop (unat i) m))) (drop (unat (i + 64)) m)"
      using True by (subst sha_blocks.simps) (simp add: le_diff_conv2)
    moreover have "length m - unat (i + 64) < length m - unat i" "unat (i + 64) \<le> length m"
      using True by (simp_all add: i64)
    ultimately show ?thesis
      using less.hyps [of "i + 64" "sha256_transform st (take 64 (drop (unat i) m))"] go blk i64
      by (subst sha_loop.simps) fastforce
  next
    case False
    then have "\<not> i + 64 \<le> len"
      by (simp add: word_le_nat_alt i64 assms(1))
    moreover have "sha_blocks st (drop (unat i) m) = (st, drop (unat i) m)"
      using False by (subst sha_blocks.simps) auto
    ultimately show ?thesis
      using less.prems by (subst sha_loop.simps) auto
  qed
qed

lemma sha256_raw_digest:
  assumes "length m < 2 ^ 32 - 64"
  shows "sha256_raw m = Some (sha256_digest m)"
proof -
  define len :: u32 where "len = of_nat (length m)"
  have len: "unat len = length m"
    using assms by (simp add: len_def unat_of_nat_small)
  obtain k where k: "sha_loop sha_init m len 0 = Some (fst (sha_blocks sha_init m), k)" "unat k \<le> length m"
      "snd (sha_blocks sha_init m) = drop (unat k) m"
    using sha_loop_blocks [OF len assms, of 0 sha_init] by auto
  have "unat (len - k) = length m - unat k"
    using k(2) len by (metis unat_sub word_le_nat_alt)
  then have "rdn m (unat k) (unat (len - k)) = Some (drop (unat k) m)"
    using k(2) by (simp add: rdn_def)
  moreover have "(ucast len * 8 :: u64) = of_nat (length m) * 8"
    by (metis len of_nat_unat)
  ultimately show ?thesis
    using k(1,3) by (simp add: sha256_raw_def sha256_digest_def Let_def split_beta flip: len_def)
qed

text \<open>From \<open>2 ^ 32 - 64\<close> bytes on the counter wraps to 0 and the loop starts again.\<close>

lemma sha_loop_hangs:
  assumes "sha_loop st m len i = Some y"
  shows "64 dvd unat i \<longrightarrow> len < 0xFFFFFFC0"
proof (rule sha_loop.raw_induct [OF _ assms, where P = "\<lambda>st m len i y. 64 dvd unat i \<longrightarrow> len < 0xFFFFFFC0"])
  fix loop st m len i and y :: "u32 list \<times> u32"
  assume hyps: "\<And>st m len i y. loop st m len i = Some y \<Longrightarrow> 64 dvd unat i \<longrightarrow> len < 0xFFFFFFC0"
    and prems: "(if i + 64 \<le> len then Option.bind (rdn m (unat i) 64) (\<lambda>block. loop (sha256_transform st block) m len (i + 64)) else Some (st, i)) = Some y"
  show "64 dvd unat i \<longrightarrow> len < 0xFFFFFFC0"
  proof (cases "i + 64 \<le> len")
    case True
    then obtain block where "loop (sha256_transform st block) m len (i + 64) = Some y"
      using prems by (auto elim!: bind_SomeE)
    then have "64 dvd unat (i + 64) \<longrightarrow> len < 0xFFFFFFC0"
      by (rule hyps)
    moreover have "64 dvd unat i \<Longrightarrow> 64 dvd unat (i + 64)"
      by (simp add: unat_word_ariths dvd_mod)
    ultimately show ?thesis
      by blast
  next
    case False
    show ?thesis
    proof
      assume "64 dvd unat i"
      then obtain k where k: "unat i = 64 * k"
        by blast
      then have "k < 2 ^ 26"
        using unat_u32_less [of i] by simp
      then consider "k = 2 ^ 26 - 1" | "64 * k + 64 < 2 ^ 32" "unat i \<le> 2 ^ 32 - 128"
        using k by fastforce
      then show "len < 0xFFFFFFC0"
      proof cases
        case 1
        then have "unat (i + 64) = 0"
          using k by (simp add: unat_word_ariths)
        then show ?thesis
          using False by (simp add: word_le_nat_alt)
      next
        case 2
        then have "unat (i + 64) = unat i + 64"
          using k by (simp add: unat_word_ariths)
        then show ?thesis
          using False 2(2) by (simp add: word_le_nat_alt word_less_nat_alt)
      qed
    qed
  qed
qed

lemma sha256_raw_hangs:
  assumes "2 ^ 32 - 64 \<le> length m" and "length m < 2 ^ 32"
  shows "sha256_raw m = None"
proof (cases "sha_loop sha_init m (of_nat (length m)) 0")
  case (Some y)
  have "unat (of_nat (length m) :: u32) = length m"
    using assms(2) by (simp add: unat_of_nat_small)
  then show ?thesis
    using sha_loop_hangs [OF Some] assms(1) by (simp add: word_less_nat_alt)
qed (simp add: sha256_raw_def)

section \<open>HMAC, key derivation, chaining\<close>

lemma length_sha256_transform [simp]: "length (sha256_transform st blk) = min (length st) 8"
proof -
  obtain a b c d e f g h where r: "foldl sha_round (st ! 0, st ! 1, st ! 2, st ! 3, st ! 4, st ! 5, st ! 6, st ! 7)
      (zip sha_K (sha_schedule 48 (block_words blk))) = (a, b, c, d, e, f, g, h)"
    using prod.exhaust by metis
  have "length [a, b, c, d, e, f, g, h] = 8"
    by simp
  then show ?thesis
    unfolding sha256_transform_def Let_def r prod.case length_map length_zip by (rule arg_cong)
qed

lemma length_sha_fold: "length st = 8 \<Longrightarrow> length (foldl sha256_transform st bs) = 8"
  by (induction bs arbitrary: st) simp_all

lemma length_concat_const: "\<forall>x \<in> set xs. length x = n \<Longrightarrow> length (concat xs) = n * length xs"
  by (induction xs) simp_all

lemma length_sha256_digest [simp]: "length (sha256_digest m) = 32"
proof -
  have "length (sha256_digest m) = 4 * length (map put32be (foldl sha256_transform sha_init (blocks64 (sha_pad m))))"
    unfolding conjunct2 [OF sha256_digest_eq] by (rule length_concat_const) auto
  then show ?thesis
    by (simp add: length_sha_fold sha_init_def)
qed

text \<open>RFC 2104.\<close>

definition hmac_rfc2104 :: "bytes \<Rightarrow> bytes \<Rightarrow> bytes" where
  "hmac_rfc2104 key msg =
     (let k = (if 64 < length key then sha256_digest key else key);
          k0 = k @ replicate (64 - length k) 0
      in sha256_digest (xor_bytes (replicate 64 0x5c) k0 @ sha256_digest (xor_bytes (replicate 64 0x36) k0 @ msg)))"

lemma xor_pad_eq: "length k \<le> 64 \<Longrightarrow> xor_pad v k = xor_bytes (replicate 64 v) (k @ replicate (64 - length k) 0)"
  by (intro nth_equalityI) (auto simp: xor_pad_def xor_bytes_def nth_append)

lemma length_hmac [simp]: "length (hmac_sha256 key msg) = 32"
  by (simp add: hmac_sha256_def Let_def)

lemma hmac_sha256_cases: "hmac_sha256 key msg = (if length msg \<le> 1024 then hmac_rfc2104 key msg else replicate 32 0)"
proof -
  define k where "k = (if 64 < length key then sha256_digest key else key)"
  have "length k \<le> 64"
    by (simp add: k_def)
  then show ?thesis
    by (simp add: hmac_sha256_def hmac_rfc2104_def Let_def xor_pad_eq flip: k_def)
qed

text \<open>
  \<open>hmac_sha256\<close> is HMAC (RFC 2104) for messages of at most 1024 bytes, and the all-zero
  tag, whatever the key, for every longer message.
\<close>

theorem hmac_sha256_limit:
  "hmac_sha256 key msg = (if length msg \<le> 1024 then hmac_rfc2104 key msg else replicate 32 0)"
  by (rule hmac_sha256_cases)

text \<open>\<open>A(i)\<close> of RFC 5246.\<close>

definition hmac_chain :: "bytes \<Rightarrow> bytes \<Rightarrow> nat \<Rightarrow> bytes" where
  "hmac_chain secret S i = (hmac_sha256 secret ^^ i) S"

lemma prf_loop_eq:
  "n \<le> 32 * k \<Longrightarrow> prf_loop secret S (hmac_chain secret T i) n =
     take n (concat (map (\<lambda>j. hmac_sha256 secret (hmac_chain secret T j @ S)) [i..<i + k]))"
proof (induction k arbitrary: i n)
  case 0
  then show ?case by (simp add: prf_loop.simps)
next
  case (Suc k)
  show ?case
  proof (cases "n = 0")
    case False
    define m where "m = (if 32 < n then 32 else n)"
    have step: "hmac_sha256 secret (hmac_chain secret T i) = hmac_chain secret T (Suc i)"
      by (simp add: hmac_chain_def)
    have "prf_loop secret S (hmac_chain secret T i) n =
        take m (hmac_sha256 secret (hmac_chain secret T i @ S)) @ prf_loop secret S (hmac_chain secret T (Suc i)) (n - m)"
      using False by (subst prf_loop.simps) (simp add: step m_def Let_def)
    also have "prf_loop secret S (hmac_chain secret T (Suc i)) (n - m) =
        take (n - m) (concat (map (\<lambda>j. hmac_sha256 secret (hmac_chain secret T j @ S)) [Suc i..<Suc i + k]))"
      using Suc.prems by (intro Suc.IH) (auto simp: m_def)
    finally show ?thesis
      by (simp add: upt_conv_Cons m_def del: upt_Suc)
  qed (simp add: prf_loop.simps)
qed

text \<open>
  C25: The pseudo-random function is \<open>P_SHA256\<close> of RFC 5246 cut to the requested length, for
  every label and seed that the code's buffers hold.
\<close>

theorem prf_tls12_spec:
  assumes "length (take 127 (cstr label)) + length seed \<le> 256"
  shows "(let S = take 127 (cstr label) @ seed
     in prf_tls12 secret label seed n = Some (take n (concat (map
          (\<lambda>i. hmac_sha256 secret (hmac_chain secret S i @ S)) [1..<n div 32 + 2]))))"
proof -
  define S where "S = take 127 (cstr label) @ seed"
  have "hmac_sha256 secret S = hmac_chain secret S 1"
    by (simp add: hmac_chain_def)
  moreover have "n \<le> 32 * (n div 32 + 1)"
    by presburger
  ultimately have "prf_loop secret S (hmac_sha256 secret S) n =
      take n (concat (map (\<lambda>i. hmac_sha256 secret (hmac_chain secret S i @ S)) [1..<1 + (n div 32 + 1)]))"
    using prf_loop_eq [of n "n div 32 + 1" secret S S 1] by simp
  then show ?thesis
    using assms by (simp add: prf_tls12_def S_def Let_def del: upt_Suc)
qed

theorem prf_tls12_spec_witness:
  "\<exists>out. prf_tls12 (replicate 48 7) (lit ''master secret'') (replicate 64 9) 48 = Some out"
  using prf_tls12_spec [of "lit ''master secret''" "replicate 64 9" "replicate 48 7" 48]
  by (auto simp: Let_def)

text \<open>
  C14: CBC decryption with the same key and initialisation vector inverts CBC encryption on
  every message of whole blocks; on any other length the encryption runs over its buffer.
\<close>

theorem aes128_cbc_roundtrip:
  assumes "length key = 16" and "length iv = 16"
  shows "Option.bind (aes128_cbc_encrypt key iv data) (aes128_cbc_decrypt key iv) =
    (if length data mod 16 = 0 then Some data else None)"
proof (cases "length data mod 16 = 0")
  case True
  then obtain c where "cbc_enc_loop (aes128_encrypt_block key) iv data = Some c"
      "cbc_dec_loop (aes128_decrypt_block key) iv c = Some data"
    using aes.cbc_roundtrip [OF assms True] by blast
  with True show ?thesis
    by (simp add: aes128_cbc_encrypt_def aes128_cbc_decrypt_def)
next
  case False
  then show ?thesis
    using aes.cbc_partial_block [OF assms False] by (simp add: aes128_cbc_encrypt_def)
qed

theorem aes128_cbc_roundtrip_witness:
  "Option.bind (aes128_cbc_encrypt (replicate 16 1) (replicate 16 2) (replicate 32 3))
     (aes128_cbc_decrypt (replicate 16 1) (replicate 16 2)) = Some (replicate 32 3)"
  using aes128_cbc_roundtrip [of "replicate 16 1" "replicate 16 2" "replicate 32 3"] by simp

end
