(* ===== verification/TlsRsa.thy ===== *)
theory TlsRsa
  imports TlsCrypto
begin

text \<open>
  The public-key part of \<open>src/src/Network/tls12_client.c\<close>: 256-byte big-endian integers, RSA with
  exponent 65537, PKCS #1 v1.5 padding, the random generator, and the search for the modulus in
  a certificate.

  A big integer is the list of its 256 (or 512) bytes. The loops that run from the last byte to
  the first are recursions on the reversed list. A loop that need not end is a partial function
  with the value \<open>None\<close> when it does not.
\<close>

section \<open>Arithmetic\<close>

fun bn_cmp :: "bytes \<Rightarrow> bytes \<Rightarrow> int" where
  "bn_cmp (x # a) (y # b) = (if x \<noteq> y then uint x - uint y else bn_cmp a b)"
| "bn_cmp _ _ = 0"

definition bn_cmp256 :: "bytes \<Rightarrow> bytes \<Rightarrow> int" where
  "bn_cmp256 a b = bn_cmp a b"

fun sub_loop :: "bytes \<Rightarrow> bytes \<Rightarrow> int \<Rightarrow> bytes" where
  "sub_loop (x # a) (y # b) borrow =
     (let v = uint x - uint y - borrow
      in if v < 0 then word_of_int (v + 256) # sub_loop a b 1 else word_of_int v # sub_loop a b 0)"
| "sub_loop _ _ borrow = []"

definition bn_sub256 :: "bytes \<Rightarrow> bytes \<Rightarrow> bytes" where
  "bn_sub256 a b = rev (sub_loop (rev a) (rev b) 0)"

text \<open>\<open>while (c && p >= 0)\<close>: add a product at byte \<open>p\<close> and propagate the carry.\<close>

fun add_at :: "bytes \<Rightarrow> nat \<Rightarrow> u32 \<Rightarrow> bytes" where
  "add_at out p c =
     (if c = 0 then out
      else
        let c = c + ucast (out ! p);
            out = out[p := ucast (c AND 0xFF)]
        in (case p of 0 \<Rightarrow> out | Suc q \<Rightarrow> add_at out q (drop_bit 8 c)))"

declare add_at.simps [simp del]

definition bn_mul256_be :: "bytes \<Rightarrow> bytes \<Rightarrow> bytes" where
  "bn_mul256_be a b =
     foldl (\<lambda>out i. foldl (\<lambda>out j.
         let prod = ucast (a ! (255 - i)) * ucast (b ! (255 - j)); k = i + j
         in if 512 \<le> k then out else add_at out (511 - k) prod) out [0..<256])
       (replicate 512 0) [0..<256]"

fun shl_loop :: "bytes \<Rightarrow> u16 \<Rightarrow> bytes" where
  "shl_loop [] c = []"
| "shl_loop (x # r) c =
     (let v = push_bit 1 (ucast x) OR c in ucast (v AND 0xFF) # shl_loop r (drop_bit 8 v))"

definition bn_shl1_or_bit :: "bytes \<Rightarrow> bool \<Rightarrow> bytes" where
  "bn_shl1_or_bit r b =
     (let r = rev (shl_loop (rev r) 0)
      in if b then r[length r - 1 := r ! (length r - 1) XOR 1] else r)"

text \<open>\<open>while (bn_cmp256(r, n256) >= 0)\<close>: endless for a zero modulus.\<close>

partial_function (option) sub_while :: "bytes \<Rightarrow> bytes \<Rightarrow> bytes option" where
  "sub_while n r = (if 0 \<le> bn_cmp256 r n then sub_while n (bn_sub256 r n) else Some r)"

definition bn_bit :: "bytes \<Rightarrow> nat \<Rightarrow> bool" where
  "bn_bit p i = (drop_bit (7 - i mod 8) (p ! (i div 8)) AND 1 \<noteq> 0)"

definition bn_mod_product512 :: "bytes \<Rightarrow> bytes \<Rightarrow> bytes option" where
  "bn_mod_product512 p512 n =
     foldl (\<lambda>r i. Option.bind r (\<lambda>r. sub_while n (bn_shl1_or_bit r (bn_bit p512 i))))
       (Some (replicate 256 0)) [0..<4096]"

definition bn_mod_mul :: "bytes \<Rightarrow> bytes \<Rightarrow> bytes \<Rightarrow> bytes option" where
  "bn_mod_mul a b n = bn_mod_product512 (bn_mul256_be a b) n"

definition rsa_pub_enc :: "bytes \<Rightarrow> bytes \<Rightarrow> bytes option" where
  "rsa_pub_enc m n =
     Option.bind (foldl (\<lambda>x i. Option.bind x (\<lambda>x. bn_mod_mul x x n)) (Some m) [0..<16::nat])
       (\<lambda>x. bn_mod_mul x m n)"

section \<open>Random bytes, padding, the certificate\<close>

text \<open>
  \<open>get_ticks\<close> is a parameter: the value returned by its \<open>k\<close>-th call. The generator's state is
  \<open>tls_rng_state\<close> and the number of calls made.
\<close>

type_synonym rng = "u32 \<times> nat"

fun tls_rng_bytes :: "(nat \<Rightarrow> u32) \<Rightarrow> nat \<Rightarrow> rng \<Rightarrow> bytes \<times> rng" where
  "tls_rng_bytes get_ticks 0 (st, k) = ([], (st, k))"
| "tls_rng_bytes get_ticks (Suc n) (st, k) =
     (let st = st * 1664525 + 1013904223;
          byte = ucast (st XOR drop_bit 16 st XOR get_ticks k);
          (rest, r) = tls_rng_bytes get_ticks n (st, k + 1)
      in (byte # rest, r))"

definition pkcs1_pad :: "bytes \<Rightarrow> bytes \<Rightarrow> bytes" where
  "pkcs1_pad ps msg = [0, 2] @ map (\<lambda>x. if x = 0 then 0x42 else x) ps @ [0] @ msg"

text \<open>
  The result is \<open>None\<close> for the returned \<open>-1\<close>, and the ciphertext otherwise (itself \<open>None\<close> when
  the computation does not end).
\<close>

definition pkcs1_v15_encrypt :: "(nat \<Rightarrow> u32) \<Rightarrow> rng \<Rightarrow> bytes \<Rightarrow> bytes \<Rightarrow> bytes option option \<times> rng" where
  "pkcs1_v15_encrypt get_ticks rng msg n =
     (if 256 < length msg + 11 then (None, rng)
      else
        let ps_len = 256 - 3 - length msg;
            (ps, rng) = tls_rng_bytes get_ticks ps_len rng
        in (Some (rsa_pub_enc (pkcs1_pad ps msg) n), rng))"

text \<open>
  The scan for \<open>INTEGER\<close>s of 256 bytes; \<open>der\<close> is the 4096-byte certificate buffer, of which
  \<open>dlen\<close> bytes are valid. The inner \<open>None\<close> is the returned \<open>-1\<close>. The exponent found behind the
  modulus is 65537 or defaults to it.
\<close>

function der_scan :: "bytes \<Rightarrow> nat \<Rightarrow> nat \<Rightarrow> bytes option option" where
  "der_scan der dlen i =
     (if i + 4 < dlen then
        do {
          b0 \<leftarrow> rd8 der i; b1 \<leftarrow> rd8 der (i + 1); b2 \<leftarrow> rd8 der (i + 2); b3 \<leftarrow> rd8 der (i + 3);
          if b0 = 0x02 \<and> b1 = 0x82 \<and> b2 = 0x01 \<and> b3 = 0x00
          then do { n \<leftarrow> rdn der (i + 4) 256; Some (Some n) }
          else der_scan der dlen (i + 1) }
      else Some None)"
  by pat_completeness auto
termination
  by (relation "measure (\<lambda>(_, dlen, i). dlen - i)") auto

declare der_scan.simps [simp del]

definition der_find_rsa_modulus :: "bytes \<Rightarrow> nat \<Rightarrow> (bytes \<times> u32) option option" where
  "der_find_rsa_modulus der dlen = map_option (map_option (\<lambda>n. (n, 65537))) (der_scan der dlen 0)"

section \<open>The numbers behind the bytes\<close>

fun le_val :: "bytes \<Rightarrow> nat" where
  "le_val [] = 0"
| "le_val (x # xs) = unat x + 256 * le_val xs"

definition be_val :: "bytes \<Rightarrow> nat" where
  "be_val xs = le_val (rev xs)"

lemma le_val_append: "le_val (xs @ ys) = le_val xs + 256 ^ length xs * le_val ys"
  by (induction xs) (simp_all add: algebra_simps)

lemma be_val_append: "be_val (xs @ ys) = be_val xs * 256 ^ length ys + be_val ys"
  by (simp add: be_val_def le_val_append)

lemma be_val_Nil [simp]: "be_val [] = 0"
  by (simp add: be_val_def)

lemma be_val_one [simp]: "be_val [x] = unat x"
  by (simp add: be_val_def)

lemma be_val_Cons: "be_val (x # xs) = unat x * 256 ^ length xs + be_val xs"
  using be_val_append [of "[x]" xs] by simp

lemma le_val_less: "le_val xs < 256 ^ length xs"
proof (induction xs)
  case (Cons x xs)
  have "u < 256 \<Longrightarrow> v < B \<Longrightarrow> u + 256 * v < 256 * B" for u v B :: nat
    by linarith
  from this [OF unat_u8_less Cons] show ?case
    by simp
qed simp

lemma be_val_less: "be_val xs < 256 ^ length xs"
  using le_val_less [of "rev xs"] by (simp add: be_val_def)

lemma be_val_zeros [simp]: "be_val (replicate n 0) = 0"
  by (induction n) (simp_all add: be_val_Cons)

lemma le_val_sum: "le_val xs = (\<Sum>i < length xs. unat (xs ! i) * 256 ^ i)"
  by (induction xs) (simp_all add: sum.lessThan_Suc_shift sum_distrib_left algebra_simps del: sum.lessThan_Suc)

lemma be_val_sum: "be_val xs = (\<Sum>i < length xs. unat (xs ! (length xs - 1 - i)) * 256 ^ i)"
  by (simp add: be_val_def le_val_sum rev_nth)

subsection \<open>Comparison and subtraction\<close>

lemma digit_less: "u < w \<Longrightarrow> v < B \<Longrightarrow> u * B + v < w * B + (t :: nat)"
proof -
  assume "u < w" "v < B"
  then have "(u + 1) * B \<le> w * B"
    by (intro mult_right_mono) simp_all
  with \<open>v < B\<close> show ?thesis
    by simp
qed

lemma bn_cmp_val: "length a = length b \<Longrightarrow> 0 \<le> bn_cmp a b \<longleftrightarrow> be_val b \<le> be_val a"
proof (induction a b rule: bn_cmp.induct)
  case (1 x a y b)
  have len: "length a = length b"
    using "1.prems" by simp
  have less: "be_val a < 256 ^ length b" "be_val b < 256 ^ length b"
    using be_val_less [of a] be_val_less [of b] len by simp_all
  consider "x = y" | "unat x < unat y" | "unat y < unat x"
    by (metis linorder_neqE_nat word_unat_eq_iff)
  then show ?case
  proof cases
    case 1
    then show ?thesis
      using "1.IH" len by (simp add: be_val_Cons)
  next
    case 2
    then have "be_val (x # a) < be_val (y # b)"
      using digit_less [OF 2 less(1)] len by (simp add: be_val_Cons)
    moreover have "uint x < uint y"
      using 2 by (simp only: uint_nat of_nat_less_iff)
    ultimately show ?thesis
      by auto
  next
    case 3
    then have "be_val (y # b) < be_val (x # a)"
      using digit_less [OF 3 less(2)] len by (simp add: be_val_Cons)
    moreover have "uint y < uint x"
      using 3 by (simp only: uint_nat of_nat_less_iff)
    ultimately show ?thesis
      by auto
  qed
qed auto

lemma uint8_range: "0 \<le> uint x \<and> uint x < 256" for x :: u8
  using unsigned_less [of x, where 'a = int] by simp

lemma mod_digit: "0 \<le> r \<Longrightarrow> r < 256 \<Longrightarrow> 0 < m \<Longrightarrow> (256 * w + r) mod (256 * m) = 256 * (w mod m) + r" for r w m :: int
  by (subst zmod_zmult2_eq) simp_all

lemma mod_digit_nat: "r < 256 \<Longrightarrow> (256 * w + r) mod (256 * m) = 256 * (w mod m) + r" for r w m :: nat
  by (subst mod_mult2_eq) simp

lemma sub_loop_val:
  "length a = length b \<Longrightarrow> bw \<in> {0, 1} \<Longrightarrow> length (sub_loop a b bw) = length a \<and>
     int (le_val (sub_loop a b bw)) = (int (le_val a) - int (le_val b) - bw) mod 256 ^ length a"
proof (induction a b bw rule: sub_loop.induct)
  case (1 x a y b bw)
  define v where "v = uint x - uint y - bw"
  define bw' where "bw' = (if v < 0 then 1 else 0 :: int)"
  define d :: u8 where "d = word_of_int (v + 256 * bw')"
  have "0 \<le> u - w - b + 256 * (if u - w - b < 0 then 1 else 0) \<and> u - w - b + 256 * (if u - w - b < 0 then 1 else 0) < 256"
    if "0 \<le> u \<and> u < 256" "0 \<le> w \<and> w < 256" "b \<in> {0, 1}" for u w b :: int
    using that by auto
  from this [OF uint8_range uint8_range "1.prems"(2)] have rng: "0 \<le> v + 256 * bw' \<and> v + 256 * bw' < 256"
    unfolding v_def bw'_def .
  have "uint d = (v + 256 * bw') mod 256"
    unfolding d_def uint_word_of_int by simp
  also have "\<dots> = v + 256 * bw'"
    by (rule mod_pos_pos_trivial) (use rng in auto)
  finally have d: "uint d = v + 256 * bw'" .
  have step: "sub_loop (x # a) (y # b) bw = d # sub_loop a b bw'"
    by (simp add: d_def bw'_def v_def Let_def)
  define w where "w = int (le_val a) - int (le_val b) - bw'"
  have IH: "length (sub_loop a b bw') = length a" "int (le_val (sub_loop a b bw')) = w mod 256 ^ length a"
    using 1 by (auto simp: bw'_def v_def w_def Let_def)
  have "(int (le_val (x # a)) - int (le_val (y # b)) - bw) mod 256 ^ length (x # a)
      = (256 * w + uint d) mod (256 * 256 ^ length a)"
    by (simp add: d v_def w_def algebra_simps)
  also have "\<dots> = 256 * (w mod 256 ^ length a) + uint d"
    by (rule mod_digit) (use rng d in auto)
  finally show ?case
    unfolding step using IH by simp
qed simp_all

lemma bn_sub_val:
  assumes "length a = length b" and "be_val b \<le> be_val a"
  shows "length (bn_sub256 a b) = length a" "be_val (bn_sub256 a b) = be_val a - be_val b"
proof -
  have len: "length (rev a) = length (rev b)"
    using assms(1) by simp
  note v = sub_loop_val [OF len, of 0]
  show "length (bn_sub256 a b) = length a"
    using v by (simp add: bn_sub256_def)
  have "be_val a < 256 ^ length a"
    by (rule be_val_less)
  then have "int (be_val a - be_val b) < 256 ^ length a"
    by (metis less_imp_diff_less of_nat_less_iff of_nat_numeral of_nat_power)
  then have "int (be_val a - be_val b) mod 256 ^ length a = int (be_val a - be_val b)"
    by simp
  then have "int (be_val (bn_sub256 a b)) = int (be_val a - be_val b)"
    using v assms(2) by (simp add: bn_sub256_def be_val_def of_nat_diff)
  then show "be_val (bn_sub256 a b) = be_val a - be_val b"
    by (simp only: of_nat_eq_iff)
qed

subsection \<open>Multiplication\<close>

lemma unat_ucast_32 [simp]: "unat (ucast (x :: u8) :: u32) = unat x"
  by (simp add: unsigned_ucast_eq take_bit_nat_eq_self less_trans [OF unat_u8_less])

lemma unat_low_byte: "unat (ucast (c AND 0xFF) :: u8) = unat (c :: u32) mod 256"
proof -
  have "c AND 0xFF = take_bit 8 c"
    by (simp add: take_bit_eq_mask mask_eq_exp_minus_1)
  then show ?thesis
    by (simp add: unsigned_ucast_eq take_bit_eq_mod unat_mod)
qed

lemma unat_add_byte: "unat c < 2 ^ 24 \<Longrightarrow> unat (c + ucast (x :: u8)) = unat c + unat x" for c :: u32
proof -
  assume c: "unat c < 2 ^ 24"
  have "a + b < 2 ^ 32" if "a < 2 ^ 24" "b < 256" for a b :: nat
    using that by simp
  from this [OF c unat_u8_less] show ?thesis
    by (simp add: unat_word_ariths)
qed

lemma add_at_prefix:
  assumes "p < length out" and "unat c < 2 ^ 24"
  shows "length (add_at out p c) = length out \<and> drop (p + 1) (add_at out p c) = drop (p + 1) out \<and>
    be_val (take (p + 1) (add_at out p c)) = (be_val (take (p + 1) out) + unat c) mod 256 ^ (p + 1)"
  using assms
proof (induction p arbitrary: out c)
  case (0 out c)
  then obtain x xs where out: "out = x # xs"
    by (cases out) auto
  have "unat (c + ucast x) = unat c + unat x"
    using 0 by (intro unat_add_byte)
  then show ?case
    using out by (simp add: add_at.simps [of _ 0] Let_def unat_low_byte add.commute)
next
  case (Suc p out c)
  show ?case
  proof (cases "c = 0")
    case True
    then show ?thesis
      using be_val_less [of "take (Suc p + 1) out"] Suc.prems(1) by (simp add: add_at.simps [of _ "Suc p"])
  next
    case False
    define c' where "c' = c + ucast (out ! Suc p)"
    define out' where "out' = out[Suc p := ucast (c' AND 0xFF)]"
    have c': "unat c' = unat c + unat (out ! Suc p)"
      using Suc.prems(2) unfolding c'_def by (rule unat_add_byte)
    have step: "add_at out (Suc p) c = add_at out' p (drop_bit 8 c')"
      using False by (simp add: add_at.simps [of _ "Suc p"] Let_def c'_def out'_def)
    have d: "unat (drop_bit 8 c') = unat c' div 256"
      by (simp add: drop_bit_eq_div unat_div)
    have "(a + b) div 256 < 2 ^ 24" if "a < 2 ^ 24" "b < 256" for a b :: nat
      using that by simp
    from this [OF Suc.prems(2) unat_u8_less] have "unat c' div 256 < 2 ^ 24"
      unfolding c' .
    with Suc.IH [of out' "drop_bit 8 c'"] Suc.prems(1)
    have IH: "length (add_at out' p (drop_bit 8 c')) = length out"
      "drop (p + 1) (add_at out' p (drop_bit 8 c')) = drop (p + 1) out'"
      "be_val (take (p + 1) (add_at out' p (drop_bit 8 c'))) = (be_val (take (p + 1) out') + unat c' div 256) mod 256 ^ (p + 1)"
      by (simp_all add: out'_def d)
    define r where "r = add_at out' p (drop_bit 8 c')"
    have "r ! Suc p = out' ! Suc p"
      using arg_cong [OF IH(2), of hd] IH(1) Suc.prems(1) by (simp add: hd_drop_conv_nth r_def out'_def)
    then have digit: "unat (r ! Suc p) = unat c' mod 256"
      using Suc.prems(1) by (simp add: out'_def unat_low_byte)
    have tk: "take (Suc p + 1) xs = take (p + 1) xs @ [xs ! Suc p]" if "length xs = length out" for xs :: bytes
      using that Suc.prems(1) by (simp add: take_Suc_conv_app_nth)
    define V where "V = be_val (take (p + 1) out)"
    have "be_val (take (Suc p + 1) r) = 256 * be_val (take (p + 1) r) + unat (r ! Suc p)"
      using tk [of r] IH(1) by (simp add: r_def be_val_append)
    also have "\<dots> = 256 * ((V + unat c' div 256) mod 256 ^ (p + 1)) + unat c' mod 256"
      using IH(3) digit by (simp add: r_def V_def out'_def)
    also have "\<dots> = (256 * (V + unat c' div 256) + unat c' mod 256) mod (256 * 256 ^ (p + 1))"
      by (rule mod_digit_nat [symmetric]) simp
    also have "256 * (V + unat c' div 256) + unat c' mod 256 = be_val (take (Suc p + 1) out) + unat c"
      using c' tk [OF refl] by (simp add: be_val_append V_def)
    finally have "be_val (take (Suc p + 1) r) = (be_val (take (Suc p + 1) out) + unat c) mod 256 ^ (Suc p + 1)"
      by simp
    moreover have "drop (Suc p + 1) r = drop (Suc p + 1) out"
      using arg_cong [OF IH(2), of "drop 1"] by (simp add: r_def out'_def)
    ultimately show ?thesis
      using IH(1) step by (simp add: r_def)
  qed
qed

lemma add_at_val:
  assumes "p < length out" and "unat c < 2 ^ 24"
  shows "length (add_at out p c) = length out"
    and "be_val (add_at out p c) = (be_val out + unat c * 256 ^ (length out - 1 - p)) mod 256 ^ length out"
proof -
  note a = add_at_prefix [OF assms]
  show "length (add_at out p c) = length out"
    using a by blast
  define m where "m = length out - 1 - p"
  define V where "V = be_val (take (p + 1) out)"
  define T where "T = be_val (drop (p + 1) out)"
  have len: "length out = (p + 1) + m"
    using assms(1) by (simp add: m_def)
  have split: "be_val xs = be_val (take (p + 1) xs) * 256 ^ m + be_val (drop (p + 1) xs)" if "length xs = length out" for xs
    using be_val_append [of "take (p + 1) xs" "drop (p + 1) xs"] that len by simp
  have T: "T < 256 ^ m"
    using be_val_less [of "drop (p + 1) out"] len by (simp add: T_def)
  have "be_val (add_at out p c) = ((V + unat c) mod 256 ^ (p + 1)) * 256 ^ m + T"
    using split [of "add_at out p c"] a by (simp add: V_def T_def)
  also have "\<dots> = ((V + unat c) * 256 ^ m + T) mod (256 ^ (p + 1) * 256 ^ m)"
    using T by (subst mult.commute [of _ "256 ^ m"], subst (2) mult.commute, subst mod_mult2_eq) simp
  also have "(V + unat c) * 256 ^ m + T = be_val out + unat c * 256 ^ m"
    using split [of out] by (simp add: V_def T_def algebra_simps)
  finally have "be_val (add_at out p c) = (be_val out + unat c * 256 ^ m) mod 256 ^ length out"
    unfolding len power_add .
  moreover have "length out - 1 - p = m"
    by (simp add: m_def)
  ultimately show "be_val (add_at out p c) = (be_val out + unat c * 256 ^ (length out - 1 - p)) mod 256 ^ length out"
    by simp
qed

text \<open>A fold of steps that each add something modulo \<open>m\<close>.\<close>

lemma foldl_add_mod:
  assumes "\<And>out j. length out = l \<Longrightarrow> j \<in> set js \<Longrightarrow>
      length (f out j) = l \<and> be_val (f out j) = (be_val out + g j) mod m"
  shows "length out = l \<Longrightarrow> be_val out < m \<Longrightarrow>
    length (foldl f out js) = l \<and> be_val (foldl f out js) = (be_val out + sum_list (map g js)) mod m"
  using assms
proof (induction js arbitrary: out)
  case (Cons j js)
  have f: "length (f out j) = l" "be_val (f out j) = (be_val out + g j) mod m"
    using Cons.prems by auto
  moreover have "be_val (f out j) < m"
    using f(2) Cons.prems(2) by simp
  ultimately have "length (foldl f (f out j) js) = l \<and>
      be_val (foldl f (f out j) js) = (be_val (f out j) + sum_list (map g js)) mod m"
    using Cons.prems(3) by (intro Cons.IH) auto
  then show ?case
    by (simp add: f(2) mod_add_left_eq add.assoc)
qed simp

lemma bn_mul_val:
  assumes "length a = 256" and "length b = 256"
  shows "length (bn_mul256_be a b) = 512 \<and> be_val (bn_mul256_be a b) = be_val a * be_val b"
proof -
  let ?x = "\<lambda>i. unat (a ! (255 - i))" and ?y = "\<lambda>j. unat (b ! (255 - j))"
  let ?M = "256 ^ 512 :: nat"
  let ?in = "\<lambda>i out j. let prod = ucast (a ! (255 - i)) * ucast (b ! (255 - j)); k = i + j
         in if 512 \<le> k then out else add_at out (511 - k) prod"
  have inner: "length (?in i out j) = 512 \<and> be_val (?in i out j) = (be_val out + ?x i * ?y j * 256 ^ (i + j)) mod ?M"
    if "length out = 512" "i < 256" "j < 256" for i j and out :: bytes
  proof -
    have bound: "u * v \<le> 255 * 255" if "u < 256" "v < 256" for u v :: nat
      using that by (intro mult_mono) auto
    have b: "?x i * ?y j \<le> 255 * 255"
      by (rule bound) simp_all
    then have p: "unat (ucast (a ! (255 - i)) * ucast (b ! (255 - j)) :: u32) = ?x i * ?y j"
      by (simp add: unat_word_ariths)
    have "511 - (i + j) < length out" "length out - 1 - (511 - (i + j)) = i + j" "\<not> 512 \<le> i + j"
      using that by auto
    then show ?thesis
      using add_at_val [of "511 - (i + j)" out "ucast (a ! (255 - i)) * ucast (b ! (255 - j))"] that(1) b p
      by (simp add: Let_def)
  qed
  have outer: "length (foldl (?in i) out [0..<256]) = 512 \<and>
      be_val (foldl (?in i) out [0..<256]) = (be_val out + (\<Sum>j<256. ?x i * ?y j * 256 ^ (i + j))) mod ?M"
    if "length out = 512" "i < 256" for i and out :: bytes
  proof -
    have "be_val out < ?M"
      using be_val_less [of out] that(1) by simp
    then have "length (foldl (?in i) out [0..<256]) = 512 \<and>
      be_val (foldl (?in i) out [0..<256]) = (be_val out + sum_list (map (\<lambda>j. ?x i * ?y j * 256 ^ (i + j)) [0..<256])) mod ?M"
      by (intro foldl_add_mod inner that) auto
    then show ?thesis
      by (simp only: interv_sum_list_conv_sum_set_nat set_upt atLeast0LessThan)
  qed
  have tot: "length (bn_mul256_be a b) = 512 \<and>
      be_val (bn_mul256_be a b) = (be_val (replicate 512 0) + sum_list (map (\<lambda>i. \<Sum>j<256. ?x i * ?y j * 256 ^ (i + j)) [0..<256])) mod ?M"
    unfolding bn_mul256_be_def by (intro foldl_add_mod outer) auto
  have "(\<Sum>i<256. \<Sum>j<256. ?x i * ?y j * 256 ^ (i + j)) = (\<Sum>i<256. ?x i * 256 ^ i) * (\<Sum>j<256. ?y j * 256 ^ j)"
    unfolding sum_product by (simp only: power_add mult_ac)
  also have "\<dots> = be_val a * be_val b"
    by (simp add: be_val_sum assms)
  finally have s: "sum_list (map (\<lambda>i. \<Sum>j<256. ?x i * ?y j * 256 ^ (i + j)) [0..<256]) = be_val a * be_val b"
    by (simp only: interv_sum_list_conv_sum_set_nat set_upt atLeast0LessThan)
  have "be_val a * be_val b < 256 ^ 256 * 256 ^ 256"
    using be_val_less [of a] be_val_less [of b] assms by (intro mult_strict_mono') simp_all
  then have "be_val a * be_val b mod ?M = be_val a * be_val b"
    by (intro mod_less) (simp flip: power_add)
  with tot s show ?thesis
    by simp
qed

subsection \<open>Shifting\<close>

lemma shl_byte:
  fixes x :: u8 and c :: u16
  assumes "unat c \<le> 1"
  defines "v \<equiv> push_bit 1 (ucast x) OR c"
  shows "unat (ucast (v AND 0xFF) :: u8) = (2 * unat x + unat c) mod 256"
    and "unat (drop_bit 8 v) = (2 * unat x + unat c) div 256" and "unat (drop_bit 8 v) \<le> 1"
proof -
  have "c = 0 \<or> c = 1"
    using assms(1) by (metis le_neq_implies_less less_one unat_1 unat_eq_zero word_unat_eq_iff)
  then have v: "v = push_bit 1 (ucast x) + c"
    unfolding v_def by (subst disjunctive_add) (auto simp: bit_simps bit_0)
  have xb: "unat x < 256"
    by (rule unat_u8_less)
  have ux: "unat (ucast x :: u16) = unat x"
    by (simp add: unsigned_ucast_eq take_bit_nat_eq_self less_trans [OF unat_u8_less])
  have e: "unat v = 2 * unat x + unat c"
  proof -
    have "(b * 2 mod 65536 + a) mod 65536 = 2 * b + a" if "b < 256" "a \<le> 1" for a b :: nat
      using that by simp
    from this [OF xb assms(1)] show ?thesis
      unfolding v by (simp add: unat_word_ariths push_bit_eq_mult ux mult.commute)
  qed
  have "v AND 0xFF = take_bit 8 v"
    by (simp add: take_bit_eq_mask mask_eq_exp_minus_1)
  then show "unat (ucast (v AND 0xFF) :: u8) = (2 * unat x + unat c) mod 256"
    by (simp add: unsigned_ucast_eq take_bit_eq_mod unat_mod e)
  show d: "unat (drop_bit 8 v) = (2 * unat x + unat c) div 256"
    by (simp add: drop_bit_eq_div unat_div e)
  have "(2 * b + a) div 256 \<le> 1" if "b < 256" "a \<le> 1" for a b :: nat
    using that by simp
  from this [OF xb assms(1)] show "unat (drop_bit 8 v) \<le> 1"
    unfolding d .
qed

lemma shl_loop_val:
  "unat c \<le> 1 \<Longrightarrow> length (shl_loop r c) = length r \<and>
     le_val (shl_loop r c) = (2 * le_val r + unat c) mod 256 ^ length r"
proof (induction r c rule: shl_loop.induct)
  case (2 x r c)
  define v where "v = push_bit 1 (ucast x) OR c"
  note b = shl_byte [OF "2.prems", of x, folded v_def]
  have step: "shl_loop (x # r) c = ucast (v AND 0xFF) # shl_loop r (drop_bit 8 v)"
    by (simp add: v_def Let_def)
  have IH: "length (shl_loop r (drop_bit 8 v)) = length r"
    "le_val (shl_loop r (drop_bit 8 v)) = (2 * le_val r + unat (drop_bit 8 v)) mod 256 ^ length r"
    using "2.IH" [of v] b(3) by (simp_all add: v_def)
  define t where "t = 2 * unat x + unat c"
  have "le_val (shl_loop (x # r) c) = 256 * ((2 * le_val r + t div 256) mod 256 ^ length r) + t mod 256"
    unfolding step le_val.simps IH(2) b(1,2) t_def by simp
  also have "\<dots> = (256 * (2 * le_val r + t div 256) + t mod 256) mod (256 * 256 ^ length r)"
    by (rule mod_digit_nat [symmetric]) simp
  also have "256 * (2 * le_val r + t div 256) + t mod 256 = 2 * le_val (x # r) + unat c"
    by (simp add: t_def)
  finally show ?case
    using IH(1) step by simp
qed simp

lemma bn_shl_val:
  assumes "r \<noteq> []"
  shows "length (bn_shl1_or_bit r b) = length r \<and>
    be_val (bn_shl1_or_bit r b) = (2 * be_val r + of_bool b) mod 256 ^ length r"
proof -
  define q where "q = rev (shl_loop (rev r) 0)"
  have q: "length q = length r" "be_val q = 2 * be_val r mod 256 ^ length r"
    using shl_loop_val [of 0 "rev r"] by (simp_all add: q_def be_val_def)
  then obtain i x where ix: "q = i @ [x]"
    using assms by (metis append_butlast_last_id length_0_conv)
  have B: "256 ^ length r = 2 * (128 * 256 ^ (length r - 1) :: nat)"
    using assms by (cases r) simp_all
  have "even (be_val q)"
    unfolding q(2) B by (rule dvd_mod) simp_all
  then have "even (unat x)"
    by (simp add: ix be_val_append)
  moreover have "bit (unat x) 0 \<longleftrightarrow> bit x 0"
    by (simp only: bit_unsigned_iff) simp
  ultimately have "even x"
    by (simp add: bit_0)
  then have "x XOR 1 = x + 1"
    by (simp add: xor_one_eq)
  moreover have "unat (x + 1) = unat x + 1"
  proof -
    have "(a + 1) mod 256 = a + 1" if "even a" "a < 256" for a :: nat
      using that by (auto elim!: evenE)
    from this [OF \<open>even (unat x)\<close> unat_u8_less] show ?thesis
      by (simp add: unat_word_ariths)
  qed
  ultimately have "be_val (q[length q - 1 := q ! (length q - 1) XOR 1]) = be_val q + 1"
    by (simp add: ix be_val_append)
  moreover have "2 * be_val r mod 256 ^ length r + 1 = (2 * be_val r + 1) mod 256 ^ length r"
    unfolding B mult_mod_right [symmetric] by (subst mod_mult2_eq) simp
  ultimately show ?thesis
    using q by (cases b) (simp_all add: bn_shl1_or_bit_def Let_def flip: q_def)
qed

subsection \<open>Reduction\<close>

lemma sub_while_val:
  assumes "0 < be_val n"
  shows "length r = length n \<Longrightarrow> \<exists>r'. sub_while n r = Some r' \<and> length r' = length n \<and> be_val r' = be_val r mod be_val n"
proof (induction "be_val r" arbitrary: r rule: less_induct)
  case less
  note cmp = bn_cmp_val [OF less.prems]
  show ?case
  proof (cases "be_val n \<le> be_val r")
    case True
    let ?s = "bn_sub256 r n"
    have s: "length ?s = length n" "be_val ?s = be_val r - be_val n"
      using bn_sub_val [OF less.prems True] less.prems by simp_all
    have "be_val ?s < be_val r"
      using s(2) True assms by simp
    with less.hyps [OF this s(1)] obtain r' where "sub_while n ?s = Some r'" "length r' = length n"
        "be_val r' = be_val ?s mod be_val n"
      by auto
    with True cmp s(2) show ?thesis
      by (subst sub_while.simps) (simp add: bn_cmp256_def le_mod_geq)
  next
    case False
    with cmp less.prems show ?thesis
      by (subst sub_while.simps) (simp add: bn_cmp256_def)
  qed
qed

text \<open>A zero modulus is never undercut.\<close>

lemma sub_while_zero:
  assumes "sub_while n r = Some y"
  shows "length r = length n \<longrightarrow> be_val n = 0 \<longrightarrow> False"
proof (rule sub_while.raw_induct [where P = "\<lambda>n r y. length r = length n \<longrightarrow> be_val n = 0 \<longrightarrow> False", OF _ assms])
  fix f :: "bytes \<Rightarrow> bytes \<Rightarrow> bytes option" and n r y
  assume IH: "\<And>n r y. f n r = Some y \<Longrightarrow> length r = length n \<longrightarrow> be_val n = 0 \<longrightarrow> False"
    and step: "(if 0 \<le> bn_cmp256 r n then f n (bn_sub256 r n) else Some r) = Some y"
  show "length r = length n \<longrightarrow> be_val n = 0 \<longrightarrow> False"
  proof (intro impI)
    assume h: "length r = length n" "be_val n = 0"
    then have "0 \<le> bn_cmp256 r n"
      using bn_cmp_val [OF h(1)] by (simp add: bn_cmp256_def)
    then have "f n (bn_sub256 r n) = Some y"
      using step by simp
    moreover have "length (bn_sub256 r n) = length n"
      using bn_sub_val(1) [OF h(1)] h by simp
    ultimately show False
      using IH h(2) by blast
  qed
qed

text \<open>The bits of the product, most significant first.\<close>

definition top_bits :: "bytes \<Rightarrow> nat \<Rightarrow> nat" where
  "top_bits p i = be_val (take (i div 8) p) * 2 ^ (i mod 8) + unat (p ! (i div 8)) div 2 ^ (8 - i mod 8)"

lemma bn_bit_eq: "of_bool (bn_bit p i) = unat (p ! (i div 8)) div 2 ^ (7 - i mod 8) mod (2 :: nat)"
proof -
  define x where "x = p ! (i div 8)"
  define m where "m = 7 - i mod 8"
  have "drop_bit m x AND 1 \<noteq> 0 \<longleftrightarrow> odd (drop_bit m x)"
    by (simp add: and_one_eq odd_iff_mod_2_eq_one)
  also have "\<dots> \<longleftrightarrow> bit x m"
    by (simp only: bit_iff_odd_drop_bit)
  also have "\<dots> \<longleftrightarrow> bit (unat x) m"
    by (simp only: bit_unsigned_iff) simp
  also have "\<dots> \<longleftrightarrow> odd (unat x div 2 ^ m)"
    by (simp add: bit_iff_odd)
  finally show ?thesis
    by (simp add: bn_bit_def x_def m_def odd_iff_mod_2_eq_one)
qed

lemma top_bits_Suc:
  assumes "i div 8 < length p"
  shows "top_bits p (Suc i) = 2 * top_bits p i + of_bool (bn_bit p i)"
proof -
  define q k where "q = i div 8" and "k = i mod 8"
  define x V where "x = unat (p ! q)" and "V = be_val (take q p)"
  have k: "k < 8"
    by (simp add: k_def)
  have half: "x div 2 ^ m = 2 * (x div 2 ^ Suc m) + x div 2 ^ m mod 2" for m
    by (simp only: power_Suc2 div_mult2_eq) simp
  have "8 - k = Suc (7 - k)"
    using k by simp
  then have step: "2 * top_bits p i + of_bool (bn_bit p i) = V * 2 ^ Suc k + x div 2 ^ (7 - k)"
    using half [of "7 - k"] unfolding bn_bit_eq by (simp add: top_bits_def x_def V_def q_def k_def)
  show ?thesis
  proof (cases "k = 7")
    case True
    then have "Suc i div 8 = Suc q" "Suc i mod 8 = 0"
      by (simp_all add: q_def k_def div_Suc mod_Suc)
    moreover have "unat (p ! Suc q) div 256 = 0"
      using unat_u8_less [of "p ! Suc q"] by (simp only: div_less)
    moreover have "be_val (take (Suc q) p) = V * 256 + x"
      using assms by (simp add: take_Suc_conv_app_nth be_val_append V_def x_def q_def)
    ultimately show ?thesis
      unfolding step by (simp add: top_bits_def True)
  next
    case False
    then have "Suc i div 8 = q" "Suc i mod 8 = Suc k"
      by (simp_all add: q_def k_def div_Suc mod_Suc)
    then show ?thesis
      unfolding step by (simp add: top_bits_def x_def V_def)
  qed
qed

text \<open>
  What the reduction computes for any modulus: the top bit of the shifted remainder is lost.
\<close>

definition mod_step :: "nat \<Rightarrow> nat \<Rightarrow> nat \<Rightarrow> bool \<Rightarrow> nat" where
  "mod_step m n r b = (2 * r + of_bool b) mod m mod n"

lemma bn_mod_product_steps:
  assumes "0 < be_val n" and "n \<noteq> []"
  shows "\<exists>r. foldl (\<lambda>r i. Option.bind r (\<lambda>r. sub_while n (bn_shl1_or_bit r (bn_bit p i)))) (Some (replicate (length n) 0)) is = Some r \<and>
    length r = length n \<and> be_val r = foldl (\<lambda>r i. mod_step (256 ^ length n) (be_val n) r (bn_bit p i)) 0 is"
proof (induction "is" rule: rev_induct)
  case (snoc i "is")
  then obtain r where r: "foldl (\<lambda>r i. Option.bind r (\<lambda>r. sub_while n (bn_shl1_or_bit r (bn_bit p i)))) (Some (replicate (length n) 0)) is = Some r"
      "length r = length n" "be_val r = foldl (\<lambda>r i. mod_step (256 ^ length n) (be_val n) r (bn_bit p i)) 0 is"
    by blast
  have "r \<noteq> []"
    using r(2) assms(2) by auto
  note shl = bn_shl_val [OF this, of "bn_bit p i"]
  have "length (bn_shl1_or_bit r (bn_bit p i)) = length n"
    using shl r(2) by simp
  from sub_while_val [OF assms(1) this] obtain r' where "sub_while n (bn_shl1_or_bit r (bn_bit p i)) = Some r'"
      "length r' = length n" "be_val r' = be_val (bn_shl1_or_bit r (bn_bit p i)) mod be_val n"
    by blast
  with r shl show ?case
    by (simp add: mod_step_def)
qed simp

lemma div_le_twice: "k \<le> m div 2 \<Longrightarrow> 2 * k \<le> m" for k m :: nat
  by simp

lemma mod_steps_exact:
  assumes "2 * n \<le> m" and "0 < n"
  shows "k \<le> 8 * length p \<Longrightarrow> foldl (\<lambda>r i. mod_step m n r (bn_bit p i)) 0 [0..<k] = top_bits p k mod n"
proof (induction k)
  case 0
  have "unat (p ! 0) div 256 = 0"
    using unat_u8_less [of "p ! 0"] by (simp only: div_less)
  then show ?case by (simp add: top_bits_def)
next
  case (Suc k)
  define r where "r = top_bits p k mod n"
  have "r < n"
    using assms(2) by (simp add: r_def)
  then have small: "2 * r + of_bool b < m" for b
    using assms(1) by (cases b) auto
  have "mod_step m n r (bn_bit p k) = (2 * r + of_bool (bn_bit p k)) mod n"
    using small by (simp add: mod_step_def)
  also have "\<dots> = top_bits p (Suc k) mod n"
  proof -
    have "(2 * (t mod n) + b) mod n = (2 * t + b) mod n" for t b :: nat
      by (metis mod_add_left_eq mod_mult_right_eq)
    then show ?thesis
      using top_bits_Suc [of k p] Suc.prems by (simp add: r_def)
  qed
  finally show ?case
    using Suc by (simp add: r_def)
qed

lemma top_bits_all: "top_bits p (8 * length p) = be_val p"
proof -
  have "unat (p ! length p) div 256 = 0"
    using unat_u8_less [of "p ! length p"] by (simp only: div_less)
  then show ?thesis
    by (simp add: top_bits_def)
qed

text \<open>The largest modulus the reduction is right for.\<close>

definition max_modulus :: nat where
  "max_modulus = 256 ^ 256 div 2"

lemma bn_mod_product_val:
  assumes "length n = 256" and "0 < be_val n" and "be_val n \<le> max_modulus" and "length p = 512"
  shows "\<exists>r. bn_mod_product512 p n = Some r \<and> length r = 256 \<and> be_val r = be_val p mod be_val n"
proof -
  have "2 * be_val n \<le> 256 ^ length n"
    using assms(3) unfolding max_modulus_def assms(1) by (rule div_le_twice)
  from mod_steps_exact [OF this assms(2) order_refl, of p]
  have "foldl (\<lambda>r i. mod_step (256 ^ length n) (be_val n) r (bn_bit p i)) 0 [0..<8 * length p] = be_val p mod be_val n"
    unfolding top_bits_all .
  moreover have "n \<noteq> []"
    using assms(1) by auto
  moreover have "8 * length p = 4096"
    using assms(4) by simp
  ultimately show ?thesis
    using bn_mod_product_steps [OF assms(2), of p "[0..<4096]"] assms(1) unfolding bn_mod_product512_def by simp
qed

section \<open>RSA\<close>

lemma bn_mod_mul_val:
  assumes "length a = 256" and "length b = 256" and "length n = 256" and "0 < be_val n" and "be_val n \<le> max_modulus"
  shows "\<exists>r. bn_mod_mul a b n = Some r \<and> length r = 256 \<and> be_val r = be_val a * be_val b mod be_val n"
  using bn_mod_product_val [OF assms(3-5), of "bn_mul256_be a b"] bn_mul_val [OF assms(1,2)]
  by (simp add: bn_mod_mul_def)

lemma rsa_squarings:
  assumes "length m = 256" and "length n = 256" and "0 < be_val n" and "be_val n \<le> max_modulus"
  shows "\<exists>x. foldl (\<lambda>x i. Option.bind x (\<lambda>x. bn_mod_mul x x n)) (Some m) [0..<k] = Some x \<and> length x = 256 \<and>
    be_val x mod be_val n = be_val m ^ (2 ^ k) mod be_val n"
proof (induction k)
  case 0
  then show ?case using assms(1) by simp
next
  case (Suc k)
  then obtain x where x: "foldl (\<lambda>x i. Option.bind x (\<lambda>x. bn_mod_mul x x n)) (Some m) [0..<k] = Some x" "length x = 256"
      "be_val x mod be_val n = be_val m ^ (2 ^ k) mod be_val n"
    by blast
  obtain y where y: "bn_mod_mul x x n = Some y" "length y = 256" "be_val y = be_val x * be_val x mod be_val n"
    using bn_mod_mul_val [OF x(2) x(2) assms(2-4)] by blast
  have "be_val y mod be_val n = (be_val m ^ (2 ^ k) * be_val m ^ (2 ^ k)) mod be_val n"
    unfolding y(3) using x(3) by (metis mod_mod_trivial mod_mult_eq)
  also have "be_val m ^ (2 ^ k) * be_val m ^ (2 ^ k) = be_val m ^ (2 ^ Suc k)"
    by (simp flip: power_add add: mult_2)
  finally show ?case
    using x(1) y(1,2) by simp
qed

lemma rsa_pub_enc_val:
  assumes "length m = 256" and "length n = 256" and "0 < be_val n" and "be_val n \<le> max_modulus"
  shows "\<exists>c. rsa_pub_enc m n = Some c \<and> length c = 256 \<and> be_val c = be_val m ^ 65537 mod be_val n"
proof -
  obtain x where x: "foldl (\<lambda>x i. Option.bind x (\<lambda>x. bn_mod_mul x x n)) (Some m) [0..<16] = Some x" "length x = 256"
      "be_val x mod be_val n = be_val m ^ (2 ^ 16) mod be_val n"
    using rsa_squarings [OF assms, of 16] by blast
  obtain c where c: "bn_mod_mul x m n = Some c" "length c = 256" "be_val c = be_val x * be_val m mod be_val n"
    using bn_mod_mul_val [OF x(2) assms] by blast
  have "be_val c = be_val m ^ (2 ^ 16) * be_val m mod be_val n"
    unfolding c(3) using x(3) by (metis mod_mult_left_eq)
  also have "be_val m ^ (2 ^ 16) * be_val m = be_val m ^ 65537"
    by (simp flip: power_Suc2)
  finally show ?thesis
    using x(1) c(1,2) by (simp add: rsa_pub_enc_def)
qed

text \<open>The receiver's view of a padded message: what follows the first 0 behind \<open>00 02\<close>.\<close>

definition pkcs1_unpad :: "bytes \<Rightarrow> bytes option" where
  "pkcs1_unpad m =
     (if take 2 m = [0, 2] then
        (case dropWhile (\<lambda>x. x \<noteq> 0) (drop 2 m) of [] \<Rightarrow> None | _ # msg \<Rightarrow> Some msg)
      else None)"

lemma length_rng_bytes: "length (fst (tls_rng_bytes ticks n r)) = n"
proof (induction n arbitrary: r)
  case (Suc n)
  then show ?case by (cases r) (simp add: Let_def case_prod_beta)
qed (metis fst_conv list.size(3) surj_pair tls_rng_bytes.simps(1))

lemma pkcs1_unpad_pad: "pkcs1_unpad (pkcs1_pad ps msg) = Some msg"
proof -
  have "dropWhile (\<lambda>x. x \<noteq> 0) (map (\<lambda>x. if x = 0 then 0x42 else x) ps @ 0 # msg) = 0 # msg" for ps :: bytes
    by (induction ps) auto
  then show ?thesis
    by (simp add: pkcs1_unpad_def pkcs1_pad_def)
qed

text \<open>
  C16: The secret sent to the server. For every message of at most 245 bytes and every modulus
  up to half of the 256-byte range the routine ends and returns \<open>m ^ 65537 mod n\<close>, where \<open>m\<close> is
  a 256-byte PKCS #1 block with at least 8 bytes of padding from which the message is recovered.
\<close>

theorem pkcs1_v15_encrypt_correct:
  assumes "length msg \<le> 245" and "length n = 256" and "0 < be_val n" and "be_val n \<le> max_modulus"
  shows "\<exists>m c rng'. pkcs1_v15_encrypt ticks rng msg n = (Some (Some c), rng') \<and>
    length m = 256 \<and> pkcs1_unpad m = Some msg \<and> 0 \<notin> set (take 8 (drop 2 m)) \<and>
    length c = 256 \<and> be_val c = be_val m ^ 65537 mod be_val n"
proof -
  obtain ps rng' where ps: "tls_rng_bytes ticks (256 - 3 - length msg) rng = (ps, rng')"
    by (cases "tls_rng_bytes ticks (256 - 3 - length msg) rng")
  have lps: "length ps = 253 - length msg"
    using length_rng_bytes [of ticks "256 - 3 - length msg" rng] unfolding ps by simp
  define m where "m = pkcs1_pad ps msg"
  have lm: "length m = 256"
    using assms(1) lps by (simp add: m_def pkcs1_pad_def)
  have "0 \<notin> set (map (\<lambda>x. if x = 0 then 0x42 else x) ps)"
    by auto
  then have "0 \<notin> set (take 8 (map (\<lambda>x. if x = 0 then 0x42 else x) ps))"
    by (meson in_set_takeD)
  moreover have "take 8 (drop 2 m) = take 8 (map (\<lambda>x. if x = 0 then 0x42 else x) ps)"
    using lps assms(1) by (simp add: m_def pkcs1_pad_def)
  ultimately have "0 \<notin> set (take 8 (drop 2 m))"
    by simp
  moreover obtain c where "rsa_pub_enc m n = Some c" "length c = 256" "be_val c = be_val m ^ 65537 mod be_val n"
    using rsa_pub_enc_val [OF lm assms(2-4)] by blast
  moreover have "pkcs1_unpad m = Some msg"
    by (simp add: m_def pkcs1_unpad_pad)
  ultimately show ?thesis
    using assms(1) lm ps by (auto simp: pkcs1_v15_encrypt_def Let_def m_def)
qed

lemma small_modulus: "k \<le> 128 \<Longrightarrow> k \<le> max_modulus"
proof -
  assume "k \<le> 128"
  then have "2 * k \<le> 256 ^ 1"
    by simp
  also have "\<dots> \<le> 256 ^ 256"
    by (rule power_increasing) simp_all
  finally show ?thesis
    unfolding max_modulus_def by (metis div_le_mono nonzero_mult_div_cancel_left zero_neq_numeral)
qed

theorem pkcs1_v15_encrypt_correct_witness:
  "\<exists>c rng'. pkcs1_v15_encrypt (\<lambda>_. 5) (0xC0FFEE, 0) (replicate 48 3) (replicate 255 0 @ [77]) = (Some (Some c), rng') \<and>
     be_val c < 77"
proof -
  have n: "be_val (replicate 255 0 @ [77]) = 77"
    by (simp add: be_val_append)
  show ?thesis
    using pkcs1_v15_encrypt_correct [of "replicate 48 3" "replicate 255 0 @ [77]" "\<lambda>_. 5" "(0xC0FFEE, 0)"] small_modulus [of 77]
    unfolding n by auto
qed

lemma zero_steps:
  assumes "\<forall>i \<in> set is. \<not> b i"
  shows "foldl (\<lambda>r i. mod_step m n r (b i)) r is = ((\<lambda>r. 2 * r mod m mod n) ^^ length is) r"
  using assms
proof (induction "is" arbitrary: r)
  case (Cons i "is")
  then show ?case
    by (simp add: mod_step_def funpow_Suc_right del: funpow.simps)
qed simp

lemma doubling:
  fixes m n :: nat
  assumes "m = 2 ^ Suc e" and "2 ^ e < n"
  shows "j \<le> e \<Longrightarrow> ((\<lambda>r. 2 * r mod m mod n) ^^ j) 1 = 2 ^ j"
proof (induction j)
  case (Suc j)
  have "2 ^ Suc j \<le> (2 :: nat) ^ e"
    using Suc.prems by (intro power_increasing) simp_all
  moreover have "(2 :: nat) ^ e < 2 ^ Suc e"
    by simp
  ultimately have "(2 :: nat) ^ Suc j < m" "2 ^ Suc j < n"
    using assms by linarith+
  with Suc show ?case
    by simp
qed simp

definition two_to_2048 :: bytes where
  "two_to_2048 = replicate 255 0 @ [1] @ replicate 256 0"

lemma two_to_2048_val: "be_val two_to_2048 = 256 ^ 256"
  by (simp only: two_to_2048_def be_val_append be_val_zeros be_val_one length_replicate) simp

lemma two_to_2048_bits: "i < 4096 \<Longrightarrow> bn_bit two_to_2048 i \<longleftrightarrow> i = 2047"
proof -
  assume i: "i < 4096"
  define x where "x = two_to_2048 ! (i div 8)"
  have x: "x = (if i div 8 = 255 then 1 else 0)"
    using i by (auto simp: x_def two_to_2048_def nth_append nth_Cons')
  show "bn_bit two_to_2048 i \<longleftrightarrow> i = 2047"
  proof (cases "i div 8 = 255")
    case True
    then have "bn_bit two_to_2048 i \<longleftrightarrow> bit (1 :: u8) (7 - i mod 8)"
      unfolding bn_bit_def x_def [symmetric] x by (simp add: bit_iff_odd_drop_bit and_one_eq odd_iff_mod_2_eq_one)
    also have "\<dots> \<longleftrightarrow> i mod 8 = 7"
      by (auto simp: bit_1_iff)
    finally show ?thesis
      using True by presburger
  next
    case False
    then show ?thesis
      unfolding bn_bit_def x_def [symmetric] x by auto
  qed
qed

lemma bits_256: "(256 :: nat) ^ 256 = 2 ^ Suc 2047"
proof -
  have "(256 :: nat) ^ 256 = (2 ^ 8) ^ 256"
    by (simp only: power_eq_iff_eq_base) simp
  also have "\<dots> = 2 ^ (8 * 256)"
    by (rule power_mult [symmetric])
  also have "8 * 256 = Suc 2047"
    by simp
  finally show ?thesis .
qed

lemma max_modulus_eq: "max_modulus = 2 ^ 2047"
  unfolding max_modulus_def bits_256 power_Suc by (rule nonzero_mult_div_cancel_left) simp

lemma single_bit_fold:
  fixes m n :: nat
  assumes m: "m = 2 ^ Suc e" and n: "2 ^ e < n" and e: "0 < e"
    and bits: "\<And>i. i < Suc (e + Suc e) \<Longrightarrow> b i \<longleftrightarrow> i = e"
  shows "foldl (\<lambda>r i. mod_step m n r (b i)) 0 [0..<Suc (e + Suc e)] = 0"
proof -
  let ?f = "\<lambda>r i. mod_step m n r (b i)"
  let ?g = "\<lambda>r. 2 * r mod m mod n"
  have l: "[0..<Suc (e + Suc e)] = [0..<e] @ e # [Suc e..<Suc (e + Suc e)]"
    using upt_add_eq_append [of 0 e "Suc (Suc e)"] by (simp add: upt_conv_Cons del: upt_Suc)
  have "(?g ^^ k) 0 = 0" for k
    by (induction k) simp_all
  then have a: "foldl ?f 0 [0..<e] = 0"
    using zero_steps [of "[0..<e]" b m n 0] bits by simp
  have "(1 :: nat) < 2 ^ e"
    using one_less_power [of "2 :: nat" e] e by simp
  then have "1 < m" "1 < n"
    using m n by simp_all
  then have b: "?f 0 e = 1"
    using bits [of e] by (simp add: mod_step_def)
  have "(?g ^^ Suc e) 1 = ?g ((?g ^^ e) 1)"
    by simp
  also have "(?g ^^ e) 1 = 2 ^ e"
    by (rule doubling [OF m n order_refl])
  also have "?g (2 ^ e) = 0"
    by (simp add: m)
  finally have c: "foldl ?f 1 [Suc e..<Suc (e + Suc e)] = 0"
    using zero_steps [of "[Suc e..<Suc (e + Suc e)]" b m n 1] bits
    by (simp del: upt_Suc funpow.simps)
  show ?thesis
    unfolding l foldl_append foldl.simps a b c ..
qed

lemma overflowing_steps:
  assumes "max_modulus < n"
  shows "foldl (\<lambda>r i. mod_step (256 ^ 256) n r (bn_bit two_to_2048 i)) 0 [0..<4096] = 0"
proof -
  have len: "Suc (2047 + Suc 2047) = 4096"
    by simp
  have n: "2 ^ 2047 < n"
    using assms by (simp only: max_modulus_eq)
  show ?thesis
    by (rule single_bit_fold [OF bits_256 n, of "bn_bit two_to_2048", unfolded len])
      (rule zero_less_numeral, rule two_to_2048_bits)
qed

text \<open>
  Beyond that bound the arithmetic is wrong: whatever the modulus above it (every RSA-2048
  modulus is), the code reduces \<open>2 ^ 2048\<close> to 0, which is not its residue.
\<close>

theorem bn_mod_product_overflow:
  assumes "length n = 256" and "max_modulus < be_val n"
  shows "\<exists>r. bn_mod_product512 two_to_2048 n = Some r \<and> be_val r = 0 \<and> be_val two_to_2048 mod be_val n \<noteq> 0"
proof -
  have pos: "0 < be_val n" and ne: "n \<noteq> []"
    using assms by auto
  obtain r where "bn_mod_product512 two_to_2048 n = Some r" "be_val r = 0"
    using bn_mod_product_steps [OF pos ne, of two_to_2048 "[0..<4096]"] overflowing_steps [OF assms(2)]
    unfolding bn_mod_product512_def assms(1) by auto
  moreover have "be_val n < 256 ^ 256"
    using be_val_less [of n] unfolding assms(1) .
  then have "be_val two_to_2048 mod be_val n = 256 ^ 256 - be_val n"
  proof -
    assume lt: "be_val n < 256 ^ 256"
    have "2 * max_modulus = 256 ^ 256"
      unfolding max_modulus_eq bits_256 by (rule power_Suc [symmetric])
    then have "256 ^ 256 - be_val n < be_val n"
      using assms(2) by linarith
    with lt show ?thesis
      unfolding two_to_2048_val by (subst le_mod_geq) (simp_all only: less_imp_le mod_less)
  qed
  ultimately show ?thesis
    using \<open>be_val n < 256 ^ 256\<close> by (metis zero_less_diff less_numeral_extra(3))
qed

theorem bn_mod_product_overflow_witness:
  "\<exists>r. bn_mod_product512 two_to_2048 (0x80 # replicate 254 0 @ [1]) = Some r \<and> be_val r = 0"
proof -
  define t :: bytes where "t = replicate 254 0 @ [1]"
  have t: "length t = 255" "be_val t = 1"
    by (simp_all add: t_def be_val_append)
  have half: "256 ^ Suc k div 2 = 128 * (256 :: nat) ^ k" for k
    by simp
  have "max_modulus = 256 ^ Suc 255 div 2"
    unfolding max_modulus_def by (rule arg_cong [of "256" "Suc 255" "\<lambda>k. 256 ^ k div 2"]) simp
  then have "max_modulus = 128 * 256 ^ 255"
    unfolding half .
  moreover have "be_val (0x80 # t) = 128 * 256 ^ 255 + 1"
    using be_val_Cons [of "0x80" t] unfolding t by simp
  ultimately have "max_modulus < be_val (0x80 # t)"
    by linarith
  then show ?thesis
    using bn_mod_product_overflow [of "0x80 # t"] t(1) unfolding t_def by auto
qed

end
