(* ===== verification/Tls.thy ===== *)
theory Tls
  imports TlsRsa NetStack KString
begin

text \<open>
  The TLS 1.2 client itself: records and handshake of \<open>src/src/Network/tls12_client.c\<close>, on top of
  the primitives of \<open>TlsCrypto\<close> and \<open>TlsRsa\<close> and of the sockets of \<open>NetStack\<close>.

  The module's static variables are the record \<open>tls\<close>, which holds the network below it.
  \<open>None\<close> is an access outside a buffer, a read of an uninitialised local, or a call that does
  not return. \<open>g\<close> reads the timer for the network; \<open>rt\<close> gives the values that the calls of
  \<open>get_ticks\<close> in the generator see.
\<close>

section \<open>State and buffers\<close>

record 'd tls =
  tls_net :: "'d net"
  tls_rx :: bytes
  tls_rx_len :: nat
  client_random :: bytes
  server_random :: bytes
  master_secret :: bytes
  client_w_mac :: bytes
  server_w_mac :: bytes
  client_w_key :: bytes
  server_w_key :: bytes
  client_w_iv :: bytes
  server_w_iv :: bytes
  client_seq :: u64
  server_seq :: u64
  tls_enc_ready :: bool
  transcript :: bytes
  tls_rng_state :: rng

definition tr_add :: "bytes \<Rightarrow> 'd tls \<Rightarrow> 'd tls" where
  "tr_add p s = (if 8192 < length (transcript s) + length p then s else s\<lparr>transcript := transcript s @ p\<rparr>)"

definition tls_rx_consume :: "nat \<Rightarrow> 'd tls \<Rightarrow> 'd tls option" where
  "tls_rx_consume n s =
     (if tls_rx_len s \<le> n then Some (s\<lparr>tls_rx_len := 0\<rparr>)
      else do {
        rx \<leftarrow> memmove (tls_rx s) 0 n (tls_rx_len s - n);
        Some (s\<lparr>tls_rx := rx, tls_rx_len := tls_rx_len s - n\<rparr>) })"

text \<open>\<open>tcp_pull\<close>: the result says whether the buffer holds anything.\<close>

fun tcp_pull :: "('d \<Rightarrow> u32 \<times> 'd) \<Rightarrow> nat \<Rightarrow> 'd tls \<Rightarrow> (bool \<times> 'd tls) option" where
  "tcp_pull g 0 s = Some (False, s)"
| "tcp_pull g (Suc n) s =
     do {
       m \<leftarrow> netif_polls 25 (tls_net s);
       (data, m) \<leftarrow> tcp_receive g (of_nat (16384 - tls_rx_len s)) m;
       rx \<leftarrow> wrn (tls_rx s) (tls_rx_len s) data;
       let s = s\<lparr>tls_net := m, tls_rx := rx, tls_rx_len := tls_rx_len s + length data\<rparr>;
       if 0 < tls_rx_len s then Some (True, s) else tcp_pull g n s }"

text \<open>
  \<open>tls_need\<close> only gives up while the buffer is empty: a peer that stalls in the middle of a
  record keeps it waiting for ever.
\<close>

partial_function (option) tls_need :: "('d \<Rightarrow> u32 \<times> 'd) \<Rightarrow> nat \<Rightarrow> 'd tls \<Rightarrow> (bool \<times> 'd tls) option" where
  "tls_need g n s =
     (if tls_rx_len s < n
      then Option.bind (tcp_pull g 5 s) (\<lambda>r. if fst r then tls_need g n (snd r) else Some (False, snd r))
      else Some (True, s))"

definition be_u24 :: "nat \<Rightarrow> bytes" where
  "be_u24 v = [of_nat (v div 65536), of_nat (v div 256), of_nat v]"

definition rd24 :: "bytes \<Rightarrow> nat \<Rightarrow> nat option" where
  "rd24 b i = (if i + 3 \<le> length b
     then Some (65536 * unat (b ! i) + 256 * unat (b ! (i + 1)) + unat (b ! (i + 2))) else None)"

section \<open>Sending\<close>

text \<open>\<open>None\<close> as the inner result is the returned \<open>-1\<close>.\<close>

definition tls_send_record :: "u8 \<Rightarrow> bytes \<Rightarrow> 'd tls \<Rightarrow> (int \<times> 'd tls) option" where
  "tls_send_record type data s =
     (if 5 + 16384 < length data + 5 then Some (-1, s)
      else do {
        (r, m) \<leftarrow> tcp_send (type # put16be 0x0303 @ put16be (of_nat (length data)) @ data) (tls_net s);
        Some (r, s\<lparr>tls_net := m\<rparr>) })"

definition tls_send_handshake :: "u8 \<Rightarrow> bytes \<Rightarrow> 'd tls \<Rightarrow> (int \<times> 'd tls) option" where
  "tls_send_handshake mtype body s =
     (if 16384 < length body then None
      else let hs = mtype # be_u24 (length body) @ body
           in tls_send_record 22 hs (tr_add hs s))"

definition tls12_client_reset :: "'d tls \<Rightarrow> 'd tls" where
  "tls12_client_reset s =
     s\<lparr>tls_rx_len := 0, tls_enc_ready := False, transcript := [], client_seq := 0, server_seq := 0,
       master_secret := replicate 48 0\<rparr>"

definition record_ad :: "u64 \<Rightarrow> u8 \<Rightarrow> nat \<Rightarrow> bytes" where
  "record_ad seq type len = be64 seq @ [type] @ put16be 0x0303 @ put16be (of_nat len)"

definition record_plain :: "bytes \<Rightarrow> u64 \<Rightarrow> u8 \<Rightarrow> bytes \<Rightarrow> bytes" where
  "record_plain mac_key seq type plain =
     (let mac = hmac_sha256 mac_key (record_ad seq type (length plain) @ plain);
          pad = 16 - (length plain + 32) mod 16
      in plain @ mac @ replicate pad (of_nat (pad - 1)))"

definition tls_encrypt_payload :: "(nat \<Rightarrow> u32) \<Rightarrow> u8 \<Rightarrow> bytes \<Rightarrow> 'd tls \<Rightarrow> (bytes option \<times> 'd tls) option" where
  "tls_encrypt_payload rt type plain s =
     (if 16384 < length plain then None
      else
        let work = record_plain (client_w_mac s) (client_seq s) type plain
        in if 4096 < length work then Some (None, s)
           else
             let (iv, rng) = tls_rng_bytes rt 16 (tls_rng_state s)
             in do {
               ct \<leftarrow> aes128_cbc_encrypt (client_w_key s) iv work;
               Some (Some (iv @ ct), s\<lparr>tls_rng_state := rng, client_seq := client_seq s + 1\<rparr>) })"

definition tls_send_encrypted :: "(nat \<Rightarrow> u32) \<Rightarrow> u8 \<Rightarrow> bytes \<Rightarrow> 'd tls \<Rightarrow> (int \<times> 'd tls) option" where
  "tls_send_encrypted rt type plain s =
     do {
       (buf, s) \<leftarrow> tls_encrypt_payload rt type plain s;
       case buf of None \<Rightarrow> Some (-1, s) | Some b \<Rightarrow> tls_send_record type b s }"

section \<open>Receiving\<close>

text \<open>
  Decryption in the caller's buffer: a last block that is not whole is read and written behind
  the \<open>clen\<close> bytes.
\<close>

definition decrypt_in_place :: "bytes \<Rightarrow> bytes \<Rightarrow> bytes \<Rightarrow> bytes \<Rightarrow> bytes option" where
  "decrypt_in_place key iv ct out =
     do {
       out \<leftarrow> wrn out 0 ct;
       blocks \<leftarrow> rdn out 0 (16 * ((length ct + 15) div 16));
       dec \<leftarrow> aes128_cbc_decrypt key iv blocks;
       wrn out 0 dec }"

text \<open>The check of a decrypted record: \<open>None\<close> inside is a refusal.\<close>

definition open_record :: "bytes \<Rightarrow> u64 \<Rightarrow> u8 \<Rightarrow> bytes \<Rightarrow> nat \<Rightarrow> nat \<Rightarrow> bytes option option" where
  "open_record mac_key seq rtype out clen max_out =
     (if clen < 32 + 1 then Some None
      else do {
        padv \<leftarrow> rd8 out (clen - 1);
        let dlen = unat (of_nat clen - 32 - ucast padv - 1 :: u32);
        if max_out < dlen then Some None
        else if 16384 < dlen then None
        else do {
          plain \<leftarrow> rdn out 0 dlen;
          tag \<leftarrow> rdn out dlen 32;
          Some (if hmac_sha256 mac_key (record_ad seq rtype dlen @ plain) \<noteq> tag then None else Some plain) } })"

text \<open>
  The result is the plaintext or a refusal, with the caller's buffer. The payload pointer is
  used after \<open>tls_rx_consume\<close> has moved the buffer.
\<close>

definition tls_decrypt_app :: "('d \<Rightarrow> u32 \<times> 'd) \<Rightarrow> bytes \<Rightarrow> nat \<Rightarrow> 'd tls \<Rightarrow> (bytes option \<times> bytes \<times> 'd tls) option" where
  "tls_decrypt_app g out max_out s =
     do {
       (ok, s) \<leftarrow> tls_need g 5 s;
       if \<not> ok then Some (None, out, s)
       else do {
         rtype \<leftarrow> rd8 (tls_rx s) 0;
         if rtype \<noteq> 23 \<and> rtype \<noteq> 22 \<and> rtype \<noteq> 21 then Some (None, out, s)
         else do {
           reclen \<leftarrow> rd16be (tls_rx s) 3;
           let rl = unat reclen;
           (ok, s) \<leftarrow> tls_need g (5 + rl) s;
           if \<not> ok then Some (None, out, s)
           else do {
             s \<leftarrow> tls_rx_consume (5 + rl) s;
             if rl < 16 then Some (None, out, s)
             else do {
               iv \<leftarrow> rdn (tls_rx s) 5 16;
               let clen = rl - 16;
               if (max_out + 64) mod 4294967296 < clen then Some (None, out, s)
               else do {
                 ct \<leftarrow> rdn (tls_rx s) 21 clen;
                 out \<leftarrow> decrypt_in_place (server_w_key s) iv ct out;
                 r \<leftarrow> open_record (server_w_mac s) (server_seq s) rtype out clen max_out;
                 case r of
                   None \<Rightarrow> Some (None, out, s)
                 | Some plain \<Rightarrow> Some (Some plain, out, s\<lparr>server_seq := server_seq s + 1\<rparr>) } } } } } }"

definition tls12_client_send_app :: "(nat \<Rightarrow> u32) \<Rightarrow> bytes \<Rightarrow> 'd tls \<Rightarrow> (int \<times> 'd tls) option" where
  "tls12_client_send_app rt data s =
     (if \<not> tls_enc_ready s then Some (-1, s) else tls_send_encrypted rt 23 data s)"

definition tls12_client_recv_app :: "('d \<Rightarrow> u32 \<times> 'd) \<Rightarrow> bytes \<Rightarrow> nat \<Rightarrow> 'd tls \<Rightarrow> (int \<times> bytes \<times> 'd tls) option" where
  "tls12_client_recv_app g buf max_len s =
     (if \<not> tls_enc_ready s then Some (-1, buf, s)
      else do {
        (r, buf, s) \<leftarrow> tls_decrypt_app g buf max_len s;
        Some (case r of None \<Rightarrow> -1 | Some plain \<Rightarrow> int (length plain), buf, s) })"

section \<open>The handshake\<close>

text \<open>\<open>ClientHello\<close> with the server name, cut at 200 bytes.\<close>

definition client_hello :: "bytes \<Rightarrow> bytes \<Rightarrow> bytes" where
  "client_hello random sni_hostname =
     (let sni = take 200 (cstr sni_hostname);
          sni_len = length sni;
          ext_data_len = 5 + sni_len;
          all_ext_len = 4 + ext_data_len
      in put16be 0x0303 @ random @ [0] @ put16be 2 @ put16be 0x003C @ [1, 0]
         @ put16be (of_nat all_ext_len) @ put16be 0 @ put16be (of_nat ext_data_len)
         @ put16be (of_nat (3 + sni_len)) @ [0] @ put16be (of_nat sni_len) @ sni)"

text \<open>The locals of the message loop; \<open>cert_der\<close> is what has been written to the buffer.\<close>

record hs_locals =
  n256 :: bytes
  got_sh :: bool
  got_cert :: bool
  got_done :: bool
  cert_der :: bytes

text \<open>How a handshake message ends: go on, leave the record's loop, or return from the handshake.\<close>

datatype hs_next = Next | Leave | Return int

definition server_hello :: "nat \<Rightarrow> nat \<Rightarrow> nat \<Rightarrow> hs_locals \<Rightarrow> 'd tls \<Rightarrow> (hs_next \<times> hs_locals \<times> 'd tls) option" where
  "server_hello rlen off hlen l s =
     do {
       let hbody = 5 + off + 4;
       random \<leftarrow> rdn (tls_rx s) (hbody + 2) 32;
       let s = s\<lparr>server_random := random\<rparr>;
       sidlen \<leftarrow> rd8 (tls_rx s) (hbody + 34);
       let cso = 35 + unat sidlen;
       if hlen \<le> cso + 1 then Some (Leave, l, s)
       else do {
         cs \<leftarrow> rd16be (tls_rx s) (hbody + cso);
         if cs = 0xC02F \<or> cs = 0xC030 \<or> drop_bit 8 cs = 0xC0
         then do { s \<leftarrow> tls_rx_consume (5 + rlen) s; Some (Return (-2), l, s) }
         else if cs \<noteq> 0x003C
         then do { s \<leftarrow> tls_rx_consume (5 + rlen) s; Some (Return (-1), l, s) }
         else do {
           msg \<leftarrow> rdn (tls_rx s) (5 + off) (4 + hlen);
           Some (Next, l\<lparr>got_sh := True\<rparr>, tr_add msg s) } } }"

definition certificate :: "nat \<Rightarrow> nat \<Rightarrow> nat \<Rightarrow> hs_locals \<Rightarrow> 'd tls \<Rightarrow> (hs_next \<times> hs_locals \<times> 'd tls) option" where
  "certificate rlen off hlen l s =
     do {
       let hbody = 5 + off + 4;
       chain_len \<leftarrow> rd24 (tls_rx s) hbody;
       c0len \<leftarrow> rd24 (tls_rx s) (hbody + 3);
       if 4096 < c0len
       then do { s \<leftarrow> tls_rx_consume (5 + rlen) s; Some (Return (-1), l, s) }
       else do {
         c0 \<leftarrow> rdn (tls_rx s) (hbody + 6) c0len;
         let l = l\<lparr>cert_der := c0 @ drop c0len (cert_der l)\<rparr>;
         r \<leftarrow> der_find_rsa_modulus (cert_der l) c0len;
         case r of
           None \<Rightarrow> do { s \<leftarrow> tls_rx_consume (5 + rlen) s; Some (Return (-1), l, s) }
         | Some (n, e) \<Rightarrow> do {
             msg \<leftarrow> rdn (tls_rx s) (5 + off) (4 + hlen);
             Some (Next, l\<lparr>n256 := n, got_cert := True\<rparr>, tr_add msg s) } } }"

definition hs_message :: "nat \<Rightarrow> nat \<Rightarrow> u8 \<Rightarrow> nat \<Rightarrow> hs_locals \<Rightarrow> 'd tls \<Rightarrow> (hs_next \<times> hs_locals \<times> 'd tls) option" where
  "hs_message rlen off ht hlen l s =
     (if ht = 2 then server_hello rlen off hlen l s
      else if ht = 11 then certificate rlen off hlen l s
      else if ht = 14
      then do {
        msg \<leftarrow> rdn (tls_rx s) (5 + off) (4 + hlen);
        Some (Next, l\<lparr>got_done := True\<rparr>, tr_add msg s) }
      else Some (Next, l, s))"

text \<open>The messages of one record.\<close>

function hs_messages :: "nat \<Rightarrow> nat \<Rightarrow> hs_locals \<Rightarrow> 'd tls \<Rightarrow> (hs_next \<times> hs_locals \<times> 'd tls) option" where
  "hs_messages rlen off l s =
     (if off + 4 \<le> rlen
      then do {
        ht \<leftarrow> rd8 (tls_rx s) (5 + off);
        hlen \<leftarrow> rd24 (tls_rx s) (5 + off + 1);
        if rlen < off + 4 + hlen then Some (Leave, l, s)
        else do {
          (nxt, l, s) \<leftarrow> hs_message rlen off ht hlen l s;
          case nxt of Next \<Rightarrow> hs_messages rlen (off + (4 + hlen)) l s | _ \<Rightarrow> Some (nxt, l, s) } }
      else Some (Leave, l, s))"
  by pat_completeness auto
termination
  by (relation "measure (\<lambda>(rlen, off, _, _). rlen - off)") auto

declare hs_messages.simps [simp del]

definition hs_record :: "('d \<Rightarrow> u32 \<times> 'd) \<Rightarrow> hs_locals \<Rightarrow> 'd tls \<Rightarrow> (int option \<times> hs_locals \<times> 'd tls) option" where
  "hs_record g l s =
     do {
       (ok, s) \<leftarrow> tls_need g 5 s;
       if \<not> ok then Some (Some (-1), l, s)
       else do {
         typ \<leftarrow> rd8 (tls_rx s) 0;
         rlen \<leftarrow> rd16be (tls_rx s) 3;
         let rlen = unat rlen;
         (ok, s) \<leftarrow> tls_need g (5 + rlen) s;
         if \<not> ok then Some (Some (-1), l, s)
         else do {
           (nxt, l, s) \<leftarrow> (if typ = 22 then hs_messages rlen 0 l s else Some (Leave, l, s));
           case nxt of
             Return r \<Rightarrow> Some (Some r, l, s)
           | _ \<Rightarrow> do { s \<leftarrow> tls_rx_consume (5 + rlen) s; Some (None, l, s) } } } }"

partial_function (option) hs_loop :: "('d \<Rightarrow> u32 \<times> 'd) \<Rightarrow> hs_locals \<Rightarrow> 'd tls \<Rightarrow> (int option \<times> hs_locals \<times> 'd tls) option" where
  "hs_loop g l s =
     (if got_done l then Some (None, l, s)
      else Option.bind (hs_record g l s)
        (\<lambda>r. case fst r of Some e \<Rightarrow> Some r | None \<Rightarrow> hs_loop g (fst (snd r)) (snd (snd r))))"

text \<open>\<open>ClientKeyExchange\<close> and the derivation of the keys.\<close>

definition key_exchange :: "(nat \<Rightarrow> u32) \<Rightarrow> bytes \<Rightarrow> 'd tls \<Rightarrow> (int \<times> bytes \<times> 'd tls) option" where
  "key_exchange rt n s =
     do {
       let (ps, rng) = tls_rng_bytes rt 46 (tls_rng_state s);
       let pre = [3, 3] @ ps;
       let (enc, rng) = pkcs1_v15_encrypt rt rng pre n;
       let s = s\<lparr>tls_rng_state := rng\<rparr>;
       case enc of
         None \<Rightarrow> Some (-1, pre, s)
       | Some r \<Rightarrow> do {
           enc_pre \<leftarrow> r;
           let hs = 16 # be_u24 258 @ put16be 256 @ enc_pre;
           (r, s) \<leftarrow> tls_send_record 22 hs (tr_add hs s);
           Some (if r < 0 then -1 else 0, pre, s) } }"

definition derive_keys :: "bytes \<Rightarrow> 'd tls \<Rightarrow> 'd tls option" where
  "derive_keys pre s =
     do {
       ms \<leftarrow> prf_tls12 pre (lit ''master secret'') (client_random s @ server_random s) 48;
       keyblk \<leftarrow> prf_tls12 ms (lit ''key expansion'') (server_random s @ client_random s) 128;
       Some (s\<lparr>master_secret := ms, client_w_mac := take 32 keyblk, server_w_mac := take 32 (drop 32 keyblk),
         client_w_key := take 16 (drop 64 keyblk), server_w_key := take 16 (drop 80 keyblk),
         client_w_iv := take 16 (drop 96 keyblk), server_w_iv := take 16 (drop 112 keyblk)\<rparr>) }"

definition send_finished :: "(nat \<Rightarrow> u32) \<Rightarrow> 'd tls \<Rightarrow> (int \<times> 'd tls) option" where
  "send_finished rt s =
     do {
       verify_hash \<leftarrow> sha256_raw (transcript s);
       vd \<leftarrow> prf_tls12 (master_secret s) (lit ''client finished'') verify_hash 12;
       (r, s) \<leftarrow> tls_send_record 20 [1] s;
       if r < 0 then Some (-1, s)
       else do {
         (enc, s) \<leftarrow> tls_encrypt_payload rt 22 (20 # be_u24 12 @ vd) s;
         case enc of
           None \<Rightarrow> Some (-1, s)
         | Some b \<Rightarrow> do {
             (r, s) \<leftarrow> tls_send_record 22 b s;
             Some (if r < 0 then -1 else 0, s) } } }"

text \<open>
  The server's \<open>Finished\<close>: decrypted in a local buffer of 512 bytes, the MAC input in one of
  77. Its content is not looked at.
\<close>

definition open_finished :: "bytes \<Rightarrow> bytes \<Rightarrow> u64 \<Rightarrow> bytes \<Rightarrow> bytes \<Rightarrow> bytes option option" where
  "open_finished key mac_key seq iv ct =
     do {
       stmp \<leftarrow> aes128_cbc_decrypt key iv ct;
       padv \<leftarrow> (if ct = [] then None else rd8 stmp (length ct - 1));
       let dlen = unat (of_nat (length ct) - 32 - ucast padv - 1 :: u32);
       if 64 < dlen then None
       else do {
         plain \<leftarrow> rdn stmp 0 dlen;
         tag \<leftarrow> rdn stmp dlen 32;
         Some (if hmac_sha256 mac_key (record_ad seq 22 dlen @ plain) \<noteq> tag then None else Some plain) } }"

definition recv_finished :: "('d \<Rightarrow> u32 \<times> 'd) \<Rightarrow> 'd tls \<Rightarrow> (int \<times> 'd tls) option" where
  "recv_finished g s =
     do {
       (ok, s) \<leftarrow> tls_need g 6 s;
       if \<not> ok then Some (-1, s)
       else do {
         t \<leftarrow> rd8 (tls_rx s) 0;
         n \<leftarrow> rd16be (tls_rx s) 3;
         if t \<noteq> 20 \<or> n \<noteq> 1 then Some (-1, s)
         else do {
           s \<leftarrow> tls_rx_consume 6 s;
           (ok, s) \<leftarrow> tls_need g 5 s;
           if \<not> ok then Some (-1, s)
           else do {
             t \<leftarrow> rd8 (tls_rx s) 0;
             if t \<noteq> 22 then Some (-1, s)
             else do {
               srlen \<leftarrow> rd16be (tls_rx s) 3;
               let srlen = unat srlen;
               (ok, s) \<leftarrow> tls_need g (5 + srlen) s;
               if \<not> ok then Some (-1, s)
               else do {
                 riv \<leftarrow> rdn (tls_rx s) 5 16;
                 if srlen < 16 \<or> 512 < srlen - 16 then Some (-1, s)
                 else do {
                   ct \<leftarrow> rdn (tls_rx s) 21 (srlen - 16);
                   r \<leftarrow> open_finished (server_w_key s) (server_w_mac s) (server_seq s) riv ct;
                   case r of
                     None \<Rightarrow> Some (-1, s)
                   | Some plain \<Rightarrow> do {
                       s \<leftarrow> tls_rx_consume (5 + srlen) s;
                       Some (0, s\<lparr>server_seq := server_seq s + 1, tls_enc_ready := True\<rparr>) } } } } } } } }"

definition tls12_client_handshake ::
  "('d \<Rightarrow> u32 \<times> 'd) \<Rightarrow> (nat \<Rightarrow> u32) \<Rightarrow> bytes \<Rightarrow> 'd tls \<Rightarrow> (int \<times> 'd tls) option" where
  "tls12_client_handshake g rt sni_hostname s =
     do {
       let s = tls12_client_reset s;
       let (random, rng) = tls_rng_bytes rt 32 (tls_rng_state s);
       let s = s\<lparr>client_random := random, tls_rng_state := rng\<rparr>;
       (r, s) \<leftarrow> tls_send_handshake 1 (client_hello random sni_hostname) s;
       if r < 0 then Some (-1, s)
       else do {
         (e, l, s) \<leftarrow> hs_loop g \<lparr>n256 = [], got_sh = False, got_cert = False, got_done = False, cert_der = []\<rparr> s;
         case e of
           Some r \<Rightarrow> Some (r, s)
         | None \<Rightarrow>
             if \<not> got_sh l \<or> \<not> got_cert l then Some (-1, s)
             else do {
               (r, pre, s) \<leftarrow> key_exchange rt (n256 l) s;
               if r < 0 then Some (-1, s)
               else do {
                 s \<leftarrow> derive_keys pre s;
                 (r, s) \<leftarrow> send_finished rt s;
                 if r < 0 then Some (-1, s) else recv_finished g s } } } }"

section \<open>Waiting for bytes changes only the buffer and the network\<close>

named_theorems tls_keeps \<open>what an operation leaves alone\<close>

definition rx_only :: "'d tls \<Rightarrow> 'd tls \<Rightarrow> bool" where
  "rx_only s s' \<longleftrightarrow> s' = s\<lparr>tls_net := tls_net s', tls_rx := tls_rx s', tls_rx_len := tls_rx_len s'\<rparr>"

lemma rx_only_refl [simp]: "rx_only s s"
  by (simp add: rx_only_def)

lemma rx_only_trans: "rx_only s t \<Longrightarrow> rx_only t u \<Longrightarrow> rx_only s u"
  by (cases s; cases t; cases u) (simp add: rx_only_def)

lemma rx_only_fields:
  assumes "rx_only s s'"
  shows "client_random s' = client_random s" "server_random s' = server_random s" "master_secret s' = master_secret s"
    "client_w_mac s' = client_w_mac s" "server_w_mac s' = server_w_mac s" "client_w_key s' = client_w_key s"
    "server_w_key s' = server_w_key s" "client_seq s' = client_seq s" "server_seq s' = server_seq s"
    "tls_enc_ready s' = tls_enc_ready s" "transcript s' = transcript s" "tls_rng_state s' = tls_rng_state s"
proof -
  have e: "s' = s\<lparr>tls_net := tls_net s', tls_rx := tls_rx s', tls_rx_len := tls_rx_len s'\<rparr>"
    using assms unfolding rx_only_def .
  show "client_random s' = client_random s" "server_random s' = server_random s" "master_secret s' = master_secret s"
    "client_w_mac s' = client_w_mac s" "server_w_mac s' = server_w_mac s" "client_w_key s' = client_w_key s"
    "server_w_key s' = server_w_key s" "client_seq s' = client_seq s" "server_seq s' = server_seq s"
    "tls_enc_ready s' = tls_enc_ready s" "transcript s' = transcript s" "tls_rng_state s' = tls_rng_state s"
    by (subst e, simp)+
qed

lemma tcp_pull_rx [tls_keeps]: "tcp_pull g n s = Some (ok, s') \<Longrightarrow> rx_only s s'"
proof (induction n arbitrary: s)
  case (Suc n)
  obtain m0 where 0: "netif_polls 25 (tls_net s) = Some m0"
    using Suc.prems by (auto simp del: netif_polls.simps split: Option.bind_splits)
  obtain data m where 1: "tcp_receive g (of_nat (16384 - tls_rx_len s)) m0 = Some (data, m)"
    using Suc.prems 0 by (auto simp del: netif_polls.simps split: Option.bind_splits)
  obtain rx where 2: "wrn (tls_rx s) (tls_rx_len s) data = Some rx"
    using Suc.prems 0 1 by (auto simp del: netif_polls.simps split: Option.bind_splits)
  define t where "t = s\<lparr>tls_net := m, tls_rx := rx, tls_rx_len := tls_rx_len s + length data\<rparr>"
  have "rx_only s t"
    by (simp add: rx_only_def t_def)
  moreover have "(if 0 < tls_rx_len t then Some (True, t) else tcp_pull g n t) = Some (ok, s')"
    using Suc.prems 0 1 2 unfolding t_def by (simp add: Let_def del: netif_polls.simps)
  ultimately show ?case
    using Suc.IH rx_only_trans by (auto split: if_splits)
qed simp

lemma tls_need_rx [tls_keeps]: "tls_need g n s = Some (ok, s') \<Longrightarrow> rx_only s s'"
proof -
  assume h: "tls_need g n s = Some (ok, s')"
  have "rx_only s (snd r)" if "tls_need g n s = Some r" for s :: "'a tls" and r
    using that
  proof (rule tls_need.raw_induct [rotated 1, where P = "\<lambda>g n s r. rx_only s (snd r)"])
    fix f :: "('a \<Rightarrow> u32 \<times> 'a) \<Rightarrow> nat \<Rightarrow> 'a tls \<Rightarrow> (bool \<times> 'a tls) option" and g n and s :: "'a tls" and r
    assume ih: "\<And>g n s r. f g n s = Some r \<Longrightarrow> rx_only s (snd r)"
      and e: "(if tls_rx_len s < n
        then Option.bind (tcp_pull g 5 s) (\<lambda>r. if fst r then f g n (snd r) else Some (False, snd r))
        else Some (True, s)) = Some r"
    show "rx_only s (snd r)"
    proof (cases "tls_rx_len s < n")
      case True
      with e obtain p where p: "tcp_pull g 5 s = Some p" and q: "(if fst p then f g n (snd p) else Some (False, snd p)) = Some r"
        by (auto split: Option.bind_splits simp del: tcp_pull.simps)
      have "rx_only s (snd p)"
        using p by (cases p) (auto dest: tcp_pull_rx simp del: tcp_pull.simps)
      then show ?thesis
        using q ih [of g n "snd p" r] rx_only_trans by (auto split: if_splits)
    next
      case False
      with e show ?thesis by auto
    qed
  qed
  from this [OF h] show ?thesis
    by simp
qed

lemma tls_need_enough: "n \<le> tls_rx_len s \<Longrightarrow> tls_need g n s = Some (True, s)"
  by (subst tls_need.simps) simp

lemma consume_rx [tls_keeps]: "tls_rx_consume n s = Some s' \<Longrightarrow> rx_only s s'"
  by (auto simp: tls_rx_consume_def rx_only_def split: if_splits Option.bind_splits)

section \<open>Records\<close>

lemma length_record_plain:
  "length (record_plain mk seq ty plain) = length plain + 32 + (16 - (length plain + 32) mod 16)"
  by (simp add: record_plain_def Let_def)

lemma record_plain_blocks: "length (record_plain mk seq ty plain) mod 16 = 0"
proof -
  have "(n + (16 - n mod 16)) mod 16 = 0" for n :: nat
    by presburger
  from this [of "length plain + 32"] show ?thesis
    unfolding length_record_plain by (simp add: add.assoc)
qed

lemma last_append_replicate: "(xs @ replicate (Suc k) v @ ys) ! (length xs + k) = v"
  unfolding nth_append by (simp del: replicate_Suc)

text \<open>Opening what \<open>record_plain\<close> built, in a buffer that may be larger.\<close>

lemma open_record_plain:
  assumes "length plain \<le> max_out" and "length plain \<le> 4063"
    and "clen = length (record_plain mk seq ty plain)"
  shows "open_record mk seq ty (record_plain mk seq ty plain @ junk) clen max_out = Some (Some plain)"
proof -
  define mac where "mac = hmac_sha256 mk (record_ad seq ty (length plain) @ plain)"
  define pad where "pad = 16 - (length plain + 32) mod 16"
  obtain j where j: "pad = Suc j" "j < 16"
    by (cases pad) (auto simp: pad_def)
  have r: "record_plain mk seq ty plain = plain @ mac @ replicate (Suc j) (of_nat j)"
    unfolding record_plain_def Let_def pad_def [symmetric] mac_def [symmetric] j by simp
  have mac: "length mac = 32"
    by (simp add: mac_def)
  have clen: "clen = length plain + 32 + Suc j"
    using assms(3) r mac by simp
  let ?out = "record_plain mk seq ty plain @ junk"
  have "?out ! (clen - 1) = of_nat j"
    using last_append_replicate [of "plain @ mac" j "of_nat j" junk] mac by (simp add: r clen ac_simps)
  then have last: "rd8 ?out (clen - 1) = Some (of_nat j)"
    by (simp add: rd8_def assms(3) r)
  have "unat (of_nat j :: u8) = j"
    using j by (simp add: unat_of_nat)
  then have "(ucast (of_nat j :: u8) :: u32) = of_nat j"
    by (metis of_nat_unat)
  then have "(of_nat clen - 32 - ucast (of_nat j :: u8) - 1 :: u32) = of_nat (length plain)"
    by (simp add: clen)
  then have dlen: "unat (of_nat clen - 32 - ucast (of_nat j :: u8) - 1 :: u32) = length plain"
    using assms(2) by (simp add: unat_of_nat)
  have "rdn ?out 0 (length plain) = Some plain" "rdn ?out (length plain) 32 = Some mac"
    by (simp_all add: rdn_def r mac)
  moreover have "\<not> clen < 33" "\<not> max_out < length plain" "\<not> 16384 < length plain"
    using assms(1,2) clen by simp_all
  ultimately show ?thesis
    unfolding open_record_def Let_def last Option.bind.simps dlen by (simp add: mac_def)
qed

lemma aes_roundtrip:
  assumes "length key = 16" and "length iv = 16" and "length data mod 16 = 0"
  obtains ct where "aes128_cbc_encrypt key iv data = Some ct" "aes128_cbc_decrypt key iv ct = Some data" "length ct = length data"
proof -
  obtain c where c: "cbc_enc_loop (aes128_encrypt_block key) iv data = Some c"
      "cbc_dec_loop (aes128_decrypt_block key) iv c = Some data" "length c = length data"
    using aes.cbc_roundtrip [OF assms] by blast
  with c that show thesis
    by (simp add: aes128_cbc_encrypt_def aes128_cbc_decrypt_def)
qed

text \<open>The bytes of a record on the wire.\<close>

definition record_bytes :: "u8 \<Rightarrow> bytes \<Rightarrow> bytes" where
  "record_bytes ty payload = [ty, 3, 3] @ put16be (of_nat (length payload)) @ payload"

lemma record_header:
  assumes "length payload < 65536" and "rx = record_bytes ty payload @ rest"
  shows "rd8 rx 0 = Some ty" "\<exists>n. rd16be rx 3 = Some n \<and> unat n = length payload"
    "length rx = 5 + length payload + length rest" "rdn rx (5 + i) k = rdn (payload @ rest) i k"
proof -
  let ?n = "of_nat (length payload) :: u16"
  have rx: "rx = [ty, 3, 3, ucast (drop_bit 8 ?n), ucast ?n] @ payload @ rest"
    using assms(2) by (simp add: record_bytes_def put16be_def)
  show "rd8 rx 0 = Some ty" "length rx = 5 + length payload + length rest"
    by (simp_all add: rx rd8_def)
  have "drop 5 rx = payload @ rest"
    by (simp add: rx)
  then have "drop (5 + i) rx = drop i (payload @ rest)"
    by (metis add.commute drop_drop)
  moreover have "5 + i + k \<le> length rx \<longleftrightarrow> i + k \<le> length (payload @ rest)"
    by (simp add: rx)
  ultimately show "rdn rx (5 + i) k = rdn (payload @ rest) i k"
    unfolding rdn_def by (simp only:)
  have "rx ! 3 = ucast (drop_bit 8 ?n)" "rx ! (3 + 1) = ucast ?n" "3 + 2 \<le> length rx"
    by (simp_all add: rx)
  then have "rd16be rx 3 = Some ?n"
    unfolding rd16be_def by (simp only: join16_put16) simp
  moreover have "unat ?n = length payload"
    using assms(1) by (simp add: unat_of_nat)
  ultimately show "\<exists>n. rd16be rx 3 = Some n \<and> unat n = length payload"
    by blast
qed

lemma decrypt_in_place_eq:
  assumes "aes128_cbc_decrypt key iv ct = Some plain" and "length plain = length ct" and "length ct mod 16 = 0"
    and "length ct \<le> length out"
  shows "decrypt_in_place key iv ct out = Some (plain @ drop (length ct) out)"
proof -
  obtain k where k: "length ct = 16 * k"
    using assms(3) by (auto simp: mod_eq_0_iff_dvd dvd_def)
  have "16 * ((length ct + 15) div 16) = length ct"
    unfolding k by simp
  then show ?thesis
    using assms by (simp add: decrypt_in_place_def wrn_def rdn_def)
qed

lemma encrypt_payload_eq:
  assumes "length (client_w_key s) = 16" and "length plain \<le> 4048"
  obtains iv ct rng where "length iv = 16"
    "tls_encrypt_payload rt ty plain s =
      Some (Some (iv @ ct), s\<lparr>tls_rng_state := rng, client_seq := client_seq s + 1\<rparr>)"
    "aes128_cbc_decrypt (client_w_key s) iv ct = Some (record_plain (client_w_mac s) (client_seq s) ty plain)"
    "length ct = length (record_plain (client_w_mac s) (client_seq s) ty plain)"
proof -
  let ?w = "record_plain (client_w_mac s) (client_seq s) ty plain"
  obtain iv rng where r: "tls_rng_bytes rt 16 (tls_rng_state s) = (iv, rng)"
    by (cases "tls_rng_bytes rt 16 (tls_rng_state s)")
  have iv: "length iv = 16"
    using length_rng_bytes [of rt 16 "tls_rng_state s"] r by simp
  obtain ct where ct: "aes128_cbc_encrypt (client_w_key s) iv ?w = Some ct"
      "aes128_cbc_decrypt (client_w_key s) iv ct = Some ?w" "length ct = length ?w"
    using aes_roundtrip [OF assms(1) iv record_plain_blocks] by blast
  have "\<not> 4096 < length ?w" "\<not> 16384 < length plain"
    using assms(2) unfolding length_record_plain by simp_all
  then have "tls_encrypt_payload rt ty plain s =
      Some (Some (iv @ ct), s\<lparr>tls_rng_state := rng, client_seq := client_seq s + 1\<rparr>)"
    unfolding tls_encrypt_payload_def Let_def r prod.case
    by (simp only: if_False ct(1) Option.bind.simps)
  from that [OF iv this ct(2,3)] show thesis .
qed

lemma record_opened:
  assumes "length (client_w_key s) = 16" and "length plain \<le> 4048" and "ty = 21 \<or> ty = 22 \<or> ty = 23"
    and "server_w_key r = client_w_key s" and "server_w_mac r = client_w_mac s" and "server_seq r = client_seq s"
    and "length plain \<le> max_out" and "max_out < 100000" and "max_out + 64 \<le> length out"
  shows "\<exists>rec s' out'. tls_encrypt_payload rt ty plain s = Some (Some rec, s') \<and> client_seq s' = client_seq s + 1 \<and>
    tls_decrypt_app g out max_out (r\<lparr>tls_rx := record_bytes ty rec @ rest, tls_rx_len := 5 + length rec\<rparr>) =
      Some (Some plain, out', r\<lparr>tls_rx := record_bytes ty rec @ rest, tls_rx_len := 0, server_seq := server_seq r + 1\<rparr>)"
proof -
  let ?w = "record_plain (client_w_mac s) (client_seq s) ty plain"
  obtain iv ct rng where iv: "length iv = 16"
    and enc: "tls_encrypt_payload rt ty plain s =
      Some (Some (iv @ ct), s\<lparr>tls_rng_state := rng, client_seq := client_seq s + 1\<rparr>)"
    and dec: "aes128_cbc_decrypt (client_w_key s) iv ct = Some ?w" and len: "length ct = length ?w"
    using encrypt_payload_eq [OF assms(1,2)] by blast
  define rx where "rx = record_bytes ty (iv @ ct) @ rest"
  have w: "length ?w \<le> length plain + 48" "length ?w \<le> 4096"
    using assms(2) unfolding length_record_plain by simp_all
  then have small: "length (iv @ ct) < 65536"
    using iv len by simp
  note h = record_header [OF small rx_def]
  obtain n where n: "rd16be rx 3 = Some n" "unat n = 16 + length ct"
    using h(2) iv by auto
  have ct: "rdn rx 5 16 = Some iv" "rdn rx 21 (length ct) = Some ct"
    using h(4) [of 0 16] h(4) [of 16 "length ct"] iv by (simp_all add: rdn_def)
  define u where "u = r\<lparr>tls_rx := rx, tls_rx_len := 5 + length (iv @ ct)\<rparr>"
  have need: "tls_need g 5 u = Some (True, u)" "tls_need g (5 + (16 + length ct)) u = Some (True, u)"
    using iv by (simp_all add: u_def tls_need_enough)
  have cons: "tls_rx_consume (5 + (16 + length ct)) u = Some (u\<lparr>tls_rx_len := 0\<rparr>)"
    using iv by (simp add: tls_rx_consume_def u_def)
  have room: "\<not> (max_out + 64) mod 4294967296 < length ct"
    using w len assms(7,8) by simp
  have place: "decrypt_in_place (server_w_key r) iv ct out = Some (?w @ drop (length ct) out)"
    using assms(4,7,9) dec len w record_plain_blocks [of "client_w_mac s" "client_seq s" ty plain]
    by (intro decrypt_in_place_eq) simp_all
  have opened: "open_record (server_w_mac r) (server_seq r) ty (?w @ drop (length ct) out) (length ct) max_out = Some (Some plain)"
    unfolding assms(5,6) by (rule open_record_plain) (use assms(2,7) len in simp_all)
  have f: "tls_rx (u\<lparr>tls_rx_len := 0\<rparr>) = rx" "tls_rx u = rx" "server_w_key (u\<lparr>tls_rx_len := 0\<rparr>) = server_w_key r"
      "server_w_mac (u\<lparr>tls_rx_len := 0\<rparr>) = server_w_mac r" "server_seq (u\<lparr>tls_rx_len := 0\<rparr>) = server_seq r"
    by (simp_all add: u_def)
  have "16 + length ct - 16 = length ct" "\<not> (16 + length ct < 16)" "\<not> (ty \<noteq> 23 \<and> ty \<noteq> 22 \<and> ty \<noteq> 21)"
    using assms(3) by auto
  then have "tls_decrypt_app g out max_out u =
      Some (Some plain, ?w @ drop (length ct) out, u\<lparr>tls_rx_len := 0, server_seq := server_seq r + 1\<rparr>)"
    unfolding tls_decrypt_app_def need Option.bind.simps prod.case Let_def f h(1) n cons ct(1)
    using room by (simp add: ct(2) place opened)
  then show ?thesis
    using enc by (auto simp: u_def rx_def)
qed

text \<open>A freshly reset connection over a network that has no interface yet.\<close>

definition boot_tls :: "'d \<Rightarrow> 'd tls" where
  "boot_tls d = \<lparr>tls_net = boot_net d, tls_rx = replicate 16384 0, tls_rx_len = 0, client_random = replicate 32 0,
     server_random = replicate 32 0, master_secret = replicate 48 0, client_w_mac = replicate 32 0,
     server_w_mac = replicate 32 0, client_w_key = replicate 16 0, server_w_key = replicate 16 0,
     client_w_iv = replicate 16 0, server_w_iv = replicate 16 0, client_seq = 0, server_seq = 0,
     tls_enc_ready = False, transcript = [], tls_rng_state = (0xC0FFEE, 0)\<rparr>"

text \<open>
  C33: Records survive the round trip: what \<open>tls_encrypt_payload\<close> makes of up to 4048 bytes, for any type the reader knows, is opened by
  \<open>tls_decrypt_app\<close> of a connection with the mirrored keys and sequence number to the same bytes, when the record is all that its receive buffer
  holds and the caller's buffer has 64 bytes more than its limit; both sequence numbers advance and the receive buffer is empty again.
\<close>

theorem tls_record_roundtrip:
  assumes "length (client_w_key s) = 16" and "length plain \<le> 4048" and "ty = 21 \<or> ty = 22 \<or> ty = 23"
    and "server_w_key r = client_w_key s" and "server_w_mac r = client_w_mac s" and "server_seq r = client_seq s"
    and "length plain \<le> max_out" and "max_out < 100000" and "max_out + 64 \<le> length out"
  shows "\<exists>rec s' out'. tls_encrypt_payload rt ty plain s = Some (Some rec, s') \<and> client_seq s' = client_seq s + 1 \<and>
    tls_decrypt_app g out max_out (r\<lparr>tls_rx := record_bytes ty rec @ rest, tls_rx_len := 5 + length rec\<rparr>) =
      Some (Some plain, out', r\<lparr>tls_rx := record_bytes ty rec @ rest, tls_rx_len := 0, server_seq := server_seq r + 1\<rparr>)"
  using assms by (rule record_opened)

theorem tls_record_roundtrip_witness:
  "\<exists>rec s' out'. tls_encrypt_payload (\<lambda>_. 0) 23 [104, 105] (boot_tls ()) = Some (Some rec, s') \<and>
    tls_decrypt_app (\<lambda>d. (0, d)) (replicate 66 0) 2 ((boot_tls ())\<lparr>tls_rx := record_bytes 23 rec, tls_rx_len := 5 + length rec\<rparr>) =
      Some (Some [104, 105], out', (boot_tls ())\<lparr>tls_rx := record_bytes 23 rec, tls_rx_len := 0, server_seq := 1\<rparr>)"
proof -
  let ?s = "boot_tls ()"
  have f: "length (client_w_key ?s) = 16" "server_w_key ?s = client_w_key ?s" "server_w_mac ?s = client_w_mac ?s"
      "server_seq ?s = client_seq ?s" "server_seq ?s = 0"
    by (simp_all add: boot_tls_def)
  have "length [104, 105 :: u8] \<le> 4048" "(23 :: u8) = 21 \<or> (23 :: u8) = 22 \<or> (23 :: u8) = 23"
      "length [104, 105 :: u8] \<le> 2" "(2 :: nat) < 100000" "2 + 64 \<le> length (replicate 66 (0 :: u8))"
    by simp_all
  from tls_record_roundtrip [OF f(1) this(1,2) f(2-4) this(3-5), where rt = "\<lambda>_. 0" and g = "\<lambda>d. (0, d)" and rest = "[]"]
  show ?thesis
    unfolding f(5) by auto
qed

section \<open>Only authenticated bytes reach the application\<close>

lemma open_record_authentic:
  assumes "open_record mk seq ty out clen max_out = Some (Some plain)"
  shows "length plain \<le> max_out \<and> take (length plain) out = plain \<and>
    rdn out (length plain) 32 = Some (hmac_sha256 mk (record_ad seq ty (length plain) @ plain))"
proof -
  have "clen \<ge> 33"
    using assms by (cases "clen < 32 + 1") (simp_all add: open_record_def)
  then obtain padv where p: "rd8 out (clen - 1) = Some padv"
    using assms by (auto simp: open_record_def split: Option.bind_splits if_splits)
  define dlen where "dlen = unat (of_nat clen - 32 - ucast padv - 1 :: u32)"
  have e: "(if max_out < dlen then Some None
      else if 16384 < dlen then None
      else do {
        plain \<leftarrow> rdn out 0 dlen;
        tag \<leftarrow> rdn out dlen 32;
        Some (if hmac_sha256 mk (record_ad seq ty dlen @ plain) \<noteq> tag then None else Some plain) }) = Some (Some plain)"
    using assms \<open>clen \<ge> 33\<close> p unfolding open_record_def Let_def dlen_def by simp
  then have m: "\<not> max_out < dlen"
    by (cases "max_out < dlen") simp_all
  with e obtain q tag where q: "rdn out 0 dlen = Some q" "rdn out dlen 32 = Some tag"
      and "(if hmac_sha256 mk (record_ad seq ty dlen @ q) \<noteq> tag then None else Some q) = Some plain"
    by (auto split: Option.bind_splits if_splits)
  then have t: "q = plain" "tag = hmac_sha256 mk (record_ad seq ty dlen @ plain)"
    by (auto split: if_splits)
  have "length plain = dlen" "take dlen out = plain"
    using q(1) t(1) by (auto simp: rdn_def split: if_splits)
  then show ?thesis
    using m q(2) t(2) by simp
qed


lemma decrypt_app_cases:
  assumes "tls_decrypt_app g out max_out s = Some (r, out', s')"
  shows "(r = None \<and> rx_only s s') \<or>
    (\<exists>t ty clen plain. r = Some plain \<and> rx_only s t \<and> s' = t\<lparr>server_seq := server_seq t + 1\<rparr> \<and> ty \<in> {21, 22, 23} \<and>
      open_record (server_w_mac t) (server_seq t) ty out' clen max_out = Some (Some plain))"
proof -
  from assms obtain ok s1 where n1: "tls_need g 5 s = Some (ok, s1)"
    unfolding tls_decrypt_app_def Let_def by (auto elim!: bind_SomeE)
  have k1: "rx_only s s1" by (rule tls_need_rx [OF n1])
  show ?thesis
  proof (cases ok)
    case False
    with assms n1 k1 show ?thesis by (auto simp: tls_decrypt_app_def)
  next
    case True
    from assms n1 True obtain ty where ty: "rd8 (tls_rx s1) 0 = Some ty"
      unfolding tls_decrypt_app_def Let_def by (auto elim!: bind_SomeE)
    show ?thesis
    proof (cases "ty \<in> {21, 22, 23}")
      case False
      with assms n1 True ty k1 show ?thesis by (auto simp: tls_decrypt_app_def)
    next
      case known: True
      from assms n1 True ty known obtain reclen where rl: "rd16be (tls_rx s1) 3 = Some reclen"
        unfolding tls_decrypt_app_def Let_def by (auto elim!: bind_SomeE)
      from assms n1 True ty known rl obtain ok s2 where n2: "tls_need g (5 + unat reclen) s1 = Some (ok, s2)"
        unfolding tls_decrypt_app_def Let_def by (auto elim!: bind_SomeE)
      have k2: "rx_only s s2" using k1 tls_need_rx [OF n2] by (rule rx_only_trans)
      show ?thesis
      proof (cases ok)
        case False
        with assms n1 True ty known rl n2 k2 show ?thesis by (auto simp: tls_decrypt_app_def)
      next
        case ok2: True
        define body where "body t = (if unat reclen < 16 then Some (None, out, t)
             else do {
               iv \<leftarrow> rdn (tls_rx t) 5 16;
               let clen = unat reclen - 16;
               if (max_out + 64) mod 4294967296 < clen then Some (None, out, t)
               else do {
                 ct \<leftarrow> rdn (tls_rx t) 21 clen;
                 out \<leftarrow> decrypt_in_place (server_w_key t) iv ct out;
                 r \<leftarrow> open_record (server_w_mac t) (server_seq t) ty out clen max_out;
                 case r of
                   None \<Rightarrow> Some (None, out, t)
                 | Some plain \<Rightarrow> Some (Some plain, out, t\<lparr>server_seq := server_seq t + 1\<rparr>) } })" for t :: "'a tls"
        from assms n1 True ty known rl n2 ok2 have "Option.bind (tls_rx_consume (5 + unat reclen) s2) body = Some (r, out', s')"
          unfolding tls_decrypt_app_def Let_def body_def by auto
        then obtain t where t: "tls_rx_consume (5 + unat reclen) s2 = Some t" "body t = Some (r, out', s')"
          by (rule bind_SomeE)
        have "rx_only s t" using k2 consume_rx [OF t(1)] by (rule rx_only_trans)
        moreover have "(r = None \<and> s' = t) \<or> (\<exists>plain clen. r = Some plain \<and> s' = t\<lparr>server_seq := server_seq t + 1\<rparr> \<and>
            open_record (server_w_mac t) (server_seq t) ty out' clen max_out = Some (Some plain))"
          using t(2) unfolding body_def Let_def by (auto elim!: bind_SomeE split: if_splits option.splits)
        ultimately show ?thesis
          using known by blast
      qed
    qed
  qed
qed

lemma mac_of_record:
  assumes "rdn out (length plain) 32 = Some (hmac_sha256 mk (record_ad seq ty (length plain) @ plain))"
  shows "rdn out (length plain) 32 = Some (if length plain \<le> 1011 then hmac_rfc2104 mk (record_ad seq ty (length plain) @ plain) else replicate 32 0)"
proof -
  have "length (record_ad seq ty (length plain) @ plain) = 13 + length plain"
    by (simp add: record_ad_def)
  then show ?thesis
    using assms by (simp add: hmac_sha256_cases)
qed

text \<open>
  C37: What \<open>tls12_client_recv_app\<close> hands over carries a tag: when it returns a length, the connection was established, the length is within the
  caller's limit, one sequence number is used, and the bytes are followed by their RFC 2104 HMAC under the server's key, the current number and
  a record type 21 to 23, if they are at most 1011, and by 32 zero bytes, which prove nothing, if they are more. Otherwise it returns -1 and uses none.
\<close>

theorem tls_recv_authentic:
  assumes "tls12_client_recv_app g buf max_len s = Some (n, out, s')"
  shows "(n = -1 \<and> server_seq s' = server_seq s) \<or>
    (tls_enc_ready s \<and> 0 \<le> n \<and> nat n \<le> max_len \<and> server_seq s' = server_seq s + 1 \<and>
      (\<exists>ty \<in> {21, 22, 23}. rdn out (nat n) 32 =
        Some (if nat n \<le> 1011 then hmac_rfc2104 (server_w_mac s) (record_ad (server_seq s) ty (nat n) @ take (nat n) out)
              else replicate 32 0)))"
proof (cases "tls_enc_ready s")
  case False
  then show ?thesis
    using assms by (simp add: tls12_client_recv_app_def)
next
  case True
  then obtain r where d: "tls_decrypt_app g buf max_len s = Some (r, out, s')"
      and n: "n = (case r of None \<Rightarrow> -1 | Some plain \<Rightarrow> int (length plain))"
    using assms by (auto simp: tls12_client_recv_app_def split: Option.bind_splits)
  from decrypt_app_cases [OF d] show ?thesis
  proof (elim disjE exE conjE)
    assume "r = None" "rx_only s s'"
    then show ?thesis
      using n rx_only_fields(9) by simp
  next
    fix t ty clen plain
    assume r: "r = Some plain" and k: "rx_only s t" and s': "s' = t\<lparr>server_seq := server_seq t + 1\<rparr>"
      and ty: "ty \<in> {21, 22, 23}" and o: "open_record (server_w_mac t) (server_seq t) ty out clen max_len = Some (Some plain)"
    from open_record_authentic [OF o] have p: "length plain \<le> max_len" "take (length plain) out = plain"
        "rdn out (length plain) 32 = Some (hmac_sha256 (server_w_mac s) (record_ad (server_seq s) ty (length plain) @ plain))"
      by (simp_all add: rx_only_fields [OF k])
    note p(1,2) mac_of_record [OF p(3)]
    moreover have "nat n = length plain" "0 \<le> n" "server_seq s' = server_seq s + 1"
      using n r s' rx_only_fields(9) [OF k] by simp_all
    ultimately show ?thesis
      using True ty by metis
  qed
qed

theorem tls_recv_authentic_witness:
  "\<exists>rec s' out' s'' ty. tls_encrypt_payload (\<lambda>_. 0) 23 [104, 105] (boot_tls ()) = Some (Some rec, s') \<and>
    tls12_client_recv_app (\<lambda>d. (0, d)) (replicate 66 0) 2
      ((boot_tls ())\<lparr>tls_rx := record_bytes 23 rec @ [], tls_rx_len := 5 + length rec, tls_enc_ready := True\<rparr>) = Some (2, out', s'') \<and>
    server_seq s'' = 1 \<and> ty \<in> {21, 22, 23 :: u8} \<and>
    rdn out' 2 32 = Some (hmac_rfc2104 (replicate 32 0) (record_ad 0 ty 2 @ take 2 out'))"
proof -
  let ?s = "\<lambda>rec. (boot_tls ())\<lparr>tls_rx := record_bytes 23 rec @ [], tls_rx_len := 5 + length rec, tls_enc_ready := True\<rparr>"
  let ?r = "(boot_tls ())\<lparr>tls_enc_ready := True\<rparr>"
  have f: "length (client_w_key (boot_tls ())) = 16" "server_w_key ?r = client_w_key (boot_tls ())"
      "server_w_mac ?r = client_w_mac (boot_tls ())" "server_seq ?r = client_seq (boot_tls ())"
    by (simp_all add: boot_tls_def)
  have "length [104, 105 :: u8] \<le> 4048" "(23 :: u8) = 21 \<or> (23 :: u8) = 22 \<or> (23 :: u8) = 23"
      "length [104, 105 :: u8] \<le> 2" "(2 :: nat) < 100000" "2 + 64 \<le> length (replicate 66 (0 :: u8))"
    by simp_all
  from record_opened [OF f(1) this(1,2) f(2-4) this(3-5), where rt = "\<lambda>_. 0" and g = "\<lambda>d. (0, d)" and rest = "[]"]
  obtain rec s' out' s'' where e: "tls_encrypt_payload (\<lambda>_. 0) 23 [104, 105] (boot_tls ()) = Some (Some rec, s')"
    and d: "tls_decrypt_app (\<lambda>d. (0, d)) (replicate 66 0) 2 (?s rec) = Some (Some [104, 105], out', s'')"
    by (auto simp: boot_tls_def)
  have r: "tls12_client_recv_app (\<lambda>d. (0, d)) (replicate 66 0) 2 (?s rec) = Some (2, out', s'')"
    using d by (simp add: tls12_client_recv_app_def)
  have "\<exists>ty. server_seq s'' = 1 \<and> ty \<in> {21, 22, 23 :: u8} \<and> rdn out' 2 32 = Some (hmac_rfc2104 (replicate 32 0) (record_ad 0 ty 2 @ take 2 out'))"
    using tls_recv_authentic [OF r] by (auto simp: boot_tls_def)
  with e r show ?thesis
    by blast
qed

section \<open>The outcome of the handshake\<close>

text \<open>The fields that say whether a connection is up.\<close>

definition link :: "'d tls \<Rightarrow> bool \<times> u64 \<times> u64" where
  "link s = (tls_enc_ready s, client_seq s, server_seq s)"

lemma rx_only_link: "rx_only s s' \<Longrightarrow> link s' = link s"
  by (simp add: link_def rx_only_fields)

lemma tr_add_link [simp]: "link (tr_add p s) = link s"
  by (simp add: tr_add_def link_def)

lemma link_upd [simp]:
  "link (s\<lparr>server_random := b\<rparr>) = link s" "link (s\<lparr>client_random := b\<rparr>) = link s"
  "link (s\<lparr>tls_rng_state := r\<rparr>) = link s" "link (s\<lparr>tls_net := m\<rparr>) = link s"
  by (simp_all add: link_def)

lemma send_record_link: "tls_send_record ty data s = Some (r, s') \<Longrightarrow> link s' = link s"
  by (auto simp: tls_send_record_def elim!: bind_SomeE split: if_splits)

lemma send_handshake_link: "tls_send_handshake ty data s = Some (r, s') \<Longrightarrow> link s' = link s"
  by (auto simp: tls_send_handshake_def Let_def dest!: send_record_link split: if_splits)

lemma need_link: "tls_need g n s = Some (ok, s') \<Longrightarrow> link s' = link s"
  by (rule rx_only_link [OF tls_need_rx])

lemma consume_link: "tls_rx_consume n s = Some s' \<Longrightarrow> link s' = link s"
  by (rule rx_only_link [OF consume_rx])

lemma hs_message_link: "hs_message rlen off ht hlen l s = Some (x, l', s') \<Longrightarrow> link s' = link s \<and> x \<in> {Next, Leave, Return (-1), Return (-2)}"
  unfolding hs_message_def server_hello_def certificate_def Let_def
  by (auto elim!: bind_SomeE dest!: consume_link split: if_splits option.splits)

lemma hs_messages_link: "hs_messages rlen off l s = Some (x, l', s') \<Longrightarrow> link s' = link s \<and> x \<in> {Next, Leave, Return (-1), Return (-2)}"
proof (induction rlen off l s rule: hs_messages.induct)
  case (1 rlen off l s)
  show ?case
  proof (cases "off + 4 \<le> rlen")
    case True
    with "1.prems" obtain ht hlen where h: "rd8 (tls_rx s) (5 + off) = Some ht" "rd24 (tls_rx s) (5 + off + 1) = Some hlen"
        and b: "(if rlen < off + 4 + hlen then Some (Leave, l, s)
        else do {
          (nxt, l, s) \<leftarrow> hs_message rlen off ht hlen l s;
          case nxt of Next \<Rightarrow> hs_messages rlen (off + (4 + hlen)) l s | _ \<Rightarrow> Some (nxt, l, s) }) = Some (x, l', s')"
      by (subst (asm) hs_messages.simps) (auto elim!: bind_SomeE)
    show ?thesis
    proof (cases "rlen < off + 4 + hlen")
      case False
      with b obtain nxt l1 s1 where m: "hs_message rlen off ht hlen l s = Some (nxt, l1, s1)"
        and c: "(case nxt of Next \<Rightarrow> hs_messages rlen (off + (4 + hlen)) l1 s1 | _ \<Rightarrow> Some (nxt, l1, s1)) = Some (x, l', s')"
        by (auto elim!: bind_SomeE)
      show ?thesis
        using c "1.IH" [OF True h False m] hs_message_link [OF m] by (cases nxt) auto
    qed (use b in simp)
  qed (use "1.prems" in \<open>simp add: hs_messages.simps [of rlen off l s]\<close>)
qed

lemma hs_record_link:
  assumes "hs_record g l s = Some (e, l', s')"
  shows "link s' = link s \<and> (\<forall>r. e = Some r \<longrightarrow> r \<in> {-1, -2})"
proof -
  from assms obtain ok s1 where n1: "tls_need g 5 s = Some (ok, s1)"
    unfolding hs_record_def Let_def by (auto elim!: bind_SomeE)
  show ?thesis
  proof (cases ok)
    case False
    with assms n1 need_link [OF n1] show ?thesis by (auto simp: hs_record_def)
  next
    case True
    from assms n1 True obtain ty rlen where ty: "rd8 (tls_rx s1) 0 = Some ty" "rd16be (tls_rx s1) 3 = Some rlen"
      unfolding hs_record_def Let_def by (auto elim!: bind_SomeE)
    from assms n1 True ty obtain ok s2 where n2: "tls_need g (5 + unat rlen) s1 = Some (ok, s2)"
      unfolding hs_record_def Let_def by (auto elim!: bind_SomeE)
    have k: "link s2 = link s"
      using need_link [OF n1] need_link [OF n2] by simp
    show ?thesis
    proof (cases ok)
      case False
      with assms n1 True ty n2 k show ?thesis by (auto simp: hs_record_def)
    next
      case ok2: True
      from assms n1 True ty n2 ok2 obtain nxt l1 s3 where
        m: "(if ty = 22 then hs_messages (unat rlen) 0 l s2 else Some (Leave, l, s2)) = Some (nxt, l1, s3)"
        and c: "(case nxt of
             Return r \<Rightarrow> Some (Some r, l1, s3)
           | _ \<Rightarrow> do { s \<leftarrow> tls_rx_consume (5 + unat rlen) s3; Some (None, l1, s) }) = Some (e, l', s')"
        unfolding hs_record_def Let_def by (auto elim!: bind_SomeE)
      have k3: "link s3 = link s" "nxt \<in> {Next, Leave, Return (-1), Return (-2)}"
        using m k by (auto dest: hs_messages_link split: if_splits)
      show ?thesis
        using c k3 by (cases nxt) (auto elim!: bind_SomeE dest!: consume_link)
    qed
  qed
qed

lemma hs_loop_link: "hs_loop g l s = Some (e, l', s') \<Longrightarrow> link s' = link s \<and> (\<forall>r. e = Some r \<longrightarrow> r \<in> {-1, -2})"
proof -
  assume h: "hs_loop g l s = Some (e, l', s')"
  have "link (snd (snd r)) = link s \<and> (\<forall>e. fst r = Some e \<longrightarrow> e \<in> {-1, -2})" if "hs_loop g l s = Some r" for l and s :: "'a tls" and r
    using that
  proof (rule hs_loop.raw_induct [rotated 1, where P = "\<lambda>g l s r. link (snd (snd r)) = link s \<and> (\<forall>e. fst r = Some e \<longrightarrow> e \<in> {-1, -2})"])
    fix f :: "('a \<Rightarrow> u32 \<times> 'a) \<Rightarrow> hs_locals \<Rightarrow> 'a tls \<Rightarrow> (int option \<times> hs_locals \<times> 'a tls) option" and g l and s :: "'a tls" and r
    assume ih: "\<And>g l s r. f g l s = Some r \<Longrightarrow> link (snd (snd r)) = link s \<and> (\<forall>e. fst r = Some e \<longrightarrow> e \<in> {-1, -2})"
      and e: "(if got_done l then Some (None, l, s)
      else Option.bind (hs_record g l s)
        (\<lambda>r. case fst r of Some e \<Rightarrow> Some r | None \<Rightarrow> f g (fst (snd r)) (snd (snd r)))) = Some r"
    show "link (snd (snd r)) = link s \<and> (\<forall>e. fst r = Some e \<longrightarrow> e \<in> {-1, -2})"
    proof (cases "got_done l")
      case False
      with e obtain p where p: "hs_record g l s = Some p"
          and q: "(case fst p of Some e \<Rightarrow> Some p | None \<Rightarrow> f g (fst (snd p)) (snd (snd p))) = Some r"
        by (auto elim!: bind_SomeE)
      have k: "link (snd (snd p)) = link s \<and> (\<forall>e. fst p = Some e \<longrightarrow> e \<in> {-1, -2})"
        using p hs_record_link [of g l s "fst p" "fst (snd p)" "snd (snd p)"] by simp
      show ?thesis
      proof (cases "fst p")
        case None
        with q have "f g (fst (snd p)) (snd (snd p)) = Some r" by simp
        from ih [OF this] k show ?thesis by simp
      next
        case (Some e)
        with q have "p = r" by simp
        with k show ?thesis by simp
      qed
    qed (use e in auto)
  qed
  from this [OF h] show ?thesis
    by simp
qed

lemma encrypt_link: "tls_encrypt_payload rt ty data s = Some (Some b, s') \<Longrightarrow>
    tls_enc_ready s' = tls_enc_ready s \<and> client_seq s' = client_seq s + 1 \<and> server_seq s' = server_seq s"
  by (auto simp: tls_encrypt_payload_def Let_def elim!: bind_SomeE split: if_splits prod.splits)

lemma encrypt_none_link: "tls_encrypt_payload rt ty data s = Some (None, s') \<Longrightarrow> link s' = link s"
  by (auto simp: tls_encrypt_payload_def Let_def elim!: bind_SomeE split: if_splits prod.splits)

lemma key_exchange_link:
  "key_exchange rt n s = Some (r, pre, s') \<Longrightarrow> link s' = link s \<and> (r = 0 \<or> r = -1)"
  unfolding key_exchange_def Let_def
  by (auto elim!: bind_SomeE dest!: send_record_link split: if_splits option.splits prod.splits)

lemma derive_keys_link: "derive_keys pre s = Some s' \<Longrightarrow> link s' = link s"
  by (auto simp: derive_keys_def link_def Let_def elim!: bind_SomeE)

lemma send_finished_link:
  assumes "send_finished rt s = Some (r, s')"
  shows "tls_enc_ready s' = tls_enc_ready s \<and> server_seq s' = server_seq s \<and>
    (r = -1 \<or> r = 0 \<and> client_seq s' = client_seq s + 1)"
  using assms unfolding send_finished_def
  by (auto simp: link_def elim!: bind_SomeE dest!: send_record_link encrypt_link encrypt_none_link split: if_splits option.splits)

lemma recv_finished_link:
  assumes "recv_finished g s = Some (r, s')"
  shows "(r = -1 \<and> link s' = link s) \<or> (r = 0 \<and> link s' = (True, client_seq s, server_seq s + 1))"
proof -
  from assms obtain ok s1 where n1: "tls_need g 6 s = Some (ok, s1)"
    unfolding recv_finished_def Let_def by (auto elim!: bind_SomeE)
  have k1: "link s1 = link s" by (rule need_link [OF n1])
  show ?thesis
  proof (cases ok)
    case False
    with assms n1 k1 show ?thesis by (auto simp: recv_finished_def)
  next
    case True
    from assms n1 True obtain t n where t: "rd8 (tls_rx s1) 0 = Some t" "rd16be (tls_rx s1) 3 = Some n"
      unfolding recv_finished_def Let_def by (auto elim!: bind_SomeE)
    show ?thesis
    proof (cases "t \<noteq> 20 \<or> n \<noteq> 1")
      case True
      with assms n1 \<open>ok\<close> t k1 show ?thesis by (auto simp: recv_finished_def)
    next
      case False
      with assms n1 True t obtain s2 where s2: "tls_rx_consume 6 s1 = Some s2"
        unfolding recv_finished_def Let_def by (auto elim!: bind_SomeE)
      from assms n1 True t False s2 obtain ok2 s3 where n3: "tls_need g 5 s2 = Some (ok2, s3)"
        unfolding recv_finished_def Let_def by (auto elim!: bind_SomeE)
      have k3: "link s3 = link s" using k1 consume_link [OF s2] need_link [OF n3] by simp
      define rest where "rest s = (if \<not> ok2 then Some (-1 :: int, s)
           else do {
             t \<leftarrow> rd8 (tls_rx s) 0;
             if t \<noteq> 22 then Some (-1, s)
             else do {
               srlen \<leftarrow> rd16be (tls_rx s) 3;
               let srlen = unat srlen;
               (ok, s) \<leftarrow> tls_need g (5 + srlen) s;
               if \<not> ok then Some (-1, s)
               else do {
                 riv \<leftarrow> rdn (tls_rx s) 5 16;
                 if srlen < 16 \<or> 512 < srlen - 16 then Some (-1, s)
                 else do {
                   ct \<leftarrow> rdn (tls_rx s) 21 (srlen - 16);
                   r \<leftarrow> open_finished (server_w_key s) (server_w_mac s) (server_seq s) riv ct;
                   case r of
                     None \<Rightarrow> Some (-1, s)
                   | Some plain \<Rightarrow> do {
                       s \<leftarrow> tls_rx_consume (5 + srlen) s;
                       Some (0, s\<lparr>server_seq := server_seq s + 1, tls_enc_ready := True\<rparr>) } } } } })" for s :: "'a tls"
      have "rest s3 = Some (r, s')"
        using assms n1 True t False s2 n3 unfolding recv_finished_def rest_def Let_def by auto
      then show ?thesis
        using k3 unfolding rest_def Let_def
        by (auto simp: link_def elim!: bind_SomeE dest!: consume_link need_link split: if_splits option.splits)
    qed
  qed
qed

lemma handshake_link:
  assumes "tls12_client_handshake g rt host s = Some (r, s')"
  shows "(r = 0 \<and> link s' = (True, 1, 1)) \<or> (r \<in> {-1, -2} \<and> \<not> tls_enc_ready s')"
proof -
  define s0 where "s0 = tls12_client_reset s"
  obtain random rng where rnd: "tls_rng_bytes rt 32 (tls_rng_state s0) = (random, rng)"
    by (cases "tls_rng_bytes rt 32 (tls_rng_state s0)")
  define s1 where "s1 = s0\<lparr>client_random := random, tls_rng_state := rng\<rparr>"
  have k1: "link s1 = (False, 0, 0)"
    by (simp add: s1_def s0_def tls12_client_reset_def link_def)
  define init where "init = \<lparr>n256 = [], got_sh = False, got_cert = False, got_done = False, cert_der = []\<rparr>"
  define tail where "tail l s = (if \<not> got_sh l \<or> \<not> got_cert l then Some (-1 :: int, s)
             else do {
               (r, pre, s) \<leftarrow> key_exchange rt (n256 l) s;
               if r < 0 then Some (-1, s)
               else do {
                 s \<leftarrow> derive_keys pre s;
                 (r, s) \<leftarrow> send_finished rt s;
                 if r < 0 then Some (-1, s) else recv_finished g s } })" for l :: hs_locals and s :: "'a tls"
  have "Option.bind (tls_send_handshake 1 (client_hello random host) s1)
      (\<lambda>(r, s). if r < 0 then Some (-1, s)
         else Option.bind (hs_loop g init s)
           (\<lambda>(e, l, s). case e of Some r \<Rightarrow> Some (r, s) | None \<Rightarrow> tail l s)) = Some (r, s')"
    using assms unfolding tls12_client_handshake_def Let_def s0_def [symmetric] rnd prod.case s1_def [symmetric]
      init_def [symmetric] tail_def by simp
  then obtain r2 s2 where s2: "tls_send_handshake 1 (client_hello random host) s1 = Some (r2, s2)"
    and c: "(if r2 < 0 then Some (-1, s2)
         else Option.bind (hs_loop g init s2)
           (\<lambda>(e, l, s). case e of Some r \<Rightarrow> Some (r, s) | None \<Rightarrow> tail l s)) = Some (r, s')"
    by (auto elim!: bind_SomeE)
  have k2: "link s2 = (False, 0, 0)"
    using send_handshake_link [OF s2] k1 by simp
  show ?thesis
  proof (cases "r2 < 0")
    case True
    with c k2 show ?thesis by (simp add: link_def)
  next
    case False
    with c obtain e l s3 where h: "hs_loop g init s2 = Some (e, l, s3)"
        and t: "(case e of Some r \<Rightarrow> Some (r, s3) | None \<Rightarrow> tail l s3) = Some (r, s')"
      by (auto elim!: bind_SomeE)
    note k3 = hs_loop_link [OF h]
    show ?thesis
    proof (cases e)
      case (Some x)
      with t k3 k2 show ?thesis by (auto simp: link_def)
    next
      case None
      with t have "tail l s3 = Some (r, s')" by simp
      then show ?thesis
        using k2 k3 unfolding tail_def
        by (auto simp: link_def elim!: bind_SomeE split: if_splits
          dest!: key_exchange_link derive_keys_link send_finished_link recv_finished_link)
    qed
  qed
qed

text \<open>
  The outcome of the handshake decides whether data can flow: it returns 0, with both
  sequence numbers at 1, exactly when the connection is marked as encrypted; else it returns -1
  or -2 (the server chose an ECDHE suite), and every later \<open>tls12_client_send_app\<close> and
  \<open>tls12_client_recv_app\<close> is refused without touching the network.
\<close>

theorem tls_handshake_outcome:
  assumes "tls12_client_handshake g rt host s = Some (r, s')"
  shows "(r = 0 \<and> tls_enc_ready s' \<and> client_seq s' = 1 \<and> server_seq s' = 1) \<or>
    (r \<in> {-1, -2} \<and> \<not> tls_enc_ready s' \<and> tls12_client_send_app rt data s' = Some (-1, s') \<and>
      tls12_client_recv_app g buf max_len s' = Some (-1, buf, s'))"
proof -
  have "(r = 0 \<and> link s' = (True, 1, 1)) \<or> (r \<in> {-1, -2} \<and> \<not> tls_enc_ready s')"
    by (rule handshake_link [OF assms])
  then show ?thesis
    by (auto simp: link_def tls12_client_send_app_def tls12_client_recv_app_def)
qed

theorem tls_handshake_outcome_witness:
  "\<exists>s'. tls12_client_handshake (\<lambda>d. (0, d)) (\<lambda>_. 0) [97, 0] (boot_tls ()) = Some (-1, s') \<and>
    tls12_client_send_app (\<lambda>_. 0) [1] s' = Some (-1, s')"
proof -
  obtain random rng where rnd: "tls_rng_bytes (\<lambda>_. 0) 32 (0xC0FFEE, 0) = (random, rng)"
    by (cases "tls_rng_bytes (\<lambda>_. 0) 32 (0xC0FFEE, 0)")
  have len: "length random = 32"
    using length_rng_bytes [of "\<lambda>_. 0" 32 "(0xC0FFEE, 0)"] rnd by simp
  have hello: "length (client_hello random [97, 0]) < 100"
    by (simp add: client_hello_def Let_def len cstr_def)
  define s1 where "s1 = (tls12_client_reset (boot_tls ()))\<lparr>client_random := random, tls_rng_state := rng\<rparr>"
  have down: "tcb_state (tcb (tls_net (tr_add p s1))) = TCP_CLOSED" for p
    by (simp add: s1_def tls12_client_reset_def boot_tls_def boot_net_def tr_add_def)
  have "\<exists>s'. tls_send_handshake 1 (client_hello random [97, 0]) s1 = Some (-1, s')"
    using hello by (simp add: tls_send_handshake_def tls_send_record_def tcp_send_def Let_def down be_u24_def)
  then obtain s' where "tls_send_handshake 1 (client_hello random [97, 0]) s1 = Some (-1, s')"
    by blast
  moreover have "tls_rng_state (tls12_client_reset (boot_tls ())) = (0xC0FFEE, 0)"
    by (simp add: tls12_client_reset_def boot_tls_def)
  ultimately have h: "tls12_client_handshake (\<lambda>d. (0, d)) (\<lambda>_. 0) [97, 0] (boot_tls ()) = Some (-1, s')"
    unfolding tls12_client_handshake_def Let_def by (simp add: rnd s1_def [symmetric])
  from tls_handshake_outcome [OF h, where data = "[1]"] h show ?thesis
    by auto
qed

end
