(* ===== verification/CmdText.thy ===== *)
theory CmdText
  imports AurionPrelude
begin

text \<open>
  The string helpers of \<open>src/src/commands.c\<close> that the file system, the shell and the accounts
  share. A fixed-size \<open>char\<close> array is the list of all its bytes, with \<open>cstr\<close> as its content.
\<close>

section \<open>Definitions\<close>

definition str_len :: "bytes \<Rightarrow> nat" where
  "str_len s = length (cstr s)"

definition str_copy :: "bytes \<Rightarrow> bytes \<Rightarrow> nat \<Rightarrow> bytes" where
  "str_copy dst src room = (let s = take (room - 1) (cstr src) in s @ [0] @ drop (length s + 1) dst)"

text \<open>Both arguments are folded to upper case; a \<open>char\<close> is signed.\<close>

fun str_cmp :: "bytes \<Rightarrow> bytes \<Rightarrow> int" where
  "str_cmp a b =
     (let ca = upper8 (peek a); cb = upper8 (peek b)
      in if peek a \<noteq> 0 \<and> peek b \<noteq> 0
         then if ca \<noteq> cb then sint ca - sint cb else str_cmp (tl a) (tl b)
         else sint ca - sint cb)"

declare str_cmp.simps [simp del]

fun str_upper :: "bytes \<Rightarrow> bytes" where
  "str_upper [] = []"
| "str_upper (c # s) = (if c = 0 then c # s else upper8 c # str_upper s)"

fun str_to_int_loop :: "u32 \<Rightarrow> bytes \<Rightarrow> u32" where
  "str_to_int_loop n [] = n"
| "str_to_int_loop n (c # s) = (if is_digit8 c then str_to_int_loop (n * 10 + (ucast c - 0x30)) s else n)"

definition str_to_int :: "bytes \<Rightarrow> u32" where
  "str_to_int s = str_to_int_loop 0 s"

text \<open>\<open>(uint32_t)*s\<close> sign-extends the character.\<close>

fun hash_loop :: "u32 \<Rightarrow> bytes \<Rightarrow> u32" where
  "hash_loop h [] = h"
| "hash_loop h (c # s) = (if c = 0 then h else hash_loop (push_bit 5 h + h + scast c) s)"

definition hash_string :: "bytes \<Rightarrow> u32" where
  "hash_string s = hash_loop 5381 s"

definition blank :: "u8 \<Rightarrow> bool" where
  "blank c \<longleftrightarrow> c = 0x20 \<or> c = 9"

definition skip_spaces :: "bytes \<Rightarrow> bytes" where
  "skip_spaces s = dropWhile blank s"

text \<open>\<open>get_token\<close>: the rest of the line and the token, which is cut at the buffer.\<close>

definition get_token :: "bytes \<Rightarrow> nat \<Rightarrow> bytes \<times> bytes" where
  "get_token s room =
     (let s = skip_spaces s;
          t = take (room - 1) (takeWhile (\<lambda>c. c \<noteq> 0 \<and> \<not> blank c) s)
      in (drop (length t) s, t))"

section \<open>Comparison is equality up to case\<close>

definition fold_case :: "bytes \<Rightarrow> bytes" where
  "fold_case s = map upper8 (cstr s)"

lemma upper8_0_iff [simp]: "upper8 c = 0 \<longleftrightarrow> c = 0"
  by (auto simp: upper8_def)

lemma upper8_0_eq [simp]: "upper8 0 = 0" "0 = upper8 c \<longleftrightarrow> c = 0"
  by (simp_all add: eq_commute [of 0])

lemma upper8_upper8 [simp]: "upper8 (upper8 c) = upper8 c"
proof -
  have "(x :: nat) < 97 \<or> 122 < x \<or> x - 32 < 97" for x by arith
  then show ?thesis
    by (auto simp: upper8_def word_le_nat_alt unat_sub)
qed

lemma fold_case_Nil [simp]: "fold_case [] = []"
  by (simp add: fold_case_def)

lemma fold_case_Cons [simp]: "fold_case (c # s) = (if c = 0 then [] else upper8 c # fold_case s)"
  by (simp add: fold_case_def)

lemma fold_case_cstr [simp]: "fold_case (cstr s) = fold_case s"
  by (simp add: fold_case_def)

lemma length_fold_case [simp]: "length (fold_case s) = str_len s"
  by (simp add: fold_case_def str_len_def)

lemma sint_u8_eq_iff [simp]: "sint a = sint b \<longleftrightarrow> a = (b :: u8)"
  by (auto intro: signed_word_eqI)

lemma sint_u8_0_iff [simp]: "sint a = 0 \<longleftrightarrow> a = (0 :: u8)"
  using sint_u8_eq_iff [of a 0] by simp

lemma str_cmp_0_iff: "str_cmp a b = 0 \<longleftrightarrow> fold_case a = fold_case b"
proof (induction a b rule: str_cmp.induct)
  case (1 a b)
  show ?case
  proof (cases "peek a \<noteq> 0 \<and> peek b \<noteq> 0")
    case True
    then obtain c s d t where ab: "a = c # s" "b = d # t" "c \<noteq> 0" "d \<noteq> 0"
      by (cases a; cases b) auto
    then show ?thesis
      using "1.IH" [OF refl refl] by (subst str_cmp.simps) (simp add: Let_def)
  next
    case False
    then have "fold_case a = [] \<or> fold_case b = []"
      by (cases a; cases b) auto
    then show ?thesis
      using False by (subst str_cmp.simps) (cases a; cases b; auto simp: Let_def)
  qed
qed

lemma str_cmp_refl [simp]: "str_cmp a a = 0"
  by (simp add: str_cmp_0_iff)

section \<open>Copies\<close>

lemma cstr_str_copy [simp]: "cstr (str_copy dst src room) = take (room - 1) (cstr src)"
  by (simp add: str_copy_def Let_def cstr_append_nul nul_free_take)

lemma length_str_copy [simp]: "0 < room \<Longrightarrow> room \<le> length dst \<Longrightarrow> length (str_copy dst src room) = length dst"
  by (simp add: str_copy_def Let_def)

lemma in_str_copy [simp]: "0 \<in> set (str_copy dst src room)"
  by (simp add: str_copy_def Let_def)

lemma cstr_short: "0 \<in> set b \<Longrightarrow> length (cstr b) < length b"
  by (induction b) auto

lemma fold_case_take: "cstr a = take n (cstr b) \<Longrightarrow> str_len b \<le> n \<Longrightarrow> fold_case a = fold_case b"
  by (simp add: fold_case_def str_len_def)

section \<open>Tokens\<close>

lemma get_token_props:
  assumes "get_token s room = (rest, t)"
  shows "nul_free t" "length t \<le> room - 1" "length rest \<le> length s" "\<forall>c \<in> set t. \<not> blank c"
proof -
  have t: "t = take (room - 1) (takeWhile (\<lambda>c. c \<noteq> 0 \<and> \<not> blank c) (skip_spaces s))" "rest = drop (length t) (skip_spaces s)"
    using assms by (auto simp: get_token_def Let_def)
  show "nul_free t" "\<forall>c \<in> set t. \<not> blank c"
    unfolding t nul_free_def by (auto dest!: in_set_takeD dest: set_takeWhileD)
  show "length t \<le> room - 1" "length rest \<le> length s"
    unfolding t skip_spaces_def by (simp_all add: le_diff_conv length_dropWhile_le trans_le_add1)
qed

text \<open>The first word of a line that fits the buffer, and what follows it.\<close>

lemma get_token_word:
  assumes "nul_free w" and "\<forall>c \<in> set w. \<not> blank c" and "w \<noteq> []" and "length w < room" and "rest = [] \<or> blank (hd rest)"
  shows "get_token (w @ rest) room = (rest, w)"
proof -
  have "skip_spaces (w @ rest) = w @ rest"
    using assms(2,3) by (cases w) (auto simp: skip_spaces_def)
  moreover have "takeWhile (\<lambda>c. c \<noteq> 0 \<and> \<not> blank c) (w @ rest) = w"
  proof -
    have "takeWhile (\<lambda>c. c \<noteq> 0 \<and> \<not> blank c) (w @ rest) = w @ takeWhile (\<lambda>c. c \<noteq> 0 \<and> \<not> blank c) rest"
      using assms(1,2) by (intro takeWhile_append2) (auto simp: nul_free_def)
    also have "takeWhile (\<lambda>c. c \<noteq> 0 \<and> \<not> blank c) rest = []"
      using assms(5) by (cases rest) auto
    finally show ?thesis by simp
  qed
  ultimately show ?thesis
    using assms(4) by (simp add: get_token_def Let_def)
qed

end
