(* ===== verification/FsDisk.thy ===== *)
theory FsDisk
  imports CmdText
begin

text \<open>
  AurionFS, first half: the in-memory tables of \<open>src/src/commands.c\<close> (\<open>src/include/fs.h\<close>) and
  \<open>fs_save_to_disk\<close> and \<open>fs_load_from_disk\<close>, which move them to the disk and back.

  The disk driver is a parameter \<open>io\<close>: a write of one sector, which may fail, and a read of one
  sector, which is \<open>None\<close> when the driver reports an error. Names are kept as the whole
  \<open>char\<close> arrays, so that what lies behind the terminator is there too. \<open>None\<close> is an access
  outside a buffer: the name of a file on the disk that is not terminated is read past its field.
\<close>

section \<open>State\<close>

record fs_entry =
  fe_name :: bytes
  fe_size :: u32
  fe_type :: u8
  fe_attr :: u8
  fe_parent :: u16
  fe_reserved :: u16

record file_content =
  fc_idx :: u16
  fc_size :: u32
  fc_data :: bytes

record user_entry =
  ue_name :: bytes
  ue_hash :: bytes

record 'd disk_io =
  disk_write_lba :: "'d \<Rightarrow> nat \<Rightarrow> bytes \<Rightarrow> bool \<times> 'd"
  disk_read_lba :: "'d \<Rightarrow> nat \<Rightarrow> bytes option"

record 'd aur =
  fs_table :: "fs_entry list"
  fs_count :: nat
  user_table :: "user_entry list"
  user_count :: nat
  file_contents :: "file_content list"
  file_content_count :: nat
  current_dir :: bytes
  current_user :: bytes
  volume_label :: bytes
  volume_serial :: u32
  keyboard_layout :: int
  disk :: 'd

section \<open>Saving\<close>

definition sector :: "bytes \<Rightarrow> bytes" where
  "sector b = b @ replicate (512 - length b) 0"

text \<open>The first 64 bytes of an \<open>FSEntry\<close>; \<open>reserved\<close> lies behind them.\<close>

definition entry_bytes :: "fs_entry \<Rightarrow> bytes" where
  "entry_bytes e = fe_name e @ put32le (fe_size e) @ [fe_type e, fe_attr e] @ put16le (fe_parent e)"

definition user_bytes :: "user_entry \<Rightarrow> bytes" where
  "user_bytes u = ue_name u @ ue_hash u"

definition volume_bytes :: "bytes \<Rightarrow> u32 \<Rightarrow> bytes" where
  "volume_bytes label serial = (let l = take 12 (cstr label) in l @ replicate (16 - length l) 0 @ put32le serial)"

definition sectors_needed :: "u32 \<Rightarrow> nat" where
  "sectors_needed sz = (let n = unat ((sz + 511) div 512) in if n = 0 then 1 else n)"

text \<open>A write: whether its failure ends the save, the sector and its bytes.\<close>

type_synonym sector_write = "bool \<times> nat \<times> bytes"

definition content_writes :: "file_content \<Rightarrow> sector_write list" where
  "content_writes c =
     (let lba = 1800 + unat (fc_idx c) * 16; n = sectors_needed (fc_size c)
      in map (\<lambda>s. (True, lba + s, sector (take (min 512 (unat (fc_size c) - s * 512)) (drop (s * 512) (fc_data c))))) [0..<min n 16]
         @ map (\<lambda>s. (False, lba + s, sector [])) [n..<16])"

definition save_plan :: "'d aur \<Rightarrow> sector_write list" where
  "save_plan s =
     [(True, 499, sector (cstr (current_dir s))), (False, 998, sector (volume_bytes (volume_label s) (volume_serial s)))]
     @ map (\<lambda>i. (True, 1000 + i, sector (entry_bytes (fs_table s ! i)))) [0..<min (fs_count s) 512]
     @ map (\<lambda>i. (False, 1000 + i, sector [])) [fs_count s..<512]
     @ map (\<lambda>i. (True, 1512 + i, sector (user_bytes (user_table s ! i)))) [0..<min (user_count s) 32]
     @ map (\<lambda>i. (False, 1512 + i, sector [])) [user_count s..<32]
     @ concat (map content_writes (take (file_content_count s) (file_contents s)))"

fun write_all :: "'d disk_io \<Rightarrow> sector_write list \<Rightarrow> 'd \<Rightarrow> bool \<times> 'd" where
  "write_all io [] d = (True, d)"
| "write_all io ((must, lba, sec) # ws) d =
     (let (ok, d) = disk_write_lba io d lba sec
      in if must \<and> \<not> ok then (False, d) else write_all io ws d)"

definition fs_save_to_disk :: "'d disk_io \<Rightarrow> 'd aur \<Rightarrow> int \<times> 'd aur" where
  "fs_save_to_disk io s =
     (let (ok, d) = write_all io (save_plan s) (disk s) in (if ok then 0 else -1, s\<lparr>disk := d\<rparr>))"

section \<open>Loading\<close>

definition load_curdir :: "'d disk_io \<Rightarrow> 'd aur \<Rightarrow> 'd aur" where
  "load_curdir io s =
     (case disk_read_lba io (disk s) 499 of
        None \<Rightarrow> s
      | Some sec \<Rightarrow>
          if peek sec = 0x2F
          then let n = cstr (take 256 sec)
               in s\<lparr>current_dir := (n @ drop (length n) (current_dir s))[255 := 0]\<rparr>
          else s)"

text \<open>A disk without a volume sector is given one, by saving what is in memory.\<close>

definition load_volume :: "'d disk_io \<Rightarrow> u32 \<Rightarrow> 'd aur \<Rightarrow> 'd aur option" where
  "load_volume io ticks s =
     (let fresh = s\<lparr>volume_serial := push_bit 16 ticks XOR drop_bit 8 ticks XOR 0x69604153,
                    volume_label := str_copy (volume_label s) (lit ''AURION_DISK'') 13\<rparr>
      in case disk_read_lba io (disk s) 998 of
           None \<Rightarrow> Some (snd (fs_save_to_disk io fresh))
         | Some sec \<Rightarrow>
             if peek sec = 0 then Some (snd (fs_save_to_disk io fresh))
             else do {
               serial \<leftarrow> rd32le sec 16;
               Some (s\<lparr>volume_label := str_copy (volume_label s) sec 13, volume_serial := serial\<rparr>) })"

definition strip_drive :: "bytes \<Rightarrow> bytes" where
  "strip_drive b =
     (let n = cstr b
      in if 3 \<le> length n \<and> n ! 1 = 0x3A \<and> (n ! 2 = 0x2F \<or> n ! 2 = 0x5C)
         then drop 2 n @ [0] @ drop (length n - 1) b else b)"

definition slash :: "u8 \<Rightarrow> u8" where
  "slash c = (if c = 0x5C then 0x2F else c)"

definition forward_slashes :: "bytes \<Rightarrow> bytes" where
  "forward_slashes b = (let n = cstr b in map slash n @ drop (length n) b)"

definition strip_slash :: "bytes \<Rightarrow> bytes" where
  "strip_slash b = (let n = cstr b in if 1 < length n \<and> last n = 0x2F then b[length n - 1 := 0] else b)"

definition load_entry :: "bytes \<Rightarrow> fs_entry \<Rightarrow> fs_entry option" where
  "load_entry sec e =
     do {
       name \<leftarrow> rdn sec 0 56;
       sz \<leftarrow> rd32le sec 56;
       ty \<leftarrow> rd8 sec 60;
       attr \<leftarrow> rd8 sec 61;
       parent \<leftarrow> rd16le sec 62;
       if 0 \<notin> set name then None
       else Some (e\<lparr>fe_name := strip_slash (forward_slashes (strip_drive name)), fe_size := sz, fe_type := ty,
                    fe_attr := attr, fe_parent := parent\<rparr>) }"

text \<open>The first argument counts the sectors still to be read; a sector that cannot be read is left out.\<close>

fun load_table :: "'d disk_io \<Rightarrow> nat \<Rightarrow> nat \<Rightarrow> 'd aur \<Rightarrow> 'd aur option" where
  "load_table io 0 i s = Some s"
| "load_table io (Suc k) i s =
     (case disk_read_lba io (disk s) (1000 + i) of
        None \<Rightarrow> load_table io k (i + 1) s
      | Some sec \<Rightarrow>
          if peek sec = 0 then Some s
          else do {
            e \<leftarrow> load_entry sec (fs_table s ! fs_count s);
            load_table io k (i + 1) (s\<lparr>fs_table := (fs_table s)[fs_count s := e], fs_count := fs_count s + 1\<rparr>) })"

definition load_user :: "bytes \<Rightarrow> user_entry option" where
  "load_user sec =
     do {
       name \<leftarrow> rdn sec 0 32;
       hash \<leftarrow> rdn sec 32 32;
       Some \<lparr>ue_name = name, ue_hash = hash\<rparr> }"

fun load_users :: "'d disk_io \<Rightarrow> nat \<Rightarrow> nat \<Rightarrow> 'd aur \<Rightarrow> 'd aur option" where
  "load_users io 0 i s = Some s"
| "load_users io (Suc k) i s =
     (case disk_read_lba io (disk s) (1512 + i) of
        None \<Rightarrow> load_users io k (i + 1) s
      | Some sec \<Rightarrow>
          if peek sec = 0 then load_users io k (i + 1) s
          else do {
            u \<leftarrow> load_user sec;
            load_users io k (i + 1) (s\<lparr>user_table := (user_table s)[user_count s := u], user_count := user_count s + 1\<rparr>) })"

primrec load_chunks :: "'d disk_io \<Rightarrow> 'd \<Rightarrow> u32 \<Rightarrow> nat \<Rightarrow> nat \<Rightarrow> nat \<Rightarrow> bytes \<Rightarrow> bytes" where
  "load_chunks io d sz 0 lba got data = data"
| "load_chunks io d sz (Suc k) lba got data =
     (case disk_read_lba io d lba of
        None \<Rightarrow> load_chunks io d sz k (lba + 1) got data
      | Some sec \<Rightarrow>
          let n = min (min 512 (unat sz - got)) (8192 - got)
          in load_chunks io d sz k (lba + 1) (got + n) (take got data @ take n sec @ drop (got + n) data))"

definition load_content :: "'d disk_io \<Rightarrow> 'd \<Rightarrow> nat \<Rightarrow> u32 \<Rightarrow> file_content" where
  "load_content io d i sz =
     \<lparr>fc_idx = of_nat i, fc_size = sz,
      fc_data = load_chunks io d sz (min (sectors_needed sz) 16) (1800 + i * 16) 0 (replicate 8192 0)\<rparr>"

fun load_contents :: "'d disk_io \<Rightarrow> nat \<Rightarrow> nat \<Rightarrow> 'd aur \<Rightarrow> 'd aur" where
  "load_contents io 0 i s = s"
| "load_contents io (Suc k) i s =
     (if file_content_count s < 256
      then let e = fs_table s ! i
           in load_contents io k (i + 1)
                (if 0 < fe_size e \<and> fe_type e = 0
                 then s\<lparr>file_contents := (file_contents s)[file_content_count s := load_content io (disk s) i (fe_size e)],
                        file_content_count := file_content_count s + 1\<rparr>
                 else s)
      else s)"

definition fs_load_from_disk :: "'d disk_io \<Rightarrow> u32 \<Rightarrow> 'd aur \<Rightarrow> 'd aur option" where
  "fs_load_from_disk io ticks s =
     do {
       s \<leftarrow> load_volume io ticks (load_curdir io s);
       s \<leftarrow> load_table io 512 0 (s\<lparr>fs_count := 0\<rparr>);
       s \<leftarrow> load_users io 32 0 (s\<lparr>user_count := 0\<rparr>);
       Some (load_contents io (fs_count s) 0 (s\<lparr>file_content_count := 0\<rparr>)) }"

text \<open>The static initialisation, before the first load, on a machine with the disk \<open>d\<close>.\<close>

definition boot_aur :: "'d \<Rightarrow> 'd aur" where
  "boot_aur d =
     \<lparr>fs_table = replicate 512 \<lparr>fe_name = replicate 56 0, fe_size = 0, fe_type = 0, fe_attr = 0, fe_parent = 0, fe_reserved = 0\<rparr>,
      fs_count = 0, user_table = replicate 32 \<lparr>ue_name = replicate 32 0, ue_hash = replicate 32 0\<rparr>, user_count = 0,
      file_contents = replicate 256 \<lparr>fc_idx = 0, fc_size = 0, fc_data = replicate 8192 0\<rparr>, file_content_count = 0,
      current_dir = lit ''/'' @ replicate 255 0, current_user = lit ''root'' @ replicate 28 0,
      volume_label = lit ''SYSTEM'' @ replicate 7 0, volume_serial = 0, keyboard_layout = 0, disk = d\<rparr>"

section \<open>Well-formed states\<close>

text \<open>The sizes of the static arrays.\<close>

definition fs_shape :: "'d aur \<Rightarrow> bool" where
  "fs_shape s \<longleftrightarrow>
     length (fs_table s) = 512 \<and> fs_count s \<le> 512 \<and> (\<forall>e \<in> set (fs_table s). length (fe_name e) = 56) \<and>
     length (user_table s) = 32 \<and> user_count s \<le> 32 \<and>
     (\<forall>u \<in> set (user_table s). length (ue_name u) = 32 \<and> length (ue_hash u) = 32) \<and>
     length (file_contents s) = 256 \<and> file_content_count s \<le> 256 \<and> (\<forall>c \<in> set (file_contents s). length (fc_data c) = 8192) \<and>
     length (current_dir s) = 256 \<and> length (current_user s) = 32 \<and> length (volume_label s) = 13"

text \<open>In addition every name is terminated and no slot claims more than its buffer holds.\<close>

definition fs_ok :: "'d aur \<Rightarrow> bool" where
  "fs_ok s \<longleftrightarrow> fs_shape s \<and> (\<forall>e \<in> set (fs_table s). 0 \<in> set (fe_name e)) \<and> (\<forall>u \<in> set (user_table s). 0 \<in> set (ue_name u)) \<and>
     (\<forall>c \<in> set (file_contents s). unat (fc_size c) \<le> 8192) \<and> 0 \<in> set (current_dir s) \<and> 0 \<in> set (current_user s)"

text \<open>The bytes that are stored for the entry \<open>i\<close>.\<close>

definition slot_of :: "'d aur \<Rightarrow> nat \<Rightarrow> nat option" where
  "slot_of s i = find (\<lambda>k. unat (fc_idx (file_contents s ! k)) = i) [0..<file_content_count s]"

definition stored :: "'d aur \<Rightarrow> nat \<Rightarrow> bytes option" where
  "stored s i = map_option (\<lambda>k. take (unat (fc_size (file_contents s ! k))) (fc_data (file_contents s ! k))) (slot_of s i)"

section \<open>The disk as a map\<close>

text \<open>What the file system expects of the driver: a written sector is read back, the others stay.\<close>

definition good_disk :: "'d disk_io \<Rightarrow> bool" where
  "good_disk io \<longleftrightarrow> (\<forall>d lba sec. length sec = 512 \<longrightarrow>
     fst (disk_write_lba io d lba sec) \<and>
     disk_read_lba io (snd (disk_write_lba io d lba sec)) = (disk_read_lba io d)(lba \<mapsto> sec))"

lemma length_sector [simp]: "length b \<le> 512 \<Longrightarrow> length (sector b) = 512"
  by (simp add: sector_def)

lemma peek_replicate_0 [simp]: "peek (replicate n 0) = 0"
  by (cases n) simp_all

lemma peek_sector: "peek (sector b) = peek b"
  by (cases b) (simp_all add: sector_def)

lemma write_all_good:
  assumes "good_disk io" and "\<forall>w \<in> set ws. length (snd (snd w)) = 512"
  shows "fst (write_all io ws d) \<and>
    disk_read_lba io (snd (write_all io ws d)) = disk_read_lba io d ++ map_of (rev (map snd ws))"
  using assms(2)
proof (induction ws arbitrary: d)
  case (Cons w ws)
  obtain must lba sec where w: "w = (must, lba, sec)"
    by (cases w)
  obtain ok d' where d': "disk_write_lba io d lba sec = (ok, d')"
    by (cases "disk_write_lba io d lba sec")
  have "ok" "disk_read_lba io d' = (disk_read_lba io d)(lba \<mapsto> sec)"
    using assms(1) Cons.prems d' w unfolding good_disk_def by (metis fst_conv snd_conv list.set_intros(1))+
  moreover have "(disk_read_lba io d)(lba \<mapsto> sec) ++ map_of (rev (map snd ws)) =
      disk_read_lba io d ++ ([lba \<mapsto> sec] ++ map_of (rev (map snd ws)))"
    by (rule ext) (simp add: map_add_def split: option.splits)
  moreover have "fst (write_all io ws d') \<and>
      disk_read_lba io (snd (write_all io ws d')) = disk_read_lba io d' ++ map_of (rev (map snd ws))"
    using Cons by simp
  ultimately have r: "fst (write_all io ws d')"
      "disk_read_lba io (snd (write_all io ws d')) = disk_read_lba io d ++ ([lba \<mapsto> sec] ++ map_of (rev (map snd ws)))"
    by (simp_all only:)
  have m: "map_of (rev (map snd (w # ws))) = [lba \<mapsto> sec] ++ map_of (rev (map snd ws))"
    by (simp add: w map_of_append)
  show ?case
    unfolding m using \<open>ok\<close> r d' by (simp add: w)
qed simp

lemma read_written:
  assumes "good_disk io" and "\<forall>w \<in> set ws. length (snd (snd w)) = 512" and "distinct (map (fst \<circ> snd) ws)"
    and "(m, lba, sec) \<in> set ws"
  shows "disk_read_lba io (snd (write_all io ws d)) lba = Some sec"
proof -
  have "map_of (rev (map snd ws)) lba = Some sec"
    using assms(3,4) by (intro map_of_is_SomeI) (auto simp: rev_map [symmetric] image_iff intro: bexI [of _ "(m, lba, sec)"])
  then show ?thesis
    using write_all_good [OF assms(1,2)] by (simp add: map_add_Some_iff)
qed

lemma read_unwritten:
  assumes "good_disk io" and "\<forall>w \<in> set ws. length (snd (snd w)) = 512" and "lba \<notin> (fst \<circ> snd) ` set ws"
  shows "disk_read_lba io (snd (write_all io ws d)) lba = disk_read_lba io d lba"
proof -
  have "map_of (rev (map snd ws)) lba = None"
    using assms(3) by (force simp: map_of_eq_None_iff)
  then show ?thesis
    using write_all_good [OF assms(1,2)] by (simp add: map_add_def)
qed

section \<open>What is written is what is read\<close>

lemma rd32le_put: "rd32le (a @ put32le w @ b) (length a) = Some w"
  by (simp add: rd32le_def put32le_def nth_append)

lemma rd16le_put: "rd16le (a @ put16le w @ b) (length a) = Some w"
  by (simp add: rd16le_def put16le_def nth_append)

lemma rd8_put: "rd8 (a @ c # b) (length a) = Some c"
  by (simp add: rd8_def)

lemma rdn_front: "rdn (a @ b) 0 (length a) = Some a"
  by (simp add: rdn_def)

text \<open>A name that loading leaves alone.\<close>

definition clean_name :: "bytes \<Rightarrow> bool" where
  "clean_name b \<longleftrightarrow> length b = 56 \<and> 0 \<in> set b \<and> peek b \<noteq> 0 \<and> 0x5C \<notin> set (cstr b) \<and>
     (1 < str_len b \<longrightarrow> cstr b ! 1 \<noteq> 0x3A \<and> last (cstr b) \<noteq> 0x2F)"

lemma cstr_append_drop: "cstr b @ drop (length (cstr b)) b = b"
  by (induction b) auto

lemma load_clean_name: "clean_name b \<Longrightarrow> strip_slash (forward_slashes (strip_drive b)) = b"
proof -
  assume c: "clean_name b"
  have "strip_drive b = b"
    using c by (auto simp: strip_drive_def Let_def clean_name_def str_len_def)
  moreover have "map slash (cstr b) = cstr b"
    using c by (intro map_idI) (auto simp: slash_def clean_name_def)
  then have "forward_slashes b = b"
    by (simp add: forward_slashes_def Let_def cstr_append_drop)
  moreover have "strip_slash b = b"
    using c by (auto simp: strip_slash_def Let_def clean_name_def str_len_def)
  ultimately show ?thesis
    by simp
qed

lemma load_saved_entry:
  assumes "clean_name (fe_name e)"
  shows "load_entry (sector (entry_bytes e)) old = Some (e\<lparr>fe_reserved := fe_reserved old\<rparr>)"
proof -
  let ?n = "fe_name e" and ?p = "put32le (fe_size e)" and ?q = "put16le (fe_parent e)"
  have len: "length ?n = 56"
    using assms by (simp add: clean_name_def)
  define r :: bytes where "r = replicate (512 - length (entry_bytes e)) 0"
  have s: "sector (entry_bytes e) = ?n @ ?p @ [fe_type e, fe_attr e] @ ?q @ r"
    unfolding sector_def r_def [symmetric] by (simp add: entry_bytes_def)
  have "rdn (?n @ b) 0 56 = Some ?n" "rd32le (?n @ ?p @ b) 56 = Some (fe_size e)" for b
    using rdn_front [of ?n b] rd32le_put [of ?n "fe_size e" b] unfolding len .
  then have 1: "rdn (sector (entry_bytes e)) 0 56 = Some ?n" "rd32le (sector (entry_bytes e)) 56 = Some (fe_size e)"
    unfolding s by blast+
  have l: "length (?n @ ?p @ [fe_type e, fe_attr e]) = 62" "length (?n @ ?p) = 60" "length (?n @ ?p @ [fe_type e]) = 61"
    using len by simp_all
  have 2: "rd16le (sector (entry_bytes e)) 62 = Some (fe_parent e)"
      "rd8 (sector (entry_bytes e)) 60 = Some (fe_type e)" "rd8 (sector (entry_bytes e)) 61 = Some (fe_attr e)"
    unfolding s
    using rd16le_put [of "?n @ ?p @ [fe_type e, fe_attr e]" "fe_parent e" r]
      rd8_put [of "?n @ ?p" "fe_type e" "fe_attr e # ?q @ r"] rd8_put [of "?n @ ?p @ [fe_type e]" "fe_attr e" "?q @ r"]
    unfolding l by (simp_all only: append_assoc append_Cons append_Nil)
  have "0 \<in> set ?n"
    using assms by (simp add: clean_name_def)
  then have "load_entry (sector (entry_bytes e)) old =
      Some (old\<lparr>fe_name := ?n, fe_size := fe_size e, fe_type := fe_type e, fe_attr := fe_attr e, fe_parent := fe_parent e\<rparr>)"
    unfolding load_entry_def 1 2 Option.bind.simps load_clean_name [OF assms] by (simp only: not_not if_False not_True_eq_False simp_thms)
  then show ?thesis
    by (cases e; cases old) simp
qed

lemma peek_entry: "clean_name (fe_name e) \<Longrightarrow> peek (sector (entry_bytes e)) = peek (fe_name e)"
  by (cases "fe_name e") (simp_all add: peek_sector entry_bytes_def clean_name_def)

end
