(* ===== verification/FsReboot.thy ===== *)
theory FsReboot
  imports FsDisk
begin

text \<open>
  What \<open>fs_save_to_disk\<close> writes, \<open>fs_load_from_disk\<close> of the next boot reads back: the proof goes
  table by table over the sectors of the save plan.
\<close>

section \<open>The tables\<close>

lemma load_table_saved:
  assumes "\<forall>j < n. i \<le> j \<longrightarrow> disk_read_lba io (disk s) (1000 + j) = Some (sector (entry_bytes (es ! j))) \<and> clean_name (fe_name (es ! j))"
    and "n < 512 \<Longrightarrow> disk_read_lba io (disk s) (1000 + n) = Some (sector [])"
    and "i \<le> n" and "n \<le> 512" and "k = 512 - i" and "fs_count s = i" and "length (fs_table s) = 512"
  shows "\<exists>T. load_table io k i s = Some (s\<lparr>fs_table := T, fs_count := n\<rparr>) \<and> length T = 512 \<and>
    (\<forall>j < i. T ! j = fs_table s ! j) \<and> (\<forall>j < n. i \<le> j \<longrightarrow> T ! j = (es ! j)\<lparr>fe_reserved := fe_reserved (fs_table s ! j)\<rparr>)"
  using assms
proof (induction k arbitrary: i s)
  case 0
  then have "i = n" "n = 512" by simp_all
  with 0 show ?case by (intro exI [of _ "fs_table s"]) auto
next
  case (Suc k)
  show ?case
  proof (cases "i = n")
    case True
    then have "disk_read_lba io (disk s) (1000 + i) = Some (sector [])"
      using Suc.prems by simp
    moreover have "peek (sector []) = 0"
      by (simp add: peek_sector)
    ultimately have "load_table io (Suc k) i s = Some s"
      by simp
    then show ?thesis
      using Suc.prems True by (intro exI [of _ "fs_table s"]) auto
  next
    case False
    then have lt: "i < n" using Suc.prems by simp
    define e where "e = (es ! i)\<lparr>fe_reserved := fe_reserved (fs_table s ! i)\<rparr>"
    define t where "t = s\<lparr>fs_table := (fs_table s)[i := e], fs_count := i + 1\<rparr>"
    have r: "disk_read_lba io (disk s) (1000 + i) = Some (sector (entry_bytes (es ! i)))" "clean_name (fe_name (es ! i))"
      using Suc.prems(1) lt by simp_all
    then have "peek (sector (entry_bytes (es ! i))) \<noteq> 0"
      by (simp add: peek_entry) (simp add: clean_name_def)
    then have step: "load_table io (Suc k) i s = load_table io k (i + 1) t"
      using r Suc.prems(6) by (simp add: load_saved_entry t_def e_def)
    have "\<exists>T. load_table io k (i + 1) t = Some (t\<lparr>fs_table := T, fs_count := n\<rparr>) \<and> length T = 512 \<and>
      (\<forall>j < i + 1. T ! j = fs_table t ! j) \<and> (\<forall>j < n. i + 1 \<le> j \<longrightarrow> T ! j = (es ! j)\<lparr>fe_reserved := fe_reserved (fs_table t ! j)\<rparr>)"
      by (rule Suc.IH) (use Suc.prems lt in \<open>auto simp: t_def\<close>)
    then obtain T where T: "load_table io k (i + 1) t = Some (t\<lparr>fs_table := T, fs_count := n\<rparr>)" "length T = 512"
        "\<forall>j < i + 1. T ! j = fs_table t ! j" "\<forall>j < n. i + 1 \<le> j \<longrightarrow> T ! j = (es ! j)\<lparr>fe_reserved := fe_reserved (fs_table t ! j)\<rparr>"
      by blast
    have "T ! j = (es ! j)\<lparr>fe_reserved := fe_reserved (fs_table s ! j)\<rparr>" if "j < n" "i \<le> j" for j
      using T(3,4) that Suc.prems(7) lt Suc.prems(4) by (cases "j = i") (simp_all add: t_def e_def)
    moreover have "T ! j = fs_table s ! j" if "j < i" for j
      using T(3) that by (simp add: t_def)
    ultimately show ?thesis
      using T(1,2) step by (intro exI [of _ T]) (simp add: t_def)
  qed
qed

text \<open>A user is saved with a name; the remaining sectors are blank.\<close>

definition clean_user :: "user_entry \<Rightarrow> bool" where
  "clean_user u \<longleftrightarrow> length (ue_name u) = 32 \<and> length (ue_hash u) = 32 \<and> 0 \<in> set (ue_name u) \<and> peek (ue_name u) \<noteq> 0"

lemma load_saved_user:
  assumes "clean_user u"
  shows "load_user (sector (user_bytes u)) = Some u" "peek (sector (user_bytes u)) \<noteq> 0"
proof -
  have l: "length (ue_name u) = 32" "length (ue_hash u) = 32" "0 \<in> set (ue_name u)" "peek (ue_name u) \<noteq> 0"
    using assms by (simp_all add: clean_user_def)
  define r :: bytes where "r = replicate (512 - length (user_bytes u)) 0"
  have s: "sector (user_bytes u) = ue_name u @ ue_hash u @ r"
    unfolding sector_def r_def [symmetric] by (simp add: user_bytes_def)
  have "rdn (sector (user_bytes u)) 0 32 = Some (ue_name u)" "rdn (sector (user_bytes u)) 32 32 = Some (ue_hash u)"
    unfolding s by (simp_all add: rdn_def l)
  then show "load_user (sector (user_bytes u)) = Some u"
    using l(3) by (simp add: load_user_def)
  show "peek (sector (user_bytes u)) \<noteq> 0"
    using l by (cases "ue_name u") (simp_all add: s)
qed

lemma load_users_blank:
  assumes "\<forall>j < k. disk_read_lba io (disk s) (1512 + (i + j)) = Some (sector [])"
  shows "load_users io k i s = Some s"
  using assms
proof (induction k arbitrary: i)
  case (Suc k)
  have "disk_read_lba io (disk s) (1512 + i) = Some (sector [])"
    using Suc.prems by (metis add.right_neutral zero_less_Suc)
  moreover have "load_users io k (i + 1) s = Some s"
    using Suc.prems by (intro Suc.IH) (metis Suc_less_eq add_Suc_right add_Suc_shift Suc_eq_plus1)
  ultimately show ?case
    by (simp add: peek_sector)
qed simp

lemma load_users_saved:
  assumes "\<forall>j < n. i \<le> j \<longrightarrow> disk_read_lba io (disk s) (1512 + j) = Some (sector (user_bytes (us ! j))) \<and> clean_user (us ! j)"
    and "\<forall>j < 32. n \<le> j \<longrightarrow> disk_read_lba io (disk s) (1512 + j) = Some (sector [])"
    and "i \<le> n" and "n \<le> 32" and "k = 32 - i" and "user_count s = i" and "length (user_table s) = 32"
  shows "\<exists>U. load_users io k i s = Some (s\<lparr>user_table := U, user_count := n\<rparr>) \<and> length U = 32 \<and>
    (\<forall>j < i. U ! j = user_table s ! j) \<and> (\<forall>j < n. i \<le> j \<longrightarrow> U ! j = us ! j)"
  using assms
proof (induction k arbitrary: i s)
  case 0
  then have "i = n" by simp
  with 0 show ?case by (intro exI [of _ "user_table s"]) auto
next
  case (Suc k)
  show ?case
  proof (cases "i = n")
    case True
    have "load_users io (Suc k) i s = Some s"
      by (rule load_users_blank) (use Suc.prems True in auto)
    then show ?thesis
      using Suc.prems True by (intro exI [of _ "user_table s"]) auto
  next
    case False
    then have lt: "i < n" using Suc.prems by simp
    define t where "t = s\<lparr>user_table := (user_table s)[i := us ! i], user_count := i + 1\<rparr>"
    have r: "disk_read_lba io (disk s) (1512 + i) = Some (sector (user_bytes (us ! i)))" "clean_user (us ! i)"
      using Suc.prems(1) lt by simp_all
    then have step: "load_users io (Suc k) i s = load_users io k (i + 1) t"
      using Suc.prems(6) load_saved_user [OF r(2)] by (simp add: t_def)
    have "\<exists>U. load_users io k (i + 1) t = Some (t\<lparr>user_table := U, user_count := n\<rparr>) \<and> length U = 32 \<and>
      (\<forall>j < i + 1. U ! j = user_table t ! j) \<and> (\<forall>j < n. i + 1 \<le> j \<longrightarrow> U ! j = us ! j)"
      by (rule Suc.IH) (use Suc.prems lt in \<open>auto simp: t_def\<close>)
    then obtain U where U: "load_users io k (i + 1) t = Some (t\<lparr>user_table := U, user_count := n\<rparr>)" "length U = 32"
        "\<forall>j < i + 1. U ! j = user_table t ! j" "\<forall>j < n. i + 1 \<le> j \<longrightarrow> U ! j = us ! j"
      by blast
    have "U ! j = us ! j" if "j < n" "i \<le> j" for j
      using U(3,4) that Suc.prems(4,7) lt by (cases "j = i") (simp_all add: t_def)
    moreover have "U ! j = user_table s ! j" if "j < i" for j
      using U(3) that by (simp add: t_def)
    ultimately show ?thesis
      using U(1,2) step by (intro exI [of _ U]) (simp add: t_def)
  qed
qed

section \<open>Contents\<close>

lemma sectors_needed_eq:
  assumes "unat sz \<le> 8192"
  shows "sectors_needed sz = max 1 ((unat sz + 511) div 512)" "sectors_needed sz \<le> 16" "unat sz \<le> 512 * sectors_needed sz"
proof -
  have "unat (sz + 511) = unat sz + 511"
    using assms by (simp add: unat_word_ariths)
  then have "unat ((sz + 511) div 512) = (unat sz + 511) div 512"
    by (simp add: unat_div)
  then show e: "sectors_needed sz = max 1 ((unat sz + 511) div 512)"
    unfolding sectors_needed_def Let_def by auto
  show "sectors_needed sz \<le> 16" "unat sz \<le> 512 * sectors_needed sz"
    unfolding e using assms by auto
qed

definition chunk :: "nat \<Rightarrow> bytes \<Rightarrow> nat \<Rightarrow> bytes" where
  "chunk n data s = take (min 512 (n - s * 512)) (drop (s * 512) data)"

lemma take_sector: "length b = n \<Longrightarrow> take n (sector b) = b"
  by (simp add: sector_def)

lemma load_chunks_saved:
  assumes "\<forall>j < n. disk_read_lba io d (lba + j) = Some (sector (chunk (unat sz) data j))"
    and "unat sz \<le> 512 * n" and "unat sz \<le> length data" and "length z = 8192" and "unat sz \<le> 8192"
    and "k = n - s" and "s \<le> n" and "g = min (unat sz) (s * 512)"
  shows "load_chunks io d sz k (lba + s) g (take g data @ drop g z) = take (unat sz) data @ drop (unat sz) z"
  using assms(6-8)
proof (induction k arbitrary: s g)
  case 0
  then have "g = unat sz" using assms(2) by simp
  then show ?case by simp
next
  case (Suc k)
  have s: "s < n" using Suc.prems by simp
  define c where "c = chunk (unat sz) data s"
  have lc: "length c = min 512 (unat sz - s * 512)"
    using assms(3) by (simp add: c_def chunk_def)
  have read: "disk_read_lba io d (lba + s) = Some (sector c)"
    using assms(1) s by (simp add: c_def)
  have n: "min (min 512 (unat sz - g)) (8192 - g) = length c"
    unfolding lc Suc.prems(3) using assms(5) by auto
  have g': "g + length c = min (unat sz) (Suc s * 512)"
    unfolding lc Suc.prems(3) by auto
  have "take g data @ c = take (g + length c) data"
  proof (cases "s * 512 \<le> unat sz")
    case True
    then have "g = s * 512" using Suc.prems(3) by simp
    moreover have "c = take (length c) (drop (s * 512) data)"
      unfolding lc by (simp add: c_def chunk_def)
    ultimately show ?thesis
      by (simp add: take_add)
  next
    case False
    then show ?thesis
      using lc by simp
  qed
  then have tk: "take g data @ c @ r = take (g + length c) data @ r" for r
    by (metis append_assoc)
  have "g \<le> length data"
    using Suc.prems(3) assms(3) by simp
  then have "take g (take g data @ drop g z) = take g data" "drop (g + length c) (take g data @ drop g z) = drop (g + length c) z"
    by (simp_all add: add.commute)
  then have "take g (take g data @ drop g z) @ c @ drop (g + length c) (take g data @ drop g z)
      = take (g + length c) data @ drop (g + length c) z"
    by (simp only: tk)
  then have "load_chunks io d sz (Suc k) (lba + s) g (take g data @ drop g z)
      = load_chunks io d sz k (lba + Suc s) (g + length c) (take (g + length c) data @ drop (g + length c) z)"
    using n by (simp add: read Let_def take_sector)
  also have "\<dots> = take (unat sz) data @ drop (unat sz) z"
    using Suc.prems s by (intro Suc.IH g') auto
  finally show ?case .
qed

text \<open>The indices of the files that have content.\<close>

definition with_content :: "fs_entry list \<Rightarrow> nat \<Rightarrow> nat \<Rightarrow> nat list" where
  "with_content T i k = filter (\<lambda>j. 0 < fe_size (T ! j) \<and> fe_type (T ! j) = 0) [i..<i + k]"

lemma with_content_Suc:
  "with_content T i (Suc k) =
    (if 0 < fe_size (T ! i) \<and> fe_type (T ! i) = 0 then i # with_content T (i + 1) k else with_content T (i + 1) k)"
  unfolding with_content_def by (subst upt_conv_Cons) simp_all

lemma load_contents_eq:
  assumes "file_content_count s + length (with_content (fs_table s) i k) \<le> 256" and "length (file_contents s) = 256"
  shows "\<exists>F. load_contents io k i s = s\<lparr>file_contents := F,
      file_content_count := file_content_count s + length (with_content (fs_table s) i k)\<rparr> \<and> length F = 256 \<and>
    (\<forall>j < file_content_count s. F ! j = file_contents s ! j) \<and>
    (\<forall>j < length (with_content (fs_table s) i k). F ! (file_content_count s + j) =
      load_content io (disk s) (with_content (fs_table s) i k ! j) (fe_size (fs_table s ! (with_content (fs_table s) i k ! j))))"
  using assms
proof (induction k arbitrary: i s)
  case 0
  then show ?case by (intro exI [of _ "file_contents s"]) (simp add: with_content_def)
next
  case (Suc k)
  let ?e = "fs_table s ! i" and ?w = "with_content (fs_table s) (i + 1) k"
  show ?case
  proof (cases "0 < fe_size ?e \<and> fe_type ?e = 0")
    case True
    define t where "t = s\<lparr>file_contents := (file_contents s)[file_content_count s := load_content io (disk s) i (fe_size ?e)],
      file_content_count := file_content_count s + 1\<rparr>"
    have w: "with_content (fs_table s) i (Suc k) = i # ?w"
      using True by (simp add: with_content_Suc)
    then have room: "file_content_count s < 256"
      using Suc.prems(1) by simp
    have "file_content_count t + length (with_content (fs_table t) (i + 1) k) \<le> 256" "length (file_contents t) = 256"
      using Suc.prems w by (simp_all add: t_def)
    from Suc.IH [OF this] obtain F where F: "load_contents io k (i + 1) t = t\<lparr>file_contents := F, file_content_count := file_content_count t + length ?w\<rparr>"
        "length F = 256" "\<forall>j < file_content_count t. F ! j = file_contents t ! j"
        "\<forall>j < length ?w. F ! (file_content_count t + j) = load_content io (disk t) (?w ! j) (fe_size (fs_table t ! (?w ! j)))"
      by (auto simp: t_def)
    have "F ! (file_content_count s + j) = load_content io (disk s) ((i # ?w) ! j) (fe_size (fs_table s ! ((i # ?w) ! j)))"
      if "j < length (i # ?w)" for j
    proof (cases j)
      case 0
      then show ?thesis
        using F(3) room Suc.prems(2) by (simp add: t_def)
    next
      case (Suc j')
      then show ?thesis
        using F(4) that by (simp add: t_def)
    qed
    moreover have "F ! j = file_contents s ! j" if "j < file_content_count s" for j
      using F(3) that by (simp add: t_def)
    moreover have "load_contents io (Suc k) i s = s\<lparr>file_contents := F, file_content_count := file_content_count s + length (i # ?w)\<rparr>"
      using F(1) True room by (simp add: t_def Let_def)
    ultimately show ?thesis
      unfolding w using F(2) by blast
  next
    case False
    then have w: "with_content (fs_table s) i (Suc k) = ?w"
      by (simp add: with_content_Suc)
    show ?thesis
    proof (cases "file_content_count s < 256")
      case True
      then have "load_contents io (Suc k) i s = load_contents io k (i + 1) s"
        using False by (auto simp: Let_def)
      then show ?thesis
        using Suc.IH [of s "i + 1"] Suc.prems unfolding w by simp
    next
      case full: False
      then have "length ?w = 0" "file_content_count s = 256"
        using Suc.prems(1) unfolding w by linarith+
      then show ?thesis
        unfolding w using Suc.prems(2) by (intro exI [of _ "file_contents s"]) simp
    qed
  qed
qed

section \<open>The save plan\<close>

text \<open>
  A state that can be saved and read back: every name survives loading, every file with a size has
  one slot of that size, and no two slots claim the same file.
\<close>

definition fs_synced :: "'d aur \<Rightarrow> bool" where
  "fs_synced s \<longleftrightarrow> fs_ok s \<and>
     (\<forall>i < fs_count s. clean_name (fe_name (fs_table s ! i))) \<and> (\<forall>i < user_count s. clean_user (user_table s ! i)) \<and>
     peek (current_dir s) = 0x2F \<and> peek (volume_label s) \<noteq> 0 \<and>
     distinct (map fc_idx (take (file_content_count s) (file_contents s))) \<and>
     (\<forall>k < file_content_count s. unat (fc_idx (file_contents s ! k)) < 512) \<and>
     (\<forall>i < fs_count s. 0 < fe_size (fs_table s ! i) \<and> fe_type (fs_table s ! i) = 0 \<longrightarrow>
        (\<exists>k < file_content_count s. unat (fc_idx (file_contents s ! k)) = i \<and> fc_size (file_contents s ! k) = fe_size (fs_table s ! i)))"

lemma fs_ok_nth:
  assumes "fs_ok s"
  shows "i < 512 \<Longrightarrow> length (fe_name (fs_table s ! i)) = 56" "i < 512 \<Longrightarrow> 0 \<in> set (fe_name (fs_table s ! i))"
    "i < 32 \<Longrightarrow> length (user_bytes (user_table s ! i)) = 64"
    "i < 256 \<Longrightarrow> length (fc_data (file_contents s ! i)) = 8192 \<and> unat (fc_size (file_contents s ! i)) \<le> 8192"
    "length (fs_table s) = 512" "length (user_table s) = 32" "length (file_contents s) = 256"
    "fs_count s \<le> 512" "user_count s \<le> 32" "file_content_count s \<le> 256" "length (cstr (current_dir s)) < 256"
proof -
  have sh: "fs_shape s" using assms by (simp add: fs_ok_def)
  then show l: "length (fs_table s) = 512" "length (user_table s) = 32" "length (file_contents s) = 256"
    "fs_count s \<le> 512" "user_count s \<le> 32" "file_content_count s \<le> 256"
    by (simp_all add: fs_shape_def)
  show "length (fe_name (fs_table s ! i)) = 56" "0 \<in> set (fe_name (fs_table s ! i))" if "i < 512"
    using assms sh that l(1) by (simp_all add: fs_shape_def fs_ok_def)
  show "length (user_bytes (user_table s ! i)) = 64" if "i < 32"
    using sh that l(2) by (simp add: fs_shape_def user_bytes_def)
  show "length (fc_data (file_contents s ! i)) = 8192 \<and> unat (fc_size (file_contents s ! i)) \<le> 8192" if "i < 256"
    using assms sh that l(3) by (simp add: fs_shape_def fs_ok_def)
  have "0 \<in> set (current_dir s)" "length (current_dir s) = 256"
    using assms sh by (simp_all add: fs_shape_def fs_ok_def)
  then show "length (cstr (current_dir s)) < 256"
    using cstr_short by metis
qed

lemma length_volume_bytes: "length (volume_bytes l n) = 20"
  by (simp add: volume_bytes_def Let_def)

lemma map_plus_upt: "n \<le> m \<Longrightarrow> map (\<lambda>s. b + s) [0..<n] @ map (\<lambda>s. b + s) [n..<m] = [b..<b + m]"
proof -
  assume "n \<le> m"
  then have "[0..<m] = [0..<n] @ [n..<m]"
    using upt_add_eq_append [of 0 n "m - n"] by simp
  then have "map (\<lambda>s. b + s) [0..<n] @ map (\<lambda>s. b + s) [n..<m] = map (\<lambda>s. s + b) [0..<m]"
    by (simp add: add.commute)
  then show ?thesis
    by (simp add: map_add_upt add.commute)
qed

lemma content_lbas:
  assumes "unat (fc_size c) \<le> 8192"
  shows "map (fst \<circ> snd) (content_writes c) = [1800 + unat (fc_idx c) * 16..<1800 + unat (fc_idx c) * 16 + 16]"
proof -
  let ?b = "1800 + unat (fc_idx c) * 16" and ?n = "sectors_needed (fc_size c)"
  have n: "?n \<le> 16"
    by (rule sectors_needed_eq) (rule assms)
  have "map (fst \<circ> snd) (content_writes c) = map (\<lambda>s. ?b + s) [0..<?n] @ map (\<lambda>s. ?b + s) [?n..<16]"
    unfolding content_writes_def Let_def min_absorb1 [OF n] by (simp only: map_append map_map comp_def fst_conv snd_conv)
  also have "\<dots> = [?b..<?b + 16]"
    by (rule map_plus_upt [OF n])
  finally show ?thesis .
qed

lemma distinct_content_lbas:
  assumes "distinct (map fc_idx cs)" and "\<forall>c \<in> set cs. unat (fc_size c) \<le> 8192"
  shows "distinct (map (fst \<circ> snd) (concat (map content_writes cs)))"
  using assms
proof (induction cs)
  case (Cons c cs)
  have "distinct (map (fst \<circ> snd) (content_writes c))"
    using content_lbas [of c] Cons.prems(2) by simp
  moreover have "set (map (fst \<circ> snd) (content_writes c)) \<inter> set (map (fst \<circ> snd) (content_writes c')) = {}"
    if "c' \<in> set cs" for c'
  proof -
    have "fc_idx c' \<noteq> fc_idx c"
      using Cons.prems(1) imageI [OF that, of fc_idx] by (simp only: list.map distinct.simps list.set_map) metis
    then have "unat (fc_idx c') \<noteq> unat (fc_idx c)"
      by (simp add: word_unat_eq_iff)
    then show ?thesis
      using content_lbas [of c] content_lbas [of c'] Cons.prems(2) that by auto
  qed
  then have "set (map (fst \<circ> snd) (content_writes c)) \<inter> set (map (fst \<circ> snd) (concat (map content_writes cs))) = {}"
    by fastforce
  moreover have "distinct (map (fst \<circ> snd) (concat (map content_writes cs)))"
    by (rule Cons.IH) (use Cons.prems in simp_all)
  ultimately show ?case
    unfolding list.map concat.simps map_append distinct_append by blast
qed simp

lemma content_lbas_range:
  assumes "w \<in> set (concat (map content_writes cs))" and "\<forall>c \<in> set cs. unat (fc_size c) \<le> 8192"
  shows "1800 \<le> fst (snd w)"
proof -
  obtain c where c: "c \<in> set cs" "w \<in> set (content_writes c)"
    using assms(1) by auto
  then have "fst (snd w) \<in> set (map (fst \<circ> snd) (content_writes c))"
    by auto
  then show ?thesis
    using content_lbas [of c] assms(2) c(1) by auto
qed

lemma distinct_regions:
  assumes "a < b" and "b < c" and "distinct xs" and "\<forall>x \<in> set xs. e \<le> x" and "c \<le> d" and "d \<le> e"
  shows "distinct ([a, b] @ [c..<d] @ [d..<e] @ (xs :: nat list))"
  using assms by (fastforce simp: disjoint_iff)

lemma plan_distinct:
  assumes "fs_ok s" and "distinct (map fc_idx (take (file_content_count s) (file_contents s)))"
  shows "distinct (map (fst \<circ> snd) (save_plan s))"
proof -
  note ok = fs_ok_nth [OF assms(1)]
  define cs where "cs = take (file_content_count s) (file_contents s)"
  have small: "\<forall>c \<in> set cs. unat (fc_size c) \<le> 8192"
    using assms(1) by (auto simp: cs_def fs_ok_def dest: in_set_takeD)
  have tables: "map (fst \<circ> snd) (save_plan s) = [499, 998] @ [1000..<1512] @ [1512..<1544] @ map (fst \<circ> snd) (concat (map content_writes cs))"
  proof -
    have "map (\<lambda>i. 1000 + i) [0..<fs_count s] @ map (\<lambda>i. 1000 + i) [fs_count s..<512] = [1000..<1000 + 512]"
      by (rule map_plus_upt [OF ok(8)])
    moreover have "map (\<lambda>i. 1512 + i) [0..<user_count s] @ map (\<lambda>i. 1512 + i) [user_count s..<32] = [1512..<1512 + 32]"
      by (rule map_plus_upt [OF ok(9)])
    moreover have "map (fst \<circ> snd) (save_plan s) = [499, 998]
        @ (map (\<lambda>i. 1000 + i) [0..<fs_count s] @ map (\<lambda>i. 1000 + i) [fs_count s..<512])
        @ (map (\<lambda>i. 1512 + i) [0..<user_count s] @ map (\<lambda>i. 1512 + i) [user_count s..<32])
        @ map (fst \<circ> snd) (concat (map content_writes cs))"
      unfolding save_plan_def min_absorb1 [OF ok(8)] min_absorb1 [OF ok(9)] cs_def
      by (simp only: map_append map_map comp_def fst_conv snd_conv list.map append_assoc append_Cons append_Nil)
    moreover have "1000 + 512 = (1512 :: nat)" "1512 + 32 = (1544 :: nat)"
      by simp_all
    ultimately show ?thesis
      by (simp only:)
  qed
  have d: "distinct (map (fst \<circ> snd) (concat (map content_writes cs)))"
    by (rule distinct_content_lbas [OF _ small]) (use assms(2) in \<open>simp add: cs_def\<close>)
  have "\<forall>x \<in> set (map (fst \<circ> snd) (concat (map content_writes cs))). 1800 \<le> x"
    using content_lbas_range [OF _ small] by (auto simp del: set_concat)
  with d show ?thesis
    unfolding tables by (intro distinct_regions) (auto simp del: set_concat)
qed

lemma sector_lengths:
  assumes "fs_ok s"
  shows "\<forall>w \<in> set (save_plan s). length (snd (snd w)) = 512"
proof -
  note ok = fs_ok_nth [OF assms]
  have "length (entry_bytes (fs_table s ! i)) = 64" if "i < 512" for i
    using ok(1) [OF that] by (simp add: entry_bytes_def)
  moreover have "length (snd (snd w)) = 512" if "w \<in> set (content_writes c)" for w c
    using that by (auto simp: content_writes_def Let_def)
  ultimately show ?thesis
    unfolding save_plan_def using ok(3,8,9,11)
    by (auto simp: length_volume_bytes)
qed

text \<open>What a later boot reads.\<close>

lemma saved_reads:
  assumes "good_disk io" and "fs_synced s" and "D = disk (snd (fs_save_to_disk io s))"
  shows "disk_read_lba io D 499 = Some (sector (cstr (current_dir s)))"
    "disk_read_lba io D 998 = Some (sector (volume_bytes (volume_label s) (volume_serial s)))"
    "i < fs_count s \<Longrightarrow> disk_read_lba io D (1000 + i) = Some (sector (entry_bytes (fs_table s ! i)))"
    "fs_count s \<le> i \<Longrightarrow> i < 512 \<Longrightarrow> disk_read_lba io D (1000 + i) = Some (sector [])"
    "j < user_count s \<Longrightarrow> disk_read_lba io D (1512 + j) = Some (sector (user_bytes (user_table s ! j)))"
    "user_count s \<le> j \<Longrightarrow> j < 32 \<Longrightarrow> disk_read_lba io D (1512 + j) = Some (sector [])"
    "k < file_content_count s \<Longrightarrow> c = file_contents s ! k \<Longrightarrow> n < sectors_needed (fc_size c) \<Longrightarrow>
      disk_read_lba io D (1800 + unat (fc_idx c) * 16 + n) = Some (sector (chunk (unat (fc_size c)) (fc_data c) n))"
    "fst (fs_save_to_disk io s) = 0"
proof -
  have ok: "fs_ok s" and dist: "distinct (map fc_idx (take (file_content_count s) (file_contents s)))"
    using assms(2) by (simp_all add: fs_synced_def)
  note nth = fs_ok_nth [OF ok]
  have D: "D = snd (write_all io (save_plan s) (disk s))"
    by (simp add: assms(3) fs_save_to_disk_def split: prod.splits)
  have read: "disk_read_lba io D lba = Some sec" if "(m, lba, sec) \<in> set (save_plan s)" for m lba sec
    unfolding D by (rule read_written [OF assms(1) sector_lengths [OF ok] plan_distinct [OF ok dist] that])
  show "disk_read_lba io D 499 = Some (sector (cstr (current_dir s)))"
    by (rule read [of True]) (simp add: save_plan_def)
  show "disk_read_lba io D 998 = Some (sector (volume_bytes (volume_label s) (volume_serial s)))"
    by (rule read [of False]) (simp add: save_plan_def)
  show "disk_read_lba io D (1000 + i) = Some (sector (entry_bytes (fs_table s ! i)))" if "i < fs_count s"
    by (rule read [of True]) (use that nth(8) in \<open>auto simp: save_plan_def\<close>)
  show "disk_read_lba io D (1000 + i) = Some (sector [])" if "fs_count s \<le> i" "i < 512"
    by (rule read [of False]) (use that in \<open>auto simp: save_plan_def\<close>)
  show "disk_read_lba io D (1512 + j) = Some (sector (user_bytes (user_table s ! j)))" if "j < user_count s"
    by (rule read [of True]) (use that nth(9) in \<open>auto simp: save_plan_def\<close>)
  show "disk_read_lba io D (1512 + j) = Some (sector [])" if "user_count s \<le> j" "j < 32"
    by (rule read [of False]) (use that in \<open>auto simp: save_plan_def\<close>)
  show "disk_read_lba io D (1800 + unat (fc_idx c) * 16 + n) = Some (sector (chunk (unat (fc_size c)) (fc_data c) n))"
    if "k < file_content_count s" "c = file_contents s ! k" "n < sectors_needed (fc_size c)"
  proof (rule read [of True])
    have "unat (fc_size c) \<le> 8192"
      using nth(4) [of k] nth(10) that by simp
    then have "n < min (sectors_needed (fc_size c)) 16"
      using that(3) sectors_needed_eq(2) by fastforce
    then have "(True, 1800 + unat (fc_idx c) * 16 + n, sector (chunk (unat (fc_size c)) (fc_data c) n)) \<in> set (content_writes c)"
      unfolding content_writes_def Let_def chunk_def by auto
    moreover have "c \<in> set (take (file_content_count s) (file_contents s))"
      using that nth(7,10) by (auto simp: in_set_conv_nth)
    ultimately show "(True, 1800 + unat (fc_idx c) * 16 + n, sector (chunk (unat (fc_size c)) (fc_data c) n)) \<in> set (save_plan s)"
      unfolding save_plan_def by auto
  qed
  show "fst (fs_save_to_disk io s) = 0"
    using write_all_good [OF assms(1) sector_lengths [OF ok], of "disk s"]
    by (cases "write_all io (save_plan s) (disk s)") (simp add: fs_save_to_disk_def)
qed

section \<open>A reboot\<close>

lemma boot_fields:
  "length (fs_table (boot_aur d)) = 512" "length (user_table (boot_aur d)) = 32" "length (file_contents (boot_aur d)) = 256"
  "disk (boot_aur d) = d" "volume_label (boot_aur d) = lit ''SYSTEM'' @ replicate 7 0"
  "current_dir (boot_aur d) = 0x2F # replicate 255 0" "i < 512 \<Longrightarrow> fe_reserved (fs_table (boot_aur d) ! i) = 0"
proof -
  show "length (fs_table (boot_aur d)) = 512" "length (user_table (boot_aur d)) = 32" "length (file_contents (boot_aur d)) = 256"
    by (simp_all only: boot_aur_def aur.simps length_replicate)
  show "fe_reserved (fs_table (boot_aur d) ! i) = 0" if "i < 512"
    using that by (simp only: boot_aur_def aur.simps nth_replicate fs_entry.simps)
  show "disk (boot_aur d) = d" "volume_label (boot_aur d) = lit ''SYSTEM'' @ replicate 7 0"
    by (simp_all only: boot_aur_def aur.simps)
  show "current_dir (boot_aur d) = 0x2F # replicate 255 0"
    unfolding boot_aur_def aur.simps by (simp add: lit_def of_char_def)
qed

lemma cstr_zeros: "nul_free n \<Longrightarrow> cstr (n @ replicate k 0) = n"
  by (cases k) (simp_all add: cstr_append_nul)

lemma cstr_replicate_0 [simp]: "cstr (replicate k 0) = []"
  using cstr_zeros [of "[]"] by simp

lemma zeros_update: "(n @ replicate k (0 :: u8))[length n + i := 0] = n @ replicate k 0"
  by (cases "i < k") (simp_all add: list_update_append list_update_same_conv list_update_beyond)

lemma reboot_curdir:
  assumes "disk_read_lba io D 499 = Some (sector n)" and "nul_free n" and "peek n = 0x2F" and "length n < 256"
  shows "\<exists>cd. load_curdir io (boot_aur D) = (boot_aur D)\<lparr>current_dir := cd\<rparr> \<and> cstr cd = n"
proof -
  obtain k where k: "length n = Suc k"
    using assms(3) by (cases n) auto
  have "take 256 (sector n) = n @ replicate (256 - length n) 0"
    using assms(4) by (simp add: sector_def)
  then have c: "cstr (take 256 (sector n)) = n"
    using assms(2) by (simp add: cstr_zeros)
  define z :: bytes where "z = replicate 255 0"
  have "drop (length n) (0x2F # z) = replicate (255 - k) 0"
    by (simp add: k z_def)
  then have "(n @ drop (length n) (0x2F # z))[255 := 0] = n @ replicate (255 - k) 0"
    using zeros_update [of n "255 - k" "255 - length n"] assms(4) by simp
  then have "load_curdir io (boot_aur D) = (boot_aur D)\<lparr>current_dir := n @ replicate (255 - k) 0\<rparr>"
    unfolding load_curdir_def boot_fields z_def [symmetric] assms(1)
    by (simp add: peek_sector assms(3) c Let_def)
  then show ?thesis
    using assms(2) by (intro exI conjI) (auto simp: cstr_zeros)
qed

lemma reboot_volume:
  assumes "disk_read_lba io (disk b) 998 = Some (sector (volume_bytes label serial))" and "peek label \<noteq> 0"
  shows "\<exists>vl. load_volume io ticks b = Some (b\<lparr>volume_label := vl, volume_serial := serial\<rparr>) \<and> cstr vl = take 12 (cstr label)"
proof -
  define l where "l = take 12 (cstr label)"
  obtain j where j: "16 - length l = Suc j"
    by (cases "16 - length l") (auto simp: l_def)
  have nf: "nul_free l" and len: "length l \<le> 12"
    by (auto simp: l_def)
  define r :: bytes where "r = replicate (512 - length (volume_bytes label serial)) 0"
  have s: "sector (volume_bytes label serial) = (l @ replicate (16 - length l) 0) @ put32le serial @ r"
    unfolding sector_def r_def [symmetric] by (simp add: volume_bytes_def l_def [symmetric] Let_def)
  have "length (l @ replicate (16 - length l) (0 :: u8)) = 16"
    using len by simp
  then have "rd32le (sector (volume_bytes label serial)) 16 = Some serial"
    unfolding s using rd32le_put [of "l @ replicate (16 - length l) 0" serial r] by simp
  moreover have "cstr (sector (volume_bytes label serial)) = l"
    unfolding s j using nf by (simp add: cstr_append_nul)
  moreover have "peek (sector (volume_bytes label serial)) \<noteq> 0"
    unfolding s using assms(2) by (cases label) (simp_all add: l_def)
  ultimately have "load_volume io ticks b =
      Some (b\<lparr>volume_label := str_copy (volume_label b) (sector (volume_bytes label serial)) 13, volume_serial := serial\<rparr>)"
    by (simp add: load_volume_def assms(1))
  moreover have "cstr (str_copy (volume_label b) (sector (volume_bytes label serial)) 13) = l"
    using \<open>cstr (sector (volume_bytes label serial)) = l\<close> len by simp
  ultimately show ?thesis
    by (auto simp: l_def)
qed

lemma slot_ofD: "slot_of s i = Some k \<Longrightarrow> k < file_content_count s \<and> unat (fc_idx (file_contents s ! k)) = i"
  by (auto simp: slot_of_def find_Some_iff)

lemma slot_of_some: "k < file_content_count s \<Longrightarrow> unat (fc_idx (file_contents s ! k)) = i \<Longrightarrow> \<exists>k'. slot_of s i = Some k'"
  by (cases "slot_of s i") (auto simp: slot_of_def find_None_iff)

lemma synced_slot:
  assumes "fs_synced s" and "i < fs_count s" and "0 < fe_size (fs_table s ! i)" and "fe_type (fs_table s ! i) = 0"
  obtains k where "slot_of s i = Some k" "k < file_content_count s" "unat (fc_idx (file_contents s ! k)) = i"
    "fc_size (file_contents s ! k) = fe_size (fs_table s ! i)"
proof -
  obtain k where k: "k < file_content_count s" "unat (fc_idx (file_contents s ! k)) = i" "fc_size (file_contents s ! k) = fe_size (fs_table s ! i)"
    using assms unfolding fs_synced_def by blast
  obtain k' where k': "slot_of s i = Some k'"
    using slot_of_some [OF k(1,2)] by blast
  note d = slot_ofD [OF k']
  have "fs_ok s" "distinct (map fc_idx (take (file_content_count s) (file_contents s)))"
    using assms(1) by (simp_all add: fs_synced_def)
  moreover have "fc_idx (file_contents s ! k) = fc_idx (file_contents s ! k')"
    using k d by (simp add: word_unat_eq_iff)
  ultimately have "k = k'"
    using k(1) d fs_ok_nth(7,10) [of s] by (auto simp: distinct_conv_nth)
  with k k' that show thesis by blast
qed

lemma few_contents:
  assumes "fs_synced s"
  shows "length (with_content (fs_table s) 0 (fs_count s)) \<le> file_content_count s"
proof -
  let ?w = "with_content (fs_table s) 0 (fs_count s)" and ?f = "\<lambda>k. unat (fc_idx (file_contents s ! k))"
  have "set ?w \<subseteq> ?f ` {..<file_content_count s}"
  proof
    fix i assume "i \<in> set ?w"
    then have "i < fs_count s" "0 < fe_size (fs_table s ! i)" "fe_type (fs_table s ! i) = 0"
      by (auto simp: with_content_def)
    from synced_slot [OF assms this] show "i \<in> ?f ` {..<file_content_count s}"
      by blast
  qed
  then have "card (set ?w) \<le> card (?f ` {..<file_content_count s})"
    by (intro card_mono) auto
  also have "\<dots> \<le> file_content_count s"
    using card_image_le [of "{..<file_content_count s}" ?f] by simp
  finally have "card (set ?w) \<le> file_content_count s" .
  moreover have "distinct ?w"
    by (simp add: with_content_def)
  ultimately show ?thesis
    using distinct_card by fastforce
qed

lemma loaded_content:
  assumes "good_disk io" and "fs_synced s" and "D = disk (snd (fs_save_to_disk io s))"
    and "i < fs_count s" and "0 < fe_size (fs_table s ! i)" and "fe_type (fs_table s ! i) = 0"
  shows "stored s i = Some (take (unat (fe_size (fs_table s ! i))) (fc_data (load_content io D i (fe_size (fs_table s ! i)))))"
proof -
  obtain k where k: "slot_of s i = Some k" "k < file_content_count s" "unat (fc_idx (file_contents s ! k)) = i"
      "fc_size (file_contents s ! k) = fe_size (fs_table s ! i)"
    using synced_slot [OF assms(2,4-6)] .
  define sz where "sz = fe_size (fs_table s ! i)"
  define data where "data = fc_data (file_contents s ! k)"
  have ok: "fs_ok s"
    using assms(2) by (simp add: fs_synced_def)
  then have "k < 256"
    using k(2) fs_ok_nth(10) by fastforce
  with fs_ok_nth(4) [OF ok] have len: "length data = 8192" "unat sz \<le> 8192"
    unfolding data_def sz_def k(4) [symmetric] by blast+
  note sn = sectors_needed_eq [OF len(2)]
  define z :: bytes where "z = replicate 8192 0"
  have "load_chunks io D sz (sectors_needed sz) (1800 + i * 16 + 0) 0 (take 0 data @ drop 0 z) = take (unat sz) data @ drop (unat sz) z"
  proof (rule load_chunks_saved)
    show "\<forall>j < sectors_needed sz. disk_read_lba io D (1800 + i * 16 + j) = Some (sector (chunk (unat sz) data j))"
      using saved_reads(7) [OF assms(1-3) k(2) refl] k(3,4) by (auto simp: sz_def data_def)
  qed (use len sn in \<open>simp_all add: z_def mult.commute\<close>)
  then have "fc_data (load_content io D i sz) = take (unat sz) data @ drop (unat sz) z"
    by (simp add: load_content_def min_absorb1 [OF sn(2)] z_def [symmetric])
  then show ?thesis
    using k(1,4) len by (simp add: stored_def sz_def [symmetric] data_def [symmetric])
qed

lemma load_contents_stored:
  assumes "good_disk io" and "fs_synced s" and "D = disk (snd (fs_save_to_disk io s))"
    and "file_content_count u = 0" and "length (file_contents u) = 256" and "disk u = D" and "fs_count u = fs_count s"
    and "\<forall>i < fs_count s. fs_table u ! i = (fs_table s ! i)\<lparr>fe_reserved := 0\<rparr>"
  shows "\<exists>F m. load_contents io (fs_count s) 0 u = u\<lparr>file_contents := F, file_content_count := m\<rparr> \<and>
    (\<forall>i < fs_count s. 0 < fe_size (fs_table s ! i) \<and> fe_type (fs_table s ! i) = 0 \<longrightarrow>
       stored (u\<lparr>file_contents := F, file_content_count := m\<rparr>) i = stored s i)"
proof -
  let ?w = "with_content (fs_table s) 0 (fs_count s)"
  have w: "with_content (fs_table u) 0 (fs_count s) = ?w"
    using assms(8) by (auto simp: with_content_def intro!: filter_cong)
  have n: "fs_count s \<le> 512"
    using assms(2) fs_ok_nth(8) [of s] by (simp add: fs_synced_def)
  have "length ?w \<le> 256"
    using few_contents [OF assms(2)] assms(2) fs_ok_nth(10) [of s] by (simp add: fs_synced_def)
  with load_contents_eq [of u 0 "fs_count s" io] obtain F where F:
      "load_contents io (fs_count s) 0 u = u\<lparr>file_contents := F, file_content_count := length ?w\<rparr>"
      "\<forall>j < length ?w. F ! j = load_content io D (?w ! j) (fe_size (fs_table u ! (?w ! j)))"
    unfolding w assms(4,6) using assms(5) by auto
  define t where "t = u\<lparr>file_contents := F, file_content_count := length ?w\<rparr>"
  have "stored t i = stored s i"
    if i: "i < fs_count s" "0 < fe_size (fs_table s ! i)" "fe_type (fs_table s ! i) = 0" for i
  proof -
    have "i \<in> set ?w"
      using i by (auto simp: with_content_def)
    then obtain j where j: "j < length ?w" "?w ! j = i"
      by (auto simp: in_set_conv_nth)
    have idx: "unat (fc_idx (F ! k)) = ?w ! k" if "k < length ?w" for k
    proof -
      have "?w ! k \<in> set ?w"
        using that by simp
      then have "?w ! k < 512"
        using n by (auto simp: with_content_def)
      then show ?thesis
        using F(2) that by (simp add: load_content_def unat_of_nat)
    qed
    obtain k where k: "slot_of t i = Some k"
      using slot_of_some [of j t i] j idx by (auto simp: t_def)
    then have "k < length ?w" "?w ! k = i"
      using slot_ofD [OF k] idx by (auto simp: t_def)
    then have "F ! k = load_content io D i (fe_size (fs_table s ! i))"
      using F(2) assms(8) i(1) by auto
    moreover have "stored t i = Some (take (unat (fc_size (F ! k))) (fc_data (F ! k)))"
      using k by (simp add: stored_def t_def)
    moreover have "fc_size (load_content io D i sz) = sz" for sz
      by (simp add: load_content_def)
    ultimately show ?thesis
      using loaded_content [OF assms(1-3) i] by simp
  qed
  then show ?thesis
    using F(1) unfolding t_def by blast
qed

lemma reboot:
  assumes "good_disk io" and "fs_synced s" and "D = disk (snd (fs_save_to_disk io s))"
  shows "\<exists>t. fs_load_from_disk io ticks (boot_aur D) = Some t \<and> fs_count t = fs_count s \<and>
    (\<forall>i < fs_count s. fs_table t ! i = (fs_table s ! i)\<lparr>fe_reserved := 0\<rparr>) \<and>
    user_count t = user_count s \<and> (\<forall>i < user_count s. user_table t ! i = user_table s ! i) \<and>
    (\<forall>i < fs_count s. 0 < fe_size (fs_table s ! i) \<and> fe_type (fs_table s ! i) = 0 \<longrightarrow> stored t i = stored s i) \<and>
    cstr (current_dir t) = cstr (current_dir s) \<and> cstr (volume_label t) = take 12 (cstr (volume_label s)) \<and>
    volume_serial t = volume_serial s"
proof -
  note r = saved_reads [OF assms] and ok = fs_ok_nth [of s]
  have s: "fs_ok s" "peek (cstr (current_dir s)) = 0x2F" "peek (volume_label s) \<noteq> 0"
      "\<forall>i < fs_count s. clean_name (fe_name (fs_table s ! i))" "\<forall>i < user_count s. clean_user (user_table s ! i)"
    using assms(2) by (auto simp: fs_synced_def cstr_unfold [of "current_dir s"])
  note ok = fs_ok_nth [OF s(1)]
  let ?b = "boot_aur D"
  obtain cd where cd: "load_curdir io ?b = ?b\<lparr>current_dir := cd\<rparr>" "cstr cd = cstr (current_dir s)"
    using reboot_curdir [OF r(1) _ s(2) ok(11)] by auto
  let ?b1 = "?b\<lparr>current_dir := cd\<rparr>"
  obtain vl where vl: "load_volume io ticks ?b1 = Some (?b1\<lparr>volume_label := vl, volume_serial := volume_serial s\<rparr>)"
      "cstr vl = take 12 (cstr (volume_label s))"
    using reboot_volume [of io ?b1 "volume_label s" "volume_serial s" ticks] r(2) s(3) by (auto simp: boot_fields)
  define b2 where "b2 = ?b1\<lparr>volume_label := vl, volume_serial := volume_serial s, fs_count := 0\<rparr>"
  have b2: "disk b2 = D" "length (fs_table b2) = 512" "fs_count b2 = 0" "length (user_table b2) = 32" "length (file_contents b2) = 256"
      "\<forall>i < 512. fe_reserved (fs_table b2 ! i) = 0"
    by (simp_all add: b2_def boot_fields)
  have "\<exists>T. load_table io 512 0 b2 = Some (b2\<lparr>fs_table := T, fs_count := fs_count s\<rparr>) \<and> length T = 512 \<and>
    (\<forall>j < 0. T ! j = fs_table b2 ! j) \<and>
    (\<forall>j < fs_count s. 0 \<le> j \<longrightarrow> T ! j = (fs_table s ! j)\<lparr>fe_reserved := fe_reserved (fs_table b2 ! j)\<rparr>)"
    by (rule load_table_saved) (use r(3,4) s(4) ok(8) b2 in simp_all)
  then obtain T where T: "load_table io 512 0 b2 = Some (b2\<lparr>fs_table := T, fs_count := fs_count s\<rparr>)"
      "\<forall>j < fs_count s. T ! j = (fs_table s ! j)\<lparr>fe_reserved := 0\<rparr>"
    using b2(6) ok(8) by auto
  define b3 where "b3 = b2\<lparr>fs_table := T, fs_count := fs_count s, user_count := 0\<rparr>"
  have "\<exists>U. load_users io 32 0 b3 = Some (b3\<lparr>user_table := U, user_count := user_count s\<rparr>) \<and> length U = 32 \<and>
    (\<forall>j < 0. U ! j = user_table b3 ! j) \<and> (\<forall>j < user_count s. 0 \<le> j \<longrightarrow> U ! j = user_table s ! j)"
    by (rule load_users_saved) (use r(5,6) s(5) ok(9) b2 in \<open>simp_all add: b3_def\<close>)
  then obtain U where U: "load_users io 32 0 b3 = Some (b3\<lparr>user_table := U, user_count := user_count s\<rparr>)"
      "\<forall>j < user_count s. U ! j = user_table s ! j"
    by auto
  define b4 where "b4 = b3\<lparr>user_table := U, user_count := user_count s, file_content_count := 0\<rparr>"
  obtain F m where F: "load_contents io (fs_count s) 0 b4 = b4\<lparr>file_contents := F, file_content_count := m\<rparr>"
    "\<forall>i < fs_count s. 0 < fe_size (fs_table s ! i) \<and> fe_type (fs_table s ! i) = 0 \<longrightarrow>
       stored (b4\<lparr>file_contents := F, file_content_count := m\<rparr>) i = stored s i"
    using load_contents_stored [OF assms, of b4] b2 T(2) by (auto simp: b4_def b3_def)
  have "fs_load_from_disk io ticks ?b = Some (b4\<lparr>file_contents := F, file_content_count := m\<rparr>)"
    unfolding fs_load_from_disk_def cd(1) vl(1) Option.bind.simps b2_def [symmetric] T(1) b3_def [symmetric]
    using T(1) U(1) F(1) by (simp add: b3_def b4_def)
  then show ?thesis
    using F(2) T(2) U(2) cd(2) vl(2) by (intro exI conjI) (assumption | simp add: b4_def b3_def b2_def)+
qed

text \<open>
  C6: Saving and booting again loses nothing: on a disk that keeps what is written,
  \<open>fs_save_to_disk\<close> of a well-formed file system succeeds, and \<open>fs_load_from_disk\<close> on the
  freshly initialised kernel over that disk brings back every entry (but its \<open>reserved\<close> field,
  which is not saved), every user, the bytes of every file, the current directory, and the volume's
  serial number and label.
\<close>

theorem fs_reboot:
  assumes "good_disk io" and "fs_synced s"
  shows "\<exists>s' t. fs_save_to_disk io s = (0, s') \<and> fs_load_from_disk io ticks (boot_aur (disk s')) = Some t \<and>
    fs_count t = fs_count s \<and> (\<forall>i < fs_count s. fs_table t ! i = (fs_table s ! i)\<lparr>fe_reserved := 0\<rparr>) \<and>
    user_count t = user_count s \<and> (\<forall>i < user_count s. user_table t ! i = user_table s ! i) \<and>
    (\<forall>i < fs_count s. 0 < fe_size (fs_table s ! i) \<and> fe_type (fs_table s ! i) = 0 \<longrightarrow> stored t i = stored s i) \<and>
    cstr (current_dir t) = cstr (current_dir s) \<and> cstr (volume_label t) = take 12 (cstr (volume_label s)) \<and>
    volume_serial t = volume_serial s"
proof -
  obtain s' where "fs_save_to_disk io s = (0, s')"
    using saved_reads(8) [OF assms refl] by (cases "fs_save_to_disk io s") simp
  moreover from this have "disk s' = disk (snd (fs_save_to_disk io s))"
    by simp
  ultimately show ?thesis
    using reboot [OF assms] by metis
qed

section \<open>A small disk\<close>

text \<open>A disk of sectors in memory, and a file system with one file, one directory and one user.\<close>

definition ram_disk :: "(nat \<Rightarrow> bytes) disk_io" where
  "ram_disk = \<lparr>disk_write_lba = \<lambda>d lba sec. (True, d(lba := sec)), disk_read_lba = \<lambda>d lba. Some (d lba)\<rparr>"

lemma ram_disk_good: "good_disk ram_disk"
  by (simp add: good_disk_def ram_disk_def fun_eq_iff)

lemma boot_aur_ok: "fs_ok (boot_aur d)"
  by (simp add: fs_ok_def fs_shape_def boot_aur_def)

definition blank_disk :: "nat \<Rightarrow> bytes" where
  "blank_disk = (\<lambda>_. replicate 512 0)"

definition sample_entry :: "string \<Rightarrow> u32 \<Rightarrow> u8 \<Rightarrow> fs_entry" where
  "sample_entry name sz ty = \<lparr>fe_name = lit name @ replicate (56 - length name) 0, fe_size = sz, fe_type = ty,
     fe_attr = 0x20, fe_parent = 0xFFFF, fe_reserved = 0\<rparr>"

definition sample_fs :: "(nat \<Rightarrow> bytes) aur" where
  "sample_fs = (let b = boot_aur blank_disk in
     b\<lparr>fs_table := (fs_table b)[0 := sample_entry ''/Music'' 0 1, 1 := sample_entry ''/notes'' 2 0], fs_count := 2,
       user_table := (user_table b)[0 := \<lparr>ue_name = lit ''root'' @ replicate 28 0, ue_hash = replicate 32 7\<rparr>], user_count := 1,
       file_contents := (file_contents b)[0 := \<lparr>fc_idx = 1, fc_size = 2, fc_data = [104, 105] @ replicate 8190 0\<rparr>],
       file_content_count := 1\<rparr>)"

lemma all_update: "\<forall>x \<in> set xs. P x \<Longrightarrow> P y \<Longrightarrow> \<forall>x \<in> set (xs[i := y]). P x"
  using set_update_subset_insert [of xs i y] by auto

lemma sample_entry_clean:
  assumes "name = ''/Music'' \<or> name = ''/notes''"
  shows "clean_name (fe_name (sample_entry name sz ty))" "length (fe_name (sample_entry name sz ty)) = 56"
    "0 \<in> set (fe_name (sample_entry name sz ty))"
  using assms by (auto simp: sample_entry_def clean_name_def str_len_def lit_def of_char_def cstr_zeros)

lemma sample_fields:
  "fs_count sample_fs = 2" "user_count sample_fs = 1" "file_content_count sample_fs = 1"
  "fs_table sample_fs = (fs_table (boot_aur blank_disk))[0 := sample_entry ''/Music'' 0 1, 1 := sample_entry ''/notes'' 2 0]"
  "user_table sample_fs = (user_table (boot_aur blank_disk))[0 := \<lparr>ue_name = lit ''root'' @ replicate 28 0, ue_hash = replicate 32 7\<rparr>]"
  "file_contents sample_fs = (file_contents (boot_aur blank_disk))[0 := \<lparr>fc_idx = 1, fc_size = 2, fc_data = [104, 105] @ replicate 8190 0\<rparr>]"
  "current_dir sample_fs = current_dir (boot_aur blank_disk)" "current_user sample_fs = current_user (boot_aur blank_disk)"
  "volume_label sample_fs = volume_label (boot_aur blank_disk)"
  by (simp_all add: sample_fs_def Let_def)

lemma sample_ok: "fs_ok sample_fs"
proof -
  define b where "b = boot_aur blank_disk"
  have b: "fs_ok b" "length (fs_table b) = 512" "length (user_table b) = 32" "length (file_contents b) = 256"
    by (simp_all add: b_def boot_aur_ok boot_fields)
  note ok = b(1) [unfolded fs_ok_def fs_shape_def]
  have "\<forall>e \<in> set (fs_table sample_fs). length (fe_name e) = 56 \<and> 0 \<in> set (fe_name e)"
    unfolding sample_fields b_def [symmetric] using ok sample_entry_clean by (intro all_update) auto
  moreover have "\<forall>u \<in> set (user_table sample_fs). length (ue_name u) = 32 \<and> length (ue_hash u) = 32 \<and> 0 \<in> set (ue_name u)"
    unfolding sample_fields b_def [symmetric] using ok by (intro all_update) auto
  moreover have "\<forall>c \<in> set (file_contents sample_fs). length (fc_data c) = 8192 \<and> unat (fc_size c) \<le> 8192"
    unfolding sample_fields b_def [symmetric] using ok by (intro all_update) auto
  ultimately show ?thesis
    using ok b(2-4) unfolding fs_ok_def fs_shape_def sample_fields b_def [symmetric] by auto
qed

lemma sample_synced: "fs_synced sample_fs"
proof -
  have T: "fs_table sample_fs ! 0 = sample_entry ''/Music'' 0 1" "fs_table sample_fs ! 1 = sample_entry ''/notes'' 2 0"
      "user_table sample_fs ! 0 = \<lparr>ue_name = lit ''root'' @ replicate 28 0, ue_hash = replicate 32 7\<rparr>"
      "file_contents sample_fs ! 0 = \<lparr>fc_idx = 1, fc_size = 2, fc_data = [104, 105] @ replicate 8190 0\<rparr>"
    by (simp_all add: sample_fields boot_fields)
  have two: "i < 2 \<Longrightarrow> i = 0 \<or> i = 1" for i :: nat
    by auto
  have "clean_user (user_table sample_fs ! 0)"
    unfolding T by (simp add: clean_user_def of_char_def)
  moreover have "clean_name (fe_name (fs_table sample_fs ! i))" if "i < 2" for i
    using two [OF that] T sample_entry_clean by auto
  moreover have "peek (current_dir sample_fs) = 0x2F" "peek (volume_label sample_fs) \<noteq> 0"
    unfolding sample_fields boot_fields by (simp_all add: of_char_def)
  moreover have "fe_size (fs_table sample_fs ! 0) = 0" "fe_size (fs_table sample_fs ! 1) = 2"
    unfolding T by (simp_all add: sample_entry_def)
  moreover have "fc_idx (file_contents sample_fs ! 0) = 1" "fc_size (file_contents sample_fs ! 0) = 2"
    unfolding T by simp_all
  moreover have "distinct (map fc_idx (take 1 (file_contents sample_fs)))"
    by (cases "file_contents sample_fs") simp_all
  ultimately show ?thesis
    unfolding fs_synced_def sample_fields(1-3) using sample_ok
    by (auto dest!: two)
qed

theorem fs_reboot_witness:
  "\<exists>s' t. fs_save_to_disk ram_disk sample_fs = (0, s') \<and> fs_load_from_disk ram_disk 0 (boot_aur (disk s')) = Some t \<and>
    fs_count t = 2 \<and> stored t 1 = stored sample_fs 1"
proof -
  have "0 < fe_size (fs_table sample_fs ! 1) \<and> fe_type (fs_table sample_fs ! 1) = 0"
    by (simp add: sample_fields boot_fields sample_entry_def)
  then show ?thesis
    using fs_reboot [OF ram_disk_good sample_synced, of 0] sample_fields(1) by (metis one_less_numeral_iff semiring_norm(76))
qed

end
