(* ===== verification/FsOps.thy ===== *)
theory FsOps
  imports FsReboot
begin

text \<open>
  AurionFS, second half: the operations of \<open>src/src/commands.c\<close> on files, directories and the
  current directory. Every operation that changes a table saves it to the disk and ignores the
  result. A pair is the C return value with the new state; \<open>None\<close> is an access outside a buffer.
  The messages a command prints are left out, but for \<open>cmd_cat\<close>, whose output is its result.
\<close>

section \<open>Paths and lookup\<close>

definition drive_letter :: "bytes \<Rightarrow> bool" where
  "drive_letter n \<longleftrightarrow> 3 \<le> length n \<and> n ! 1 = 0x3A \<and> (n ! 2 = 0x5C \<or> n ! 2 = 0x2F)"

definition skip_drive :: "bytes \<Rightarrow> bytes" where
  "skip_drive name = (let n = cstr name in if drive_letter n then drop 2 n else n)"

text \<open>A relative path is appended to the current directory in a buffer of 256 bytes.\<close>

definition build_full_path :: "bytes \<Rightarrow> bytes \<Rightarrow> bytes option" where
  "build_full_path cd name =
     (let n = cstr name; c = cstr cd
      in if peek n = 0x2F then Some (map slash (take 255 n))
         else if length c + length n < 256 then Some (map slash (c @ n)) else None)"

definition full_path :: "'d aur \<Rightarrow> bytes \<Rightarrow> bytes option" where
  "full_path s name = build_full_path (current_dir s) (skip_drive name)"

definition same_name :: "'d aur \<Rightarrow> nat \<Rightarrow> bytes \<Rightarrow> bool" where
  "same_name s i path \<longleftrightarrow> str_cmp (fe_name (fs_table s ! i)) path = 0"

definition fs_find :: "'d aur \<Rightarrow> bytes \<Rightarrow> nat option" where
  "fs_find s path = find (\<lambda>i. same_name s i path) [0..<fs_count s]"

definition fs_find_type :: "'d aur \<Rightarrow> u8 \<Rightarrow> bytes \<Rightarrow> nat option" where
  "fs_find_type s ty path = find (\<lambda>i. same_name s i path \<and> fe_type (fs_table s ! i) = ty) [0..<fs_count s]"

definition upd_entry :: "nat \<Rightarrow> (fs_entry \<Rightarrow> fs_entry) \<Rightarrow> 'd aur \<Rightarrow> 'd aur" where
  "upd_entry i f s = s\<lparr>fs_table := (fs_table s)[i := f (fs_table s ! i)]\<rparr>"

text \<open>The next free entry, with \<open>f\<close> for the fields the caller sets.\<close>

definition new_entry :: "bytes \<Rightarrow> (fs_entry \<Rightarrow> fs_entry) \<Rightarrow> 'd aur \<Rightarrow> 'd aur" where
  "new_entry path f s =
     (let i = fs_count s
      in (upd_entry i (\<lambda>e. f (e\<lparr>fe_name := str_copy (fe_name e) path 56\<rparr>)) s)\<lparr>fs_count := i + 1\<rparr>)"

definition saved :: "'d disk_io \<Rightarrow> 'd aur \<Rightarrow> 'd aur" where
  "saved io s = snd (fs_save_to_disk io s)"

section \<open>File contents\<close>

definition upd_content :: "nat \<Rightarrow> (file_content \<Rightarrow> file_content) \<Rightarrow> 'd aur \<Rightarrow> 'd aur" where
  "upd_content k f s = s\<lparr>file_contents := (file_contents s)[k := f (file_contents s ! k)]\<rparr>"

definition put_data :: "bytes \<Rightarrow> file_content \<Rightarrow> file_content" where
  "put_data d c = c\<lparr>fc_data := d @ drop (length d) (fc_data c), fc_size := of_nat (length d)\<rparr>"

text \<open>The slot of the file \<open>i\<close>, or a new one; \<open>None\<close> when all 256 are taken.\<close>

definition content_slot :: "nat \<Rightarrow> 'd aur \<Rightarrow> (nat \<times> 'd aur) option" where
  "content_slot i s =
     (case slot_of s i of
        Some k \<Rightarrow> Some (k, s)
      | None \<Rightarrow>
          if 256 \<le> file_content_count s then None
          else let k = file_content_count s
               in Some (k, upd_content k (\<lambda>c. c\<lparr>fc_idx := of_nat i\<rparr>) (s\<lparr>file_content_count := k + 1\<rparr>)))"

definition save_file_content :: "'d disk_io \<Rightarrow> bytes \<Rightarrow> bytes \<Rightarrow> int \<Rightarrow> 'd aur \<Rightarrow> (int \<times> 'd aur) option" where
  "save_file_content io filename data len s =
     (if len < 0 then Some (-1, s)
      else do {
        path \<leftarrow> full_path s filename;
        let found = fs_find s path;
        if found = None \<and> 512 \<le> fs_count s then Some (-1, s)
        else do {
          let i = (case found of Some i \<Rightarrow> i | None \<Rightarrow> fs_count s);
          let s = (if found = None then new_entry path (\<lambda>e. e\<lparr>fe_type := 0, fe_attr := 0, fe_parent := 0xFFFF\<rparr>) s else s);
          let n = min (nat len) 8192;
          let s = upd_entry i (\<lambda>e. e\<lparr>fe_size := of_nat n\<rparr>) s;
          case content_slot i s of
            None \<Rightarrow> Some (-1, s)
          | Some (k, s) \<Rightarrow> do {
              d \<leftarrow> rdn data 0 n;
              Some (0, saved io (upd_content k (put_data d) s)) } } })"

text \<open>The buffer is terminated only when there is room.\<close>

definition load_file_content :: "bytes \<Rightarrow> bytes \<Rightarrow> int \<Rightarrow> 'd aur \<Rightarrow> (int \<times> bytes) option" where
  "load_file_content filename buffer max_len s =
     (if max_len \<le> 0 then Some (-1, buffer)
      else do {
        path \<leftarrow> full_path s filename;
        case fs_find s path of
          None \<Rightarrow> Some (-1, buffer)
        | Some i \<Rightarrow>
            (case slot_of s i of
               None \<Rightarrow> Some (-1, buffer)
             | Some k \<Rightarrow> do {
                 let sz = min (sint (fc_size (file_contents s ! k))) max_len;
                 if sz < 0 then None
                 else do {
                   d \<leftarrow> rdn (fc_data (file_contents s ! k)) 0 (nat sz);
                   buffer \<leftarrow> wrn buffer 0 d;
                   buffer \<leftarrow> (if sz < max_len then wrn buffer (nat sz) [0] else Some buffer);
                   Some (sz, buffer) } }) })"

definition fs_get_stored_content_bytes :: "bytes \<Rightarrow> 'd aur \<Rightarrow> int option" where
  "fs_get_stored_content_bytes filename s =
     do {
       path \<leftarrow> full_path s filename;
       Some (case fs_find s path of
           None \<Rightarrow> -1
         | Some i \<Rightarrow> (case slot_of s i of None \<Rightarrow> 0 | Some k \<Rightarrow> sint (fc_size (file_contents s ! k)))) }"

definition load_file_content_range :: "bytes \<Rightarrow> bytes \<Rightarrow> u32 \<Rightarrow> int \<Rightarrow> 'd aur \<Rightarrow> (int \<times> bytes) option" where
  "load_file_content_range filename buffer offset max_len s =
     (if max_len \<le> 0 then Some (-1, buffer)
      else do {
        path \<leftarrow> full_path s filename;
        case fs_find s path of
          None \<Rightarrow> Some (-1, buffer)
        | Some i \<Rightarrow>
            (case slot_of s i of
               None \<Rightarrow> Some (-1, buffer)
             | Some k \<Rightarrow>
                 let sz = unat (fc_size (file_contents s ! k)); n = min (nat max_len) (sz - unat offset)
                 in if sz \<le> unat offset then Some (-1, buffer)
                    else do {
                      d \<leftarrow> rdn (fc_data (file_contents s ! k)) (unat offset) n;
                      buffer \<leftarrow> wrn buffer 0 d;
                      Some (int n, buffer) }) })"

section \<open>Creating and removing\<close>

definition new_dir :: "bytes \<Rightarrow> 'd aur \<Rightarrow> 'd aur" where
  "new_dir path = new_entry path (\<lambda>e. e\<lparr>fe_size := 0, fe_type := 1, fe_attr := 0x10\<rparr>)"

definition new_file :: "bytes \<Rightarrow> 'd aur \<Rightarrow> 'd aur" where
  "new_file path = new_entry path (\<lambda>e. e\<lparr>fe_size := 0, fe_type := 0, fe_attr := 0x20\<rparr>)"

definition cmd_mkdir :: "'d disk_io \<Rightarrow> bytes \<Rightarrow> 'd aur \<Rightarrow> (int \<times> 'd aur) option" where
  "cmd_mkdir io args s =
     (let name = snd (get_token args 64)
      in if name = [] then Some (-1, s)
         else if 512 \<le> fs_count s then Some (-1, s)
         else do {
           path \<leftarrow> build_full_path (current_dir s) name;
           if fs_find s path \<noteq> None then Some (-1, s)
           else Some (0, saved io (new_dir path s)) })"

definition fs_mkdir_abs :: "'d disk_io \<Rightarrow> bytes \<Rightarrow> 'd aur \<Rightarrow> int \<times> 'd aur" where
  "fs_mkdir_abs io abs_path s =
     (if peek abs_path \<noteq> 0x2F then (-1, s)
      else if 512 \<le> fs_count s then (-2, s)
      else if fs_find s abs_path \<noteq> None then (-3, s)
      else (0, saved io (new_dir abs_path s)))"

definition remove_entry :: "nat \<Rightarrow> 'd aur \<Rightarrow> 'd aur" where
  "remove_entry i s =
     s\<lparr>fs_table := take i (fs_table s) @ take (fs_count s - 1 - i) (drop (i + 1) (fs_table s)) @ drop (fs_count s - 1) (fs_table s),
       fs_count := fs_count s - 1\<rparr>"

definition cmd_rmdir :: "'d disk_io \<Rightarrow> bytes \<Rightarrow> 'd aur \<Rightarrow> (int \<times> 'd aur) option" where
  "cmd_rmdir io args s =
     (let name = snd (get_token args 64)
      in if name = [] then Some (-1, s)
         else do {
           path \<leftarrow> build_full_path (current_dir s) name;
           case fs_find_type s 1 path of
             None \<Rightarrow> Some (-1, s)
           | Some i \<Rightarrow> Some (0, saved io (remove_entry i s)) })"

definition cmd_touch :: "'d disk_io \<Rightarrow> bytes \<Rightarrow> 'd aur \<Rightarrow> (int \<times> 'd aur) option" where
  "cmd_touch io args s =
     (let name = snd (get_token args 64)
      in if name = [] then Some (-1, s)
         else if 512 \<le> fs_count s then Some (-1, s)
         else do {
           path \<leftarrow> build_full_path (current_dir s) name;
           if fs_find s path \<noteq> None then Some (0, s)
           else Some (0, saved io (new_file path s)) })"

text \<open>The flags before the name of \<open>DEL\<close>: \<open>None\<close> is the refused \<open>rm -rf /\<close>.\<close>

lemma get_token_shorter: "get_token s n = (rest, t) \<Longrightarrow> t \<noteq> [] \<Longrightarrow> length rest < length s"
proof -
  assume h: "get_token s n = (rest, t)" and t: "t \<noteq> []"
  from h have e: "t = take (n - 1) (takeWhile (\<lambda>c. c \<noteq> 0 \<and> \<not> blank c) (skip_spaces s))" "rest = drop (length t) (skip_spaces s)"
    by (auto simp: get_token_def Let_def)
  have "skip_spaces s \<noteq> []"
    using e t by auto
  moreover have "length (skip_spaces s) \<le> length s"
    by (simp add: skip_spaces_def length_dropWhile_le)
  ultimately show ?thesis
    using t by (simp add: e(2)) (metis diff_less le_less_trans length_greater_0_conv less_le_trans)
qed

function del_flags :: "bytes \<Rightarrow> bytes \<Rightarrow> bytes option" where
  "del_flags args name =
     (if peek name \<noteq> 0x2D then Some name
      else if str_cmp name (lit ''-rf'') = 0 \<and> snd (get_token args 64) = lit ''/'' then None
      else let (args', name') = get_token args 64
           in if name' = [] then Some name' else del_flags args' name')"
  by pat_completeness auto
termination
  by (relation "measure (length \<circ> fst)") (auto simp: eq_commute [of "(_, _)"] dest: get_token_shorter)

declare del_flags.simps [simp del]

definition cmd_del :: "'d disk_io \<Rightarrow> bytes \<Rightarrow> 'd aur \<Rightarrow> (int \<times> 'd aur) option" where
  "cmd_del io args s =
     (let (args, name) = get_token args 64
      in case del_flags args name of
           None \<Rightarrow> Some (0, s)
         | Some name \<Rightarrow>
             if name = [] then Some (-1, s)
             else if name = lit ''/'' then Some (0, s)
             else do {
               path \<leftarrow> build_full_path (current_dir s) name;
               case fs_find_type s 0 path of
                 None \<Rightarrow> Some (-1, s)
               | Some i \<Rightarrow> Some (0, saved io (remove_entry i s)) })"

section \<open>The current directory\<close>

text \<open>Where the parent directory ends: behind the last slash, a final one not counted.\<close>

definition parent_end :: "bytes \<Rightarrow> nat option" where
  "parent_end c = (let c = (if c \<noteq> [] \<and> last c = 0x2F then butlast c else c)
     in find (\<lambda>i. c ! i = 0x2F) (rev [0..<length c]))"

definition cd_parent :: "'d aur \<Rightarrow> 'd aur" where
  "cd_parent s =
     (let c = cstr (current_dir s)
      in if length c \<le> 1 then s
         else case parent_end c of
                Some i \<Rightarrow> s\<lparr>current_dir := (current_dir s)[i + 1 := 0]\<rparr>
              | None \<Rightarrow> s\<lparr>current_dir := str_copy (current_dir s) (lit ''/'') 256\<rparr>)"

definition cd_root :: "'d aur \<Rightarrow> 'd aur" where
  "cd_root s = s\<lparr>current_dir := str_copy (current_dir s) (lit ''/'') 256\<rparr>"

definition cd_to :: "bytes \<Rightarrow> 'd aur \<Rightarrow> 'd aur option" where
  "cd_to name s =
     (let c = str_copy (current_dir s) name 256; n = cstr c
      in if n = [] then None
         else do {
           c \<leftarrow> (if last n \<noteq> 0x2F then wrn c (length n) [0x2F, 0] else Some c);
           Some (s\<lparr>current_dir := c\<rparr>) })"

definition alt_path :: "bytes \<Rightarrow> bytes option" where
  "alt_path path =
     (let p = take 255 path
      in if p = [] then None
         else if last p = 0x2F then Some (butlast p)
         else if 256 \<le> length p + 1 then None else Some (p @ [0x2F]))"

definition cmd_cd :: "'d disk_io \<Rightarrow> bytes \<Rightarrow> 'd aur \<Rightarrow> (int \<times> 'd aur) option" where
  "cmd_cd io args s =
     (let name = snd (get_token args 64)
      in if name = [] then Some (0, s)
         else if name = lit ''/'' then Some (0, saved io (cd_root s))
         else if name = lit ''..'' then Some (0, saved io (cd_parent s))
         else do {
           path \<leftarrow> build_full_path (current_dir s) name;
           if path = lit ''/'' then Some (0, saved io (cd_root s))
           else do {
             alt \<leftarrow> alt_path path;
             case find (\<lambda>i. (same_name s i path \<or> same_name s i alt) \<and> fe_type (fs_table s ! i) = 1) [0..<fs_count s] of
               Some i \<Rightarrow> do { s \<leftarrow> cd_to (fe_name (fs_table s ! i)) s; Some (0, saved io s) }
             | None \<Rightarrow> if alt = lit ''/'' then Some (0, saved io (cd_root s)) else Some (-1, s) } })"

section \<open>Reading, copying and moving\<close>

text \<open>What \<open>cmd_cat\<close> prints of a file that it finds; \<open>[]\<close> stands for its note that the file is empty.\<close>

definition cmd_cat :: "bytes \<Rightarrow> 'd aur \<Rightarrow> (int \<times> bytes) option" where
  "cmd_cat args s =
     (let name = snd (get_token args 64)
      in if name = [] then Some (-1, [])
         else do {
           path \<leftarrow> build_full_path (current_dir s) name;
           case fs_find_type s 0 path of
             None \<Rightarrow> Some (-1, [])
           | Some i \<Rightarrow>
               if fe_size (fs_table s ! i) = 0 then Some (0, [])
               else case slot_of s i of
                      None \<Rightarrow> Some (0, [])
                    | Some k \<Rightarrow> do {
                        d \<leftarrow> rdn (fc_data (file_contents s ! k)) 0 (unat (fc_size (file_contents s ! k)));
                        Some (0, if d = [] then [] else if last d \<noteq> 10 then d @ [10] else d) } })"

definition cmd_copy :: "'d disk_io \<Rightarrow> bytes \<Rightarrow> 'd aur \<Rightarrow> (int \<times> 'd aur) option" where
  "cmd_copy io args s =
     (let (args, src) = get_token args 64; dst = snd (get_token args 64)
      in if src = [] \<or> dst = [] then Some (-1, s)
         else do {
           full_src \<leftarrow> build_full_path (current_dir s) src;
           full_dst \<leftarrow> build_full_path (current_dir s) dst;
           case fs_find_type s 0 full_src of
             None \<Rightarrow> Some (-1, s)
           | Some i \<Rightarrow>
               if 512 \<le> fs_count s then Some (-1, s)
               else do {
                 let j = fs_count s;
                 let e = fs_table s ! i;
                 let s = new_entry full_dst (\<lambda>n. n\<lparr>fe_size := fe_size e, fe_type := 0, fe_attr := fe_attr e\<rparr>) s;
                 s \<leftarrow> (case slot_of s i of
                        Some k \<Rightarrow>
                          if file_content_count s < 256
                          then do {
                            d \<leftarrow> rdn (fc_data (file_contents s ! k)) 0 (unat (fc_size (file_contents s ! k)));
                            let m = file_content_count s;
                            Some (upd_content m (\<lambda>c. (put_data d c)\<lparr>fc_idx := of_nat j, fc_size := fc_size (file_contents s ! k)\<rparr>)
                              (s\<lparr>file_content_count := m + 1\<rparr>)) }
                          else Some s
                      | None \<Rightarrow> Some s);
                 Some (0, saved io s) } })"

definition cmd_move :: "'d disk_io \<Rightarrow> bytes \<Rightarrow> 'd aur \<Rightarrow> (int \<times> 'd aur) option" where
  "cmd_move io args s =
     (let (args, src) = get_token args 64; dst = snd (get_token args 64)
      in if src = [] \<or> dst = [] then Some (-1, s)
         else do {
           full_src \<leftarrow> build_full_path (current_dir s) src;
           full_dst \<leftarrow> build_full_path (current_dir s) dst;
           case fs_find s full_src of
             None \<Rightarrow> Some (-1, s)
           | Some i \<Rightarrow> Some (0, saved io (upd_entry i (\<lambda>e. e\<lparr>fe_name := str_copy (fe_name e) full_dst 56\<rparr>) s)) })"

definition cmd_chmod :: "'d disk_io \<Rightarrow> bytes \<Rightarrow> 'd aur \<Rightarrow> int \<times> 'd aur" where
  "cmd_chmod io args s =
     (let (args, mode) = get_token args 16; name = snd (get_token args 64)
      in if mode = [] \<or> name = [] then (-1, s)
         else case fs_find s name of
                None \<Rightarrow> (-1, s)
              | Some i \<Rightarrow> (0, saved io (upd_entry i (\<lambda>e. e\<lparr>fe_attr := ucast (str_to_int mode)\<rparr>) s)))"

text \<open>\<open>UNHIDE\<close> joins an absolute name to the current directory like a relative one.\<close>

definition cmd_unhide :: "'d disk_io \<Rightarrow> bytes \<Rightarrow> 'd aur \<Rightarrow> (int \<times> 'd aur) option" where
  "cmd_unhide io args s =
     (let name = snd (get_token args 256); c = cstr (current_dir s)
      in if name = [] then Some (-1, s)
         else do {
           path \<leftarrow> (if take 1 (drop 1 name) = [0x3A] then Some name
                    else if length c + length name < 256 then Some (c @ name) else None);
           case fs_find s path of
             None \<Rightarrow> Some (-1, s)
           | Some i \<Rightarrow> Some (0, saved io (upd_entry i (\<lambda>e. e\<lparr>fe_attr := fe_attr e AND NOT 2\<rparr>) s)) })"

end
