(* ===== verification/FsFacts.thy ===== *)
theory FsFacts
  imports FsOps
begin

text \<open>
  Correctness of AurionFS: every operation keeps the tables well formed, a saved file is loaded
  back and no other file changes, and what the operations do wrong.
\<close>

section \<open>Well-formedness\<close>

named_theorems fs_keeps \<open>updates that keep a file system well formed\<close>
named_theorems fs_step_keeps \<open>operations that keep a file system well formed\<close>

lemma saved_eq: "saved io s = s\<lparr>disk := snd (write_all io (save_plan s) (disk s))\<rparr>"
  by (simp add: saved_def fs_save_to_disk_def split: prod.split)

lemma saved_fields [simp]:
  "fs_table (saved io s) = fs_table s" "fs_count (saved io s) = fs_count s" "user_table (saved io s) = user_table s"
  "user_count (saved io s) = user_count s" "file_contents (saved io s) = file_contents s"
  "file_content_count (saved io s) = file_content_count s" "current_dir (saved io s) = current_dir s"
  "current_user (saved io s) = current_user s" "volume_label (saved io s) = volume_label s"
  by (simp_all add: saved_eq)

lemma saved_ok [fs_keeps]: "fs_ok s \<Longrightarrow> fs_ok (saved io s)"
  by (simp add: fs_ok_def fs_shape_def)

lemma upd_entry_ok [fs_keeps]:
  assumes "fs_ok s" and "\<And>e. length (fe_name e) = 56 \<Longrightarrow> 0 \<in> set (fe_name e) \<Longrightarrow> length (fe_name (f e)) = 56 \<and> 0 \<in> set (fe_name (f e))"
    and "i < 512"
  shows "fs_ok (upd_entry i f s)"
proof -
  have "\<forall>e \<in> set (fs_table s). length (fe_name e) = 56 \<and> 0 \<in> set (fe_name e)" "length (fs_table s) = 512"
    using assms(1) by (simp_all add: fs_ok_def fs_shape_def)
  then have "\<forall>e \<in> set ((fs_table s)[i := f (fs_table s ! i)]). length (fe_name e) = 56 \<and> 0 \<in> set (fe_name e)"
    using assms(2,3) by (intro all_update) simp_all
  then show ?thesis
    using assms(1) by (simp add: fs_ok_def fs_shape_def upd_entry_def)
qed

lemma new_entry_ok [fs_keeps]:
  assumes "fs_ok s" and "fs_count s < 512" and "\<And>e. fe_name (f e) = fe_name e"
  shows "fs_ok (new_entry path f s)"
proof -
  have "fs_ok (upd_entry (fs_count s) (\<lambda>e. f (e\<lparr>fe_name := str_copy (fe_name e) path 56\<rparr>)) s)"
    using assms by (intro upd_entry_ok) simp_all
  then show ?thesis
    using assms(2) by (simp add: new_entry_def Let_def fs_ok_def fs_shape_def)
qed

lemma upd_content_ok [fs_keeps]:
  assumes "fs_ok s" and "k < 256"
    and "\<And>c. length (fc_data c) = 8192 \<Longrightarrow> length (fc_data (f c)) = 8192"
    and "\<And>c. unat (fc_size c) \<le> 8192 \<Longrightarrow> unat (fc_size (f c)) \<le> 8192"
  shows "fs_ok (upd_content k f s)"
proof -
  have "\<forall>c \<in> set (file_contents s). length (fc_data c) = 8192 \<and> unat (fc_size c) \<le> 8192" "length (file_contents s) = 256"
    using assms(1) by (simp_all add: fs_ok_def fs_shape_def)
  then have "\<forall>c \<in> set ((file_contents s)[k := f (file_contents s ! k)]). length (fc_data c) = 8192 \<and> unat (fc_size c) \<le> 8192"
    using assms(2-4) by (intro all_update) simp_all
  then show ?thesis
    using assms(1) by (simp add: fs_ok_def fs_shape_def upd_content_def)
qed

lemma remove_entry_ok [fs_keeps]:
  assumes "fs_ok s" and "i < fs_count s"
  shows "fs_ok (remove_entry i s)"
proof -
  have "set (fs_table (remove_entry i s)) \<subseteq> set (fs_table s)"
    by (auto simp: remove_entry_def dest: in_set_takeD in_set_dropD)
  moreover have "length (fs_table s) = 512" "fs_count s \<le> 512"
    using assms(1) by (simp_all add: fs_ok_def fs_shape_def)
  then have "length (fs_table (remove_entry i s)) = 512"
    using assms(2) unfolding remove_entry_def by simp
  ultimately show ?thesis
    using assms by (auto simp: fs_ok_def fs_shape_def remove_entry_def)
qed

lemma put_data_ok [fs_keeps]:
  assumes "fs_ok s" and "k < 256" and "length d \<le> 8192"
  shows "fs_ok (upd_content k (put_data d) s)"
  using assms by (intro upd_content_ok) (auto simp: put_data_def unat_of_nat)

lemma slot_of_less: "fs_ok s \<Longrightarrow> slot_of s i = Some k \<Longrightarrow> k < 256"
  using slot_ofD [of s i k] fs_ok_nth(10) [of s] by simp

lemma content_slot_ok:
  assumes "fs_ok s" and "content_slot i s = Some (k, t)"
  shows "fs_ok t \<and> k < 256"
proof (cases "slot_of s i")
  case None
  then have k: "file_content_count s < 256" "k = file_content_count s"
      "t = upd_content k (\<lambda>c. c\<lparr>fc_idx := of_nat i\<rparr>) (s\<lparr>file_content_count := k + 1\<rparr>)"
    using assms(2) by (auto simp: content_slot_def Let_def split: if_splits)
  have "fs_ok (s\<lparr>file_content_count := k + 1\<rparr>)"
    using assms(1) k by (simp add: fs_ok_def fs_shape_def)
  then show ?thesis
    using k by (auto intro!: upd_content_ok)
qed (use assms slot_of_less in \<open>auto simp: content_slot_def\<close>)

lemma fs_find_less: "fs_find s p = Some i \<Longrightarrow> i < fs_count s" "fs_find_type s ty p = Some i \<Longrightarrow> i < fs_count s"
  by (auto simp: fs_find_def fs_find_type_def find_Some_iff)

lemma fs_ok_less: "fs_ok s \<Longrightarrow> i < fs_count s \<Longrightarrow> i < 512"
  using fs_ok_nth(8) [of s] by simp

lemma fs_find_512: "fs_find s p = Some i \<Longrightarrow> fs_ok s \<Longrightarrow> i < 512"
  using fs_find_less(1) [of s p i] fs_ok_less [of s i] by simp

lemma find_in_set: "find P xs = Some x \<Longrightarrow> x \<in> set xs \<and> P x"
  by (induction xs) (auto split: if_splits)

text \<open>The entry and the state in which \<open>save_file_content\<close> looks for the slot.\<close>

definition save_index :: "bytes \<Rightarrow> 'd aur \<Rightarrow> nat" where
  "save_index path s = (case fs_find s path of Some i \<Rightarrow> i | None \<Rightarrow> fs_count s)"

definition save_entry :: "bytes \<Rightarrow> nat \<Rightarrow> 'd aur \<Rightarrow> 'd aur" where
  "save_entry path n s = upd_entry (save_index path s) (\<lambda>e. e\<lparr>fe_size := of_nat n\<rparr>)
     (if fs_find s path = None then new_entry path (\<lambda>e. e\<lparr>fe_type := 0, fe_attr := 0, fe_parent := 0xFFFF\<rparr>) s else s)"

lemma save_file_eq:
  assumes "\<not> len < 0" and "full_path s name = Some path" and "\<not> (fs_find s path = None \<and> 512 \<le> fs_count s)"
    and "n = min (nat len) 8192"
  shows "save_file_content io name data len s =
    (case content_slot (save_index path s) (save_entry path n s) of
       None \<Rightarrow> Some (-1, save_entry path n s)
     | Some (k, t) \<Rightarrow> do { d \<leftarrow> rdn data 0 n; Some (0, saved io (upd_content k (put_data d) t)) })"
  unfolding save_file_content_def save_entry_def save_index_def Let_def assms(2,4) Option.bind.simps
  by (simp only: assms(1,3) if_False)

lemma save_index_less:
  assumes "fs_ok s" and "\<not> (fs_find s path = None \<and> 512 \<le> fs_count s)"
  shows "save_index path s < 512"
  using assms fs_find_less(1) [of s path] fs_ok_less [OF assms(1)] by (auto simp: save_index_def split: option.split)

lemma save_entry_ok:
  assumes "fs_ok s" and "\<not> (fs_find s path = None \<and> 512 \<le> fs_count s)"
  shows "fs_ok (save_entry path n s)"
proof -
  have "fs_ok (if fs_find s path = None then new_entry path (\<lambda>e. e\<lparr>fe_type := 0, fe_attr := 0, fe_parent := 0xFFFF\<rparr>) s else s)"
    using assms by (auto intro!: new_entry_ok)
  then show ?thesis
    using save_index_less [OF assms] by (simp add: save_entry_def upd_entry_ok)
qed

lemma save_file_ok [fs_step_keeps]:
  assumes "fs_ok s" and "save_file_content io name data len s = Some (r, s')"
  shows "fs_ok s'"
proof (cases "len < 0")
  case False
  with assms(2) obtain path where path: "full_path s name = Some path"
    by (auto simp: save_file_content_def elim!: bind_SomeE)
  show ?thesis
  proof (cases "fs_find s path = None \<and> 512 \<le> fs_count s")
    case True
    with assms False path show ?thesis by (simp add: save_file_content_def)
  next
    case room: False
    define n where "n = min (nat len) 8192"
    define t0 where "t0 = save_entry path n s"
    have ok: "fs_ok t0"
      unfolding t0_def by (rule save_entry_ok [OF assms(1) room])
    note e = assms(2) [unfolded save_file_eq [OF False path room n_def], folded t0_def]
    show ?thesis
    proof (cases "content_slot (save_index path s) t0")
      case None
      with e ok show ?thesis by simp
    next
      case (Some kt)
      obtain k t where kt: "kt = (k, t)" by (cases kt)
      with Some e obtain d where d: "rdn data 0 n = Some d" "s' = saved io (upd_content k (put_data d) t)"
        by (auto elim!: bind_SomeE)
      have "length d \<le> 8192"
        using length_rdn [OF d(1)] by (simp add: n_def)
      then show ?thesis
        using content_slot_ok [OF ok] Some kt d(2) by (auto intro!: fs_keeps)
    qed
  qed
qed (use assms in \<open>simp add: save_file_content_def\<close>)

lemma new_dir_ok [fs_keeps]: "fs_ok s \<Longrightarrow> fs_count s < 512 \<Longrightarrow> fs_ok (new_dir p s)"
  by (simp add: new_dir_def new_entry_ok)

lemma new_file_ok [fs_keeps]: "fs_ok s \<Longrightarrow> fs_count s < 512 \<Longrightarrow> fs_ok (new_file p s)"
  by (simp add: new_file_def new_entry_ok)

lemma cmd_mkdir_ok [fs_step_keeps]: "fs_ok s \<Longrightarrow> cmd_mkdir io args s = Some (r, s') \<Longrightarrow> fs_ok s'"
  by (auto simp: cmd_mkdir_def Let_def intro!: fs_keeps elim!: bind_SomeE split: if_splits)

lemma cmd_touch_ok [fs_step_keeps]: "fs_ok s \<Longrightarrow> cmd_touch io args s = Some (r, s') \<Longrightarrow> fs_ok s'"
  by (auto simp: cmd_touch_def Let_def intro!: fs_keeps elim!: bind_SomeE split: if_splits)

lemma fs_mkdir_abs_ok [fs_step_keeps]: "fs_ok s \<Longrightarrow> fs_mkdir_abs io p s = (r, s') \<Longrightarrow> fs_ok s'"
  by (auto simp: fs_mkdir_abs_def intro!: fs_keeps split: if_splits)

lemma cmd_rmdir_ok [fs_step_keeps]: "fs_ok s \<Longrightarrow> cmd_rmdir io args s = Some (r, s') \<Longrightarrow> fs_ok s'"
  by (auto simp: cmd_rmdir_def Let_def intro!: fs_keeps dest: fs_find_less(2) elim!: bind_SomeE split: if_splits option.splits)

lemma cmd_del_ok [fs_step_keeps]: "fs_ok s \<Longrightarrow> cmd_del io args s = Some (r, s') \<Longrightarrow> fs_ok s'"
  by (auto simp: cmd_del_def Let_def intro!: fs_keeps dest: fs_find_less(2) elim!: bind_SomeE split: if_splits option.splits prod.splits)

lemma cmd_copy_ok [fs_step_keeps]:
  assumes "fs_ok s" and "cmd_copy io args s = Some (r, s')"
  shows "fs_ok s'"
proof -
  obtain args' src where src: "get_token args 64 = (args', src)" by (cases "get_token args 64")
  define dst where "dst = snd (get_token args' 64)"
  show ?thesis
  proof (cases "src = [] \<or> dst = []")
    case True
    with assms src show ?thesis by (auto simp: cmd_copy_def dst_def)
  next
    case False
    with assms(2) src obtain ps pd where p: "build_full_path (current_dir s) src = Some ps" "build_full_path (current_dir s) dst = Some pd"
      by (auto simp: cmd_copy_def dst_def elim!: bind_SomeE)
    note e = assms(2) [unfolded cmd_copy_def Let_def src prod.case dst_def [symmetric] p Option.bind.simps]
    show ?thesis
    proof (cases "fs_find_type s 0 ps")
      case None
      with e False assms(1) show ?thesis by auto
    next
      case (Some i)
      show ?thesis
      proof (cases "512 \<le> fs_count s")
        case True
        with e False Some assms(1) show ?thesis by auto
      next
        case room: False
        define t where "t = new_entry pd (\<lambda>n. n\<lparr>fe_size := fe_size (fs_table s ! i), fe_type := 0, fe_attr := fe_attr (fs_table s ! i)\<rparr>) s"
        have t: "fs_ok t"
          using assms(1) room by (simp add: t_def new_entry_ok)
        show ?thesis
        proof (cases "slot_of t i")
          case None
          then show ?thesis
            using e False Some room t by (auto simp: t_def intro: saved_ok)
        next
          case slot: (Some k)
          show ?thesis
          proof (cases "file_content_count t < 256")
            case True
            let ?c = "file_contents t ! k"
            have "k < 256"
              by (rule slot_of_less [OF t slot])
            then have k: "length (fc_data ?c) = 8192" "unat (fc_size ?c) \<le> 8192"
              using fs_ok_nth(4) [OF t] by simp_all
            have "s' = saved io (upd_content (file_content_count t) (\<lambda>c. (put_data (take (unat (fc_size ?c)) (fc_data ?c)) c)
                \<lparr>fc_idx := of_nat (fs_count s), fc_size := fc_size ?c\<rparr>) (t\<lparr>file_content_count := file_content_count t + 1\<rparr>))"
              using e False Some room slot True k by (simp add: t_def [symmetric] rdn_def)
            moreover have "fs_ok (t\<lparr>file_content_count := file_content_count t + 1\<rparr>)"
              using t True by (simp add: fs_ok_def fs_shape_def)
            ultimately show ?thesis
              using True k by (auto simp: put_data_def intro!: saved_ok upd_content_ok)
          next
            case False
            then show ?thesis
              using e \<open>\<not> (src = [] \<or> dst = [])\<close> Some room slot t by (auto simp: t_def intro: saved_ok)
          qed
        qed
      qed
    qed
  qed
qed

lemma cmd_move_ok [fs_step_keeps]: "fs_ok s \<Longrightarrow> cmd_move io args s = Some (r, s') \<Longrightarrow> fs_ok s'"
  by (auto simp: cmd_move_def Let_def intro!: fs_keeps dest: fs_find_512 elim!: bind_SomeE split: if_splits option.splits prod.splits)

lemma cmd_chmod_ok [fs_step_keeps]: "fs_ok s \<Longrightarrow> cmd_chmod io args s = (r, s') \<Longrightarrow> fs_ok s'"
  by (auto simp: cmd_chmod_def Let_def intro!: fs_keeps dest: fs_find_512 split: if_splits option.splits prod.splits)

lemma cmd_unhide_ok [fs_step_keeps]: "fs_ok s \<Longrightarrow> cmd_unhide io args s = Some (r, s') \<Longrightarrow> fs_ok s'"
  by (auto simp: cmd_unhide_def Let_def intro!: fs_keeps dest: fs_find_512 elim!: bind_SomeE split: if_splits option.splits)

lemma dir_ok: "fs_ok s \<Longrightarrow> length c = 256 \<Longrightarrow> 0 \<in> set c \<Longrightarrow> fs_ok (s\<lparr>current_dir := c\<rparr>)"
  by (simp add: fs_ok_def fs_shape_def)

lemma fs_ok_dir: "fs_ok s \<Longrightarrow> length (current_dir s) = 256" "fs_ok s \<Longrightarrow> 0 \<in> set (current_dir s)"
  by (simp_all add: fs_ok_def fs_shape_def)

lemma cd_root_ok [fs_keeps]: "fs_ok s \<Longrightarrow> fs_ok (cd_root s)"
  by (simp add: cd_root_def dir_ok fs_ok_dir)

lemma parent_end_less: "parent_end c = Some i \<Longrightarrow> i < length c"
proof -
  assume h: "parent_end c = Some i"
  define d where "d = (if c \<noteq> [] \<and> last c = 0x2F then butlast c else c)"
  have "i \<in> set (rev [0..<length d])"
    using h unfolding parent_end_def Let_def d_def [symmetric] by (blast dest: find_in_set)
  then show ?thesis
    by (auto simp: d_def split: if_splits)
qed

lemma cd_parent_ok [fs_keeps]: "fs_ok s \<Longrightarrow> fs_ok (cd_parent s)"
proof -
  assume ok: "fs_ok s"
  have "length (cstr (current_dir s)) < 256"
    by (rule fs_ok_nth(11) [OF ok])
  then show ?thesis
    using ok unfolding cd_parent_def Let_def
    by (auto intro!: dir_ok simp: fs_ok_dir set_update_memI dest!: parent_end_less split: option.split)
qed

lemma cd_to_ok: "fs_ok s \<Longrightarrow> cd_to name s = Some s' \<Longrightarrow> fs_ok s'"
  unfolding cd_to_def Let_def
  by (auto simp: fs_ok_dir wrn_def intro!: dir_ok elim!: bind_SomeE split: if_splits)

lemma cmd_cd_ok [fs_step_keeps]: "fs_ok s \<Longrightarrow> cmd_cd io args s = Some (r, s') \<Longrightarrow> fs_ok s'"
  unfolding cmd_cd_def Let_def
  by (auto intro!: fs_keeps elim!: bind_SomeE split: if_splits option.splits) (erule (1) cd_to_ok [rotated])+

section \<open>Every path is absolute\<close>

text \<open>All names in use, and the current directory, start with a slash.\<close>

definition rooted :: "'d aur \<Rightarrow> bool" where
  "rooted s \<longleftrightarrow> (\<forall>e \<in> set (take (fs_count s) (fs_table s)). peek (fe_name e) = 0x2F) \<and> peek (current_dir s) = 0x2F"

lemma slash_path: "build_full_path cd n = Some p \<Longrightarrow> peek cd = 0x2F \<Longrightarrow> peek p = 0x2F"
  by (cases cd; cases n) (auto simp: build_full_path_def Let_def slash_def split: if_splits)

lemma peek_str_copy: "peek p = 0x2F \<Longrightarrow> peek (str_copy b p 56) = 0x2F"
  by (cases p) (simp_all add: str_copy_def Let_def)

lemma rooted_saved [simp]: "rooted (saved io s) = rooted s"
  by (simp add: rooted_def)

lemma take_update: "set (take n (xs[i := y])) \<subseteq> insert y (set (take n xs))"
proof (cases "i < n")
  case True
  then have "take n (xs[i := y]) = (take n xs)[i := y]"
    by (simp add: take_update_swap)
  then show ?thesis
    by (simp add: set_update_subset_insert)
qed (auto simp: take_update_cancel)

lemma rooted_upd_entry:
  assumes "rooted s" and "i < fs_count s" and "fs_count s \<le> length (fs_table s)"
    and "\<And>e. peek (fe_name e) = 0x2F \<Longrightarrow> peek (fe_name (f e)) = 0x2F"
  shows "rooted (upd_entry i f s)"
proof -
  have "fs_table s ! i \<in> set (take (fs_count s) (fs_table s))"
    using assms(2,3) by (auto simp: in_set_conv_nth)
  then have "peek (fe_name (f (fs_table s ! i))) = 0x2F"
    using assms(1,4) by (auto simp: rooted_def)
  then show ?thesis
    using assms(1) take_update [of "fs_count s" "fs_table s" i] by (auto simp: rooted_def upd_entry_def)
qed

lemma rooted_new_entry:
  assumes "rooted s" and "peek path = 0x2F" and "\<And>e. fe_name (f e) = fe_name e"
  shows "rooted (new_entry path f s)"
proof -
  let ?e = "f ((fs_table s ! fs_count s)\<lparr>fe_name := str_copy (fe_name (fs_table s ! fs_count s)) path 56\<rparr>)"
  have "peek (fe_name ?e) = 0x2F"
    using assms by (simp add: peek_str_copy)
  moreover have "set (take (fs_count s + 1) ((fs_table s)[fs_count s := ?e])) \<subseteq> insert ?e (set (take (fs_count s) (fs_table s)))"
    by (cases "fs_count s < length (fs_table s)") (auto simp: take_Suc_conv_app_nth list_update_beyond)
  ultimately show ?thesis
    using assms(1) by (auto simp: rooted_def new_entry_def Let_def upd_entry_def)
qed

lemma rooted_remove:
  assumes "rooted s" and "i < fs_count s" and "fs_count s \<le> length (fs_table s)"
  shows "rooted (remove_entry i s)"
proof -
  let ?n = "fs_count s" and ?T = "fs_table s"
  have "take (?n - 1) (take i ?T @ take (?n - 1 - i) (drop (i + 1) ?T) @ drop (?n - 1) ?T)
      = take i ?T @ take (?n - 1 - i) (drop (i + 1) ?T)"
    using assms(2,3) by simp
  moreover have "set (take i ?T) \<subseteq> set (take ?n ?T)"
    using assms(2) by (intro set_take_subset_set_take) simp
  moreover have "take (?n - 1 - i) (drop (i + 1) ?T) = drop (i + 1) (take ?n ?T)"
    by (simp add: drop_take)
  then have "set (take (?n - 1 - i) (drop (i + 1) ?T)) \<subseteq> set (take ?n ?T)"
    by (metis set_drop_subset)
  ultimately show ?thesis
    using assms(1) by (auto simp: rooted_def remove_entry_def)
qed

lemma rooted_content [simp]:
  "rooted (upd_content k f s) = rooted s" "rooted (s\<lparr>file_content_count := m\<rparr>) = rooted s"
  by (simp_all add: rooted_def upd_content_def)

lemma rooted_slot: "content_slot i s = Some (k, t) \<Longrightarrow> rooted t = rooted s"
  by (auto simp: content_slot_def Let_def split: option.splits if_splits)

text \<open>One operation on the file system, whatever its arguments.\<close>

inductive fs_step :: "'d disk_io \<Rightarrow> 'd aur \<Rightarrow> 'd aur \<Rightarrow> bool" for io where
  save: "save_file_content io name data len s = Some (r, s') \<Longrightarrow> fs_step io s s'"
| mkdir: "cmd_mkdir io args s = Some (r, s') \<Longrightarrow> fs_step io s s'"
| mkdir_abs: "fs_mkdir_abs io path s = (r, s') \<Longrightarrow> fs_step io s s'"
| rmdir: "cmd_rmdir io args s = Some (r, s') \<Longrightarrow> fs_step io s s'"
| touch: "cmd_touch io args s = Some (r, s') \<Longrightarrow> fs_step io s s'"
| del: "cmd_del io args s = Some (r, s') \<Longrightarrow> fs_step io s s'"
| cd: "cmd_cd io args s = Some (r, s') \<Longrightarrow> fs_step io s s'"
| copy: "cmd_copy io args s = Some (r, s') \<Longrightarrow> fs_step io s s'"
| move: "cmd_move io args s = Some (r, s') \<Longrightarrow> fs_step io s s'"
| chmod: "cmd_chmod io args s = (r, s') \<Longrightarrow> fs_step io s s'"
| unhide: "cmd_unhide io args s = Some (r, s') \<Longrightarrow> fs_step io s s'"

lemma fs_step_ok: "fs_step io s s' \<Longrightarrow> fs_ok s \<Longrightarrow> fs_ok s'"
  by (induction rule: fs_step.induct) (blast intro: fs_step_keeps)+

text \<open>The invariant, with the rules that the operations' proofs use.\<close>

definition fs_inv :: "'d aur \<Rightarrow> bool" where
  "fs_inv s \<longleftrightarrow> fs_ok s \<and> rooted s"

named_theorems inv_rules \<open>how the pieces of an operation keep the paths absolute\<close>

lemma inv_table: "fs_inv s \<Longrightarrow> fs_count s \<le> length (fs_table s)"
  by (simp add: fs_inv_def fs_ok_def fs_shape_def)

lemma inv_path: "build_full_path (current_dir s) n = Some p \<Longrightarrow> fs_inv s \<Longrightarrow> peek p = 0x2F"
  by (auto simp: fs_inv_def rooted_def dest: slash_path)

lemma inv_name: "fs_inv s \<Longrightarrow> i < fs_count s \<Longrightarrow> peek (fe_name (fs_table s ! i)) = 0x2F"
proof -
  assume h: "fs_inv s" "i < fs_count s"
  then have "fs_table s ! i \<in> set (take (fs_count s) (fs_table s))"
    using inv_table [of s] by (auto simp: in_set_conv_nth)
  then show ?thesis
    using h by (simp add: fs_inv_def rooted_def)
qed

lemma rooted_rules [inv_rules]:
  "fs_inv s \<Longrightarrow> fs_find s p = Some i \<Longrightarrow> peek q = 0x2F \<Longrightarrow> rooted (upd_entry i (\<lambda>e. e\<lparr>fe_name := str_copy (fe_name e) q 56\<rparr>) s)"
  "fs_inv s \<Longrightarrow> fs_find s p = Some i \<Longrightarrow> rooted (upd_entry i (\<lambda>e. e\<lparr>fe_attr := a e\<rparr>) s)"
  "fs_inv s \<Longrightarrow> peek q = 0x2F \<Longrightarrow> rooted (new_dir q s)"
  "fs_inv s \<Longrightarrow> peek q = 0x2F \<Longrightarrow> rooted (new_file q s)"
  "fs_inv s \<Longrightarrow> fs_find_type s ty p = Some i \<Longrightarrow> rooted (remove_entry i s)"
  using inv_table [of s]
  by (auto simp: fs_inv_def new_dir_def new_file_def peek_str_copy
    intro!: rooted_upd_entry rooted_new_entry rooted_remove dest: fs_find_less)

lemma rooted_dir:
  assumes "rooted s" and "peek c = 0x2F"
  shows "rooted (s\<lparr>current_dir := c\<rparr>)"
  using assms by (simp add: rooted_def)

lemma cd_root_rooted [inv_rules]: "fs_inv s \<Longrightarrow> rooted (cd_root s)"
  by (auto simp: fs_inv_def cd_root_def str_copy_def Let_def of_char_def intro!: rooted_dir)

lemma peek_update [simp]: "peek (c[Suc i := x]) = peek c"
  by (cases c) simp_all

lemma cd_parent_rooted [inv_rules]: "fs_inv s \<Longrightarrow> rooted (cd_parent s)"
  by (auto simp: fs_inv_def cd_parent_def str_copy_def Let_def of_char_def rooted_def split: option.split)

lemma cd_to_rooted:
  assumes "fs_inv s" and "peek name = 0x2F" and "cd_to name s = Some s'"
  shows "rooted s'"
proof -
  define c where "c = str_copy (current_dir s) name 256"
  have c: "peek c = 0x2F"
    using assms(2) by (cases name) (simp_all add: c_def str_copy_def Let_def)
  then obtain n where n: "length (cstr c) = Suc n"
    by (cases c) auto
  have "wrn c (length (cstr c)) d = Some c' \<Longrightarrow> peek c' = peek c" for d c'
    unfolding n by (cases c) (auto simp: wrn_def split: if_splits)
  then show ?thesis
    using assms(1,3) c unfolding cd_to_def Let_def c_def [symmetric]
    by (auto simp: fs_inv_def rooted_def elim!: bind_SomeE split: if_splits)
qed

lemma cmd_cd_rooted:
  assumes "fs_inv s" and "cmd_cd io args s = Some (r, s')"
  shows "rooted s'"
proof -
  have "rooted s"
    using assms(1) by (simp add: fs_inv_def)
  moreover have "rooted t" if "find P [0..<fs_count s] = Some i" and "cd_to (fe_name (fs_table s ! i)) s = Some t" for P i t
  proof -
    have "i < fs_count s"
      using find_in_set [OF that(1)] by simp
    then show ?thesis
      using cd_to_rooted [OF assms(1) inv_name [OF assms(1)] that(2)] by blast
  qed
  ultimately show ?thesis
    using assms unfolding cmd_cd_def Let_def
    by (auto intro!: cd_root_rooted cd_parent_rooted elim!: bind_SomeE split: if_splits option.splits)
qed

lemma save_rooted:
  assumes "fs_inv s" and "save_file_content io name data len s = Some (r, s')"
  shows "rooted s'"
proof (cases "len < 0")
  case False
  with assms(2) obtain path where path: "full_path s name = Some path"
    by (auto simp: save_file_content_def elim!: bind_SomeE)
  have p: "peek path = 0x2F"
    using inv_path assms(1) path unfolding full_path_def by blast
  show ?thesis
  proof (cases "fs_find s path = None \<and> 512 \<le> fs_count s")
    case True
    with assms False path show ?thesis by (simp add: save_file_content_def fs_inv_def)
  next
    case room: False
    define n where "n = min (nat len) 8192"
    define t0 where "t0 = save_entry path n s"
    have "rooted t0"
    proof (cases "fs_find s path")
      case None
      define s1 where "s1 = new_entry path (\<lambda>e. e\<lparr>fe_type := 0, fe_attr := 0, fe_parent := 0xFFFF\<rparr>) s"
      have "rooted s1"
        using assms(1) p by (simp add: s1_def fs_inv_def rooted_new_entry)
      moreover have "fs_count s1 = fs_count s + 1" "length (fs_table s1) = 512"
        using assms(1) by (simp_all add: s1_def new_entry_def Let_def upd_entry_def fs_inv_def fs_ok_def fs_shape_def)
      moreover have "t0 = upd_entry (fs_count s) (\<lambda>e. e\<lparr>fe_size := of_nat n\<rparr>) s1"
        using None by (simp add: t0_def save_entry_def save_index_def s1_def)
      ultimately show ?thesis
        using None room by (auto intro!: rooted_upd_entry)
    next
      case (Some i)
      then show ?thesis
        using assms(1) inv_table [OF assms(1)] fs_find_less(1) [OF Some]
        by (auto simp: t0_def save_entry_def save_index_def fs_inv_def intro!: rooted_upd_entry)
    qed
    then show ?thesis
      using assms(2) unfolding save_file_eq [OF False path room n_def] t0_def [symmetric]
      by (auto elim!: bind_SomeE dest: rooted_slot split: option.splits)
  qed
qed (use assms in \<open>simp add: save_file_content_def fs_inv_def\<close>)

lemma copy_rooted:
  assumes "fs_inv s" and "cmd_copy io args s = Some (r, s')"
  shows "rooted s'"
  using assms(2) inv_path [OF _ assms(1)] assms(1) unfolding cmd_copy_def Let_def
  by (auto simp: fs_inv_def rooted_new_entry elim!: bind_SomeE split: prod.splits if_splits option.splits)

lemma mkdir_rooted: "fs_inv s \<Longrightarrow> cmd_mkdir io args s = Some (r, s') \<Longrightarrow> rooted s'"
  by (auto simp: cmd_mkdir_def Let_def intro!: inv_rules dest: inv_path elim!: bind_SomeE split: if_splits) (blast dest: inv_path | simp add: fs_inv_def)+

lemma touch_rooted: "fs_inv s \<Longrightarrow> cmd_touch io args s = Some (r, s') \<Longrightarrow> rooted s'"
  by (auto simp: cmd_touch_def Let_def intro!: inv_rules dest: inv_path elim!: bind_SomeE split: if_splits) (blast dest: inv_path | simp add: fs_inv_def)+

lemma mkdir_abs_rooted: "fs_inv s \<Longrightarrow> fs_mkdir_abs io p s = (r, s') \<Longrightarrow> rooted s'"
  by (auto simp: fs_mkdir_abs_def intro!: inv_rules split: if_splits) (blast dest: inv_path | simp add: fs_inv_def)+

lemma rmdir_rooted: "fs_inv s \<Longrightarrow> cmd_rmdir io args s = Some (r, s') \<Longrightarrow> rooted s'"
  by (auto simp: cmd_rmdir_def Let_def intro!: inv_rules elim!: bind_SomeE split: if_splits option.splits) (blast dest: inv_path | simp add: fs_inv_def)+

lemma del_rooted: "fs_inv s \<Longrightarrow> cmd_del io args s = Some (r, s') \<Longrightarrow> rooted s'"
  by (auto simp: cmd_del_def Let_def intro!: inv_rules elim!: bind_SomeE split: if_splits option.splits prod.splits) (blast dest: inv_path | simp add: fs_inv_def)+

lemma move_rooted: "fs_inv s \<Longrightarrow> cmd_move io args s = Some (r, s') \<Longrightarrow> rooted s'"
  by (auto simp: cmd_move_def Let_def intro!: inv_rules dest: inv_path elim!: bind_SomeE split: if_splits option.splits prod.splits)
    (blast dest: inv_path | simp add: fs_inv_def)+

lemma chmod_rooted: "fs_inv s \<Longrightarrow> cmd_chmod io args s = (r, s') \<Longrightarrow> rooted s'"
  by (auto simp: cmd_chmod_def Let_def intro!: inv_rules split: if_splits option.splits prod.splits) (blast dest: inv_path | simp add: fs_inv_def)+

lemma unhide_rooted: "fs_inv s \<Longrightarrow> cmd_unhide io args s = Some (r, s') \<Longrightarrow> rooted s'"
  by (auto simp: cmd_unhide_def Let_def intro!: inv_rules elim!: bind_SomeE split: if_splits option.splits) (blast dest: inv_path | simp add: fs_inv_def)+

lemmas rooted_ops = save_rooted mkdir_rooted mkdir_abs_rooted rmdir_rooted touch_rooted del_rooted cmd_cd_rooted
  copy_rooted move_rooted chmod_rooted unhide_rooted

lemma fs_step_inv:
  assumes "fs_step io s s'" and "fs_inv s"
  shows "fs_inv s'"
proof -
  have "rooted s'"
    using assms by (induction rule: fs_step.induct) (blast dest: rooted_ops)+
  moreover have "fs_ok s'"
    using fs_step_ok assms by (auto simp: fs_inv_def)
  ultimately show ?thesis
    by (simp add: fs_inv_def)
qed

end
