(* ===== verification/NameStore.thy ===== *)
theory NameStore
  imports AurionPrelude
begin

text \<open>
  The interface that the kernel's linear tables share: the files of AurionFS, the variables of
  \<open>make\<close> and the environment of the shell are arrays that are searched from the front for a name,
  updated in place when the name is there and extended when it is not.
\<close>

section \<open>The position of the first match\<close>

definition index_of :: "'a \<Rightarrow> 'a list \<Rightarrow> nat option" where
  "index_of x xs = find (\<lambda>i. xs ! i = x) [0..<length xs]"

lemma index_of_Nil [simp]: "index_of x [] = None"
  by (simp add: index_of_def)

lemma index_of_snoc: "index_of x (xs @ [y]) = (case index_of x xs of Some i \<Rightarrow> Some i | None \<Rightarrow> if x = y then Some (length xs) else None)"
proof -
  have app: "find P (as @ bs) = (case find P as of Some i \<Rightarrow> Some i | None \<Rightarrow> find P bs)" for P :: "nat \<Rightarrow> bool" and as bs
    by (induction as) auto
  have "find (\<lambda>i. (xs @ [y]) ! i = x) [0..<length xs] = find (\<lambda>i. xs ! i = x) [0..<length xs]"
    by (rule find_cong) (auto simp: nth_append)
  then show ?thesis
    by (auto simp: index_of_def app nth_append split: option.split)
qed

lemma index_of_SomeD: "index_of x xs = Some i \<Longrightarrow> i < length xs \<and> xs ! i = x"
  by (auto simp: index_of_def find_Some_iff)

lemma index_of_None: "index_of x xs = None \<longleftrightarrow> x \<notin> set xs"
  by (auto simp: index_of_def find_None_iff in_set_conv_nth)

section \<open>A store of named values\<close>

locale name_store =
  fixes ok :: "'s \<Rightarrow> bool"
    and put :: "'n \<Rightarrow> 'v \<Rightarrow> 's \<Rightarrow> 's option"
    and got :: "'n \<Rightarrow> 's \<Rightarrow> 'v option"
    and key :: "'n \<Rightarrow> 'k"
    and trim :: "'v \<Rightarrow> 'v"
  assumes put_ok: "ok s \<Longrightarrow> put n v s = Some s' \<Longrightarrow> ok s'"
    and got_put: "ok s \<Longrightarrow> put n v s = Some s' \<Longrightarrow> got m s' = (if key m = key n then Some (trim v) else got m s)"
begin

fun put_all :: "('n \<times> 'v) list \<Rightarrow> 's \<Rightarrow> 's option" where
  "put_all [] s = Some s"
| "put_all ((n, v) # ws) s = do { s \<leftarrow> put n v s; put_all ws s }"

text \<open>The last value written under the name.\<close>

fun last_put :: "('n \<times> 'v) list \<Rightarrow> 'n \<Rightarrow> 'v option" where
  "last_put [] m = None"
| "last_put ((n, v) # ws) m =
     (case last_put ws m of Some w \<Rightarrow> Some w | None \<Rightarrow> if key m = key n then Some (trim v) else None)"

lemma put_all_ok: "ok s \<Longrightarrow> put_all ws s = Some s' \<Longrightarrow> ok s'"
  by (induction ws s rule: put_all.induct) (auto elim!: bind_SomeE dest: put_ok)

lemma got_put_all:
  "ok s \<Longrightarrow> put_all ws s = Some s' \<Longrightarrow> got m s' = (case last_put ws m of Some v \<Rightarrow> Some v | None \<Rightarrow> got m s)"
proof (induction ws s rule: put_all.induct)
  case (2 n v ws s)
  then obtain t where t: "put n v s = Some t" "put_all ws t = Some s'"
    by (auto elim!: bind_SomeE)
  have "ok t"
    by (rule put_ok [OF "2.prems"(1) t(1)])
  then show ?case
    using "2.IH" [OF t(1) _ t(2)] got_put [OF "2.prems"(1) t(1), of m] by (auto split: option.split)
qed simp

lemma overwritten:
  assumes "ok s" and "put n v s = Some t" and "put n w t = Some u"
  shows "got n u = Some (trim w) \<and> (key m \<noteq> key n \<longrightarrow> got m u = got m s)"
  using got_put [OF assms(1,2), of m] got_put [OF put_ok [OF assms(1,2)] assms(3)] by simp

end

end
