(* ===== verification/FsStore.thy ===== *)
theory FsStore
  imports FsFacts NameStore
begin

text \<open>
  AurionFS as a store of named files: a saved file is loaded back and the others keep their
  bytes. The tables are searched by position, so the proof works on the list of names and the list
  of file numbers of the slots.
\<close>

section \<open>The lists that the lookups walk\<close>

definition names :: "'d aur \<Rightarrow> bytes list" where
  "names s = map (\<lambda>i. fold_case (fe_name (fs_table s ! i))) [0..<fs_count s]"

definition owners :: "'d aur \<Rightarrow> nat list" where
  "owners s = map (\<lambda>k. unat (fc_idx (file_contents s ! k))) [0..<file_content_count s]"

lemma fs_find_index: "fs_find s p = index_of (fold_case p) (names s)"
  unfolding fs_find_def index_of_def names_def same_name_def str_cmp_0_iff
  by (auto intro!: find_cong)

lemma slot_of_index: "slot_of s i = index_of i (owners s)"
  unfolding slot_of_def index_of_def owners_def by (auto intro!: find_cong)

lemma length_names [simp]: "length (names s) = fs_count s"
  by (simp add: names_def)

lemma length_owners [simp]: "length (owners s) = file_content_count s"
  by (simp add: owners_def)

text \<open>The bytes of the file that a name leads to.\<close>

definition file_bytes :: "'d aur \<Rightarrow> bytes \<Rightarrow> bytes option" where
  "file_bytes s name = do { path \<leftarrow> full_path s name; i \<leftarrow> fs_find s path; stored s i }"

section \<open>Loading\<close>

lemma sint_small: "unat (w :: u32) < 2147483648 \<Longrightarrow> sint w = int (unat w)"
proof -
  assume "unat w < 2147483648"
  then have "sint (of_nat (unat w) :: u32) = int (unat w)"
    by (simp add: sint_uint signed_take_bit_int_eq_self_iff uint_nat unat_of_nat signed_take_bit_int_eq_self
        del: of_nat_unat ucast_id)
  then show ?thesis
    by (simp only: of_nat_unat ucast_id)
qed

lemma stored_length: "fs_ok s \<Longrightarrow> stored s i = Some d \<Longrightarrow> length d \<le> 8192"
  using slot_of_less [of s i] fs_ok_nth(4) [of s] by (fastforce simp: stored_def)

lemma load_eq:
  assumes "fs_ok s" and "file_bytes s name = Some d" and "int (length d) \<le> max_len" and "0 < max_len"
    and "nat max_len \<le> length buffer"
  shows "\<exists>b. load_file_content name buffer max_len s = Some (int (length d), b) \<and> take (length d) b = d"
proof -
  obtain path i k where p: "full_path s name = Some path" "fs_find s path = Some i" "slot_of s i = Some k"
      and d: "d = take (unat (fc_size (file_contents s ! k))) (fc_data (file_contents s ! k))"
    using assms(2) by (auto simp: file_bytes_def stored_def elim!: bind_SomeE)
  let ?c = "file_contents s ! k"
  have c: "length (fc_data ?c) = 8192" "unat (fc_size ?c) \<le> 8192"
    using fs_ok_nth(4) [OF assms(1) slot_of_less [OF assms(1) p(3)]] by simp_all
  then have ld: "length d = unat (fc_size ?c)"
    by (simp add: d)
  have sz: "min (sint (fc_size ?c)) max_len = int (length d)"
    using sint_small [of "fc_size ?c"] c(2) assms(3) ld by simp
  have fits: "length d \<le> length buffer"
    using assms(3,5) by linarith
  define b1 where "b1 = d @ drop (length d) buffer"
  have w: "wrn buffer 0 d = Some b1" "rdn (fc_data ?c) 0 (length d) = Some d"
    using fits ld c by (simp_all add: wrn_def b1_def rdn_def) (simp add: d)
  have e: "load_file_content name buffer max_len s = do {
      b \<leftarrow> (if int (length d) < max_len then wrn b1 (length d) [0] else Some b1); Some (int (length d), b) }"
    unfolding load_file_content_def p Option.bind.simps option.case Let_def sz using assms(4) w by simp
  show ?thesis
  proof (cases "int (length d) < max_len")
    case True
    then have "length d < length buffer"
      using assms(5) by linarith
    then have "wrn b1 (length d) [0] = Some (d @ [0] @ drop (length d + 1) buffer)"
      by (simp add: wrn_def b1_def)
    with True show ?thesis
      by (simp add: e)
  qed (simp add: e b1_def)
qed

section \<open>Saving\<close>

lemma nth_update: "j < length xs \<Longrightarrow> xs[i := y] ! j = (if i = j then y else xs ! j)"
  by (simp add: nth_list_update)

lemma nth_update_in: "i < length xs \<Longrightarrow> xs[i := y] ! j = (if i = j then y else xs ! j)"
  by simp

lemma names_upd_entry: "(\<And>e. fe_name (f e) = fe_name e) \<Longrightarrow> fs_count s \<le> length (fs_table s) \<Longrightarrow> names (upd_entry i f s) = names s"
  by (auto simp: names_def upd_entry_def nth_update)

lemma names_new_entry:
  assumes "fs_count s < length (fs_table s)" and "\<And>e. fe_name (f e) = fe_name e"
  shows "names (new_entry path f s) = names s @ [map upper8 (take 55 (cstr path))]"
  using assms by (auto simp: names_def new_entry_def upd_entry_def Let_def fold_case_def nth_update)

lemma content_slot_facts:
  assumes "fs_ok s" and "content_slot i s = Some (k, t)" and "i < 65536"
  shows "index_of i (owners t) = Some k" and "j \<noteq> i \<Longrightarrow> index_of j (owners t) = index_of j (owners s)"
    and "\<And>m. m \<noteq> k \<Longrightarrow> file_contents t ! m = file_contents s ! m" and "names t = names s" and "current_dir t = current_dir s"
    and "length (file_contents t) = 256" and "k < 256"
proof -
  have l: "length (file_contents s) = 256" and "file_content_count s \<le> 256"
    using assms(1) by (simp_all add: fs_ok_def fs_shape_def)
  have both: "index_of i (owners t) = Some k \<and> (j \<noteq> i \<longrightarrow> index_of j (owners t) = index_of j (owners s)) \<and>
      (\<forall>m. m \<noteq> k \<longrightarrow> file_contents t ! m = file_contents s ! m) \<and> names t = names s \<and> current_dir t = current_dir s \<and>
      length (file_contents t) = 256"
  proof (cases "slot_of s i")
    case None
    then have k: "k = file_content_count s" "file_content_count s < 256"
        "t = upd_content k (\<lambda>c. c\<lparr>fc_idx := of_nat i\<rparr>) (s\<lparr>file_content_count := k + 1\<rparr>)"
      using assms(2) by (auto simp: content_slot_def Let_def split: if_splits)
    then have "owners t = owners s @ [i]"
      using l assms(3) by (auto simp: owners_def upd_content_def nth_update unat_of_nat)
    then show ?thesis
      using None k l by (auto simp: index_of_snoc slot_of_index upd_content_def names_def split: option.split)
  qed (use assms(2) l in \<open>auto simp: content_slot_def slot_of_index\<close>)
  then show "index_of i (owners t) = Some k" "j \<noteq> i \<Longrightarrow> index_of j (owners t) = index_of j (owners s)"
    "\<And>m. m \<noteq> k \<Longrightarrow> file_contents t ! m = file_contents s ! m" "names t = names s" "current_dir t = current_dir s"
    "length (file_contents t) = 256"
    by blast+
  show "k < 256"
    using content_slot_ok [OF assms(1,2)] by simp
qed

text \<open>A path that fits the name field of an entry, as \<open>save_file_content\<close> builds it.\<close>

lemma full_path_nul_free: "full_path s name = Some p \<Longrightarrow> nul_free p"
proof -
  have "nul_free (map slash c)" if "nul_free c" for c
    using that by (induction c) (auto simp: slash_def)
  moreover have "nul_free (skip_drive name)"
    by (simp add: skip_drive_def Let_def nul_free_drop)
  moreover assume "full_path s name = Some p"
  ultimately show ?thesis
    by (auto simp: full_path_def build_full_path_def Let_def intro: nul_free_take split: if_splits)
qed

lemma save_names:
  assumes "fs_ok s" and "nul_free p" and "length p \<le> 55" and "\<not> (fs_find s p = None \<and> 512 \<le> fs_count s)"
  shows "index_of (fold_case q) (names (save_entry p n s)) =
      (if fold_case q = fold_case p then Some (save_index p s) else index_of (fold_case q) (names s))"
    and "owners (save_entry p n s) = owners s" and "file_contents (save_entry p n s) = file_contents s"
    and "current_dir (save_entry p n s) = current_dir s"
proof -
  have len: "length (fs_table s) = 512" "fs_count s \<le> 512"
    using assms(1) by (simp_all add: fs_ok_def fs_shape_def)
  have fold: "map upper8 (take 55 (cstr p)) = fold_case p"
    using assms(2,3) by (simp add: fold_case_def)
  have "names (save_entry p n s) = (if fs_find s p = None then names s @ [fold_case p] else names s)"
  proof (cases "fs_find s p = None")
    case True
    define s1 where "s1 = new_entry p (\<lambda>e. e\<lparr>fe_type := 0, fe_attr := 0, fe_parent := 0xFFFF\<rparr>) s"
    have room: "fs_count s < length (fs_table s)"
      using True assms(4) len by simp
    then have "fs_count s1 \<le> length (fs_table s1)"
      by (simp add: s1_def new_entry_def Let_def upd_entry_def)
    moreover have "names s1 = names s @ [fold_case p]"
      unfolding s1_def fold [symmetric] by (rule names_new_entry [OF room]) simp
    ultimately show ?thesis
      using True by (simp add: save_entry_def s1_def [symmetric] names_upd_entry)
  next
    case False
    then show ?thesis
      using len by (auto simp: save_entry_def names_upd_entry)
  qed
  then show "index_of (fold_case q) (names (save_entry p n s)) =
      (if fold_case q = fold_case p then Some (save_index p s) else index_of (fold_case q) (names s))"
    by (auto simp: index_of_snoc fs_find_index save_index_def split: option.splits)
  show "owners (save_entry p n s) = owners s" "file_contents (save_entry p n s) = file_contents s"
    "current_dir (save_entry p n s) = current_dir s"
    by (auto simp: save_entry_def owners_def upd_entry_def new_entry_def Let_def)
qed

text \<open>
  The contract of \<open>save_file_content\<close>, for a name that fits and while there is room for the entry
  and its slot.
\<close>

definition has_room :: "'d aur \<Rightarrow> bytes \<Rightarrow> bool" where
  "has_room s p \<longleftrightarrow> (fs_find s p \<noteq> None \<or> fs_count s < 512) \<and>
     (slot_of s (save_index p s) \<noteq> None \<or> file_content_count s < 256)"

lemma save_eq:
  assumes "fs_ok s" and "full_path s name = Some p" and "length p \<le> 55" and "has_room s p"
    and "0 \<le> len" and "len \<le> 8192" and "nat len \<le> length data"
  shows "\<exists>s'. save_file_content io name data len s = Some (0, s') \<and> fs_ok s' \<and> current_dir s' = current_dir s \<and>
    (\<forall>q. fs_find s' q = (if fold_case q = fold_case p then Some (save_index p s) else fs_find s q)) \<and>
    stored s' (save_index p s) = Some (take (nat len) data) \<and> (\<forall>j. j \<noteq> save_index p s \<longrightarrow> stored s' j = stored s j)"
proof -
  let ?i = "save_index p s" and ?n = "nat len"
  have room: "\<not> (fs_find s p = None \<and> 512 \<le> fs_count s)" and neg: "\<not> len < 0" and n: "?n = min (nat len) 8192"
    using assms(4-6) by (auto simp: has_room_def)
  define t0 where "t0 = save_entry p ?n s"
  have i: "?i < 512"
    by (rule save_index_less [OF assms(1) room])
  have ok0: "fs_ok t0"
    unfolding t0_def by (rule save_entry_ok [OF assms(1) room])
  note sn = save_names [OF assms(1) full_path_nul_free [OF assms(2)] assms(3) room, where n = ?n, folded t0_def]
  have "slot_of t0 ?i \<noteq> None \<or> file_content_count t0 < 256"
    using assms(4) sn(2) by (metis has_room_def length_owners slot_of_index)
  then have "content_slot ?i t0 \<noteq> None"
    by (auto simp: content_slot_def Let_def split: option.split)
  then obtain k t where kt: "content_slot ?i t0 = Some (k, t)"
    by auto
  have i': "?i < 65536" using i by simp
  note cs = content_slot_facts [OF ok0 kt i']
  define d where "d = take ?n data"
  have d: "rdn data 0 ?n = Some d" "length d = ?n"
    using assms(7) by (simp_all add: rdn_def d_def)
  define u where "u = upd_content k (put_data d) t"
  have u: "names u = names t" "owners u = owners t" "current_dir u = current_dir t"
      "file_contents u = (file_contents t)[k := put_data d (file_contents t ! k)]"
    using cs(6,7) by (auto simp: u_def upd_content_def names_def owners_def nth_update_in put_data_def)
  have e: "save_file_content io name data len s = Some (0, saved io u)"
    unfolding save_file_eq [OF neg assms(2) room n] t0_def [symmetric] kt using d by (simp add: u_def)
  have "fs_ok t"
    using content_slot_ok [OF ok0 kt] by simp
  then have oku: "fs_ok u"
    using cs(7) d assms(6) by (simp add: u_def put_data_ok)
  have st: "stored (saved io u) = stored u" "names (saved io u) = names u"
    by (simp_all add: stored_def slot_of_def names_def fun_eq_iff)
  have "fs_find (saved io u) q = (if fold_case q = fold_case p then Some ?i else fs_find s q)" for q
    unfolding fs_find_index st u(1) cs(4) sn(1) ..
  moreover have "stored u ?i = Some d"
  proof -
    have "slot_of u ?i = Some k"
      using cs(1) u(2) by (simp add: slot_of_index)
    moreover have "file_contents u ! k = put_data d (file_contents t ! k)"
      using u(4) cs(6,7) by simp
    ultimately show ?thesis
      using d(2) assms(6) by (simp add: stored_def put_data_def unat_of_nat)
  qed
  moreover have "stored u j = stored s j" if j: "j \<noteq> ?i" for j
  proof -
    have "index_of j (owners u) = index_of j (owners s)"
      using cs(2) j sn(2) u(2) by simp
    then have sl: "slot_of u j = slot_of s j"
      by (simp add: slot_of_index)
    have "file_contents u ! m = file_contents s ! m" if "slot_of s j = Some m" for m
    proof -
      have "m < 256"
        by (rule slot_of_less [OF assms(1) that])
      have "m \<noteq> k"
      proof
        assume "m = k"
        then have "index_of j (owners t) = Some k"
          using that sl u(2) by (simp add: slot_of_index)
        then show False
          using cs(1) index_of_SomeD [of j "owners t" k] index_of_SomeD [of ?i "owners t" k] j by simp
      qed
      then show ?thesis
        using u(4) cs(3) sn(3) by simp
    qed
    then show ?thesis
      unfolding stored_def sl by (cases "slot_of s j") simp_all
  qed
  ultimately show ?thesis
    using e oku st cs(5) u(3) sn(4) by (intro exI [of _ "saved io u"]) (simp add: saved_ok d_def)
qed

lemma other_index:
  assumes "fold_case q \<noteq> fold_case p" and "fs_find s q = Some j"
  shows "j \<noteq> save_index p s"
proof (cases "fs_find s p")
  case None
  then show ?thesis
    using fs_find_less(1) [OF assms(2)] by (simp add: save_index_def)
next
  case (Some i)
  then have "names s ! i = fold_case p" "names s ! j = fold_case q"
    using assms(2) by (auto simp: fs_find_index dest: index_of_SomeD)
  then show ?thesis
    using assms(1) Some by (auto simp: save_index_def)
qed

lemma full_path_dir: "current_dir s' = current_dir s \<Longrightarrow> full_path s' name = full_path s name"
  by (simp add: full_path_def)

lemma save_bytes:
  assumes "fs_ok s" and "full_path s name = Some p" and "length p \<le> 55" and "has_room s p"
    and "0 \<le> len" and "len \<le> 8192" and "nat len \<le> length data"
  shows "\<exists>s'. save_file_content io name data len s = Some (0, s') \<and> fs_ok s' \<and> current_dir s' = current_dir s \<and>
    file_bytes s' name = Some (take (nat len) data) \<and>
    (\<forall>other q. full_path s other = Some q \<longrightarrow>
      file_bytes s' other = (if fold_case q = fold_case p then Some (take (nat len) data) else file_bytes s other))"
proof -
  obtain s' where s': "save_file_content io name data len s = Some (0, s')" "fs_ok s'" "current_dir s' = current_dir s"
    "\<forall>q. fs_find s' q = (if fold_case q = fold_case p then Some (save_index p s) else fs_find s q)"
    "stored s' (save_index p s) = Some (take (nat len) data)" "\<forall>j. j \<noteq> save_index p s \<longrightarrow> stored s' j = stored s j"
    using save_eq [OF assms] by blast
  have paths: "full_path s' n = full_path s n" for n
    by (rule full_path_dir [OF s'(3)])
  have "file_bytes s' other = (if fold_case q = fold_case p then Some (take (nat len) data) else file_bytes s other)"
    if q: "full_path s other = Some q" for other q
  proof (cases "fold_case q = fold_case p")
    case True
    then show ?thesis
      using s'(4,5) q by (simp add: file_bytes_def paths)
  next
    case False
    then have "fs_find s' q = fs_find s q"
      using s'(4) by simp
    moreover have "stored s' j = stored s j" if "fs_find s q = Some j" for j
      using s'(6) other_index [OF False that] by simp
    ultimately show ?thesis
      using False q by (cases "fs_find s q") (simp_all add: file_bytes_def paths)
  qed
  note all = this
  show ?thesis
    by (intro exI [of _ s'] conjI allI impI s'(1-3)) (use all assms(2) in simp_all)
qed

text \<open>
  C4: A saved file is loaded back: with room for the entry and its slot, and a full path of at
  most 55 bytes, \<open>save_file_content\<close> returns 0, a following \<open>load_file_content\<close> of the name returns
  the length and the bytes, and every file whose path differs by more than case keeps its bytes.
\<close>

theorem fs_save_load:
  assumes "fs_ok s" and "full_path s name = Some p" and "length p \<le> 55" and "has_room s p"
    and "0 \<le> len" and "len \<le> 8192" and "nat len \<le> length data" and "8192 \<le> length buffer"
  shows "\<exists>s' b. save_file_content io name data len s = Some (0, s') \<and>
    load_file_content name buffer 8192 s' = Some (len, b) \<and> take (nat len) b = take (nat len) data \<and>
    (\<forall>other q. full_path s other = Some q \<longrightarrow> fold_case q \<noteq> fold_case p \<longrightarrow> file_bytes s' other = file_bytes s other)"
proof -
  obtain s' where s': "save_file_content io name data len s = Some (0, s')" "fs_ok s'"
      "file_bytes s' name = Some (take (nat len) data)"
      "\<forall>other q. full_path s other = Some q \<longrightarrow>
        file_bytes s' other = (if fold_case q = fold_case p then Some (take (nat len) data) else file_bytes s other)"
    using save_bytes [OF assms(1-7)] by blast
  have len: "int (length (take (nat len) data)) = len"
    using assms(5,7) by simp
  obtain b where "load_file_content name buffer 8192 s' = Some (len, b)" "take (nat len) b = take (nat len) data"
    using load_eq [OF s'(2,3), of 8192 buffer] assms(5-8) len by auto
  then show ?thesis
    using s'(1,4) by auto
qed

section \<open>AurionFS is a store of named files\<close>

text \<open>Absolute paths that no step changes on the way into the table.\<close>

definition plain_path :: "bytes \<Rightarrow> bool" where
  "plain_path p \<longleftrightarrow> nul_free p \<and> peek p = 0x2F \<and> length p \<le> 55 \<and> 0x5C \<notin> set p \<and> \<not> drive_letter p"

lemma plain_full_path: "plain_path p \<Longrightarrow> full_path s p = Some p"
proof -
  assume p: "plain_path p"
  then have "map slash p = p"
    by (intro map_idI) (auto simp: plain_path_def slash_def)
  then show ?thesis
    using p by (auto simp: plain_path_def full_path_def build_full_path_def skip_drive_def Let_def)
qed

definition fs_put :: "'d disk_io \<Rightarrow> bytes \<Rightarrow> bytes \<Rightarrow> 'd aur \<Rightarrow> 'd aur option" where
  "fs_put io p b s =
     (if plain_path p \<and> length b \<le> 8192
      then case save_file_content io p b (int (length b)) s of
             Some (r, s') \<Rightarrow> if r = 0 then Some s' else None
           | None \<Rightarrow> None
      else None)"

definition fs_got :: "bytes \<Rightarrow> 'd aur \<Rightarrow> bytes option" where
  "fs_got p s = (if plain_path p then file_bytes s p else None)"

lemma save_room:
  assumes "fs_ok s" and "full_path s name = Some p" and "length p \<le> 55" and "save_file_content io name data len s = Some (0, s')"
  shows "has_room s p"
proof (rule ccontr)
  assume no: "\<not> has_room s p"
  have neg: "\<not> len < 0"
    using assms(4) by (auto simp: save_file_content_def)
  show False
  proof (cases "fs_find s p = None \<and> 512 \<le> fs_count s")
    case True
    then show False
      using assms(2,4) neg by (simp add: save_file_content_def)
  next
    case room: False
    define n where "n = min (nat len) 8192"
    have "owners (save_entry p n s) = owners s"
      by (rule save_names(2) [OF assms(1) full_path_nul_free [OF assms(2)] assms(3) room])
    then have "slot_of (save_entry p n s) (save_index p s) = slot_of s (save_index p s)"
        "file_content_count (save_entry p n s) = file_content_count s"
      by (metis slot_of_index, metis length_owners)
    then have "content_slot (save_index p s) (save_entry p n s) = None"
      using no room by (auto simp: has_room_def content_slot_def)
    then show False
      using assms(4) unfolding save_file_eq [OF neg assms(2) room n_def] by simp
  qed
qed

lemma fs_put_got:
  assumes "fs_ok s" and "fs_put io p b s = Some s'"
  shows "fs_ok s' \<and> fs_got q s' = (if fold_case q = fold_case p \<and> plain_path q then Some b else fs_got q s)"
proof -
  have p: "plain_path p" "length b \<le> 8192" and save: "save_file_content io p b (int (length b)) s = Some (0, s')"
    using assms(2) by (auto simp: fs_put_def split: if_splits option.splits)
  have l: "length p \<le> 55"
    using p(1) by (simp add: plain_path_def)
  note r = save_bytes [OF assms(1) plain_full_path [OF p(1)] l save_room [OF assms(1) plain_full_path [OF p(1)] l save], of "int (length b)" b io]
  then obtain t where t: "save_file_content io p b (int (length b)) s = Some (0, t)" "fs_ok t"
      "\<forall>other q. full_path s other = Some q \<longrightarrow>
        file_bytes t other = (if fold_case q = fold_case p then Some (take (nat (int (length b))) b) else file_bytes s other)"
    using p(2) by auto
  then show ?thesis
    using save plain_full_path [of q s] by (auto simp: fs_got_def)
qed

text \<open>Keys: paths up to case, the paths that the store refuses kept apart.\<close>

definition path_key :: "bytes \<Rightarrow> bytes option" where
  "path_key p = (if plain_path p then Some (fold_case p) else None)"

interpretation aurion_files: name_store fs_ok "fs_put io" fs_got path_key id for io
proof
  fix s s' :: "'a aur" and n v m
  assume h: "fs_ok s" "fs_put io n v s = Some s'"
  then show "fs_ok s'"
    using fs_put_got by blast
  have "plain_path n"
    using h(2) by (auto simp: fs_put_def split: if_splits)
  then show "fs_got m s' = (if path_key m = path_key n then Some (id v) else fs_got m s)"
    using fs_put_got [OF h, of m] by (auto simp: path_key_def)
qed

text \<open>
  C8: AurionFS implements a map from paths to bytes: after any sequence of accepted saves, a path
  leads to the bytes that were saved last under it (up to case), and to what it led to before the
  sequence when none of them was for it.
\<close>

theorem fs_refines_map:
  assumes "fs_ok s" and "aurion_files.put_all io ws s = Some s'"
  shows "fs_ok s' \<and> fs_got p s' = (case aurion_files.last_put ws p of Some b \<Rightarrow> Some b | None \<Rightarrow> fs_got p s)"
  using aurion_files.put_all_ok [OF assms] aurion_files.got_put_all [OF assms] by blast

text \<open>The freshly booted kernel has room for the file \<open>/a\<close>.\<close>

lemma boot_counts: "fs_count (boot_aur d) = 0" "file_content_count (boot_aur d) = 0"
  by (simp_all add: boot_aur_def)

lemma a_plain: "plain_path (lit ''/a'')"
  by (simp add: plain_path_def drive_letter_def of_char_def)

lemma boot_room: "has_room (boot_aur d) p"
  by (simp add: has_room_def boot_counts)

lemma put_boot:
  assumes "length v \<le> 8192"
  shows "\<exists>s'. fs_put io (lit ''/a'') v (boot_aur d) = Some s'"
proof -
  have "length (lit ''/a'') \<le> 55"
    by simp
  from save_bytes [OF boot_aur_ok plain_full_path [OF a_plain] this boot_room, of "int (length v)" v io d] assms
  show ?thesis
    using a_plain by (auto simp: fs_put_def)
qed

theorem fs_save_load_witness:
  "\<exists>s' b. save_file_content ram_disk (lit ''/a'') [7, 8, 9] 2 (boot_aur blank_disk) = Some (0, s') \<and>
    load_file_content (lit ''/a'') (replicate 8192 0) 8192 s' = Some (2, b) \<and> take 2 b = [7, 8]"
proof -
  have "length (lit ''/a'') \<le> 55" "0 \<le> (2 :: int)" "(2 :: int) \<le> 8192" "nat 2 \<le> length [7, 8, 9 :: u8]"
      "8192 \<le> length (replicate 8192 (0 :: u8))"
    by (simp, simp, simp, simp, simp only: length_replicate)
  from fs_save_load [OF boot_aur_ok plain_full_path [OF a_plain] this(1) boot_room this(2-), of ram_disk blank_disk]
  show ?thesis
    by auto
qed

theorem fs_refines_map_witness:
  "\<exists>s'. aurion_files.put_all ram_disk [(lit ''/a'', [7])] (boot_aur blank_disk) = Some s' \<and> fs_got (lit ''/a'') s' = Some [7]"
proof -
  obtain s' where "fs_put ram_disk (lit ''/a'') [7] (boot_aur blank_disk) = Some s'"
    using put_boot [of "[7]" ram_disk blank_disk] by auto
  then have h: "aurion_files.put_all ram_disk [(lit ''/a'', [7])] (boot_aur blank_disk) = Some s'"
    by simp
  then show ?thesis
    using fs_refines_map [OF boot_aur_ok h, of "lit ''/a''"] by auto
qed

end
