(* ===== verification/FsFlaws.thy ===== *)
theory FsFlaws
  imports FsStore
begin

text \<open>
  Where AurionFS does not keep its promise: paths that do not fit the name field, and deletion,
  which moves the entries but not the file numbers of the slots.
\<close>

section \<open>Long paths\<close>

lemma str_len_le: "length b \<le> Suc n \<Longrightarrow> 0 \<in> set b \<Longrightarrow> str_len b \<le> n"
  using cstr_short [of b] by (simp add: str_len_def)

lemma long_path_absent:
  assumes "fs_ok s" and "55 < str_len p"
  shows "fs_find s p = None"
proof -
  have "str_len (fe_name (fs_table s ! i)) \<le> 55" if "i < fs_count s" for i
    using fs_ok_nth(1,2,8) [OF assms(1)] that by (intro str_len_le) auto
  then have "fold_case p \<notin> set (names s)"
    using assms(2) by (auto simp: names_def dest!: arg_cong [where f = length]) fastforce
  then show ?thesis
    by (simp add: fs_find_index index_of_None)
qed

text \<open>
  A file whose full path is longer than 55 bytes is lost: \<open>save_file_content\<close> reports success,
  but the name in the table is cut, so the file is not found under its path; each further save
  uses up another entry.
\<close>

theorem fs_long_path_lost:
  assumes "fs_ok s" and "full_path s name = Some p" and "55 < length p" and "fs_count s < 512"
    and "slot_of s (fs_count s) \<noteq> None \<or> file_content_count s < 256" and "0 \<le> len" and "len \<le> 8192" and "nat len \<le> length data"
  shows "\<exists>s'. save_file_content io name data len s = Some (0, s') \<and> fs_count s' = fs_count s + 1 \<and>
    (0 < max_len \<longrightarrow> load_file_content name buffer max_len s' = Some (-1, buffer))"
proof -
  have nf: "nul_free p"
    by (rule full_path_nul_free [OF assms(2)])
  then have len: "str_len p = length p"
    by (simp add: str_len_def)
  have none: "fs_find s p = None"
    using long_path_absent [OF assms(1)] assms(3) len by simp
  let ?t = "save_entry p (nat len) s"
  have room: "\<not> (fs_find s p = None \<and> 512 \<le> fs_count s)" and neg: "\<not> len < 0" and n: "nat len = min (nat len) 8192"
    using assms(4,6,7) by auto
  have t: "fs_count ?t = fs_count s + 1" "current_dir ?t = current_dir s" "owners ?t = owners s"
    using none by (simp_all add: save_entry_def new_entry_def upd_entry_def Let_def owners_def)
  have i: "save_index p s = fs_count s"
    using none by (simp add: save_index_def)
  have "slot_of ?t (fs_count s) = slot_of s (fs_count s)" "file_content_count ?t = file_content_count s"
    using t(3) by (simp add: slot_of_index, metis length_owners)
  then have "content_slot (fs_count s) ?t \<noteq> None"
    using assms(5) by (auto simp: content_slot_def Let_def split: option.split)
  then obtain k u where k: "content_slot (fs_count s) ?t = Some (k, u)"
    by auto
  have u: "fs_count u = fs_count ?t" "current_dir u = current_dir ?t"
    using k by (auto simp: content_slot_def Let_def upd_content_def split: option.splits if_splits)
  let ?s' = "saved io (upd_content k (put_data (take (nat len) data)) u)"
  have e: "save_file_content io name data len s = Some (0, ?s')"
    unfolding save_file_eq [OF neg assms(2) room n] i k using assms(8) by (simp add: rdn_def)
  have "fs_ok ?s'"
    by (rule save_file_ok [OF assms(1) e])
  moreover have "full_path ?s' name = Some p"
    using assms(2) t(2) u(2) by (simp add: full_path_def upd_content_def)
  ultimately have "load_file_content name buffer max_len ?s' = Some (-1, buffer)" if "0 < max_len"
    using that long_path_absent [of ?s' p] assms(3) len by (simp add: load_file_content_def)
  then show ?thesis
    using e t(1) u(1) by (intro exI [of _ ?s']) (simp add: upd_content_def)
qed

definition long_name :: bytes where
  "long_name = 0x2F # replicate 59 0x61"

lemma long_name_path: "full_path s long_name = Some long_name"
proof -
  have nf: "nul_free long_name"
    by (simp add: long_name_def nul_free_def)
  have "long_name ! 1 \<noteq> 0x3A"
    by (simp add: long_name_def)
  then have "skip_drive long_name = long_name"
    using nf by (simp add: skip_drive_def drive_letter_def)
  moreover have "map slash long_name = long_name"
    by (simp add: long_name_def slash_def)
  moreover have "length long_name = 60" "peek long_name = 0x2F"
    by (simp_all add: long_name_def)
  ultimately show ?thesis
    using nf by (simp add: full_path_def build_full_path_def Let_def)
qed

theorem fs_long_path_lost_witness:
  "\<exists>s'. save_file_content ram_disk long_name [7] 1 (boot_aur blank_disk) = Some (0, s') \<and> fs_count s' = 1 \<and>
    load_file_content long_name [0] 1 s' = Some (-1, [0])"
proof -
  have "55 < length long_name" "fs_count (boot_aur blank_disk) < 512" "0 \<le> (1 :: int)" "(1 :: int) \<le> 8192" "nat 1 \<le> length [7 :: u8]"
      "slot_of (boot_aur blank_disk) (fs_count (boot_aur blank_disk)) \<noteq> None \<or> file_content_count (boot_aur blank_disk) < 256"
    by (simp_all add: long_name_def boot_counts)
  from fs_long_path_lost [OF boot_aur_ok long_name_path this(1,2,6,3,4,5), of ram_disk 1 "[0]"]
  show ?thesis
    by (simp add: boot_counts)
qed

section \<open>Deletion\<close>

lemma remove_nth:
  assumes "i < fs_count s" and "fs_count s \<le> length (fs_table s)" and "j < fs_count s - 1"
  shows "fs_table (remove_entry i s) ! j = fs_table s ! (if j < i then j else j + 1)"
  using assms by (auto simp: remove_entry_def nth_append min_def)

lemma stored_remove [simp]: "stored (remove_entry i s) j = stored s j"
  by (simp add: stored_def slot_of_def remove_entry_def)

text \<open>
  Deleting a file gives its bytes to the next one: after \<open>DEL\<close> of the file at position
  \<open>i\<close> of the table, the name that was at position \<open>i + 1\<close> leads to the content of the deleted file, for
  the entries move up and the slots keep their file numbers.
\<close>

theorem fs_delete_misplaces:
  assumes "fs_ok s" and "distinct (names s)" and "get_token args 64 = (rest, name)" and "name \<noteq> []"
    and "peek name \<noteq> 0x2D" and "name \<noteq> lit ''/''" and "build_full_path (current_dir s) name = Some p" and "fs_find_type s 0 p = Some i"
    and "full_path s other = Some q" and "fs_find s q = Some (i + 1)"
  shows "\<exists>s'. cmd_del io args s = Some (0, s') \<and> fs_find s' q = Some i \<and> file_bytes s' other = stored s i"
proof -
  let ?t = "remove_entry i s"
  have "del_flags rest name = Some name"
    using assms(5) by (subst del_flags.simps) simp
  then have e: "cmd_del io args s = Some (0, saved io ?t)"
    using assms(3,4,6-8) by (simp add: cmd_del_def)
  have i: "i + 1 < fs_count s"
    by (rule fs_find_less(1) [OF assms(10)])
  have tab: "fs_count s \<le> length (fs_table s)"
    using assms(1) by (simp add: fs_ok_def fs_shape_def)
  have cnt: "fs_count ?t = fs_count s - 1"
    by (simp add: remove_entry_def)
  have nth: "names ?t ! j = names s ! (if j < i then j else j + 1)" if "j < fs_count s - 1" for j
    using that i tab remove_nth [of i s j] by (auto simp: names_def cnt simp del: upt_Suc nth_upt) (simp add: nth_upt)+
  have q: "names s ! (i + 1) = fold_case q"
    using assms(10) by (auto simp: fs_find_index dest: index_of_SomeD)
  have "find (\<lambda>j. names ?t ! j = fold_case q) [0..<length (names ?t)] = Some i"
    unfolding find_Some_iff
  proof (intro exI [of _ i] conjI allI impI)
    show "i < length [0..<length (names ?t)]" "names ?t ! ([0..<length (names ?t)] ! i) = fold_case q" "i = [0..<length (names ?t)] ! i"
      using i q nth [of i] cnt by simp_all
    fix j assume j: "j < i"
    then have "names s ! j \<noteq> names s ! (i + 1)"
      using assms(2) i by (simp add: nth_eq_iff_index_eq)
    then show "names ?t ! ([0..<length (names ?t)] ! j) \<noteq> fold_case q"
      using j i q nth [of j] cnt by simp
  qed
  then have f: "fs_find ?t q = Some i"
    by (simp add: fs_find_index index_of_def)
  have sv: "fs_find (saved io ?t) q = fs_find ?t q" "stored (saved io ?t) i = stored ?t i"
    by (simp_all add: fs_find_def same_name_def stored_def slot_of_def)
  have "full_path (saved io ?t) other = Some q"
    using assms(9) by (simp add: full_path_def remove_entry_def)
  then have "file_bytes (saved io ?t) other = stored s i"
    by (simp add: file_bytes_def sv f)
  moreover have "fs_find (saved io ?t) q = Some i"
    using f sv(1) by simp
  ultimately show ?thesis
    using e by (intro exI [of _ "saved io ?t"] conjI)
qed

definition sample_two :: "(nat \<Rightarrow> bytes) aur" where
  "sample_two = sample_fs\<lparr>fs_table := (fs_table sample_fs)[2 := sample_entry ''/todo'' 0 0], fs_count := 3\<rparr>"

lemma sample_two_fields:
  "fs_ok sample_two" "fs_count sample_two = 3" "stored sample_two 1 = Some [104, 105]"
  "fe_name (fs_table sample_two ! 0) = lit ''/Music'' @ replicate 50 0" "fe_name (fs_table sample_two ! 1) = lit ''/notes'' @ replicate 50 0"
  "fe_name (fs_table sample_two ! 2) = lit ''/todo'' @ replicate 51 0"
  "fe_type (fs_table sample_two ! 0) = 1" "fe_type (fs_table sample_two ! 1) = 0"
proof -
  have T: "fs_table sample_two ! 0 = sample_entry ''/Music'' 0 1" "fs_table sample_two ! 1 = sample_entry ''/notes'' 2 0"
      "fs_table sample_two ! 2 = sample_entry ''/todo'' 0 0"
      "file_contents sample_two ! 0 = \<lparr>fc_idx = 1, fc_size = 2, fc_data = [104, 105] @ replicate 8190 0\<rparr>" "file_content_count sample_two = 1"
    by (simp_all add: sample_two_def sample_fields boot_fields)
  show "fe_name (fs_table sample_two ! 0) = lit ''/Music'' @ replicate 50 0" "fe_name (fs_table sample_two ! 1) = lit ''/notes'' @ replicate 50 0"
    "fe_name (fs_table sample_two ! 2) = lit ''/todo'' @ replicate 51 0" "fe_type (fs_table sample_two ! 0) = 1" "fe_type (fs_table sample_two ! 1) = 0"
    unfolding T by (simp_all add: sample_entry_def)
  show "fs_count sample_two = 3"
    by (simp add: sample_two_def)
  show "stored sample_two 1 = Some [104, 105]"
    using T by (simp add: stored_def slot_of_def)
  have c: "length (fe_name (sample_entry ''/todo'' 0 0)) = 56" "0 \<in> set (fe_name (sample_entry ''/todo'' 0 0))"
    by (simp_all add: sample_entry_def)
  have tab: "fs_table sample_two = (fs_table sample_fs)[2 := sample_entry ''/todo'' 0 0]"
    by (simp add: sample_two_def)
  have "\<forall>e \<in> set (fs_table sample_two). length (fe_name e) = 56 \<and> 0 \<in> set (fe_name e)"
    unfolding tab using sample_ok c by (intro all_update) (auto simp: fs_ok_def fs_shape_def)
  then show "fs_ok sample_two"
    using sample_ok by (auto simp: sample_two_def fs_ok_def fs_shape_def)
qed

theorem fs_delete_misplaces_witness:
  "\<exists>s'. cmd_del ram_disk (lit ''/notes'') sample_two = Some (0, s') \<and> file_bytes s' (lit ''/todo'') = Some [104, 105]"
proof -
  note f = sample_two_fields
  have three: "[0..<3] = [0, 1, 2 :: nat]"
    by (simp add: upt_rec)
  have n: "names sample_two = [lit ''/MUSIC'', lit ''/NOTES'', lit ''/TODO'']"
    unfolding names_def f(2) three using f(4-6)
    by (simp add: fold_case_def cstr_zeros upper8_def of_char_def)
  have "get_token (lit ''/notes'' @ []) 64 = ([], lit ''/notes'')"
    by (rule get_token_word) (simp_all add: of_char_def blank_def)
  then have tok: "get_token (lit ''/notes'') 64 = ([], lit ''/notes'')"
    by simp
  have path: "build_full_path (current_dir sample_two) (lit ''/notes'') = Some (lit ''/notes'')"
    by (simp add: build_full_path_def Let_def of_char_def slash_def)
  have find: "fs_find_type sample_two 0 (lit ''/notes'') = Some 1"
    unfolding fs_find_type_def f(2) three same_name_def str_cmp_0_iff using f(4-8)
    by (simp add: fold_case_def cstr_zeros upper8_def of_char_def)
  have next': "full_path sample_two (lit ''/todo'') = Some (lit ''/todo'')"
    by (rule plain_full_path) (simp add: plain_path_def drive_letter_def of_char_def)
  have "fs_find sample_two (lit ''/todo'') = Some (1 + 1)"
    unfolding fs_find_index n index_of_def by (simp add: upt_rec upper8_def of_char_def)
  moreover have "distinct (names sample_two)" "lit ''/notes'' \<noteq> []" "peek (lit ''/notes'') \<noteq> 0x2D" "lit ''/notes'' \<noteq> lit ''/''"
    unfolding n by (simp_all add: of_char_def)
  ultimately obtain s' where "cmd_del ram_disk (lit ''/notes'') sample_two = Some (0, s')" "file_bytes s' (lit ''/todo'') = stored sample_two 1"
    using fs_delete_misplaces [OF f(1) _ tok _ _ _ path find next', of ram_disk] by blast
  then show ?thesis
    using f(3) by auto
qed

end
