(* ===== verification/Accounts.thy ===== *)
theory Accounts
  imports FsStore
begin

text \<open>
  Users, passwords and \<open>SUDO\<close> of \<open>src/src/commands.c\<close>. A password typed at a prompt is a list of
  key codes, those that arrive after the prompt has flushed the keyboard; \<open>None\<close> means that the
  keys run out before the line is finished, so that the prompt still waits. The messages are left
  out.
\<close>

section \<open>State and helpers\<close>

text \<open>The file system with the user table, and the grace period of \<open>SUDO\<close>.\<close>

record 'd shell =
  sh_fs :: "'d aur"
  sudo_last_tick :: u32
  sudo_last_user :: bytes

definition fs_reset_sudo :: "'d shell \<Rightarrow> 'd shell" where
  "fs_reset_sudo s = s\<lparr>sudo_last_tick := 0, sudo_last_user := (sudo_last_user s)[0 := 0]\<rparr>"

text \<open>\<open>pi\<close> characters have been typed, the last one first in \<open>acc\<close>.\<close>

fun password_keys :: "nat \<Rightarrow> bytes \<Rightarrow> u16 list \<Rightarrow> bytes option" where
  "password_keys 0 acc ks = Some (rev acc)"
| "password_keys (Suc room) acc [] = None"
| "password_keys (Suc room) acc (k # ks) =
     (let c = ucast k :: u8
      in if c = 13 \<or> c = 10 then Some (rev acc)
         else if c = 8 \<or> c = 127
              then if acc = [] then password_keys (Suc room) [] ks else password_keys (Suc (Suc room)) (tl acc) ks
         else if 32 \<le> c \<and> c \<le> 126 then password_keys room (c # acc) ks
         else password_keys (Suc room) acc ks)"

definition interactive_password_prompt :: "u16 list \<Rightarrow> nat \<Rightarrow> bytes option" where
  "interactive_password_prompt ks room = password_keys (room - 1) [] ks"

text \<open>The 32 bytes in which the 32-bit hash is repeated.\<close>

definition hash_bytes :: "u32 \<Rightarrow> bytes" where
  "hash_bytes h = map (\<lambda>j. ucast (drop_bit (j mod 4 * 8) h)) [0..<32]"

definition find_user :: "'d aur \<Rightarrow> bytes \<Rightarrow> nat option" where
  "find_user s name = find (\<lambda>i. str_cmp (ue_name (user_table s ! i)) name = 0) [0..<user_count s]"

definition password_ok :: "'d aur \<Rightarrow> nat \<Rightarrow> bytes \<Rightarrow> bool" where
  "password_ok s i pass \<longleftrightarrow> ue_hash (user_table s ! i) = hash_bytes (hash_string pass)"

definition set_password :: "nat \<Rightarrow> bytes \<Rightarrow> 'd aur \<Rightarrow> 'd aur" where
  "set_password i pass s = s\<lparr>user_table := (user_table s)[i := (user_table s ! i)\<lparr>ue_hash := hash_bytes (hash_string pass)\<rparr>]\<rparr>"

section \<open>Commands\<close>

definition cmd_useradd :: "'d disk_io \<Rightarrow> bytes \<Rightarrow> 'd aur \<Rightarrow> int \<times> 'd aur" where
  "cmd_useradd io args s =
     (let (args, username) = get_token args 32; password = snd (get_token args 32); n = user_count s
      in if username = [] \<or> password = [] then (-1, s)
         else if 32 \<le> n then (-1, s)
         else if find_user s username \<noteq> None then (-1, s)
         else (0, saved io (s\<lparr>user_table := (user_table s)[n := \<lparr>ue_name = str_copy (ue_name (user_table s ! n)) username 32,
                                                           ue_hash = hash_bytes (hash_string password)\<rparr>],
                             user_count := n + 1\<rparr>)))"

definition remove_user :: "nat \<Rightarrow> 'd aur \<Rightarrow> 'd aur" where
  "remove_user i s =
     s\<lparr>user_table := take i (user_table s) @ take (user_count s - 1 - i) (drop (i + 1) (user_table s)) @ drop (user_count s - 1) (user_table s),
       user_count := user_count s - 1\<rparr>"

definition cmd_userdel :: "'d disk_io \<Rightarrow> bytes \<Rightarrow> u16 list \<Rightarrow> 'd aur \<Rightarrow> (int \<times> 'd aur) option" where
  "cmd_userdel io args ks s =
     (let username = snd (get_token args 32)
      in if username = [] then Some (-1, s)
         else if str_cmp username (lit ''root'') = 0 then Some (-1, s)
         else do {
           pass \<leftarrow> interactive_password_prompt ks 32;
           case find_user s (current_user s) of
             None \<Rightarrow> Some (-1, s)
           | Some j \<Rightarrow>
               if \<not> password_ok s j pass then Some (-1, s)
               else (case find_user s username of
                       None \<Rightarrow> Some (-1, s)
                     | Some i \<Rightarrow> Some (0, saved io (remove_user i s))) })"

text \<open>The three key streams are those of the old, the new and the retyped password.\<close>

definition cmd_passwd :: "'d disk_io \<Rightarrow> bytes \<Rightarrow> u16 list \<Rightarrow> u16 list \<Rightarrow> u16 list \<Rightarrow> 'd aur \<Rightarrow> (int \<times> 'd aur) option" where
  "cmd_passwd io args ks_old ks_new ks_again s =
     (let (args, username) = get_token args 32; newpass_arg = snd (get_token args 32);
          username = (if username = [] then take 31 (cstr (current_user s)) else username)
      in case find_user s username of
           None \<Rightarrow> Some (-1, s)
         | Some i \<Rightarrow>
             if newpass_arg \<noteq> [] then Some (0, saved io (set_password i newpass_arg s))
             else
               let is_root = str_cmp (current_user s) (lit ''root'') = 0;
                   is_self = str_cmp (current_user s) username = 0
               in do {
                 pass_ok \<leftarrow> (if \<not> is_root \<or> is_self
                            then map_option (password_ok s i) (interactive_password_prompt ks_old 32) else Some True);
                 if \<not> pass_ok then Some (-1, s)
                 else do {
                   newpass1 \<leftarrow> interactive_password_prompt ks_new 32;
                   newpass2 \<leftarrow> interactive_password_prompt ks_again 32;
                   if str_cmp newpass1 newpass2 \<noteq> 0 then Some (-1, s)
                   else if newpass1 = [] then Some (-1, s)
                   else Some (0, saved io (set_password i newpass1 s)) } })"

definition cmd_login :: "bytes \<Rightarrow> 'd aur \<Rightarrow> int \<times> 'd aur" where
  "cmd_login args s =
     (let (args, username) = get_token args 32; password = snd (get_token args 32)
      in if username = [] \<or> password = [] then (-1, s)
         else case find_user s username of
                None \<Rightarrow> (-1, s)
              | Some i \<Rightarrow>
                  if password_ok s i password
                  then (0, s\<lparr>current_user := str_copy (current_user s) username 32\<rparr>) else (-1, s))"

definition cmd_logout :: "'d aur \<Rightarrow> int \<times> 'd aur" where
  "cmd_logout s = (0, s\<lparr>current_user := str_copy (current_user s) (lit ''root'') 32\<rparr>)"

text \<open>
  \<open>SUDO\<close> for a command table \<open>dispatch\<close>. \<open>now\<close> and \<open>later\<close> are the values that the two calls of
  \<open>get_ticks\<close> see.
\<close>

definition sudo_password_ok :: "'d aur \<Rightarrow> bytes \<Rightarrow> bool" where
  "sudo_password_ok s pass \<longleftrightarrow>
     (\<exists>i \<in> set [0..<user_count s].
        (str_cmp (ue_name (user_table s ! i)) (current_user s) = 0 \<or> str_cmp (ue_name (user_table s ! i)) (lit ''root'') = 0) \<and>
        password_ok s i pass)"

definition as_user :: "bytes \<Rightarrow> 'd shell \<Rightarrow> 'd shell" where
  "as_user u s = s\<lparr>sh_fs := (sh_fs s)\<lparr>current_user := str_copy (current_user (sh_fs s)) u 32\<rparr>\<rparr>"

definition cmd_sudo ::
  "(bytes \<Rightarrow> 'd shell \<Rightarrow> (int \<times> 'd shell) option) \<Rightarrow> u32 \<Rightarrow> u32 \<Rightarrow> u16 list \<Rightarrow> bytes \<Rightarrow> 'd shell \<Rightarrow> (int \<times> 'd shell) option" where
  "cmd_sudo dispatch now later ks args s =
     (let args = skip_spaces args; u = current_user (sh_fs s)
      in if peek args = 0 then Some (-1, s)
         else if str_cmp u (lit ''root'') = 0 then dispatch args s
         else if sudo_last_tick s \<noteq> 0 \<and> now - sudo_last_tick s < 30000 \<and> str_cmp (sudo_last_user s) u = 0
              then dispatch args s
         else do {
           pass \<leftarrow> interactive_password_prompt ks 32;
           if \<not> sudo_password_ok (sh_fs s) pass then Some (-1, s)
           else do {
             (result, t) \<leftarrow> dispatch args
               (as_user (lit ''root'') (s\<lparr>sudo_last_tick := later, sudo_last_user := str_copy (sudo_last_user s) u 32\<rparr>));
             Some (result, as_user (take 31 (cstr u)) t) } })"

section \<open>Logging in\<close>

lemma find_user_snoc:
  assumes "find_user s name = None" and "length (user_table s) = 32" and "user_count s < 32"
    and "T = (user_table s)[user_count s := u]" and "str_cmp (ue_name u) name = 0"
  shows "find_user (s\<lparr>user_table := T, user_count := user_count s + 1\<rparr>) name = Some (user_count s)"
proof -
  let ?P = "\<lambda>i. str_cmp (ue_name (T ! i)) name = 0"
  have none: "\<not> ?P i" if "i < user_count s" for i
    using assms(1,2,4) that by (auto simp: find_user_def find_None_iff)
  have "?P (user_count s)"
    using assms(2-5) by simp
  with none have "find ?P [0..<user_count s + 1] = Some (user_count s)"
    unfolding find_Some_iff by (intro exI [of _ "user_count s"]) (simp add: nth_append)
  then show ?thesis
    by (simp add: find_user_def)
qed

lemma find_user_saved [simp]: "find_user (saved io s) name = find_user s name"
  by (simp add: find_user_def)

lemma password_ok_saved [simp]: "password_ok (saved io s) i p = password_ok s i p"
  by (simp add: password_ok_def)

text \<open>
  C29: A created account can be used: when \<open>USERADD name password\<close> succeeds, \<open>LOGIN name password\<close>
  succeeds in the resulting state and makes the name the current user.
\<close>

theorem useradd_login:
  assumes "fs_ok s" and "cmd_useradd io args s = (0, s')"
  shows "\<exists>t. cmd_login args s' = (0, t) \<and> cstr (current_user t) = snd (get_token args 32) \<and> user_table t = user_table s'"
proof -
  obtain rest u where t1: "get_token args 32 = (rest, u)" by (cases "get_token args 32")
  define p where "p = snd (get_token rest 32)"
  let ?n = "user_count s"
  let ?e = "\<lparr>ue_name = str_copy (ue_name (user_table s ! ?n)) u 32, ue_hash = hash_bytes (hash_string p)\<rparr>"
  let ?t = "s\<lparr>user_table := (user_table s)[?n := ?e], user_count := ?n + 1\<rparr>"
  have c: "u \<noteq> []" "p \<noteq> []" "?n < 32" "find_user s u = None" and s': "s' = saved io ?t"
    using assms(2) unfolding cmd_useradd_def by (auto simp: t1 p_def Let_def split: if_splits)
  have len: "length (user_table s) = 32"
    using assms(1) by (simp add: fs_ok_def fs_shape_def)
  have u: "cstr u = u" "length u \<le> 31"
    using get_token_props(1,2) [OF t1] by simp_all
  then have "str_cmp (ue_name ?e) u = 0"
    by (simp add: str_cmp_0_iff fold_case_def)
  then have "find_user ?t u = Some ?n"
    by (intro find_user_snoc [where u = ?e]) (use c len in simp_all)
  moreover have "password_ok ?t ?n p"
    using c(3) len by (simp add: password_ok_def)
  ultimately have "cmd_login args s' = (0, s'\<lparr>current_user := str_copy (current_user s') u 32\<rparr>)"
    using c(1,2) by (simp add: cmd_login_def t1 p_def [symmetric] s')
  then show ?thesis
    using u by (simp add: t1)
qed

lemma eve_token: "get_token (lit ''eve pw'') 32 = (lit '' pw'', lit ''eve'')" "get_token (lit '' pw'') 32 = ([], lit ''pw'')"
proof -
  have "get_token (lit ''eve'' @ lit '' pw'') 32 = (lit '' pw'', lit ''eve'')"
    by (rule get_token_word) (simp_all add: of_char_def blank_def)
  then show "get_token (lit ''eve pw'') 32 = (lit '' pw'', lit ''eve'')"
    by simp
  have "skip_spaces (lit '' pw'') = lit ''pw''"
    by (simp add: skip_spaces_def blank_def of_char_def)
  then show "get_token (lit '' pw'') 32 = ([], lit ''pw'')"
    by (simp add: get_token_def Let_def blank_def of_char_def)
qed

lemma boot_users: "user_count (boot_aur d) = 0"
  by (simp add: boot_aur_def)

theorem useradd_login_witness:
  "\<exists>s' t. cmd_useradd ram_disk (lit ''eve pw'') (boot_aur blank_disk) = (0, s') \<and> cmd_login (lit ''eve pw'') s' = (0, t) \<and>
    cstr (current_user t) = lit ''eve''"
proof -
  obtain s' where h: "cmd_useradd ram_disk (lit ''eve pw'') (boot_aur blank_disk) = (0, s')"
    by (simp only: cmd_useradd_def Let_def eve_token prod.case snd_conv) (simp add: boot_users find_user_def of_char_def)
  show ?thesis
    using useradd_login [OF boot_aur_ok h] h eve_token by auto
qed

section \<open>Who may become root\<close>

text \<open>
  C12: \<open>SUDO\<close> never runs a command as somebody else without a password: for a user who is not root
  and gives neither a password of a matching account nor has a running grace period, nothing is
  dispatched; a command in the grace period is dispatched in the unchanged state, that is with the
  user's own identity; and with a right password the command sees root as the current user and the
  user is restored behind it.
\<close>

theorem sudo_guard:
  assumes "str_cmp (current_user (sh_fs s)) (lit ''root'') \<noteq> 0" and "cmd_sudo dispatch now later ks args s = Some (r, s')"
  shows "(r = -1 \<and> s' = s) \<or>
    (sudo_last_tick s \<noteq> 0 \<and> now - sudo_last_tick s < 30000 \<and> str_cmp (sudo_last_user s) (current_user (sh_fs s)) = 0 \<and>
      dispatch (skip_spaces args) s = Some (r, s')) \<or>
    (\<exists>pass t u. interactive_password_prompt ks 32 = Some pass \<and> sudo_password_ok (sh_fs s) pass \<and>
      dispatch (skip_spaces args) t = Some (r, u) \<and> cstr (current_user (sh_fs t)) = lit ''root'' \<and>
      cstr (current_user (sh_fs s')) = take 31 (cstr (current_user (sh_fs s))) \<and> fs_table (sh_fs s') = fs_table (sh_fs u))"
proof (cases "peek (skip_spaces args) = 0")
  case True
  then show ?thesis
    using assms(2) by (simp add: cmd_sudo_def)
next
  case nonempty: False
  note False = this
  show ?thesis
  proof (cases "sudo_last_tick s \<noteq> 0 \<and> now - sudo_last_tick s < 30000 \<and> str_cmp (sudo_last_user s) (current_user (sh_fs s)) = 0")
    case True
    then show ?thesis
      using assms False by (simp add: cmd_sudo_def)
  next
    case no_grace: False
    then obtain pass where p: "interactive_password_prompt ks 32 = Some pass"
      using assms False by (auto simp: cmd_sudo_def Let_def elim!: bind_SomeE)
    show ?thesis
    proof (cases "sudo_password_ok (sh_fs s) pass")
      case True
      define t where "t = as_user (lit ''root'') (s\<lparr>sudo_last_tick := later,
        sudo_last_user := str_copy (sudo_last_user s) (current_user (sh_fs s)) 32\<rparr>)"
      have "cmd_sudo dispatch now later ks args s =
          Option.bind (dispatch (skip_spaces args) t) (\<lambda>(result, t). Some (result, as_user (take 31 (cstr (current_user (sh_fs s)))) t))"
        unfolding cmd_sudo_def Let_def p Option.bind.simps if_not_P [OF assms(1)] if_not_P [OF False] if_not_P [OF no_grace] t_def
        using True by simp
      then obtain u where u: "dispatch (skip_spaces args) t = Some (r, u)" "s' = as_user (take 31 (cstr (current_user (sh_fs s)))) u"
        using assms(2) by (cases "dispatch (skip_spaces args) t") auto
      have "cstr (current_user (sh_fs t)) = lit ''root''"
        by (simp add: t_def as_user_def of_char_def)
      then show ?thesis
        using u p True by (auto simp: as_user_def nul_free_take)
    next
      case False
      then show ?thesis
        using assms(2) unfolding cmd_sudo_def Let_def p Option.bind.simps if_not_P [OF assms(1)] if_not_P [OF nonempty]
          if_not_P [OF no_grace]
        by simp
    qed
  qed
qed

definition eve_shell :: "(nat \<Rightarrow> bytes) shell" where
  "eve_shell = \<lparr>sh_fs = (boot_aur blank_disk)\<lparr>current_user := lit ''eve''\<rparr>, sudo_last_tick = 0, sudo_last_user = []\<rparr>"

theorem sudo_guard_witness:
  "\<exists>r s'. cmd_sudo (\<lambda>c t. Some (7, t)) 0 0 [113, 13] (lit ''ver'') eve_shell = Some (r, s') \<and> r \<noteq> 7"
proof -
  have np: "str_cmp (current_user (sh_fs eve_shell)) (lit ''root'') \<noteq> 0"
    by (simp add: eve_shell_def str_cmp_0_iff fold_case_def of_char_def)
  have no: "\<not> sudo_password_ok (sh_fs eve_shell) pass" for pass
    by (simp add: sudo_password_ok_def eve_shell_def boot_users)
  have "skip_spaces (lit ''ver'') = lit ''ver''"
    by (simp add: skip_spaces_def blank_def of_char_def)
  then have nonempty: "peek (skip_spaces (lit ''ver'')) \<noteq> 0"
    by (simp add: of_char_def)
  have key: "interactive_password_prompt [113, 13] 32 = Some [113]"
    by code_simp
  have e: "cmd_sudo (\<lambda>c t. Some (7, t)) 0 0 [113, 13] (lit ''ver'') eve_shell = Some (-1, eve_shell)"
    unfolding cmd_sudo_def Let_def key Option.bind.simps if_not_P [OF np] if_not_P [OF nonempty]
    using no by (simp add: eve_shell_def)
  show ?thesis
    using sudo_guard [OF np e] e no by auto
qed

text \<open>
  C40: A password can be changed without authentication: \<open>PASSWD name new\<close> succeeds for every user of
  the table, root included, whoever is logged in and without a key being typed, and afterwards
  \<open>LOGIN name new\<close> succeeds.
\<close>

theorem passwd_unauthenticated:
  assumes "get_token args 32 = (rest, name)" and "name \<noteq> []" and "snd (get_token rest 32) \<noteq> []" and "find_user s name = Some i"
    and "length (user_table s) = 32" and "user_count s \<le> 32"
  shows "\<exists>s' t. cmd_passwd io args [] [] [] s = Some (0, s') \<and> cmd_login args s' = (0, t) \<and> cstr (current_user t) = name"
proof -
  define p where "p = snd (get_token rest 32)"
  let ?t = "set_password i p s"
  have e: "cmd_passwd io args [] [] [] s = Some (0, saved io ?t)"
    using assms(1-4) by (simp add: cmd_passwd_def p_def Let_def)
  have i: "i < 32"
    using find_in_set [OF assms(4) [unfolded find_user_def]] assms(6) by simp
  have "find_user ?t name = Some i"
  proof -
    have "ue_name (user_table ?t ! j) = ue_name (user_table s ! j)" for j
      using i assms(5) by (simp add: set_password_def nth_update_in)
    then have "find_user ?t name = find_user s name"
      by (simp add: find_user_def) (simp add: set_password_def)
    then show ?thesis
      using assms(4) by simp
  qed
  moreover have "password_ok ?t i p"
    using i assms(5) by (simp add: password_ok_def set_password_def)
  ultimately have "cmd_login args (saved io ?t) = (0, (saved io ?t)\<lparr>current_user := str_copy (current_user (saved io ?t)) name 32\<rparr>)"
    using assms(1-3) by (simp add: cmd_login_def p_def [symmetric])
  then show ?thesis
    using e get_token_props(1,2) [OF assms(1)] by (intro exI conjI) (assumption | simp)+
qed

definition eve_fs :: "(nat \<Rightarrow> bytes) aur" where
  "eve_fs = (boot_aur blank_disk)\<lparr>user_table := (user_table (boot_aur blank_disk))
     [0 := \<lparr>ue_name = lit ''eve'', ue_hash = replicate 32 0\<rparr>], user_count := 1\<rparr>"

theorem passwd_unauthenticated_witness:
  "\<exists>s' t. cmd_passwd ram_disk (lit ''eve pw'') [] [] [] eve_fs = Some (0, s') \<and> cmd_login (lit ''eve pw'') s' = (0, t) \<and>
    cstr (current_user t) = lit ''eve''"
proof -
  have len: "length (user_table eve_fs) = 32" "user_count eve_fs \<le> 32"
    by (simp_all add: eve_fs_def boot_aur_def)
  have "ue_name (user_table eve_fs ! 0) = lit ''eve''"
    by (simp add: eve_fs_def boot_aur_def)
  then have "find_user eve_fs (lit ''eve'') = Some 0"
    by (simp add: find_user_def str_cmp_0_iff) (simp add: eve_fs_def str_cmp_0_iff)
  then show ?thesis
    using eve_token(2) by (intro passwd_unauthenticated [OF eve_token(1) _ _ _ len]) simp_all
qed

section \<open>Weak hashing\<close>

lemma hash_loop_two:
  "c \<noteq> 0 \<Longrightarrow> d \<noteq> 0 \<Longrightarrow> hash_loop h (c # d # ys) = hash_loop (33 * (33 * h + scast c) + scast d) ys"
proof -
  have "push_bit 5 w + w = 33 * w" for w :: u32
    by (simp add: push_bit_eq_mult)
  then show "c \<noteq> 0 \<Longrightarrow> d \<noteq> 0 \<Longrightarrow> ?thesis"
    by simp
qed

lemma scast_ascii:
  "scast (0x41 :: u8) = (0x41 :: u32)" "scast (0x61 :: u8) = (0x61 :: u32)" "scast (0x42 :: u8) = (0x42 :: u32)"
  "scast (0x40 :: u8) = (0x40 :: u32)"
  by code_simp+

lemma hash_collision: "hash_loop h (xs @ [0x41, 0x61] @ ys) = hash_loop h (xs @ [0x42, 0x40] @ ys)"
proof (induction xs arbitrary: h)
  case Nil
  have "33 * (33 * h + scast (0x41 :: u8)) + scast (0x61 :: u8) = 33 * (33 * h + scast (0x42 :: u8)) + scast (0x40 :: u8)"
    by (simp add: scast_ascii algebra_simps)
  then show ?case
    by (simp add: hash_loop_two del: hash_loop.simps)
qed simp

text \<open>
  Passwords are not told apart: exchanging \<open>Aa\<close> for \<open>B@\<close> anywhere in a password gives another
  password that \<open>LOGIN\<close>, \<open>PASSWD\<close>, \<open>USERDEL\<close> and \<open>SUDO\<close> accept for the same account.
\<close>

theorem password_collision:
  "password_ok s i (xs @ lit ''Aa'' @ ys) = password_ok s i (xs @ lit ''B@'' @ ys)"
  unfolding password_ok_def hash_string_def using hash_collision [of 5381 xs ys] by (simp add: of_char_def)

end
