(* ===== verification/MakeParse.thy ===== *)
theory MakeParse
  imports NameStore CmdText
begin

text \<open>
  The make utility, first half: variables, targets and the parser of \<open>src/src/cmd_make.c\<close>. A
  terminated string is the list of its characters without the terminator. The static tables are
  kept whole, with 32 target slots, because a recipe may run \<open>MAKE\<close> again and overwrite them. The
  loop that reads the dependencies of a rule need not end, so the parser is a partial function.
\<close>

section \<open>String helpers\<close>

fun make_str_cmp :: "bytes \<Rightarrow> bytes \<Rightarrow> int" where
  "make_str_cmp a b =
     (if peek a \<noteq> 0 \<and> peek b \<noteq> 0
      then let ca = upper8 (peek a); cb = upper8 (peek b)
           in if ca \<noteq> cb then sint ca - sint cb else make_str_cmp (tl a) (tl b)
      else sint (upper8 (peek a)) - sint (upper8 (peek b)))"

declare make_str_cmp.simps [simp del]

definition make_str_copy :: "bytes \<Rightarrow> nat \<Rightarrow> bytes" where
  "make_str_copy s room = take (room - 1) s"

fun make_str_startswith :: "bytes \<Rightarrow> bytes \<Rightarrow> bool" where
  "make_str_startswith s [] = True"
| "make_str_startswith s (p # ps) = (upper8 (peek s) = upper8 p \<and> make_str_startswith (tl s) ps)"

definition make_blank :: "u8 \<Rightarrow> bool" where
  "make_blank c \<longleftrightarrow> c = 0x20 \<or> c = 9 \<or> c = 13 \<or> c = 10"

definition make_str_trim :: "bytes \<Rightarrow> bytes" where
  "make_str_trim s = rev (dropWhile make_blank (rev s))"

section \<open>Variables\<close>

type_synonym make_vars = "(bytes \<times> bytes) list"

fun find_var :: "make_vars \<Rightarrow> bytes \<Rightarrow> nat option" where
  "find_var [] n = None"
| "find_var ((m, v) # vs) n = (if make_str_cmp m n = 0 then Some 0 else map_option Suc (find_var vs n))"

definition var_set :: "bytes \<Rightarrow> bytes \<Rightarrow> make_vars \<Rightarrow> make_vars" where
  "var_set name val vs =
     (case find_var vs name of
        Some i \<Rightarrow> vs[i := (fst (vs ! i), make_str_copy val 128)]
      | None \<Rightarrow> if length vs < 32 then vs @ [(make_str_copy name 32, make_str_copy val 128)] else vs)"

definition var_get :: "make_vars \<Rightarrow> bytes \<Rightarrow> bytes" where
  "var_get vs name = (case find_var vs name of Some i \<Rightarrow> snd (vs ! i) | None \<Rightarrow> [])"

text \<open>\<open>room\<close> characters may still be written. A name is cut after 31 characters, where it then ends.\<close>

function expand_vars :: "make_vars \<Rightarrow> bytes \<Rightarrow> nat \<Rightarrow> bytes" where
  "expand_vars vs src room =
     (if src = [] \<or> room = 0 then []
      else if peek src = 0x24 \<and> peek (tl src) = 0x28
      then let body = drop 2 src;
               vname = take 31 (takeWhile (\<lambda>c. c \<noteq> 0x29) body);
               rest = drop (length vname) body;
               rest = (if peek rest = 0x29 then tl rest else rest);
               val = take room (var_get vs vname)
           in val @ expand_vars vs rest (room - length val)
      else peek src # expand_vars vs (tl src) (room - 1))"
  by auto
termination
  by (relation "measure (\<lambda>(vs, src, room). length src)") (auto simp: Let_def)

declare expand_vars.simps [simp del]

section \<open>Targets\<close>

record make_target =
  mt_name :: bytes
  mt_deps :: "bytes list"
  mt_commands :: "bytes list"
  mt_phony :: bool
  mt_built :: bool

definition no_target :: make_target where
  "no_target = \<lparr>mt_name = [], mt_deps = [], mt_commands = [], mt_phony = False, mt_built = False\<rparr>"

text \<open>The tables of the make utility and the rest \<open>mk_world\<close> of the kernel's state.\<close>

record 'w make =
  mk_vars :: make_vars
  mk_targets :: "make_target list"
  mk_count :: nat
  mk_default :: bytes
  mk_world :: 'w

definition find_target :: "'w make \<Rightarrow> bytes \<Rightarrow> nat option" where
  "find_target s name = find (\<lambda>i. make_str_cmp (mt_name (mk_targets s ! i)) name = 0) [0..<mk_count s]"

definition upd_target :: "nat \<Rightarrow> (make_target \<Rightarrow> make_target) \<Rightarrow> 'w make \<Rightarrow> 'w make" where
  "upd_target i f s = s\<lparr>mk_targets := (mk_targets s)[i := f (mk_targets s ! i)]\<rparr>"

section \<open>The parser\<close>

text \<open>
  One line, at most \<open>room\<close> characters of it: what is put into the buffer and what is left of the
  file, the newline included. Carriage returns are left out.
\<close>

fun read_line :: "nat \<Rightarrow> bytes \<Rightarrow> bytes \<times> bytes" where
  "read_line room [] = ([], [])"
| "read_line room (c # cs) =
     (if room = 0 \<or> c = 10 then ([], c # cs)
      else if c = 13 then read_line room cs
      else let (l, r) = read_line (room - 1) cs in (c # l, r))"

text \<open>A command line of the current target.\<close>

definition parse_recipe :: "bytes \<Rightarrow> nat \<Rightarrow> 'w make \<Rightarrow> 'w make" where
  "parse_recipe line i s =
     (if length (mt_commands (mk_targets s ! i)) < 8
      then upd_target i (\<lambda>t. t\<lparr>mt_commands := mt_commands t @ [make_str_copy (expand_vars (mk_vars s) (tl line) 255) 256]\<rparr>) s
      else s)"

definition parse_phony :: "bytes \<Rightarrow> 'w make \<Rightarrow> 'w make" where
  "parse_phony line s =
     (let p = dropWhile (\<lambda>c. c = 0x20) (drop 7 line); pname = take 63 (takeWhile (\<lambda>c. c \<noteq> 0x20) p)
      in case find_target s pname of Some i \<Rightarrow> upd_target i (\<lambda>t. t\<lparr>mt_phony := True\<rparr>) s | None \<Rightarrow> s)"

text \<open>An assignment whose \<open>=\<close> is at position \<open>k\<close>.\<close>

definition parse_assign :: "bytes \<Rightarrow> nat \<Rightarrow> 'w make \<Rightarrow> 'w make" where
  "parse_assign line k s =
     (let vname = take 31 (takeWhile (\<lambda>c. \<not> blank c) (take k line));
          val = dropWhile blank (drop (k + 1) line)
      in s\<lparr>mk_vars := var_set vname (make_str_trim (expand_vars (mk_vars s) val 127)) (mk_vars s)\<rparr>)"

text \<open>The dependencies behind the colon. The loop skips spaces but not tabs.\<close>

partial_function (option) dep_words :: "make_vars \<Rightarrow> bytes \<Rightarrow> bytes list \<Rightarrow> bytes list option" where
  "dep_words vs p deps =
     (if p = [] \<or> 8 \<le> length deps then Some deps
      else let dep = take 63 (takeWhile (\<lambda>c. \<not> blank c) p);
               deps' = (if dep \<noteq> [] then deps @ [make_str_copy (expand_vars vs dep 63) 64] else deps)
           in dep_words vs (dropWhile (\<lambda>c. c = 0x20) (drop (length dep) p)) deps')"

text \<open>A rule whose colon is at position \<open>k\<close>, the number of the current target and the new state.\<close>

definition parse_rule :: "bytes \<Rightarrow> nat \<Rightarrow> nat option \<Rightarrow> 'w make \<Rightarrow> (nat option \<times> 'w make) option" where
  "parse_rule line k cur s =
     (let n = mk_count s
      in if 32 \<le> n then Some (cur, s)
         else
           let name = take 63 (takeWhile (\<lambda>c. \<not> blank c) (take k line));
               dflt = (if n = 0 \<and> peek name \<noteq> 0x2E then make_str_copy name 64 else mk_default s)
           in do {
             deps \<leftarrow> dep_words (mk_vars s) (dropWhile (\<lambda>c. c = 0x20) (drop (k + 1) line)) [];
             Some (Some n, s\<lparr>mk_targets := (mk_targets s)[n := no_target\<lparr>mt_name := name, mt_deps := deps\<rparr>],
                             mk_count := n + 1, mk_default := dflt\<rparr>) })"

text \<open>The position of the first \<open>=\<close> or \<open>:\<close> decides between an assignment and a rule.\<close>

definition parse_line :: "bytes \<Rightarrow> nat option \<Rightarrow> 'w make \<Rightarrow> (nat option \<times> 'w make) option" where
  "parse_line buf cur s =
     (let line = cstr buf
      in if buf = [] then Some (cur, s)
         else if peek line = 0x23 then Some (cur, s)
         else if peek line = 9 \<and> cur \<noteq> None then Some (cur, parse_recipe line (the cur) s)
         else if make_str_startswith line (lit ''.PHONY:'') then Some (cur, parse_phony line s)
         else
           let k = length (takeWhile (\<lambda>c. c \<noteq> 0x3D \<and> c \<noteq> 0x3A) line)
           in if peek (drop k line) = 0x3D then Some (None, parse_assign line k s)
              else if peek (drop k line) = 0x3A then parse_rule line k cur s
              else Some (None, s))"

lemma read_line_length: "length (snd (read_line room cs)) \<le> length cs"
  by (induction room cs rule: read_line.induct) (auto simp: Let_def split: prod.split)

lemma read_line_progress: "cs \<noteq> [] \<Longrightarrow> 0 < room \<Longrightarrow> length (tl (snd (read_line room cs))) < length cs"
proof (cases cs)
  case (Cons c ds)
  assume "0 < room"
  then show ?thesis
    using Cons read_line_length [of room ds] read_line_length [of "room - 1" ds]
    by (auto simp: Let_def split: prod.split)
qed simp

function parse_lines :: "bytes \<Rightarrow> nat option \<Rightarrow> 'w make \<Rightarrow> 'w make option" where
  "parse_lines cs cur s =
     (if cs = [] then Some s
      else do {
        (cur, s) \<leftarrow> parse_line (fst (read_line 255 cs)) cur s;
        parse_lines (tl (snd (read_line 255 cs))) cur s })"
  by auto
termination
  by (relation "measure (\<lambda>(cs, cur, s). length cs)") (simp_all add: read_line_progress del: length_tl)

declare parse_lines.simps [simp del]

definition parse_makefile :: "bytes \<Rightarrow> 'w make \<Rightarrow> 'w make option" where
  "parse_makefile content s = parse_lines content None (s\<lparr>mk_count := 0, mk_vars := [], mk_default := []\<rparr>)"

end
