(* ===== verification/MakeTables.thy ===== *)
theory MakeTables
  imports MakeParse
begin

text \<open>
  What the parser of the make utility guarantees: the variables behave as a map up to case, the
  tables stay within their arrays, and parsing returns for every file whose tabs lead lines; a tab
  behind the colon of a rule makes it loop for ever.
\<close>

section \<open>Variables are a map\<close>

lemma make_str_cmp_str_cmp: "make_str_cmp a b = str_cmp a b"
  by (induction a b rule: make_str_cmp.induct) (subst make_str_cmp.simps, subst str_cmp.simps, simp add: Let_def)

lemma make_str_cmp_0_iff: "make_str_cmp a b = 0 \<longleftrightarrow> fold_case a = fold_case b"
  by (simp add: make_str_cmp_str_cmp str_cmp_0_iff)

definition var_got :: "bytes \<Rightarrow> make_vars \<Rightarrow> bytes option" where
  "var_got n vs = map_option (\<lambda>i. snd (vs ! i)) (find_var vs n)"

text \<open>An assignment that the tables can take: the name is not cut and there is a slot for it.\<close>

definition var_put :: "bytes \<Rightarrow> bytes \<Rightarrow> make_vars \<Rightarrow> make_vars option" where
  "var_put n v vs = (if length n \<le> 31 \<and> (find_var vs n \<noteq> None \<or> length vs < 32) then Some (var_set n v vs) else None)"

lemma find_var_index: "find_var vs n = index_of (fold_case n) (map (fold_case \<circ> fst) vs)"
proof (induction vs)
  case (Cons a vs)
  have "index_of x (y # ys) = (if y = x then Some 0 else map_option Suc (index_of x ys))" for x y :: bytes and ys
  proof -
    have "[0..<Suc (length ys)] = 0 # map Suc [0..<length ys]"
      by (simp only: upt_conv_Cons map_Suc_upt zero_less_Suc)
    moreover have "find P (map f xs) = map_option f (find (P \<circ> f) xs)" for P and f :: "nat \<Rightarrow> nat" and xs
      by (induction xs) auto
    ultimately show ?thesis
      by (auto simp: index_of_def comp_def)
  qed
  with Cons show ?case
    by (cases a) (simp add: make_str_cmp_0_iff)
qed simp

lemma find_var_lt: "find_var vs n = Some i \<Longrightarrow> i < length vs \<and> fold_case (fst (vs ! i)) = fold_case n"
  by (auto simp: find_var_index dest!: index_of_SomeD)

lemma find_var_update: "i < length vs \<Longrightarrow> find_var (vs[i := (fst (vs ! i), w)]) n = find_var vs n"
  by (simp add: find_var_index map_update) (metis comp_def fst_conv length_map list_update_id nth_map)

lemma find_var_snoc:
  "find_var (vs @ [(m, w)]) n = (case find_var vs n of Some i \<Rightarrow> Some i | None \<Rightarrow> if fold_case n = fold_case m then Some (length vs) else None)"
  by (auto simp: find_var_index index_of_snoc split: option.split)

lemma var_got_var_put:
  assumes "var_put n v vs = Some vs'"
  shows "var_got m vs' = (if fold_case m = fold_case n then Some (take 127 v) else var_got m vs)"
proof (cases "find_var vs n")
  case None
  then have vs': "vs' = vs @ [(n, take 127 v)]"
    using assms by (auto simp: var_put_def var_set_def make_str_copy_def split: if_splits)
  have "fold_case m = fold_case n \<Longrightarrow> find_var vs m = None"
    using None by (simp add: find_var_index)
  then show ?thesis
    using find_var_lt [of vs m] unfolding vs' var_got_def find_var_snoc by (auto simp: nth_append split: option.split)
next
  case (Some i)
  then have vs': "vs' = vs[i := (fst (vs ! i), take 127 v)]"
    using assms by (auto simp: var_put_def var_set_def make_str_copy_def split: if_splits)
  have i: "i < length vs" "fold_case (fst (vs ! i)) = fold_case n"
    using find_var_lt [OF Some] by auto
  have same: "fold_case m = fold_case n \<Longrightarrow> find_var vs m = Some i"
    using Some by (simp add: find_var_index)
  show ?thesis
    using find_var_lt [of vs m] i same unfolding vs' var_got_def find_var_update [OF i(1)]
    by (cases "find_var vs m") (auto simp: nth_list_update)
qed

interpretation make_vars: name_store "\<lambda>_. True" var_put var_got fold_case "take 127"
  by unfold_locales (simp_all add: var_got_var_put)

lemma var_get_got: "var_get vs n = (case var_got n vs of Some v \<Rightarrow> v | None \<Rightarrow> [])"
  by (simp add: var_get_def var_got_def split: option.split)

text \<open>
  Variables are a finite map up to case: after assignments that the table can take, expanding a
  name gives the value assigned last, cut after 127 bytes, and the empty string for a name that was
  never assigned.
\<close>

theorem make_vars_map:
  assumes "make_vars.put_all ws [] = Some vs"
  shows "var_get vs n = (case make_vars.last_put ws n of Some v \<Rightarrow> v | None \<Rightarrow> [])"
  using make_vars.got_put_all [OF TrueI assms] by (simp add: var_get_got var_got_def split: option.split)

theorem make_vars_map_witness:
  "\<exists>vs. make_vars.put_all [(lit ''CC'', lit ''gcc''), (lit ''cc'', lit ''tcc'')] [] = Some vs \<and> var_get vs (lit ''Cc'') = lit ''tcc''"
proof -
  let ?ws = "[(lit ''CC'', lit ''gcc''), (lit ''cc'', lit ''tcc'')]"
  obtain vs where vs: "make_vars.put_all ?ws [] = Some vs"
    by (simp add: var_put_def var_set_def)
  have "make_vars.last_put ?ws (lit ''Cc'') = Some (lit ''tcc'')"
    by (simp add: fold_case_def of_char_def upper8_def)
  then show ?thesis
    using vs make_vars_map [OF vs, of "lit ''Cc''"] by simp
qed

section \<open>The tables stay within their arrays\<close>

definition target_ok :: "make_target \<Rightarrow> bool" where
  "target_ok t \<longleftrightarrow> length (mt_name t) \<le> 63 \<and> length (mt_deps t) \<le> 8 \<and> (\<forall>d \<in> set (mt_deps t). length d \<le> 63) \<and>
     length (mt_commands t) \<le> 8 \<and> (\<forall>c \<in> set (mt_commands t). length c \<le> 255)"

definition vars_ok :: "make_vars \<Rightarrow> bool" where
  "vars_ok vs \<longleftrightarrow> length vs \<le> 32 \<and> (\<forall>x \<in> set vs. length (fst x) \<le> 31 \<and> length (snd x) \<le> 127)"

definition make_ok :: "'w make \<Rightarrow> bool" where
  "make_ok s \<longleftrightarrow> vars_ok (mk_vars s) \<and> length (mk_targets s) = 32 \<and> mk_count s \<le> 32 \<and> (\<forall>t \<in> set (mk_targets s). target_ok t) \<and>
     length (mk_default s) \<le> 63"

lemma length_make_str_copy [simp]: "length (make_str_copy s room) = min (length s) (room - 1)"
  by (simp add: make_str_copy_def)

lemma set_update_ok: "(\<forall>x \<in> set xs. P x) \<Longrightarrow> P y \<Longrightarrow> \<forall>x \<in> set (xs[i := y]). P x"
  using set_update_subset_insert [of xs i y] by blast

lemma var_set_ok:
  assumes "vars_ok vs"
  shows "vars_ok (var_set n v vs)"
proof (cases "find_var vs n")
  case None
  then show ?thesis
    using assms by (auto simp: vars_ok_def var_set_def)
next
  case (Some i)
  then have "vs ! i \<in> set vs"
    using find_var_lt by auto
  with assms have "length (fst (vs ! i)) \<le> 31"
    by (simp add: vars_ok_def)
  then show ?thesis
    using assms Some unfolding vars_ok_def var_set_def by (auto dest!: set_update_memI set_update_subset_insert [THEN subsetD])
qed

lemma expand_vars_length: "length (expand_vars vs src room) \<le> room"
proof (induction vs src room rule: expand_vars.induct)
  case (1 vs src room)
  show ?case
  proof (cases "src = [] \<or> room = 0")
    case False
    show ?thesis
    proof (cases "peek src = 0x24 \<and> peek (tl src) = 0x28")
      case var: True
      let ?v = "take 31 (takeWhile (\<lambda>c. c \<noteq> 0x29) (drop 2 src))"
      let ?r = "drop (length ?v) (drop 2 src)"
      let ?r' = "if peek ?r = 0x29 then tl ?r else ?r"
      let ?val = "take room (var_get vs ?v)"
      have "length (expand_vars vs ?r' (room - length ?val)) \<le> room - length ?val"
        by (rule "1.IH"(1) [OF False var refl refl refl refl refl])
      then show ?thesis
        using False var by (subst expand_vars.simps) (simp only: Let_def if_False if_True length_append, simp)
    next
      case False
      then have "length (expand_vars vs (tl src) (room - 1)) \<le> room - 1"
        by (rule "1.IH"(2) [OF \<open>\<not> (src = [] \<or> room = 0)\<close>])
      then show ?thesis
        using False \<open>\<not> (src = [] \<or> room = 0)\<close> by (subst expand_vars.simps) (simp only: if_False, auto simp del: length_tl)
    qed
  qed (subst expand_vars.simps, simp)
qed

lemma dep_words_limits:
  assumes "dep_words vs p deps = Some ds" and "length deps \<le> 8" and "\<forall>d \<in> set deps. length d \<le> 63"
  shows "length ds \<le> 8 \<and> (\<forall>d \<in> set ds. length d \<le> 63)"
proof -
  have "length deps \<le> 8 \<and> (\<forall>d \<in> set deps. length d \<le> 63) \<longrightarrow> length ds \<le> 8 \<and> (\<forall>d \<in> set ds. length d \<le> 63)"
  proof (rule dep_words.raw_induct [OF _ assms(1), where P = "\<lambda>vs p deps ds. length deps \<le> 8 \<and> (\<forall>d \<in> set deps. length d \<le> 63) \<longrightarrow> length ds \<le> 8 \<and> (\<forall>d \<in> set ds. length d \<le> 63)"])
    fix f :: "make_vars \<Rightarrow> bytes \<Rightarrow> bytes list \<Rightarrow> bytes list option" and vs p deps ds
    let ?P = "\<lambda>deps ds. length deps \<le> 8 \<and> (\<forall>d \<in> set deps. length d \<le> 63) \<longrightarrow> length ds \<le> 8 \<and> (\<forall>d \<in> set ds. length (d::bytes) \<le> 63)"
    assume IH: "\<And>vs p deps ds. f vs p deps = Some ds \<Longrightarrow> ?P deps ds"
      and e: "(if p = [] \<or> 8 \<le> length deps then Some deps
         else let dep = take 63 (takeWhile (\<lambda>c. \<not> blank c) p); deps' = if dep \<noteq> [] then deps @ [make_str_copy (expand_vars vs dep 63) 64] else deps
              in f vs (dropWhile (\<lambda>c. c = 0x20) (drop (length dep) p)) deps') = Some ds"
    show "?P deps ds"
      using e by (auto simp: Let_def split: if_splits dest!: IH)
  qed
  then show ?thesis
    using assms(2,3) by blast
qed

lemma target_ok_nth: "make_ok s \<Longrightarrow> i < mk_count s \<Longrightarrow> target_ok (mk_targets s ! i)"
  by (auto simp: make_ok_def)

lemma upd_target_ok:
  "make_ok s \<Longrightarrow> i < mk_count s \<Longrightarrow> target_ok (f (mk_targets s ! i)) \<Longrightarrow> make_ok (upd_target i f s)"
  by (auto simp: make_ok_def upd_target_def dest!: set_update_subset_insert [THEN subsetD])

lemma find_target_lt: "find_target s n = Some i \<Longrightarrow> i < mk_count s \<and> fold_case (mt_name (mk_targets s ! i)) = fold_case n"
  by (auto simp: find_target_def find_Some_iff make_str_cmp_0_iff)

lemma parse_recipe_ok: "make_ok s \<Longrightarrow> i < mk_count s \<Longrightarrow> make_ok (parse_recipe line i s)"
  using target_ok_nth [of s i] expand_vars_length [of "mk_vars s" "tl line" 255]
  by (auto simp: parse_recipe_def target_ok_def intro!: upd_target_ok)

lemma parse_phony_ok: "make_ok s \<Longrightarrow> make_ok (parse_phony line s)"
  using target_ok_nth [of s] by (auto simp: parse_phony_def Let_def target_ok_def intro!: upd_target_ok dest!: find_target_lt split: option.split)

lemma parse_assign_ok: "make_ok s \<Longrightarrow> make_ok (parse_assign line k s)"
  by (auto simp: parse_assign_def Let_def make_ok_def intro!: var_set_ok)

lemma parse_rule_ok:
  assumes "make_ok s" and "\<forall>i. cur = Some i \<longrightarrow> i < mk_count s" and "parse_rule line k cur s = Some (cur', s')"
  shows "make_ok s' \<and> (\<forall>i. cur' = Some i \<longrightarrow> i < mk_count s')"
proof (cases "32 \<le> mk_count s")
  case True
  then show ?thesis
    using assms by (simp add: parse_rule_def)
next
  case False
  obtain ds where ds: "dep_words (mk_vars s) (dropWhile (\<lambda>c. c = 0x20) (drop (Suc k) line)) [] = Some ds"
    using assms(3) False by (auto simp: parse_rule_def Let_def elim!: bind_SomeE)
  define t where "t = no_target\<lparr>mt_name := take 63 (takeWhile (\<lambda>c. \<not> blank c) (take k line)), mt_deps := ds\<rparr>"
  have "target_ok t"
    using dep_words_limits [OF ds] by (simp add: t_def target_ok_def no_target_def)
  then have "\<forall>x \<in> set ((mk_targets s)[mk_count s := t]). target_ok x"
    using assms(1) by (intro set_update_ok) (simp_all add: make_ok_def)
  moreover define d where "d = (if mk_count s = 0 \<and> peek (mt_name t) \<noteq> 0x2E then make_str_copy (mt_name t) 64 else mk_default s)"
  have "s' = s\<lparr>mk_targets := (mk_targets s)[mk_count s := t], mk_count := mk_count s + 1, mk_default := d\<rparr>" "cur' = Some (mk_count s)"
    using assms(3) False by (auto simp: parse_rule_def Let_def ds t_def d_def)
  moreover have "length d \<le> 63"
    using assms(1) \<open>target_ok t\<close> by (auto simp: d_def make_ok_def target_ok_def)
  ultimately show ?thesis
    using assms(1) False by (simp add: make_ok_def)
qed

lemma parse_line_ok:
  assumes "make_ok s" and "\<forall>i. cur = Some i \<longrightarrow> i < mk_count s" and "parse_line buf cur s = Some (cur', s')"
  shows "make_ok s' \<and> (\<forall>i. cur' = Some i \<longrightarrow> i < mk_count s')"
proof -
  have "mk_count (parse_recipe line i s) = mk_count s" "mk_count (parse_phony line s) = mk_count s" for line i
    by (simp_all add: parse_recipe_def parse_phony_def upd_target_def Let_def split: option.split)
  then show ?thesis
    using assms parse_rule_ok [OF assms(1,2)] unfolding parse_line_def Let_def
    by (auto split: if_splits intro!: parse_recipe_ok parse_phony_ok parse_assign_ok)
qed

lemma parse_lines_Nil [simp]: "parse_lines [] cur s = Some s"
  by (simp add: parse_lines.simps)

lemma parse_lines_ok:
  "parse_lines cs cur s = Some s' \<Longrightarrow> make_ok s \<Longrightarrow> \<forall>i. cur = Some i \<longrightarrow> i < mk_count s \<Longrightarrow> make_ok s'"
proof (induction cs cur s arbitrary: s' rule: parse_lines.induct)
  case (1 cs cur s)
  show ?case
  proof (cases "cs = []")
    case True
    then show ?thesis
      using "1.prems" by simp
  next
    case False
    obtain cur1 s1 where l: "parse_line (fst (read_line 255 cs)) cur s = Some (cur1, s1)"
        and r: "parse_lines (tl (snd (read_line 255 cs))) cur1 s1 = Some s'"
      using "1.prems"(1) False by (subst (asm) parse_lines.simps) (auto elim!: bind_SomeE)
    show ?thesis
      using "1.IH" [OF False _ refl r] parse_line_ok [OF "1.prems"(2,3) l] l by blast
  qed
qed

text \<open>
  C18: Whatever a Makefile holds, parsing it keeps the tables within their arrays: at most 32
  variables and 32 targets, with at most 8 dependencies and 8 commands each, and every name, value
  and command terminated within its buffer.
\<close>

theorem parse_makefile_ok:
  assumes "make_ok s" and "parse_makefile content s = Some s'"
  shows "make_ok s'"
  using assms(1) by (intro parse_lines_ok [OF assms(2) [unfolded parse_makefile_def]]) (simp_all add: make_ok_def vars_ok_def)

definition blank_make :: "'w \<Rightarrow> 'w make" where
  "blank_make w = \<lparr>mk_vars = [], mk_targets = replicate 32 no_target, mk_count = 0, mk_default = [], mk_world = w\<rparr>"

lemma blank_make_ok: "make_ok (blank_make w)"
  by (simp add: make_ok_def blank_make_def vars_ok_def target_ok_def no_target_def)

section \<open>When parsing returns\<close>

lemma dep_words_returns: "9 \<notin> set p \<Longrightarrow> \<exists>ds. dep_words vs p deps = Some ds"
proof (induction "length p" arbitrary: p deps rule: less_induct)
  case less
  show ?case
  proof (cases "p = [] \<or> 8 \<le> length deps")
    case False
    define w where "w = take 63 (takeWhile (\<lambda>c. \<not> blank c) p)"
    let ?q = "dropWhile (\<lambda>c. c = 0x20) (drop (length w) p)"
    have sub: "set ?q \<subseteq> set p"
      using set_dropWhileD set_drop_subset by fastforce
    have "length ?q < length p"
    proof (cases "w = []")
      case True
      then have "peek p = 0x20"
        using False less.prems by (cases p) (auto simp: w_def blank_def split: if_splits)
      then show ?thesis
        using False True by (cases p) (auto intro: le_less_trans [OF length_dropWhile_le])
    next
      case w: False
      then show ?thesis
        using False by (intro le_less_trans [OF length_dropWhile_le]) simp
    qed
    then have "\<exists>ds. dep_words vs ?q d = Some ds" for d
      using less sub by blast
    then show ?thesis
      using False by (subst dep_words.simps) (simp add: Let_def w_def)
  qed (subst dep_words.simps, simp)
qed

text \<open>Every tab leads a line; \<open>b\<close> tells whether the text starts at the beginning of a line.\<close>

fun tabs_lead :: "bool \<Rightarrow> bytes \<Rightarrow> bool" where
  "tabs_lead b [] = True"
| "tabs_lead b (c # cs) = ((c = 9 \<longrightarrow> b) \<and> tabs_lead (c = 10) cs)"

lemma tabs_lead_mono: "tabs_lead b cs \<Longrightarrow> tabs_lead True cs"
  by (cases cs) auto

lemma read_line_no_tabs:
  "tabs_lead False cs \<Longrightarrow> 9 \<notin> set (fst (read_line room cs)) \<and> tabs_lead True (tl (snd (read_line room cs)))"
proof (induction room cs rule: read_line.induct)
  case (2 room c cs)
  then have c: "c \<noteq> 9" "tabs_lead (c = 10) cs"
    by auto
  show ?case
  proof (cases "room = 0 \<or> c = 10")
    case True
    then show ?thesis
      using tabs_lead_mono [OF c(2)] by auto
  next
    case False
    with c have "tabs_lead False cs"
      by simp
    then show ?thesis
      using 2 False c(1) by (auto simp: Let_def split: prod.split)
  qed
qed simp

lemma read_line_tabs:
  assumes "tabs_lead True cs" and "0 < room"
  shows "9 \<notin> set (tl (fst (read_line room cs))) \<and> tabs_lead True (tl (snd (read_line room cs)))"
proof (cases cs)
  case (Cons c ds)
  have tl: "9 \<notin> set xs \<Longrightarrow> 9 \<notin> set (tl xs)" for xs :: bytes
    by (cases xs) auto
  have t: "tabs_lead (c = 10) ds"
    using assms(1) Cons by simp
  show ?thesis
  proof (cases "c = 10")
    case False
    with t have "tabs_lead False ds"
      by simp
    from read_line_no_tabs [OF this, of room] read_line_no_tabs [OF this, of "room - 1"] show ?thesis
      using Cons False assms(2) tl [of "fst (read_line room ds)"] by (cases "c = 13") (simp_all add: Let_def split_beta)
  qed (use Cons t in simp)
qed simp

lemma parse_line_returns:
  assumes "9 \<notin> set (tl buf)"
  shows "\<exists>r. parse_line buf cur s = Some r"
proof -
  let ?line = "cstr buf"
  have "9 \<notin> set (tl ?line)"
    using assms by (cases buf) (auto simp: cstr_def dest: set_takeWhileD)
  then have "9 \<notin> set (dropWhile (\<lambda>c. c = 0x20) (drop (Suc k) ?line))" for k
    by (metis drop_Suc in_set_dropD set_dropWhileD)
  then have deps: "\<exists>ds. dep_words (mk_vars s) (dropWhile (\<lambda>c. c = 0x20) (drop (k + 1) ?line)) [] = Some ds" for k
    using dep_words_returns by simp
  have "\<exists>r. parse_rule ?line k cur s = Some r" for k
  proof -
    obtain ds where "dep_words (mk_vars s) (dropWhile (\<lambda>c. c = 0x20) (drop (k + 1) ?line)) [] = Some ds"
      using deps by blast
    then show ?thesis
      by (simp only: parse_rule_def Let_def Option.bind.simps) simp
  qed
  then show ?thesis
    unfolding parse_line_def Let_def by simp
qed

lemma parse_lines_returns: "tabs_lead True cs \<Longrightarrow> \<exists>s'. parse_lines cs cur s = Some s'"
proof (induction cs cur s rule: parse_lines.induct)
  case (1 cs cur s)
  show ?case
  proof (cases "cs = []")
    case False
    note t = read_line_tabs [OF "1.prems", of 255, simplified]
    then obtain cur1 s1 where l: "parse_line (fst (read_line 255 cs)) cur s = Some (cur1, s1)"
      using parse_line_returns by (metis surj_pair)
    show ?thesis
      using "1.IH" [OF False _ refl, of cur1 s1] t False l by (subst parse_lines.simps) auto
  qed simp
qed

theorem parse_makefile_ok_witness: "\<exists>s'. parse_makefile (lit ''all: prog'') (blank_make ()) = Some s' \<and> make_ok s'"
proof -
  have "\<exists>s'. parse_makefile (lit ''all: prog'') (blank_make ()) = Some s'"
    unfolding parse_makefile_def by (rule parse_lines_returns) (simp add: of_char_def)
  then obtain s' where s': "parse_makefile (lit ''all: prog'') (blank_make ()) = Some s'" ..
  from parse_makefile_ok [OF blank_make_ok s'] s' show ?thesis
    by (intro exI conjI)
qed

text \<open>
  C15: Parsing returns for every file in which tabs stand only at the beginnings of lines, whatever
  its length and lines are.
\<close>

theorem parse_makefile_returns:
  assumes "tabs_lead True content"
  shows "\<exists>s'. parse_makefile content s = Some s'"
  unfolding parse_makefile_def using parse_lines_returns [OF assms] by blast

theorem parse_makefile_returns_witness: "\<exists>s'. parse_makefile (lit ''all: prog'' @ [10, 9] @ lit ''ECHO done'' @ [10]) (blank_make ()) = Some s'"
  by (rule parse_makefile_returns) (simp add: of_char_def)

section \<open>A tab behind the colon\<close>

lemma dep_words_tab:
  assumes "dep_words vs p deps = Some ds"
  shows "peek p = 9 \<longrightarrow> 8 \<le> length deps"
proof (rule dep_words.raw_induct [OF _ assms, where P = "\<lambda>vs p deps ds. peek p = 9 \<longrightarrow> 8 \<le> length deps"])
  fix f :: "make_vars \<Rightarrow> bytes \<Rightarrow> bytes list \<Rightarrow> bytes list option" and vs p deps ds
  assume IH: "\<And>vs p deps ds. f vs p deps = Some ds \<Longrightarrow> peek p = 9 \<longrightarrow> 8 \<le> length deps"
    and e: "(if p = [] \<or> 8 \<le> length deps then Some deps
       else let dep = take 63 (takeWhile (\<lambda>c. \<not> blank c) p); deps' = if dep \<noteq> [] then deps @ [make_str_copy (expand_vars vs dep 63) 64] else deps
            in f vs (dropWhile (\<lambda>c. c = 0x20) (drop (length dep) p)) deps') = Some ds"
  show "peek p = 9 \<longrightarrow> 8 \<le> length deps"
    using e IH [of vs p deps ds] by (cases p) (auto simp: blank_def split: if_splits)
qed

lemma read_line_append:
  "10 \<notin> set w \<Longrightarrow> 13 \<notin> set w \<Longrightarrow> length w \<le> room \<Longrightarrow>
    fst (read_line room (w @ cs)) = w @ fst (read_line (room - length w) cs)"
  by (induction w arbitrary: room) (auto simp: Let_def split_beta)

lemma startswith_dot: "make_str_startswith s (lit ''.PHONY:'') \<Longrightarrow> peek s = 0x2E"
proof -
  have "lit ''.PHONY:'' = 0x2E # lit ''PHONY:''"
    by (simp add: of_char_def)
  moreover have "upper8 c = 0x2E \<Longrightarrow> c = 0x2E" for c
    by (auto simp: upper8_def diff_eq_eq split: if_splits)
  moreover have "upper8 0x2E = 0x2E"
    by (simp add: upper8_def)
  ultimately show "make_str_startswith s (lit ''.PHONY:'') \<Longrightarrow> peek s = 0x2E"
    by (simp only: make_str_startswith.simps)
qed

text \<open>
  A rule with a tab in front of its first dependency makes \<open>MAKE\<close> hang: the parser does not
  return for a file that starts with a target name, a colon, spaces and a tab.
\<close>

theorem make_tab_hangs:
  assumes "set name \<inter> {0, 9, 10, 13, 0x3A, 0x3D} = {}" and "peek name \<noteq> 0x23" and "peek name \<noteq> 0x2E" and "length name + n < 254"
  shows "parse_makefile (name @ [0x3A] @ replicate n 0x20 @ [9] @ rest) s = None"
proof -
  let ?cs = "name @ [0x3A] @ replicate n 0x20 @ [9] @ rest"
  define l where "l = fst (read_line (254 - (length name + n + 1)) rest)"
  have "fst (read_line 255 ((name @ [0x3A] @ replicate n 0x20 @ [9]) @ rest)) = (name @ [0x3A] @ replicate n 0x20 @ [9]) @ l"
    using assms(1,4) by (subst read_line_append) (auto simp: l_def)
  then have buf: "fst (read_line 255 ?cs) = name @ [0x3A] @ replicate n 0x20 @ [9] @ l"
    by simp
  define line where "line = name @ [0x3A] @ replicate n 0x20 @ [9] @ cstr l"
  have line: "cstr (name @ [0x3A] @ replicate n 0x20 @ [9] @ l) = line"
  proof -
    have "cstr ((name @ [0x3A] @ replicate n 0x20 @ [9]) @ l) = (name @ [0x3A] @ replicate n 0x20 @ [9]) @ cstr l"
      unfolding cstr_def by (rule takeWhile_append2) (use assms(1) in auto)
    then show ?thesis
      by (simp add: line_def)
  qed
  have p: "peek line \<noteq> 0x23" "peek line \<noteq> 9" "peek line \<noteq> 0x2E"
    using assms(1-3) by (cases name; simp add: line_def)+
  moreover have "\<not> make_str_startswith line (lit ''.PHONY:'')"
    using startswith_dot p(3) by blast
  moreover have "takeWhile (\<lambda>c. c \<noteq> 0x3D \<and> c \<noteq> 0x3A) line = name"
  proof -
    have "takeWhile (\<lambda>c. c \<noteq> 0x3D \<and> c \<noteq> 0x3A) (name @ xs) = name @ takeWhile (\<lambda>c. c \<noteq> 0x3D \<and> c \<noteq> 0x3A) xs" for xs
      by (rule takeWhile_append2) (use assms(1) in auto)
    then show ?thesis
      by (simp add: line_def)
  qed
  moreover have "dep_words vs (dropWhile (\<lambda>c. c = 0x20) (drop (Suc (length name)) line)) [] = None" for vs
  proof -
    have "dropWhile (\<lambda>c. c = 0x20) (replicate m 0x20 @ 9 # cstr l) = 9 # cstr l" for m
      by (induction m) simp_all
    then have "dropWhile (\<lambda>c. c = 0x20) (drop (Suc (length name)) line) = 9 # cstr l"
      by (simp add: line_def)
    then show ?thesis
      using dep_words_tab [of vs "9 # cstr l" "[]"] by (cases "dep_words vs (9 # cstr l) []") auto
  qed
  ultimately have "parse_line (fst (read_line 255 ?cs)) None t = None" if "mk_count t = 0" for t :: "'a make"
    using that unfolding buf parse_line_def Let_def line parse_rule_def by (simp add: line_def)
  then show ?thesis
    unfolding parse_makefile_def by (subst parse_lines.simps) simp
qed

theorem make_tab_hangs_witness: "parse_makefile (lit ''all'' @ [0x3A] @ replicate 1 0x20 @ [9] @ lit ''prog'') (blank_make ()) = None"
  by (rule make_tab_hangs) (simp_all add: of_char_def)

end
