(* ===== verification/MakeBuild.thy ===== *)
theory MakeBuild
  imports MakeTables FsFacts
begin

text \<open>
  The make utility, second half: \<open>build_target\<close> and \<open>cmd_make\<close> of \<open>src/src/cmd_make.c\<close>. The
  command interpreter \<open>dispatch\<close> is a parameter that may change every table, those of the make
  utility included; \<open>None\<close> means that it, or the build, does not return.
\<close>

section \<open>Building\<close>

text \<open>
  The recursion of \<open>build_target\<close>, with its two loops as tasks of their own: build a name, the
  dependencies of target \<open>i\<close> from the \<open>j\<close>-th on, the commands of target \<open>i\<close> from the \<open>j\<close>-th on.
\<close>

datatype build_task = Build bytes | Deps nat nat | Recipe nat nat

text \<open>A leading \<open>@\<close> only keeps the command from being echoed.\<close>

definition recipe_cmd :: "bytes \<Rightarrow> bytes" where
  "recipe_cmd c = (if peek c = 0x40 then tl c else c)"

partial_function (option) build_step ::
  "(bytes \<Rightarrow> 'w make \<Rightarrow> (int \<times> 'w make) option) \<Rightarrow> build_task \<Rightarrow> 'w make \<Rightarrow> (int \<times> 'w make) option" where
  "build_step dispatch task s =
     (case task of
        Build name \<Rightarrow>
          (case find_target s name of
             None \<Rightarrow> Some (-1, s)
           | Some i \<Rightarrow> if mt_built (mk_targets s ! i) then Some (0, s) else build_step dispatch (Deps i 0) s)
      | Deps i j \<Rightarrow>
          if j < length (mt_deps (mk_targets s ! i))
          then (case find_target s (mt_deps (mk_targets s ! i) ! j) of
                  None \<Rightarrow> build_step dispatch (Deps i (j + 1)) s
                | Some _ \<Rightarrow> do {
                    (rc, s) \<leftarrow> build_step dispatch (Build (mt_deps (mk_targets s ! i) ! j)) s;
                    if rc \<noteq> 0 then Some (rc, s) else build_step dispatch (Deps i (j + 1)) s })
          else build_step dispatch (Recipe i 0) s
      | Recipe i j \<Rightarrow>
          if j < length (mt_commands (mk_targets s ! i))
          then do {
            (rc, s) \<leftarrow> dispatch (recipe_cmd (mt_commands (mk_targets s ! i) ! j)) s;
            if rc \<noteq> -255 \<and> rc \<noteq> 0 then Some (rc, s) else build_step dispatch (Recipe i (j + 1)) s }
          else Some (0, upd_target i (\<lambda>t. t\<lparr>mt_built := True\<rparr>) s))"

definition build_target :: "(bytes \<Rightarrow> 'w make \<Rightarrow> (int \<times> 'w make) option) \<Rightarrow> bytes \<Rightarrow> 'w make \<Rightarrow> (int \<times> 'w make) option" where
  "build_target dispatch name s = build_step dispatch (Build name) s"

section \<open>The command\<close>

text \<open>The path of the Makefile in the current directory; its buffer has 256 bytes.\<close>

definition makefile_path :: "bytes \<Rightarrow> bytes option" where
  "makefile_path cwd =
     (let p = make_str_copy (cstr cwd) 256
      in do {
        p \<leftarrow> (if p \<noteq> [] \<and> last p \<noteq> 0x2F then (if length p = 255 then None else Some (p @ [0x2F])) else Some p);
        Some (take 255 (p @ lit ''Makefile'')) })"

definition makefile_names :: "bytes list" where
  "makefile_names = [lit ''Makefile'', lit ''makefile'', lit ''MAKEFILE'', lit ''GNUmakefile'', lit ''gnumakefile'']"

text \<open>A file whose name is the current directory followed by one of these names, with or without a slash.\<close>

definition is_makefile :: "bytes \<Rightarrow> fs_entry \<Rightarrow> bool" where
  "is_makefile cwd e =
     (let dir_len = length (cstr cwd); name = cstr (fe_name e);
          fname = drop dir_len name; fname = (if peek fname = 0x2F then tl fname else fname)
      in fe_type e = 0 \<and> dir_len < length name \<and> make_str_startswith name (cstr cwd) \<and> 0x2F \<notin> set fname \<and>
         (\<exists>v \<in> set makefile_names. make_str_cmp fname v = 0))"

definition find_makefile :: "'d aur \<Rightarrow> nat option option" where
  "find_makefile fs = do {
     path \<leftarrow> makefile_path (current_dir fs);
     Some (case find (\<lambda>i. make_str_cmp (fe_name (fs_table fs ! i)) path = 0 \<and> fe_type (fs_table fs ! i) = 0) [0..<fs_count fs] of
             Some i \<Rightarrow> Some i
           | None \<Rightarrow> find (\<lambda>i. is_makefile (current_dir fs) (fs_table fs ! i)) [0..<fs_count fs]) }"

text \<open>The target on the command line, or the default.\<close>

definition wanted_target :: "bytes \<Rightarrow> 'w make \<Rightarrow> bytes" where
  "wanted_target args s =
     (if peek args \<noteq> 0 \<and> peek args \<noteq> 0x20 then take 63 (takeWhile (\<lambda>c. c \<noteq> 0x20) args) else make_str_copy (mk_default s) 64)"

definition reset_built :: "'w make \<Rightarrow> 'w make" where
  "reset_built s =
     s\<lparr>mk_targets := map (\<lambda>t. t\<lparr>mt_built := False\<rparr>) (take (mk_count s) (mk_targets s)) @ drop (mk_count s) (mk_targets s)\<rparr>"

text \<open>What follows the parsing.\<close>

definition make_build :: "(bytes \<Rightarrow> 'w make \<Rightarrow> (int \<times> 'w make) option) \<Rightarrow> bytes \<Rightarrow> 'w make \<Rightarrow> (int \<times> 'w make) option" where
  "make_build dispatch args s =
     (if mk_count s = 0 then Some (-1, s)
      else if wanted_target args s = [] then Some (-1, s)
      else build_target dispatch (wanted_target args s) (reset_built s))"

definition cmd_make ::
  "(bytes \<Rightarrow> 'd aur make \<Rightarrow> (int \<times> 'd aur make) option) \<Rightarrow> bytes \<Rightarrow> 'd aur make \<Rightarrow> (int \<times> 'd aur make) option" where
  "cmd_make dispatch args s =
     (let fs = mk_world s
      in do {
        found \<leftarrow> find_makefile fs;
        case found of
          None \<Rightarrow> Some (-1, s)
        | Some i \<Rightarrow>
            (case find (\<lambda>k. fc_idx (file_contents fs ! k) = of_nat i) [0..<file_content_count fs] of
               None \<Rightarrow> Some (-1, s)
             | Some k \<Rightarrow>
                 let data = fc_data (file_contents fs ! k); n = sint (fc_size (file_contents fs ! k))
                 in if n = 0 then Some (-1, s)
                    else if int (length data) < n then None
                    else do {
                      s \<leftarrow> parse_makefile (take (nat n) data) s;
                      make_build dispatch args s }) })"

section \<open>The outcomes of a build\<close>

text \<open>
  The cases of \<open>build_step\<close> as rules, for inductions over a whole build: \<open>builds dispatch task s rc t\<close> means that the task ends
  with the code \<open>rc\<close> and turns the state \<open>s\<close> into \<open>t\<close>. What a build should do is stated in \<open>MakeOrder\<close>.
\<close>

abbreviation deps_of :: "'w make \<Rightarrow> nat \<Rightarrow> bytes list" where
  "deps_of s i \<equiv> mt_deps (mk_targets s ! i)"

abbreviation cmds_of :: "'w make \<Rightarrow> nat \<Rightarrow> bytes list" where
  "cmds_of s i \<equiv> mt_commands (mk_targets s ! i)"

abbreviation is_built :: "'w make \<Rightarrow> nat \<Rightarrow> bool" where
  "is_built s i \<equiv> mt_built (mk_targets s ! i)"

abbreviation mark_built :: "nat \<Rightarrow> 'w make \<Rightarrow> 'w make" where
  "mark_built i s \<equiv> upd_target i (\<lambda>t. t\<lparr>mt_built := True\<rparr>) s"

inductive builds ::
  "(bytes \<Rightarrow> 'w make \<Rightarrow> (int \<times> 'w make) option) \<Rightarrow> build_task \<Rightarrow> 'w make \<Rightarrow> int \<Rightarrow> 'w make \<Rightarrow> bool"
  for dispatch :: "bytes \<Rightarrow> 'w make \<Rightarrow> (int \<times> 'w make) option" where
  unknown: "find_target s n = None \<Longrightarrow> builds dispatch (Build n) s (-1) s"
| up_to_date: "find_target s n = Some i \<Longrightarrow> is_built s i \<Longrightarrow> builds dispatch (Build n) s 0 s"
| target: "find_target s n = Some i \<Longrightarrow> \<not> is_built s i \<Longrightarrow> builds dispatch (Deps i 0) s rc t \<Longrightarrow> builds dispatch (Build n) s rc t"
| no_rule: "j < length (deps_of s i) \<Longrightarrow> find_target s (deps_of s i ! j) = None \<Longrightarrow> builds dispatch (Deps i (Suc j)) s rc t \<Longrightarrow>
    builds dispatch (Deps i j) s rc t"
| dep_fails: "j < length (deps_of s i) \<Longrightarrow> find_target s (deps_of s i ! j) = Some k \<Longrightarrow> builds dispatch (Build (deps_of s i ! j)) s rc t \<Longrightarrow>
    rc \<noteq> 0 \<Longrightarrow> builds dispatch (Deps i j) s rc t"
| dep_built: "j < length (deps_of s i) \<Longrightarrow> find_target s (deps_of s i ! j) = Some k \<Longrightarrow> builds dispatch (Build (deps_of s i ! j)) s 0 u \<Longrightarrow>
    builds dispatch (Deps i (Suc j)) u rc t \<Longrightarrow> builds dispatch (Deps i j) s rc t"
| deps_done: "length (deps_of s i) \<le> j \<Longrightarrow> builds dispatch (Recipe i 0) s rc t \<Longrightarrow> builds dispatch (Deps i j) s rc t"
| cmd_fails: "j < length (cmds_of s i) \<Longrightarrow> dispatch (recipe_cmd (cmds_of s i ! j)) s = Some (rc, t) \<Longrightarrow> rc \<noteq> 0 \<Longrightarrow> rc \<noteq> -255 \<Longrightarrow>
    builds dispatch (Recipe i j) s rc t"
| cmd_done: "j < length (cmds_of s i) \<Longrightarrow> dispatch (recipe_cmd (cmds_of s i ! j)) s = Some (r, u) \<Longrightarrow> r = 0 \<or> r = -255 \<Longrightarrow>
    builds dispatch (Recipe i (Suc j)) u rc t \<Longrightarrow> builds dispatch (Recipe i j) s rc t"
| recipe_done: "length (cmds_of s i) \<le> j \<Longrightarrow> builds dispatch (Recipe i j) s 0 (mark_built i s)"

inductive_cases builds_BuildE: "builds dispatch (Build n) s rc t"
inductive_cases builds_DepsE: "builds dispatch (Deps i j) s rc t"
inductive_cases builds_RecipeE: "builds dispatch (Recipe i j) s rc t"

lemma build_step_builds: "build_step dispatch task s = Some r \<Longrightarrow> builds dispatch task s (fst r) (snd r)"
proof (erule build_step.raw_induct [rotated, where P = "\<lambda>d task s r. builds d task s (fst r) (snd r)"])
  fix f :: "(bytes \<Rightarrow> 'w make \<Rightarrow> (int \<times> 'w make) option) \<Rightarrow> build_task \<Rightarrow> 'w make \<Rightarrow> (int \<times> 'w make) option"
    and d :: "bytes \<Rightarrow> 'w make \<Rightarrow> (int \<times> 'w make) option" and task and s :: "'w make" and r
  assume IH: "\<And>d task s r. f d task s = Some r \<Longrightarrow> builds d task s (fst r) (snd r)"
    and e: "(case task of
        Build name \<Rightarrow>
          (case find_target s name of
             None \<Rightarrow> Some (-1, s)
           | Some i \<Rightarrow> if is_built s i then Some (0, s) else f d (Deps i 0) s)
      | Deps i j \<Rightarrow>
          if j < length (deps_of s i)
          then (case find_target s (deps_of s i ! j) of
                  None \<Rightarrow> f d (Deps i (j + 1)) s
                | Some _ \<Rightarrow> do {
                    (rc, s) \<leftarrow> f d (Build (deps_of s i ! j)) s;
                    if rc \<noteq> 0 then Some (rc, s) else f d (Deps i (j + 1)) s })
          else f d (Recipe i 0) s
      | Recipe i j \<Rightarrow>
          if j < length (cmds_of s i)
          then do {
            (rc, s) \<leftarrow> d (recipe_cmd (cmds_of s i ! j)) s;
            if rc \<noteq> -255 \<and> rc \<noteq> 0 then Some (rc, s) else f d (Recipe i (j + 1)) s }
          else Some (0, mark_built i s)) = Some r"
  show "builds d task s (fst r) (snd r)"
  proof (cases task)
    case (Build n)
    then show ?thesis
      using e by (auto split: option.splits if_splits intro: builds.intros dest!: IH)
  next
    case (Deps i j)
    then show ?thesis
      using e by (auto split: option.splits if_splits elim!: bind_SomeE dest!: IH intro: builds.no_rule builds.deps_done)
        (blast intro: builds.dep_fails builds.dep_built)+
  next
    case (Recipe i j)
    show ?thesis
    proof (cases "j < length (cmds_of s i)")
      case True
      then obtain rc u where u: "d (recipe_cmd (cmds_of s i ! j)) s = Some (rc, u)"
          and r: "(if rc \<noteq> -255 \<and> rc \<noteq> 0 then Some (rc, u) else f d (Recipe i (j + 1)) u) = Some r"
        using e Recipe by (auto elim!: bind_SomeE)
      show ?thesis
      proof (cases "rc \<noteq> -255 \<and> rc \<noteq> 0")
        case True
        then show ?thesis
          unfolding Recipe using r builds.cmd_fails [of j s i d rc u] \<open>j < _\<close> u by (auto split: if_splits)
      next
        case False
        then have "builds d (Recipe i (Suc j)) u (fst r) (snd r)"
          using r by (auto dest!: IH split: if_splits)
        then show ?thesis
          unfolding Recipe using False using builds.cmd_done [of j s i d rc u] \<open>j < _\<close> u by auto
      qed
    next
      case False
      then show ?thesis
        using e builds.recipe_done [of s i j d] unfolding Recipe by auto
    qed
  qed
qed

lemma builds_build_step: "builds dispatch task s rc t \<Longrightarrow> build_step dispatch task s = Some (rc, t)"
  by (induction rule: builds.induct) (subst build_step.simps, auto)+

lemma build_step_iff: "build_step dispatch task s = Some (rc, t) \<longleftrightarrow> builds dispatch task s rc t"
  using build_step_builds [of dispatch task s "(rc, t)"] builds_build_step by auto

section \<open>What stays during a build\<close>

text \<open>The commands leave the tables of the make utility alone: none of them is \<open>MAKE\<close> itself.\<close>

definition keeps_tables :: "(bytes \<Rightarrow> 'w make \<Rightarrow> (int \<times> 'w make) option) \<Rightarrow> bool" where
  "keeps_tables dispatch \<longleftrightarrow> (\<forall>c s rc t. dispatch c s = Some (rc, t) \<longrightarrow> mk_targets t = mk_targets s \<and> mk_count t = mk_count s)"

text \<open>Equal up to the flags.\<close>

definition same_plan :: "'w make \<Rightarrow> 'w make \<Rightarrow> bool" where
  "same_plan s t \<longleftrightarrow> mk_count t = mk_count s \<and> length (mk_targets t) = length (mk_targets s) \<and>
     (\<forall>i. mt_name (mk_targets t ! i) = mt_name (mk_targets s ! i) \<and> deps_of t i = deps_of s i \<and> cmds_of t i = cmds_of s i)"

lemma same_plan_refl [simp]: "same_plan s s"
  by (simp add: same_plan_def)

lemma same_plan_trans: "same_plan s t \<Longrightarrow> same_plan t u \<Longrightarrow> same_plan s u"
  by (simp add: same_plan_def)

lemma same_plan_find: "same_plan s t \<Longrightarrow> find_target t n = find_target s n"
  by (simp add: same_plan_def find_target_def)

lemma mark_built_nth: "mk_targets (mark_built i s) ! k =
    (if k = i \<and> i < length (mk_targets s) then (mk_targets s ! i)\<lparr>mt_built := True\<rparr> else mk_targets s ! k)"
  by (cases "i < length (mk_targets s)") (auto simp: upd_target_def nth_list_update list_update_beyond)

lemma same_plan_mark [simp]: "same_plan s (mark_built i s)"
  unfolding same_plan_def mark_built_nth by (simp add: upd_target_def)

lemma same_plan_dispatch: "keeps_tables dispatch \<Longrightarrow> dispatch c s = Some (rc, t) \<Longrightarrow> same_plan s t"
  by (simp add: keeps_tables_def same_plan_def)

lemma builds_same_plan: "builds dispatch task s rc t \<Longrightarrow> keeps_tables dispatch \<Longrightarrow> same_plan s t"
  by (induction rule: builds.induct) (auto intro: same_plan_trans same_plan_dispatch)

end
