(* ===== verification/MakeOrder.thy ===== *)
theory MakeOrder
  imports MakeBuild
begin

text \<open>
  What a build does: it returns on an acyclic dependency graph, runs the recipes in dependency order,
  each once, stops at the first failing command, and never returns from a dependency cycle.
\<close>

section \<open>Termination\<close>

text \<open>A rank that falls along the dependencies witnesses that the graph has no cycle.\<close>

definition ranked :: "(nat \<Rightarrow> nat) \<Rightarrow> 'w make \<Rightarrow> bool" where
  "ranked r s \<longleftrightarrow> (\<forall>i < mk_count s. \<forall>d \<in> set (deps_of s i). \<forall>k. find_target s d = Some k \<longrightarrow> r k < r i)"

lemma ranked_plan: "same_plan s t \<Longrightarrow> ranked r s \<Longrightarrow> ranked r t"
  unfolding ranked_def by (simp add: same_plan_find [of s t]) (simp add: same_plan_def)

lemma rankedD: "ranked r s \<Longrightarrow> i < mk_count s \<Longrightarrow> j < length (deps_of s i) \<Longrightarrow> find_target s (deps_of s i ! j) = Some k \<Longrightarrow> r k < r i"
  unfolding ranked_def using nth_mem by blast

lemma recipe_returns:
  assumes "keeps_tables dispatch" and "\<And>c s. dispatch c s \<noteq> None"
  shows "\<exists>rc t. builds dispatch (Recipe i j) s rc t"
proof (induction "length (cmds_of s i) - j" arbitrary: j s)
  case 0
  then show ?case
    by (auto intro: builds.recipe_done)
next
  case (Suc n)
  obtain rc u where u: "dispatch (recipe_cmd (cmds_of s i ! j)) s = Some (rc, u)"
    using assms(2) by (metis not_None_eq surj_pair)
  have lt: "j < length (cmds_of s i)"
    using Suc.hyps(2) by simp
  have "same_plan s u"
    using same_plan_dispatch [OF assms(1) u] .
  then have "n = length (cmds_of u i) - Suc j"
    using Suc.hyps(2) by (simp add: same_plan_def)
  from Suc.hyps(1) [OF this] show ?case
    using builds.cmd_fails [OF lt, of dispatch rc u] builds.cmd_done [OF lt, of dispatch rc u] u by blast
qed

lemma build_returns:
  assumes "keeps_tables dispatch" and "\<And>c s. dispatch c s \<noteq> None"
  shows "ranked r s \<Longrightarrow> find_target s n = Some i \<Longrightarrow> \<exists>rc t. builds dispatch (Build n) s rc t"
proof (induction "r i" arbitrary: i n s rule: less_induct)
  case less
  have deps: "\<exists>rc t. builds dispatch (Deps i j) u rc t" if "ranked r u" "i < mk_count u" for j u
    using that
  proof (induction "length (deps_of u i) - j" arbitrary: j u)
    case 0
    then show ?case
      using recipe_returns [OF assms, of i 0 u] builds.deps_done [of u i j dispatch] by auto
  next
    case (Suc m)
    then have lt: "j < length (deps_of u i)"
      by simp
    show ?case
    proof (cases "find_target u (deps_of u i ! j)")
      case None
      have "m = length (deps_of u i) - Suc j"
        using Suc.hyps(2) by simp
      then show ?thesis
        using Suc.hyps(1) Suc.prems builds.no_rule [OF lt None] by blast
    next
      case (Some k)
      then have "r k < r i"
        using rankedD [OF Suc.prems lt] by simp
      then obtain rc t where t: "builds dispatch (Build (deps_of u i ! j)) u rc t"
        using less.hyps Suc.prems Some by blast
      then have plan: "same_plan u t"
        by (rule builds_same_plan [OF _ assms(1)])
      have "m = length (deps_of t i) - Suc j" "i < mk_count t"
        using Suc.hyps(2) Suc.prems(2) plan by (auto simp: same_plan_def)
      then have "\<exists>rc v. builds dispatch (Deps i (Suc j)) t rc v"
        using Suc.hyps(1) ranked_plan [OF plan Suc.prems(1)] by blast
      then show ?thesis
        using builds.dep_fails [OF lt Some t] builds.dep_built [OF lt Some] t by blast
    qed
  qed
  show ?case
    using builds.up_to_date [OF less.prems(2)] builds.target [OF less.prems(2)] deps [OF less.prems(1)] find_target_lt [OF less.prems(2)] by blast
qed

text \<open>
  C10: Building returns when the dependencies form no cycle, provided that every command returns and
  leaves the tables of the make utility alone; otherwise the target has no rule and the code is -1.
\<close>

theorem build_target_returns:
  assumes "keeps_tables dispatch" and "\<And>c s. dispatch c s \<noteq> None" and "ranked r s"
  shows "\<exists>rc t. build_target dispatch name s = Some (rc, t) \<and> (find_target s name = None \<longrightarrow> rc = -1 \<and> t = s)"
proof (cases "find_target s name")
  case None
  then show ?thesis
    using builds.unknown [OF None, of dispatch] by (auto simp: build_target_def build_step_iff)
next
  case (Some i)
  then show ?thesis
    using build_returns [OF assms(1,2,3) Some] by (auto simp: build_target_def build_step_iff)
qed

section \<open>Recording the commands\<close>

text \<open>A command interpreter that records the commands and answers with the code \<open>rcf\<close> of each.\<close>

definition log_dispatch :: "(bytes \<Rightarrow> int) \<Rightarrow> bytes \<Rightarrow> bytes list make \<Rightarrow> (int \<times> bytes list make) option" where
  "log_dispatch rcf c s = Some (rcf c, s\<lparr>mk_world := mk_world s @ [c]\<rparr>)"

lemma log_keeps [simp]: "keeps_tables (log_dispatch rcf)"
  by (auto simp: keeps_tables_def log_dispatch_def)

lemma log_returns [simp]: "log_dispatch rcf c s \<noteq> None"
  by (simp add: log_dispatch_def)

definition fine :: "int \<Rightarrow> bool" where
  "fine rc \<longleftrightarrow> rc = 0 \<or> rc = -255"

text \<open>All commands succeeded, or all but the last one, whose code is the result.\<close>

definition stopped :: "(bytes \<Rightarrow> int) \<Rightarrow> bytes list \<Rightarrow> int \<Rightarrow> bool" where
  "stopped rcf cs rc \<longleftrightarrow> (rc = 0 \<and> (\<forall>c \<in> set cs. fine (rcf c))) \<or>
     (\<exists>ds c. cs = ds @ [c] \<and> (\<forall>c \<in> set ds. fine (rcf c)) \<and> \<not> fine (rcf c) \<and> rcf c = rc)"

lemma stopped_append: "\<forall>c \<in> set as. fine (rcf c) \<Longrightarrow> stopped rcf cs rc \<Longrightarrow> stopped rcf (as @ cs) rc"
proof -
  assume a: "\<forall>c \<in> set as. fine (rcf c)" and "stopped rcf cs rc"
  then consider "rc = 0" "\<forall>c \<in> set cs. fine (rcf c)"
    | ds c where "cs = ds @ [c]" "\<forall>c \<in> set ds. fine (rcf c)" "\<not> fine (rcf c)" "rcf c = rc"
    unfolding stopped_def by blast
  then show ?thesis
  proof cases
    case (2 ds c)
    then have "as @ cs = (as @ ds) @ [c]" "\<forall>c \<in> set (as @ ds). fine (rcf c)"
      using a by auto
    then show ?thesis
      unfolding stopped_def using 2(3,4) by blast
  qed (use a in \<open>auto simp: stopped_def\<close>)
qed

lemma stopped_0: "stopped rcf cs 0 \<Longrightarrow> \<forall>c \<in> set cs. fine (rcf c)"
  by (auto simp: stopped_def fine_def)

lemma builds_stops:
  assumes "builds (log_dispatch rcf) task s rc t" and "\<And>n. task = Build n \<Longrightarrow> find_target s n \<noteq> None"
  shows "\<exists>cs. mk_world t = mk_world s @ cs \<and> stopped rcf cs rc"
  using assms
proof (induction rule: builds.induct)
  case (dep_built j s i k u rc t)
  then obtain as cs where "mk_world u = mk_world s @ as" "stopped rcf as 0" "mk_world t = mk_world u @ cs" "stopped rcf cs rc"
    by auto
  then show ?case
    using stopped_append [OF stopped_0] by fastforce
next
  case (cmd_fails j s i rc t)
  then show ?case
    by (auto simp: log_dispatch_def stopped_def fine_def)
next
  case (cmd_done j s i r u rc t)
  then obtain cs where cs: "mk_world t = mk_world u @ cs" "stopped rcf cs rc"
    by auto
  let ?c = "recipe_cmd (cmds_of s i ! j)"
  have "mk_world u = mk_world s @ [?c]" "fine (rcf ?c)"
    using cmd_done.hyps by (auto simp: log_dispatch_def fine_def)
  then show ?case
    using cs stopped_append [of "[?c]" rcf cs rc] by fastforce
qed (auto simp: stopped_def upd_target_def)

text \<open>
  C26: A build stops at the first failing command: when it returns for a known target, every command
  run before the last one succeeded or was unknown to the shell, and the build's code is 0 if the
  last one did so too and that command's code otherwise.
\<close>

theorem make_stops_at_failure:
  assumes "build_target (log_dispatch rcf) name s = Some (rc, t)" and "find_target s name \<noteq> None"
  shows "\<exists>cs. mk_world t = mk_world s @ cs \<and> stopped rcf cs rc"
  using assms by (intro builds_stops [of rcf "Build name"]) (auto simp: build_target_def build_step_iff)

section \<open>Cycles\<close>

text \<open>Every target of the set depends on a target of the set.\<close>

definition cyclic :: "nat set \<Rightarrow> 'w make \<Rightarrow> bool" where
  "cyclic S s \<longleftrightarrow> (\<forall>i \<in> S. \<exists>j < length (deps_of s i). \<exists>k \<in> S. find_target s (deps_of s i ! j) = Some k)"

definition none_built :: "nat set \<Rightarrow> 'w make \<Rightarrow> bool" where
  "none_built S s \<longleftrightarrow> (\<forall>i \<in> S. \<not> is_built s i)"

text \<open>From this task the set would have to be entered again.\<close>

fun reenters :: "nat set \<Rightarrow> 'w make \<Rightarrow> build_task \<Rightarrow> bool" where
  "reenters S s (Build n) = True"
| "reenters S s (Deps i j) = (i \<in> S \<longrightarrow> (\<exists>m \<ge> j. m < length (deps_of s i) \<and> (\<exists>k \<in> S. find_target s (deps_of s i ! m) = Some k)))"
| "reenters S s (Recipe i j) = (i \<notin> S)"

fun outside :: "nat set \<Rightarrow> 'w make \<Rightarrow> build_task \<Rightarrow> bool" where
  "outside S s (Build n) = (\<forall>i. find_target s n = Some i \<longrightarrow> i \<notin> S)"
| "outside S s (Deps i j) = (i \<notin> S)"
| "outside S s (Recipe i j) = (i \<notin> S)"

lemma cyclic_plan: "same_plan s t \<Longrightarrow> cyclic S t = cyclic S s" "same_plan s t \<Longrightarrow> reenters S t task = reenters S s task"
proof -
  assume "same_plan s t"
  then have "find_target t = find_target s" "deps_of t i = deps_of s i" for i
    using same_plan_find [of s t] by (auto simp: same_plan_def)
  then show "cyclic S t = cyclic S s" "reenters S t task = reenters S s task"
    by (cases task; simp add: cyclic_def)+
qed

lemma reenters_Suc:
  "reenters S s (Deps i j) \<Longrightarrow> (\<And>k. find_target s (deps_of s i ! j) = Some k \<Longrightarrow> k \<notin> S) \<Longrightarrow> reenters S s (Deps i (Suc j))"
proof -
  assume r: "reenters S s (Deps i j)" and n: "\<And>k. find_target s (deps_of s i ! j) = Some k \<Longrightarrow> k \<notin> S"
  show ?thesis
    unfolding reenters.simps
  proof (intro impI)
    assume "i \<in> S"
    with r [unfolded reenters.simps] obtain m k where m: "j \<le> m" "m < length (deps_of s i)" "k \<in> S" "find_target s (deps_of s i ! m) = Some k"
      by blast
    then have "m \<noteq> j"
      using n by blast
    with m(1) have "Suc j \<le> m"
      by simp
    with m(2-4) show "\<exists>m \<ge> Suc j. m < length (deps_of s i) \<and> (\<exists>k \<in> S. find_target s (deps_of s i ! m) = Some k)"
      by blast
  qed
qed

lemma builds_cycle:
  assumes "builds dispatch task s rc t" and "keeps_tables dispatch" and "cyclic S s" and "none_built S s" and "reenters S s task"
  shows "none_built S t \<and> (rc = 0 \<longrightarrow> outside S s task)"
  using assms
proof (induction rule: builds.induct)
  case (dep_built j s i k u rc t)
  note plan = builds_same_plan [OF dep_built.hyps(3) dep_built.prems(1)]
  have u: "none_built S u" "k \<notin> S"
    using dep_built by auto
  then have "reenters S u (Deps i (Suc j))"
    using dep_built.prems(4) dep_built.hyps(2) unfolding cyclic_plan(2) [OF plan] by (intro reenters_Suc) auto
  then show ?case
    using dep_built.IH(2) dep_built.prems u cyclic_plan(1) [OF plan] by simp
next
  case (no_rule j s i rc t)
  then show ?case
    using reenters_Suc [of S s i j] by auto
next
  case (cmd_fails j s i rc t)
  then show ?case
    by (auto simp: keeps_tables_def none_built_def)
next
  case (cmd_done j s i r u rc t)
  then have "same_plan s u" "none_built S u"
    by (auto simp: keeps_tables_def none_built_def intro: same_plan_dispatch)
  then show ?case
    using cmd_done cyclic_plan [of s u] by simp
next
  case (target s n i rc t)
  then show ?case
    by (auto simp: cyclic_def)
qed (auto simp: none_built_def mark_built_nth)

text \<open>
  C30: A dependency cycle never ends: \<open>MAKE\<close> does not return for a target of a set of unbuilt targets
  that each depend on one of the set, when no command fails.
\<close>

theorem make_cycle_hangs:
  assumes "cyclic S s" and "none_built S s" and "find_target s name = Some i" and "i \<in> S" and "\<And>c. fine (rcf c)"
  shows "build_target (log_dispatch rcf) name s = None"
proof (rule ccontr)
  assume "build_target (log_dispatch rcf) name s \<noteq> None"
  then obtain rc t where b: "builds (log_dispatch rcf) (Build name) s rc t"
    by (auto simp: build_target_def build_step_iff)
  have "rc = 0"
    using builds_stops [OF b] assms(3,5) by (auto simp: stopped_def)
  then show False
    using builds_cycle [OF b log_keeps assms(1,2)] assms(3,4) by auto
qed

section \<open>Order\<close>

text \<open>
  From \<open>s\<close> to \<open>t\<close> exactly the targets \<open>ord\<close> have been built, in this order: their recipes are what has
  been run, none was built before, and each one's dependencies were built before it.
\<close>

definition ordered :: "bytes list make \<Rightarrow> nat list \<Rightarrow> bytes list make \<Rightarrow> bool" where
  "ordered s ord t \<longleftrightarrow>
     mk_world t = mk_world s @ concat (map (\<lambda>i. map recipe_cmd (cmds_of s i)) ord) \<and> distinct ord \<and>
     (\<forall>i. is_built t i \<longleftrightarrow> is_built s i \<or> i \<in> set ord) \<and> (\<forall>i \<in> set ord. \<not> is_built s i) \<and>
     (\<forall>k < length ord. \<forall>d \<in> set (deps_of s (ord ! k)). \<forall>m. find_target s d = Some m \<longrightarrow> is_built s m \<or> m \<in> set (take k ord))"

lemma ordered_Nil [simp]: "ordered s [] s"
  by (simp add: ordered_def)

lemma ordered_append:
  assumes "ordered s as u" and "ordered u bs t" and "same_plan s u"
  shows "ordered s (as @ bs) t"
proof -
  have plan: "find_target u = find_target s" "deps_of u i = deps_of s i" "cmds_of u i = cmds_of s i" for i
    using assms(3) same_plan_find [OF assms(3)] by (auto simp: same_plan_def)
  have built: "is_built u i \<longleftrightarrow> is_built s i \<or> i \<in> set as" for i
    using assms(1) by (simp add: ordered_def)
  have "is_built s m \<or> m \<in> set (take k (as @ bs))"
    if k: "k < length (as @ bs)" and d: "d \<in> set (deps_of s ((as @ bs) ! k))" "find_target s d = Some m" for k d m
  proof (cases "k < length as")
    case True
    then show ?thesis
      using assms(1) d by (auto simp: ordered_def nth_append)
  next
    case False
    then have "k - length as < length bs" "(as @ bs) ! k = bs ! (k - length as)"
      using k by (auto simp: nth_append)
    then have "is_built u m \<or> m \<in> set (take (k - length as) bs)"
      using assms(2) d unfolding ordered_def plan by metis
    then show ?thesis
      using False by (auto simp: built)
  qed
  then show ?thesis
    using assms(1,2) unfolding ordered_def plan built by auto
qed

lemma mark_built_world [simp]: "mk_world (mark_built i s) = mk_world s"
  by (simp add: upd_target_def)

text \<open>What holds while a task runs and when it has succeeded.\<close>

definition deps_built :: "bytes list make \<Rightarrow> nat \<Rightarrow> nat \<Rightarrow> bool" where
  "deps_built s i j \<longleftrightarrow> (\<forall>k < j. k < length (deps_of s i) \<longrightarrow> (\<forall>m. find_target s (deps_of s i ! k) = Some m \<longrightarrow> is_built s m))"

fun ready :: "bytes list make \<Rightarrow> build_task \<Rightarrow> bool" where
  "ready s (Build n) = True"
| "ready s (Deps i j) = (i < mk_count s \<and> \<not> is_built s i \<and> deps_built s i j)"
| "ready s (Recipe i j) = (i < mk_count s \<and> \<not> is_built s i)"

definition built_upto :: "(nat \<Rightarrow> nat) \<Rightarrow> bytes list make \<Rightarrow> nat \<Rightarrow> bytes list make \<Rightarrow> bool" where
  "built_upto r s i t \<longleftrightarrow> (\<exists>ord. ordered s ord t \<and> is_built t i \<and> (\<forall>x \<in> set ord. r x \<le> r i))"

fun succeeded :: "(nat \<Rightarrow> nat) \<Rightarrow> bytes list make \<Rightarrow> bytes list make \<Rightarrow> build_task \<Rightarrow> bool" where
  "succeeded r s t (Build n) = (\<forall>i. find_target s n = Some i \<longrightarrow> built_upto r s i t)"
| "succeeded r s t (Deps i j) = built_upto r s i t"
| "succeeded r s t (Recipe i j) = (mk_world t = mk_world s @ map recipe_cmd (drop j (cmds_of s i)) \<and> (\<forall>k. is_built t k \<longleftrightarrow> is_built s k \<or> k = i))"

lemma recipe_ordered:
  assumes "succeeded r s t (Recipe i 0)" and "\<not> is_built s i" and "deps_built s i (length (deps_of s i))"
  shows "built_upto r s i t"
  using assms unfolding built_upto_def
  by (intro exI [of _ "[i]"]) (auto simp: ordered_def deps_built_def in_set_conv_nth)

lemma builds_ordered:
  assumes "builds (log_dispatch rcf) task s rc t" and "ranked r s" and "mk_count s \<le> length (mk_targets s)" and "ready s task" and "rc = 0"
  shows "succeeded r s t task"
  using assms
proof (induction rule: builds.induct)
  case (up_to_date s n i)
  then have "built_upto r s i s"
    unfolding built_upto_def by (intro exI [of _ "[]"]) simp
  then show ?case
    using up_to_date by simp
next
  case (target s n i rc t)
  then show ?case
    using find_target_lt [OF target.hyps(1)] by (simp add: deps_built_def)
next
  case (no_rule j s i rc t)
  then show ?case
    by (auto simp: deps_built_def less_Suc_eq)
next
  case (dep_built j s i k u rc t)
  note plan = builds_same_plan [OF dep_built.hyps(3) log_keeps]
  have k: "r k < r i"
    using dep_built.prems(3) by (intro rankedD [OF dep_built.prems(1) _ dep_built.hyps(1,2)]) simp
  obtain ord where ord: "ordered s ord u" "is_built u k" "\<forall>x \<in> set ord. r x \<le> r k"
    using dep_built.IH(1) dep_built.prems dep_built.hyps(2) by (auto simp: built_upto_def)
  have built: "is_built u x \<longleftrightarrow> is_built s x \<or> x \<in> set ord" for x
    using ord(1) by (simp add: ordered_def)
  have plan': "find_target u = find_target s" "deps_of u x = deps_of s x" "length (mk_targets u) = length (mk_targets s)" "mk_count u = mk_count s" for x
    using plan same_plan_find [OF plan] by (auto simp: same_plan_def)
  have "i \<notin> set ord"
    using ord(3) k by auto
  then have "ready u (Deps i (Suc j))"
    using dep_built.prems(3) dep_built.hyps(2) ord(2) by (auto simp: deps_built_def plan' built less_Suc_eq)
  then have "built_upto r u i t"
    using dep_built.IH(2) dep_built.prems ranked_plan [OF plan dep_built.prems(1)] by (simp add: plan')
  then obtain ord' where "ordered u ord' t" "is_built t i" "\<forall>x \<in> set ord'. r x \<le> r i"
    by (auto simp: built_upto_def)
  then have "ordered s (ord @ ord') t" "\<forall>x \<in> set (ord @ ord'). r x \<le> r i"
    using ordered_append [OF ord(1) _ plan] ord(3) k by (auto intro: order.trans less_imp_le)
  then show ?case
    using \<open>is_built t i\<close> unfolding succeeded.simps built_upto_def by blast
next
  case (deps_done s i j rc t)
  then have "deps_built s i (length (deps_of s i))"
    unfolding deps_built_def ready.simps by (meson order.strict_trans2)
  then show ?case
    using deps_done recipe_ordered [of r s t i] by simp
next
  case (cmd_done j s i r' u rc t)
  then have u: "u = s\<lparr>mk_world := mk_world s @ [recipe_cmd (cmds_of s i ! j)]\<rparr>"
    by (simp add: log_dispatch_def)
  have "ranked r u"
    using cmd_done.prems(1) by (simp add: u ranked_def find_target_def)
  then have "succeeded r u t (Recipe i (Suc j))"
    using cmd_done.IH cmd_done.prems by (simp add: u)
  then show ?case
    using cmd_done.hyps(1) by (simp add: u Cons_nth_drop_Suc [symmetric])
qed (auto simp: mark_built_nth)

text \<open>
  C5: A successful build runs the recipes in dependency order: for an acyclic graph there is a list of
  distinct, not yet built targets whose recipes, one after the other, are exactly the commands run,
  in which each target comes behind its dependencies unless they were built already, and behind
  which the wanted target is built.
\<close>

theorem make_build_order:
  assumes "ranked r s" and "mk_count s \<le> length (mk_targets s)" and "find_target s name = Some i"
    and "build_target (log_dispatch rcf) name s = Some (0, t)"
  shows "\<exists>ord. ordered s ord t \<and> is_built t i"
proof -
  have "succeeded r s t (Build name)"
    using builds_ordered [of rcf "Build name" s 0 t r] assms by (simp add: build_target_def build_step_iff)
  then show ?thesis
    using assms(3) by (auto simp: built_upto_def)
qed

section \<open>Examples\<close>

text \<open>\<open>all: prog\<close> and \<open>prog:\<close>, and a target \<open>loop\<close> that depends on itself.\<close>

definition sample_make :: "bytes list make" where
  "sample_make = (blank_make [])\<lparr>mk_count := 3, mk_targets :=
     [no_target\<lparr>mt_name := lit ''all'', mt_deps := [lit ''prog''], mt_commands := [lit ''ECHO done'']\<rparr>,
      no_target\<lparr>mt_name := lit ''prog'', mt_commands := [lit ''@BUILD'']\<rparr>,
      no_target\<lparr>mt_name := lit ''loop'', mt_deps := [lit ''loop'']\<rparr>] @ replicate 29 no_target\<rparr>"

lemma sample_find:
  "find_target sample_make (lit ''all'') = Some 0" "find_target sample_make (lit ''prog'') = Some 1"
  "find_target sample_make (lit ''loop'') = Some 2"
  by (simp_all add: find_target_def sample_make_def make_str_cmp_0_iff fold_case_def of_char_def upper8_def upt_rec [of _ 3] upt_rec [of _ "Suc _"])

lemma sample_targets:
  "mk_targets sample_make ! 0 = no_target\<lparr>mt_name := lit ''all'', mt_deps := [lit ''prog''], mt_commands := [lit ''ECHO done'']\<rparr>"
  "mk_targets sample_make ! 1 = no_target\<lparr>mt_name := lit ''prog'', mt_commands := [lit ''@BUILD'']\<rparr>"
  "mk_targets sample_make ! 2 = no_target\<lparr>mt_name := lit ''loop'', mt_deps := [lit ''loop'']\<rparr>"
  by (simp_all add: sample_make_def)

text \<open>The same without the target \<open>loop\<close>.\<close>

definition sample_acyclic :: "bytes list make" where
  "sample_acyclic = sample_make\<lparr>mk_count := 2\<rparr>"

lemma sample_acyclic_simps:
  "find_target sample_acyclic (lit ''all'') = Some 0" "find_target sample_acyclic (lit ''prog'') = Some 1"
  "mk_targets sample_acyclic = mk_targets sample_make" "mk_count sample_acyclic = 2"
  by (simp_all add: find_target_def sample_acyclic_def sample_targets sample_targets(2) [unfolded One_nat_def] no_target_def make_str_cmp_0_iff fold_case_def of_char_def upper8_def
    upt_rec [of _ 2] upt_rec [of _ "Suc _"])

lemma sample_ranked: "ranked (\<lambda>i. 1 - i) sample_acyclic"
proof -
  have "\<forall>d \<in> set (deps_of sample_acyclic i). \<forall>k. find_target sample_acyclic d = Some k \<longrightarrow> 1 - k < 1 - i" if "i = 0 \<or> i = 1" for i
    using that sample_acyclic_simps(2) by (auto simp: sample_acyclic_simps(3) sample_targets sample_targets(2) [unfolded One_nat_def] no_target_def)
  then show ?thesis
    unfolding ranked_def sample_acyclic_simps by (simp add: less_2_cases_iff)
qed

theorem build_target_returns_witness: "\<exists>rc t. build_target (log_dispatch (\<lambda>_. 0)) (lit ''all'') sample_acyclic = Some (rc, t)"
  using build_target_returns [OF log_keeps log_returns sample_ranked, of "\<lambda>_. 0" "lit ''all''"] by blast

theorem make_cycle_hangs_witness: "build_target (log_dispatch (\<lambda>_. 0)) (lit ''loop'') sample_make = None"
proof (rule make_cycle_hangs [where S = "{2}"])
  show "cyclic {2} sample_make"
    using sample_find(3) by (simp add: cyclic_def sample_targets no_target_def)
  show "none_built {2} sample_make"
    by (simp add: none_built_def sample_targets no_target_def)
qed (use sample_find(3) in \<open>simp_all add: fine_def\<close>)

lemma sample_build: "\<exists>t. build_target (log_dispatch (\<lambda>_. 0)) (lit ''all'') sample_acyclic = Some (0, t)"
proof -
  obtain rc t where b: "builds (log_dispatch (\<lambda>_. 0)) (Build (lit ''all'')) sample_acyclic rc t"
    using build_returns [OF log_keeps log_returns sample_ranked sample_acyclic_simps(1)] by blast
  then have "rc = 0"
    using builds_stops [OF b] sample_acyclic_simps(1) by (auto simp: stopped_def fine_def)
  then show ?thesis
    using b by (auto simp: build_target_def build_step_iff)
qed

theorem make_stops_at_failure_witness:
  "\<exists>rc t cs. build_target (log_dispatch (\<lambda>_. 0)) (lit ''all'') sample_acyclic = Some (rc, t) \<and> mk_world t = cs \<and> stopped (\<lambda>_. 0) cs rc"
proof -
  obtain t where t: "build_target (log_dispatch (\<lambda>_. 0)) (lit ''all'') sample_acyclic = Some (0, t)"
    using sample_build by blast
  have "mk_world sample_acyclic = []"
    by (simp add: sample_acyclic_def sample_make_def blank_make_def)
  then show ?thesis
    using make_stops_at_failure [OF t] t sample_acyclic_simps(1) by auto
qed

theorem make_build_order_witness:
  "\<exists>t ord. build_target (log_dispatch (\<lambda>_. 0)) (lit ''all'') sample_acyclic = Some (0, t) \<and> ordered sample_acyclic ord t \<and> is_built t 0"
proof -
  obtain t where t: "build_target (log_dispatch (\<lambda>_. 0)) (lit ''all'') sample_acyclic = Some (0, t)"
    using sample_build by blast
  have "mk_count sample_acyclic \<le> length (mk_targets sample_acyclic)"
    by (simp add: sample_acyclic_def sample_make_def)
  from make_build_order [OF sample_ranked this sample_acyclic_simps(1) t] t show ?thesis
    by blast
qed

end
