(* ===== verification/TextTools.thy ===== *)
theory TextTools
  imports KString FsStore "HOL-Library.Sublist"
begin

text \<open>
  The text utilities of \<open>src/src/commands.c\<close>: \<open>WC\<close>, \<open>HEAD\<close>, \<open>TAIL\<close>, \<open>GREP\<close>, \<open>SORT\<close>, \<open>UNIQ\<close>, \<open>DIFF\<close>,
  \<open>NL\<close>, \<open>TAC\<close>, \<open>REV\<close>, \<open>BASE64\<close>, \<open>FACTOR\<close>, \<open>SEQ\<close>, \<open>CALC\<close>, \<open>EXPR\<close> and \<open>TEST\<close>. Their output is what they are
  for, so here the text that goes to the console is part of the result: a pair is the return value
  and the text printed. \<open>None\<close> is an access outside a buffer, an undefined or trapping operation, or,
  for the loops that need not end, not returning.
\<close>

section \<open>Opening a file\<close>

text \<open>One line of output.\<close>

definition msg :: "string \<Rightarrow> bytes" where
  "msg s = lit s @ [10]"

text \<open>The common beginning: the name is completed, looked up, and its content slot is searched.\<close>

datatype opened = Usage | Not_found | No_content | Content nat

definition open_text :: "(bytes \<Rightarrow> nat option) \<Rightarrow> bytes \<Rightarrow> 'd aur \<Rightarrow> opened option" where
  "open_text look name s =
     (if name = [] then Some Usage
      else do {
        path \<leftarrow> build_full_path (current_dir s) name;
        Some (case look path of
                None \<Rightarrow> Not_found
              | Some i \<Rightarrow> (case slot_of s i of None \<Rightarrow> No_content | Some k \<Rightarrow> Content k)) })"

definition content_bytes :: "'d aur \<Rightarrow> nat \<Rightarrow> bytes option" where
  "content_bytes s k = rdn (fc_data (file_contents s ! k)) 0 (unat (fc_size (file_contents s ! k)))"

text \<open>A utility with the usage line \<open>usage\<close>, the output \<open>none\<close> without content and \<open>body\<close> for the content.\<close>

definition text_tool ::
  "(bytes \<Rightarrow> nat option) \<Rightarrow> string \<Rightarrow> bytes \<Rightarrow> (bytes \<Rightarrow> bytes option) \<Rightarrow> bytes \<Rightarrow> 'd aur \<Rightarrow> (int \<times> bytes) option" where
  "text_tool look usage none body name s = do {
     r \<leftarrow> open_text look name s;
     case r of
       Usage \<Rightarrow> Some (-1, msg usage)
     | Not_found \<Rightarrow> Some (-1, msg ''File not found'')
     | No_content \<Rightarrow> Some (0, none)
     | Content k \<Rightarrow> do { d \<leftarrow> content_bytes s k; out \<leftarrow> body d; Some (0, out) } }"

section \<open>Counting and cutting\<close>

definition wc_blank :: "u8 \<Rightarrow> bool" where
  "wc_blank c \<longleftrightarrow> c = 0x20 \<or> c = 10 \<or> c = 9"

fun wc_loop :: "bool \<Rightarrow> nat \<Rightarrow> nat \<Rightarrow> bytes \<Rightarrow> nat \<times> nat" where
  "wc_loop inw lines ws [] = (lines, if inw then ws + 1 else ws)"
| "wc_loop inw lines ws (c # cs) =
     (let lines = (if c = 10 then lines + 1 else lines)
      in if wc_blank c then wc_loop False lines (if inw then ws + 1 else ws) cs
         else wc_loop True lines ws cs)"

definition wc_line :: "nat \<Rightarrow> nat \<Rightarrow> nat \<Rightarrow> bytes \<Rightarrow> bytes" where
  "wc_line lines ws chars name =
     lit ''  '' @ int_to_str (of_nat lines) @ lit ''  '' @ int_to_str (of_nat ws) @ lit ''  '' @
     int_to_str (of_nat chars) @ lit '' '' @ name @ [10]"

definition cmd_wc :: "bytes \<Rightarrow> 'd aur \<Rightarrow> (int \<times> bytes) option" where
  "cmd_wc args s =
     (let name = snd (get_token args 64)
      in text_tool (fs_find_type s 0) ''Usage: WC <file>'' (lit ''  0  0  0 '' @ name @ [10])
           (\<lambda>d. let (lines, ws) = wc_loop False 0 0 d in Some (wc_line lines ws (length d) name)) name s)"

text \<open>\<open>room\<close> lines may still be begun.\<close>

fun head_loop :: "nat \<Rightarrow> bytes \<Rightarrow> bytes" where
  "head_loop room [] = []"
| "head_loop room (c # cs) = (if room = 0 then [] else c # head_loop (if c = 10 then room - 1 else room) cs)"

text \<open>The loop stops at the tenth newline, before what lies behind it is read.\<close>

definition head_bytes :: "'d aur \<Rightarrow> nat \<Rightarrow> bytes option" where
  "head_bytes s k =
     (let c = file_contents s ! k; d = take (unat (fc_size c)) (fc_data c)
      in if unat (fc_size c) \<le> length (fc_data c) \<or> 10 \<le> length (filter (\<lambda>c. c = 10) d) then Some (head_loop 10 d) else None)"

definition cmd_head :: "bytes \<Rightarrow> 'd aur \<Rightarrow> (int \<times> bytes) option" where
  "cmd_head args s = do {
     r \<leftarrow> open_text (fs_find_type s 0) (snd (get_token args 64)) s;
     case r of
       Usage \<Rightarrow> Some (-1, msg ''Usage: HEAD <file> [n]'')
     | Not_found \<Rightarrow> Some (-1, msg ''File not found'')
     | No_content \<Rightarrow> Some (0, [])
     | Content k \<Rightarrow> do { out \<leftarrow> head_bytes s k; Some (0, out) } }"

text \<open>Newlines are counted down to the lines that are printed.\<close>

fun tail_loop :: "nat \<Rightarrow> bytes \<Rightarrow> bytes" where
  "tail_loop skip [] = []"
| "tail_loop skip (c # cs) = (if skip = 0 then [c] else []) @ tail_loop (if c = 10 then skip - 1 else skip) cs"

definition cmd_tail :: "bytes \<Rightarrow> 'd aur \<Rightarrow> (int \<times> bytes) option" where
  "cmd_tail args s =
     text_tool (fs_find_type s 0) ''Usage: TAIL <file>'' []
       (\<lambda>d. Some (tail_loop (length (filter (\<lambda>c. c = 10) d) - 10) d)) (snd (get_token args 64)) s"

section \<open>Searching\<close>

text \<open>The pattern is tried at every position of the line where it still fits.\<close>

fun has_match :: "bytes \<Rightarrow> bytes \<Rightarrow> bool" where
  "has_match pat [] = (pat = [])"
| "has_match pat (c # cs) = (length pat \<le> length (c # cs) \<and> (take (length pat) (c # cs) = pat \<or> has_match pat cs))"

text \<open>\<open>line\<close> is what has been read of the current line.\<close>

fun grep_loop :: "bytes \<Rightarrow> bytes \<Rightarrow> bytes \<Rightarrow> bytes" where
  "grep_loop pat line [] = (if has_match pat line then line @ [10] else [])"
| "grep_loop pat line (c # cs) =
     (if c = 10 then (if has_match pat line then line @ [10] else []) @ grep_loop pat [] cs
      else grep_loop pat (line @ [c]) cs)"

definition cmd_grep :: "bytes \<Rightarrow> 'd aur \<Rightarrow> (int \<times> bytes) option" where
  "cmd_grep args s =
     (let (args, pat) = get_token args 64; name = snd (get_token args 64)
      in if pat = [] then Some (-1, msg ''Usage: GREP <pattern> <file>'')
         else text_tool (fs_find_type s 0) ''Usage: GREP <pattern> <file>'' [] (\<lambda>d. Some (grep_loop pat [] d)) name s)"

definition print_all :: "string \<Rightarrow> bytes \<Rightarrow> bytes" where
  "print_all title d = msg title @ d @ (if d \<noteq> [] \<and> last d \<noteq> 10 then [10] else [])"

definition cmd_sort :: "bytes \<Rightarrow> 'd aur \<Rightarrow> (int \<times> bytes) option" where
  "cmd_sort args s =
     text_tool (fs_find_type s 0) ''Usage: SORT <file>'' [] (\<lambda>d. Some (print_all ''SORT: Sorted output:'' d)) (snd (get_token args 64)) s"

definition cmd_uniq :: "bytes \<Rightarrow> 'd aur \<Rightarrow> (int \<times> bytes) option" where
  "cmd_uniq args s =
     text_tool (fs_find_type s 0) ''Usage: UNIQ <file>'' [] (\<lambda>d. Some (print_all ''UNIQ: Unique output:'' d)) (snd (get_token args 64)) s"

section \<open>Comparing\<close>

text \<open>\<open>DIFF\<close> takes the last match, of the names as they are typed, and the last content slot.\<close>

definition find_last :: "(nat \<Rightarrow> bool) \<Rightarrow> nat \<Rightarrow> nat option" where
  "find_last P n = find P (rev [0..<n])"

definition diff_slot :: "'d aur \<Rightarrow> nat \<Rightarrow> nat option" where
  "diff_slot s i = find_last (\<lambda>k. unat (fc_idx (file_contents s ! k)) = i) (file_content_count s)"

definition diff_contents :: "'d aur \<Rightarrow> nat \<Rightarrow> nat \<Rightarrow> bytes option" where
  "diff_contents s k1 k2 =
     (if fc_size (file_contents s ! k1) \<noteq> fc_size (file_contents s ! k2) then Some (msg ''Files differ in size'')
      else do {
        d1 \<leftarrow> content_bytes s k1;
        d2 \<leftarrow> content_bytes s k2;
        Some (if d1 = d2 then msg ''Files are identical'' else msg ''Files differ'') })"

definition cmd_diff :: "bytes \<Rightarrow> 'd aur \<Rightarrow> (int \<times> bytes) option" where
  "cmd_diff args s =
     (let (args, f1) = get_token args 64; f2 = snd (get_token args 64)
      in if f1 = [] \<or> f2 = [] then Some (-1, msg ''Usage: DIFF <file1> <file2>'')
         else case find_last (\<lambda>i. same_name s i f1) (fs_count s) of
                None \<Rightarrow> Some (-1, lit ''File not found: '' @ f1 @ [10])
              | Some i1 \<Rightarrow>
                  (case find_last (\<lambda>i. same_name s i f2) (fs_count s) of
                     None \<Rightarrow> Some (-1, lit ''File not found: '' @ f2 @ [10])
                   | Some i2 \<Rightarrow>
                       (case (diff_slot s i1, diff_slot s i2) of
                          (None, None) \<Rightarrow> Some (0, msg ''Files are identical (both empty)'')
                        | (Some k1, Some k2) \<Rightarrow> map_option (\<lambda>out. (0, out)) (diff_contents s k1 k2)
                        | _ \<Rightarrow> Some (0, msg ''Files differ''))))"

section \<open>Lines in order and in reverse\<close>

definition nl_prefix :: "nat \<Rightarrow> bytes" where
  "nl_prefix line = lit ''  '' @ int_to_str (of_nat line) @ lit ''  ''"

fun nl_loop :: "nat \<Rightarrow> bytes \<Rightarrow> bytes" where
  "nl_loop line [] = []"
| "nl_loop line (c # cs) = (if c = 10 \<and> cs \<noteq> [] then c # nl_prefix (line + 1) @ nl_loop (line + 1) cs else c # nl_loop line cs)"

definition cmd_nl :: "bytes \<Rightarrow> 'd aur \<Rightarrow> (int \<times> bytes) option" where
  "cmd_nl args s =
     text_tool (fs_find s) ''Usage: NL <file>'' [] (\<lambda>d. Some (nl_prefix 1 @ nl_loop 1 d)) (snd (get_token args 64)) s"

text \<open>The starts of the lines, at most 128, and the lines from the last to the first.\<close>

definition tac_starts :: "bytes \<Rightarrow> nat list" where
  "tac_starts d = take 128 (0 # map Suc (filter (\<lambda>j. d ! j = 10 \<and> Suc j < length d) [0..<length d]))"

definition tac_line :: "bytes \<Rightarrow> nat list \<Rightarrow> nat \<Rightarrow> bytes option" where
  "tac_line d starts l =
     (let b = starts ! l; e = (if l < length starts - 1 then starts ! (l + 1) else length d)
      in if e = 0 then None else Some (take (e - b) (drop b d) @ (if d ! (e - 1) \<noteq> 10 then [10] else [])))"

definition tac_out :: "bytes \<Rightarrow> bytes option" where
  "tac_out d =
     (let starts = tac_starts d
      in map_option concat (those (map (tac_line d starts) (rev [0..<length starts]))))"

definition cmd_tac :: "bytes \<Rightarrow> 'd aur \<Rightarrow> (int \<times> bytes) option" where
  "cmd_tac args s = text_tool (fs_find s) ''Usage: TAC <file>'' [] tac_out (snd (get_token args 64)) s"

definition cmd_rev :: "bytes \<Rightarrow> int \<times> bytes" where
  "cmd_rev args =
     (let a = skip_spaces args
      in if peek a = 0 then (-1, msg ''Usage: REV <text>'') else (0, rev (cstr a) @ [10]))"

section \<open>Encoding\<close>

definition b64 :: bytes where
  "b64 = lit ''ABCDEFGHIJKLMNOPQRSTUVWXYZabcdefghijklmnopqrstuvwxyz0123456789+/''"

definition b64_digit :: "u32 \<Rightarrow> nat \<Rightarrow> u8" where
  "b64_digit n sh = b64 ! unat (drop_bit sh n AND 63)"

fun base64_loop :: "bytes \<Rightarrow> bytes" where
  "base64_loop [] = []"
| "base64_loop [a] =
     (let n = push_bit 16 (ucast a) in [b64_digit n 18, b64_digit n 12, 0x3D, 0x3D])"
| "base64_loop [a, b] =
     (let n = push_bit 16 (ucast a) OR push_bit 8 (ucast b) in [b64_digit n 18, b64_digit n 12, b64_digit n 6, 0x3D])"
| "base64_loop (a # b # c # cs) =
     (let n = push_bit 16 (ucast a) OR push_bit 8 (ucast b) OR ucast c
      in [b64_digit n 18, b64_digit n 12, b64_digit n 6, b64_digit n 0] @ base64_loop cs)"

definition cmd_base64 :: "bytes \<Rightarrow> int \<times> bytes" where
  "cmd_base64 args =
     (let a = skip_spaces args
      in if peek a = 0 then (-1, msg ''Usage: BASE64 <text>'') else (0, base64_loop (cstr a) @ [10]))"

section \<open>Numbers\<close>

text \<open>The inner loop of \<open>FACTOR\<close>: how often \<open>d\<close> divides, and the rest. A zero divisor traps.\<close>

partial_function (option) pull_factor :: "u32 \<Rightarrow> u32 \<Rightarrow> (u32 list \<times> u32) option" where
  "pull_factor d n =
     (if d = 0 then None
      else if n mod d = 0 then do { (ds, m) \<leftarrow> pull_factor d (n div d); Some (d # ds, m) }
      else Some ([], n))"

partial_function (option) factor_loop :: "u32 \<Rightarrow> u32 \<Rightarrow> u32 \<Rightarrow> (u32 list \<times> u32) option" where
  "factor_loop orig d n =
     (if d * d \<le> orig \<and> 1 < n
      then do {
        (ds, m) \<leftarrow> pull_factor d n;
        (es, r) \<leftarrow> factor_loop orig (d + 1) m;
        Some (ds @ es, r) }
      else Some ([], n))"

definition factors :: "u32 \<Rightarrow> u32 list option" where
  "factors n = map_option (\<lambda>(ds, r). if 1 < r then ds @ [r] else ds) (factor_loop n 2 n)"

definition cmd_factor :: "bytes \<Rightarrow> (int \<times> bytes) option" where
  "cmd_factor args =
     (let tok = snd (get_token args 16)
      in if tok = [] then Some (-1, msg ''Usage: FACTOR <number>'')
         else map_option (\<lambda>fs. (0, int_to_str (str_to_int tok) @ lit '':'' @ concat (map (\<lambda>d. 0x20 # int_to_str d) fs) @ [10]))
                (factors (str_to_int tok)))"

partial_function (option) seq_loop :: "u32 \<Rightarrow> u32 \<Rightarrow> bytes option" where
  "seq_loop i end2 =
     (if i \<le> end2 then do { out \<leftarrow> seq_loop (i + 1) end2; Some (int_to_str i @ [10] @ out) } else Some [])"

definition cmd_seq :: "bytes \<Rightarrow> (int \<times> bytes) option" where
  "cmd_seq args =
     (let (args, s1) = get_token args 16; s2 = snd (get_token args 16)
      in if s1 = [] then Some (-1, msg ''Usage: SEQ <start> <end>'')
         else let start = (if s2 = [] then 1 else str_to_int s1); end2 = (if s2 = [] then str_to_int s1 else str_to_int s2)
              in map_option (\<lambda>out. (0, out)) (seq_loop start end2))"

definition cmd_calc :: "bytes \<Rightarrow> int \<times> bytes" where
  "cmd_calc args =
     (let (args, a_str) = get_token args 16; (args, op) = get_token args 4; b_str = snd (get_token args 16);
          a = str_to_int a_str; b = str_to_int b_str; result = (\<lambda>r. (0, lit ''Result: '' @ int_to_str r @ [10]))
      in if a_str = [] \<or> op = [] \<or> b_str = [] then (-1, msg ''Usage: CALC num op num (e.g., CALC 5 + 3)'')
         else if peek op = 0x2B then result (a + b)
         else if peek op = 0x2D then result (a - b)
         else if peek op = 0x2A then result (a * b)
         else if peek op = 0x2F then if b = 0 then (-1, msg ''Error: Division by zero'') else result (a div b)
         else (-1, msg ''Unknown operator''))"

text \<open>A signed result that does not fit is undefined; the division of the smallest number by -1 traps.\<close>

definition expr_value :: "u8 \<Rightarrow> int \<Rightarrow> int \<Rightarrow> int option" where
  "expr_value op v1 v2 =
     (let fits = (\<lambda>r :: int. if -2147483648 \<le> r \<and> r < 2147483648 then Some r else None)
      in if op = 0x2B then fits (v1 + v2)
         else if op = 0x2D then fits (v1 - v2)
         else if op = 0x2A then fits (v1 * v2)
         else if op = 0x2F then if v2 = 0 then Some 0 else fits (cdiv v1 v2)
         else if op = 0x25 then if v2 = 0 then Some 0 else if v1 = -2147483648 \<and> v2 = -1 then None else Some (cmod v1 v2)
         else Some 0)"

definition cmd_expr :: "bytes \<Rightarrow> (int \<times> bytes) option" where
  "cmd_expr args =
     (let (args, a1) = get_token args 16; (args, op) = get_token args 4; a2 = snd (get_token args 16)
      in if a1 = [] then Some (-1, msg ''Usage: EXPR num op num'')
         else if op = [] then Some (0, int_to_str (str_to_int a1) @ [10])
         else map_option (\<lambda>r. (0, int_to_str (of_int r) @ [10])) (expr_value (peek op) (sint (str_to_int a1)) (sint (str_to_int a2))))"

definition cmd_test :: "bytes \<Rightarrow> 'd aur \<Rightarrow> int" where
  "cmd_test args s =
     (let (args, tok) = get_token args 16; f = snd (get_token args 64)
      in if str_cmp tok (lit ''-f'') = 0 then if fs_find_type s 0 f \<noteq> None then 0 else 1
         else if str_cmp tok (lit ''-d'') = 0 then if fs_find_type s 1 f \<noteq> None then 0 else 1
         else 1)"

end
