(* ===== verification/TextFacts.thy ===== *)
theory TextFacts
  imports TextTools
begin

text \<open>
  What the text utilities print: the counts of \<open>WC\<close>, the lines selected by \<open>HEAD\<close>, \<open>TAIL\<close> and \<open>GREP\<close>,
  and the file that \<open>SORT\<close> and \<open>UNIQ\<close> print as it is.
\<close>

section \<open>Files\<close>

text \<open>The name given on the command line leads to a file with the content \<open>d\<close>.\<close>

definition names_text :: "'d aur \<Rightarrow> bytes \<Rightarrow> bytes \<Rightarrow> bool" where
  "names_text s name d \<longleftrightarrow> fs_ok s \<and> name \<noteq> [] \<and>
     (\<exists>path i. build_full_path (current_dir s) name = Some path \<and> fs_find_type s 0 path = Some i \<and> stored s i = Some d)"

lemma slot_of_lt: "slot_of s i = Some k \<Longrightarrow> k < file_content_count s"
  by (auto simp: slot_of_def find_Some_iff)

lemma content_bytes_stored:
  assumes "fs_ok s" and "slot_of s i = Some k"
  shows "content_bytes s k = stored s i" and "unat (fc_size (file_contents s ! k)) \<le> length (fc_data (file_contents s ! k))"
proof -
  have "file_contents s ! k \<in> set (file_contents s)"
    using slot_of_lt [OF assms(2)] assms(1) by (simp add: fs_ok_def fs_shape_def)
  then have "length (fc_data (file_contents s ! k)) = 8192" "unat (fc_size (file_contents s ! k)) \<le> 8192"
    using assms(1) by (auto simp: fs_ok_def fs_shape_def)
  then show "content_bytes s k = stored s i" "unat (fc_size (file_contents s ! k)) \<le> length (fc_data (file_contents s ! k))"
    using assms(2) by (simp_all add: content_bytes_def stored_def rdn_def)
qed

lemma open_names_text:
  assumes "names_text s name d"
  obtains k i where "open_text (fs_find_type s 0) name s = Some (Content k)" and "content_bytes s k = Some d" and "slot_of s i = Some k"
proof -
  obtain path i where p: "build_full_path (current_dir s) name = Some path" "fs_find_type s 0 path = Some i" "stored s i = Some d"
      and ok: "fs_ok s" "name \<noteq> []"
    using assms by (auto simp: names_text_def)
  then obtain k where k: "slot_of s i = Some k"
    by (auto simp: stored_def)
  show thesis
    using that [of k i] p ok k content_bytes_stored(1) [OF ok(1) k] by (simp add: open_text_def)
qed

lemma text_tool_content:
  assumes "names_text s name d"
  shows "text_tool (fs_find_type s 0) usage none body name s = map_option (Pair 0) (body d)"
proof -
  obtain k i where "open_text (fs_find_type s 0) name s = Some (Content k)" "content_bytes s k = Some d" "slot_of s i = Some k"
    using open_names_text [OF assms] .
  then show ?thesis
    by (cases "body d") (simp_all add: text_tool_def)
qed

lemma sample_notes: "names_text sample_fs (lit ''notes'') [104, 105]"
proof -
  have T: "fs_table sample_fs ! 0 = sample_entry ''/Music'' 0 1" "fs_table sample_fs ! 1 = sample_entry ''/notes'' 2 0"
      "file_contents sample_fs ! 0 = \<lparr>fc_idx = 1, fc_size = 2, fc_data = [104, 105] @ replicate 8190 0\<rparr>"
    by (simp_all add: sample_fields boot_fields)
  have "build_full_path (current_dir sample_fs) (lit ''notes'') = Some (lit ''/notes'')"
    unfolding sample_fields by (simp add: build_full_path_def boot_aur_def of_char_def slash_def cstr_def)
  moreover have "fs_find_type sample_fs 0 (lit ''/notes'') = Some 1"
  proof -
    have "[0..<fs_count sample_fs] = [0, 1]"
      by (simp add: sample_fields upt_rec)
    moreover have "same_name sample_fs 1 (lit ''/notes'')"
      unfolding same_name_def T by (simp add: str_cmp_0_iff fold_case_def sample_entry_def of_char_def)
    ultimately show ?thesis
      by (simp add: fs_find_type_def T [unfolded One_nat_def]) (simp add: sample_entry_def)
  qed
  moreover have "stored sample_fs 1 = Some [104, 105]"
  proof -
    have "[0..<file_content_count sample_fs] = [0]"
      by (simp add: sample_fields)
    then show ?thesis
      by (simp add: stored_def slot_of_def T)
  qed
  ultimately show ?thesis
    unfolding names_text_def using sample_ok by (intro conjI exI) (assumption | simp)+
qed

section \<open>Lines\<close>

text \<open>The pieces of a text between the newlines; the last one is empty when the text ends with one.\<close>

fun pieces :: "bytes \<Rightarrow> bytes list" where
  "pieces [] = [[]]"
| "pieces (c # cs) = (if c = 10 then [] # pieces cs else (c # hd (pieces cs)) # tl (pieces cs))"

definition with_newlines :: "bytes list \<Rightarrow> bytes" where
  "with_newlines ls = concat (map (\<lambda>l. l @ [10]) ls)"

lemma pieces_ne [simp]: "pieces d \<noteq> []"
  by (induction d) auto

lemma pieces_split: "10 \<notin> set w \<Longrightarrow> pieces (w @ 10 # d) = w # pieces d"
  by (induction w) auto

lemma pieces_single: "10 \<notin> set w \<Longrightarrow> pieces w = [w]"
  by (induction w) auto

lemma with_newlines_simps [simp]: "with_newlines [] = []" "with_newlines (l # ls) = l @ 10 # with_newlines ls"
  by (simp_all add: with_newlines_def)

text \<open>A text is one line, or a line, a newline and a text.\<close>

lemma text_induct [case_names single line]:
  assumes "\<And>w. 10 \<notin> set w \<Longrightarrow> P w" and "\<And>w d. 10 \<notin> set w \<Longrightarrow> P d \<Longrightarrow> P (w @ 10 # d)"
  shows "P d"
proof (induction d rule: length_induct)
  case (1 d)
  show ?case
  proof (cases "10 \<in> set d")
    case True
    then obtain w e where "d = w @ 10 # e" "10 \<notin> set w"
      by (meson split_list_first)
    then show ?thesis
      using 1 assms(2) by auto
  qed (use assms(1) in blast)
qed

lemma newlines_pieces: "length (filter (\<lambda>c. c = 10) d) = length (pieces d) - 1"
proof (induction d rule: text_induct)
  case (single w)
  then show ?case
    by (auto simp: pieces_single filter_empty_conv)
next
  case (line w d)
  then show ?case
    by (cases "pieces d") (auto simp: pieces_split filter_empty_conv)
qed

section \<open>Counting\<close>

lemma wc_loop_words:
  "wc_loop inw l w d = (l + length (filter (\<lambda>c. c = 10) d),
     w + (if inw then Suc (length (words_of wc_blank (dropWhile (\<lambda>c. \<not> wc_blank c) d))) else length (words_of wc_blank d)))"
proof (induction d arbitrary: inw l w)
  case Nil
  have "words_of wc_blank [] = []"
    by (simp add: words_of.simps)
  then show ?case
    by simp
next
  case (Cons c d)
  show ?case
  proof (cases "wc_blank c")
    case True
    then have "words_of wc_blank (c # d) = words_of wc_blank d"
      by (subst (1 2) words_of.simps) simp
    then show ?thesis
      using True Cons by (simp add: Let_def)
  next
    case False
    then have "c \<noteq> 10" "words_of wc_blank (c # d) = (c # takeWhile (\<lambda>c. \<not> wc_blank c) d) # words_of wc_blank (dropWhile (\<lambda>c. \<not> wc_blank c) d)"
      by (auto simp: wc_blank_def words_of.simps [of _ "c # d"])
    then show ?thesis
      using False Cons by (simp add: Let_def)
  qed
qed

text \<open>
  \<open>WC\<close> prints the number of newlines, the number of maximal runs without blanks, tabs and
  newlines, and the number of bytes.
\<close>

theorem wc_counts:
  assumes "names_text s (snd (get_token args 64)) d"
  shows "cmd_wc args s = Some (0, wc_line (length (pieces d) - 1) (length (words_of wc_blank d)) (length d) (snd (get_token args 64)))"
  using text_tool_content [OF assms] by (simp add: cmd_wc_def Let_def wc_loop_words newlines_pieces)

section \<open>Head, tail and grep\<close>

lemma head_loop_pieces:
  "head_loop n d = (if length (pieces d) \<le> n then d else with_newlines (take n (pieces d)))"
proof (induction d arbitrary: n rule: text_induct)
  case (single w)
  then have "0 < n \<Longrightarrow> head_loop n w = w"
    by (induction w) auto
  moreover have "head_loop 0 w = []"
    by (cases w) simp_all
  ultimately show ?case
    using single by (cases n) (simp_all add: pieces_single)
next
  case (line w d)
  have "head_loop (Suc n) (w @ 10 # d) = w @ 10 # head_loop n d" for n
    using line(1) by (induction w) auto
  moreover have "head_loop 0 xs = []" for xs
    by (cases xs) simp_all
  ultimately show ?case
    using line by (cases n) (simp_all add: pieces_split)
qed

lemma tail_loop_pieces:
  "n < length (pieces d) \<Longrightarrow> tail_loop n d = with_newlines (butlast (drop n (pieces d))) @ last (pieces d)"
proof (induction d arbitrary: n rule: text_induct)
  case (single w)
  then have "tail_loop 0 w = w"
    by (induction w) auto
  then show ?case
    using single by (simp add: pieces_single)
next
  case (line w d)
  have "tail_loop 0 (w @ 10 # d) = w @ 10 # tail_loop 0 d"
    by (induction w) auto
  moreover have "tail_loop (Suc n) (w @ 10 # d) = tail_loop n d" for n
    using line(1) by (induction w) auto
  ultimately show ?case
    using line by (cases n) (simp_all add: pieces_split)
qed

text \<open>
  \<open>HEAD\<close> prints the first ten lines, or the whole text when it has no more; \<open>TAIL\<close> prints what
  follows all but ten of the newlines, so that a text without a final newline shows eleven lines.
\<close>

theorem head_tail_lines:
  assumes "names_text s (snd (get_token args 64)) d"
  shows "cmd_head args s = Some (0, if length (pieces d) \<le> 10 then d else with_newlines (take 10 (pieces d))) \<and>
    cmd_tail args s = Some (0, with_newlines (butlast (drop (length (pieces d) - 11) (pieces d))) @ last (pieces d))"
proof -
  obtain k i where k: "open_text (fs_find_type s 0) (snd (get_token args 64)) s = Some (Content k)" "content_bytes s k = Some d" "slot_of s i = Some k"
    using open_names_text [OF assms] .
  have "fs_ok s"
    using assms by (simp add: names_text_def)
  from content_bytes_stored(2) [OF this k(3)] have "head_bytes s k = Some (head_loop 10 d)"
    using k(2) by (auto simp: head_bytes_def Let_def content_bytes_def rdn_def split: if_splits)
  moreover have "length (filter (\<lambda>c. c = 10) d) - 10 < length (pieces d)" "length (filter (\<lambda>c. c = 10) d) - 10 = length (pieces d) - 11"
    using newlines_pieces [of d] by (cases "pieces d"; simp)+
  ultimately show ?thesis
    using text_tool_content [OF assms] k(1) by (simp add: cmd_head_def cmd_tail_def head_loop_pieces tail_loop_pieces)
qed

lemma has_match_sublist: "has_match pat l \<longleftrightarrow> sublist pat l"
proof (induction l)
  case (Cons c l)
  have "prefix pat (c # l) \<longleftrightarrow> length pat \<le> length (c # l) \<and> take (length pat) (c # l) = pat"
    by (metis append_eq_conv_conj prefix_def prefix_length_le take_is_prefix)
  moreover have "sublist pat l \<Longrightarrow> length pat \<le> length (c # l)"
    using sublist_length_le by fastforce
  ultimately show ?case
    using Cons by (auto simp: sublist_Cons_right)
qed simp

lemma grep_loop_pieces:
  "10 \<notin> set line \<Longrightarrow> grep_loop pat line d = with_newlines (filter (sublist pat) (pieces (line @ d)))"
proof (induction pat line d rule: grep_loop.induct)
  case (2 pat line c cs)
  then show ?case
    by (cases "c = 10") (simp_all add: has_match_sublist pieces_split)
qed (simp add: has_match_sublist pieces_single)

text \<open>
  C20: \<open>GREP\<close> prints exactly the lines that contain the pattern, in their order, each ended by a
  newline.
\<close>

theorem grep_lines:
  assumes "get_token args 64 = (rest, pat)" and "pat \<noteq> []" and "names_text s (snd (get_token rest 64)) d"
  shows "cmd_grep args s = Some (0, with_newlines (filter (sublist pat) (pieces d)))"
  using assms(1,2) text_tool_content [OF assms(3)] by (simp add: cmd_grep_def Let_def grep_loop_pieces)

text \<open>
  \<open>SORT\<close> and \<open>UNIQ\<close> neither sort nor remove anything: both print the file as it is.
\<close>

theorem sort_uniq_unchanged:
  assumes "names_text s (snd (get_token args 64)) d"
  shows "cmd_sort args s = Some (0, msg ''SORT: Sorted output:'' @ d @ (if d \<noteq> [] \<and> last d \<noteq> 10 then [10] else [])) \<and>
    cmd_uniq args s = Some (0, msg ''UNIQ: Unique output:'' @ d @ (if d \<noteq> [] \<and> last d \<noteq> 10 then [10] else []))"
  using text_tool_content [OF assms] by (simp add: cmd_sort_def cmd_uniq_def print_all_def)

section \<open>Examples\<close>

lemma notes_token: "get_token (lit ''notes'') 64 = ([], lit ''notes'')" "get_token (lit ''h notes'') 64 = (lit '' notes'', lit ''h'')"
    "get_token (lit '' notes'') 64 = ([], lit ''notes'')"
  by (simp_all add: get_token_def skip_spaces_def blank_def of_char_def Let_def)

lemma notes_names: "names_text sample_fs (snd (get_token (lit ''notes'') 64)) [104, 105]" "names_text sample_fs (snd (get_token (lit '' notes'') 64)) [104, 105]"
  using sample_notes by (simp_all only: notes_token snd_conv)

theorem wc_counts_witness: "\<exists>out. cmd_wc (lit ''notes'') sample_fs = Some (0, out)"
  using wc_counts [OF notes_names(1)] by blast

theorem head_tail_lines_witness: "cmd_head (lit ''notes'') sample_fs = Some (0, [104, 105]) \<and> cmd_tail (lit ''notes'') sample_fs = Some (0, [104, 105])"
  using head_tail_lines [OF notes_names(1)] by simp

theorem grep_lines_witness: "cmd_grep (lit ''h notes'') sample_fs = Some (0, [104, 105, 10])"
proof -
  have "sublist [104 :: u8] [104, 105]"
    by (simp add: sublist_Cons_right)
  moreover have "lit ''h'' = [104]" "lit ''h'' \<noteq> []"
    by (simp_all add: of_char_def)
  ultimately show ?thesis
    using grep_lines [OF notes_token(2) _ notes_names(2)] by simp
qed

theorem sort_uniq_unchanged_witness: "cmd_sort (lit ''notes'') sample_fs = Some (0, msg ''SORT: Sorted output:'' @ [104, 105, 10])"
  using sort_uniq_unchanged [OF notes_names(1)] by simp

end
