(* ===== verification/TextCodes.thy ===== *)
theory TextCodes
  imports TextTools
begin

text \<open>
  The utilities on characters and numbers: \<open>BASE64\<close> is undone by a decoder, \<open>FACTOR\<close> prints the prime
  factorisation of every 32-bit number, and \<open>SEQ\<close> returns unless the end is the largest number.
\<close>

section \<open>Base 64\<close>

definition b64_val :: "u8 \<Rightarrow> u8" where
  "b64_val c = (case index_of c b64 of Some i \<Rightarrow> of_nat i | None \<Rightarrow> 0)"

fun base64_decode :: "bytes \<Rightarrow> bytes" where
  "base64_decode (p # q # r # s # cs) =
     (let x = b64_val p; y = b64_val q; z = b64_val r; w = b64_val s
      in [push_bit 2 x OR drop_bit 4 y] @
         (if r = 0x3D then [] else [push_bit 4 y OR drop_bit 2 z]) @
         (if s = 0x3D then [] else [push_bit 6 z OR w]) @ base64_decode cs)"
| "base64_decode cs = []"

lemma b64_facts: "distinct b64" "length b64 = 64" "0x3D \<notin> set b64"
  by code_simp+

lemma index_of_nth: "distinct xs \<Longrightarrow> i < length xs \<Longrightarrow> index_of (xs ! i) xs = Some i"
  by (auto simp: index_of_def find_Some_iff nth_eq_iff_index_eq intro!: exI [of _ i])

lemma sextet_less: "unat (drop_bit sh n AND 63 :: u32) < 64"
proof -
  have "drop_bit sh n AND 63 = take_bit 6 (drop_bit sh n)" for n :: u32
    by (simp add: take_bit_eq_mask mask_eq_exp_minus_1)
  then show ?thesis
    using take_bit_nat_less_exp [of 6] by (simp add: unsigned_take_bit_eq)
qed

lemma b64_digit_val: "b64_val (b64_digit n sh) = ucast (drop_bit sh n AND 63)" and b64_digit_neq: "b64_digit n sh \<noteq> 0x3D"
proof -
  have i: "unat (drop_bit sh n AND 63) < length b64"
    using sextet_less [of sh n] b64_facts(2) by simp
  have "b64 ! unat (drop_bit sh n AND 63) \<noteq> 0x3D"
    using nth_mem [OF i] b64_facts(3) by metis
  with i show "b64_val (b64_digit n sh) = ucast (drop_bit sh n AND 63)" "b64_digit n sh \<noteq> 0x3D"
    using b64_facts(1)
    by (auto simp: b64_digit_def b64_val_def index_of_nth unsigned_ucast_eq of_nat_unat)
qed

lemma sextets:
  fixes a b c :: u8
  defines "n \<equiv> push_bit 16 (ucast a) OR push_bit 8 (ucast b) OR (ucast c :: u32)"
  shows "push_bit 2 (ucast (drop_bit 18 n AND 63)) OR drop_bit 4 (ucast (drop_bit 12 n AND 63)) = a"
    "push_bit 4 (ucast (drop_bit 12 n AND 63)) OR drop_bit 2 (ucast (drop_bit 6 n AND 63)) = b"
    "push_bit 6 (ucast (drop_bit 6 n AND 63)) OR ucast (drop_bit 0 n AND 63) = c"
proof -
  have m: "(63 :: u32) = mask 6"
    by (simp add: mask_eq_exp_minus_1)
  have eight: "k < 8 \<Longrightarrow> k = 0 \<or> k = 1 \<or> k = 2 \<or> k = 3 \<or> k = 4 \<or> k = 5 \<or> k = 6 \<or> k = 7" for k :: nat
    by arith
  have out: "8 \<le> k \<Longrightarrow> \<not> bit w k" for k and w :: u8
    using bit_imp_le_length [of w k] by fastforce
  show "push_bit 2 (ucast (drop_bit 18 n AND 63)) OR drop_bit 4 (ucast (drop_bit 12 n AND 63)) = a"
    "push_bit 4 (ucast (drop_bit 12 n AND 63)) OR drop_bit 2 (ucast (drop_bit 6 n AND 63)) = b"
    "push_bit 6 (ucast (drop_bit 6 n AND 63)) OR ucast (drop_bit 0 n AND 63) = c"
    unfolding n_def m by (rule bit_word_eqI; simp; drule eight; elim disjE; simp add: bit_simps out)+
qed

lemma base64_inverse: "base64_decode (base64_loop s) = s"
proof (induction s rule: base64_loop.induct)
  case (2 a)
  show ?case
    using sextets(1) [of a 0 0] by (simp add: Let_def b64_digit_val b64_digit_neq)
next
  case (3 a b)
  show ?case
    using sextets(1,2) [of a b 0] by (simp add: Let_def b64_digit_val b64_digit_neq)
next
  case (4 a b c cs)
  then show ?case
    using sextets [of a b c] by (simp add: Let_def b64_digit_val b64_digit_neq)
qed simp

text \<open>
  C17: The standard decoder undoes \<open>BASE64\<close>: for every text the printed line without its newline
  decodes to the text, and it has four characters for every three bytes begun.
\<close>

theorem base64_roundtrip:
  "base64_decode (base64_loop s) = s \<and> length (base64_loop s) = 4 * ((length s + 2) div 3)"
proof
  show "length (base64_loop s) = 4 * ((length s + 2) div 3)"
  proof (induction s rule: base64_loop.induct)
    case (4 a b c cs)
    have "(length (a # b # c # cs) + 2) div 3 = (length cs + 2 + 3) div 3"
      by simp
    then have "(length (a # b # c # cs) + 2) div 3 = (length cs + 2) div 3 + 1"
      by (simp only: div_add_self2)
    then show ?case
      using 4 by (simp add: Let_def)
  qed (simp_all add: Let_def)
qed (rule base64_inverse)

section \<open>Prime factors\<close>

definition is_prime :: "nat \<Rightarrow> bool" where
  "is_prime p \<longleftrightarrow> 1 < p \<and> (\<forall>m. m dvd p \<longrightarrow> m = 1 \<or> m = p)"

lemma pull_factor_spec:
  "1 < d \<Longrightarrow> 0 < n \<Longrightarrow> \<exists>k m. pull_factor d n = Some (replicate k d, m) \<and> unat n = unat d ^ k * unat m \<and> 0 < m \<and> \<not> unat d dvd unat m"
proof (induction "unat n" arbitrary: n rule: less_induct)
  case less
  show ?case
  proof (cases "n mod d = 0")
    case True
    then have dvd: "unat d * unat (n div d) = unat n"
      by (metis add.right_neutral mult.commute unat_0 unat_div unat_mod div_mult_mod_eq)
    have "0 < unat (n div d)"
      using dvd less.prems(2) by (metis mult_0_right neq0_conv unat_eq_zero word_gt_0)
    then have pos: "0 < n div d"
      by (simp add: word_less_nat_alt)
    have "1 < unat d"
      using less.prems(1) by (simp add: word_less_nat_alt)
    with \<open>0 < unat (n div d)\<close> have "unat (n div d) < unat d * unat (n div d)"
      by simp
    then have "unat (n div d) < unat n"
      by (simp only: dvd)
    then obtain k m where IH: "pull_factor d (n div d) = Some (replicate k d, m)" "unat (n div d) = unat d ^ k * unat m" "0 < m" "\<not> unat d dvd unat m"
      using less.hyps [OF _ less.prems(1) pos] by blast
    have "d \<noteq> 0"
      using less.prems(1) by auto
    with True IH(1) have "pull_factor d n = Some (replicate (Suc k) d, m)"
      by (subst pull_factor.simps) simp
    moreover have "unat n = unat d ^ Suc k * unat m"
      unfolding dvd [symmetric] IH(2) by simp
    ultimately show ?thesis
      using IH(3,4) by blast
  next
    case False
    then have "\<not> unat d dvd unat n"
      by (metis dvd_imp_mod_0 unat_eq_zero unat_mod)
    then show ?thesis
      using False less.prems by (intro exI [of _ 0] exI [of _ n]) (subst pull_factor.simps, auto)
  qed
qed

lemma factor_rest_prime:
  fixes n d orig :: u32
  assumes "1 < n" and "\<not> d * d \<le> orig" and "n \<le> orig" and "\<forall>k. 1 < k \<longrightarrow> k < unat d \<longrightarrow> \<not> k dvd unat n"
  shows "is_prime (unat n)"
proof -
  have n: "1 < unat n"
    using assms(1) by (simp add: word_less_nat_alt)
  have "m = 1 \<or> m = unat n" if "m dvd unat n" for m
  proof (rule ccontr)
    assume c: "\<not> (m = 1 \<or> m = unat n)"
    obtain q where q: "unat n = m * q"
      using \<open>m dvd unat n\<close> by (auto elim: dvdE)
    then have "m \<noteq> 0" "q \<noteq> 0" "q \<noteq> 1" "q dvd unat n"
      using n c by (auto intro: Nat.gr0I)
    then have "unat d \<le> m" "unat d \<le> q"
      using assms(4) c \<open>m dvd unat n\<close> by (metis One_nat_def less_one linorder_cases linorder_not_less)+
    then have "unat d * unat d \<le> unat n"
      unfolding q by (rule mult_le_mono)
    moreover from this have "unat (d * d) = unat d * unat d"
      using unat_u32_less [of n] by (simp add: unat_mult_lem [symmetric] order.strict_trans1)
    ultimately have "d * d \<le> n"
      by (simp add: word_le_nat_alt)
    then show False
      using assms(2,3) by simp
  qed
  then show ?thesis
    using n by (simp add: is_prime_def)
qed

text \<open>From \<open>d\<close> on the loop returns the primes of \<open>n\<close>, which has no divisor below \<open>d\<close>.\<close>

lemma factor_loop_spec:
  assumes "1 < d \<or> n = 1" and "0 < n" and "n \<le> orig" and "\<forall>k. 1 < k \<longrightarrow> k < unat d \<longrightarrow> \<not> k dvd unat n"
  shows "\<exists>ds r. factor_loop orig d n = Some (ds, r) \<and> 0 < r \<and> unat n = prod_list (map unat ds) * unat r \<and>
    (\<forall>p \<in> set ds. is_prime (unat p) \<and> d \<le> p) \<and> sorted ds \<and> (1 < r \<longrightarrow> is_prime (unat r) \<and> (\<forall>p \<in> set ds. p \<le> r))"
  using assms
proof (induction "unat n + (2 ^ 32 - unat d)" arbitrary: d n rule: less_induct)
  case less
  show ?case
  proof (cases "d * d \<le> orig \<and> 1 < n")
    case False
    then show ?thesis
      using less.prems factor_rest_prime [of n d orig] by (subst factor_loop.simps) auto
  next
    case True
    then have d: "1 < d"
      using less.prems(1) by auto
    obtain k m where p: "pull_factor d n = Some (replicate k d, m)" "unat n = unat d ^ k * unat m" "0 < m" "\<not> unat d dvd unat m"
      using pull_factor_spec [OF d less.prems(2)] by auto
    have D: "1 < unat d" and N: "1 < unat n"
      using d True by (simp_all add: word_less_nat_alt)
    have m_dvd: "unat m dvd unat n"
      using p(2) by simp
    have m_le: "m \<le> n"
      using m_dvd N by (simp add: word_le_nat_alt dvd_imp_le)
    have no_div: "\<not> j dvd unat m" if "1 < j" "j \<le> unat d" for j
      using that p(4) less.prems(4) m_dvd by (metis dvd_trans le_neq_implies_less)
    have prime_d: "is_prime (unat d)" if "0 < k"
    proof -
      have "unat d dvd unat n"
        using that p(2) by (simp add: dvd_power_le dvd_mult2)
      then have "\<not> j dvd unat d" if "1 < j" "j < unat d" for j
        using less.prems(4) that dvd_trans by blast
      moreover have "j \<le> unat d \<and> 0 < j" if "j dvd unat d" for j
        using D that by (auto intro: dvd_imp_le Nat.gr0I)
      ultimately show ?thesis
        using D unfolding is_prime_def by (metis One_nat_def Suc_lessI le_neq_implies_less)
    qed
    have next_ok: "\<exists>ds r. factor_loop orig (d + 1) m = Some (ds, r) \<and> 0 < r \<and> unat m = prod_list (map unat ds) * unat r \<and>
        (\<forall>p \<in> set ds. is_prime (unat p) \<and> d \<le> p) \<and> sorted ds \<and> (1 < r \<longrightarrow> is_prime (unat r) \<and> (\<forall>p \<in> set ds. p \<le> r))"
    proof (cases "m = 1")
      case True
      then show ?thesis
        by (subst factor_loop.simps) simp
    next
      case False
      then have M: "1 < unat m"
        using p(3) by (auto simp: word_unat_eq_iff word_less_nat_alt)
      have dm: "unat d < unat m"
        using no_div [OF M] by (meson dvd_refl linorder_not_less)
      have d1: "unat (d + 1) = unat d + 1"
      proof -
        have "unat d + 1 < 4294967296"
          using dm unat_u32_less [of m] by linarith
        then show ?thesis
          by (simp add: unat_word_ariths)
      qed
      have "unat m + (2 ^ 32 - unat (d + 1)) < unat n + (2 ^ 32 - unat d)"
      proof -
        have "unat m \<le> unat n" "unat d < 4294967296"
          using m_le unat_u32_less [of d] by (simp_all add: word_le_nat_alt)
        moreover have "(2 :: nat) ^ 32 = 4294967296"
          by simp
        ultimately show ?thesis
          using d1 by linarith
      qed
      moreover have "1 < d + 1" "d \<le> d + 1"
        using d1 D by (simp_all add: word_less_nat_alt word_le_nat_alt)
      moreover have "m \<le> orig"
        using m_le less.prems(3) by simp
      ultimately have "\<exists>ds r. factor_loop orig (d + 1) m = Some (ds, r) \<and> 0 < r \<and> unat m = prod_list (map unat ds) * unat r \<and>
          (\<forall>p \<in> set ds. is_prime (unat p) \<and> d + 1 \<le> p) \<and> sorted ds \<and> (1 < r \<longrightarrow> is_prime (unat r) \<and> (\<forall>p \<in> set ds. p \<le> r))"
        using p(3) no_div d1 by (intro less.hyps) auto
      then show ?thesis
        using \<open>d \<le> d + 1\<close> by (meson order.trans)
    qed
    then obtain es r where e: "factor_loop orig (d + 1) m = Some (es, r)" "0 < r" "unat m = prod_list (map unat es) * unat r"
        "\<forall>p \<in> set es. is_prime (unat p) \<and> d \<le> p" "sorted es" "1 < r \<longrightarrow> is_prime (unat r) \<and> (\<forall>p \<in> set es. p \<le> r)"
      by blast
    have "d \<le> r" if "1 < r"
    proof -
      have "unat r dvd unat n"
        using e(3) m_dvd by (metis dvd_triv_right dvd_trans)
      then show ?thesis
        using less.prems(4) that by (auto simp: word_le_nat_alt word_less_nat_alt not_less [symmetric])
    qed
    moreover have "factor_loop orig d n = Some (replicate k d @ es, r)"
      using True p(1) e(1) by (subst factor_loop.simps) simp
    moreover have "unat n = prod_list (map unat (replicate k d @ es)) * unat r"
      using p(2) e(3) by (simp add: prod_list_replicate)
    moreover have "sorted (replicate k d @ es)"
      using e(4,5) by (auto simp: sorted_append)
    ultimately show ?thesis
      using e prime_d by (intro exI [of _ "replicate k d @ es"] exI [of _ r]) auto
  qed
qed

text \<open>
  C13: \<open>FACTOR\<close> prints the prime factorisation: for every positive number its loops end, whatever the
  wrap-around of the squared divisor, and the numbers printed are primes, in ascending order, whose
  product is the number.
\<close>

theorem factor_correct:
  assumes "0 < n"
  shows "\<exists>fs. factors n = Some fs \<and> sorted fs \<and> (\<forall>p \<in> set fs. is_prime (unat p)) \<and> prod_list (map unat fs) = unat n"
proof -
  have "\<not> k < unat (2 :: u32) \<or> \<not> 1 < k" for k
    by auto
  then obtain ds r where f: "factor_loop n 2 n = Some (ds, r)" "0 < r" "unat n = prod_list (map unat ds) * unat r"
      "\<forall>p \<in> set ds. is_prime (unat p)" "sorted ds" "1 < r \<longrightarrow> is_prime (unat r) \<and> (\<forall>p \<in> set ds. p \<le> r)"
    using factor_loop_spec [of 2 n n] assms by auto
  show ?thesis
  proof (cases "1 < r")
    case True
    then show ?thesis
      using f by (simp add: factors_def sorted_append)
  next
    case False
    then have "r = 1"
      using f(2) by (auto simp: word_unat_eq_iff word_less_nat_alt)
    then show ?thesis
      using f by (simp add: factors_def)
  qed
qed

theorem factor_correct_witness: "\<exists>fs. factors 4294967295 = Some fs \<and> prod_list (map unat fs) = 4294967295 \<and> (\<forall>p \<in> set fs. is_prime (unat p))"
  using factor_correct [of 4294967295] by auto

section \<open>Sequences\<close>

lemma u32_le: "(i :: u32) \<le> 0xFFFFFFFF"
proof -
  have "unat i \<le> 4294967295"
    using unat_u32_less [of i] by linarith
  then show ?thesis
    by (simp only: word_le_nat_alt) simp
qed

lemma seq_loop_ends:
  assumes "seq_loop i e = Some out"
  shows "e \<noteq> 0xFFFFFFFF"
proof (rule seq_loop.raw_induct [OF _ assms, where P = "\<lambda>i e out. e \<noteq> 0xFFFFFFFF"])
  fix f :: "u32 \<Rightarrow> u32 \<Rightarrow> bytes option" and i e out
  assume "\<And>i e out. f i e = Some out \<Longrightarrow> e \<noteq> 0xFFFFFFFF"
    and "(if i \<le> e then do { out \<leftarrow> f (i + 1) e; Some (int_to_str i @ [10] @ out) } else Some []) = Some out"
  then show "e \<noteq> 0xFFFFFFFF"
    using u32_le [of i] by (auto split: if_splits elim!: bind_SomeE)
qed

lemma seq_loop_lines:
  assumes "e \<noteq> 0xFFFFFFFF"
  shows "seq_loop i e = Some (concat (map (\<lambda>j. int_to_str (of_nat j) @ [10]) [unat i..<Suc (unat e)]))"
proof (induction "Suc (unat e) - unat i" arbitrary: i rule: less_induct)
  case less
  show ?case
  proof (cases "i \<le> e")
    case True
    have "unat e \<noteq> 4294967295"
      using assms by (auto simp: word_unat_eq_iff)
    then have "unat e + 1 < 4294967296"
      using unat_u32_less [of e] by linarith
    moreover have ie: "unat i \<le> unat e"
      using True by (simp add: word_le_nat_alt)
    ultimately have i1: "unat (i + 1) = unat i + 1"
      by (simp add: unat_word_ariths)
    then have "seq_loop (i + 1) e = Some (concat (map (\<lambda>j. int_to_str (of_nat j) @ [10]) [unat i + 1..<Suc (unat e)]))"
      using less [of "i + 1"] ie by simp
    moreover have "[unat i..<Suc (unat e)] = unat i # [unat i + 1..<Suc (unat e)]"
      using ie by (simp add: upt_conv_Cons del: upt_Suc)
    ultimately show ?thesis
      using True by (subst seq_loop.simps) (simp del: upt_Suc)
  next
    case False
    then have "[unat i..<Suc (unat e)] = []"
      by (simp add: word_le_nat_alt)
    with False show ?thesis
      by (subst seq_loop.simps) (simp del: upt_Suc)
  qed
qed

text \<open>
  \<open>SEQ\<close> prints the numbers from the start to the end, one per line, and nothing when the start is
  larger; but with the largest 32-bit number as the end it never returns, because the counter wraps.
\<close>

theorem seq_lines:
  "seq_loop i e = (if e = 0xFFFFFFFF then None else Some (concat (map (\<lambda>j. int_to_str (of_nat j) @ [10]) [unat i..<Suc (unat e)])))"
  using seq_loop_ends [of i e] seq_loop_lines [of e i] by (cases "seq_loop i e") auto

end
