(* ===== verification/Inflate.thy ===== *)
theory Inflate
  imports AurionPrelude
begin

text \<open>
  The decompressor of \<open>src/src/drivers/png.c\<close>: the bit reader, stored and fixed-Huffman blocks.
  Positions are natural numbers, since a buffer in memory is far from the wrap-around of the
  32-bit counters. A decoded code is \<open>None\<close> where the C function returns -1, and a result is
  \<open>Inl\<close> the returned error code or \<open>Inr\<close> the bytes written to the output.
\<close>

section \<open>The bit reader\<close>

record bit_reader =
  br_data :: bytes
  br_byte :: nat
  br_bit :: nat

definition next_bit :: "bit_reader \<Rightarrow> bit_reader" where
  "next_bit br =
     (if 8 \<le> br_bit br + 1 then br\<lparr>br_bit := 0, br_byte := br_byte br + 1\<rparr> else br\<lparr>br_bit := br_bit br + 1\<rparr>)"

text \<open>\<open>i\<close> bits have been read into \<open>val\<close>, \<open>n\<close> are left. At the end of the data the whole result is 0.\<close>

fun read_bits_loop :: "nat \<Rightarrow> nat \<Rightarrow> u32 \<Rightarrow> bit_reader \<Rightarrow> u32 \<times> bit_reader" where
  "read_bits_loop 0 i val br = (val, br)"
| "read_bits_loop (Suc n) i val br =
     (if length (br_data br) \<le> br_byte br then (0, br)
      else read_bits_loop n (i + 1)
             (val OR push_bit i (ucast (drop_bit (br_bit br) (br_data br ! br_byte br) AND 1))) (next_bit br))"

definition read_bits :: "nat \<Rightarrow> bit_reader \<Rightarrow> u32 \<times> bit_reader" where
  "read_bits count br = read_bits_loop count 0 0 br"

definition align_to_byte :: "bit_reader \<Rightarrow> bit_reader" where
  "align_to_byte br = (if 0 < br_bit br then br\<lparr>br_bit := 0, br_byte := br_byte br + 1\<rparr> else br)"

section \<open>Codes\<close>

definition len_base :: "u32 list" where
  "len_base = [3,4,5,6,7,8,9,10,11,13,15,17,19,23,27,31,35,43,51,59,67,83,99,115,131,163,195,227,258]"

definition len_extra :: "nat list" where
  "len_extra = [0,0,0,0,0,0,0,0,1,1,1,1,2,2,2,2,3,3,3,3,4,4,4,4,5,5,5,5,0]"

definition dist_base :: "u32 list" where
  "dist_base = [1,2,3,4,5,7,9,13,17,25,33,49,65,97,129,193,257,385,513,769,1025,1537,2049,3073,4097,6145,8193,12289,16385,24577]"

definition dist_extra :: "nat list" where
  "dist_extra = [0,0,0,0,1,1,2,2,3,3,4,4,5,5,6,6,7,7,8,8,9,9,10,10,11,11,12,12,13,13]"

text \<open>\<open>n\<close> more bits of a code, the first one highest.\<close>

fun read_code :: "nat \<Rightarrow> u32 \<Rightarrow> bit_reader \<Rightarrow> u32 \<times> bit_reader" where
  "read_code 0 code br = (code, br)"
| "read_code (Suc n) code br = (let (b, br) = read_bits 1 br in read_code n (push_bit 1 code OR b) br)"

definition read_fixed_litlen :: "bit_reader \<Rightarrow> u32 option \<times> bit_reader" where
  "read_fixed_litlen br =
     (let (code, br) = read_code 7 0 br
      in if code \<le> 23 then (Some (256 + code), br)
         else let (code, br) = read_code 1 code br
              in if 0x30 \<le> code \<and> code \<le> 0xBF then (Some (code - 0x30), br)
                 else if 0xC0 \<le> code \<and> code \<le> 0xC7 then (Some (280 + (code - 0xC0)), br)
                 else let (code, br) = read_code 1 code br
                      in if 0x190 \<le> code \<and> code \<le> 0x1FF then (Some (144 + (code - 0x190)), br) else (None, br))"

definition read_fixed_dist :: "bit_reader \<Rightarrow> u32 \<times> bit_reader" where
  "read_fixed_dist br = read_code 5 0 br"

section \<open>What a read consumes\<close>

text \<open>The bits that are left, the next one first.\<close>

definition byte_bits :: "u8 \<Rightarrow> bool list" where
  "byte_bits b = map (bit b) [0..<8]"

definition bits_of :: "bytes \<Rightarrow> bool list" where
  "bits_of d = concat (map byte_bits d)"

definition bits_left :: "bit_reader \<Rightarrow> bool list" where
  "bits_left br = drop (8 * br_byte br + br_bit br) (bits_of (br_data br))"

definition br_ok :: "bit_reader \<Rightarrow> bool" where
  "br_ok br \<longleftrightarrow> br_bit br < 8"

lemma length_byte_bits [simp]: "length (byte_bits b) = 8"
  by (simp add: byte_bits_def)

lemma length_bits_of [simp]: "length (bits_of d) = 8 * length d"
  by (induction d) (simp_all add: bits_of_def)

lemma bits_of_nth: "i < length d \<Longrightarrow> k < 8 \<Longrightarrow> bits_of d ! (8 * i + k) = bit (d ! i) k"
proof (induction d arbitrary: i)
  case (Cons b d)
  have "bits_of (b # d) = byte_bits b @ bits_of d"
    by (simp add: bits_of_def)
  then show ?case
    using Cons by (cases i) (auto simp: nth_append byte_bits_def)
qed simp

lemma next_bit_ok: "br_ok br \<Longrightarrow> br_ok (next_bit br)"
  by (simp add: br_ok_def next_bit_def)

lemma bits_left_step:
  assumes "br_ok br" and "br_byte br < length (br_data br)"
  shows "bits_left br = bit (br_data br ! br_byte br) (br_bit br) # bits_left (next_bit br)"
proof -
  let ?p = "8 * br_byte br + br_bit br"
  have "?p < 8 * length (br_data br)"
    using assms by (auto simp: br_ok_def)
  then have "bits_left br = bits_of (br_data br) ! ?p # drop (Suc ?p) (bits_of (br_data br))"
    by (simp add: bits_left_def Cons_nth_drop_Suc)
  moreover have "bits_left (next_bit br) = drop (Suc ?p) (bits_of (br_data br))"
    using assms(1) by (auto simp: bits_left_def next_bit_def br_ok_def intro!: arg_cong2 [of _ _ _ _ drop])
  ultimately show ?thesis
    using bits_of_nth [OF assms(2)] assms(1) by (simp add: br_ok_def)
qed

lemma bits_left_Nil: "length (br_data br) \<le> br_byte br \<Longrightarrow> bits_left br = []"
  by (simp add: bits_left_def)

lemma bits_left_Nil_iff: "br_ok br \<Longrightarrow> bits_left br = [] \<longleftrightarrow> length (br_data br) \<le> br_byte br"
  using bits_left_step [of br] bits_left_Nil [of br] by (cases "br_byte br < length (br_data br)") auto

text \<open>The value of bits, the lowest first.\<close>

fun bits_val :: "bool list \<Rightarrow> nat" where
  "bits_val [] = 0"
| "bits_val (b # bs) = of_bool b + 2 * bits_val bs"

section \<open>Progress\<close>

declare read_code.simps [simp del]

text \<open>A measure that every bit read before the end of the data lowers, for all reader states.\<close>

definition left :: "bit_reader \<Rightarrow> nat" where
  "left br = 9 * (length (br_data br) - br_byte br) + (8 - br_bit br)"

lemma left_next: "br_byte br < length (br_data br) \<Longrightarrow> left (next_bit br) < left br"
  by (auto simp: left_def next_bit_def)

lemma br_data_next [simp]: "br_data (next_bit br) = br_data br"
  by (simp add: next_bit_def)

lemma read_bits_loop_left: "left (snd (read_bits_loop n i val br)) \<le> left br"
proof (induction n arbitrary: i val br)
  case (Suc n)
  show ?case
  proof (cases "br_byte br < length (br_data br)")
    case True
    then show ?thesis
      using order.trans [OF Suc less_imp_le [OF left_next]] by simp
  qed simp
qed simp

lemma read_bits_left: "left (snd (read_bits n br)) \<le> left br"
  by (simp add: read_bits_def read_bits_loop_left)

lemma read_bits_progress: "fst (read_bits n br) \<noteq> 0 \<Longrightarrow> left (snd (read_bits n br)) < left br"
proof (cases n)
  case (Suc m)
  assume "fst (read_bits n br) \<noteq> 0"
  then have "br_byte br < length (br_data br)"
    using Suc by (auto simp: read_bits_def split: if_splits)
  then show ?thesis
    using Suc left_next [of br] le_less_trans [OF read_bits_loop_left] by (auto simp: read_bits_def)
qed (simp add: read_bits_def)

lemma read_code_left: "left (snd (read_code n code br)) \<le> left br"
proof (induction n arbitrary: code br)
  case (Suc n)
  have "left (snd (read_code n (push_bit 1 code OR fst (read_bits 1 br)) (snd (read_bits 1 br)))) \<le> left br"
    by (rule order.trans [OF Suc read_bits_left])
  then show ?case
    by (simp add: read_code.simps(2) split_beta Let_def)
qed (simp add: read_code.simps)

lemma read_code_progress: "left (snd (read_code n code br)) < left br \<or> fst (read_code n code br) = push_bit n code"
proof (induction n arbitrary: code br)
  case (Suc n)
  let ?b = "fst (read_bits 1 br)" and ?br = "snd (read_bits 1 br)"
  have e: "read_code (Suc n) code br = read_code n (push_bit 1 code OR ?b) ?br"
    by (simp add: read_code.simps(2) split_beta Let_def)
  show ?case
  proof (cases "?b = 0")
    case True
    then show ?thesis
      using Suc [of "push_bit 1 code OR ?b" ?br] read_bits_left [of 1 br] unfolding e by (auto simp: push_bit_push_bit add.commute)
  next
    case False
    then show ?thesis
      using le_less_trans [OF read_code_left read_bits_progress] unfolding e by blast
  qed
qed (simp add: read_code.simps)

lemma read_fixed_litlen_left: "left (snd (read_fixed_litlen br)) \<le> left br"
proof -
  obtain c1 b1 where 1: "read_code 7 0 br = (c1, b1)" by fastforce
  obtain c2 b2 where 2: "read_code 1 c1 b1 = (c2, b2)" by fastforce
  obtain c3 b3 where 3: "read_code 1 c2 b2 = (c3, b3)" by fastforce
  show ?thesis
    using read_code_left [of 7 0 br] read_code_left [of 1 c1 b1] read_code_left [of 1 c2 b2]
    by (simp add: read_fixed_litlen_def 1 2 3 Let_def del: One_nat_def)
qed

lemma read_fixed_litlen_progress: "fst (read_fixed_litlen br) \<noteq> Some 256 \<Longrightarrow> left (snd (read_fixed_litlen br)) < left br"
proof -
  obtain c1 b1 where 1: "read_code 7 0 br = (c1, b1)" by fastforce
  obtain c2 b2 where 2: "read_code 1 c1 b1 = (c2, b2)" by fastforce
  obtain c3 b3 where 3: "read_code 1 c2 b2 = (c3, b3)" by fastforce
  assume "fst (read_fixed_litlen br) \<noteq> Some 256"
  then have "c1 \<noteq> 0"
    by (auto simp: read_fixed_litlen_def 1)
  then have "left b1 < left br"
    using read_code_progress [of 7 0 br] by (simp add: 1)
  then show ?thesis
    using read_code_left [of 1 c1 b1] read_code_left [of 1 c2 b2] by (simp add: read_fixed_litlen_def 1 2 3 Let_def del: One_nat_def)
qed

section \<open>Blocks\<close>

fun copy_loop :: "nat \<Rightarrow> nat \<Rightarrow> nat \<Rightarrow> bytes \<Rightarrow> bytes option" where
  "copy_loop out_max dist 0 out = Some out"
| "copy_loop out_max dist (Suc k) out =
     (if out_max \<le> length out then None else copy_loop out_max dist k (out @ [out ! (length out - dist)]))"

text \<open>A length code, its distance code and the copy they describe.\<close>

definition read_copy :: "nat \<Rightarrow> nat \<Rightarrow> bit_reader \<Rightarrow> bytes \<Rightarrow> (bit_reader \<times> bytes) option" where
  "read_copy out_max li br out =
     (if 29 \<le> li then None
      else let (e, br) = read_bits (len_extra ! li) br; len = len_base ! li + e;
               (di, br) = read_fixed_dist br
           in if 30 \<le> di then None
              else let (e, br) = read_bits (dist_extra ! unat di) br; dist = dist_base ! unat di + e
                   in if length out < unat dist then None
                      else map_option (Pair br) (copy_loop out_max (unat dist) (unat len) out))"

lemma read_copy_left: "read_copy out_max li br out = Some (br', out') \<Longrightarrow> left br' \<le> left br"
proof -
  obtain e1 b1 where 1: "read_bits (len_extra ! li) br = (e1, b1)" by fastforce
  obtain di b2 where 2: "read_code 5 0 b1 = (di, b2)" by fastforce
  obtain e2 b3 where 3: "read_bits (dist_extra ! unat di) b2 = (e2, b3)" by fastforce
  assume "read_copy out_max li br out = Some (br', out')"
  then have "br' = b3"
    by (auto simp: read_copy_def read_fixed_dist_def 1 2 3 Let_def split: if_splits)
  then show ?thesis
    using read_bits_left [of "len_extra ! li" br] read_code_left [of 5 0 b1] read_bits_left [of "dist_extra ! unat di" b2] by (simp add: 1 2 3)
qed

lemma litlen_less: "(Some sm, br1) = read_fixed_litlen br \<Longrightarrow> sm \<noteq> 256 \<Longrightarrow> left br1 < left br"
  using read_fixed_litlen_progress [of br] by (metis fst_conv option.inject snd_conv)

function fixed_block :: "nat \<Rightarrow> bit_reader \<Rightarrow> bytes \<Rightarrow> (bit_reader \<times> bytes) option" where
  "fixed_block out_max br out =
     (case read_fixed_litlen br of
        (None, _) \<Rightarrow> None
      | (Some sm, br1) \<Rightarrow>
          if sm = 256 then Some (br1, out)
          else if sm < 256
               then if out_max \<le> length out then None else fixed_block out_max br1 (out @ [ucast sm])
               else (case read_copy out_max (unat (sm - 257)) br1 out of
                       None \<Rightarrow> None
                     | Some (br2, out2) \<Rightarrow> fixed_block out_max br2 out2))"
  by auto
termination
  by (relation "measure (\<lambda>(m, br, out). left br)")
    (auto dest!: litlen_less dest: read_copy_left le_less_trans)

declare fixed_block.simps [simp del]

lemma fixed_block_left: "fixed_block m br out = Some (br', out') \<Longrightarrow> left br' \<le> left br"
proof (induction m br out arbitrary: br' out' rule: fixed_block.induct)
  case (1 m br out)
  obtain r br1 where r: "read_fixed_litlen br = (r, br1)"
    by fastforce
  show ?case
  proof (cases r)
    case (Some sm)
    show ?thesis
    proof (cases "sm = 256")
      case True
      then show ?thesis
        using 1(3) read_fixed_litlen_left [of br] by (subst (asm) fixed_block.simps) (auto simp: r Some)
    next
      case False
      note less = litlen_less [OF _ False, of br1 br] and r' = r [unfolded Some]
      show ?thesis
      proof (cases "sm < 256")
        case True
        then have "\<not> m \<le> length out" "fixed_block m br1 (out @ [ucast sm]) = Some (br', out')"
          using 1(3) False by (subst (asm) fixed_block.simps, simp add: r' split: if_splits)+
        then show ?thesis
          using 1(1) [OF r' [symmetric] refl False True] less r' by simp
      next
        case ge: False
        obtain br2 out2 where c: "read_copy m (unat (sm - 257)) br1 out = Some (br2, out2)" "fixed_block m br2 out2 = Some (br', out')"
          using 1(3) False ge by (subst (asm) fixed_block.simps) (auto simp: r' split: option.splits)
        then show ?thesis
          using 1(2) [OF r' [symmetric] refl False ge c(1) refl c(2)] read_copy_left [OF c(1)] less r' by simp
      qed
    qed
  qed (use 1(3) in \<open>subst (asm) fixed_block.simps, simp add: r\<close>)
qed

text \<open>Skipping the header of a stored block and copying its bytes.\<close>

definition stored_block :: "nat \<Rightarrow> bit_reader \<Rightarrow> bytes \<Rightarrow> (bit_reader \<times> bytes) option" where
  "stored_block out_max br out =
     (let br = align_to_byte br; d = br_data br; p = br_byte br
      in if length d < p + 4 then None
         else let len = unat (d ! p) + 256 * unat (d ! (p + 1)); p = p + 4
              in if length d < p + len then None
                 else if out_max < length out + len then None
                 else Some (br\<lparr>br_byte := p + len\<rparr>, out @ take len (drop p d)))"

lemma br_data_read_bits [simp]: "br_data (snd (read_bits n br)) = br_data br"
proof -
  have "br_data (snd (read_bits_loop n i val br)) = br_data br" for i val
    by (induction n arbitrary: i val br) auto
  then show ?thesis
    by (simp add: read_bits_def)
qed

lemma stored_block_left: "stored_block m br out = Some (br', out') \<Longrightarrow> left br' < left br"
  by (auto simp: stored_block_def align_to_byte_def left_def Let_def split: if_splits)

lemma stored_less: "(x, br1) = read_bits 1 br \<Longrightarrow> (y, br2) = read_bits 2 br1 \<Longrightarrow> stored_block m br2 out = Some (br3, out3) \<Longrightarrow> left br3 < left br"
  using read_bits_left [of 1 br] read_bits_left [of 2 br1] stored_block_left [of m br2 out br3 out3] by (metis snd_conv order.strict_trans2)

lemma fixed_less: "(x, br1) = read_bits 1 br \<Longrightarrow> (1, br2) = read_bits 2 br1 \<Longrightarrow> fixed_block m br2 out = Some (br3, out3) \<Longrightarrow> left br3 < left br"
proof -
  assume r: "(x, br1) = read_bits 1 br" "(1, br2) = read_bits 2 br1" and b: "fixed_block m br2 out = Some (br3, out3)"
  have "left br2 < left br1"
    using read_bits_progress [of 2 br1] r(2) [symmetric] by simp
  moreover have "left br1 \<le> left br"
    using read_bits_left [of 1 br] r(1) [symmetric] by (simp del: One_nat_def)
  ultimately show ?thesis
    using fixed_block_left [OF b] by simp
qed

function inflate_loop :: "nat \<Rightarrow> bit_reader \<Rightarrow> bytes \<Rightarrow> int + bytes" where
  "inflate_loop out_max br out =
     (let (bfinal, br1) = read_bits 1 br; (btype, br2) = read_bits 2 br1
      in if btype = 0 \<or> btype = 1
         then (case (if btype = 0 then stored_block out_max br2 out else fixed_block out_max br2 out) of
                 None \<Rightarrow> Inl (-1)
               | Some (br3, out3) \<Rightarrow> if bfinal = 0 then inflate_loop out_max br3 out3 else Inr out3)
         else if btype = 2 then Inl (-2) else Inl (-1))"
  by auto
termination
  by (relation "measure (\<lambda>(m, br, out). left br)") (auto dest: stored_less fixed_less simp del: One_nat_def split: if_splits)

declare inflate_loop.simps [simp del]

definition inflate_data :: "bytes \<Rightarrow> nat \<Rightarrow> int + bytes" where
  "inflate_data compressed out_max =
     (if length compressed < 2 then Inl (-1)
      else inflate_loop out_max \<lparr>br_data = drop 2 compressed, br_byte = 0, br_bit = 0\<rparr> [])"

end
