(* ===== verification/InflateFacts.thy ===== *)
theory InflateFacts
  imports Inflate
begin

text \<open>
  What the decompressor computes: the bit reader splits the bit stream, every fixed-Huffman code is
  decoded, a block of literals and copies gives the bytes it describes, and stored blocks give the
  bytes they hold.
\<close>

section \<open>Reading bits\<close>

lemma ucast_bit: "ucast (drop_bit k (b :: u8) AND 1) = (of_bool (bit b k) :: u32)"
  by (rule bit_word_eqI) (auto simp: bit_simps bit_1_iff)

lemma or_push_bit:
  assumes "\<And>k. i \<le> k \<Longrightarrow> \<not> bit v k"
  shows "v OR push_bit i (of_bool b) = (v + of_nat (2 ^ i * of_bool b) :: u32)"
proof -
  have "v OR push_bit i (of_bool b) = v + push_bit i (of_bool b)"
    using assms by (intro disjunctive_add [symmetric]) (auto simp: bit_simps bit_1_iff)
  then show ?thesis
    by (simp add: push_bit_eq_mult mult.commute)
qed

lemma read_bits_loop_spec:
  "br_ok br \<Longrightarrow> bits_left br = bs @ rest \<Longrightarrow> length bs = n \<Longrightarrow> (\<And>k. i \<le> k \<Longrightarrow> \<not> bit v k) \<Longrightarrow>
    \<exists>br'. read_bits_loop n i v br = (v + of_nat (2 ^ i * bits_val bs), br') \<and> bits_left br' = rest \<and> br_ok br' \<and> br_data br' = br_data br"
proof (induction n arbitrary: i v br bs)
  case (Suc n)
  obtain b bs' where bs: "bs = b # bs'"
    using Suc.prems(3) by (cases bs) auto
  then have "\<not> length (br_data br) \<le> br_byte br"
    using Suc.prems(2) bits_left_Nil by fastforce
  then have step: "b = bit (br_data br ! br_byte br) (br_bit br)" "bits_left (next_bit br) = bs' @ rest"
    using bits_left_step [OF Suc.prems(1)] Suc.prems(2) bs by auto
  let ?v = "v OR push_bit i (of_bool b) :: u32"
  have high: "\<not> bit ?v k" if "Suc i \<le> k" for k
    using that Suc.prems(4) [of k] by (auto simp: bit_simps bit_1_iff)
  obtain br' where br': "read_bits_loop n (Suc i) ?v (next_bit br) = (?v + of_nat (2 ^ Suc i * bits_val bs'), br')"
      "bits_left br' = rest" "br_ok br'" "br_data br' = br_data br"
    using Suc.IH [where i = "Suc i" and v = ?v, OF next_bit_ok [OF Suc.prems(1)] step(2) _ high] Suc.prems(3) bs by auto
  moreover have "?v + of_nat (2 ^ Suc i * bits_val bs') = v + of_nat (2 ^ i * bits_val bs)"
  proof -
    have "?v = v + of_nat (2 ^ i * of_bool b)"
      by (rule or_push_bit) (rule Suc.prems(4))
    then show ?thesis
      by (simp only: bs) (simp add: algebra_simps)
  qed
  ultimately show ?case
    using \<open>\<not> length (br_data br) \<le> br_byte br\<close> by (simp add: ucast_bit step(1) [symmetric])
qed simp

lemma read_bits_spec:
  assumes "br_ok br" and "bits_left br = bs @ rest" and "length bs = n"
  shows "\<exists>br'. read_bits n br = (of_nat (bits_val bs), br') \<and> bits_left br' = rest \<and> br_ok br' \<and> br_data br' = br_data br"
  using read_bits_loop_spec [OF assms, of 0 0] by (simp add: read_bits_def)

text \<open>The low \<open>n\<close> bits of a number, highest first, as the Huffman codes are stored, and lowest first.\<close>

definition msb :: "nat \<Rightarrow> nat \<Rightarrow> bool list" where
  "msb n v = map (bit v) (rev [0..<n])"

definition lsb :: "nat \<Rightarrow> nat \<Rightarrow> bool list" where
  "lsb n v = map (bit v) [0..<n]"

lemma msb_simps: "msb 0 v = []" "msb (Suc n) v = bit v n # msb n v"
  by (simp_all add: msb_def)

lemma length_msb [simp]: "length (msb n v) = n" "length (lsb n v) = n"
  by (simp_all add: msb_def lsb_def)

lemma msb_add: "msb (m + n) v = msb m (drop_bit n v) @ msb n v"
  by (induction m) (simp_all add: msb_simps bit_drop_bit_eq add.commute)

lemma bits_val_lsb: "bits_val (lsb n v) = take_bit n v"
proof (induction n arbitrary: v)
  case (Suc n)
  have "lsb (Suc n) v = bit v 0 # lsb n (v div 2)"
    by (simp add: lsb_def upt_conv_Cons map_Suc_upt [symmetric] bit_Suc comp_def del: upt_Suc)
  then show ?case
    using Suc [of "v div 2"] by (simp add: take_bit_Suc bit_0 odd_iff_mod_2_eq_one algebra_simps mod2_eq_if)
qed (simp add: lsb_def)

lemma read_code_msb:
  "br_ok br \<Longrightarrow> bits_left br = msb n v @ rest \<Longrightarrow>
    \<exists>br'. read_code n c br = (c * 2 ^ n + of_nat (take_bit n v), br') \<and> bits_left br' = rest \<and> br_ok br' \<and> br_data br' = br_data br"
proof (induction n arbitrary: c br)
  case (Suc n)
  have b: "bits_left br = [bit v n] @ (msb n v @ rest)"
    using Suc.prems(2) by (simp add: msb_simps)
  obtain br1 where br1: "read_bits 1 br = (of_nat (bits_val [bit v n]), br1)" "bits_left br1 = msb n v @ rest" "br_ok br1" "br_data br1 = br_data br"
    using read_bits_spec [OF Suc.prems(1) b, of 1] by auto
  have "push_bit 1 c OR of_bool (bit v n) = push_bit 1 c + of_bool (bit v n)"
  proof (rule disjunctive_add [symmetric])
    fix k
    show "\<not> bit (push_bit 1 c) k \<or> \<not> bit (of_bool (bit v n)) k"
      by (cases k; cases "bit v n") (simp_all add: bit_0 bit_1_iff)
  qed
  then have "push_bit 1 c OR of_bool (bit v n) = 2 * c + of_bool (bit v n)"
    by (simp add: push_bit_eq_mult)
  then have "read_code (Suc n) c br = read_code n (2 * c + of_bool (bit v n)) br1"
    using br1(1) by (simp add: read_code.simps(2))
  then show ?case
    using Suc.IH [OF br1(3,2), of "2 * c + of_bool (bit v n)"] br1(4) by (auto simp: take_bit_Suc_from_most algebra_simps)
qed (simp add: msb_simps read_code.simps)

section \<open>Decoding symbols\<close>

text \<open>The fixed code of a literal or length symbol: its value and its number of bits.\<close>

definition fixed_code :: "nat \<Rightarrow> nat \<times> nat" where
  "fixed_code s =
     (if s < 144 then (8, 0x30 + s) else if s < 256 then (9, 0x190 + (s - 144)) else if s < 280 then (7, s - 256) else (8, 0xC0 + (s - 280)))"

definition symbol_bits :: "nat \<Rightarrow> bool list" where
  "symbol_bits s = (let (n, v) = fixed_code s in msb n v)"

text \<open>Reading on: \<open>n\<close> more bits of a code whose first bits are \<open>drop_bit n v\<close>.\<close>

lemma read_code_more:
  assumes "br_ok br" and "bits_left br = msb n v @ rest"
  shows "\<exists>br'. read_code n (of_nat (drop_bit n v)) br = (of_nat v, br') \<and> bits_left br' = rest \<and> br_ok br' \<and> br_data br' = br_data br"
proof -
  have "of_nat (drop_bit n v) * 2 ^ n + of_nat (take_bit n v) = (of_nat v :: u32)"
    by (metis bits_ident of_nat_add of_nat_mult of_nat_numeral of_nat_power push_bit_eq_mult)
  then show ?thesis
    using read_code_msb [OF assms, of "of_nat (drop_bit n v)"] by auto
qed

lemma read_eight:
  assumes "br_ok br" and "bits_left br = msb 8 v @ rest" and "v < 256"
  obtains b1 b2 where "read_code 7 0 br = (of_nat (v div 2), b1)" and "read_code 1 (of_nat (v div 2)) b1 = (of_nat v, b2)"
    and "bits_left b2 = rest" and "br_ok b2" and "br_data b2 = br_data br"
proof -
  have "bits_left br = msb 7 (v div 2) @ (msb 1 v @ rest)" "drop_bit 7 (v div 2) = 0"
    using assms(2,3) msb_add [of 7 1 v] by (simp_all add: drop_bit_eq_div)
  then obtain b1 where b1: "read_code 7 0 br = (of_nat (v div 2), b1)" "bits_left b1 = msb 1 v @ rest" "br_ok b1" "br_data b1 = br_data br"
    using read_code_more [OF assms(1), of 7 "v div 2"] by auto
  moreover obtain b2 where "read_code 1 (of_nat (v div 2)) b1 = (of_nat v, b2)" "bits_left b2 = rest" "br_ok b2" "br_data b2 = br_data b1"
    using read_code_more [OF b1(3,2)] by (auto simp: drop_bit_eq_div simp del: One_nat_def)
  ultimately show thesis
    using that by metis
qed

lemma u32_nat: "a < 1000 \<Longrightarrow> b < 1000 \<Longrightarrow> (of_nat a :: u32) \<le> of_nat b \<longleftrightarrow> a \<le> b"
  by (simp add: word_le_nat_alt unsigned_of_nat take_bit_nat_eq_self)

lemma read_symbol:
  assumes "br_ok br" and "bits_left br = symbol_bits s @ rest" and "s < 288"
  shows "\<exists>br'. read_fixed_litlen br = (Some (of_nat s), br') \<and> bits_left br' = rest \<and> br_ok br' \<and> br_data br' = br_data br"
proof -
  obtain n v where nv: "fixed_code s = (n, v)"
    by fastforce
  have le: "of_nat v \<le> (numeral k :: u32) \<longleftrightarrow> v \<le> numeral k" "(numeral k :: u32) \<le> of_nat v \<longleftrightarrow> numeral k \<le> v"
    if "v < 512" "numeral k < (512 :: nat)" for v k
  proof -
    have "v < 1000" "numeral k < (1000 :: nat)"
      using that by linarith+
    from u32_nat [OF this] u32_nat [OF this(2,1)]
    show "of_nat v \<le> (numeral k :: u32) \<longleftrightarrow> v \<le> numeral k" "(numeral k :: u32) \<le> of_nat v \<longleftrightarrow> numeral k \<le> v"
      by (simp_all only: of_nat_numeral)
  qed
  consider (seven) "n = 7" "s = 256 + v" "v < 24" | (eight) "n = 8" "s = v - 48" "48 \<le> v" "v < 192"
    | (eight') "n = 8" "s = 88 + v" "192 \<le> v" "v < 200" | (nine) "n = 9" "s = v - 256" "400 \<le> v" "v < 512"
    using nv assms(3) by (auto simp: fixed_code_def split: if_splits)
  then show ?thesis
  proof cases
    case seven
    then have "bits_left br = msb 7 v @ rest" "drop_bit 7 v = 0"
      using assms(2) nv by (simp_all add: symbol_bits_def drop_bit_eq_div)
    then obtain br' where "read_code 7 0 br = (of_nat v, br')" "bits_left br' = rest" "br_ok br'" "br_data br' = br_data br"
      using read_code_more [OF assms(1), of 7 v rest] by auto
    then show ?thesis
      using seven by (simp add: read_fixed_litlen_def le)
  next
    case eight
    then have "bits_left br = msb 8 v @ rest" "v < 256"
      using assms(2) nv by (simp_all add: symbol_bits_def)
    then obtain b1 b2 where "read_code 7 0 br = (of_nat (v div 2), b1)" "read_code 1 (of_nat (v div 2)) b1 = (of_nat v, b2)"
        "bits_left b2 = rest" "br_ok b2" "br_data b2 = br_data br"
      using read_eight [OF assms(1)] by blast
    moreover have "24 \<le> v div 2" "v div 2 < 512"
      using eight by linarith+
    ultimately show ?thesis
      using eight by (simp add: read_fixed_litlen_def le del: One_nat_def)
  next
    case eight'
    then have "bits_left br = msb 8 v @ rest" "v < 256"
      using assms(2) nv by (simp_all add: symbol_bits_def)
    then obtain b1 b2 where "read_code 7 0 br = (of_nat (v div 2), b1)" "read_code 1 (of_nat (v div 2)) b1 = (of_nat v, b2)"
        "bits_left b2 = rest" "br_ok b2" "br_data b2 = br_data br"
      using read_eight [OF assms(1)] by blast
    moreover have "96 \<le> v div 2" "v div 2 < 512"
      using eight' by linarith+
    ultimately show ?thesis
      using eight' by (simp add: read_fixed_litlen_def le del: One_nat_def)
  next
    case nine
    then have "bits_left br = msb 8 (v div 2) @ (msb 1 v @ rest)" "v div 2 < 256"
      using assms(2) nv msb_add [of 8 1 v] by (simp_all add: symbol_bits_def drop_bit_eq_div)
    then obtain b1 b2 where b2: "read_code 7 0 br = (of_nat (v div 2 div 2), b1)" "read_code 1 (of_nat (v div 2 div 2)) b1 = (of_nat (v div 2), b2)"
        "bits_left b2 = msb 1 v @ rest" "br_ok b2" "br_data b2 = br_data br"
      using read_eight [OF assms(1)] by blast
    moreover obtain b3 where "read_code 1 (of_nat (v div 2)) b2 = (of_nat v, b3)" "bits_left b3 = rest" "br_ok b3" "br_data b3 = br_data b2"
      using read_code_more [OF b2(4,3)] by (auto simp: drop_bit_eq_div simp del: One_nat_def)
    moreover have "100 \<le> v div 2 div 2" "v div 2 div 2 < 512" "200 \<le> v div 2" "v div 2 < 512"
      using nine by linarith+
    ultimately show ?thesis
      using nine by (simp add: read_fixed_litlen_def le del: One_nat_def)
  qed
qed

section \<open>Blocks of literals and copies\<close>

text \<open>
  What a fixed block describes: a byte, or a copy given by the numbers of its length and distance
  codes and the values of their extra bits.
\<close>

datatype token = Lit u8 | Copy nat nat nat nat

fun token_ok :: "token \<Rightarrow> bool" where
  "token_ok (Lit b) = True"
| "token_ok (Copy li e di e') = (li < 29 \<and> e < 2 ^ (len_extra ! li) \<and> di < 30 \<and> e' < 2 ^ (dist_extra ! di))"

fun token_bits :: "token \<Rightarrow> bool list" where
  "token_bits (Lit b) = symbol_bits (unat b)"
| "token_bits (Copy li e di e') = symbol_bits (257 + li) @ lsb (len_extra ! li) e @ msb 5 di @ lsb (dist_extra ! di) e'"

definition copy_length :: "nat \<Rightarrow> nat \<Rightarrow> nat" where
  "copy_length li e = unat (len_base ! li) + e"

definition copy_dist :: "nat \<Rightarrow> nat \<Rightarrow> nat" where
  "copy_dist di e = unat (dist_base ! di) + e"

text \<open>One byte at a time, so that a copy may overlap what it writes.\<close>

fun copy_bytes :: "nat \<Rightarrow> nat \<Rightarrow> bytes \<Rightarrow> bytes" where
  "copy_bytes dist 0 out = out"
| "copy_bytes dist (Suc k) out = copy_bytes dist k (out @ [out ! (length out - dist)])"

fun expand :: "token list \<Rightarrow> bytes \<Rightarrow> bytes option" where
  "expand [] out = Some out"
| "expand (Lit b # ts) out = expand ts (out @ [b])"
| "expand (Copy li e di e' # ts) out =
     (if length out < copy_dist di e' then None else expand ts (copy_bytes (copy_dist di e') (copy_length li e) out))"

lemma length_copy_bytes [simp]: "length (copy_bytes dist k out) = length out + k"
  by (induction k arbitrary: out) auto

lemma copy_loop_bytes: "length out + k \<le> m \<Longrightarrow> copy_loop m dist k out = Some (copy_bytes dist k out)"
  by (induction k arbitrary: out) auto

lemma expand_grows: "expand ts out = Some r \<Longrightarrow> length out \<le> length r"
  by (induction ts out rule: expand.induct) (auto split: if_splits)

lemma len_table: "li < 29 \<Longrightarrow> unat (len_base ! li) < 300 \<and> len_extra ! li \<le> 5"
  and dist_table: "di < 30 \<Longrightarrow> unat (dist_base ! di) < 30000 \<and> dist_extra ! di \<le> 13"
proof -
  have a: "length len_base = 29" "length len_extra = 29" "length dist_base = 30" "length dist_extra = 30"
    by (simp_all add: len_base_def len_extra_def dist_base_def dist_extra_def)
  have "\<forall>x \<in> set len_base. unat x < 300" "\<forall>x \<in> set len_extra. x \<le> 5" "\<forall>x \<in> set dist_base. unat x < 30000" "\<forall>x \<in> set dist_extra. x \<le> 13"
    by (simp_all add: len_base_def len_extra_def dist_base_def dist_extra_def)
  then show "li < 29 \<Longrightarrow> unat (len_base ! li) < 300 \<and> len_extra ! li \<le> 5" "di < 30 \<Longrightarrow> unat (dist_base ! di) < 30000 \<and> dist_extra ! di \<le> 13"
    using a by simp_all
qed

lemma unat_add_small: "unat x < 100000 \<Longrightarrow> e < 100000 \<Longrightarrow> unat (x + of_nat e :: u32) = unat x + e"
  by (simp add: unat_word_ariths unsigned_of_nat take_bit_nat_eq_self)

lemma read_copy_spec:
  assumes "br_ok br" and "bits_left br = lsb (len_extra ! li) e @ msb 5 di @ lsb (dist_extra ! di) e' @ rest"
    and "token_ok (Copy li e di e')" and "copy_dist di e' \<le> length out" and "length out + copy_length li e \<le> m"
  shows "\<exists>br'. read_copy m li br out = Some (br', copy_bytes (copy_dist di e') (copy_length li e) out) \<and>
    bits_left br' = rest \<and> br_ok br' \<and> br_data br' = br_data br"
proof -
  have li: "li < 29" "e < 2 ^ (len_extra ! li)" "di < 30" "e' < 2 ^ (dist_extra ! di)"
    using assms(3) by auto
  have "e < 2 ^ 5" "e' < 2 ^ 13"
    using li len_table [OF li(1)] dist_table [OF li(3)] by (meson less_le_trans one_le_numeral power_increasing)+
  then have len: "unat (len_base ! li + of_nat e) = copy_length li e" and dist: "unat (dist_base ! di + of_nat e') = copy_dist di e'"
    using len_table [OF li(1)] dist_table [OF li(3)] by (auto simp: copy_length_def copy_dist_def intro!: unat_add_small)
  obtain b1 where b1: "read_bits (len_extra ! li) br = (of_nat e, b1)" "bits_left b1 = msb 5 di @ lsb (dist_extra ! di) e' @ rest" "br_ok b1" "br_data b1 = br_data br"
    using read_bits_spec [OF assms(1,2)] li(2) by (auto simp: bits_val_lsb take_bit_nat_eq_self)
  have "drop_bit 5 di = 0"
    using li(3) by (simp add: drop_bit_eq_div)
  then obtain b2 where b2: "read_code 5 0 b1 = (of_nat di, b2)" "bits_left b2 = lsb (dist_extra ! di) e' @ rest" "br_ok b2" "br_data b2 = br_data b1"
    using read_code_more [OF b1(3,2)] by auto
  have di: "unat (of_nat di :: u32) = di" "\<not> 30 \<le> (of_nat di :: u32)"
    using li(3) by (simp_all add: word_le_nat_alt unsigned_of_nat take_bit_nat_eq_self)
  obtain b3 where b3: "read_bits (dist_extra ! di) b2 = (of_nat e', b3)" "bits_left b3 = rest" "br_ok b3" "br_data b3 = br_data b2"
    using read_bits_spec [OF b2(3,2)] li(4) by (auto simp: bits_val_lsb take_bit_nat_eq_self)
  show ?thesis
    using li(1) b1 b2 b3 di assms(4,5) by (simp add: read_copy_def read_fixed_dist_def len dist copy_loop_bytes)
qed

lemma fixed_block_spec:
  "br_ok br \<Longrightarrow> bits_left br = concat (map token_bits ts) @ symbol_bits 256 @ rest \<Longrightarrow> \<forall>t \<in> set ts. token_ok t \<Longrightarrow>
    expand ts out = Some r \<Longrightarrow> length r \<le> m \<Longrightarrow>
    \<exists>br'. fixed_block m br out = Some (br', r) \<and> bits_left br' = rest \<and> br_ok br' \<and> br_data br' = br_data br"
proof (induction ts out arbitrary: br rule: expand.induct)
  case (1 out)
  then obtain br' where "read_fixed_litlen br = (Some 256, br')" "bits_left br' = rest" "br_ok br'" "br_data br' = br_data br"
    using read_symbol [of br 256 rest] by auto
  then show ?case
    using 1 by (subst fixed_block.simps) simp
next
  case (2 b ts out)
  then have "bits_left br = symbol_bits (unat b) @ (concat (map token_bits ts) @ symbol_bits 256 @ rest)"
    by simp
  moreover have "unat b < 288" "(of_nat (unat b) :: u32) < 256" "(of_nat (unat b) :: u32) \<noteq> 256"
  proof -
    have b: "unat b < 256"
      by (rule unat_u8_less)
    then have eq: "unat (of_nat (unat b) :: u32) = unat b"
      by (simp only: unsigned_of_nat of_nat_id) (rule take_bit_nat_eq_self, rule less_trans, assumption, simp)
    have b2: "unat b < 288" "unat b \<noteq> 256"
      using b by linarith+
    show "unat b < 288" "(of_nat (unat b) :: u32) < 256" "(of_nat (unat b) :: u32) \<noteq> 256"
      unfolding word_less_nat_alt word_unat_eq_iff eq using b2 by simp_all
  qed
  ultimately obtain b1 where b1: "read_fixed_litlen br = (Some (of_nat (unat b)), b1)"
      "bits_left b1 = concat (map token_bits ts) @ symbol_bits 256 @ rest" "br_ok b1" "br_data b1 = br_data br"
    using read_symbol [OF "2.prems"(1)] by blast
  have "length out < m"
    using expand_grows [of ts "out @ [b]" r] 2 by simp
  moreover have "ucast (of_nat (unat b) :: u32) = b"
    by (simp add: word_unat_eq_iff unsigned_ucast_eq unsigned_of_nat take_bit_nat_eq_self take_bit_word_eq_self)
  moreover obtain br' where "fixed_block m b1 (out @ [b]) = Some (br', r)" "bits_left br' = rest" "br_ok br'" "br_data br' = br_data b1"
    using "2.IH" [OF b1(3,2)] "2.prems"(3-5) by auto
  ultimately show ?case
    using b1 \<open>(of_nat (unat b) :: u32) < 256\<close> \<open>(of_nat (unat b) :: u32) \<noteq> 256\<close> by (subst fixed_block.simps) simp
next
  case (3 li e di e' ts out)
  then have ok: "token_ok (Copy li e di e')" and dist: "copy_dist di e' \<le> length out"
    by (auto split: if_splits)
  let ?rest = "concat (map token_bits ts) @ symbol_bits 256 @ rest"
  have sym: "257 + li < 288" "unat (of_nat (257 + li) - 257 :: u32) = li" "\<not> (of_nat (257 + li) :: u32) < 256" "(of_nat (257 + li) :: u32) \<noteq> 256"
    using ok by (simp_all add: word_less_nat_alt unsigned_of_nat take_bit_nat_eq_self word_unat_eq_iff unat_word_ariths)
  have "bits_left br = symbol_bits (257 + li) @ (lsb (len_extra ! li) e @ msb 5 di @ lsb (dist_extra ! di) e' @ ?rest)"
    using "3.prems"(2) by simp
  then obtain b1 where b1: "read_fixed_litlen br = (Some (of_nat (257 + li)), b1)"
      "bits_left b1 = lsb (len_extra ! li) e @ msb 5 di @ lsb (dist_extra ! di) e' @ ?rest" "br_ok b1" "br_data b1 = br_data br"
    using read_symbol [OF "3.prems"(1) _ sym(1)] by blast
  let ?out = "copy_bytes (copy_dist di e') (copy_length li e) out"
  have r: "expand ts ?out = Some r"
    using "3.prems"(4) dist by simp
  obtain b2 where b2: "read_copy m li b1 out = Some (b2, ?out)" "bits_left b2 = ?rest" "br_ok b2" "br_data b2 = br_data b1"
    using read_copy_spec [OF b1(3,2) ok dist, of m] expand_grows [OF r] "3.prems"(5) by auto
  obtain br' where "fixed_block m b2 ?out = Some (br', r)" "bits_left br' = rest" "br_ok br'" "br_data br' = br_data b2"
    using "3.IH" [OF _ b2(3,2) _ r] dist "3.prems"(3,5) by auto
  then show ?case
    using b1 b2 sym by (subst fixed_block.simps) simp
qed

section \<open>Streams\<close>

text \<open>
  C11: A zlib stream with one fixed-Huffman block is decompressed to the bytes its literals and copies
  describe: whatever the header bytes and the padding are, the final block of codes followed by the
  end code yields exactly their expansion, for every output that has room for it.
\<close>

theorem inflate_fixed:
  assumes "bits_of d = [True, True, False] @ concat (map token_bits ts) @ symbol_bits 256 @ pad"
    and "\<forall>t \<in> set ts. token_ok t" and "expand ts [] = Some r" and "length r \<le> m"
  shows "inflate_data ([h1, h2] @ d) m = Inr r"
proof -
  define br where "br = \<lparr>br_data = d, br_byte = 0, br_bit = 0\<rparr>"
  have br: "br_ok br" "bits_left br = [True] @ ([True, False] @ concat (map token_bits ts) @ symbol_bits 256 @ pad)"
    using assms(1) by (simp_all add: br_def br_ok_def bits_left_def)
  obtain b1 where b1: "read_bits 1 br = (1, b1)" "bits_left b1 = [True, False] @ (concat (map token_bits ts) @ symbol_bits 256 @ pad)" "br_ok b1"
    using read_bits_spec [OF br, of 1] by auto
  obtain b2 where b2: "read_bits 2 b1 = (1, b2)" "bits_left b2 = concat (map token_bits ts) @ symbol_bits 256 @ pad" "br_ok b2"
    using read_bits_spec [OF b1(3,2), of 2] by auto
  obtain b3 where "fixed_block m b2 [] = Some (b3, r)"
    using fixed_block_spec [OF b2(3,2) assms(2,3,4)] by blast
  then have "inflate_loop m br [] = Inr r"
    using b1(1) b2(1) by (subst inflate_loop.simps) (simp del: One_nat_def)
  then show ?thesis
    by (simp add: inflate_data_def br_def)
qed

text \<open>The letter A as zlib compresses it.\<close>

theorem inflate_fixed_witness: "inflate_data [0x78, 0x9C, 0x73, 4, 0] 1 = Inr [0x41]"
proof -
  have "bits_of [0x73, 4, 0] = [True, True, False] @ concat (map token_bits [Lit 0x41]) @ symbol_bits 256 @ replicate 6 False"
    by code_simp
  from inflate_fixed [OF this, of "[0x41]" 1 "0x78" "0x9C"] show ?thesis
    by simp
qed

text \<open>A stored block and a stream of them; the complement of the length is not checked.\<close>

definition stored_bytes :: "bool \<Rightarrow> bytes \<Rightarrow> bytes" where
  "stored_bytes final c = [of_bool final] @ put16le (of_nat (length c)) @ put16le (NOT (of_nat (length c))) @ c"

fun stored_stream :: "bytes list \<Rightarrow> bytes" where
  "stored_stream [] = []"
| "stored_stream (c # cs) = stored_bytes (cs = []) c @ stored_stream cs"

lemma read_block_header:
  assumes "br_bit br = 0" and "br_byte br < length (br_data br)" and "br_data br ! br_byte br = of_bool final"
  shows "read_bits 1 br = (of_bool final, br\<lparr>br_bit := 1\<rparr>)" and "read_bits 2 (br\<lparr>br_bit := 1\<rparr>) = (0, br\<lparr>br_bit := 3\<rparr>)"
  using assms by (simp_all add: read_bits_def numeral_2_eq_2 next_bit_def ucast_bit bit_0 bit_of_bool_iff)

lemma stored_step:
  assumes "br_bit br = 0" and "drop (br_byte br) (br_data br) = stored_bytes final c @ rest" and "length c < 65536" and "length out + length c \<le> m"
  shows "\<exists>br'. inflate_loop m br out = (if final then Inr (out @ c) else inflate_loop m br' (out @ c)) \<and>
    br_bit br' = 0 \<and> drop (br_byte br') (br_data br') = rest"
proof -
  let ?p = "br_byte br" and ?d = "br_data br"
  let ?n = "of_nat (length c) :: u16"
  have len: "length ?d = ?p + 5 + length c + length rest"
    using arg_cong [OF assms(2), of length] by (cases "?p \<le> length ?d") (simp_all add: stored_bytes_def)
  have nth: "?d ! (?p + k) = (stored_bytes final c @ rest) ! k" for k
    using assms(2) len by (metis nth_drop le_add1 add.assoc)
  have hd: "?d ! ?p = of_bool final" "?d ! (?p + 1) = ucast ?n" "?d ! (?p + 2) = ucast (drop_bit 8 ?n)"
    using nth [of 0] nth [of 1] nth [of 2] by (simp_all add: stored_bytes_def put16le_def)
  have n: "unat (?d ! (?p + 1)) + 256 * unat (?d ! (?p + 2)) = length c"
    using unat_join16 [of "?d ! (?p + 2)" "?d ! (?p + 1)"] assms(3) unfolding hd(2,3) join16_put16
    by (simp add: unsigned_of_nat take_bit_nat_eq_self)
  define br' where "br' = br\<lparr>br_bit := 0, br_byte := ?p + 5 + length c\<rparr>"
  have d5: "drop (?p + 5) ?d = c @ rest"
    using arg_cong [OF assms(2), of "drop 5"] by (simp add: stored_bytes_def add.commute)
  have "drop (?p + 5 + length c) ?d = drop (length c) (drop (?p + 5) ?d)"
    by (simp add: add.commute)
  with d5 have "take (length c) (drop (?p + 5) ?d) = c" "drop (?p + 5 + length c) ?d = rest"
    by simp_all
  moreover have "stored_block m (br\<lparr>br_bit := 3\<rparr>) out = Some (br', out @ take (length c) (drop (?p + 5) ?d))"
    using len n assms(4) by (simp add: stored_block_def align_to_byte_def br'_def Let_def add.commute add.left_commute)
  moreover note read_block_header [OF assms(1) _ hd(1)] len
  ultimately show ?thesis
    by (intro exI [of _ br']) (subst inflate_loop.simps, simp add: br'_def del: One_nat_def)
qed

lemma stored_stream_loop:
  "cs \<noteq> [] \<Longrightarrow> \<forall>c \<in> set cs. length c < 65536 \<Longrightarrow> length out + length (concat cs) \<le> m \<Longrightarrow>
    br_bit br = 0 \<Longrightarrow> drop (br_byte br) (br_data br) = stored_stream cs @ rest \<Longrightarrow> inflate_loop m br out = Inr (out @ concat cs)"
proof (induction cs arbitrary: br out)
  case (Cons c cs)
  obtain br' where br': "inflate_loop m br out = (if cs = [] then Inr (out @ c) else inflate_loop m br' (out @ c))"
      "br_bit br' = 0" "drop (br_byte br') (br_data br') = stored_stream cs @ rest"
    using stored_step [OF Cons.prems(4), of "cs = []" c "stored_stream cs @ rest" out m] Cons.prems by auto
  then show ?case
    using Cons by (cases "cs = []") auto
qed simp

lemma inflate_stored:
  assumes "cs \<noteq> []" and "\<forall>c \<in> set cs. length c < 65536" and "length (concat cs) \<le> m"
  shows "inflate_data ([h1, h2] @ stored_stream cs @ rest) m = Inr (concat cs)"
  using stored_stream_loop [OF assms(1,2), of "[]" m "\<lparr>br_data = stored_stream cs @ rest, br_byte = 0, br_bit = 0\<rparr>"] assms(3)
  by (simp add: inflate_data_def)

end
