(* ===== verification/Png.thy ===== *)
theory Png
  imports InflateFacts
begin

text \<open>
  The PNG decoder of \<open>src/src/drivers/png.c\<close> on top of \<open>Inflate\<close>: the scan over the chunks, the
  reconstruction of the filtered scan lines, the conversion to pixels, and the drawing of an icon.

  \<open>km i n\<close> is what the \<open>i\<close>-th call of \<open>kmalloc\<close> returns for the size \<open>n\<close>: \<open>None\<close> is the null
  pointer, otherwise the bytes the block happens to hold. \<open>None\<close> as the result of a function is an access
  outside a buffer or a scan that does not end.
\<close>

section \<open>Filter reconstruction\<close>

definition paeth_predictor :: "u8 \<Rightarrow> u8 \<Rightarrow> u8 \<Rightarrow> u8" where
  "paeth_predictor a b c =
     (let p = uint a + uint b - uint c; pa = p - uint a; pa = (if pa < 0 then - pa else pa);
          pb = p - uint b; pb = (if pb < 0 then - pb else pb); pc = p - uint c; pc = (if pc < 0 then - pc else pc)
      in if pa \<le> pb \<and> pa \<le> pc then a else if pb \<le> pc then b else c)"

definition unfilter_byte :: "u8 \<Rightarrow> u8 \<Rightarrow> u8 \<Rightarrow> u8 \<Rightarrow> u8 \<Rightarrow> u8" where
  "unfilter_byte filt raw_byte a b c =
     (if filt = 1 then raw_byte + a
      else if filt = 2 then raw_byte + b
      else if filt = 3 then raw_byte + ucast ((ucast a + ucast b :: u16) div 2)
      else if filt = 4 then raw_byte + paeth_predictor a b c
      else raw_byte)"

text \<open>\<open>n\<close> bytes of a row are left, from \<open>x\<close> on; the scan line, the row and the row above are offsets.\<close>

fun unfilter_row :: "bytes \<Rightarrow> u8 \<Rightarrow> nat \<Rightarrow> nat \<Rightarrow> nat option \<Rightarrow> nat \<Rightarrow> nat \<Rightarrow> nat \<Rightarrow> bytes \<Rightarrow> bytes option" where
  "unfilter_row raw filt scanline out_row prev_row bpp 0 x out = Some out"
| "unfilter_row raw filt scanline out_row prev_row bpp (Suc n) x out = do {
     raw_byte \<leftarrow> rd8 raw (scanline + x);
     a \<leftarrow> (if bpp \<le> x then rd8 out (out_row + (x - bpp)) else Some 0);
     b \<leftarrow> (case prev_row of Some p \<Rightarrow> rd8 out (p + x) | None \<Rightarrow> Some 0);
     c \<leftarrow> (case prev_row of Some p \<Rightarrow> if bpp \<le> x then rd8 out (p + (x - bpp)) else Some 0 | None \<Rightarrow> Some 0);
     out \<leftarrow> wrn out (out_row + x) [unfilter_byte filt raw_byte a b c];
     unfilter_row raw filt scanline out_row prev_row bpp n (x + 1) out
   }"

fun unfilter_rows :: "bytes \<Rightarrow> u32 \<Rightarrow> nat \<Rightarrow> nat \<Rightarrow> u32 \<Rightarrow> bytes \<Rightarrow> bytes option" where
  "unfilter_rows raw stride bpp 0 y out = Some out"
| "unfilter_rows raw stride bpp (Suc n) y out = do {
     let line = unat (y * (stride + 1));
     filt \<leftarrow> rd8 raw line;
     out \<leftarrow> unfilter_row raw filt (line + 1) (unat (y * stride))
       (if 0 < y then Some (unat ((y - 1) * stride)) else None) bpp (unat stride) 0 out;
     unfilter_rows raw stride bpp n (y + 1) out
   }"

definition png_unfilter :: "bytes \<Rightarrow> u32 \<Rightarrow> u32 \<Rightarrow> u32 \<Rightarrow> bytes \<Rightarrow> bytes option" where
  "png_unfilter raw width height bpp out = unfilter_rows raw (width * bpp) (unat bpp) (unat height) 0 out"

section \<open>Chunks\<close>

record png_scan =
  ps_width :: u32
  ps_height :: u32
  ps_bpp :: u32
  ihdr_found :: bool
  idat_buf :: "bytes option"
  idat_len :: u32
  idat_capacity :: u32
  kmallocs :: nat

definition scan_start :: png_scan where
  "scan_start = \<lparr>ps_width = 0, ps_height = 0, ps_bpp = 4, ihdr_found = False, idat_buf = None, idat_len = 0,
     idat_capacity = 0, kmallocs = 0\<rparr>"

definition IHDR :: bytes where "IHDR = [0x49, 0x48, 0x44, 0x52]"
definition IDAT :: bytes where "IDAT = [0x49, 0x44, 0x41, 0x54]"
definition IEND :: bytes where "IEND = [0x49, 0x45, 0x4E, 0x44]"

definition ihdr_chunk :: "(nat \<Rightarrow> u32 \<Rightarrow> bytes option) \<Rightarrow> bytes \<Rightarrow> nat \<Rightarrow> u32 \<Rightarrow> png_scan \<Rightarrow> (int + png_scan) option" where
  "ihdr_chunk km data chunk_data chunk_len s =
     (if chunk_len < 13 then Some (Inl (-1))
      else do {
        width \<leftarrow> rd32be data chunk_data;
        height \<leftarrow> rd32be data (chunk_data + 4);
        bit_depth \<leftarrow> rd8 data (chunk_data + 8);
        color_type \<leftarrow> rd8 data (chunk_data + 9);
        if bit_depth \<noteq> 8 then Some (Inl (-3))
        else if color_type \<noteq> 2 \<and> color_type \<noteq> 6 then Some (Inl (-4))
        else do {
          let bpp = (if color_type = 2 then 3 else 4);
          let capacity = width * height * bpp + height + 4096;
          case km (kmallocs s) capacity of
            None \<Rightarrow> Some (Inl (-5))
          | Some b \<Rightarrow> Some (Inr (s\<lparr>ps_width := width, ps_height := height, ps_bpp := bpp, ihdr_found := True,
              idat_buf := Some b, idat_capacity := capacity, kmallocs := kmallocs s + 1\<rparr>))
        }
      })"

definition idat_chunk :: "bytes \<Rightarrow> nat \<Rightarrow> u32 \<Rightarrow> png_scan \<Rightarrow> png_scan option" where
  "idat_chunk data chunk_data chunk_len s =
     (case idat_buf s of
        None \<Rightarrow> Some s
      | Some b \<Rightarrow>
          if idat_len s + chunk_len \<le> idat_capacity s then do {
            c \<leftarrow> rdn data chunk_data (unat chunk_len);
            b \<leftarrow> wrn b (unat (idat_len s)) c;
            Some (s\<lparr>idat_buf := Some b, idat_len := idat_len s + chunk_len\<rparr>)
          }
          else Some s)"

definition chunk_step :: "(nat \<Rightarrow> u32 \<Rightarrow> bytes option) \<Rightarrow> bytes \<Rightarrow> nat \<Rightarrow> bytes \<Rightarrow> u32 \<Rightarrow> png_scan \<Rightarrow> (int + png_scan) option" where
  "chunk_step km data chunk_data chunk_type chunk_len s =
     (if chunk_type = IHDR then ihdr_chunk km data chunk_data chunk_len s
      else if chunk_type = IDAT then map_option Inr (idat_chunk data chunk_data chunk_len s)
      else Some (Inr s))"

partial_function (option) png_chunks ::
  "(nat \<Rightarrow> u32 \<Rightarrow> bytes option) \<Rightarrow> bytes \<Rightarrow> u32 \<Rightarrow> png_scan \<Rightarrow> (int + png_scan) option" where
  "png_chunks km data pos s =
     (if pos + 12 \<le> of_nat (length data) then
        Option.bind (rd32be data (unat pos)) (\<lambda>chunk_len.
        Option.bind (rdn data (unat pos + 4) 4) (\<lambda>chunk_type.
          if of_nat (length data) < pos + 12 + chunk_len then Some (Inr s)
          else Option.bind (chunk_step km data (unat pos + 8) chunk_type chunk_len s) (\<lambda>r.
            case r of
              Inl e \<Rightarrow> Some (Inl e)
            | Inr s \<Rightarrow> if chunk_type = IEND then Some (Inr s) else png_chunks km data (pos + (12 + chunk_len)) s)))
      else Some (Inr s))"

section \<open>Decoding\<close>

record png_image =
  img_width :: u32
  img_height :: u32
  img_pixels :: "u32 list option"

definition png_sig :: bytes where
  "png_sig = [0x89, 0x50, 0x4E, 0x47, 0x0D, 0x0A, 0x1A, 0x0A]"

text \<open>One pixel, and the pixels from \<open>i\<close> on: \<open>n\<close> are left, and \<open>room\<close> bytes were allocated for all.\<close>

definition argb_pixel :: "u32 \<Rightarrow> bytes \<Rightarrow> u32 \<Rightarrow> u32 option" where
  "argb_pixel bpp unfiltered i =
     (if bpp = 4 then do {
        r \<leftarrow> rd8 unfiltered (unat (i * 4 + 0)); g \<leftarrow> rd8 unfiltered (unat (i * 4 + 1));
        b \<leftarrow> rd8 unfiltered (unat (i * 4 + 2)); a \<leftarrow> rd8 unfiltered (unat (i * 4 + 3));
        Some (join32 a r g b)
      } else do {
        r \<leftarrow> rd8 unfiltered (unat (i * 3 + 0)); g \<leftarrow> rd8 unfiltered (unat (i * 3 + 1));
        b \<leftarrow> rd8 unfiltered (unat (i * 3 + 2));
        Some (join32 255 r g b)
      })"

fun argb_pixels :: "u32 \<Rightarrow> bytes \<Rightarrow> nat \<Rightarrow> nat \<Rightarrow> nat \<Rightarrow> u32 list option" where
  "argb_pixels bpp unfiltered room 0 i = Some []"
| "argb_pixels bpp unfiltered room (Suc n) i =
     (if room < 4 * i + 4 then None
      else do { p \<leftarrow> argb_pixel bpp unfiltered (of_nat i); ps \<leftarrow> argb_pixels bpp unfiltered room n (i + 1); Some (p # ps) })"

definition png_pixels :: "(nat \<Rightarrow> u32 \<Rightarrow> bytes option) \<Rightarrow> png_scan \<Rightarrow> bytes \<Rightarrow> png_image \<Rightarrow> (int \<times> png_image) option" where
  "png_pixels km s raw img =
     (let w = ps_width s; h = ps_height s; bpp = ps_bpp s in
      case km (kmallocs s) (w * h * bpp) of
        None \<Rightarrow> Some (-5, img)
      | Some unfiltered \<Rightarrow> do {
          unfiltered \<leftarrow> png_unfilter raw w h bpp unfiltered;
          let img = img\<lparr>img_width := w, img_height := h\<rparr>;
          case km (kmallocs s + 1) (w * h * 4) of
            None \<Rightarrow> Some (-5, img\<lparr>img_pixels := None\<rparr>)
          | Some p \<Rightarrow> do {
              ps \<leftarrow> argb_pixels bpp unfiltered (length p) (unat (w * h)) 0;
              Some (0, img\<lparr>img_pixels := Some ps\<rparr>)
            }
        })"

definition png_inflate :: "(nat \<Rightarrow> u32 \<Rightarrow> bytes option) \<Rightarrow> png_scan \<Rightarrow> png_image \<Rightarrow> (int \<times> png_image) option" where
  "png_inflate km s img =
     (case idat_buf s of
        None \<Rightarrow> Some (-2, img)
      | Some buf \<Rightarrow>
          if \<not> ihdr_found s \<or> idat_len s = 0 then Some (-2, img)
          else let raw_size = (ps_width s * ps_bpp s + 1) * ps_height s in
            case km (kmallocs s) (raw_size + 1024) of
              None \<Rightarrow> Some (-5, img)
            | Some raw \<Rightarrow>
                (case inflate_data (take (unat (idat_len s)) buf) (unat (raw_size + 1024)) of
                   Inl e \<Rightarrow> Some (-6, img)
                 | Inr out \<Rightarrow> do {
                     raw \<leftarrow> wrn raw 0 out;
                     if 0x80000000 \<le> length out then Some (-6, img)
                     else png_pixels km (s\<lparr>kmallocs := kmallocs s + 1\<rparr>) raw img
                   }))"

definition png_decode :: "(nat \<Rightarrow> u32 \<Rightarrow> bytes option) \<Rightarrow> bytes \<Rightarrow> png_image \<Rightarrow> (int \<times> png_image) option" where
  "png_decode km data img =
     (if length data < 8 \<or> take 8 data \<noteq> png_sig then Some (-1, img)
      else do {
        r \<leftarrow> png_chunks km data 8 scan_start;
        case r of Inl e \<Rightarrow> Some (e, img) | Inr s \<Rightarrow> png_inflate km s img
      })"

definition png_free :: "png_image \<Rightarrow> png_image" where
  "png_free img = img\<lparr>img_pixels := None\<rparr>"

section \<open>Drawing an icon\<close>

text \<open>The pixels drawn, in order: position and colour. The sizes are positive once the guard has passed.\<close>

definition icon_pixel :: "u32 list \<Rightarrow> int \<Rightarrow> int \<Rightarrow> int \<Rightarrow> int \<Rightarrow> int \<Rightarrow> int \<Rightarrow> int \<Rightarrow> int \<Rightarrow> (int \<times> int \<times> u32) list option" where
  "icon_pixel pixels img_w img_h dest_x dest_y dest_w dest_h dy dx =
     (let src_y = dy * img_h div dest_h; src_y = (if img_h \<le> src_y then img_h - 1 else src_y);
          src_x = dx * img_w div dest_w; src_x = (if img_w \<le> src_x then img_w - 1 else src_x);
          i = nat (src_y * img_w + src_x)
      in if length pixels \<le> i then None
         else if drop_bit 24 (pixels ! i) AND 0xFF < 128 then Some []
         else Some [(dest_x + dx, dest_y + dy, 0xFF000000 OR (pixels ! i AND 0x00FFFFFF))])"

definition gpu_draw_icon :: "u32 list option \<Rightarrow> int \<Rightarrow> int \<Rightarrow> int \<Rightarrow> int \<Rightarrow> int \<Rightarrow> int \<Rightarrow> (int \<times> int \<times> u32) list option" where
  "gpu_draw_icon pixels img_w img_h dest_x dest_y dest_w dest_h =
     (case pixels of
        None \<Rightarrow> Some []
      | Some ps \<Rightarrow>
          if img_w \<le> 0 \<or> img_h \<le> 0 \<or> dest_w \<le> 0 \<or> dest_h \<le> 0 then Some []
          else map_option concat (those (map (\<lambda>(dy, dx). icon_pixel ps img_w img_h dest_x dest_y dest_w dest_h dy dx)
                 [(dy, dx). dy \<leftarrow> [0..dest_h - 1], dx \<leftarrow> [0..dest_w - 1]])))"

definition wm_draw_icon :: "int \<Rightarrow> int \<Rightarrow> u32 list option \<Rightarrow> int \<Rightarrow> int \<Rightarrow> int \<Rightarrow> int \<Rightarrow> int \<Rightarrow> int \<Rightarrow> (int \<times> int \<times> u32) list option" where
  "wm_draw_icon client_x client_y pixels img_w img_h x y w h = gpu_draw_icon pixels img_w img_h (client_x + x) (client_y + y) w h"

end
