(* ===== verification/PngFacts.thy ===== *)
theory PngFacts
  imports Png
begin

text \<open>
  What the PNG decoder computes: the reconstruction undoes the five filters of the format, a file of
  stored blocks is decoded to its pixels, and a chunk length that wraps the position stops the
  scan from ending.
\<close>

section \<open>The filters of the format\<close>

definition paeth :: "u8 \<Rightarrow> u8 \<Rightarrow> u8 \<Rightarrow> u8" where
  "paeth a b c =
     (let d = \<lambda>v. \<bar>uint a + uint b - uint c - uint v\<bar>
      in if d a \<le> min (d b) (d c) then a else if d b \<le> d c then b else c)"

definition predicted :: "u8 \<Rightarrow> u8 \<Rightarrow> u8 \<Rightarrow> u8 \<Rightarrow> u8" where
  "predicted filt a b c = [0, a, b, of_nat ((unat a + unat b) div 2), paeth a b c] ! unat filt"

lemma paeth_predictor_eq: "paeth_predictor a b c = paeth a b c"
  by (simp add: paeth_predictor_def paeth_def Let_def abs_if)

lemma average_eq: "(ucast ((ucast (a :: u8) + ucast (b :: u8) :: u16) div 2) :: u8) = of_nat ((unat a + unat b) div 2)"
proof -
  have "unat a + unat b < 65536"
    using unat_u8_less [of a] unat_u8_less [of b] by linarith
  then have "unat (ucast a + ucast b :: u16) = unat a + unat b"
    by (simp add: unat_word_ariths unsigned_ucast_eq take_bit_eq_mod)
  then have "unat ((ucast a + ucast b :: u16) div 2) = (unat a + unat b) div 2"
    by (simp add: unat_div)
  then show ?thesis
    by (metis of_nat_unat)
qed

lemma unfilter_byte_eq: "filt < 5 \<Longrightarrow> unfilter_byte filt r a b c = r + predicted filt a b c"
proof -
  assume "filt < 5"
  then have "unat filt < 5"
    by (simp add: word_less_nat_alt)
  then have "filt \<in> {0, 1, 2, 3, 4}"
    by (auto simp: word_unat_eq_iff)
  then show ?thesis
    by (auto simp: unfilter_byte_def predicted_def paeth_predictor_eq average_eq)
qed

text \<open>The filtered form of an image of rows of \<open>w\<close> bytes, the filter of row \<open>y\<close> being \<open>fs ! y\<close>.\<close>

definition left_of :: "nat \<Rightarrow> nat \<Rightarrow> bytes \<Rightarrow> nat \<Rightarrow> nat \<Rightarrow> u8" where
  "left_of bpp w img y x = (if bpp \<le> x then img ! (y * w + (x - bpp)) else 0)"

definition above :: "nat \<Rightarrow> bytes \<Rightarrow> nat \<Rightarrow> nat \<Rightarrow> u8" where
  "above w img y x = (if 0 < y then img ! ((y - 1) * w + x) else 0)"

definition left_above :: "nat \<Rightarrow> nat \<Rightarrow> bytes \<Rightarrow> nat \<Rightarrow> nat \<Rightarrow> u8" where
  "left_above bpp w img y x = (if 0 < y \<and> bpp \<le> x then img ! ((y - 1) * w + (x - bpp)) else 0)"

definition filtered_row :: "nat \<Rightarrow> nat \<Rightarrow> bytes \<Rightarrow> u8 \<Rightarrow> nat \<Rightarrow> bytes" where
  "filtered_row bpp w img filt y =
     filt # map (\<lambda>x. img ! (y * w + x) - predicted filt (left_of bpp w img y x) (above w img y x) (left_above bpp w img y x)) [0..<w]"

definition filtered :: "nat \<Rightarrow> nat \<Rightarrow> bytes \<Rightarrow> u8 list \<Rightarrow> bytes" where
  "filtered bpp w img fs = concat (map (\<lambda>y. filtered_row bpp w img (fs ! y) y) [0..<length fs])"

section \<open>Reconstruction\<close>

lemma length_concat_rows: "(\<And>y. y < h \<Longrightarrow> length (f y) = n) \<Longrightarrow> length (concat (map f [0..<h])) = h * n"
  by (induction h) auto

lemma nth_concat_rows:
  "(\<And>y. y < h \<Longrightarrow> length (f y) = n) \<Longrightarrow> y < h \<Longrightarrow> j < n \<Longrightarrow> concat (map f [0..<h]) ! (y * n + j) = f y ! j"
proof (induction h)
  case (Suc h)
  have len: "length (concat (map f [0..<h])) = h * n"
    using Suc.prems(1) by (intro length_concat_rows) simp
  show ?case
  proof (cases "y < h")
    case True
    have "y * n + j < Suc y * n" "Suc y * n \<le> h * n"
      using Suc.prems(3) True by (simp, intro mult_le_mono1) simp
    then show ?thesis
      using Suc.IH [OF _ True Suc.prems(3)] Suc.prems(1) len by (simp add: nth_append)
  next
    case False
    then show ?thesis
      using Suc.prems len by (simp add: nth_append less_Suc_eq)
  qed
qed simp

lemma length_filtered_row [simp]: "length (filtered_row bpp w img filt y) = w + 1"
  by (simp add: filtered_row_def)

lemma filtered_nth:
  assumes "y < length fs"
  shows "filtered bpp w img fs ! (y * (w + 1)) = fs ! y"
    and "x < w \<Longrightarrow> filtered bpp w img fs ! (y * (w + 1) + 1 + x) =
      img ! (y * w + x) - predicted (fs ! y) (left_of bpp w img y x) (above w img y x) (left_above bpp w img y x)"
  using nth_concat_rows [of "length fs" "\<lambda>y. filtered_row bpp w img (fs ! y) y" "w + 1" y 0, OF _ assms]
    nth_concat_rows [of "length fs" "\<lambda>y. filtered_row bpp w img (fs ! y) y" "w + 1" y "1 + x", OF _ assms]
  by (simp_all add: filtered_def filtered_row_def add.assoc)

lemma length_filtered: "length (filtered bpp w img fs) = length fs * (w + 1)"
  by (simp add: filtered_def length_concat_rows)

lemma row_bound: "y < h \<Longrightarrow> x < n \<Longrightarrow> y * n + x < h * (n :: nat)"
proof -
  assume "y < h" "x < n"
  then have "y * n + x < Suc y * n" "Suc y * n \<le> h * n"
    by (simp, intro mult_le_mono1) simp
  then show ?thesis
    by linarith
qed

lemma nth_take_eq: "take m out = take m img \<Longrightarrow> i < m \<Longrightarrow> out ! i = img ! i"
  by (metis nth_take)

lemma unfilter_row_spec:
  assumes "\<forall>filt \<in> set fs. filt < 5" and "length img = length fs * w" and "y < length fs" and "0 < bpp"
  shows "x + n = w \<Longrightarrow> length out = length img \<Longrightarrow> take (y * w + x) out = take (y * w + x) img \<Longrightarrow>
    \<exists>out'. unfilter_row (filtered bpp w img fs @ rest) (fs ! y) (y * (w + 1) + 1) (y * w)
      (if 0 < y then Some ((y - 1) * w) else None) bpp n x out = Some out' \<and>
    length out' = length img \<and> take (Suc y * w) out' = take (Suc y * w) img"
proof (induction n arbitrary: x out)
  case 0
  then show ?case
    by (auto simp: add.commute)
next
  case (Suc n)
  let ?raw = "filtered bpp w img fs @ rest" and ?pr = "if 0 < y then Some ((y - 1) * w) else None"
  let ?i = "y * w + x"
  have x: "x < w" and i: "?i < length img"
    using Suc.prems(1) row_bound [OF assms(3), of x w] assms(2) by simp_all
  have raw: "rd8 ?raw (y * (w + 1) + 1 + x) =
      Some (img ! ?i - predicted (fs ! y) (left_of bpp w img y x) (above w img y x) (left_above bpp w img y x))"
    using filtered_nth(2) [OF assms(3) x, of bpp img] row_bound [OF assms(3), of "1 + x" "w + 1"] x
    by (simp add: rd8_def nth_append length_filtered)
  have up: "(y - 1) * w + x' < ?i" if "0 < y" "x' \<le> x" for x'
    using that x by (cases y) simp_all
  have got: "rd8 out j = Some (img ! j)" if "j < ?i" for j
    using that i Suc.prems(2) nth_take_eq [OF Suc.prems(3)] by (simp add: rd8_def)
  have a: "(if bpp \<le> x then rd8 out (y * w + (x - bpp)) else Some 0) = Some (left_of bpp w img y x)"
    using got assms(4) by (simp add: left_of_def)
  have b: "(case ?pr of Some p \<Rightarrow> rd8 out (p + x) | None \<Rightarrow> Some 0) = Some (above w img y x)"
    using got [OF up [of x]] by (simp add: above_def)
  have c: "(case ?pr of Some p \<Rightarrow> if bpp \<le> x then rd8 out (p + (x - bpp)) else Some 0 | None \<Rightarrow> Some 0) = Some (left_above bpp w img y x)"
    using got [OF up [of "x - bpp"]] by (cases "bpp \<le> x") (simp_all add: left_above_def)
  let ?out = "take ?i out @ [img ! ?i] @ drop (?i + 1) out"
  have wr: "wrn out ?i [img ! ?i] = Some ?out"
    using i Suc.prems(2) by (simp add: wrn_def)
  have "take (y * w + (x + 1)) ?out = take (y * w + (x + 1)) img"
    using i Suc.prems(2,3) by (simp add: take_Suc_conv_app_nth min_def)
  then have "\<exists>out'. unfilter_row ?raw (fs ! y) (y * (w + 1) + 1) (y * w) ?pr bpp n (x + 1) ?out = Some out' \<and>
      length out' = length img \<and> take (Suc y * w) out' = take (Suc y * w) img"
    using Suc.prems(1,2) i by (intro Suc.IH) simp_all
  moreover have "fs ! y < 5"
    using assms(1,3) by simp
  ultimately show ?case
    unfolding unfilter_row.simps raw a b c bind.bind_lunit by (simp add: unfilter_byte_eq wr)
qed

text \<open>The sizes do not wrap, so the offsets of the code are the offsets of the rows.\<close>

lemma unat_product: "y * n < 2 ^ 32 \<Longrightarrow> unat (of_nat y * of_nat n :: u32) = y * n"
  by (simp add: unsigned_of_nat take_bit_nat_eq_self flip: of_nat_mult)

lemma unfilter_rows_spec:
  assumes "\<forall>filt \<in> set fs. filt < 5" and "length img = length fs * w" and "0 < bpp" and "length fs * (w + 1) < 2 ^ 32"
  shows "y + n = length fs \<Longrightarrow> length out = length img \<Longrightarrow> take (y * w) out = take (y * w) img \<Longrightarrow>
    unfilter_rows (filtered bpp w img fs @ rest) (of_nat w) bpp n (of_nat y) out = Some img"
proof (induction n arbitrary: y out)
  case 0
  then show ?case
    using assms(2) by simp
next
  case (Suc n)
  let ?raw = "filtered bpp w img fs @ rest"
  have y: "y < length fs"
    using Suc.prems(1) by simp
  have "Suc y * (w + 1) \<le> length fs * (w + 1)"
    using y by (intro mult_le_mono1) simp
  then have small: "Suc y * (w + 1) < 2 ^ 32"
    using assms(4) by linarith
  then have bound: "y * (w + 1) < 2 ^ 32" "y * w < 2 ^ 32" "(y - 1) * w < 2 ^ 32" "w < 2 ^ 32" "y < 2 ^ 32"
    by (cases y, simp_all)+
  have line: "unat (of_nat y * (of_nat w + 1) :: u32) = y * (w + 1)"
    using unat_product [OF bound(1)] by (simp add: add.commute)
  have prev: "(if 0 < (of_nat y :: u32) then Some (unat ((of_nat y - 1 :: u32) * of_nat w)) else None) = (if 0 < y then Some ((y - 1) * w) else None)"
  proof -
    have "0 < (of_nat y :: u32) \<longleftrightarrow> 0 < y"
      using bound(5) by (simp add: word_less_nat_alt unsigned_of_nat take_bit_nat_eq_self)
    moreover have "of_nat y - 1 = (of_nat (y - 1) :: u32)" if "0 < y"
      using that by (cases y) simp_all
    ultimately show ?thesis
      using unat_product [OF bound(3)] by (cases "0 < y") (simp_all only: if_True if_False)
  qed
  have w: "unat (of_nat w :: u32) = w"
    using bound(4) by (simp add: unsigned_of_nat take_bit_nat_eq_self)
  have filt: "rd8 ?raw (y * (w + 1)) = Some (fs ! y)"
    using filtered_nth(1) [OF y] row_bound [OF y, of 0 "w + 1"] by (simp add: rd8_def nth_append length_filtered)
  obtain out' where "unfilter_row ?raw (fs ! y) (y * (w + 1) + 1) (y * w) (if 0 < y then Some ((y - 1) * w) else None) bpp w 0 out = Some out'"
      "length out' = length img" "take (Suc y * w) out' = take (Suc y * w) img"
    using unfilter_row_spec [OF assms(1,2) y assms(3), of 0 w out rest] Suc.prems by auto
  moreover from this have "unfilter_rows ?raw (of_nat w) bpp n (of_nat (Suc y)) out' = Some img"
    using Suc.prems(1) by (intro Suc.IH) simp_all
  ultimately show ?case
    unfolding unfilter_rows.simps Let_def line w prev filt unat_product [OF bound(2)] by (simp add: add.commute)
qed

lemma png_unfilter_spec:
  assumes "\<forall>filt \<in> set fs. filt < 5" and "length img = length fs * (w * bpp)" and "bpp = 3 \<or> bpp = 4"
    and "length fs * (w * bpp + 1) < 2 ^ 32" and "length out = length img"
  shows "png_unfilter (filtered bpp (w * bpp) img fs @ rest) (of_nat w) (of_nat (length fs)) (of_nat bpp) out = Some img"
proof -
  have "length fs \<le> length fs * (w * bpp + 1)"
    by simp
  then have "unat (of_nat (length fs) :: u32) = length fs" "unat (of_nat bpp :: u32) = bpp"
    using assms(3,4) by (auto simp: unsigned_of_nat take_bit_nat_eq_self)
  then show ?thesis
    using unfilter_rows_spec [OF assms(1,2) _ assms(4), where y = 0 and n = "length fs" and out = out and rest = rest] assms(3,5) by (auto simp: png_unfilter_def)
qed

text \<open>
  Cx: Filter reconstruction undoes the five filters of the PNG format: for every image of rows of
  three- or four-byte pixels and every choice of a filter for each row, \<open>png_unfilter\<close> turns the filtered rows back into
  the image, whatever lies behind them and whatever the output buffer held.
\<close>

theorem png_unfilter_inverse:
  assumes "\<forall>filt \<in> set fs. filt < 5" and "length img = length fs * (w * bpp)" and "bpp = 3 \<or> bpp = 4"
    and "length fs * (w * bpp + 1) < 2 ^ 32" and "length out = length img"
  shows "png_unfilter (filtered bpp (w * bpp) img fs @ rest) (of_nat w) (of_nat (length fs)) (of_nat bpp) out = Some img"
  by (rule png_unfilter_spec [OF assms])

theorem png_unfilter_inverse_witness:
  "png_unfilter [4, 10, 20, 30, 1, 1, 1, 2, 5, 5, 5, 5, 5, 5] 2 2 3 (replicate 12 0) = Some [10, 20, 30, 11, 21, 31, 15, 25, 35, 16, 26, 36]"
proof -
  let ?img = "[10, 20, 30, 11, 21, 31, 15, 25, 35, 16, 26, 36] :: bytes"
  have "filtered 3 (2 * 3) ?img [4, 2] = [4, 10, 20, 30, 1, 1, 1, 2, 5, 5, 5, 5, 5, 5]"
    by code_simp
  then show ?thesis
    using png_unfilter_inverse [of "[4, 2]" ?img 2 3 "replicate 12 0" "[]"] by simp
qed

end
