(* ===== verification/PngDecode.thy ===== *)
theory PngDecode
  imports PngFacts
begin

text \<open>
  The decoder as a whole: a well-formed file of stored blocks is decoded to its pixels, and a chunk
  length that leaves the position where it is keeps the scan from ending.
\<close>

section \<open>Files\<close>

definition png_chunk :: "bytes \<Rightarrow> bytes \<Rightarrow> bytes \<Rightarrow> bytes" where
  "png_chunk t c crc = put32be (of_nat (length c)) @ t @ c @ crc"

text \<open>The chunks between header and end: type, data and checksum. Those of type \<open>IDAT\<close> carry the compressed data.\<close>

definition body_chunks :: "(bytes \<times> bytes \<times> bytes) list \<Rightarrow> bytes" where
  "body_chunks parts = concat (map (\<lambda>(ty, c, crc). png_chunk ty c crc) parts)"

definition idat_of :: "(bytes \<times> bytes \<times> bytes) list \<Rightarrow> bytes" where
  "idat_of parts = concat (map (\<lambda>(ty, c, crc). if ty = IDAT then c else []) parts)"

definition parts_ok :: "(bytes \<times> bytes \<times> bytes) list \<Rightarrow> bool" where
  "parts_ok parts \<longleftrightarrow> (\<forall>(ty, c, crc) \<in> set parts. length ty = 4 \<and> length crc = 4 \<and> ty \<noteq> IHDR \<and> ty \<noteq> IEND)"

text \<open>An image of width \<open>w\<close> and height \<open>h\<close>, of colour type \<open>t\<close>.\<close>

definition png_file :: "nat \<Rightarrow> nat \<Rightarrow> u8 \<Rightarrow> (bytes \<times> bytes \<times> bytes) list \<Rightarrow> bytes \<Rightarrow> bytes \<Rightarrow> bytes" where
  "png_file w h t parts crc1 crc2 =
     png_sig @ png_chunk IHDR (put32be (of_nat w) @ put32be (of_nat h) @ [8, t, 0, 0, 0]) crc1
       @ body_chunks parts @ png_chunk IEND [] crc2"

definition pixel_bytes :: "u8 \<Rightarrow> nat" where
  "pixel_bytes t = (if t = 2 then 3 else 4)"

definition pixel_of :: "u8 \<Rightarrow> bytes \<Rightarrow> nat \<Rightarrow> u32" where
  "pixel_of t img i =
     (if t = 2 then join32 255 (img ! (3 * i)) (img ! (3 * i + 1)) (img ! (3 * i + 2))
      else join32 (img ! (4 * i + 3)) (img ! (4 * i)) (img ! (4 * i + 1)) (img ! (4 * i + 2)))"

definition gives_memory :: "(nat \<Rightarrow> u32 \<Rightarrow> bytes option) \<Rightarrow> bool" where
  "gives_memory km \<longleftrightarrow> (\<forall>i n. \<exists>b. km i n = Some b \<and> length b = unat n)"

lemma gives_memoryD:
  assumes "gives_memory km"
  obtains b where "km i n = Some b" and "length b = unat n"
  using assms unfolding gives_memory_def by blast

declare unat_of_nat_small [simp]

lemma rd32be_put: "rd32be (pre @ put32be v @ rest) (length pre) = Some v"
  by (simp add: rd32be_def put32be_def nth_append)

lemma rdn_middle: "rdn (pre @ c @ rest) (length pre) (length c) = Some c"
  by (simp add: rdn_def)

section \<open>The scan\<close>

lemma length_png_chunk: "length t = 4 \<Longrightarrow> length crc = 4 \<Longrightarrow> length (png_chunk t c crc) = 12 + length c"
  by (simp add: png_chunk_def)

lemma scan_chunk:
  assumes "data = pre @ png_chunk t c crc @ rest" and "length data < 2 ^ 31" and "length t = 4" and "length crc = 4"
  shows "png_chunks km data (of_nat (length pre)) s =
    Option.bind (chunk_step km data (length pre + 8) t (of_nat (length c)) s) (\<lambda>r. case r of
      Inl e \<Rightarrow> Some (Inl e)
    | Inr s \<Rightarrow> if t = IEND then Some (Inr s) else png_chunks km data (of_nat (length (pre @ png_chunk t c crc))) s)"
proof -
  have len: "length data = length pre + 12 + length c + length rest"
    using assms(1,3,4) by (simp add: length_png_chunk)
  have p: "unat (of_nat (length pre) :: u32) = length pre"
    using len assms(2) by simp
  have eq: "of_nat (length pre) + 12 = (of_nat (length pre + 12) :: u32)"
    "of_nat (length pre) + 12 + of_nat (length c) = (of_nat (length pre + 12 + length c) :: u32)"
    "of_nat (length pre) + (12 + of_nat (length c)) = (of_nat (length (pre @ png_chunk t c crc)) :: u32)"
    using assms(3,4) by (simp_all add: length_png_chunk)
  have le: "of_nat a \<le> (of_nat b :: u32) \<longleftrightarrow> a \<le> b" if "a \<le> length data" "b \<le> length data" for a b
    using that assms(2) by (simp add: word_le_nat_alt)
  have c: "of_nat (length pre) + 12 \<le> (of_nat (length data) :: u32)"
    unfolding eq(1) by (rule le [THEN iffD2]) (simp_all add: len)
  have c': "\<not> of_nat (length data) < (of_nat (length pre) + 12 + of_nat (length c) :: u32)"
    unfolding eq(2) not_less by (rule le [THEN iffD2]) (simp_all add: len)
  have r: "rd32be data (length pre) = Some (of_nat (length c))"
    using rd32be_put [of pre "of_nat (length c)"] by (simp add: assms(1) png_chunk_def)
  have ty: "rdn data (length pre + 4) 4 = Some t"
    using rdn_middle [of "pre @ put32be (of_nat (length c))" t "c @ crc @ rest"] assms(3) by (simp add: assms(1) png_chunk_def)
  show ?thesis
    by (subst png_chunks.simps) (simp only: c c' p r ty bind.bind_lunit if_True if_False eq(3) cong: sum.case_cong)
qed

lemma scan_ihdr:
  assumes "data = pre @ png_chunk IHDR (put32be (of_nat w) @ put32be (of_nat h) @ [8, t, 0, 0, 0]) crc @ rest"
    and "length data < 2 ^ 31" and "length crc = 4" and "t = 2 \<or> t = 6" and "gives_memory km"
  shows "\<exists>b. length b = unat (of_nat w * of_nat h * of_nat (pixel_bytes t) + of_nat h + 4096 :: u32) \<and>
    png_chunks km data (of_nat (length pre)) scan_start =
    png_chunks km data (of_nat (length (pre @ png_chunk IHDR (put32be (of_nat w) @ put32be (of_nat h) @ [8, t, 0, 0, 0]) crc)))
      \<lparr>ps_width = of_nat w, ps_height = of_nat h, ps_bpp = of_nat (pixel_bytes t), ihdr_found = True, idat_buf = Some b, idat_len = 0,
       idat_capacity = of_nat w * of_nat h * of_nat (pixel_bytes t) + of_nat h + 4096, kmallocs = 1\<rparr>"
proof -
  let ?c = "put32be (of_nat w) @ put32be (of_nat h) @ [8, t, 0, 0, 0] :: bytes"
  let ?cap = "of_nat w * of_nat h * of_nat (pixel_bytes t) + of_nat h + 4096 :: u32"
  obtain b where b: "km 0 ?cap = Some b" "length b = unat ?cap"
    using assms(5) unfolding gives_memory_def by blast
  have d: "data = (pre @ put32be (of_nat (length ?c)) @ IHDR) @ ?c @ crc @ rest" and l: "length (pre @ put32be (of_nat (length ?c)) @ IHDR) = length pre + 8"
    by (simp_all add: assms(1) png_chunk_def IHDR_def)
  have rd: "rd32be data (length pre + 8) = Some (of_nat w)" "rd32be data (length pre + 8 + 4) = Some (of_nat h)"
      "rd8 data (length pre + 8 + 8) = Some 8" "rd8 data (length pre + 8 + 9) = Some t"
    unfolding d l [symmetric] by (simp_all add: rd32be_def rd8_def put32be_def nth_append)
  have "ihdr_chunk km data (length pre + 8) (of_nat (length ?c)) scan_start =
      Some (Inr \<lparr>ps_width = of_nat w, ps_height = of_nat h, ps_bpp = of_nat (pixel_bytes t), ihdr_found = True, idat_buf = Some b, idat_len = 0,
       idat_capacity = ?cap, kmallocs = 1\<rparr>)"
    using assms(4) b(1) by (auto simp: ihdr_chunk_def rd rd [simplified] scan_start_def pixel_bytes_def put32be_def Let_def)
  moreover have "IHDR \<noteq> IEND" "length IHDR = 4"
    by (simp_all add: IHDR_def IEND_def)
  ultimately show ?thesis
    using scan_chunk [OF assms(1,2) _ assms(3), of km scan_start] b(2) by (intro exI [of _ b]) (simp add: chunk_step_def)
qed

lemma idat_step:
  assumes "data = pre @ png_chunk IDAT c crc @ rest" and "length c < 2 ^ 32"
    and "idat_buf s = Some b" and "length b = unat (idat_capacity s)" and "unat (idat_len s) + length c \<le> unat (idat_capacity s)"
  shows "\<exists>b'. chunk_step km data (length pre + 8) IDAT (of_nat (length c)) s = Some (Inr (s\<lparr>idat_buf := Some b', idat_len := idat_len s + of_nat (length c)\<rparr>)) \<and>
    length b' = length b \<and> take (unat (idat_len s) + length c) b' = take (unat (idat_len s)) b @ c"
proof -
  obtain b' where b': "wrn b (unat (idat_len s)) c = Some b'"
    using assms(4,5) wrn_Some_iff [of b "unat (idat_len s)" c] by auto
  have "rdn data (length pre + 8) (length c) = Some c"
    using rdn_middle [of "pre @ put32be (of_nat (length c)) @ IDAT" c "crc @ rest"] by (simp add: assms(1) png_chunk_def IDAT_def)
  moreover have "unat (idat_len s + of_nat (length c)) = unat (idat_len s) + length c"
    using assms(5) le_less_trans [OF assms(5), of "2 ^ 32"] by (intro unat_add_small32) simp
  moreover have "IDAT \<noteq> IHDR"
    by (simp add: IDAT_def IHDR_def)
  ultimately show ?thesis
    using b' length_wrn [OF b'] take_wrn [OF b'] assms(2-5) by (auto simp: chunk_step_def idat_chunk_def word_le_nat_alt)
qed

text \<open>A chunk of another type leaves the state alone.\<close>

lemma other_step: "ty \<noteq> IHDR \<Longrightarrow> ty \<noteq> IDAT \<Longrightarrow> chunk_step km data p ty n s = Some (Inr s)"
  by (simp add: chunk_step_def)

lemma scan_body:
  assumes "data = pre @ body_chunks parts @ rest" and "length data < 2 ^ 31" and "parts_ok parts"
    and "idat_buf s = Some b" and "length b = unat (idat_capacity s)"
    and "unat (idat_len s) + length (idat_of parts) \<le> unat (idat_capacity s)"
  shows "\<exists>b'. png_chunks km data (of_nat (length pre)) s = png_chunks km data (of_nat (length (pre @ body_chunks parts)))
      (s\<lparr>idat_buf := Some b', idat_len := idat_len s + of_nat (length (idat_of parts))\<rparr>) \<and>
    length b' = length b \<and> take (unat (idat_len s) + length (idat_of parts)) b' = take (unat (idat_len s)) b @ idat_of parts"
  using assms
proof (induction parts arbitrary: pre s b)
  case Nil
  then have "s\<lparr>idat_buf := Some b\<rparr> = s"
    by (cases s) simp
  then show ?case
    by (intro exI [of _ b]) (simp add: body_chunks_def idat_of_def)
next
  case (Cons part parts)
  obtain ty c crc where part: "part = (ty, c, crc)"
    by (cases part)
  let ?pre = "pre @ png_chunk ty c crc"
  have d: "data = pre @ png_chunk ty c crc @ (body_chunks parts @ rest)" and d': "data = ?pre @ body_chunks parts @ rest"
    using Cons.prems(1) by (simp_all add: body_chunks_def part)
  have ok: "length crc = 4" "length ty = 4" "ty \<noteq> IHDR" "ty \<noteq> IEND" "parts_ok parts"
    using Cons.prems(3) by (auto simp: part parts_ok_def)
  have idat: "idat_of (part # parts) = (if ty = IDAT then c else []) @ idat_of parts"
    by (simp add: part idat_of_def)
  have "length c < 2 ^ 32"
    using Cons.prems(2) by (simp add: d png_chunk_def)
  then obtain b1 where b1: "chunk_step km data (length pre + 8) ty (of_nat (length c)) s =
        Some (Inr (s\<lparr>idat_buf := Some b1, idat_len := idat_len s + of_nat (length (if ty = IDAT then c else []))\<rparr>))"
      "length b1 = length b" "take (unat (idat_len s) + length (if ty = IDAT then c else [])) b1 = take (unat (idat_len s)) b @ (if ty = IDAT then c else [])"
  proof (cases "ty = IDAT")
    case True
    with that idat_step [OF d [unfolded True] \<open>length c < 2 ^ 32\<close> Cons.prems(4,5), of km] Cons.prems(6) idat show ?thesis
      by auto
  next
    case False
    have "s\<lparr>idat_buf := Some b\<rparr> = s"
      using Cons.prems(4) by (cases s) simp
    with that [of b] other_step [OF ok(3) False] False show ?thesis
      by simp
  qed
  let ?c = "if ty = IDAT then c else []"
  let ?s = "s\<lparr>idat_buf := Some b1, idat_len := idat_len s + of_nat (length ?c)\<rparr>"
  have step: "png_chunks km data (of_nat (length pre)) s = png_chunks km data (of_nat (length ?pre)) ?s"
    using scan_chunk [OF d Cons.prems(2) ok(2,1), of km s] b1(1) ok(4) by simp
  have len: "unat (idat_len s + of_nat (length ?c)) = unat (idat_len s) + length ?c"
    using le_less_trans [OF Cons.prems(6) [unfolded idat length_append], of "2 ^ 32"] by (intro unat_add_small32) simp
  have "unat (idat_len ?s) + length (idat_of parts) \<le> unat (idat_capacity ?s)" "length b1 = unat (idat_capacity ?s)"
    using Cons.prems(5,6) b1(2) len idat by simp_all
  then obtain b' where b': "png_chunks km data (of_nat (length ?pre)) ?s = png_chunks km data (of_nat (length (?pre @ body_chunks parts)))
      (?s\<lparr>idat_buf := Some b', idat_len := idat_len ?s + of_nat (length (idat_of parts))\<rparr>)" "length b' = length b1"
      "take (unat (idat_len ?s) + length (idat_of parts)) b' = take (unat (idat_len ?s)) b1 @ idat_of parts"
    using Cons.IH [OF d' Cons.prems(2) ok(5), of ?s b1] by auto
  have "?pre @ body_chunks parts = pre @ body_chunks (part # parts)"
    by (simp add: part body_chunks_def)
  then show ?case
    using step b' b1(2,3) len unfolding idat by (intro exI [of _ b']) (simp add: add.assoc)
qed

section \<open>Pixels\<close>

lemma argb_pixel_spec:
  assumes "t = 2 \<or> t = 6" and "pixel_bytes t * (i + 1) \<le> length img" and "length img < 2 ^ 32"
  shows "argb_pixel (of_nat (pixel_bytes t)) img (of_nat i) = Some (pixel_of t img i)"
proof -
  have "unat (of_nat i * of_nat (pixel_bytes t) + of_nat k :: u32) = pixel_bytes t * i + k" if "k < pixel_bytes t" for k
    using that assms(2,3) unat_of_nat_small [of "pixel_bytes t * i + k"] by (simp add: mult.commute)
  from this [of 0] this [of 1] this [of 2] this [of 3] show ?thesis
    using assms(1,2) by (auto simp: argb_pixel_def pixel_of_def pixel_bytes_def rd8_def)
qed

lemma argb_pixels_spec:
  assumes "t = 2 \<or> t = 6" and "length img < 2 ^ 32"
  shows "pixel_bytes t * (i + n) \<le> length img \<Longrightarrow> 4 * (i + n) \<le> room \<Longrightarrow>
    argb_pixels (of_nat (pixel_bytes t)) img room n i = Some (map (pixel_of t img) [i..<i + n])"
proof (induction n arbitrary: i)
  case (Suc n)
  have "pixel_bytes t * (i + 1) \<le> pixel_bytes t * (i + Suc n)"
    by (intro mult_le_mono2) simp
  with Suc.prems(1) have "pixel_bytes t * (i + 1) \<le> length img"
    by linarith
  from argb_pixel_spec [OF assms(1) this assms(2)]
  show ?case
    using Suc.IH [of "i + 1"] Suc.prems by (simp add: upt_conv_Cons del: upt_Suc)
qed simp

section \<open>A file of stored blocks\<close>

lemma png_pixels_spec:
  assumes "\<forall>filt \<in> set fs. filt < 5" and "length img = length fs * (w * pixel_bytes t)" and "t = 2 \<or> t = 6"
    and "length fs * (w * pixel_bytes t + 1) < 2 ^ 32" and "4 * (w * length fs) < 2 ^ 32" and "gives_memory km"
    and "ps_width s = of_nat w" and "ps_height s = of_nat (length fs)" and "ps_bpp s = of_nat (pixel_bytes t)"
  shows "png_pixels km s (filtered (pixel_bytes t) (w * pixel_bytes t) img fs @ rest) im =
    Some (0, \<lparr>img_width = of_nat w, img_height = of_nat (length fs), img_pixels = Some (map (pixel_of t img) [0..<w * length fs]),
      \<dots> = png_image.more im\<rparr>)"
proof -
  let ?bpp = "pixel_bytes t" and ?h = "length fs"
  have bpp: "?bpp = 3 \<or> ?bpp = 4"
    by (simp add: pixel_bytes_def)
  have img: "length img = w * ?h * ?bpp"
    using assms(2) by simp
  then have small: "length img < 2 ^ 32"
    using assms(4) by (simp add: algebra_simps)
  obtain u where u: "km (kmallocs s) (of_nat (w * ?h * ?bpp)) = Some u" "length u = length img"
    using gives_memoryD [OF assms(6)] small img unat_of_nat_small by metis
  obtain p where p: "km (kmallocs s + 1) (of_nat (w * ?h * 4)) = Some p" "length p = w * ?h * 4"
    using gives_memoryD [OF assms(6)] assms(5) unat_of_nat_small [of "w * ?h * 4"] by (metis mult.commute)
  have "png_unfilter (filtered ?bpp (w * ?bpp) img fs @ rest) (of_nat w) (of_nat ?h) (of_nat ?bpp) u = Some img"
    using assms(1,2,4) bpp u(2) png_unfilter_spec by blast
  moreover have "argb_pixels (of_nat ?bpp) img (length p) (w * ?h) 0 = Some (map (pixel_of t img) [0..<w * ?h])"
    using argb_pixels_spec [OF assms(3) small, of 0 "w * ?h" "length p"] p(2) assms(2) by (simp add: ac_simps)
  moreover have "unat (of_nat w * of_nat ?h :: u32) = w * ?h"
    using unat_of_nat_small [of "w * ?h"] assms(5) by simp
  ultimately show ?thesis
    using u(1) p(1) assms(7-9) by (cases im) (simp add: png_pixels_def Let_def)
qed

lemma png_inflate_spec:
  assumes "idat_buf s = Some b" and "ihdr_found s" and "take (unat (idat_len s)) b = z" and "idat_len s \<noteq> 0"
    and "unat ((ps_width s * ps_bpp s + 1) * ps_height s) = n" and "n + 4096 < 2 ^ 31" and "gives_memory km"
    and "inflate_data z (n + 1024) = Inr raw" and "length raw = n"
  shows "\<exists>rest. png_inflate km s im = png_pixels km (s\<lparr>kmallocs := kmallocs s + 1\<rparr>) (raw @ rest) im"
proof -
  let ?size = "(ps_width s * ps_bpp s + 1) * ps_height s"
  have size: "unat (?size + 1024) = n + 1024"
    using unat_add_small32 [of ?size 1024] assms(5,6) by simp
  obtain r where r: "km (kmallocs s) (?size + 1024) = Some r" "length r = n + 1024"
    using gives_memoryD [OF assms(7)] size by metis
  have "wrn r 0 raw = Some (raw @ drop n r)"
    using r(2) assms(9) by (simp add: wrn_def)
  then show ?thesis
    using assms(1-4,6,8,9) r(1) size by (intro exI [of _ "drop n r"]) (simp add: png_inflate_def Let_def)
qed

lemma png_decode_spec:
  assumes "\<forall>filt \<in> set fs. filt < 5" and "length img = length fs * (w * pixel_bytes t)" and "t = 2 \<or> t = 6"
    and "length fs * (w * pixel_bytes t + 1) + 4096 < 2 ^ 31" and "4 * (w * length fs) < 2 ^ 32" and "gives_memory km"
    and "inflate_data (idat_of parts) (length fs * (w * pixel_bytes t + 1) + 1024) = Inr (filtered (pixel_bytes t) (w * pixel_bytes t) img fs)"
    and "idat_of parts \<noteq> []" and "length (idat_of parts) \<le> length fs * (w * pixel_bytes t + 1) + 4096"
    and "parts_ok parts" and "length crc1 = 4" and "length crc2 = 4"
    and "length (png_file w (length fs) t parts crc1 crc2) < 2 ^ 31"
  shows "png_decode km (png_file w (length fs) t parts crc1 crc2) im =
    Some (0, \<lparr>img_width = of_nat w, img_height = of_nat (length fs), img_pixels = Some (map (pixel_of t img) [0..<w * length fs]),
      \<dots> = png_image.more im\<rparr>)"
proof -
  let ?h = "length fs" and ?bpp = "pixel_bytes t" and ?z = "idat_of parts"
  let ?n = "?h * (w * ?bpp + 1)" and ?data = "png_file w (length fs) t parts crc1 crc2"
  let ?ihdr = "png_chunk IHDR (put32be (of_nat w) @ put32be (of_nat ?h) @ [8, t, 0, 0, 0]) crc1"
  let ?cap = "of_nat w * of_nat ?h * of_nat ?bpp + of_nat ?h + 4096 :: u32"
  have n: "unat ((of_nat w * of_nat ?bpp + 1) * of_nat ?h :: u32) = ?n"
    using assms(4) unat_of_nat_small [of ?n] by (simp add: algebra_simps)
  have cap: "unat ?cap = ?n + 4096"
    using assms(4) unat_of_nat_small [of "?n + 4096"] by (simp add: algebra_simps)
  have d1: "?data = png_sig @ ?ihdr @ (body_chunks parts @ png_chunk IEND [] crc2)" and d2: "?data = (png_sig @ ?ihdr) @ body_chunks parts @ png_chunk IEND [] crc2"
    and d3: "?data = ((png_sig @ ?ihdr) @ body_chunks parts) @ png_chunk IEND [] crc2 @ []"
    by (simp_all add: png_file_def)
  have sig: "take 8 ?data = png_sig" "length png_sig = 8" "\<not> length ?data < 8"
    by (simp_all add: png_file_def png_sig_def)
  obtain b where b: "length b = unat ?cap" "png_chunks km ?data 8 scan_start = png_chunks km ?data (of_nat (length (png_sig @ ?ihdr)))
      \<lparr>ps_width = of_nat w, ps_height = of_nat ?h, ps_bpp = of_nat ?bpp, ihdr_found = True, idat_buf = Some b, idat_len = 0, idat_capacity = ?cap, kmallocs = 1\<rparr>"
      (is "_ = png_chunks _ _ _ ?s")
    using scan_ihdr [OF d1 assms(13,11,3,6)] sig(2) by (auto simp del: length_append)
  obtain b' where b': "png_chunks km ?data (of_nat (length (png_sig @ ?ihdr))) ?s = png_chunks km ?data (of_nat (length ((png_sig @ ?ihdr) @ body_chunks parts)))
      (?s\<lparr>idat_buf := Some b', idat_len := of_nat (length ?z)\<rparr>)" "take (length ?z) b' = ?z"
    using scan_body [OF d2 assms(13,10), of ?s b km] b(1) cap assms(9) by auto
  let ?s' = "?s\<lparr>idat_buf := Some b', idat_len := of_nat (length ?z)\<rparr>"
  have "chunk_step km ?data (length ((png_sig @ ?ihdr) @ body_chunks parts) + 8) IEND 0 ?s' = Some (Inr ?s')" "length IEND = 4"
    by (simp_all add: chunk_step_def IHDR_def IDAT_def IEND_def)
  then have scan: "png_chunks km ?data 8 scan_start = Some (Inr ?s')"
    using b(2) b'(1) scan_chunk [OF d3 assms(13) _ assms(12), of km ?s'] by simp
  have z: "unat (of_nat (length ?z) :: u32) = length ?z" "(of_nat (length ?z) :: u32) \<noteq> 0"
    using assms(4,8,9) unat_of_nat_small [of "length ?z"] by (auto simp: word_unat_eq_iff)
  have "\<exists>rest. png_inflate km ?s' im = png_pixels km (?s'\<lparr>kmallocs := kmallocs ?s' + 1\<rparr>) (filtered ?bpp (w * ?bpp) img fs @ rest) im"
    by (rule png_inflate_spec [OF _ _ _ _ _ assms(4,6,7)]) (use n z b'(2) in \<open>simp_all add: length_filtered\<close>)
  then obtain rest where "png_inflate km ?s' im = png_pixels km (?s'\<lparr>kmallocs := kmallocs ?s' + 1\<rparr>) (filtered ?bpp (w * ?bpp) img fs @ rest) im"
    by blast
  moreover have "png_pixels km (?s'\<lparr>kmallocs := kmallocs ?s' + 1\<rparr>) (filtered ?bpp (w * ?bpp) img fs @ rest) im =
      Some (0, \<lparr>img_width = of_nat w, img_height = of_nat ?h, img_pixels = Some (map (pixel_of t img) [0..<w * ?h]), \<dots> = png_image.more im\<rparr>)"
    by (rule png_pixels_spec [OF assms(1,2,3) _ assms(5,6)]) (use assms(4) in simp_all)
  ultimately show ?thesis
    using scan sig by (simp add: png_decode_def)
qed

text \<open>
  C7: A PNG file of stored blocks is decoded to its pixels: for every 8-bit RGB or RGBA image, every choice of row filters, every way
  to split the stream of stored blocks over IDAT chunks and any other chunks before, between and behind them, \<open>png_decode\<close> returns 0
  with the image's size and the ARGB value of every pixel. The compressed data must be at most 4096 bytes longer than the filtered rows,
  which is the room that the decoder reserves for them, memory must suffice and the sizes must fit the 32-bit counters.
\<close>

theorem png_roundtrip:
  assumes "\<forall>filt \<in> set fs. filt < 5" and "length img = length fs * (w * pixel_bytes t)" and "t = 2 \<or> t = 6"
    and "length fs * (w * pixel_bytes t + 1) + 4096 < 2 ^ 31" and "4 * (w * length fs) < 2 ^ 32" and "gives_memory km"
    and "idat_of parts = [h1, h2] @ stored_stream cs @ adler" and "cs \<noteq> []" and "\<forall>c \<in> set cs. length c < 65536"
    and "concat cs = filtered (pixel_bytes t) (w * pixel_bytes t) img fs"
    and "length (idat_of parts) \<le> length fs * (w * pixel_bytes t + 1) + 4096"
    and "parts_ok parts" and "length crc1 = 4" and "length crc2 = 4"
    and "length (png_file w (length fs) t parts crc1 crc2) < 2 ^ 31"
  shows "png_decode km (png_file w (length fs) t parts crc1 crc2) im =
    Some (0, im\<lparr>img_width := of_nat w, img_height := of_nat (length fs), img_pixels := Some (map (pixel_of t img) [0..<w * length fs])\<rparr>)"
proof -
  have "inflate_data (idat_of parts) (length fs * (w * pixel_bytes t + 1) + 1024) = Inr (filtered (pixel_bytes t) (w * pixel_bytes t) img fs)"
    using inflate_stored [OF assms(8,9), of "length fs * (w * pixel_bytes t + 1) + 1024" h1 h2 adler] assms(7,10) by (simp add: length_filtered)
  moreover have "idat_of parts \<noteq> []"
    using assms(7) by simp
  ultimately show ?thesis
    using png_decode_spec [OF assms(1-6) _ _ assms(11-15)] by (cases im) simp
qed

text \<open>A red and a blue pixel; the data chunk is split after its third byte.\<close>

theorem png_roundtrip_witness:
  "png_decode (\<lambda>i n. Some (replicate (unat n) 0))
     (png_file 2 1 2 [(lit ''gAMA'', [0, 0, 0, 1], [0, 0, 0, 0]), (IDAT, [0x78, 1, 1], [0, 0, 0, 0]),
        (IDAT, [7, 0, 0xF8, 0xFF, 0, 255, 0, 0, 0, 0, 255, 0, 0, 0, 0], [0, 0, 0, 0])] [0, 0, 0, 0] [0, 0, 0, 0])
     \<lparr>img_width = 0, img_height = 0, img_pixels = None\<rparr> =
   Some (0, \<lparr>img_width = 2, img_height = 1, img_pixels = Some [0xFFFF0000, 0xFF0000FF]\<rparr>)"
proof -
  let ?parts = "[(lit ''gAMA'', [0, 0, 0, 1], [0, 0, 0, 0]), (IDAT, [0x78, 1, 1], [0, 0, 0, 0]),
    (IDAT, [7, 0, 0xF8, 0xFF, 0, 255, 0, 0, 0, 0, 255, 0, 0, 0, 0], [0, 0, 0, 0])] :: (bytes \<times> bytes \<times> bytes) list"
  let ?img = "[255, 0, 0, 0, 0, 255] :: bytes"
  have "filtered (pixel_bytes 2) (2 * pixel_bytes 2) ?img [0] = [0, 255, 0, 0, 0, 0, 255]"
    by code_simp
  moreover have "stored_stream [[0, 255, 0, 0, 0, 0, 255]] = [1, 7, 0, 0xF8, 0xFF, 0, 255, 0, 0, 0, 0, 255]"
    by code_simp
  moreover have "map (pixel_of 2 ?img) [0, 1] = [0xFFFF0000, 0xFF0000FF]"
    by code_simp
  moreover have "gives_memory (\<lambda>i n. Some (replicate (unat n) 0))"
    by (simp add: gives_memory_def)
  moreover have "length (png_file 2 1 2 ?parts [0, 0, 0, 0] [0, 0, 0, 0]) < 2 ^ 31"
    by (simp add: png_file_def png_sig_def body_chunks_def png_chunk_def IHDR_def IDAT_def IEND_def)
  moreover have "parts_ok ?parts" "idat_of ?parts = [0x78, 1, 1, 7, 0, 0xF8, 0xFF, 0, 255, 0, 0, 0, 0, 255, 0, 0, 0, 0]"
    by (simp_all add: parts_ok_def idat_of_def IHDR_def IDAT_def IEND_def of_char_def)
  ultimately show ?thesis
    using png_roundtrip [where fs = "[0]" and img = ?img and w = 2 and t = 2 and km = "\<lambda>i n. Some (replicate (unat n) 0)" and parts = ?parts
      and ?h1.0 = "0x78" and ?h2.0 = 1 and cs = "[[0, 255, 0, 0, 0, 0, 255]]" and adler = "[0, 0, 0, 0]" and ?crc1.0 = "[0, 0, 0, 0]" and ?crc2.0 = "[0, 0, 0, 0]"
      and im = "\<lparr>img_width = 0, img_height = 0, img_pixels = None\<rparr>"]
    by (simp add: pixel_bytes_def upt_rec del: upt_Suc)
qed

section \<open>A length that wraps\<close>

definition stuck_at :: "bytes \<Rightarrow> nat \<Rightarrow> bool" where
  "stuck_at data p \<longleftrightarrow> p + 12 \<le> length data \<and> length data < 2 ^ 32 \<and> take 4 (drop p data) = [0xFF, 0xFF, 0xFF, 0xF4] \<and>
     take 4 (drop (p + 4) data) \<notin> {IHDR, IDAT, IEND}"

lemma stuck_never_ends:
  assumes "png_chunks km data pos s = Some r"
  shows "\<not> stuck_at data (unat pos)"
proof (rule png_chunks.raw_induct [OF _ assms, where P = "\<lambda>km data pos s r. \<not> stuck_at data (unat pos)"])
  fix f :: "(nat \<Rightarrow> u32 \<Rightarrow> bytes option) \<Rightarrow> bytes \<Rightarrow> u32 \<Rightarrow> png_scan \<Rightarrow> (int + png_scan) option" and km data pos s r
  assume IH: "\<And>km data pos s r. f km data pos s = Some r \<Longrightarrow> \<not> stuck_at data (unat pos)"
    and e: "(if pos + 12 \<le> of_nat (length data) then
        Option.bind (rd32be data (unat pos)) (\<lambda>chunk_len.
        Option.bind (rdn data (unat pos + 4) 4) (\<lambda>chunk_type.
          if of_nat (length data) < pos + 12 + chunk_len then Some (Inr s)
          else Option.bind (chunk_step km data (unat pos + 8) chunk_type chunk_len s) (\<lambda>r.
            case r of
              Inl e \<Rightarrow> Some (Inl e)
            | Inr s \<Rightarrow> if chunk_type = IEND then Some (Inr s) else f km data (pos + (12 + chunk_len)) s)))
      else Some (Inr s)) = Some r"
  show "\<not> stuck_at data (unat pos)"
  proof
    assume stuck: "stuck_at data (unat pos)"
    let ?t = "take 4 (drop (unat pos + 4) data)"
    have len: "unat pos + 12 \<le> length data" "length data < 2 ^ 32" and ty: "?t \<noteq> IHDR" "?t \<noteq> IDAT" "?t \<noteq> IEND"
      and fc: "take 4 (drop (unat pos) data) = [0xFF, 0xFF, 0xFF, 0xF4]"
      using stuck by (simp_all add: stuck_at_def)
    have "unat (pos + 12) = unat pos + 12"
      using unat_add_small32 [of pos 12] len by simp
    then have 1: "pos + 12 \<le> of_nat (length data)" and 2: "\<not> of_nat (length data) < pos"
      using len by (simp_all add: word_le_nat_alt word_less_nat_alt)
    have 3: "rd32be data (unat pos) = Some 0xFFFFFFF4"
    proof -
      have "data ! (unat pos + k) = [0xFF, 0xFF, 0xFF, 0xF4] ! k" if "k < 4" for k
        using that len(1) by (subst fc [symmetric]) simp
      from this [of 0] this [of 1] this [of 2] this [of 3] show ?thesis
        using len(1) by (simp add: rd32be_def join32_def)
    qed
    have 4: "rdn data (unat pos + 4) 4 = Some ?t"
      using len(1) by (simp add: rdn_def)
    have w: "pos + 12 + 0xFFFFFFF4 = pos" "pos + (12 + 0xFFFFFFF4) = pos"
      by simp_all
    have "f km data pos s = Some r"
      using e ty unfolding 3 4 bind.bind_lunit w by (simp add: 1 2 chunk_step_def)
    then show False
      using IH stuck by blast
  qed
qed

text \<open>
  A chunk length can stop the decoder from ever returning: when the first chunk of a file has the length
  0xFFFFFFF4 and a type other than the three that are handled, the position wraps back to the same chunk, for
  every content behind it and every allocator.
\<close>

theorem png_chunk_hangs:
  assumes "length t = 4" and "t \<notin> {IHDR, IDAT, IEND}" and "4 \<le> length rest" and "length rest < 2 ^ 31"
  shows "png_decode km (png_sig @ [0xFF, 0xFF, 0xFF, 0xF4] @ t @ rest) img = None"
proof -
  let ?data = "png_sig @ [0xFF, 0xFF, 0xFF, 0xF4] @ t @ rest"
  have "stuck_at ?data (unat (8 :: u32))"
    using assms by (simp add: stuck_at_def png_sig_def)
  then have "png_chunks km ?data 8 scan_start = None"
    using stuck_never_ends [of km ?data 8 scan_start] by (cases "png_chunks km ?data 8 scan_start") auto
  then show ?thesis
    by (simp add: png_decode_def png_sig_def)
qed

theorem png_chunk_hangs_witness:
  "png_decode (\<lambda>i n. None) (png_sig @ [0xFF, 0xFF, 0xFF, 0xF4] @ lit ''tEXt'' @ [0, 0, 0, 0]) \<lparr>img_width = 0, img_height = 0, img_pixels = None\<rparr> = None"
  by (rule png_chunk_hangs) (simp_all add: IHDR_def IDAT_def IEND_def of_char_def)

end
