(* ===== verification/Iso9660.thy ===== *)
theory Iso9660
  imports CmdText
begin

text \<open>
  The CD-ROM reader, \<open>src/src/iso9660.c\<close>: finding a file by its path and reading it.

  \<open>rd lba n\<close> is what \<open>disk_read_lba_cdrom\<close> delivers from \<open>n\<close> blocks of 512 bytes, \<open>None\<close> for an error. The static
  buffers are always filled by the call that then reads them, so they are the values these calls
  return. A path is the list of its characters without the terminator. \<open>None\<close> as a result is an
  access outside a buffer.
\<close>

section \<open>Definitions\<close>

fun iso_strcmp :: "bytes \<Rightarrow> bytes \<Rightarrow> nat \<Rightarrow> int" where
  "iso_strcmp a b 0 = 0"
| "iso_strcmp a b (Suc len) =
     (let ca = upper8 (peek a); cb = upper8 (peek b)
      in if ca \<noteq> cb then sint ca - sint cb else if ca = 0 then 0 else iso_strcmp (tl a) (tl b) len)"

text \<open>The name of the directory entry at \<open>entry\<close>, from its \<open>k\<close>-th character on; \<open>n\<close> steps are left of the limit 127.\<close>

fun iso_clean_name :: "bytes \<Rightarrow> nat \<Rightarrow> nat \<Rightarrow> nat \<Rightarrow> nat \<Rightarrow> bytes option" where
  "iso_clean_name buf entry name_len k 0 = Some []"
| "iso_clean_name buf entry name_len k (Suc n) =
     (if name_len \<le> k then Some []
      else do {
        c \<leftarrow> rd8 buf (entry + 33 + k);
        d \<leftarrow> (if c = 0x2E \<and> k \<noteq> name_len - 1 then rd8 buf (entry + 33 + k + 1) else Some 0);
        if c = 0x3B \<or> c = 0x2E \<and> (k = name_len - 1 \<or> d = 0x3B) then Some []
        else map_option (Cons c) (iso_clean_name buf entry name_len (k + 1) n)
      })"

fun name_matches :: "bytes \<Rightarrow> bytes \<Rightarrow> bool" where
  "name_matches f c =
     (if peek f \<noteq> 0 \<and> peek c \<noteq> 0
      then upper8 (peek f) = upper8 (peek c) \<and> name_matches (tl f) (tl c)
      else peek f = 0 \<and> peek c = 0)"

declare name_matches.simps [simp del]

text \<open>The search of one directory sector; \<open>Some None\<close> goes on with the next sector.\<close>

function find_in_sector :: "bytes \<Rightarrow> bytes \<Rightarrow> nat \<Rightarrow> (u32 \<times> u32) option option" where
  "find_in_sector filename buf offset =
     (if offset < 2048 then do {
        entry_len \<leftarrow> rd8 buf offset;
        if entry_len = 0 then Some None
        else do {
          name_len \<leftarrow> rd8 buf (offset + 32);
          found \<leftarrow> (if 0 < name_len then map_option (name_matches filename) (iso_clean_name buf offset (unat name_len) 0 127) else Some False);
          if found then do { lba \<leftarrow> rd32le buf (offset + 2); size \<leftarrow> rd32le buf (offset + 10); Some (Some (lba, size)) }
          else find_in_sector filename buf (offset + unat entry_len)
        }
      }
      else Some None)"
  by auto
termination
  by (relation "measure (\<lambda>(f, b, offset). 2048 - offset)") (auto simp: word_gt_0 unat_gt_0 intro!: diff_less_mono2)

declare find_in_sector.simps [simp del]

text \<open>\<open>n\<close> sectors of the directory are left, from sector \<open>s\<close> on.\<close>

fun find_in_sectors :: "(u32 \<Rightarrow> u32 \<Rightarrow> bytes option) \<Rightarrow> u32 \<Rightarrow> bytes \<Rightarrow> nat \<Rightarrow> u32 \<Rightarrow> (u32 \<times> u32) option option" where
  "find_in_sectors rd dir_lba filename 0 s = Some None"
| "find_in_sectors rd dir_lba filename (Suc n) s =
     (case rd ((dir_lba + s) * 4) 4 of
        None \<Rightarrow> Some None
      | Some buf \<Rightarrow>
          (case find_in_sector filename buf 0 of
             None \<Rightarrow> None
           | Some (Some e) \<Rightarrow> Some (Some e)
           | Some None \<Rightarrow> find_in_sectors rd dir_lba filename n (s + 1)))"

definition iso9660_find_in_dir :: "(u32 \<Rightarrow> u32 \<Rightarrow> bytes option) \<Rightarrow> u32 \<Rightarrow> u32 \<Rightarrow> bytes \<Rightarrow> (u32 \<times> u32) option option" where
  "iso9660_find_in_dir rd dir_lba dir_size filename =
     (let sectors_total = (dir_size + 2047) div 2048; sectors_total = (if 32 < sectors_total then 32 else sectors_total)
      in find_in_sectors rd dir_lba filename (unat sectors_total) 0)"

definition path_component :: "bytes \<Rightarrow> bytes" where
  "path_component p = take 63 (takeWhile (\<lambda>c. c \<noteq> 0x2F) p)"

definition path_rest :: "bytes \<Rightarrow> bytes" where
  "path_rest p = (let p = drop (length (path_component p)) p in if peek p = 0x2F then tl p else p)"

lemma path_rest_less [termination_simp]: "p \<noteq> [] \<Longrightarrow> length (path_rest p) < length p"
  by (cases p) (auto simp: path_rest_def path_component_def Let_def)

fun iso_walk :: "(u32 \<Rightarrow> u32 \<Rightarrow> bytes option) \<Rightarrow> u32 \<Rightarrow> u32 \<Rightarrow> bytes \<Rightarrow> (u32 \<times> u32) option option" where
  "iso_walk rd cur_lba cur_size p =
     (if p = [] then Some None
      else do {
        r \<leftarrow> iso9660_find_in_dir rd cur_lba cur_size (path_component p);
        case r of
          None \<Rightarrow> Some None
        | Some (next_lba, next_size) \<Rightarrow>
            if path_rest p = [] then Some (Some (next_lba, next_size)) else iso_walk rd next_lba next_size (path_rest p)
      })"

declare iso_walk.simps [simp del]

definition iso9660_find_file :: "(u32 \<Rightarrow> u32 \<Rightarrow> bytes option) \<Rightarrow> bytes \<Rightarrow> (u32 \<times> u32) option option" where
  "iso9660_find_file rd path =
     (case rd 64 4 of
        None \<Rightarrow> Some None
      | Some root \<Rightarrow> do {
          magic \<leftarrow> rdn root 1 5;
          if magic \<noteq> [0x43, 0x44, 0x30, 0x30, 0x31] then Some None
          else do {
            lba \<leftarrow> rd32le root (156 + 2);
            size \<leftarrow> rd32le root (156 + 10);
            iso_walk rd lba size (if peek path = 0x2F then tl path else path)
          }
        })"

definition iso9660_read_file :: "(u32 \<Rightarrow> u32 \<Rightarrow> bytes option) \<Rightarrow> bytes \<Rightarrow> bytes \<Rightarrow> u32 \<Rightarrow> (int \<times> bytes) option" where
  "iso9660_read_file rd filename buffer max_size = do {
     r \<leftarrow> iso9660_find_file rd filename;
     case r of
       None \<Rightarrow> Some (-1, buffer)
     | Some (lba, file_size) \<Rightarrow>
         let n = (if max_size < file_size then max_size else file_size); sectors = (n + 511) div 512
         in case rd (lba * 4) sectors of
              None \<Rightarrow> Some (-1, buffer)
            | Some d \<Rightarrow> map_option (\<lambda>b. (sint n, b)) (wrn buffer 0 d)
   }"

section \<open>Names\<close>

text \<open>The name of a record: up to the version, without a final dot.\<close>

definition plain_name :: "bytes \<Rightarrow> bytes" where
  "plain_name n = (let b = takeWhile (\<lambda>c. c \<noteq> 0x3B) n in if b \<noteq> [] \<and> last b = 0x2E then butlast b else b)"

lemma name_matches_iff: "name_matches f c \<longleftrightarrow> fold_case f = fold_case c"
proof (induction f c rule: name_matches.induct)
  case (1 f c)
  then show ?case
    by (subst name_matches.simps, unfold fold_case_def, subst (1 2) cstr_unfold) auto
qed

lemma plain_name_simps:
  "plain_name [] = []"
  "plain_name (c # n) = (if c = 0x3B \<or> c = 0x2E \<and> (n = [] \<or> hd n = 0x3B) then [] else c # plain_name n)"
  by (simp add: plain_name_def) (cases n; auto simp: plain_name_def Let_def)

lemma iso_clean_name_plain:
  "entry + 33 + k + length n \<le> length buf \<Longrightarrow> take (length n) (drop (entry + 33 + k) buf) = n \<Longrightarrow> name_len = k + length n \<Longrightarrow>
    length n \<le> room \<Longrightarrow> iso_clean_name buf entry name_len k room = Some (plain_name n)"
proof (induction n arbitrary: k room)
  case Nil
  then show ?case
    by (cases room) (simp_all add: plain_name_simps)
next
  case (Cons c n)
  then obtain room' where room: "room = Suc room'" "length n \<le> room'"
    by (cases room) auto
  let ?p = "entry + 33 + k"
  have drop: "drop ?p buf = buf ! ?p # drop (Suc ?p) buf"
    using Cons.prems(1) by (intro Cons_nth_drop_Suc [symmetric]) simp
  then have c: "buf ! ?p = c" and n: "take (length n) (drop (entry + 33 + (k + 1)) buf) = n"
    using Cons.prems(2) by simp_all
  have d: "rd8 buf (?p + 1) = Some (hd n)" if "n \<noteq> []"
  proof -
    have "buf ! (?p + 1) = n ! 0"
      using that Cons.prems(1) by (subst n [symmetric]) simp
    then show ?thesis
      using that Cons.prems(1) by (cases n) (simp_all add: rd8_def)
  qed
  have "iso_clean_name buf entry name_len (k + 1) room' = Some (plain_name n)"
    using Cons.prems(1,3) room(2) n by (intro Cons.IH) simp_all
  moreover have "rd8 buf ?p = Some c"
    using Cons.prems(1) c by (simp add: rd8_def)
  moreover have "(name_len - 1 = k) \<longleftrightarrow> n = []"
    using Cons.prems(3) by simp
  ultimately show ?case
    using Cons.prems(3) d unfolding room(1) by (cases "n = []") (auto simp: plain_name_simps)
qed

end
