(* ===== verification/IsoFacts.thy ===== *)
theory IsoFacts
  imports Iso9660
begin

text \<open>
  What the CD-ROM reader finds: on a disc whose directories are lists of records, a path leads to
  what the records say, component by component, and a file is read when the buffer takes whole blocks.
\<close>

section \<open>Directories as lists of records\<close>

text \<open>The fields that the reader ignores are \<open>r_head\<close>, the second byte, \<open>r_info\<close>, the 14 bytes behind the size, and \<open>r_pad\<close>.\<close>

record iso_rec =
  r_name :: bytes
  r_lba :: u32
  r_size :: u32
  r_head :: u8
  r_info :: bytes
  r_pad :: bytes

definition rec_bytes :: "iso_rec \<Rightarrow> bytes" where
  "rec_bytes r =
     [of_nat (33 + length (r_name r) + length (r_pad r)), r_head r] @ put32le (r_lba r) @ put32be (r_lba r)
       @ put32le (r_size r) @ put32be (r_size r) @ r_info r @ [of_nat (length (r_name r))] @ r_name r @ r_pad r"

definition rec_ok :: "iso_rec \<Rightarrow> bool" where
  "rec_ok r \<longleftrightarrow> 0 < length (r_name r) \<and> length (r_name r) \<le> 127 \<and> length (r_name r) + length (r_pad r) < 223 \<and> length (r_info r) = 14"

definition sector_of :: "iso_rec list \<Rightarrow> bytes" where
  "sector_of rs = (let d = concat (map rec_bytes rs) in d @ replicate (2048 - length d) 0)"

definition is_named :: "bytes \<Rightarrow> iso_rec \<Rightarrow> bool" where
  "is_named f r \<longleftrightarrow> fold_case (plain_name (r_name r)) = fold_case f"

definition extent :: "iso_rec \<Rightarrow> u32 \<times> u32" where
  "extent r = (r_lba r, r_size r)"

text \<open>The directory at an extent holds the records, sector by sector.\<close>

definition dir_at :: "(u32 \<Rightarrow> u32 \<Rightarrow> bytes option) \<Rightarrow> u32 \<times> u32 \<Rightarrow> iso_rec list list \<Rightarrow> bool" where
  "dir_at rd d rss \<longleftrightarrow> length rss \<le> 32 \<and> unat (snd d) = 2048 * length rss \<and>
     (\<forall>s < length rss. rd ((fst d + of_nat s) * 4) 4 = Some (sector_of (rss ! s)) \<and>
        (\<forall>r \<in> set (rss ! s). rec_ok r) \<and> length (concat (map rec_bytes (rss ! s))) \<le> 2048)"

lemma length_rec_bytes: "rec_ok r \<Longrightarrow> length (rec_bytes r) = 33 + length (r_name r) + length (r_pad r)"
  by (simp add: rec_bytes_def rec_ok_def)

lemma unat_of_nat8 [simp]: "n < 256 \<Longrightarrow> unat (of_nat n :: u8) = n"
  by (simp add: unsigned_of_nat take_bit_nat_eq_self)

lemma rec_fields:
  assumes "rec_ok r" and "buf = pre @ rec_bytes r @ rest"
  shows "rd8 buf (length pre) = Some (of_nat (length (rec_bytes r)))"
    and "rd8 buf (length pre + 32) = Some (of_nat (length (r_name r)))"
    and "rd32le buf (length pre + 2) = Some (r_lba r)" and "rd32le buf (length pre + 10) = Some (r_size r)"
    and "iso_clean_name buf (length pre) (length (r_name r)) 0 127 = Some (plain_name (r_name r))"
proof -
  have len: "length (r_info r) = 14" "length (r_name r) \<le> 127"
    using assms(1) by (simp_all add: rec_ok_def)
  have nth: "buf ! (length pre + k) = (rec_bytes r @ rest) ! k" for k
    by (simp add: assms(2))
  show "rd8 buf (length pre) = Some (of_nat (length (rec_bytes r)))"
    by (simp add: assms rd8_def length_rec_bytes nth_append) (simp add: rec_bytes_def)
  show "rd8 buf (length pre + 32) = Some (of_nat (length (r_name r)))"
    using len by (simp add: rd8_def nth) (simp add: assms(2) rec_bytes_def put32le_def put32be_def nth_append)
  have le: "rd32le (a @ put32le v @ b) (length a) = Some v" for a b v
    by (simp add: rd32le_def put32le_def nth_append)
  show "rd32le buf (length pre + 2) = Some (r_lba r)"
    using le [of "pre @ [of_nat (33 + length (r_name r) + length (r_pad r)), r_head r]" "r_lba r"] by (simp add: assms(2) rec_bytes_def)
  show "rd32le buf (length pre + 10) = Some (r_size r)"
    using le [of "pre @ [of_nat (33 + length (r_name r) + length (r_pad r)), r_head r] @ put32le (r_lba r) @ put32be (r_lba r)" "r_size r"]
    by (simp add: assms(2) rec_bytes_def)
  show "iso_clean_name buf (length pre) (length (r_name r)) 0 127 = Some (plain_name (r_name r))"
    using len by (intro iso_clean_name_plain) (simp_all add: assms(2) rec_bytes_def put32le_def put32be_def)
qed

lemma find_in_sector_records:
  assumes "\<forall>r \<in> set rs. rec_ok r" and "length (pre @ concat (map rec_bytes rs)) \<le> 2048"
  shows "find_in_sector f (pre @ concat (map rec_bytes rs) @ replicate (2048 - length (pre @ concat (map rec_bytes rs))) 0) (length pre) =
    Some (map_option extent (find (is_named f) rs))"
  using assms
proof (induction rs arbitrary: pre)
  case Nil
  then show ?case
    by (subst find_in_sector.simps) (simp add: rd8_def nth_append)
next
  case (Cons r rs)
  define z :: bytes where "z = replicate (2048 - length ((pre @ rec_bytes r) @ concat (map rec_bytes rs))) 0"
  let ?rest = "concat (map rec_bytes rs) @ z"
  let ?buf = "pre @ rec_bytes r @ ?rest"
  have ok: "rec_ok r"
    using Cons.prems(1) by simp
  have buf: "pre @ concat (map rec_bytes (r # rs)) @ replicate (2048 - length (pre @ concat (map rec_bytes (r # rs)))) 0 = ?buf"
    by (simp add: z_def add.assoc)
  have "find_in_sector f ((pre @ rec_bytes r) @ ?rest) (length (pre @ rec_bytes r)) = Some (map_option extent (find (is_named f) rs))"
    unfolding z_def using Cons.prems by (intro Cons.IH) simp_all
  then have step: "find_in_sector f ?buf (length pre + length (rec_bytes r)) = Some (map_option extent (find (is_named f) rs))"
    by simp
  have n: "0 < length (r_name r)" "length (r_name r) < 256" "length (rec_bytes r) < 256" "0 < length (rec_bytes r)" "length pre < 2048"
    using ok Cons.prems(2) length_rec_bytes [OF ok] by (simp_all add: rec_ok_def)
  have w: "(of_nat (length (rec_bytes r)) :: u8) \<noteq> 0" "0 < (of_nat (length (r_name r)) :: u8)"
    using n by (simp_all add: word_unat_eq_iff word_less_nat_alt)
  show ?case
    unfolding buf by (subst find_in_sector.simps)
      (simp add: rec_fields [OF ok refl] n w step name_matches_iff is_named_def extent_def eq_commute [of "fold_case f"] del: add_2_eq_Suc' append_assoc)
qed

section \<open>Paths\<close>

lemma find_sectors_records:
  assumes "dir_at rd (lba, n) rss"
  shows "s + k = length rss \<Longrightarrow> find_in_sectors rd lba f k (of_nat s) = Some (map_option extent (find (is_named f) (concat (drop s rss))))"
proof (induction k arbitrary: s)
  case (Suc k)
  then have s: "s < length rss" and d: "drop s rss = rss ! s # drop (s + 1) rss"
    by (simp_all add: Cons_nth_drop_Suc)
  have app: "find P (as @ bs) = (case find P as of Some x \<Rightarrow> Some x | None \<Rightarrow> find P bs)" for P and as bs :: "iso_rec list"
    by (induction as) auto
  have "rd ((lba + of_nat s) * 4) 4 = Some (sector_of (rss ! s))" "find_in_sector f (sector_of (rss ! s)) 0 = Some (map_option extent (find (is_named f) (rss ! s)))"
    using assms s find_in_sector_records [of "rss ! s" "[]" f] by (simp_all add: dir_at_def sector_of_def Let_def)
  moreover have "find_in_sectors rd lba f k (of_nat s + 1) = Some (map_option extent (find (is_named f) (concat (drop (s + 1) rss))))"
    using Suc.IH [of "s + 1"] Suc.prems by (simp add: add.commute)
  ultimately show ?case
    by (simp add: d app split: option.split)
qed simp

lemma find_in_dir_records:
  assumes "dir_at rd (lba, n) rss"
  shows "iso9660_find_in_dir rd lba n f = Some (map_option extent (find (is_named f) (concat rss)))"
proof -
  have n: "unat n = 2048 * length rss" "length rss \<le> 32"
    using assms by (simp_all add: dir_at_def)
  then have "unat (n + 2047) = 2048 * length rss + 2047"
    by (simp add: unat_word_ariths)
  then have t: "unat ((n + 2047) div 2048) = length rss"
    by (simp add: unat_div)
  then have "\<not> 32 < (n + 2047) div 2048"
    using n(2) by (simp add: word_less_nat_alt)
  then show ?thesis
    using find_sectors_records [OF assms, of 0 "length rss" f] t by (simp add: iso9660_find_in_dir_def Let_def)
qed

text \<open>
  Walking from an extent along the components of a path: each names the first record of that name in the
  directory; the walk ends with the extent of the last, or with nothing where a name is missing.
\<close>

inductive leads :: "(u32 \<Rightarrow> u32 \<Rightarrow> bytes option) \<Rightarrow> u32 \<times> u32 \<Rightarrow> bytes list \<Rightarrow> (u32 \<times> u32) option \<Rightarrow> bool" for rd where
  leads_end: "leads rd d [] (Some d)"
| leads_step: "dir_at rd d rss \<Longrightarrow> find (is_named c) (concat rss) = Some r \<Longrightarrow> leads rd (extent r) cs e \<Longrightarrow> leads rd d (c # cs) e"
| leads_missing: "dir_at rd d rss \<Longrightarrow> find (is_named c) (concat rss) = None \<Longrightarrow> leads rd d (c # cs) None"

definition component_ok :: "bytes \<Rightarrow> bool" where
  "component_ok c \<longleftrightarrow> 0 < length c \<and> length c \<le> 63 \<and> 0x2F \<notin> set c \<and> 0 \<notin> set c"

fun path_of :: "bytes list \<Rightarrow> bytes" where
  "path_of [] = []"
| "path_of [c] = c"
| "path_of (c # cs) = c @ 0x2F # path_of cs"

lemma path_of_Cons: "path_of (c # cs) = c @ (if cs = [] then [] else 0x2F # path_of cs)"
  by (cases cs) simp_all

lemma path_of_nonempty: "cs \<noteq> [] \<Longrightarrow> \<forall>c \<in> set cs. component_ok c \<Longrightarrow> path_of cs \<noteq> []"
  by (cases cs) (auto simp: path_of_Cons component_ok_def)

lemma component_of_path:
  assumes "component_ok c"
  shows "path_component (path_of (c # cs)) = c" and "path_rest (path_of (c # cs)) = path_of cs"
proof -
  have "\<forall>x \<in> set c. x \<noteq> 0x2F"
    using assms by (auto simp: component_ok_def)
  then have "takeWhile (\<lambda>x. x \<noteq> 0x2F) (path_of (c # cs)) = c"
    by (subst path_of_Cons) (simp add: takeWhile_append2 takeWhile_eq_all_conv)
  then show "path_component (path_of (c # cs)) = c"
    using assms by (simp add: path_component_def component_ok_def)
  then show "path_rest (path_of (c # cs)) = path_of cs"
    by (simp add: path_rest_def path_of_Cons)
qed

lemma walk_leads:
  assumes "leads rd d cs e"
  shows "cs \<noteq> [] \<Longrightarrow> \<forall>c \<in> set cs. component_ok c \<Longrightarrow> iso_walk rd (fst d) (snd d) (path_of cs) = Some e"
  using assms
proof induction
  case (leads_step d rss c r cs e)
  have "iso9660_find_in_dir rd (fst d) (snd d) c = Some (Some (extent r))"
    using find_in_dir_records [of rd "fst d" "snd d" rss c] leads_step.hyps(1,2) by simp
  moreover have "path_of (c # cs) \<noteq> []" "component_ok c"
    using leads_step.prems path_of_nonempty [of "c # cs"] by simp_all
  moreover have "cs = [] \<Longrightarrow> e = Some (extent r)"
    using leads_step.hyps(3) by (auto elim: leads.cases)
  ultimately show ?case
    using leads_step component_of_path [of c cs] path_of_nonempty [of cs]
    by (subst iso_walk.simps) (cases "cs = []"; auto simp: extent_def)
next
  case (leads_missing d rss c cs)
  have "iso9660_find_in_dir rd (fst d) (snd d) c = Some None"
    using find_in_dir_records [of rd "fst d" "snd d" rss c] leads_missing.hyps by simp
  then show ?case
    using leads_missing.prems component_of_path [of c cs] path_of_nonempty [of "c # cs"] by (subst iso_walk.simps) auto
qed simp

section \<open>Files\<close>

lemma blocks_suffice: "n \<le> 512 * ((n + 511) div (512 :: nat))"
  using div_mult_mod_eq [of "n + 511" 512] mod_less_divisor [of 512 "n + 511"] by linarith

lemma blocks_exceed: "n mod 512 \<noteq> 0 \<Longrightarrow> n < 512 * ((n + 511) div (512 :: nat))"
  using blocks_suffice [of n] by (metis le_neq_implies_less mod_mult_self1_is_0)

text \<open>The primary volume descriptor names the root directory.\<close>

definition volume :: "(u32 \<Rightarrow> u32 \<Rightarrow> bytes option) \<Rightarrow> u32 \<times> u32 \<Rightarrow> bool" where
  "volume rd d \<longleftrightarrow> (\<exists>b. rd 64 4 = Some b \<and> rdn b 1 5 = Some (lit ''CD001'') \<and> rd32le b 158 = Some (fst d) \<and> rd32le b 166 = Some (snd d))"

lemma find_file_leads:
  assumes "volume rd root" and "leads rd root cs e" and "cs \<noteq> []" and "\<forall>c \<in> set cs. component_ok c" and "slash = [] \<or> slash = [0x2F]"
  shows "iso9660_find_file rd (slash @ path_of cs) = Some e"
proof -
  obtain b where b: "rd 64 4 = Some b" "rdn b 1 5 = Some [0x43, 0x44, 0x30, 0x30, 0x31]" "rd32le b 158 = Some (fst root)" "rd32le b 166 = Some (snd root)"
    using assms(1) by (auto simp: volume_def of_char_def)
  have "peek (path_of cs) \<noteq> 0x2F"
    using assms(3,4) by (cases cs) (auto simp: path_of_Cons component_ok_def peek_def split: list.split)
  then have "(if peek (slash @ path_of cs) = 0x2F then tl (slash @ path_of cs) else slash @ path_of cs) = path_of cs"
    using assms(5) by auto
  then show ?thesis
    using walk_leads [OF assms(2-4)] b by (simp add: iso9660_find_file_def)
qed

text \<open>
  C24: Cx: A path on a CD-ROM leads to what the directories say: on a volume whose directories are lists of
  records, \<open>iso9660_find_file\<close> returns the extent reached by taking, for each component, the first record of that name up to
  case, version and final dot, and nothing where a name is missing, with or without a slash in front.
\<close>

theorem iso_find_file_path:
  assumes "volume rd root" and "leads rd root cs e" and "cs \<noteq> []" and "\<forall>c \<in> set cs. component_ok c" and "slash = [] \<or> slash = [0x2F]"
  shows "iso9660_find_file rd (slash @ path_of cs) = Some e"
  by (rule find_file_leads [OF assms])

definition sample_rec :: "char list \<Rightarrow> u32 \<Rightarrow> u32 \<Rightarrow> iso_rec" where
  "sample_rec n lba len = \<lparr>r_name = lit n, r_lba = lba, r_size = len, r_head = 0, r_info = replicate 14 0, r_pad = []\<rparr>"

definition sample_disc :: "u32 \<Rightarrow> u32 \<Rightarrow> bytes option" where
  "sample_disc lba n =
     (if lba = 64 then Some ([1] @ lit ''CD001'' @ replicate 152 0 @ put32le 20 @ put32be 20 @ put32le 2048 @ put32be 2048 @ replicate 1874 0)
      else if lba = 80 then Some (sector_of [sample_rec ''ICONS'' 21 2048])
      else if lba = 84 then Some (sector_of [sample_rec ''A.;1'' 22 5, sample_rec ''B.BMP;1'' 23 600])
      else if lba = 92 then Some (replicate (512 * unat n) 7)
      else None)"

lemma sample_volume: "volume sample_disc (20, 2048)"
  by (simp add: volume_def sample_disc_def rdn_def rd32le_def put32le_def put32be_def join32_def nth_append of_char_def)

lemma sample_leads: "leads sample_disc (20, 2048) [lit ''icons'', lit ''b.bmp''] (Some (23, 600))"
proof (rule leads.intros(2) [where rss = "[[sample_rec ''ICONS'' 21 2048]]" and r = "sample_rec ''ICONS'' 21 2048"])
  show "leads sample_disc (extent (sample_rec ''ICONS'' 21 2048)) [lit ''b.bmp''] (Some (23, 600))"
  proof (rule leads.intros(2) [where rss = "[[sample_rec ''A.;1'' 22 5, sample_rec ''B.BMP;1'' 23 600]]" and r = "sample_rec ''B.BMP;1'' 23 600"])
    show "leads sample_disc (extent (sample_rec ''B.BMP;1'' 23 600)) [] (Some (23, 600))"
      using leads_end [of sample_disc "(23, 600)"] by (simp add: extent_def sample_rec_def)
  qed (simp_all add: dir_at_def extent_def sample_rec_def sample_disc_def rec_ok_def rec_bytes_def is_named_def plain_name_simps fold_case_def upper8_def of_char_def)
qed (simp_all add: dir_at_def sample_rec_def sample_disc_def rec_ok_def rec_bytes_def is_named_def plain_name_simps fold_case_def upper8_def of_char_def)

theorem iso_find_file_path_witness: "iso9660_find_file sample_disc ([0x2F] @ path_of [lit ''icons'', lit ''b.bmp'']) = Some (Some (23, 600))"
  by (rule iso_find_file_path [OF sample_volume sample_leads]) (simp_all add: component_ok_def of_char_def)

text \<open>
  Reading a file from a CD-ROM gives its first bytes when the buffer has room for whole blocks: the result is
  the size, cut to the given maximum, and the buffer starts with what the disc holds.
\<close>

theorem iso_read_file_contents:
  assumes "iso9660_find_file rd path = Some (Some (lba, len))" and "n = min len max_size" and "unat n < 2 ^ 31"
    and "rd (lba * 4) ((n + 511) div 512) = Some d" and "length d = 512 * ((unat n + 511) div 512)" and "length d \<le> length buffer"
  shows "\<exists>b. iso9660_read_file rd path buffer max_size = Some (int (unat n), b) \<and> take (unat n) b = take (unat n) d \<and> length b = length buffer"
proof -
  obtain b where b: "wrn buffer 0 d = Some b"
    using assms(6) wrn_Some_iff [of buffer 0 d] by auto
  have "uint n < 2 ^ 31"
    using assms(3) by (simp only: unat_eq_nat_uint nat_less_numeral_power_cancel_iff)
  then have "signed_take_bit 31 (uint n) = uint n"
    using order.trans [OF _ uint_ge_0, of "- (2 ^ 31)" n] by (intro signed_take_bit_int_eq_self) simp_all
  then have "sint n = int (unat n)"
    by (simp add: sint_uint)
  moreover have "unat n \<le> length d"
    unfolding assms(5) by (rule blocks_suffice)
  then have "take (unat n) b = take (unat n) d"
    using arg_cong [OF take_wrn [OF b], of "take (unat n)"] by simp
  moreover have "n = (if max_size < len then max_size else len)"
    using assms(2) by (auto simp: min_def not_le)
  ultimately show ?thesis
    using assms(1,4) b length_wrn [OF b] by (intro exI [of _ b]) (simp add: iso9660_read_file_def Let_def)
qed

theorem iso_read_file_contents_witness:
  "\<exists>b. iso9660_read_file sample_disc (path_of [lit ''icons'', lit ''b.bmp'']) (replicate 1024 0) 1000 = Some (600, b) \<and> take 600 b = replicate 600 7 \<and> length b = 1024"
proof -
  have "iso9660_find_file sample_disc (path_of [lit ''icons'', lit ''b.bmp'']) = Some (Some (23, 600))"
    using find_file_leads [OF sample_volume sample_leads, of "[]"] by (simp add: component_ok_def of_char_def)
  from iso_read_file_contents [OF this, of 600 1000 "replicate 1024 7" "replicate 1024 0"] show ?thesis
    by (simp add: sample_disc_def)
qed

text \<open>
  The size limit of a read does not protect the caller: when a file is longer than \<open>max_size\<close> and \<open>max_size\<close> is not a multiple of
  512, reading whole blocks writes behind a buffer of exactly \<open>max_size\<close> bytes.
\<close>

theorem iso_read_file_overrun:
  assumes "iso9660_find_file rd path = Some (Some (lba, len))" and "max_size < len" and "unat max_size mod 512 \<noteq> 0"
    and "\<forall>lba n. \<exists>d. rd lba n = Some d \<and> length d = 512 * unat n" and "length buffer = unat max_size" and "unat max_size < 2 ^ 31"
  shows "iso9660_read_file rd path buffer max_size = None"
proof -
  have "unat (max_size + 511) = unat max_size + 511"
    using assms(6) by (simp add: unat_word_ariths)
  then have u: "unat ((max_size + 511) div 512) = (unat max_size + 511) div 512"
    by (simp add: unat_div)
  obtain d where d: "rd (lba * 4) ((max_size + 511) div 512) = Some d" "length d = 512 * ((unat max_size + 511) div 512)"
    using assms(4) [rule_format, of "lba * 4" "(max_size + 511) div 512"] u by auto
  have "length buffer < length d"
    unfolding d(2) assms(5) by (rule blocks_exceed [OF assms(3)])
  then have "wrn buffer 0 d = None"
    by (simp add: wrn_def)
  then show ?thesis
    using assms(1,2) d(1) by (simp add: iso9660_read_file_def Let_def)
qed

end
