(* ===== verification/IconLoader.thy ===== *)
theory IconLoader
  imports KMath FsOps IsoFacts
begin

text \<open>
  The icon loader, \<open>src/src/icon_loader.c\<close>: a bitmap is fetched from AurionFS, from the CD-ROM or from raw
  sectors and scaled to 64 by 64 pixels by averaging 16 samples for each.

  The static buffer \<open>bmp_loader_data\<close> is passed and returned. \<open>hdd\<close> and \<open>rd\<close> are what the two disk drivers
  deliver from a block number and a count, \<open>None\<close> for an error. Signed products are reduced to 32 bits
  as the compiler's multiplication does. \<open>None\<close> as a result is an access outside the buffer.
\<close>

section \<open>Fetching\<close>

definition bmp_size :: int where
  "bmp_size = 1200000"

definition base_name :: "bytes \<Rightarrow> bytes" where
  "base_name path = rev (takeWhile (\<lambda>c. c \<noteq> 0x2F \<and> c \<noteq> 0x5C) (rev path))"

text \<open>A bitmap from raw sectors: the first block says how long it is. The buffer keeps its bytes where a read fails.\<close>

definition raw_block :: "(u32 \<Rightarrow> u32 \<Rightarrow> bytes option) \<Rightarrow> u32 \<Rightarrow> u32 \<Rightarrow> bytes \<Rightarrow> (bool \<times> bytes) option" where
  "raw_block dev lba n buf =
     (case dev lba n of
        None \<Rightarrow> Some (False, buf)
      | Some d \<Rightarrow> map_option (Pair True) (wrn buf 0 d))"

definition is_bmp :: "bytes \<Rightarrow> bool" where
  "is_bmp buf \<longleftrightarrow> take 2 buf = [0x42, 0x4D]"

definition raw_rest :: "(u32 \<Rightarrow> u32 \<Rightarrow> bytes option) \<Rightarrow> u32 \<Rightarrow> bytes \<Rightarrow> int \<Rightarrow> (int \<times> bytes) option" where
  "raw_rest dev lba buf n = do {
     s \<leftarrow> rd32le buf 2;
     if 0 < s \<and> s < of_int bmp_size then do { (ok, buf) \<leftarrow> raw_block dev lba ((s + 511) div 512) buf; Some (sint s, buf) }
     else Some (n, buf)
   }"

definition raw_bmp :: "(u32 \<Rightarrow> u32 \<Rightarrow> bytes option) \<Rightarrow> (u32 \<Rightarrow> u32 \<Rightarrow> bytes option) \<Rightarrow> int \<Rightarrow> bytes \<Rightarrow> int \<Rightarrow> (int \<times> bytes) option" where
  "raw_bmp hdd rd index buf n = do {
     let lba = of_int (60000 + index * 2000);
     (ok, buf) \<leftarrow> raw_block hdd lba 1 buf;
     if ok \<and> is_bmp buf then raw_rest hdd lba buf n
     else do {
       (ok, buf) \<leftarrow> raw_block rd lba 1 buf;
       if ok \<and> is_bmp buf then raw_rest rd lba buf n else Some (n, buf)
     }
   }"

definition fetch_bmp :: "'d aur \<Rightarrow> (u32 \<Rightarrow> u32 \<Rightarrow> bytes option) \<Rightarrow> (u32 \<Rightarrow> u32 \<Rightarrow> bytes option) \<Rightarrow> bytes \<Rightarrow> int \<Rightarrow> bytes \<Rightarrow> (int \<times> bytes) option" where
  "fetch_bmp fs hdd rd path index buf = do {
     (n, buf) \<leftarrow> load_file_content path buf bmp_size fs;
     if 0 < n then Some (n, buf)
     else do {
       (n, buf) \<leftarrow> iso9660_read_file rd path buf (of_int bmp_size);
       (n, buf) \<leftarrow> (if n \<le> 0 then iso9660_read_file rd (base_name path) buf (of_int bmp_size) else Some (n, buf));
       if n \<le> 0 \<and> 0 \<le> index then raw_bmp hdd rd index buf n else Some (n, buf)
     }
   }"

section \<open>Decoding and scaling\<close>

definition byte_at :: "bytes \<Rightarrow> int \<Rightarrow> u8 option" where
  "byte_at buf i = (if 0 \<le> i then rd8 buf (nat i) else None)"

text \<open>The edge of the area that the pixel \<open>n\<close> of 64 covers, in 16.16 fixed point, and a sample position in it.\<close>

definition area_edge :: "int \<Rightarrow> int \<Rightarrow> u32" where
  "area_edge n dim = of_int (cdiv (wrap32 (wrap32 (n * dim) * 2 ^ 16)) 64)"

definition sample_pos :: "int \<Rightarrow> int \<Rightarrow> nat \<Rightarrow> int" where
  "sample_pos n dim k =
     (let start = area_edge n dim; stop = area_edge (n + 1) dim
      in uint (drop_bit 16 (start + (stop - start) * of_nat k div 4)))"

definition row_stride :: "int \<Rightarrow> int \<Rightarrow> int" where
  "row_stride width pb = (let x = wrap32 (wrap32 (width * pb) + 3) in x - x mod 4)"

text \<open>A sample: blue, green, red, alpha.\<close>

definition bmp_sample :: "bytes \<Rightarrow> u32 \<Rightarrow> int \<Rightarrow> int \<Rightarrow> int \<Rightarrow> int \<Rightarrow> int \<Rightarrow> (u8 \<times> u8 \<times> u8 \<times> u8) option" where
  "bmp_sample buf offset width height pb y x = do {
     let p = uint offset + wrap32 ((height - 1 - y) * row_stride width pb) + x * pb;
     b \<leftarrow> byte_at buf (p + 0);
     g \<leftarrow> byte_at buf (p + 1);
     r \<leftarrow> byte_at buf (p + 2);
     a \<leftarrow> (if pb = 4 then byte_at buf (p + 3) else Some 0xFF);
     Some (b, g, r, a)
   }"

definition channel_mean :: "u8 list \<Rightarrow> u32" where
  "channel_mean cs = (\<Sum>c \<leftarrow> cs. ucast c) div of_nat (length cs)"

definition mean_pixel :: "(u8 \<times> u8 \<times> u8 \<times> u8) list \<Rightarrow> u32" where
  "mean_pixel ps =
     push_bit 24 (channel_mean (map (\<lambda>(b, g, r, a). a) ps)) OR push_bit 16 (channel_mean (map (\<lambda>(b, g, r, a). r) ps))
       OR push_bit 8 (channel_mean (map (\<lambda>(b, g, r, a). g) ps)) OR channel_mean (map (\<lambda>(b, g, r, a). b) ps)"

definition scaled_pixel :: "bytes \<Rightarrow> u32 \<Rightarrow> int \<Rightarrow> int \<Rightarrow> int \<Rightarrow> nat \<Rightarrow> u32 option" where
  "scaled_pixel buf offset width height pb i =
     map_option mean_pixel (those [bmp_sample buf offset width height pb (sample_pos (int (i div 64)) height sy) (sample_pos (int (i mod 64)) width sx).
       sy \<leftarrow> [0..<4], sx \<leftarrow> [0..<4]])"

definition decode_bmp :: "bytes \<Rightarrow> (int + u32 list) option" where
  "decode_bmp buf = do {
     width \<leftarrow> rd32le buf 18;
     height \<leftarrow> rd32le buf 22;
     bpp \<leftarrow> rd16le buf 28;
     offset \<leftarrow> rd32le buf 10;
     if bpp \<noteq> 24 \<and> bpp \<noteq> 32 \<or> sint width \<le> 0 \<or> sint height \<le> 0 then Some (Inl (-4))
     else map_option Inr (those (map (scaled_pixel buf offset (sint width) (sint height) (uint (bpp div 8))) [0..<4096]))
   }"

section \<open>Loading\<close>

text \<open>The result code, the icon's buffer and \<open>bmp_loader_data\<close>; \<open>cd\<close> says whether there is a CD drive.\<close>

definition load_bmp_icon :: "'d aur \<Rightarrow> (u32 \<Rightarrow> u32 \<Rightarrow> bytes option) \<Rightarrow> (u32 \<Rightarrow> u32 \<Rightarrow> bytes option) \<Rightarrow> bool \<Rightarrow> bytes \<Rightarrow> u32 list \<Rightarrow> int \<Rightarrow> bytes \<Rightarrow>
    (int \<times> u32 list \<times> bytes) option" where
  "load_bmp_icon fs hdd rd cd path dst index buf = do {
     (n, buf) \<leftarrow> fetch_bmp fs hdd rd path index buf;
     if n \<le> 0 then Some (if cd then -1 else -5, dst, buf)
     else if n < 54 then Some (-2, dst, buf)
     else if \<not> is_bmp buf then Some (-3, dst, buf)
     else do {
       r \<leftarrow> decode_bmp buf;
       Some (case r of Inl e \<Rightarrow> (e, dst, buf) | Inr icon \<Rightarrow> (1, icon, buf))
     }
   }"

definition create_fallback_icon :: "u32 \<Rightarrow> u32 list" where
  "create_fallback_icon color = replicate 4096 color"

definition fallback_color :: "int \<Rightarrow> u32 \<Rightarrow> u32" where
  "fallback_color res def_color =
     (if res = -5 then 0xFFAA00AA else if res = -1 then 0xFFFF00FF else if res = -2 then 0xFFFFFF00
      else if res = -3 then 0xFF00FFFF else if res = -4 then 0xFFFF8800 else def_color)"

definition try_load_icon :: "'d aur \<Rightarrow> (u32 \<Rightarrow> u32 \<Rightarrow> bytes option) \<Rightarrow> (u32 \<Rightarrow> u32 \<Rightarrow> bytes option) \<Rightarrow> bool \<Rightarrow> bytes \<Rightarrow> u32 list \<Rightarrow> u32 \<Rightarrow> int \<Rightarrow> bytes \<Rightarrow>
    (u32 list \<times> bytes) option" where
  "try_load_icon fs hdd rd cd path dst def_color index buf = do {
     (res, dst, buf) \<leftarrow> load_bmp_icon fs hdd rd cd path dst index buf;
     Some (if res = 1 then dst else create_fallback_icon (fallback_color res def_color), buf)
   }"

text \<open>The icons in the order they are loaded, which is the order of their raw sectors.\<close>

definition icon_table :: "(bytes \<times> u32) list" where
  "icon_table =
     [(lit ''/icons/terminal.bmp'', 0xFF333333), (lit ''/icons/Browser.bmp'', 0xFF4488FF), (lit ''/icons/notepad.bmp'', 0xFFFFFFFF),
      (lit ''/icons/calculator.bmp'', 0xFF444444), (lit ''/icons/files.bmp'', 0xFF888888), (lit ''/icons/clock.bmp'', 0xFFFFFFFF),
      (lit ''/icons/paint.bmp'', 0xFFFF8844), (lit ''/icons/sys-info.bmp'', 0xFF666666), (lit ''/icons/settings.bmp'', 0xFF888888),
      (lit ''/icons/folder.bmp'', 0xFFFFCC66), (lit ''/icons/snake.bmp'', 0xFF44DD44), (lit ''/icons/3d_demo.bmp'', 0xFF8888FF),
      (lit ''/icons/task_manager.bmp'', 0xFF22CC88), (lit ''/icons/audio_manager.bmp'', 0xFFFF6B35)]"

fun load_icons :: "'d aur \<Rightarrow> (u32 \<Rightarrow> u32 \<Rightarrow> bytes option) \<Rightarrow> (u32 \<Rightarrow> u32 \<Rightarrow> bytes option) \<Rightarrow> bool \<Rightarrow> (bytes \<times> u32) list \<Rightarrow> nat \<Rightarrow> u32 list list \<Rightarrow> bytes \<Rightarrow>
    (u32 list list \<times> bytes) option" where
  "load_icons fs hdd rd cd [] i bufs buf = Some (bufs, buf)"
| "load_icons fs hdd rd cd ((path, color) # ps) i bufs buf = do {
     (icon, buf) \<leftarrow> try_load_icon fs hdd rd cd path (bufs ! i) color (int i) buf;
     load_icons fs hdd rd cd ps (i + 1) (bufs[i := icon]) buf
   }"

definition icons_load_all :: "'d aur \<Rightarrow> (u32 \<Rightarrow> u32 \<Rightarrow> bytes option) \<Rightarrow> (u32 \<Rightarrow> u32 \<Rightarrow> bytes option) \<Rightarrow> bool \<Rightarrow> u32 list list \<Rightarrow> bytes \<Rightarrow> (u32 list list \<times> bytes) option" where
  "icons_load_all fs hdd rd cd bufs buf = load_icons fs hdd rd cd icon_table 0 bufs buf"

definition draw_buf :: "u32 list \<Rightarrow> int \<Rightarrow> int \<Rightarrow> (int \<times> int \<times> u32) list" where
  "draw_buf buf x y =
     [(x + int (k mod 64), y + int (k div 64), buf ! k). k \<leftarrow> [0..<4096], drop_bit 24 (buf ! k) \<noteq> 0]"

end
