(* ===== verification/IconFacts.thy ===== *)
theory IconFacts
  imports IconLoader
begin

text \<open>
  What the icon loader computes: bitmaps of up to 511 by 511 pixels are scaled to the mean of 16 equidistant samples
  per pixel, a bitmap of 64 by 64 becomes the icon as it is, and the largest documented size overflows.
\<close>

section \<open>Sample positions\<close>

lemma wrap32_nat: "n < 2 ^ 31 \<Longrightarrow> wrap32 (int n) = int n"
  by (simp add: int32_def)

lemma area_edge_exact:
  assumes "dim \<le> 511" and "n \<le> 64"
  shows "area_edge (int n) (int dim) = of_nat (n * dim * 1024)"
proof -
  have "n * dim \<le> 64 * 511"
    using assms by (intro mult_le_mono) simp_all
  then have le: "n * dim \<le> 32704"
    by simp
  have b: "n * dim < 2 ^ 31" "n * dim * 65536 < 2 ^ 31"
    using le_less_trans [OF le, of "2 ^ 31"] le_less_trans [OF mult_le_mono1 [OF le, of 65536], of "2 ^ 31"] by simp_all
  have 1: "wrap32 (int n * int dim) = int (n * dim)"
    using wrap32_nat [OF b(1)] by simp
  have 2: "wrap32 (int (n * dim) * 2 ^ 16) = int (n * dim * 65536)"
    using wrap32_nat [OF b(2)] by simp
  have "cdiv (int (n * dim * 65536)) 64 = int (n * dim * 65536 div 64)"
    by (simp add: cdiv_nonneg zdiv_int)
  also have "n * dim * 65536 div 64 = n * dim * 1024"
    by simp
  finally show ?thesis
    by (simp only: area_edge_def 1 2 of_int_of_nat_eq)
qed

lemma uint_drop_16: "uint (drop_bit 16 w) = int (unat (w :: u32) div 65536)"
proof -
  have "unat (drop_bit 16 w) = unat w div 65536"
    by (simp add: drop_bit_eq_div unat_div)
  then show ?thesis
    by (simp only: uint_nat)
qed

text \<open>The samples of all cells together are 256 equidistant positions.\<close>

lemma sample_pos_exact:
  assumes "dim \<le> 511" and "n < 64" and "j < 4"
  shows "sample_pos (int n) (int dim) j = int (dim * (4 * n + j) div 256)"
proof -
  have nd: "n * dim \<le> 63 * 511" "dim * j \<le> 511 * 3"
    using assms by (intro mult_le_mono; simp)+
  then have small: "n * dim * 1024 + dim * 1024 * j < 2 ^ 32"
    by simp
  have stop: "area_edge (int n + 1) (int dim) = of_nat ((n + 1) * dim * 1024)"
    using area_edge_exact [of dim "n + 1"] assms by (simp add: add.commute)
  have d: "(of_nat ((n + 1) * dim * 1024) - of_nat (n * dim * 1024) :: u32) = of_nat (dim * 1024)"
    by (simp add: algebra_simps)
  have "unat (of_nat (dim * 1024) * of_nat j div 4 :: u32) = dim * 1024 * j div 4"
    using small unat_of_nat_small [of "dim * 1024 * j"] by (simp only: unat_div flip: of_nat_mult) simp
  also have "\<dots> = dim * j * 256"
    by simp
  finally have q: "unat (of_nat (dim * 1024) * of_nat j div 4 :: u32) = dim * j * 256" .
  have s: "unat (of_nat (n * dim * 1024) :: u32) = n * dim * 1024"
    using nd(1) by (intro unat_of_nat_small) (simp add: mult.commute)
  have "unat (of_nat (n * dim * 1024) + of_nat (dim * 1024) * of_nat j div 4 :: u32) = n * dim * 1024 + dim * j * 256"
    using small by (subst unat_add_lem [THEN iffD1]) (unfold s q, simp_all)
  then have "uint (drop_bit 16 (of_nat (n * dim * 1024) + of_nat (dim * 1024) * of_nat j div 4 :: u32)) = int ((n * dim * 1024 + dim * j * 256) div 65536)"
    by (simp only: uint_drop_16)
  also have "(n * dim * 1024 + dim * j * 256) div 65536 = dim * (4 * n + j) div 256"
    by (simp add: div_mult2_eq [of _ 256 256, simplified] algebra_simps)
  finally show ?thesis
    using area_edge_exact [of dim n] assms by (simp only: sample_pos_def Let_def stop d)
qed

section \<open>Reading a bitmap\<close>

text \<open>
  The layout of a bitmap: every row is padded to a multiple of four bytes, the last row comes first, a pixel is
  stored as blue, green, red and, with four bytes, alpha. Pixel \<open>x\<close> of row \<open>y\<close> from the top.
\<close>

definition padded :: "nat \<Rightarrow> nat" where
  "padded n = 4 * ((n + 3) div 4)"

definition bmp_pixel :: "bytes \<Rightarrow> nat \<Rightarrow> nat \<Rightarrow> nat \<Rightarrow> nat \<Rightarrow> nat \<Rightarrow> nat \<Rightarrow> u8 \<times> u8 \<times> u8 \<times> u8" where
  "bmp_pixel buf offset width height pb y x =
     (let p = offset + (height - 1 - y) * padded (width * pb) + x * pb
      in (buf ! p, buf ! (p + 1), buf ! (p + 2), if pb = 4 then buf ! (p + 3) else 0xFF))"

lemma padded_le: "n \<le> padded n"
  by (simp add: padded_def)

lemma row_stride_padded:
  assumes "width * pb < 2 ^ 31 - 3"
  shows "row_stride (int width) (int pb) = int (padded (width * pb))"
proof -
  have "int (width * pb) + 3 = int (width * pb + 3)" and "width * pb + 3 < 2 ^ 31"
    using assms by simp_all
  then have "row_stride (int width) (int pb) = int (width * pb + 3) - int (width * pb + 3) mod 4"
    using wrap32_nat [of "width * pb"] wrap32_nat [of "width * pb + 3"] assms
    unfolding row_stride_def Let_def of_nat_mult [symmetric] by (simp only:)
  also have "\<dots> = int ((width * pb + 3) - (width * pb + 3) mod 4)"
    by (simp add: zmod_int)
  also have "(width * pb + 3) - (width * pb + 3) mod 4 = padded (width * pb)"
    unfolding padded_def by (metis minus_mod_eq_mult_div)
  finally show ?thesis .
qed

lemma bmp_sample_exact:
  assumes "width * pb < 2 ^ 31 - 3" and "height * padded (width * pb) < 2 ^ 31" and "y < height" and "x < width" and "pb = 3 \<or> pb = 4"
    and "unat offset + height * padded (width * pb) \<le> length buf"
  shows "bmp_sample buf offset (int width) (int height) (int pb) (int y) (int x) = Some (bmp_pixel buf (unat offset) width height pb y x)"
proof -
  let ?row = "padded (width * pb)"
  have "(height - 1 - y) * ?row + ?row = (height - y) * ?row"
  proof -
    have "height - y = Suc (height - 1 - y)"
      using assms(3) by linarith
    then show ?thesis
      by (simp only: mult_Suc add.commute)
  qed
  then have "(height - 1 - y) * ?row + ?row \<le> height * ?row"
    by simp
  moreover have "x * pb + pb \<le> width * pb"
    using assms(4) by (metis Suc_leI add.commute mult_Suc mult_le_mono1)
  then have "x * pb + pb \<le> ?row"
    using padded_le [of "width * pb"] by linarith
  ultimately have p: "unat offset + (height - 1 - y) * ?row + x * pb + pb \<le> length buf" and lt: "(height - 1 - y) * ?row < 2 ^ 31"
    using assms(2,6) by linarith+
  have h: "int height - 1 - int y = int (height - 1 - y)"
    using assms(3) by simp
  have q: "uint offset + wrap32 ((int height - 1 - int y) * row_stride (int width) (int pb)) + int x * int pb = int (unat offset + (height - 1 - y) * ?row + x * pb)"
    by (simp only: row_stride_padded [OF assms(1)] h uint_nat wrap32_nat [OF lt] of_nat_add flip: of_nat_mult)
  have "byte_at buf (int (unat offset + (height - 1 - y) * ?row + x * pb) + int k) = Some (buf ! (unat offset + (height - 1 - y) * ?row + x * pb + k))" if "k < pb" for k
    using p that by (simp add: byte_at_def rd8_def nat_add_distrib flip: of_nat_add)
  from this [of 0] this [of 1] this [of 2] this [of 3] show ?thesis
    using assms(5) unfolding bmp_sample_def q by (auto simp: bmp_pixel_def Let_def)
qed

section \<open>Scaling\<close>

lemma those_map_Some: "(\<And>x. x \<in> set xs \<Longrightarrow> f x = Some (g x)) \<Longrightarrow> those (map f xs) = Some (map g xs)"
  by (induction xs) auto

lemma those_None: "None \<in> set xs \<Longrightarrow> those xs = None"
  by (induction xs) (auto split: option.split)

lemma those_grid:
  assumes "\<And>i j. i < m \<Longrightarrow> j < n \<Longrightarrow> f i j = Some (g i j)"
  shows "those [f i j. i \<leftarrow> [0..<m], j \<leftarrow> [0..<n]] = Some [g i j. i \<leftarrow> [0..<m], j \<leftarrow> [0..<n]]"
proof -
  have grid: "[h i j. i \<leftarrow> [0..<m], j \<leftarrow> [0..<n]] = map (\<lambda>(i, j). h i j) (List.product [0..<m] [0..<n])" for h :: "nat \<Rightarrow> nat \<Rightarrow> 'c"
    by (simp add: product_concat_map map_concat o_def)
  show ?thesis
    unfolding grid using assms by (intro those_map_Some) auto
qed

lemma cell_bound:
  assumes "n < 64" and "j < 4" and "0 < dim"
  shows "dim * (4 * n + j) div 256 < (dim :: nat)"
proof -
  have "dim * (4 * n + j) < dim * 256"
    using assms by simp
  then show ?thesis
    by (simp add: div_less_iff_less_mult)
qed

text \<open>
  The icon of a picture, given by its rows of pixels: the 16 samples of the pixel in row \<open>r\<close> and column \<open>c\<close>, and the
  mean of one of their channels, rounded down.
\<close>

definition samples :: "(nat \<Rightarrow> nat \<Rightarrow> 'p) \<Rightarrow> nat \<Rightarrow> nat \<Rightarrow> nat \<Rightarrow> nat \<Rightarrow> 'p list" where
  "samples picture width height r c =
     [picture (height * (4 * r + sy) div 256) (width * (4 * c + sx) div 256). sy \<leftarrow> [0..<4], sx \<leftarrow> [0..<4]]"

definition mean16 :: "(u8 \<times> u8 \<times> u8 \<times> u8 \<Rightarrow> u8) \<Rightarrow> (u8 \<times> u8 \<times> u8 \<times> u8) list \<Rightarrow> u8" where
  "mean16 channel ps = of_nat ((\<Sum>p \<leftarrow> ps. unat (channel p)) div 16)"

definition icon_of :: "(nat \<Rightarrow> nat \<Rightarrow> u8 \<times> u8 \<times> u8 \<times> u8) \<Rightarrow> nat \<Rightarrow> nat \<Rightarrow> u32 list" where
  "icon_of picture width height =
     map (\<lambda>i. let ps = samples picture width height (i div 64) (i mod 64)
       in join32 (mean16 (\<lambda>(b, g, r, a). a) ps) (mean16 (\<lambda>(b, g, r, a). r) ps)
            (mean16 (\<lambda>(b, g, r, a). g) ps) (mean16 (\<lambda>(b, g, r, a). b) ps)) [0..<4096]"

lemma length_samples: "length (samples picture width height r c) = 16"
  by (simp add: samples_def upt_rec)

lemma sum_bytes_le: "(\<Sum>c \<leftarrow> cs. unat (c :: u8)) \<le> 255 * length cs"
proof (induction cs)
  case (Cons c cs)
  then show ?case
    using unat_u8_less [of c] by (simp; linarith)
qed simp

lemma channel_mean_16:
  assumes "length ps = 16"
  shows "channel_mean (map channel ps) = ucast (mean16 channel ps)"
proof -
  let ?n = "\<Sum>p \<leftarrow> ps. unat (channel p)"
  have "?n \<le> 255 * 16"
    using sum_bytes_le [of "map channel ps"] assms by (simp add: comp_def)
  then have n: "?n < 2 ^ 32" "?n div 16 < 2 ^ 8"
    by (simp_all add: div_less_iff_less_mult)
  have u: "ucast c = (of_nat (unat c) :: u32)" for c :: u8
    by (rule of_nat_unat [symmetric])
  have "(\<Sum>p \<leftarrow> ps. ucast (channel p) :: u32) = of_nat ?n"
    unfolding u by (induction ps) (simp_all del: of_nat_unat)
  then have "unat (channel_mean (map channel ps)) = ?n div 16"
    using assms n(1) by (simp add: channel_mean_def comp_def unat_div unat_of_nat_small)
  moreover have "unat (of_nat (?n div 16) :: u8) = ?n div 16"
    using n(2) by (simp add: unat_of_nat take_bit_nat_eq_self)
  then have "unat (ucast (mean16 channel ps) :: u32) = ?n div 16"
    using n(2) by (simp add: mean16_def unsigned_ucast_eq take_bit_nat_eq_self)
  ultimately show ?thesis
    by (simp add: word_unat_eq_iff)
qed

lemma mean_pixel_16:
  "length ps = 16 \<Longrightarrow> mean_pixel ps = join32 (mean16 (\<lambda>(b, g, r, a). a) ps) (mean16 (\<lambda>(b, g, r, a). r) ps)
     (mean16 (\<lambda>(b, g, r, a). g) ps) (mean16 (\<lambda>(b, g, r, a). b) ps)"
  by (simp only: mean_pixel_def channel_mean_16 join32_def)

text \<open>What the decoder reads of the header.\<close>

definition bmp_header :: "bytes \<Rightarrow> nat \<Rightarrow> nat \<Rightarrow> nat \<Rightarrow> u32 \<Rightarrow> bool" where
  "bmp_header buf width height pb offset \<longleftrightarrow>
     rd32le buf 18 = Some (of_nat width) \<and> rd32le buf 22 = Some (of_nat height) \<and> rd16le buf 28 = Some (of_nat (8 * pb)) \<and> rd32le buf 10 = Some offset"

lemma decode_bmp_mean:
  assumes "bmp_header buf width height pb offset" and "pb = 3 \<or> pb = 4" and "0 < width" and "width \<le> 511" and "0 < height" and "height \<le> 511"
    and "unat offset + height * padded (width * pb) \<le> length buf"
  shows "decode_bmp buf = Some (Inr (icon_of (bmp_pixel buf (unat offset) width height pb) width height))"
proof -
  let ?picture = "bmp_pixel buf (unat offset) width height pb"
  have "width * pb \<le> 511 * 4"
    using assms(2,4) by (intro mult_le_mono) auto
  moreover from this have "padded (width * pb) \<le> 2048"
    by (simp add: padded_def)
  then have "height * padded (width * pb) \<le> 511 * 2048"
    using assms(6) by (intro mult_le_mono)
  ultimately have small: "width * pb < 2 ^ 31 - 3" "height * padded (width * pb) < 2 ^ 31"
    by simp_all
  have pixel: "scaled_pixel buf offset (int width) (int height) (int pb) i = Some (mean_pixel (samples ?picture width height (i div 64) (i mod 64)))"
    if "i < 4096" for i
  proof -
    have i: "i div 64 < 64" "i mod 64 < 64"
      using that by (simp_all add: div_less_iff_less_mult)
    have "bmp_sample buf offset (int width) (int height) (int pb) (sample_pos (int (i div 64)) (int height) sy) (sample_pos (int (i mod 64)) (int width) sx) =
        Some (?picture (height * (4 * (i div 64) + sy) div 256) (width * (4 * (i mod 64) + sx) div 256))"
      if "sy < 4" "sx < 4" for sy sx
      unfolding sample_pos_exact [OF assms(6) i(1) that(1)] sample_pos_exact [OF assms(4) i(2) that(2)]
      using small assms(2,7) cell_bound [OF i(1) that(1) assms(5)] cell_bound [OF i(2) that(2) assms(3)] by (intro bmp_sample_exact) simp_all
    then show ?thesis
      unfolding scaled_pixel_def samples_def by (subst those_grid) auto
  qed
  have "uint ((of_nat (8 * pb) :: u16) div 8) = int pb"
    using assms(2) by auto
  moreover have "of_nat (8 * pb) = (24 :: u16) \<or> of_nat (8 * pb) = (32 :: u16)"
    using assms(2) by auto
  moreover have "sint (of_nat width :: u32) = int width" "sint (of_nat height :: u32) = int height"
    using assms(4,6) by (intro sint_of_nat_small; simp)+
  moreover have "those (map (scaled_pixel buf offset (int width) (int height) (int pb)) [0..<4096]) = Some (icon_of ?picture width height)"
    unfolding icon_of_def Let_def mean_pixel_16 [OF length_samples, symmetric] using pixel by (intro those_map_Some) simp
  ultimately show ?thesis
    using assms(1,3,5) by (auto simp: decode_bmp_def bmp_header_def simp del: of_nat_mult)
qed

definition argb :: "u8 \<times> u8 \<times> u8 \<times> u8 \<Rightarrow> u32" where
  "argb p = (case p of (b, g, r, a) \<Rightarrow> join32 a r g b)"

lemma mean16_same: "mean16 channel (replicate 16 p) = channel p"
  by (simp add: mean16_def sum_list_replicate)

lemma upt_4: "[0..<4] = [0, 1, 2, 3]"
  by (simp add: upt_rec)

lemma icon_of_native: "icon_of picture 64 64 = map (\<lambda>i. argb (picture (i div 64) (i mod 64))) [0..<4096]"
proof -
  have "64 * (4 * n + j) div 256 = (n :: nat)" if "j < 4" for n j
    using that by simp
  then have "samples picture 64 64 r c = replicate 16 (picture r c)" for r c
    by (simp add: samples_def upt_4) (simp add: numeral_eq_Suc)
  then show ?thesis
    by (simp add: icon_of_def mean16_same argb_def split_beta)
qed

text \<open>A machine without files and CD-ROM whose hard disk holds a grey bitmap in the raw sectors of the first icon.\<close>

definition sample_head :: "u32 \<Rightarrow> bytes" where
  "sample_head side = [0x42, 0x4D] @ put32le 512 @ replicate 4 0 @ put32le 54 @ put32le 40 @ put32le side @ put32le side @ [1, 0, 24, 0] @ replicate 482 7"

definition sample_hdd :: "u32 \<Rightarrow> u32 \<Rightarrow> u32 \<Rightarrow> bytes option" where
  "sample_hdd side lba n = (if lba = 60000 then Some (sample_head side) else None)"

definition sample_image :: "u32 \<Rightarrow> bytes" where
  "sample_image side = sample_head side @ replicate 1199488 7"

lemma rd32le_front: "rd32le (put32le v @ rest) 0 = Some v"
  by (simp add: rd32le_def put32le_def)

lemma rd32le_skip: "length a = n \<Longrightarrow> rd32le (a @ b) (n + m) = rd32le b m"
  by (auto simp: rd32le_def nth_append)

lemma sample_image_simps:
  "length (sample_head side) = 512" "length (sample_image side) = 1200000" "is_bmp (sample_image side)"
  "rd32le (sample_image side) 10 = Some 54" "rd32le (sample_image side) 18 = Some side"
  "rd32le (sample_image side) 22 = Some side" "rd16le (sample_image side) 28 = Some 24"
proof -
  let ?a = "[0x42, 0x4D] @ put32le 512 @ replicate 4 0 :: bytes" and ?z = "[1, 0, 24, 0] @ replicate 1199970 7 :: bytes"
  have e: "sample_image side = ?a @ put32le 54 @ put32le 40 @ put32le side @ put32le side @ ?z"
    by (simp add: sample_image_def sample_head_def flip: replicate_add)
  have e2: "sample_image side = (?a @ put32le 54 @ put32le 40) @ put32le side @ put32le side @ ?z"
    and e3: "sample_image side = (?a @ put32le 54 @ put32le 40 @ put32le side) @ put32le side @ ?z"
    by (simp_all add: e)
  show "length (sample_head side) = 512" "length (sample_image side) = 1200000" "is_bmp (sample_image side)"
    by (simp_all add: sample_head_def sample_image_def is_bmp_def)
  show "rd32le (sample_image side) 10 = Some 54"
    using rd32le_skip [of ?a 10 _ 0] rd32le_front unfolding e by simp
  show "rd32le (sample_image side) 18 = Some side"
    using rd32le_skip [of "?a @ put32le 54 @ put32le 40" 18 _ 0] rd32le_front unfolding e2 by simp
  show "rd32le (sample_image side) 22 = Some side"
    using rd32le_skip [of "?a @ put32le 54 @ put32le 40 @ put32le side" 22 _ 0] rd32le_front unfolding e3 by simp
  show "rd16le (sample_image side) 28 = Some 24"
    by (simp add: e rd16le_def nth_append join16_def)
qed

lemma sample_fetch: "fetch_bmp (boot_aur d) (sample_hdd side) (\<lambda>lba n. None) (lit ''/icons/terminal.bmp'') 0 (replicate 1200000 7) = Some (512, sample_image side)"
proof -
  have "load_file_content (lit ''/icons/terminal.bmp'') (replicate 1200000 7) bmp_size (boot_aur d) = Some (-1, replicate 1200000 7)"
    by (simp add: load_file_content_def bmp_size_def full_path_def build_full_path_def skip_drive_def drive_letter_def fs_find_def boot_aur_def of_char_def Let_def)
  moreover have "wrn (replicate 1200000 7) 0 (sample_head side) = Some (sample_image side)" "wrn (sample_image side) 0 (sample_head side) = Some (sample_image side)"
    by (simp_all add: wrn_def sample_image_simps sample_image_def)
  moreover have "rd32le (sample_image side) 2 = Some 512"
    by (simp add: sample_image_def sample_head_def put32le_def rd32le_def join32_def)
  ultimately show ?thesis
    by (simp add: fetch_bmp_def iso9660_read_file_def iso9660_find_file_def raw_bmp_def raw_rest_def raw_block_def sample_hdd_def sample_image_simps bmp_size_def)
qed

text \<open>
  C28: An icon is a faithful reduction of its bitmap: when a 24- or 32-bit bitmap of any size from 1 by 1 to 511 by 511 pixels has
  been fetched completely, every pixel of the icon is, channel by channel, the mean, rounded down, of the 16 pixels of the picture at
  the rows \<open>height * (4 * row + sy) / 256\<close> and the columns \<open>width * (4 * column + sx) / 256\<close> for \<open>sy\<close> and \<open>sx\<close> from 0 to 3.
\<close>

theorem icon_mean:
  assumes "fetch_bmp fs hdd rd path index buf = Some (n, data)" and "54 \<le> n" and "is_bmp data"
    and "bmp_header data width height pb offset" and "pb = 3 \<or> pb = 4" and "0 < width" and "width \<le> 511" and "0 < height" and "height \<le> 511"
    and "unat offset + height * padded (width * pb) \<le> length data"
  shows "load_bmp_icon fs hdd rd cd path dst index buf =
    Some (1, icon_of (bmp_pixel data (unat offset) width height pb) width height, data)"
  using assms(1-3) decode_bmp_mean [OF assms(4-10)] by (simp add: load_bmp_icon_def)

theorem icon_mean_witness:
  "load_bmp_icon (boot_aur ()) (sample_hdd 50) (\<lambda>lba n. None) False (lit ''/icons/terminal.bmp'') [] 0 (replicate 1200000 7) =
    Some (1, icon_of (bmp_pixel (sample_image 50) 54 50 50 3) 50 50, sample_image 50)"
  using icon_mean [OF sample_fetch, of 50 50 50 3 54 "()" False "[]"] by (simp add: bmp_header_def sample_image_simps padded_def)

text \<open>
  A bitmap of exactly 64 by 64 pixels becomes the icon unchanged: the averaging and the flip of the rows
  leave every pixel of the picture where it is.
\<close>

theorem icon_native:
  assumes "fetch_bmp fs hdd rd path index buf = Some (n, data)" and "54 \<le> n" and "is_bmp data"
    and "bmp_header data 64 64 pb offset" and "pb = 3 \<or> pb = 4" and "unat offset + 64 * (64 * pb) \<le> length data"
  shows "load_bmp_icon fs hdd rd cd path dst index buf =
    Some (1, map (\<lambda>i. argb (bmp_pixel data (unat offset) 64 64 pb (i div 64) (i mod 64))) [0..<4096], data)"
  using assms(1-3) decode_bmp_mean [of data 64 64 pb offset] assms(4-6) by (auto simp: load_bmp_icon_def icon_of_native padded_def)

theorem icon_native_witness:
  "load_bmp_icon (boot_aur ()) (sample_hdd 64) (\<lambda>lba n. None) False (lit ''/icons/terminal.bmp'') [] 0 (replicate 1200000 7) =
    Some (1, map (\<lambda>i. argb (bmp_pixel (sample_image 64) 54 64 64 3 (i div 64) (i mod 64))) [0..<4096], sample_image 64)"
  using icon_native [OF sample_fetch, of 64 3 54 "()" False "[]"] by (simp add: bmp_header_def sample_image_simps)

section \<open>The largest icon\<close>

text \<open>
  The size the source calls the largest possible one is too large: for a 32-bit bitmap of 512 by 512 pixels the fixed-point edge of the last
  cell wraps, and the decoder reads more than 30 megabytes in front of its buffer, whatever the pixels are.
\<close>

theorem icon_512_overflow:
  assumes "bmp_header data 512 512 4 offset" and "unat offset \<le> 1200000"
  shows "decode_bmp data = None"
proof -
  have stride: "row_stride 512 4 = 2048"
    by (simp add: row_stride_def wrap32_def)
  have pos: "sample_pos 63 512 1 = 16634" "sample_pos 0 512 0 = 0"
    by code_simp+
  have "uint offset \<le> 1200000"
    using assms(2) uint_nat [of offset] by linarith
  then have "bmp_sample data offset 512 512 4 16634 x = None" if "x < 100000" for x
    using that by (simp add: bmp_sample_def stride wrap32_def byte_at_def)
  then have "bmp_sample data offset 512 512 4 (sample_pos 63 512 1) (sample_pos 0 512 0) = None"
    unfolding pos by simp
  then have "scaled_pixel data offset 512 512 4 4032 = None"
    unfolding scaled_pixel_def by (subst those_None) (simp_all add: upt_4)
  then have "those (map (scaled_pixel data offset 512 512 4) [0..<4096]) = None"
    by (intro those_None) (force intro: rev_image_eqI [of 4032])
  then show ?thesis
    using assms(1) by (simp add: decode_bmp_def bmp_header_def)
qed

theorem icon_512_overflow_witness:
  "decode_bmp ([0x42, 0x4D] @ put32le 512 @ replicate 4 0 @ put32le 54 @ put32le 40 @ put32le 512 @ put32le 512 @ [1, 0, 32, 0]) = None"
proof (rule icon_512_overflow)
  show "bmp_header ([0x42, 0x4D] @ put32le 512 @ replicate 4 0 @ put32le 54 @ put32le 40 @ put32le 512 @ put32le 512 @ [1, 0, 32, 0]) 512 512 4 54"
    by code_simp
qed simp

end
