(* ===== verification/Http.thy ===== *)
theory Http
  imports NetStack
begin

text \<open>
  The HTTP client, \<open>src/src/http_client.c\<close>: URLs, requests, responses and a whole fetch over the sockets of
  \<open>NetStack\<close>.

  A terminated string is the list of its characters without the terminator; the fixed arrays of a response are
  their contents, so \<open>header_count\<close> and \<open>body_len\<close> are lengths. An \<open>int\<close> that the code adds up without a
  limit is reduced to 32 bits. A result is \<open>Inl\<close> the negative code or \<open>Inr\<close> the values. The messages on the console are left out.
\<close>

section \<open>Strings\<close>

fun http_startswith_ci :: "bytes \<Rightarrow> bytes \<Rightarrow> bool" where
  "http_startswith_ci str [] \<longleftrightarrow> True"
| "http_startswith_ci str (c # prefix) \<longleftrightarrow> lower8 (peek str) = lower8 c \<and> http_startswith_ci (tl str) prefix"

fun http_strcasecmp :: "bytes \<Rightarrow> bytes \<Rightarrow> int" where
  "http_strcasecmp a b =
     (if peek a \<noteq> 0 \<and> peek b \<noteq> 0
      then if lower8 (peek a) \<noteq> lower8 (peek b) then uint (lower8 (peek a)) - uint (lower8 (peek b))
           else http_strcasecmp (tl a) (tl b)
      else uint (peek a) - uint (peek b))"

declare http_strcasecmp.simps [simp del]

text \<open>Both arguments are strings; the result is the offset of the first occurrence.\<close>

fun http_strstr :: "bytes \<Rightarrow> bytes \<Rightarrow> nat option" where
  "http_strstr [] needle = None"
| "http_strstr (c # haystack) needle =
     (if take (length needle) (c # haystack) = needle then Some 0 else map_option Suc (http_strstr haystack needle))"

section \<open>URLs\<close>

fun url_port :: "bytes \<Rightarrow> u16 \<Rightarrow> u16 \<times> bytes" where
  "url_port [] port = (port, [])"
| "url_port (c # p) port = (if is_digit8 c then url_port p (port * 10 + (ucast c - 0x30)) else (port, c # p))"

definition url_host :: "nat \<Rightarrow> bytes \<Rightarrow> bytes" where
  "url_host host_max url = take (host_max - 1) (takeWhile (\<lambda>c. c \<noteq> 0x2F \<and> c \<noteq> 0x3A) url)"

text \<open>The part of a URL behind the scheme.\<close>

definition url_parts :: "nat \<Rightarrow> nat \<Rightarrow> bytes \<Rightarrow> bytes \<times> bytes \<times> u16" where
  "url_parts host_max path_max url =
     (let host = url_host host_max url; p = drop (length host) url;
          (port, p) = (if peek p = 0x3A then url_port (tl p) 0 else (80, p));
          path = (if peek p = 0x2F then take (path_max - 1) p else [0x2F])
      in (host, path, port))"

definition http_parse_url :: "bytes \<Rightarrow> nat \<Rightarrow> nat \<Rightarrow> int + bytes \<times> bytes \<times> u16" where
  "http_parse_url url host_max path_max =
     (if http_startswith_ci url (lit ''http://'') then Inr (url_parts host_max path_max (drop 7 url))
      else if http_startswith_ci url (lit ''https://'') then Inl (-1)
      else Inr (url_parts host_max path_max url))"

section \<open>Requests\<close>

record http_request =
  req_host :: bytes
  req_path :: bytes
  req_port :: u16
  custom_headers :: "bytes list"

definition crlf :: bytes where
  "crlf = [13, 10]"

text \<open>One piece is appended when it leaves room for the terminator.\<close>

definition append_piece :: "nat \<Rightarrow> bytes \<Rightarrow> bytes \<Rightarrow> bytes option" where
  "append_piece max_len s buf = (if max_len \<le> length buf + length s then None else Some (buf @ s))"

fun append_headers :: "nat \<Rightarrow> bytes list \<Rightarrow> bytes \<Rightarrow> bytes" where
  "append_headers max_len [] buf = buf"
| "append_headers max_len (h # hs) buf =
     (if max_len \<le> length buf + length h + 2 then buf else append_headers max_len hs (buf @ crlf @ h))"

definition request_pieces :: "http_request \<Rightarrow> bytes list" where
  "request_pieces req =
     [lit ''GET '', req_path req, lit '' HTTP/1.1'' @ crlf @ lit ''Host: '', req_host req,
      crlf @ lit ''User-Agent: AurionOS/1.0'', crlf @ lit ''Connection: close'']"

fun append_pieces :: "nat \<Rightarrow> bytes list \<Rightarrow> bytes \<Rightarrow> bytes option" where
  "append_pieces max_len [] buf = Some buf"
| "append_pieces max_len (s # ss) buf = Option.bind (append_piece max_len s buf) (append_pieces max_len ss)"

definition http_build_request :: "http_request \<Rightarrow> nat \<Rightarrow> int + bytes" where
  "http_build_request req max_len =
     (case append_pieces max_len (request_pieces req) [] of
        None \<Rightarrow> Inl (-1)
      | Some buf \<Rightarrow>
          let buf = append_headers max_len (take 16 (custom_headers req)) buf
          in if max_len \<le> length buf + 4 then Inl (-1) else Inr (buf @ crlf @ crlf))"

section \<open>Responses\<close>

record http_response =
  status_code :: int
  status_text :: bytes
  headers :: "bytes list"
  body :: bytes
  content_length :: u32
  chunked :: bool

definition line_end :: "u8 \<Rightarrow> bool" where
  "line_end c \<longleftrightarrow> c = 0 \<or> c = 13 \<or> c = 10"

definition line_text :: "nat \<Rightarrow> bytes \<Rightarrow> bytes" where
  "line_text n p = take n (takeWhile (\<lambda>c. \<not> line_end c) p)"

definition skip_eol :: "bytes \<Rightarrow> bytes" where
  "skip_eol p = (let p = (if peek p = 13 then tl p else p) in if peek p = 10 then tl p else p)"

fun status_digits :: "bytes \<Rightarrow> int \<Rightarrow> int \<times> bytes" where
  "status_digits [] n = (n, [])"
| "status_digits (c # p) n =
     (if is_digit8 c then status_digits p (sint (of_int (n * 10 + uint c - 0x30) :: u32)) else (n, c # p))"

fun length_digits :: "bytes \<Rightarrow> u32 \<Rightarrow> u32" where
  "length_digits [] n = n"
| "length_digits (c # p) n = (if is_digit8 c then length_digits p (n * 10 + (ucast c - 0x30)) else n)"

text \<open>\<open>hdr\<close> is everything from the start of the header line on, as \<open>hdr_start\<close> is. The old length is not cleared.\<close>

definition header_length :: "bytes \<Rightarrow> u32 \<Rightarrow> u32" where
  "header_length hdr n =
     (if http_startswith_ci hdr (lit ''Content-Length:'')
      then length_digits (dropWhile (\<lambda>c. c = 0x20) (tl (dropWhile (\<lambda>c. c \<noteq> 0 \<and> c \<noteq> 0x3A) hdr))) n
      else n)"

definition header_chunked :: "bytes \<Rightarrow> bool" where
  "header_chunked hdr \<longleftrightarrow>
     http_startswith_ci hdr (lit ''Transfer-Encoding:'') \<and> http_strstr (cstr hdr) (lit ''chunked'') \<noteq> None"

definition header_rest :: "bytes \<Rightarrow> bytes" where
  "header_rest p = skip_eol (drop (length (line_text 255 p)) p)"

lemma header_rest_less [termination_simp]: "\<not> line_end (peek p) \<Longrightarrow> length (header_rest p) < length p"
  by (cases p) (auto simp: header_rest_def line_text_def skip_eol_def line_end_def Let_def)

fun parse_headers :: "bytes \<Rightarrow> http_response \<Rightarrow> http_response \<times> bytes" where
  "parse_headers p r =
     (if \<not> line_end (peek p) \<and> length (headers r) < 16
      then parse_headers (header_rest p)
             (r\<lparr>headers := headers r @ [line_text 255 p], content_length := header_length p (content_length r),
                chunked := chunked r \<or> header_chunked p\<rparr>)
      else (r, p))"

declare parse_headers.simps [simp del]

definition http_parse_response :: "bytes \<Rightarrow> http_response \<Rightarrow> int \<times> http_response" where
  "http_parse_response raw response =
     (if length raw < 16 then (-1, response)
      else
        let r = \<lparr>status_code = 0, status_text = [], headers = [], body = [], content_length = 0, chunked = False\<rparr>;
            p = dropWhile (\<lambda>c. c \<noteq> 0 \<and> c \<noteq> 0x20) raw
        in if peek p \<noteq> 0x20 then (-1, r)
           else
             let (code, p) = status_digits (tl p) 0;
                 p = (if peek p = 0x20 then tl p else p);
                 text = line_text 63 p;
                 p = skip_eol (drop (length text) p);
                 (r, p) = parse_headers p (r\<lparr>status_code := code, status_text := text\<rparr>);
                 p = skip_eol p
             in (0, if 0 < length p \<and> length p < 32768 then r\<lparr>body := p\<rparr> else r))"

fun header_value :: "bytes list \<Rightarrow> bytes \<Rightarrow> bytes option" where
  "header_value [] name = None"
| "header_value (h # hs) name =
     (if http_startswith_ci h name \<and> peek (drop (length name) h) = 0x3A
      then Some (dropWhile (\<lambda>c. c = 0x20) (drop (length name + 1) h)) else header_value hs name)"

definition http_get_header :: "http_response \<Rightarrow> bytes \<Rightarrow> bytes option" where
  "http_get_header response name = header_value (headers response) name"

definition http_is_success :: "http_response \<Rightarrow> bool" where
  "http_is_success response \<longleftrightarrow> 200 \<le> status_code response \<and> status_code response < 300"

section \<open>A fetch\<close>

text \<open>The receive loop: what has arrived, and how many reads in a row brought nothing.\<close>

function http_receive :: "('d \<Rightarrow> u32 \<times> 'd) \<Rightarrow> bytes \<Rightarrow> nat \<Rightarrow> 'd net \<Rightarrow> (bytes \<times> 'd net) option" where
  "http_receive get_ticks response_buf idle_polls s =
     (if length response_buf < 65535 then
        (case tcp_receive get_ticks (of_nat (65535 - length response_buf)) s of
           None \<Rightarrow> None
         | Some (received, s) \<Rightarrow>
             let idle_polls = (if received = [] then idle_polls + 1 else 0)
             in if 5 < idle_polls then Some (response_buf @ received, s)
                else http_receive get_ticks (response_buf @ received) idle_polls s)
      else Some (response_buf, s))"
  by auto
termination
  by (relation "measure (\<lambda>(g, buf, idle, s). 7 * (65535 - length buf) + (6 - idle))")
    (auto simp flip: length_greater_0_conv)

declare http_receive.simps [simp del]

definition http_finish :: "bytes \<Rightarrow> http_response \<Rightarrow> 'd net \<Rightarrow> (int \<times> http_response \<times> 'd net) option" where
  "http_finish raw response s = do {
     (_, s) \<leftarrow> tcp_close s;
     let (r, response) = http_parse_response raw response;
     Some (r, response, s)
   }"

definition http_exchange :: "('d \<Rightarrow> u32 \<times> 'd) \<Rightarrow> http_request \<Rightarrow> http_response \<Rightarrow> 'd net \<Rightarrow> (int \<times> http_response \<times> 'd net) option" where
  "http_exchange get_ticks request response s =
     (case http_build_request request 1024 of
        Inl e \<Rightarrow> do { (_, s) \<leftarrow> tcp_close s; Some (-1, response, s) }
      | Inr request_buf \<Rightarrow> do {
          (r, s) \<leftarrow> tcp_send request_buf s;
          if r < 0 then do { (_, s) \<leftarrow> tcp_close s; Some (-1, response, s) }
          else do {
            (raw, s) \<leftarrow> http_receive get_ticks [] 0 s;
            http_finish raw response s
          }
        })"

definition http_get_ex :: "('d \<Rightarrow> u32 \<times> 'd) \<Rightarrow> http_request \<Rightarrow> http_response \<Rightarrow> 'd net \<Rightarrow> (int \<times> http_response \<times> 'd net) option" where
  "http_get_ex get_ticks request response s = do {
     (ip, s) \<leftarrow> dns_resolve get_ticks (req_host request) s;
     if ip = 0 then Some (-1, response, s)
     else do {
       (r, s) \<leftarrow> tcp_connect get_ticks ip (req_port request) s;
       if r < 0 then Some (-1, response, s) else http_exchange get_ticks request response s
     }
   }"

definition http_get :: "('d \<Rightarrow> u32 \<times> 'd) \<Rightarrow> bytes \<Rightarrow> http_response \<Rightarrow> 'd net \<Rightarrow> (int \<times> http_response \<times> 'd net) option" where
  "http_get get_ticks url response s =
     (case http_parse_url url 128 128 of
        Inl e \<Rightarrow> Some (-1, response, s)
      | Inr (host, path, port) \<Rightarrow>
          http_get_ex get_ticks \<lparr>req_host = host, req_path = path, req_port = port, custom_headers = []\<rparr> response s)"

definition http_full_get :: "('d \<Rightarrow> u32 \<times> 'd) \<Rightarrow> bytes \<Rightarrow> http_response \<Rightarrow> 'd net \<Rightarrow> (int \<times> http_response \<times> 'd net) option" where
  "http_full_get get_ticks url resp s = http_get get_ticks url resp s"

end
