(* ===== verification/Https.thy ===== *)
theory Https
  imports Tls Http
begin

text \<open>
  The HTTPS client, \<open>src/src/Network/https_client.c\<close>, on top of the TLS client, and
  \<open>network_ensure_ready\<close> of \<open>src/src/Network/network_bringup.c\<close>.

  \<open>wifi\<close> is \<open>wifi_driver_init\<close>, \<open>km i n\<close> is what the \<open>i\<close>-th call of \<open>kmalloc\<close> returns for the size \<open>n\<close>. A result is
  \<open>Inl\<close> the negative code or \<open>Inr\<close> the values; \<open>None\<close> is an access outside a buffer or a call that does not return.
\<close>

section \<open>Responses\<close>

fun hdr_name_match :: "bytes \<Rightarrow> bytes \<Rightarrow> bool" where
  "hdr_name_match line [] \<longleftrightarrow> line \<noteq> [] \<and> hd line = 0x3A"
| "hdr_name_match [] (b # name) \<longleftrightarrow> False"
| "hdr_name_match (a # line) (b # name) \<longleftrightarrow> lower8 a = lower8 b \<and> hdr_name_match line name"

definition find_http_header_end_hs :: "bytes \<Rightarrow> nat option" where
  "find_http_header_end_hs buf =
     (case http_strstr buf [13, 10, 13, 10] of
        Some i \<Rightarrow> Some (i + 4)
      | None \<Rightarrow> (case http_strstr buf [10, 10] of Some i \<Rightarrow> Some (i + 2) | None \<Rightarrow> None))"

definition http_header_text_len_hs :: "bytes \<Rightarrow> nat \<Rightarrow> nat" where
  "http_header_text_len_hs buf header_end =
     (if header_end < 2 then 0
      else if 4 \<le> header_end \<and> take 4 (drop (header_end - 4) buf) = [13, 10, 13, 10] then header_end - 4
      else if take 2 (drop (header_end - 2) buf) = [10, 10] then header_end - 2
      else header_end)"

definition blank_or_eol :: "u8 \<Rightarrow> bool" where
  "blank_or_eol c \<longleftrightarrow> c = 0x20 \<or> c = 9 \<or> c = 13 \<or> c = 10"

definition eol :: "u8 \<Rightarrow> bool" where
  "eol c \<longleftrightarrow> c = 13 \<or> c = 10"

definition line_value :: "bytes \<Rightarrow> int" where
  "line_value line = sint (length_digits (dropWhile (\<lambda>c. c = 0x20 \<or> c = 9) (tl (dropWhile (\<lambda>c. c \<noteq> 0x3A) line))) 0)"

lemma rest_lines_less [termination_simp]:
  "scan \<noteq> [] \<Longrightarrow> length (dropWhile eol (dropWhile (\<lambda>c. \<not> eol c) scan)) < length scan"
proof (cases scan)
  case (Cons c cs)
  have "length (dropWhile eol (dropWhile (\<lambda>c. \<not> eol c) cs)) \<le> length cs"
    by (meson order.trans length_dropWhile_le)
  then show ?thesis
    using Cons le_less_trans [OF length_dropWhile_le [of eol cs]] by auto
qed simp

text \<open>The last length that the header lines give.\<close>

fun scan_lines :: "bytes \<Rightarrow> int \<Rightarrow> int" where
  "scan_lines scan cl =
     (if scan = [] then cl
      else let line = takeWhile (\<lambda>c. \<not> eol c) scan
           in scan_lines (dropWhile eol (dropWhile (\<lambda>c. \<not> eol c) scan))
                (if hdr_name_match line (lit ''Content-Length'') then line_value line else cl))"

declare scan_lines.simps [simp del]

definition http_start :: "bytes \<Rightarrow> bool" where
  "http_start b \<longleftrightarrow> map lower8 (take 4 b) = lit ''http'' \<and> take 1 (drop 4 b) = lit ''/''"

definition parse_https_response :: "(u32 \<Rightarrow> bytes option) \<Rightarrow> bytes \<Rightarrow> int + bytes" where
  "parse_https_response km buf =
     (if length buf < 16 then Inl (-1)
      else case find_http_header_end_hs buf of
        None \<Rightarrow> Inl (-1)
      | Some header_end \<Rightarrow>
          let b = dropWhile blank_or_eol buf
          in if length b < 12 \<or> \<not> http_start b then Inl (-1)
             else
               let p = dropWhile (\<lambda>c. c = 0x20) (dropWhile (\<lambda>c. c \<noteq> 0 \<and> c \<noteq> 0x20) b);
                   status = fst (status_digits p 0)
               in if status < 200 \<or> 300 \<le> status then Inl (-1)
                  else
                    let cl = scan_lines (take (http_header_text_len_hs buf header_end) buf) (-1);
                        body_have = length buf - header_end;
                        body_len = (if 0 \<le> cl \<and> cl < int body_have then nat cl else body_have)
                    in case km (of_nat body_len + 1) of
                         None \<Rightarrow> Inl (-1)
                       | Some _ \<Rightarrow> Inr (take body_len (drop header_end buf)))"

section \<open>URLs and requests\<close>

definition parse_https_url :: "bytes \<Rightarrow> nat \<Rightarrow> nat \<Rightarrow> int + bytes \<times> bytes \<times> u16" where
  "parse_https_url url host_max path_max =
     (let p = dropWhile (\<lambda>c. c = 0x20 \<or> c = 9) url
      in if lower8 (peek p) \<noteq> 0x68 then Inl (-1)
         else
           let p = dropWhile (\<lambda>c. c \<noteq> 0x3A) p
           in if take 3 p \<noteq> lit ''://'' then Inl (-1)
              else
                let p = drop 3 p; host = url_host host_max p; p = drop (length host) p;
                    (port, p) = (if peek p = 0x3A then url_port (tl p) 0 else (443, p));
                    path = (if peek p = 0x2F then take (path_max - 1) p else [0x2F])
                in Inr (host, path, port))"

definition https_request :: "bytes \<Rightarrow> bytes \<Rightarrow> bytes" where
  "https_request host path =
     (let r = lit ''GET ''; r = r @ take (1336 - length r) path;
          r = r @ lit '' HTTP/1.1'' @ crlf @ lit ''Host: ''; r = r @ take (1416 - length r) host
      in r @ take (1534 - length r)
           (crlf @ lit ''User-Agent: Mozilla/5.0 (compatible; BlazeBrowser/1.0; AurionOS)'' @ crlf
             @ lit ''Accept: text/html,application/xhtml+xml,*/*;q=0.8'' @ crlf @ lit ''Accept-Encoding: identity'' @ crlf
             @ lit ''Connection: close'' @ crlf @ crlf))"

section \<open>Bringing the network up\<close>

fun lease_wait :: "('d \<Rightarrow> u32 \<times> 'd) \<Rightarrow> nat \<Rightarrow> nat \<Rightarrow> u32 \<Rightarrow> 'd net \<Rightarrow> 'd net option" where
  "lease_wait get_ticks k 0 start s = Some s"
| "lease_wait get_ticks k (Suc spins) start s =
     (if ip_addr (the_iface s k) \<noteq> 0 then Some s
      else
        let (now, s) = ticks get_ticks s
        in if 450 \<le> now - start then Some s
           else do { s \<leftarrow> netif_polls 24 s; lease_wait get_ticks k spins start s })"

fun lease_tries :: "('d \<Rightarrow> u32 \<times> 'd) \<Rightarrow> nat \<Rightarrow> nat \<Rightarrow> 'd net \<Rightarrow> 'd net option" where
  "lease_tries get_ticks k 0 s = Some s"
| "lease_tries get_ticks k (Suc n) s =
     (if ip_addr (the_iface s k) \<noteq> 0 then Some s
      else do {
        (r, s) \<leftarrow> dhcp_discover k s;
        s \<leftarrow> (if r = 0 then let (start, s) = ticks get_ticks s in lease_wait get_ticks k 25000 start s else Some s);
        lease_tries get_ticks k n s
      })"

definition network_ensure_ready :: "('d net \<Rightarrow> int \<times> 'd net) \<Rightarrow> ('d \<Rightarrow> u32 \<times> 'd) \<Rightarrow> 'd net \<Rightarrow> (int \<times> 'd net) option" where
  "network_ensure_ready wifi get_ticks s =
     (if (case netif_get_default s of Some k \<Rightarrow> ip_addr (the_iface s k) \<noteq> 0 | None \<Rightarrow> False) then Some (0, s)
      else
        let (r, s) = wifi s
        in if r \<noteq> 0 then Some (-1, s)
           else case netif_get_default s of
             None \<Rightarrow> Some (-1, s)
           | Some k \<Rightarrow> do {
               let (r, s) = dhcp_init s;
               s \<leftarrow> (if r = 0 then lease_tries get_ticks k 8 s else Some s);
               Some (if ip_addr (the_iface s k) \<noteq> 0 then 0 else -1, s)
             })"

section \<open>A fetch\<close>

text \<open>An operation of the network below the TLS state.\<close>

definition on_net :: "('d net \<Rightarrow> ('r \<times> 'd net) option) \<Rightarrow> 'd tls \<Rightarrow> ('r \<times> 'd tls) option" where
  "on_net f s = map_option (\<lambda>(r, n). (r, s\<lparr>tls_net := n\<rparr>)) (f (tls_net s))"

definition polls :: "nat \<Rightarrow> 'd tls \<Rightarrow> 'd tls option" where
  "polls n s = map_option (\<lambda>m. s\<lparr>tls_net := m\<rparr>) (netif_polls n (tls_net s))"

definition hang_up :: "'d tls \<Rightarrow> 'd tls option" where
  "hang_up s = do { (_, s) \<leftarrow> on_net tcp_close s; Some (tls12_client_reset s) }"

text \<open>The receive loop on the buffer of 786432 bytes, of which \<open>received\<close> are filled.\<close>

function https_receive :: "('d \<Rightarrow> u32 \<times> 'd) \<Rightarrow> bytes \<Rightarrow> nat \<Rightarrow> nat \<Rightarrow> 'd tls \<Rightarrow> (bytes \<times> nat \<times> 'd tls) option" where
  "https_receive g buf received idle_polls s =
     (if received + 4096 < 786432 then
        (case do { s \<leftarrow> polls 12 s; tls12_client_recv_app g (drop received buf) (786432 - received - 1) s } of
           None \<Rightarrow> None
         | Some (n, b, s) \<Rightarrow>
             let buf = take received buf @ b
             in if 0 < n
                then if length buf \<le> received + nat n then None
                     else https_receive g (buf[received + nat n := 0]) (received + nat n) 0 s
                else if 5 < idle_polls + 1 then Some (buf, received, s)
                else https_receive g buf received (idle_polls + 1) s)
      else Some (buf, received, s))"
  by auto
termination
  by (relation "measure (\<lambda>(g, buf, received, idle, s). 7 * (786432 - received) + (6 - idle))") auto

declare https_receive.simps [simp del]

definition https_exchange :: "('d \<Rightarrow> u32 \<times> 'd) \<Rightarrow> (nat \<Rightarrow> u32) \<Rightarrow> (nat \<Rightarrow> u32 \<Rightarrow> bytes option) \<Rightarrow> bytes \<Rightarrow> bytes \<Rightarrow> 'd tls \<Rightarrow> (int \<times> bytes option \<times> 'd tls) option" where
  "https_exchange g rt km host path s = do {
     (r, s) \<leftarrow> tls12_client_send_app rt (https_request host path) s;
     if r < 0 then do { s \<leftarrow> hang_up s; Some (-1, None, s) }
     else case km 0 786432 of
       None \<Rightarrow> do { s \<leftarrow> hang_up s; Some (-1, None, s) }
     | Some buf \<Rightarrow> do {
         (buf, received, s) \<leftarrow> https_receive g buf 0 0 s;
         s \<leftarrow> hang_up s;
         if received = 0 then Some (-1, None, s)
         else case parse_https_response (km 1) (take received buf) of
           Inl e \<Rightarrow> Some (-1, None, s)
         | Inr content \<Rightarrow> Some (0, Some content, s)
       }
   }"

definition network_https_fetch ::
  "('d net \<Rightarrow> int \<times> 'd net) \<Rightarrow> ('d \<Rightarrow> u32 \<times> 'd) \<Rightarrow> (nat \<Rightarrow> u32) \<Rightarrow> (nat \<Rightarrow> u32 \<Rightarrow> bytes option) \<Rightarrow> bytes \<Rightarrow> 'd tls \<Rightarrow> (int \<times> bytes option \<times> 'd tls) option" where
  "network_https_fetch wifi g rt km url s =
     (case parse_https_url url 128 256 of
        Inl e \<Rightarrow> Some (-1, None, s)
      | Inr (host, path, port) \<Rightarrow> do {
          (r, s) \<leftarrow> on_net (network_ensure_ready wifi g) s;
          if r \<noteq> 0 then Some (-1, None, s)
          else do {
            (ip, s) \<leftarrow> on_net (dns_resolve g host) s;
            if ip = 0 then Some (-1, None, s)
            else do {
              s \<leftarrow> polls 12 s;
              (sock, s) \<leftarrow> on_net (tcp_connect g ip port) s;
              if sock < 0 then Some (-1, None, s)
              else do {
                (th, s) \<leftarrow> tls12_client_handshake g rt host s;
                if th \<noteq> 0 then do { s \<leftarrow> hang_up s; Some (-1, None, s) }
                else https_exchange g rt km host path s
              }
            }
          }
        })"

end
