(* ===== verification/HttpFacts.thy ===== *)
theory HttpFacts
  imports Http NetDns "HOL-Library.Sublist"
begin

text \<open>
  What the HTTP client guarantees: URLs and responses are read back as they are written, the response buffer is
  never overrun, a fetch leaves no connection open, and what the limits of the parser lose.
\<close>

section \<open>URLs\<close>

lemma url_port_digits:
  "\<forall>d \<in> set ds. d < 10 \<Longrightarrow> \<not> is_digit8 (peek rest) \<Longrightarrow>
   url_port (digits ds @ rest) (of_nat n) = (of_nat (foldl (\<lambda>v d. v * 10 + d) n ds), rest)"
proof (induction ds arbitrary: n)
  case Nil
  then show ?case
    by (cases rest) (simp_all add: digits_def)
next
  case (Cons d ds)
  have d: "d < 10"
    using Cons.prems(1) by simp
  have "ucast (0x30 + of_nat d :: u8) - 0x30 = (of_nat d :: u16)"
    using digit_cases [OF d] by auto
  moreover have "(of_nat n * 10 + of_nat d :: u16) = of_nat (n * 10 + d)"
    by simp
  ultimately show ?case
    using Cons.IH [of "n * 10 + d"] Cons.prems digit_byte(1) [OF d] by (simp add: digits_def del: of_nat_add of_nat_mult)
qed

lemma startswith_ci_append: "map lower8 s = map lower8 pfx \<Longrightarrow> http_startswith_ci (s @ rest) pfx"
  by (induction pfx arbitrary: s) (auto simp: map_eq_Cons_conv)

lemma url_parts_spec:
  assumes "0x2F \<notin> set host" and "0x3A \<notin> set host" and "length host < host_max" and "length path < path_max - 1" and "\<forall>d \<in> set ds. d < 10"
  shows "url_parts host_max path_max (host @ 0x3A # digits ds @ 0x2F # path) = (host, 0x2F # path, of_nat (dec_val ds))"
    and "url_parts host_max path_max (host @ 0x2F # path) = (host, 0x2F # path, 80)"
proof -
  have stop: "url_host host_max (host @ c # r) = host" if "c = 0x2F \<or> c = 0x3A" for c r
  proof -
    have "\<forall>x \<in> set host. x \<noteq> 0x2F \<and> x \<noteq> 0x3A"
      using assms(1,2) by auto
    then have "takeWhile (\<lambda>x. x \<noteq> 0x2F \<and> x \<noteq> 0x3A) (host @ c # r) = host"
      using that by (subst takeWhile_append2) auto
    then show ?thesis
      using assms(3) by (simp add: url_host_def)
  qed
  have "url_port (digits ds @ 0x2F # path) 0 = (of_nat (dec_val ds), 0x2F # path)"
    using url_port_digits [OF assms(5), of "0x2F # path" 0] by (simp add: dec_val_def is_digit8_def)
  then show "url_parts host_max path_max (host @ 0x3A # digits ds @ 0x2F # path) = (host, 0x2F # path, of_nat (dec_val ds))"
    using assms(4) by (simp add: url_parts_def stop Let_def)
  show "url_parts host_max path_max (host @ 0x2F # path) = (host, 0x2F # path, 80)"
    using assms(4) by (simp add: url_parts_def stop Let_def)
qed

text \<open>
  A URL is taken apart into what it was put together from: a scheme in any case, a host, a decimal port
  or none, and a path that fit their arrays are found again, the port modulo 65536, and 80 where none is written.
\<close>

theorem http_parse_url_parts:
  assumes "map lower8 scheme = lit ''http://''" and "0x2F \<notin> set host" and "0x3A \<notin> set host" and "length host < host_max"
    and "length path < path_max - 1" and "is_dec ds"
  shows "http_parse_url (scheme @ host @ 0x3A # digits ds @ 0x2F # path) host_max path_max = Inr (host, 0x2F # path, of_nat (dec_val ds)) \<and>
    http_parse_url (scheme @ host @ 0x2F # path) host_max path_max = Inr (host, 0x2F # path, 80)"
proof -
  have low: "map lower8 (lit ''http://'') = lit ''http://''"
    by (simp add: lower8_def of_char_def)
  then have starts: "http_startswith_ci (scheme @ r) (lit ''http://'')" for r
    using assms(1) by (intro startswith_ci_append) simp
  have len: "length scheme = 7"
    using arg_cong [OF assms(1), of length] by (simp add: lit_def)
  have ds: "\<forall>d \<in> set ds. d < 10"
    using assms(6) by (simp add: is_dec_def)
  show ?thesis
    using url_parts_spec [OF assms(2-5) ds] starts len by (simp add: http_parse_url_def)
qed

theorem http_parse_url_parts_witness:
  "http_parse_url (lit ''Http://example.com:8080/index'') 128 128 = Inr (lit ''example.com'', lit ''/index'', 8080) \<and>
   http_parse_url (lit ''Http://example.com/index'') 128 128 = Inr (lit ''example.com'', lit ''/index'', 80)"
  using http_parse_url_parts [of "lit ''Http://''" "lit ''example.com''" 128 "lit ''index''" 128 "[8, 0, 8, 0]"]
  by (simp add: lower8_def is_dec_def dec_val_def digits_def of_char_def)

section \<open>Responses\<close>

text \<open>A response with a three-digit code.\<close>

definition response_text :: "nat list \<Rightarrow> bytes \<Rightarrow> bytes list \<Rightarrow> bytes \<Rightarrow> bytes" where
  "response_text ds reason hs b =
     lit ''HTTP/1.1 '' @ digits ds @ 0x20 # reason @ crlf @ concat (map (\<lambda>h. h @ crlf) hs) @ crlf @ b"

definition plain_line :: "bytes \<Rightarrow> bool" where
  "plain_line h \<longleftrightarrow> (\<forall>c \<in> set h. \<not> line_end c)"

lemma plain_line_text: "plain_line h \<Longrightarrow> length h \<le> n \<Longrightarrow> line_text n (h @ 13 # r) = h"
  by (simp add: line_text_def plain_line_def line_end_def takeWhile_append2)

lemma skip_crlf: "skip_eol (13 # 10 # r) = r"
  by (simp add: skip_eol_def)

lemma header_rest_line: "plain_line h \<Longrightarrow> length h \<le> 255 \<Longrightarrow> header_rest (h @ 13 # 10 # r) = r"
  by (simp add: header_rest_def plain_line_text skip_crlf)

lemma startswith_line: "13 \<notin> lower8 ` set pfx \<Longrightarrow> 0 \<notin> set pfx \<Longrightarrow> http_startswith_ci (h @ 13 # r) pfx = http_startswith_ci h pfx"
proof (induction pfx arbitrary: h)
  case (Cons c pfx)
  have "lower8 13 = 13" "lower8 c \<noteq> 0" "lower8 0 = 0"
    using Cons.prems(2) lower8_nonzero [of c] by (auto simp: lower8_def)
  then show ?case
    using Cons by (cases h) auto
qed simp

lemma length_digits_line: "length_digits (v @ 13 # r) n = length_digits v n"
  by (induction v arbitrary: n) (simp_all add: is_digit8_def)

lemma dropWhile_spaces_line: "dropWhile (\<lambda>c. c = 0x20) (v @ 13 # r :: bytes) = dropWhile (\<lambda>c. c = 0x20) v @ 13 # r"
  by (induction v) auto

lemma startswith_take: "http_startswith_ci h pfx \<Longrightarrow> 0 \<notin> set pfx \<Longrightarrow> length pfx \<le> length h"
proof (induction pfx arbitrary: h)
  case (Cons c pfx)
  then show ?case
    using lower8_nonzero [of c] by (cases h) (auto simp: lower8_def)
qed simp

text \<open>The pfx ends with a colon, so the header has one.\<close>

lemma startswith_colon: "http_startswith_ci h (pfx @ [0x3A]) \<Longrightarrow> 0x3A \<in> set h"
proof (induction pfx arbitrary: h)
  case Nil
  then show ?case
    by (cases h) (auto simp: lower8_def split: if_splits)
next
  case (Cons c pfx)
  have "0x3A \<in> set (tl h)"
    using Cons by simp
  then show ?case
    by (cases h) auto
qed

lemma header_length_line:
  assumes "0 \<notin> set h"
  shows "header_length (h @ 13 # r) n = header_length h n"
proof -
  let ?p = "lit ''Content-Length:''"
  have p: "13 \<notin> lower8 ` set ?p" "0 \<notin> set ?p"
    by (simp_all add: lower8_def of_char_def)
  show ?thesis
  proof (cases "http_startswith_ci h ?p")
    case True
    then have "0x3A \<in> set h"
      using startswith_colon [of h "lit ''Content-Length''"] by (simp add: of_char_def)
    then obtain a b where h: "h = a @ 0x3A # b" "0x3A \<notin> set a"
      by (meson split_list_first)
    then have "dropWhile (\<lambda>c. c \<noteq> 0 \<and> c \<noteq> 0x3A) (h @ r') = 0x3A # b @ r'" for r'
      using assms by (auto simp: dropWhile_append3)
    from this [of "13 # r"] this [of "[]"] show ?thesis
      by (simp only: header_length_def startswith_line [OF p] True if_True append_Nil2)
        (simp add: dropWhile_spaces_line length_digits_line)
  qed (simp only: header_length_def startswith_line [OF p] if_False)
qed

text \<open>A header line as the standard has it: a name in any case and a colon.\<close>

definition has_name :: "string \<Rightarrow> bytes \<Rightarrow> bool" where
  "has_name name h \<longleftrightarrow> map lower8 (take (length name + 1) h) = map lower8 (lit name) @ [0x3A]"

lemma startswith_iff: "0 \<notin> set pfx \<Longrightarrow> http_startswith_ci h pfx \<longleftrightarrow> map lower8 (take (length pfx) h) = map lower8 pfx"
proof (induction pfx arbitrary: h)
  case (Cons c pfx)
  have "lower8 0 \<noteq> lower8 c"
    using Cons.prems lower8_nonzero [of c] by (auto simp: lower8_def)
  then show ?case
    using Cons by (cases h) auto
qed simp

lemma startswith_has_name:
  "0 \<notin> set (lit name) \<Longrightarrow> http_startswith_ci h (lit name @ [0x3A]) = has_name name h"
proof -
  assume "0 \<notin> set (lit name)"
  then have "http_startswith_ci h (lit name @ [0x3A]) \<longleftrightarrow> map lower8 (take (length (lit name @ [0x3A :: u8])) h) = map lower8 (lit name @ [0x3A])"
    by (intro startswith_iff) simp
  moreover have "lower8 0x3A = 0x3A" "length (lit name) = length name"
    by (simp_all add: lower8_def lit_def)
  ultimately show ?thesis
    by (simp add: has_name_def)
qed

lemma known_names:
  "lit ''Content-Length:'' = lit ''Content-Length'' @ [0x3A]" "lit ''Transfer-Encoding:'' = lit ''Transfer-Encoding'' @ [0x3A]"
  "0 \<notin> set (lit ''Content-Length'')" "0 \<notin> set (lit ''Transfer-Encoding'')"
  by (simp_all add: of_char_def)

lemma strstr_sublist: "needle \<noteq> [] \<Longrightarrow> http_strstr s needle \<noteq> None \<longleftrightarrow> sublist needle s"
proof (induction s)
  case (Cons c s)
  have "take (length needle) (c # s) = needle \<longleftrightarrow> prefix needle (c # s)"
    by (auto simp: prefix_def take_all_iff dest: sym) (metis append_take_drop_id)
  then show ?case
    using Cons by (simp add: sublist_Cons_right)
qed simp

text \<open>The lines from some header on, and whether one of them switches to chunks.\<close>

definition lines_crlf :: "bytes list \<Rightarrow> bytes" where
  "lines_crlf hs = concat (map (\<lambda>h. h @ crlf) hs)"

definition says_chunks :: "bytes list \<Rightarrow> bytes \<Rightarrow> bool" where
  "says_chunks hs rest \<longleftrightarrow> (\<exists>i < length hs. has_name ''Transfer-Encoding'' (hs ! i) \<and>
     sublist (lit ''chunked'') (cstr (lines_crlf (drop i hs) @ rest)))"

lemma says_chunks_Cons:
  "says_chunks (h # hs) rest \<longleftrightarrow> header_chunked (lines_crlf (h # hs) @ rest) \<or> says_chunks hs rest"
proof -
  have p: "13 \<notin> lower8 ` set (lit ''Transfer-Encoding:'')" "0 \<notin> set (lit ''Transfer-Encoding:'')" "lit ''chunked'' \<noteq> []"
    by (simp_all add: lower8_def of_char_def)
  have "lines_crlf (h # hs) @ rest = h @ 13 # 10 # lines_crlf hs @ rest"
    by (simp add: lines_crlf_def crlf_def)
  then have "header_chunked (lines_crlf (h # hs) @ rest) \<longleftrightarrow>
      has_name ''Transfer-Encoding'' h \<and> sublist (lit ''chunked'') (cstr (lines_crlf (h # hs) @ rest))"
    using startswith_line [OF p(1,2)] startswith_has_name [OF known_names(4), of h]
    by (simp only: header_chunked_def strstr_sublist [OF p(3)] known_names(2))
  then show ?thesis
    unfolding says_chunks_def by (auto simp: less_Suc_eq_0_disj)
qed

definition header_ok :: "bytes \<Rightarrow> bool" where
  "header_ok h \<longleftrightarrow> h \<noteq> [] \<and> length h \<le> 255 \<and> plain_line h"

lemma parse_headers_lines:
  assumes "\<forall>h \<in> set hs. header_ok h" and "line_end (peek rest)"
  shows "length (headers r) + length hs \<le> 16 \<Longrightarrow>
    parse_headers (lines_crlf hs @ rest) r =
      (r\<lparr>headers := headers r @ hs, content_length := fold header_length hs (content_length r), chunked := chunked r \<or> says_chunks hs rest\<rparr>, rest)"
  using assms(1)
proof (induction hs arbitrary: r)
  case Nil
  then show ?case
    using assms(2) by (subst parse_headers.simps) (simp add: lines_crlf_def says_chunks_def)
next
  case (Cons h hs)
  let ?tail = "lines_crlf hs @ rest"
  have e: "lines_crlf (h # hs) @ rest = h @ 13 # 10 # ?tail"
    by (simp add: lines_crlf_def crlf_def)
  have h: "header_ok h" "0 \<notin> set h"
    using Cons.prems(2) by (auto simp: header_ok_def plain_line_def line_end_def)
  have ln: "line_text 255 (h @ 13 # 10 # ?tail) = h" "header_rest (h @ 13 # 10 # ?tail) = ?tail"
    using h(1) by (simp_all add: header_ok_def plain_line_text header_rest_line)
  let ?r = "r\<lparr>headers := headers r @ [h], content_length := header_length h (content_length r),
    chunked := chunked r \<or> header_chunked (lines_crlf (h # hs) @ rest)\<rparr>"
  have "\<not> line_end (peek (h @ 13 # 10 # ?tail))"
    using h(1) by (cases h) (auto simp: header_ok_def plain_line_def)
  then have "parse_headers (h @ 13 # 10 # ?tail) r = parse_headers ?tail ?r"
    using Cons.prems(1) ln header_length_line [OF h(2)] by (subst parse_headers.simps) (simp add: e)
  then show ?case
    using Cons.IH [of ?r] Cons.prems unfolding e says_chunks_Cons by (simp add: e disj_assoc)
qed

text \<open>Announced lengths: a name, blanks and decimal digits.\<close>

definition length_line :: "bytes \<times> nat \<times> nat list \<Rightarrow> bytes" where
  "length_line a = (case a of (name, k, ls) \<Rightarrow> name @ 0x3A # replicate k 0x20 @ digits ls)"

lemma length_digits_value:
  "\<forall>d \<in> set ls. d < 10 \<Longrightarrow> length_digits (digits ls) (of_nat m) = of_nat (foldl (\<lambda>v d. v * 10 + d) m ls)"
proof (induction ls arbitrary: m)
  case (Cons d ls)
  have d: "d < 10"
    using Cons.prems by simp
  have "ucast (0x30 + of_nat d :: u8) - 0x30 = (of_nat d :: u32)"
    using digit_cases [OF d] by auto
  moreover have "(of_nat m * 10 + of_nat d :: u32) = of_nat (m * 10 + d)"
    by simp
  ultimately show ?case
    using Cons.IH [of "m * 10 + d"] Cons.prems digit_byte(1) [OF d] by (simp add: digits_def del: of_nat_add of_nat_mult)
qed (simp add: digits_def)

definition announces :: "bytes \<times> nat \<times> nat list \<Rightarrow> bool" where
  "announces a \<longleftrightarrow> (case a of (name, k, ls) \<Rightarrow> map lower8 name = map lower8 (lit ''Content-Length'') \<and> (\<forall>d \<in> set ls. d < 10))"

definition digits_of :: "bytes \<times> nat \<times> nat list \<Rightarrow> nat list" where
  "digits_of a = snd (snd a)"

lemma header_length_value:
  assumes "announces a"
  shows "header_length (length_line a) (of_nat m) = of_nat (foldl (\<lambda>v d. v * 10 + d) m (digits_of a))"
proof -
  obtain name k ls where a: "a = (name, k, ls)"
    by (cases a)
  have name: "map lower8 name = map lower8 (lit ''Content-Length'')" and ls: "\<forall>d \<in> set ls. d < 10"
    using assms by (simp_all add: announces_def a)
  have plain: "\<forall>c \<in> set (map lower8 (lit ''Content-Length'')). c \<noteq> 0 \<and> c \<noteq> 0x3A"
    by (simp add: lower8_def of_char_def)
  have "\<forall>c \<in> set name. c \<noteq> 0 \<and> c \<noteq> 0x3A"
  proof
    fix c
    assume "c \<in> set name"
    then have "lower8 c \<in> set (map lower8 (lit ''Content-Length''))"
      by (metis name imageI list.set_map)
    then have "lower8 c \<noteq> 0" "lower8 c \<noteq> 0x3A"
      using plain by blast+
    then show "c \<noteq> 0 \<and> c \<noteq> 0x3A"
      by (auto simp: lower8_def)
  qed
  then have to_colon: "dropWhile (\<lambda>c. c \<noteq> 0 \<and> c \<noteq> 0x3A) (name @ 0x3A # r) = 0x3A # r" for r
    by (subst dropWhile_append2) auto
  have blanks: "dropWhile (\<lambda>c. c = 0x20) (replicate k 0x20 @ digits ls) = digits ls"
  proof -
    have "dropWhile (\<lambda>c. c = 0x20) (digits ls) = digits ls"
    proof (cases ls)
      case (Cons d ds)
      then have "0x30 + of_nat d \<noteq> (0x20 :: u8)"
        using digit_cases [of d] ls by auto
      then show ?thesis
        by (simp add: Cons digits_def)
    qed (simp add: digits_def)
    then show ?thesis
      by (simp add: dropWhile_append)
  qed
  have "http_startswith_ci (length_line a) (lit ''Content-Length:'')"
  proof -
    have "length_line a = (name @ [0x3A]) @ replicate k 0x20 @ digits ls"
      by (simp add: length_line_def a)
    moreover have "http_startswith_ci ((name @ [0x3A]) @ r) (lit ''Content-Length'' @ [0x3A])" for r
      by (rule startswith_ci_append) (simp only: map_append name)
    ultimately show ?thesis
      by (simp only: known_names)
  qed
  then have "header_length (length_line a) n = length_digits (digits ls) n" for n
    using to_colon blanks by (simp add: header_length_def length_line_def a)
  then show ?thesis
    using length_digits_value [OF ls] by (simp add: digits_of_def a)
qed

text \<open>Only the lines that announce a length count, and their digits run together.\<close>

lemma announced_lengths:
  "\<forall>h \<in> set hs. header_ok h \<Longrightarrow> filter (has_name ''Content-Length'') hs = map length_line ann \<Longrightarrow> \<forall>a \<in> set ann. announces a \<Longrightarrow>
   fold header_length hs (of_nat m) = of_nat (foldl (\<lambda>v d. v * 10 + d) m (concat (map digits_of ann)))"
proof (induction hs arbitrary: ann m)
  case (Cons h hs)
  show ?case
  proof (cases "has_name ''Content-Length'' h")
    case True
    then obtain a ann' where a: "ann = a # ann'" "h = length_line a" "filter (has_name ''Content-Length'') hs = map length_line ann'"
      using Cons.prems(2) by (cases ann) auto
    then show ?thesis
      using Cons header_length_value [of a m] by simp
  next
    case False
    then have "\<not> http_startswith_ci h (lit ''Content-Length:'')"
      using startswith_has_name [of "''Content-Length''" h] by (simp only: known_names not_False_eq_True)
    then have "header_length h n = n" for n
      by (simp only: header_length_def if_False)
    then show ?thesis
      using Cons False by simp
  qed
qed simp

lemma status_digits_three:
  assumes "\<forall>d \<in> set ds. d < 10" and "length ds = 3"
  shows "status_digits (digits ds @ 0x20 # r) 0 = (int (dec_val ds), 0x20 # r)"
proof -
  obtain a b c where ds: "ds = [a, b, c]"
    using assms(2) by (auto simp: numeral_eq_Suc length_Suc_conv)
  have abc: "a < 10" "b < 10" "c < 10"
    using assms(1) by (simp_all add: ds)
  have u: "uint (0x30 + of_nat d :: u8) = 0x30 + int d" if "d < 10" for d
    using digit_cases [OF that] by auto
  have step: "status_digits ((0x30 + of_nat d) # p) (int n) = status_digits p (int (n * 10 + d))" if "d < 10" "n < 100" for d n p
    using digit_byte(1) [OF that(1)] u [OF that(1)] sint_of_nat_small [of "n * 10 + d"] that by (simp add: algebra_simps)
  have "status_digits (0x20 # r) n = (n, 0x20 # r)" for n
    by (simp add: is_digit8_def)
  then show ?thesis
    using step [of a 0] step [of b a] step [of c "a * 10 + b"] abc by (simp add: ds digits_def dec_val_def del: status_digits.simps)
qed

text \<open>
  C22: A response is read back as it was written: for a three-digit status, a reason of up to 63 characters and up to 16 header
  lines of up to 255, \<open>http_parse_response\<close> returns them in order. The length is the number that the \<open>Content-Length\<close>
  line announces modulo \<open>2 ^ 32\<close>, 0 without such a line, and of several lines the number that all their digits make in a row; the response is
  chunked when the word occurs anywhere from a \<open>Transfer-Encoding\<close> line on, the body included. The body is returned unless it has 32768 bytes
  or more, which are lost without an error.
\<close>

theorem http_response_roundtrip:
  assumes "\<forall>d \<in> set ds. d < 10" and "length ds = 3" and "plain_line reason" and "length reason \<le> 63"
    and "\<forall>h \<in> set hs. header_ok h" and "length hs \<le> 16"
    and "filter (has_name ''Content-Length'') hs = map length_line ann" and "\<forall>a \<in> set ann. announces a"
  shows "http_parse_response (response_text ds reason hs b) old =
    (0, \<lparr>status_code = int (dec_val ds), status_text = reason, headers = hs, body = (if length b < 32768 then b else []),
      content_length = of_nat (dec_val (concat (map digits_of ann))), chunked = says_chunks hs (crlf @ b)\<rparr>)"
proof -
  let ?raw = "response_text ds reason hs b"
  have "16 \<le> length ?raw"
    using assms(2) by (simp add: response_text_def crlf_def digits_def of_char_def)
  moreover have "dropWhile (\<lambda>c. c \<noteq> 0 \<and> c \<noteq> 0x20) ?raw = 0x20 # digits ds @ 0x20 # reason @ crlf @ lines_crlf hs @ crlf @ b"
    by (simp add: response_text_def lines_crlf_def of_char_def)
  moreover have "line_text 63 (reason @ crlf @ r) = reason" for r
    using plain_line_text [OF assms(3,4)] by (simp add: crlf_def)
  moreover have "parse_headers (lines_crlf hs @ crlf @ b) r =
      (r\<lparr>headers := headers r @ hs, content_length := fold header_length hs (content_length r), chunked := chunked r \<or> says_chunks hs (crlf @ b)\<rparr>, crlf @ b)"
    if "headers r = []" for r
    using parse_headers_lines [OF assms(5), of "crlf @ b" r] assms(6) that by (simp add: crlf_def line_end_def)
  moreover have "fold header_length hs 0 = of_nat (dec_val (concat (map digits_of ann)))"
    using announced_lengths [OF assms(5,7,8), of 0] by (simp add: dec_val_def)
  moreover have "skip_eol (crlf @ r) = r" for r
    by (simp add: crlf_def skip_crlf)
  ultimately show ?thesis
    using status_digits_three [OF assms(1,2)] by (simp add: http_parse_response_def Let_def)
qed

theorem http_response_roundtrip_witness:
  "http_parse_response (response_text [2, 0, 0] (lit ''OK'') [lit ''Server: test'', lit ''content-LENGTH: 42'', lit ''Transfer-Encoding: chunked''] (lit ''Hello''))
     \<lparr>status_code = 0, status_text = [], headers = [], body = [], content_length = 7, chunked = True\<rparr> =
   (0, \<lparr>status_code = 200, status_text = lit ''OK'', headers = [lit ''Server: test'', lit ''content-LENGTH: 42'', lit ''Transfer-Encoding: chunked''],
      body = lit ''Hello'', content_length = 42, chunked = True\<rparr>)"
proof -
  let ?hs = "[lit ''Server: test'', lit ''content-LENGTH: 42'', lit ''Transfer-Encoding: chunked'']" and ?a = "(lit ''content-LENGTH'', 1, [4, 2])"
  have "\<forall>h \<in> set ?hs. header_ok h" "plain_line (lit ''OK'')"
    by (simp_all add: header_ok_def plain_line_def line_end_def of_char_def)
  moreover have "filter (has_name ''Content-Length'') ?hs = map length_line [?a]" "\<forall>a \<in> set [?a]. announces a"
    by (simp_all add: has_name_def length_line_def announces_def lower8_def digits_def of_char_def)
  moreover have "says_chunks ?hs (crlf @ lit ''Hello'')"
  proof -
    have "cstr (lines_crlf (drop 2 ?hs) @ crlf @ lit ''Hello'') = lit ''Transfer-Encoding: '' @ lit ''chunked'' @ crlf @ crlf @ lit ''Hello''"
      by (simp add: lines_crlf_def crlf_def cstr_def of_char_def)
    moreover have "sublist (lit ''chunked'') (lit ''Transfer-Encoding: '' @ lit ''chunked'' @ crlf @ crlf @ lit ''Hello'')"
      unfolding sublist_def by blast
    moreover have "has_name ''Transfer-Encoding'' (?hs ! 2)"
      by (simp add: has_name_def lower8_def of_char_def)
    ultimately show ?thesis
      unfolding says_chunks_def by (intro exI [of _ 2]) simp
  qed
  ultimately show ?thesis
    using http_response_roundtrip [of "[2, 0, 0]" "lit ''OK''" ?hs "[?a]" "lit ''Hello''"]
    by (simp add: dec_val_def digits_of_def)
qed

section \<open>A fetch\<close>

lemma tcp_receive_length:
  assumes "net_ok s" and "tcp_receive g n s = Some (d, s')"
  shows "length d \<le> unat n" and "net_ok s'"
proof -
  obtain start s1 s2 where 1: "ticks g s = (start, s1)" and 2: "receive_wait g 80000 start s1 = Some s2" and 3: "tcp_take n s2 = Some (d, s')"
    using assms(2) unfolding tcp_receive_def Let_def by (auto split: prod.splits simp del: receive_wait.simps elim!: bind_SomeE)
  have "net_ok s2"
    using receive_wait_ok [OF 2] ticks_ok [OF 1] assms(1) by simp
  then have "tcb_ok (tcb s2)"
    by (simp add: net_ok_def)
  from tcp_take_effect [OF this, of n] 3 show "length d \<le> unat n"
    by auto
  show "net_ok s'"
    by (rule tcp_receive_ok [OF assms(2,1)])
qed

lemma receive_fits:
  assumes "net_ok s" and "length buf \<le> 65535" and "http_receive g buf idle s = Some (raw, s')"
  shows "length raw \<le> 65535 \<and> net_ok s' \<and> take (length buf) raw = buf"
  using assms
proof (induction g buf idle s rule: http_receive.induct)
  case (1 g buf idle s)
  show ?case
  proof (cases "length buf < 65535")
    case True
    then obtain d t where d: "tcp_receive g (of_nat (65535 - length buf)) s = Some (d, t)"
      using "1.prems"(3) by (subst (asm) http_receive.simps) (auto split: option.splits)
    let ?idle = "if d = [] then idle + 1 else 0"
    have "unat (of_nat (65535 - length buf) :: u32) = 65535 - length buf"
      by (intro unat_of_nat_small) simp
    then have "length d \<le> 65535 - length buf" "net_ok t"
      using tcp_receive_length [OF "1.prems"(1) d] by simp_all
    then have fits: "length (buf @ d) \<le> 65535" "net_ok t"
      using True by simp_all
    show ?thesis
    proof (cases "5 < ?idle")
      case stop: True
      then have "raw = buf @ d" "s' = t"
        using "1.prems"(3) True d by (subst (asm) http_receive.simps, simp add: Let_def)+
      then show ?thesis
        using fits by simp
    next
      case go: False
      then have "http_receive g (buf @ d) ?idle t = Some (raw, s')"
        using "1.prems"(3) True d by (subst (asm) http_receive.simps) (simp add: Let_def)
      then have r: "length raw \<le> 65535" "net_ok s'" "take (length (buf @ d)) raw = buf @ d"
        using "1.IH" [OF True d refl refl go fits(2,1)] by simp_all
      have "take (length buf) raw = take (length buf) (take (length (buf @ d)) raw)"
        by simp
      also have "\<dots> = buf"
        by (simp only: r(3)) simp
      finally show ?thesis
        using r(1,2) by simp
    qed
  next
    case False
    then have "raw = buf \<and> s' = s"
      using "1.prems"(3) by (subst (asm) http_receive.simps) simp
    then show ?thesis
      using "1.prems" by simp
  qed
qed

text \<open>
  The response buffer is never overrun: from every consistent state of the network, the receive loop of a fetch
  stops with at most 65535 bytes, which leaves room for the terminator in the array of 65536.
\<close>

theorem http_receive_bounds:
  assumes "net_ok s" and "http_receive g [] 0 s = Some (raw, s')"
  shows "length raw \<le> 65535 \<and> net_ok s'"
  using receive_fits [OF assms(1) _ assms(2)] by simp

lemma receive_closed:
  assumes "tcb_state (tcb s) \<noteq> TCP_ESTABLISHED" and "rx_len (tcb s) = 0"
  shows "tcp_receive (\<lambda>d. (0, d)) n s = Some ([], s)"
proof -
  have "receive_wait g (Suc k) 0 s = Some s" for g k
    using assms(1) by simp
  from this [of _ 79999] have "receive_wait g 80000 0 s = Some s" for g
    by simp
  then show ?thesis
    using assms(2) by (simp add: tcp_receive_def ticks_def tcp_take_def Let_def)
qed

lemma http_receive_closed:
  assumes "tcb_state (tcb s) \<noteq> TCP_ESTABLISHED" and "rx_len (tcb s) = 0"
  shows "http_receive (\<lambda>d. (0, d)) [] 0 s = Some ([], s)"
proof -
  have step: "http_receive (\<lambda>d. (0, d)) [] i s = (if 5 < i + 1 then Some ([], s) else http_receive (\<lambda>d. (0, d)) [] (i + 1) s)" for i
    by (subst http_receive.simps) (simp add: receive_closed [OF assms])
  show ?thesis
    using step [of 0] step [of 1] step [of 2] step [of 3] step [of 4] step [of 5] by (simp add: eval_nat_numeral)
qed

theorem http_receive_bounds_witness:
  "\<exists>raw s'. http_receive (\<lambda>d. (0, d)) [] 0 (boot_net ()) = Some (raw, s') \<and> length raw \<le> 65535 \<and> net_ok s'"
proof -
  have "http_receive (\<lambda>d. (0, d)) [] 0 (boot_net ()) = Some ([], boot_net ())"
    by (rule http_receive_closed) (simp_all add: boot_net_def)
  from http_receive_bounds [OF boot_net_ok this] this show ?thesis
    by blast
qed

lemma tcp_close_closes: "tcp_close s = Some (r, s') \<Longrightarrow> tcb_state (tcb s') \<noteq> TCP_ESTABLISHED"
  by (auto simp: tcp_close_def split: if_splits elim!: bind_SomeE)

text \<open>
  A fetch leaves no connection open: once the host has been resolved, \<open>http_get_ex\<close> returns 0 or -1 and the connection is not
  established any more, whether connecting, building, sending, receiving or parsing ended it.
\<close>

theorem http_get_ex_closes:
  assumes "http_get_ex g request old s = Some (r, response, s')" and "dns_resolve g (req_host request) s = Some (ip, t)" and "ip \<noteq> 0"
  shows "(r = 0 \<or> r = -1) \<and> tcb_state (tcb s') \<noteq> TCP_ESTABLISHED"
proof -
  obtain c u where c: "tcp_connect g ip (req_port request) t = Some (c, u)"
    and e: "(if c < 0 then Some (-1, old, u) else http_exchange g request old u) = Some (r, response, s')"
    using assms by (auto simp: http_get_ex_def elim!: bind_SomeE)
  show ?thesis
  proof (cases "c < 0")
    case True
    then show ?thesis
      using e tcp_connect_outcome [OF c] by auto
  next
    case False
    then have x: "http_exchange g request old u = Some (r, response, s')"
      using e by simp
    have finish: "(r = 0 \<or> r = -1) \<and> tcb_state (tcb s') \<noteq> TCP_ESTABLISHED" if "http_finish raw old v = Some (r, response, s')" for raw v
    proof -
      have "fst (http_parse_response raw old) = 0 \<or> fst (http_parse_response raw old) = -1"
        by (simp add: http_parse_response_def Let_def split: prod.split)
      then show ?thesis
        using that by (auto simp: http_finish_def split: prod.splits elim!: bind_SomeE dest: tcp_close_closes)
    qed
    show ?thesis
    proof (cases "http_build_request request 1024")
      case (Inl e)
      then show ?thesis
        using x by (auto simp: http_exchange_def elim!: bind_SomeE dest: tcp_close_closes)
    next
      case (Inr buf)
      then obtain q v where "tcp_send buf u = Some (q, v)"
        and w: "(if q < 0 then do { (_, s) \<leftarrow> tcp_close v; Some (-1, old, s) } else do { (raw, s) \<leftarrow> http_receive g [] 0 v; http_finish raw old s }) = Some (r, response, s')"
        using x by (auto simp: http_exchange_def elim!: bind_SomeE)
      then show ?thesis
        by (cases "q < 0") (auto elim!: bind_SomeE dest: tcp_close_closes dest!: finish)
    qed
  qed
qed

theorem http_get_ex_closes_witness:
  "\<exists>r response s'. http_get_ex (\<lambda>d. (0, d)) \<lparr>req_host = lit ''10.0.0.1'', req_path = lit ''/'', req_port = 80, custom_headers = []\<rparr>
     \<lparr>status_code = 0, status_text = [], headers = [], body = [], content_length = 0, chunked = False\<rparr> (boot_net ()) = Some (r, response, s') \<and>
     (r = 0 \<or> r = -1) \<and> tcb_state (tcb s') \<noteq> TCP_ESTABLISHED"
proof -
  let ?q = "\<lparr>req_host = lit ''10.0.0.1'', req_path = lit ''/'', req_port = 80, custom_headers = []\<rparr>"
    and ?old = "\<lparr>status_code = 0, status_text = [], headers = [], body = [], content_length = 0, chunked = False\<rparr>"
  have dns: "dns_resolve (\<lambda>d. (0, d)) (req_host ?q) (boot_net ()) = Some (0x0A000001, boot_net ())"
  proof -
    have "is_ipv4_literal (lit ''10.0.0.1'')" "parse_ip_literal (lit ''10.0.0.1'') = 0x0A000001"
      by code_simp+
    then show ?thesis
      by (simp only: dns_resolve_def http_request.simps if_True)
  qed
  moreover obtain r s' where "tcp_connect (\<lambda>d. (0, d)) 0x0A000001 80 (boot_net ()) = Some (r, s')" "r = -1"
    by (simp add: tcp_connect_def ticks_def boot_net_def netif_get_default_def upd_tcb_def Let_def)
  ultimately have "http_get_ex (\<lambda>d. (0, d)) ?q ?old (boot_net ()) = Some (-1, ?old, s')"
    by (simp add: http_get_ex_def)
  from http_get_ex_closes [OF this dns] this show ?thesis
    by auto
qed

end
