(* ===== verification/HttpsFacts.thy ===== *)
theory HttpsFacts
  imports Https HttpFacts
begin

text \<open>
  What the HTTPS client guarantees: the content of a response is what follows its header, cut to the announced length,
  and a fetch ends with the encryption switched off.
\<close>

section \<open>The end of the header\<close>

definition line_ok :: "bytes \<Rightarrow> bool" where
  "line_ok h \<longleftrightarrow> h \<noteq> [] \<and> 13 \<notin> set h \<and> 10 \<notin> set h"

definition lines_text :: "bytes list \<Rightarrow> bytes" where
  "lines_text hs = concat (map (\<lambda>h. h @ crlf) (butlast hs)) @ last hs"

lemma lines_text_Cons: "hs \<noteq> [] \<Longrightarrow> lines_text (h # hs) = h @ crlf @ lines_text hs"
  by (simp add: lines_text_def)

lemma lines_text_crlf: "hs \<noteq> [] \<Longrightarrow> concat (map (\<lambda>h. h @ crlf) hs) = lines_text hs @ crlf"
proof (induction hs)
  case (Cons h hs)
  then show ?case
    by (cases "hs = []") (simp_all add: lines_text_Cons, simp add: lines_text_def)
qed simp

lemma strstr_skip: "13 \<notin> set a \<Longrightarrow> http_strstr (a @ r) (13 # ps) = map_option ((+) (length a)) (http_strstr r (13 # ps))"
  by (cases "http_strstr r (13 # ps)"; induction a) auto

lemma strstr_lines:
  "hs \<noteq> [] \<Longrightarrow> \<forall>h \<in> set hs. line_ok h \<Longrightarrow> http_strstr (lines_text hs @ crlf @ crlf @ b) [13, 10, 13, 10] = Some (length (lines_text hs))"
proof (induction hs)
  case (Cons h hs)
  have h: "13 \<notin> set h"
    using Cons.prems(2) by (simp add: line_ok_def)
  show ?case
  proof (cases "hs = []")
    case True
    then show ?thesis
      using strstr_skip [OF h, of "crlf @ crlf @ b" "[10, 13, 10]"] by (simp add: lines_text_def crlf_def)
  next
    case False
    then obtain c t where "lines_text hs = c # t" "c \<noteq> 13"
      using Cons.prems(2) by (cases hs; cases "tl hs = []"; cases "hd hs") (auto simp: lines_text_def line_ok_def crlf_def)
    then have "http_strstr (crlf @ lines_text hs @ crlf @ crlf @ b) [13, 10, 13, 10] = map_option ((+) 2) (http_strstr (lines_text hs @ crlf @ crlf @ b) [13, 10, 13, 10])"
      by (simp add: crlf_def option.map_comp o_def)
    then show ?thesis
      using strstr_skip [OF h, of "crlf @ lines_text hs @ crlf @ crlf @ b" "[10, 13, 10]"] Cons.IH Cons.prems(2) False
      by (simp add: lines_text_Cons crlf_def)
  qed
qed simp

lemma header_end_lines:
  assumes "hs \<noteq> []" and "\<forall>h \<in> set hs. line_ok h"
  shows "find_http_header_end_hs (lines_text hs @ crlf @ crlf @ b) = Some (length (lines_text hs) + 4)"
    and "http_header_text_len_hs (lines_text hs @ crlf @ crlf @ b) (length (lines_text hs) + 4) = length (lines_text hs)"
  using strstr_lines [OF assms, of b] by (simp_all add: find_http_header_end_hs_def http_header_text_len_hs_def crlf_def)

section \<open>The lines\<close>

definition announced :: "bytes \<Rightarrow> int \<Rightarrow> int" where
  "announced h cl = (if hdr_name_match h (lit ''Content-Length'') then line_value h else cl)"

lemma line_no_eol: "line_ok h \<Longrightarrow> c \<in> set h \<Longrightarrow> \<not> eol c"
  by (auto simp: line_ok_def eol_def)

lemma first_line:
  assumes "line_ok h" and "\<forall>h \<in> set hs. line_ok h"
  shows "takeWhile (\<lambda>c. \<not> eol c) (lines_text (h # hs)) = h"
    and "dropWhile eol (dropWhile (\<lambda>c. \<not> eol c) (lines_text (h # hs))) = (if hs = [] then [] else lines_text hs)"
    and "lines_text (h # hs) \<noteq> []"
proof -
  have h: "\<forall>c \<in> set h. \<not> eol c" "h \<noteq> []"
    using line_no_eol [OF assms(1)] assms(1) by (auto simp: line_ok_def)
  have "takeWhile (\<lambda>c. \<not> eol c) (lines_text (h # hs)) = h \<and>
    dropWhile eol (dropWhile (\<lambda>c. \<not> eol c) (lines_text (h # hs))) = (if hs = [] then [] else lines_text hs)"
  proof (cases "hs = []")
    case True
    have "takeWhile (\<lambda>c. \<not> eol c) h = h" "dropWhile (\<lambda>c. \<not> eol c) h = []"
      using h(1) by (simp_all add: takeWhile_eq_all_conv dropWhile_eq_Nil_conv)
    then show ?thesis
      using True by (simp add: lines_text_def del: dropWhile_eq_Nil_conv)
  next
    case False
    then obtain c t where ct: "lines_text hs = c # t" "\<not> eol c"
      using assms(2) line_no_eol by (cases hs; cases "tl hs = []"; cases "hd hs") (auto simp: lines_text_def line_ok_def crlf_def eol_def)
    have "takeWhile (\<lambda>c. \<not> eol c) (h @ crlf @ lines_text hs) = h" "dropWhile (\<lambda>c. \<not> eol c) (h @ crlf @ lines_text hs) = crlf @ lines_text hs"
      using h(1) by (simp_all add: takeWhile_append2 dropWhile_append2 crlf_def eol_def)
    moreover have "dropWhile eol (crlf @ lines_text hs) = lines_text hs"
      using ct by (simp add: crlf_def eol_def)
    ultimately show ?thesis
      using False by (simp add: lines_text_Cons)
  qed
  then show "takeWhile (\<lambda>c. \<not> eol c) (lines_text (h # hs)) = h"
    "dropWhile eol (dropWhile (\<lambda>c. \<not> eol c) (lines_text (h # hs))) = (if hs = [] then [] else lines_text hs)"
    by simp_all
  show "lines_text (h # hs) \<noteq> []"
    using h(2) by (cases "hs = []") (auto simp: lines_text_def)
qed

lemma scan_lines_text: "hs \<noteq> [] \<Longrightarrow> \<forall>h \<in> set hs. line_ok h \<Longrightarrow> scan_lines (lines_text hs) cl = fold announced hs cl"
proof (induction hs arbitrary: cl)
  case (Cons h hs)
  have e: "scan_lines [] cl = cl" for cl
    by (subst scan_lines.simps) simp
  have "scan_lines (lines_text (h # hs)) cl = scan_lines (if hs = [] then [] else lines_text hs) (announced h cl)"
    using first_line [of h hs] Cons.prems(2) by (subst scan_lines.simps) (simp add: announced_def Let_def)
  then show ?case
    using Cons by (auto simp: e)
qed simp

text \<open>Which lines announce a length, and the number that the last of them gives.\<close>

lemma lower8_colon [simp]: "lower8 c = 0x3A \<longleftrightarrow> c = 0x3A"
proof
  assume low: "lower8 c = 0x3A"
  show "c = 0x3A"
  proof (cases "0x41 \<le> c \<and> c \<le> 0x5A")
    case True
    then have "0x61 \<le> unat c + 0x20" "unat (c + 0x20) = unat c + 0x20"
      by (simp_all add: word_le_nat_alt unat_word_ariths)
    then show ?thesis
      using low True by (simp add: lower8_def)
  next
    case False
    then show ?thesis
      using low by (auto simp: lower8_def split: if_splits)
  qed
qed (simp add: lower8_def)

lemma name_match_prefix: "hdr_name_match h n \<longleftrightarrow> map lower8 (take (length n + 1) h) = map lower8 n @ [0x3A]"
proof (induction h n rule: hdr_name_match.induct)
  case (1 h)
  then show ?case
    by (cases h) auto
qed auto

lemma name_match_has_name: "hdr_name_match h (lit name) \<longleftrightarrow> has_name name h"
  by (simp add: name_match_prefix has_name_def lit_def)

lemma line_value_length:
  assumes "announces a" and "dec_val (digits_of a) < 2 ^ 31"
  shows "line_value (length_line a) = int (dec_val (digits_of a))"
proof -
  obtain name k ls where a: "a = (name, k, ls)"
    by (cases a)
  have name: "map lower8 name = map lower8 (lit ''Content-Length'')" and ls: "\<forall>d \<in> set ls. d < 10"
    using assms(1) by (simp_all add: announces_def a)
  have plain: "0x3A \<notin> set (map lower8 (lit ''Content-Length''))"
    by (simp add: lower8_def of_char_def)
  have "0x3A \<notin> set name"
  proof
    assume "0x3A \<in> set name"
    then have "lower8 0x3A \<in> set (map lower8 name)"
      by simp
    then show False
      using plain name by (simp add: lower8_def)
  qed
  then have to_colon: "dropWhile (\<lambda>c. c \<noteq> 0x3A) (length_line a) = 0x3A # replicate k 0x20 @ digits ls"
    by (simp add: length_line_def a) (subst dropWhile_append2; auto)
  have "dropWhile (\<lambda>c. c = 0x20 \<or> c = 9) (digits ls) = digits ls"
  proof (cases ls)
    case (Cons d ds)
    then have "0x30 + of_nat d \<noteq> (0x20 :: u8)" "0x30 + of_nat d \<noteq> (9 :: u8)"
      using digit_cases [of d] ls by auto
    then show ?thesis
      by (simp add: Cons digits_def)
  qed (simp add: digits_def)
  then have "dropWhile (\<lambda>c. c = 0x20 \<or> c = 9) (replicate k 0x20 @ digits ls) = digits ls"
    by (simp add: dropWhile_append)
  then have "line_value (length_line a) = sint (of_nat (dec_val ls) :: u32)"
    using length_digits_value [OF ls, of 0] by (simp add: line_value_def to_colon dec_val_def)
  then show ?thesis
    using assms(2) by (simp add: digits_of_def a sint_of_nat_small)
qed

lemma announced_last:
  "filter (has_name ''Content-Length'') hs = map length_line ann \<Longrightarrow> \<forall>a \<in> set ann. announces a \<and> dec_val (digits_of a) < 2 ^ 31 \<Longrightarrow>
   fold announced hs cl = (if ann = [] then cl else int (dec_val (digits_of (last ann))))"
proof (induction hs arbitrary: ann cl)
  case (Cons h hs)
  show ?case
  proof (cases "has_name ''Content-Length'' h")
    case True
    then obtain a ann' where a: "ann = a # ann'" "h = length_line a" "filter (has_name ''Content-Length'') hs = map length_line ann'"
      using Cons.prems(1) by (cases ann) auto
    then have "announced h cl = int (dec_val (digits_of a))"
      using True Cons.prems(2) line_value_length [of a] by (simp add: announced_def name_match_has_name del: lit_Cons)
    then show ?thesis
      using Cons.IH [OF a(3)] Cons.prems(2) a(1) by simp
  next
    case False
    then have "announced h cl = cl"
      by (simp add: announced_def name_match_has_name del: lit_Cons)
    then show ?thesis
      using Cons False by simp
  qed
qed simp

text \<open>The status behind the protocol version.\<close>

lemma status_of_text:
  assumes "\<forall>d \<in> set ds. d < 10" and "length ds = 3"
  shows "fst (status_digits (dropWhile (\<lambda>c. c = 0x20) (dropWhile (\<lambda>c. c \<noteq> 0 \<and> c \<noteq> 0x20) (response_text ds reason hs b))) 0) = int (dec_val ds)"
proof -
  have dig: "\<forall>c \<in> set (digits ds). is_digit8 c"
    using assms(1) digit_byte(1) by (auto simp: digits_def)
  have "dropWhile (\<lambda>c. c = 0x20) (digits ds @ r) = digits ds @ r" for r
    using dig assms(2) by (cases "digits ds") (auto simp: digits_def is_digit8_def)
  then have "dropWhile (\<lambda>c. c = 0x20) (dropWhile (\<lambda>c. c \<noteq> 0 \<and> c \<noteq> 0x20) (response_text ds reason hs b)) =
      digits ds @ 0x20 # reason @ crlf @ concat (map (\<lambda>h. h @ crlf) hs) @ crlf @ b"
    by (simp add: response_text_def of_char_def)
  then show ?thesis
    using status_digits_three [OF assms] by simp
qed

section \<open>The content\<close>

text \<open>
  The content of a response is what follows its header: for every 2xx status and every list of header lines,
  \<open>parse_https_response\<close> yields the bytes behind the first blank line, cut to the number that the last \<open>Content-Length\<close> line announces.
\<close>

theorem https_response_content:
  assumes "\<forall>d \<in> set ds. d < 10" and "length ds = 3" and "200 \<le> dec_val ds" and "dec_val ds < 300" and "13 \<notin> set reason" and "10 \<notin> set reason"
    and "\<forall>h \<in> set hs. line_ok h" and "\<forall>n. km n \<noteq> None"
    and "filter (has_name ''Content-Length'') hs = map length_line ann" and "\<forall>a \<in> set ann. announces a \<and> dec_val (digits_of a) < 2 ^ 31"
  shows "parse_https_response km (response_text ds reason hs b) =
    Inr (if ann = [] then b else take (dec_val (digits_of (last ann))) b)"
proof -
  let ?head = "lit ''HTTP/1.1 '' @ digits ds @ 0x20 # reason" and ?raw = "response_text ds reason hs b"
  define cl where "cl = fold announced hs (-1)"
  have cl: "cl = (if ann = [] then -1 else int (dec_val (digits_of (last ann))))"
    unfolding cl_def by (rule announced_last [OF assms(9,10)])
  let ?n = "if 0 \<le> cl \<and> cl < int (length b) then nat cl else length b"
  have dig: "\<forall>c \<in> set (digits ds). is_digit8 c"
    using assms(1) digit_byte(1) by (auto simp: digits_def)
  then have head: "line_ok ?head"
    using assms(5,6) by (auto simp: line_ok_def is_digit8_def of_char_def)
  then have lines: "\<forall>h \<in> set (?head # hs). line_ok h"
    using assms(7) by simp
  define t where "t = lines_text (?head # hs)"
  have raw: "?raw = t @ crlf @ crlf @ b"
    using lines_text_crlf [of "?head # hs"] by (simp add: response_text_def t_def)
  have "take (length t) ?raw = t" "drop (length t + 4) ?raw = b" "length ?raw - (length t + 4) = length b"
    unfolding raw by (simp_all add: crlf_def)
  moreover have "find_http_header_end_hs ?raw = Some (length t + 4)" "http_header_text_len_hs ?raw (length t + 4) = length t"
    unfolding raw t_def using header_end_lines [OF _ lines] by simp_all
  moreover have "scan_lines t (-1) = cl"
    unfolding t_def cl_def using scan_lines_text [OF _ lines, of "-1"] by (simp add: announced_def lower8_def of_char_def)
  moreover have "dropWhile blank_or_eol ?raw = ?raw" "http_start ?raw" "16 \<le> length ?raw"
    using assms(2) by (simp_all add: response_text_def blank_or_eol_def http_start_def lower8_def of_char_def digits_def crlf_def)
  moreover have "fst (status_digits (dropWhile (\<lambda>c. c = 0x20) (dropWhile (\<lambda>c. c \<noteq> 0 \<and> c \<noteq> 0x20) ?raw)) 0) = int (dec_val ds)"
    by (rule status_of_text [OF assms(1,2)])
  ultimately have "parse_https_response km ?raw = (case km (of_nat ?n + 1) of None \<Rightarrow> Inl (-1) | Some m \<Rightarrow> Inr (take ?n b))"
    using assms(3,4) by (simp add: parse_https_response_def Let_def cong: option.case_cong)
  moreover have "km (of_nat ?n + 1) \<noteq> None"
    using assms(8) by blast
  ultimately show ?thesis
    by (auto simp: cl)
qed

theorem https_response_content_witness:
  "parse_https_response (\<lambda>n. Some []) (response_text [2, 0, 4] (lit ''OK'') [lit ''Host: a'', lit ''content-length: 3''] (lit ''Hello'')) = Inr (lit ''Hel'')"
proof -
  let ?a = "(lit ''content-length'', 1, [3])"
  have "filter (has_name ''Content-Length'') [lit ''Host: a'', lit ''content-length: 3''] = map length_line [?a]" "announces ?a"
    by (simp_all add: has_name_def length_line_def announces_def lower8_def digits_def of_char_def)
  then show ?thesis
    using https_response_content [of "[2, 0, 4]" "lit ''OK''" "[lit ''Host: a'', lit ''content-length: 3'']" "\<lambda>n. Some []" "[?a]" "lit ''Hello''"]
    by (simp add: line_ok_def dec_val_def digits_of_def of_char_def)
qed

section \<open>The end of a fetch\<close>

lemma on_net_ready: "on_net f s = Some (r, s') \<Longrightarrow> tls_enc_ready s' = tls_enc_ready s"
  by (auto simp: on_net_def)

lemma polls_ready: "polls n s = Some s' \<Longrightarrow> tls_enc_ready s' = tls_enc_ready s"
  by (auto simp: polls_def)

text \<open>
  The encryption is off, what \<open>tls12_client_reset\<close> clears is clear, and there is no connection. The record keys, the keys of
  the MACs and the implicit vectors are not cleared: they stay in memory until the next handshake.
\<close>

definition hung_up :: "'d tls \<Rightarrow> bool" where
  "hung_up s \<longleftrightarrow> \<not> tls_enc_ready s \<and> client_seq s = 0 \<and> server_seq s = 0 \<and> master_secret s = replicate 48 0 \<and> tcb_state (tcb (tls_net s)) \<noteq> TCP_ESTABLISHED"

lemma hang_up_done: "hang_up s = Some s' \<Longrightarrow> hung_up s'"
  by (auto simp: hang_up_def hung_up_def tls12_client_reset_def on_net_def dest: tcp_close_closes elim!: bind_SomeE)

lemma https_exchange_ends:
  assumes "https_exchange g rt km host path s = Some (r, c, s')"
  shows "(r = 0 \<and> c \<noteq> None \<or> r = -1 \<and> c = None) \<and> hung_up s'"
proof -
  obtain q t where "tls12_client_send_app rt (https_request host path) s = Some (q, t)"
    and e: "(if q < 0 then do { s \<leftarrow> hang_up t; Some (-1, None, s) }
     else case km 0 786432 of
       None \<Rightarrow> do { s \<leftarrow> hang_up t; Some (-1, None, s) }
     | Some buf \<Rightarrow> do {
         (buf, received, s) \<leftarrow> https_receive g buf 0 0 t;
         s \<leftarrow> hang_up s;
         if received = 0 then Some (-1, None, s)
         else case parse_https_response (km 1) (take received buf) of
           Inl e \<Rightarrow> Some (-1, None, s)
         | Inr content \<Rightarrow> Some (0, Some content, s) }) = Some (r, c, s')"
    using assms by (auto simp: https_exchange_def elim!: bind_SomeE)
  show ?thesis
  proof (cases "q < 0 \<or> km 0 786432 = None")
    case True
    then have "Option.bind (hang_up t) (\<lambda>s. Some (-1, None, s)) = Some (r, c, s')"
      using e by (cases "q < 0") simp_all
    then show ?thesis
      by (auto elim!: bind_SomeE dest: hang_up_done)
  next
    case False
    then show ?thesis
      using e by (auto elim!: bind_SomeE split: if_splits sum.splits) (rule hang_up_done, assumption)+
  qed
qed

text \<open>
  A fetch ends with the encryption off: \<open>network_https_fetch\<close> returns 0 with a content or -1 without one, and \<open>tls_enc_ready\<close> is
  not set afterwards, whichever step failed. When it returns 0, the connection is closed and the record counters and the master secret are zero;
  the keys derived from it are not cleared.
\<close>

theorem https_fetch_ends:
  assumes "network_https_fetch wifi g rt km url s = Some (r, c, s')" and "\<not> tls_enc_ready s"
  shows "(r = 0 \<and> c \<noteq> None \<and> hung_up s' \<or> r = -1 \<and> c = None) \<and> \<not> tls_enc_ready s'"
proof (cases "parse_https_url url 128 256")
  case (Inr u)
  obtain host path port where u: "u = (host, path, port)"
    by (cases u)
  obtain r1 s1 where 1: "on_net (network_ensure_ready wifi g) s = Some (r1, s1)" "\<not> tls_enc_ready s1"
    using assms by (auto simp: network_https_fetch_def Inr u on_net_ready elim!: bind_SomeE)
  show ?thesis
  proof (cases "r1 = 0")
    case True
    then obtain ip s2 where 2: "on_net (dns_resolve g host) s1 = Some (ip, s2)" "\<not> tls_enc_ready s2"
      using assms(1) 1 by (auto simp: network_https_fetch_def Inr u on_net_ready elim!: bind_SomeE)
    show ?thesis
    proof (cases "ip = 0")
      case False
      then obtain sock s3 s4 where 3: "polls 12 s2 = Some s3" "on_net (tcp_connect g ip port) s3 = Some (sock, s4)" "\<not> tls_enc_ready s4"
        using assms(1) 1 2 True by (auto simp: network_https_fetch_def Inr u on_net_ready polls_ready elim!: bind_SomeE)
      show ?thesis
      proof (cases "sock < 0")
        case False
        then obtain th s5 where "tls12_client_handshake g rt host s4 = Some (th, s5)"
          and "(if th \<noteq> 0 then do { s \<leftarrow> hang_up s5; Some (-1, None, s) } else https_exchange g rt km host path s5) = Some (r, c, s')"
          using assms(1) 1 2 3 True \<open>ip \<noteq> 0\<close> by (auto simp: network_https_fetch_def Inr u elim!: bind_SomeE)
        then have "(r = 0 \<and> c \<noteq> None \<or> r = -1 \<and> c = None) \<and> hung_up s'"
          using https_exchange_ends [of g rt km host path s5 r c s'] by (cases "th = 0") (auto elim!: bind_SomeE dest: hang_up_done)
        then show ?thesis
          by (auto simp: hung_up_def)
      qed (use assms(1) 1 2 3 True \<open>ip \<noteq> 0\<close> in \<open>auto simp: network_https_fetch_def Inr u\<close>)
    qed (use assms(1) 1 2 True in \<open>auto simp: network_https_fetch_def Inr u\<close>)
  qed (use assms(1) 1 in \<open>auto simp: network_https_fetch_def Inr u\<close>)
qed (use assms in \<open>auto simp: network_https_fetch_def\<close>)

theorem https_fetch_ends_witness:
  "\<exists>s'. network_https_fetch (\<lambda>s. (-1, s)) (\<lambda>d. (0, d)) (\<lambda>n. 0) (\<lambda>i n. None) (lit ''https://example.com/'') (boot_tls ()) = Some (-1, None, s') \<and> \<not> tls_enc_ready s'"
proof -
  have "parse_https_url (lit ''https://example.com/'') 128 256 = Inr (lit ''example.com'', lit ''/'', 443)"
    by code_simp
  then have "network_https_fetch (\<lambda>s. (-1, s)) (\<lambda>d. (0, d)) (\<lambda>n. 0) (\<lambda>i n. None) (lit ''https://example.com/'') (boot_tls ()) = Some (-1, None, boot_tls ())"
    by (simp add: network_https_fetch_def on_net_def network_ensure_ready_def boot_tls_def boot_net_def netif_get_default_def)
  from https_fetch_ends [OF this] this show ?thesis
    by (simp add: boot_tls_def)
qed

end
