(* ===== verification/Terminal.thy ===== *)
theory Terminal
  imports KMath
begin

text \<open>
  The terminal window, \<open>src/src/terminal.c\<close>, and the switch of the console between the VGA text screen and the
  window, \<open>src/src/console_shim.c\<close>.

  The screen is \<open>buffer\<close>, 200 rows of 100 characters, and \<open>fg\<close>, their colours; the 101st character of a
  row, which is always 0, is left out. The arrays \<open>input\<close> and \<open>history\<close> are their contents: \<open>input_pos\<close> and
  \<open>history_count\<close> are lengths. The unused \<open>output_buf\<close> is left out.

  What the rest of the system gives to the terminal is the record \<open>host\<close>: the strings of the prompt, the
  reason why the desktop ends, \<open>wm_destroy_window\<close> on the terminal's own window, and \<open>cmd_dispatch\<close>. A command is
  seen by what it does to the terminal while it runs: the characters it prints, the screens it clears, and the
  keys that arrive meanwhile.
\<close>

section \<open>State\<close>

abbreviation TERM_COLS :: nat where "TERM_COLS \<equiv> 100"
abbreviation TERM_ROWS :: nat where "TERM_ROWS \<equiv> 200"
abbreviation TERM_HISTORY_SIZE :: nat where "TERM_HISTORY_SIZE \<equiv> 10"
abbreviation TERM_MAX_INPUT :: nat where "TERM_MAX_INPUT \<equiv> 256"

definition WM_COLOR_TEXT :: u32 where "WM_COLOR_TEXT = 0xFFE8E8E8"
definition WM_COLOR_TEXT_DIM :: u32 where "WM_COLOR_TEXT_DIM = 0xFF808080"
definition WM_COLOR_ACCENT :: u32 where "WM_COLOR_ACCENT = 0xFF707070"

record terminal_state =
  buffer :: "bytes list"
  fg :: "u32 list list"
  cursor_row :: nat
  cursor_col :: nat
  scroll_offset :: nat
  total_lines :: nat
  input :: bytes
  input_active :: bool
  history :: "bytes list"
  history_pos :: nat
  sel_start_row :: int
  sel_start_col :: int
  sel_end_row :: int
  sel_end_col :: int
  selecting :: bool

record term_ctx_menu =
  ctx_open :: bool
  ctx_x :: int
  ctx_y :: int
  ctx_hover :: int

text \<open>The terminal with the globals of its file and the world behind it.\<close>

record 'w terminal =
  term_state :: terminal_state
  term_ctx :: term_ctx_menu
  os_clipboard :: bytes
  terminal_last_char :: u16
  prev_left :: bool
  prev_right :: bool
  world :: 'w

datatype effect = Prints u8 | Clears | Typed u16

record 'w host =
  current_user :: "'w \<Rightarrow> bytes"
  current_dir :: "'w \<Rightarrow> bytes"
  desktop_exit_reason :: "'w \<Rightarrow> int"
  destroy_window :: "'w \<Rightarrow> 'w"
  cmd_dispatch :: "bytes \<Rightarrow> 'w \<Rightarrow> effect list \<times> int \<times> 'w"

section \<open>The screen\<close>

definition put_cell :: "nat \<Rightarrow> nat \<Rightarrow> u8 \<Rightarrow> terminal_state \<Rightarrow> terminal_state" where
  "put_cell r c x ts = ts\<lparr>buffer := (buffer ts)[r := (buffer ts ! r)[c := x]]\<rparr>"

definition put_color :: "nat \<Rightarrow> nat \<Rightarrow> u32 \<Rightarrow> terminal_state \<Rightarrow> terminal_state" where
  "put_color r c x ts = ts\<lparr>fg := (fg ts)[r := (fg ts ! r)[c := x]]\<rparr>"

definition term_scroll :: "terminal_state \<Rightarrow> terminal_state" where
  "term_scroll ts =
     ts\<lparr>buffer := tl (buffer ts) @ [replicate TERM_COLS 0], fg := tl (fg ts) @ [replicate TERM_COLS WM_COLOR_TEXT],
        cursor_row := TERM_ROWS - 1\<rparr>"

definition term_newline :: "terminal_state \<Rightarrow> terminal_state" where
  "term_newline ts =
     (let ts = ts\<lparr>cursor_col := 0, cursor_row := cursor_row ts + 1\<rparr>;
          ts = (if TERM_ROWS \<le> cursor_row ts then term_scroll ts else ts)
      in if total_lines ts \<le> cursor_row ts then ts\<lparr>total_lines := cursor_row ts + 1\<rparr> else ts)"

text \<open>The common end of the two writers: a full row ends the line.\<close>

definition term_wrap :: "terminal_state \<Rightarrow> terminal_state" where
  "term_wrap ts = (if TERM_COLS \<le> cursor_col ts then term_newline (ts\<lparr>cursor_col := 0\<rparr>) else ts)"

definition term_write :: "u8 \<Rightarrow> u32 \<Rightarrow> terminal_state \<Rightarrow> terminal_state" where
  "term_write c color ts =
     (if cursor_col ts < TERM_COLS
      then (put_color (cursor_row ts) (cursor_col ts) color (put_cell (cursor_row ts) (cursor_col ts) c ts))
             \<lparr>cursor_col := cursor_col ts + 1\<rparr>
      else ts)"

definition term_putchar :: "u8 \<Rightarrow> terminal_state \<Rightarrow> terminal_state" where
  "term_putchar c ts =
     (if c = 10 \<or> c = 13 then term_newline ts
      else if c = 8 then (if 0 < cursor_col ts then ts\<lparr>cursor_col := cursor_col ts - 1\<rparr> else ts)
      else if c = 9 then term_wrap (ts\<lparr>cursor_col := (cursor_col ts + 4) div 4 * 4\<rparr>)
      else term_wrap (term_write c WM_COLOR_TEXT ts))"

definition term_puts :: "bytes \<Rightarrow> terminal_state \<Rightarrow> terminal_state" where
  "term_puts s ts = fold term_putchar (cstr s) ts"

definition term_putchar_color :: "u32 \<Rightarrow> u8 \<Rightarrow> terminal_state \<Rightarrow> terminal_state" where
  "term_putchar_color color c ts =
     (if c = 10 \<or> c = 13 then term_putchar c ts
      else if cursor_col ts < TERM_COLS then term_wrap (term_write c color ts) else ts)"

definition term_puts_color :: "bytes \<Rightarrow> u32 \<Rightarrow> terminal_state \<Rightarrow> terminal_state" where
  "term_puts_color s color ts = fold (term_putchar_color color) (cstr s) ts"

definition term_show_prompt :: "bytes \<Rightarrow> bytes \<Rightarrow> terminal_state \<Rightarrow> terminal_state" where
  "term_show_prompt user dir ts =
     term_puts_color (lit '' > '') 0xFFF87171 (term_puts_color dir 0xFF818CF8
       (term_puts_color (lit ''@aurionos '') 0xFF4ADE80 (term_puts_color user 0xFF4ADE80 ts)))"

definition term_clear :: "terminal_state \<Rightarrow> terminal_state" where
  "term_clear ts =
     ts\<lparr>buffer := replicate TERM_ROWS (replicate TERM_COLS 0), fg := replicate TERM_ROWS (replicate TERM_COLS WM_COLOR_TEXT),
        cursor_row := 0, cursor_col := 0, scroll_offset := 0, total_lines := 1\<rparr>"

text \<open>The memory of the window's state after \<open>terminal_create\<close> has cleared it.\<close>

definition term_zero :: terminal_state where
  "term_zero =
     \<lparr>buffer = replicate TERM_ROWS (replicate TERM_COLS 0), fg = replicate TERM_ROWS (replicate TERM_COLS 0),
      cursor_row = 0, cursor_col = 0, scroll_offset = 0, total_lines = 0, input = [], input_active = False,
      history = [], history_pos = 0, sel_start_row = 0, sel_start_col = 0, sel_end_row = 0, sel_end_col = 0,
      selecting = False\<rparr>"

definition term_init :: "bytes \<Rightarrow> bytes \<Rightarrow> terminal_state \<Rightarrow> terminal_state" where
  "term_init user dir ts =
     (let ts = (term_clear ts)\<lparr>input := [], input_active := True, history := [], history_pos := 0\<rparr>;
          ts = term_puts_color (lit ''AurionOS v1.1 Beta Terminal'' @ [10]) WM_COLOR_ACCENT ts;
          ts = term_puts_color (lit ''Type HELP for available commands'' @ [10]) WM_COLOR_TEXT_DIM ts;
          ts = term_puts_color (lit ''Type DOSMODE to switch to classic CLI'' @ [10, 10]) WM_COLOR_TEXT_DIM ts
      in term_show_prompt user dir ts)"

section \<open>The console\<close>

text \<open>\<open>c_putc\<close> and \<open>c_cls\<close> with the hooks set for a terminal, or not: then \<open>vga\<close> gets them.\<close>

definition c_putc :: "terminal_state option \<Rightarrow> (u8 \<Rightarrow> 'v \<Rightarrow> 'v) \<Rightarrow> u8 \<Rightarrow> 'v \<Rightarrow> terminal_state option \<times> 'v" where
  "c_putc hook vga_putc c v =
     (case hook of Some ts \<Rightarrow> (Some (term_putchar c ts), v) | None \<Rightarrow> (None, vga_putc c v))"

fun c_puts :: "terminal_state option \<Rightarrow> (u8 \<Rightarrow> 'v \<Rightarrow> 'v) \<Rightarrow> bytes \<Rightarrow> 'v \<Rightarrow> terminal_state option \<times> 'v" where
  "c_puts hook vga_putc [] v = (hook, v)"
| "c_puts hook vga_putc (c # s) v =
     (if c = 0 then (hook, v) else let (hook, v) = c_putc hook vga_putc c v in c_puts hook vga_putc s v)"

definition c_cls :: "terminal_state option \<Rightarrow> ('v \<Rightarrow> 'v) \<Rightarrow> 'v \<Rightarrow> terminal_state option \<times> 'v" where
  "c_cls hook vga_cls v =
     (case hook of Some ts \<Rightarrow> (Some (term_clear ts), v) | None \<Rightarrow> (None, vga_cls v))"

section \<open>Commands\<close>

definition on_term :: "(terminal_state \<Rightarrow> terminal_state) \<Rightarrow> 'w terminal \<Rightarrow> 'w terminal" where
  "on_term f s = s\<lparr>term_state := f (term_state s)\<rparr>"

text \<open>While a command runs, a key only reaches \<open>terminal_last_char\<close>.\<close>

fun term_effect :: "effect \<Rightarrow> 'w terminal \<Rightarrow> 'w terminal" where
  "term_effect (Prints c) s = on_term (term_putchar c) s"
| "term_effect Clears s = on_term term_clear s"
| "term_effect (Typed k) s = s\<lparr>terminal_last_char := k\<rparr>"

definition term_remember :: "bytes \<Rightarrow> terminal_state \<Rightarrow> terminal_state" where
  "term_remember cmd ts =
     (let ts = (if length (history ts) < TERM_HISTORY_SIZE
                then ts\<lparr>history := history ts @ [take (TERM_MAX_INPUT - 1) cmd]\<rparr> else ts)
      in ts\<lparr>history_pos := length (history ts)\<rparr>)"

definition term_execute :: "'w host \<Rightarrow> bytes \<Rightarrow> 'w terminal \<Rightarrow> 'w terminal" where
  "term_execute h cmd s =
     (let s = on_term (\<lambda>ts. (term_remember cmd ts)\<lparr>input_active := False\<rparr>) s;
          s = s\<lparr>terminal_last_char := 0\<rparr>;
          (effects, result, w) = cmd_dispatch h cmd (world s);
          s = fold term_effect effects (s\<lparr>world := w\<rparr>);
          s = on_term (\<lambda>ts. ts\<lparr>input_active := True\<rparr>) s
      in if result = -2 then on_term term_clear s
         else if result = -3 then s\<lparr>world := destroy_window h (world s)\<rparr>
         else if result = -255 then on_term (term_puts_color (lit ''Bad command or file name'' @ [10]) 0x00E04050) s
         else s)"

section \<open>Keys\<close>

definition term_blank_left :: "terminal_state \<Rightarrow> terminal_state" where
  "term_blank_left ts =
     (if 0 < cursor_col ts
      then put_cell (cursor_row ts) (cursor_col ts - 1) 0x20 (ts\<lparr>cursor_col := cursor_col ts - 1\<rparr>) else ts)"

definition term_backspace :: "terminal_state \<Rightarrow> terminal_state" where
  "term_backspace ts =
     (if input ts \<noteq> [] then term_blank_left (ts\<lparr>input := butlast (input ts)\<rparr>) else ts)"

text \<open>An entry of the history takes the place of the input, on the screen too.\<close>

definition term_recall :: "nat \<Rightarrow> terminal_state \<Rightarrow> terminal_state" where
  "term_recall pos ts =
     (let n = length (input ts);
          ts = (term_blank_left ^^ n) (ts\<lparr>history_pos := pos, input := []\<rparr>);
          line = take (TERM_MAX_INPUT - 1) (history ts ! pos)
      in (fold term_putchar line ts)\<lparr>input := line\<rparr>)"

definition term_enter :: "'w host \<Rightarrow> 'w terminal \<Rightarrow> 'w terminal" where
  "term_enter h s =
     (let s = on_term (\<lambda>ts. term_putchar 10 (ts\<lparr>scroll_offset := 0\<rparr>)) s;
          line = input (term_state s);
          s = (if line \<noteq> [] then term_execute h line s else s);
          s = on_term (\<lambda>ts. ts\<lparr>input := []\<rparr>) s
      in if desktop_exit_reason h (world s) < 0
         then on_term (term_show_prompt (current_user h (world s)) (current_dir h (world s))) s else s)"

definition term_type :: "u8 \<Rightarrow> terminal_state \<Rightarrow> terminal_state" where
  "term_type c ts =
     (let ts = ts\<lparr>scroll_offset := 0\<rparr>
      in if 32 \<le> c \<and> c < 127 \<and> length (input ts) < TERM_MAX_INPUT - 1
         then term_putchar c (ts\<lparr>input := input ts @ [c]\<rparr>) else ts)"

definition term_page_up :: "terminal_state \<Rightarrow> terminal_state" where
  "term_page_up ts =
     (if scroll_offset ts < cursor_row ts
      then ts\<lparr>scroll_offset := (if cursor_row ts < scroll_offset ts + 5 then cursor_row ts else scroll_offset ts + 5)\<rparr>
      else ts)"

definition term_page_down :: "terminal_state \<Rightarrow> terminal_state" where
  "term_page_down ts =
     (if 0 < scroll_offset ts then ts\<lparr>scroll_offset := (if scroll_offset ts < 5 then 0 else scroll_offset ts - 5)\<rparr> else ts)"

definition key_ascii :: "u16 \<Rightarrow> u8" where
  "key_ascii key = ucast (key AND 0xFF)"

definition key_scan :: "u16 \<Rightarrow> u8" where
  "key_scan key = ucast (drop_bit 8 key AND 0xFF)"

definition terminal_on_key :: "'w host \<Rightarrow> u16 \<Rightarrow> 'w terminal \<Rightarrow> 'w terminal" where
  "terminal_on_key h key s =
     (let ascii = key_ascii key; scan = key_scan key; ts = term_state s
      in if \<not> input_active ts then s\<lparr>terminal_last_char := key\<rparr>
         else if ascii = 13 \<or> ascii = 10 then term_enter h s
         else if ascii = 8 \<or> scan = 0x0E then on_term term_backspace s
         else if scan = 0x48 then
           (if history ts \<noteq> [] \<and> 0 < history_pos ts then on_term (term_recall (history_pos ts - 1)) s else s)
         else if scan = 0x50 then
           (if history_pos ts + 1 < length (history ts) then on_term (term_recall (history_pos ts + 1)) s else s)
         else if scan = 0x49 then on_term term_page_up s
         else if scan = 0x51 then on_term term_page_down s
         else on_term (term_type ascii) s)"

section \<open>Selection and clipboard\<close>

text \<open>The ends of the selection in reading order.\<close>

definition sel_range :: "terminal_state \<Rightarrow> (int \<times> int) \<times> (int \<times> int)" where
  "sel_range ts =
     (let s = (sel_start_row ts, sel_start_col ts); e = (sel_end_row ts, sel_end_col ts)
      in if fst e < fst s \<or> fst s = fst e \<and> snd e < snd s then (e, s) else (s, e))"

text \<open>The columns of row \<open>r\<close> that are selected: from the first to before the second.\<close>

definition sel_cols :: "terminal_state \<Rightarrow> int \<Rightarrow> int \<times> int" where
  "sel_cols ts r =
     (let ((s_r, s_c), (e_r, e_c)) = sel_range ts
      in (if r = s_r then s_c else 0, if r = e_r then e_c else int TERM_COLS))"

definition sel_text :: "terminal_state \<Rightarrow> bytes" where
  "sel_text ts =
     (let ((s_r, s_c), (e_r, e_c)) = sel_range ts
      in concat (map (\<lambda>r. let (start, end) = sel_cols ts r
           in map (\<lambda>c. let x = buffer ts ! nat r ! nat c in if x = 0 then 0x20 else x) [start..end - 1]
              @ (if r < e_r then [10] else [])) [s_r..e_r]))"

definition term_copy_selection_to_clip :: "'w terminal \<Rightarrow> 'w terminal" where
  "term_copy_selection_to_clip s =
     (let ts = term_state s
      in s\<lparr>os_clipboard := take 4094 (if sel_start_row ts \<noteq> -1 then sel_text ts else input ts)\<rparr>)"

definition blank_row :: "terminal_state \<Rightarrow> int \<Rightarrow> terminal_state \<Rightarrow> terminal_state" where
  "blank_row sel r ts =
     (let (start, end) = sel_cols sel r in fold (\<lambda>c. put_cell (nat r) (nat c) 0x20) [start..end - 1] ts)"

definition term_clear_selection :: "terminal_state \<Rightarrow> terminal_state" where
  "term_clear_selection ts =
     (if sel_start_row ts < 0 then ts
      else let ((s_r, _), (e_r, _)) = sel_range ts
           in (fold (blank_row ts) [s_r..e_r] ts)\<lparr>sel_start_row := -1\<rparr>)"

definition terminal_edit_copy :: "'w terminal \<Rightarrow> 'w terminal" where
  "terminal_edit_copy s = term_copy_selection_to_clip s"

text \<open>The loop of a cut without a selection sends backspaces until the input is empty.\<close>

function cut_input :: "'w host \<Rightarrow> 'w terminal \<Rightarrow> 'w terminal" where
  "cut_input h s =
     (if input (term_state s) \<noteq> [] \<and> input_active (term_state s) then cut_input h (terminal_on_key h 0x0E08 s) else s)"
  by auto

lemma low_byte: "ucast (ucast (c :: u8) AND 0xFF :: u16) = c" "drop_bit 8 (ucast c :: u16) = 0"
proof -
  have m: "(0xFF :: u16) = mask 8"
    by (simp add: mask_eq_exp_minus_1)
  show "ucast (ucast c AND 0xFF :: u16) = c"
    unfolding m by (auto intro!: bit_word_eqI simp: bit_simps)
  have "\<not> bit c (8 + n)" for n
    using bit_imp_le_length [of c "8 + n"] by auto
  then show "drop_bit 8 (ucast c :: u16) = 0"
    by (auto intro!: bit_word_eqI simp: bit_simps)
qed

lemma key_codes [simp]:
  "key_ascii 0x0E08 = 8" "key_scan 0x0E08 = 0x0E" "key_ascii (ucast c) = c" "key_scan (ucast c) = 0"
proof -
  show "key_ascii (ucast c) = c"
    by (simp add: key_ascii_def low_byte)
  show "key_scan (ucast c) = 0"
    by (simp add: key_scan_def low_byte)
qed (simp_all add: key_ascii_def key_scan_def)

lemma backspace_input [simp]: "input (term_backspace ts) = butlast (input ts)" "input_active (term_backspace ts) = input_active ts"
  by (auto simp: term_backspace_def term_blank_left_def put_cell_def)

termination cut_input
  by (relation "measure (\<lambda>(h, s). length (input (term_state s)))") (auto simp: terminal_on_key_def on_term_def)

declare cut_input.simps [simp del]

definition terminal_edit_cut :: "'w host \<Rightarrow> 'w terminal \<Rightarrow> 'w terminal" where
  "terminal_edit_cut h s =
     (if \<not> input_active (term_state s) then s
      else let s = term_copy_selection_to_clip s
           in if sel_start_row (term_state s) \<noteq> -1 then on_term term_clear_selection s else cut_input h s)"

fun paste_chars :: "'w host \<Rightarrow> bytes \<Rightarrow> 'w terminal \<Rightarrow> 'w terminal" where
  "paste_chars h [] s = s"
| "paste_chars h (c # cs) s =
     (if TERM_MAX_INPUT - 1 \<le> length (input (term_state s)) then s
      else if c = 13 \<or> c = 10 then paste_chars h cs s
      else paste_chars h cs (terminal_on_key h (ucast c) s))"

definition terminal_edit_paste :: "'w host \<Rightarrow> 'w terminal \<Rightarrow> 'w terminal" where
  "terminal_edit_paste h s =
     (if \<not> input_active (term_state s) \<or> os_clipboard s = [] then s else paste_chars h (os_clipboard s) s)"

definition terminal_edit_undo :: "'w host \<Rightarrow> 'w terminal \<Rightarrow> 'w terminal" where
  "terminal_edit_undo h s = terminal_on_key h 0x0E08 s"

section \<open>The mouse and the view\<close>

definition visible_rows :: "int \<Rightarrow> int" where
  "visible_rows ch = cdiv (ch - 4) 14"

definition start_row :: "int \<Rightarrow> terminal_state \<Rightarrow> int" where
  "start_row rows ts = max 0 (int (cursor_row ts) - int (scroll_offset ts) - rows + 1)"

definition clamp_cell :: "int \<Rightarrow> int \<Rightarrow> int" where
  "clamp_cell n x = (if (if x < 0 then 0 else x) \<ge> n then n - 1 else if x < 0 then 0 else x)"

definition term_select :: "bool \<Rightarrow> int \<Rightarrow> int \<Rightarrow> terminal_state \<Rightarrow> terminal_state" where
  "term_select lclick r c ts =
     (if lclick then ts\<lparr>sel_start_row := r, sel_start_col := c, sel_end_row := r, sel_end_col := c, selecting := True\<rparr>
      else if selecting ts then ts\<lparr>sel_end_row := r, sel_end_col := c\<rparr> else ts)"

definition term_release :: "terminal_state \<Rightarrow> terminal_state" where
  "term_release ts =
     (if selecting ts
      then (if sel_start_row ts = sel_end_row ts \<and> sel_start_col ts = sel_end_col ts
            then ts\<lparr>sel_start_row := -1, selecting := False\<rparr> else ts\<lparr>selecting := False\<rparr>)
      else ts)"

definition ctx_inside :: "term_ctx_menu \<Rightarrow> int \<Rightarrow> int \<Rightarrow> bool" where
  "ctx_inside m lx ly \<longleftrightarrow> ctx_x m \<le> lx \<and> lx < ctx_x m + 120 \<and> ctx_y m \<le> ly \<and> ly < ctx_y m + 52"

definition ctx_mouse :: "'w host \<Rightarrow> int \<Rightarrow> int \<Rightarrow> bool \<Rightarrow> 'w terminal \<Rightarrow> 'w terminal" where
  "ctx_mouse h lx ly lclick s =
     (let m = term_ctx s;
          hover = (if ctx_inside m lx ly then cdiv (ly - ctx_y m - 2) 24 else -1);
          s = s\<lparr>term_ctx := m\<lparr>ctx_hover := hover\<rparr>\<rparr>
      in if lclick
         then let s = (if hover = 0 then term_copy_selection_to_clip s
                       else if hover = 1 then terminal_edit_paste h s else s)
              in s\<lparr>term_ctx := (term_ctx s)\<lparr>ctx_open := False\<rparr>\<rparr>
         else s)"

definition terminal_on_mouse :: "'w host \<Rightarrow> int \<Rightarrow> int \<Rightarrow> int \<Rightarrow> bool \<Rightarrow> bool \<Rightarrow> 'w terminal \<Rightarrow> 'w terminal" where
  "terminal_on_mouse h ch lx ly left right s =
     (let lclick = (left \<and> \<not> prev_left s); rclick = (right \<and> \<not> prev_right s);
          s = s\<lparr>prev_left := left, prev_right := right\<rparr>;
          top = start_row (visible_rows ch) (term_state s)
      in if rclick then s\<lparr>term_ctx := \<lparr>ctx_open = True, ctx_x = lx, ctx_y = ly, ctx_hover = -1\<rparr>\<rparr>
         else if ctx_open (term_ctx s) then ctx_mouse h lx ly lclick s
         else if left then
           on_term (term_select lclick (clamp_cell (int TERM_ROWS) (top + cdiv (ly - 4) 14)) (clamp_cell (int TERM_COLS) (cdiv (lx - 4) 8))) s
         else on_term term_release s)"

text \<open>What \<open>terminal_on_draw\<close> draws of row \<open>r\<close>: the characters up to the first 0 and the window's edge, with their
  horizontal position and whether they are highlighted.\<close>

definition is_sel :: "terminal_state \<Rightarrow> int \<Rightarrow> int \<Rightarrow> bool" where
  "is_sel ts r c \<longleftrightarrow>
     sel_start_row ts \<noteq> -1 \<and>
     (let ((s_r, s_c), (e_r, e_c)) = sel_range ts
      in if s_r < r \<and> r < e_r then True
         else if r = s_r \<and> r = e_r then s_c \<le> c \<and> c < e_c
         else if r = s_r then s_c \<le> c
         else if r = e_r then c < e_c else False)"

definition drawn_row :: "int \<Rightarrow> terminal_state \<Rightarrow> nat \<Rightarrow> (int \<times> u8 \<times> u32 \<times> bool) list" where
  "drawn_row cw ts r =
     takeWhile (\<lambda>(x, _). x + 8 \<le> cw)
       (map (\<lambda>c. (int c * 8 + 4, buffer ts ! r ! c, fg ts ! r ! c, is_sel ts (int r) (int c)))
         [0..<length (takeWhile (\<lambda>x. x \<noteq> 0) (buffer ts ! r))])"

definition drawn_rows :: "int \<Rightarrow> int \<Rightarrow> terminal_state \<Rightarrow> (int \<times> (int \<times> u8 \<times> u32 \<times> bool) list) list" where
  "drawn_rows cw ch ts =
     (let top = start_row (min (visible_rows ch) (int TERM_ROWS)) ts
      in takeWhile (\<lambda>(y, _). y + 14 \<le> ch)
           (map (\<lambda>r. ((r - top) * 14 + 4, drawn_row cw ts (nat r)))
             [top..min (int (cursor_row ts) - int (scroll_offset ts)) (int TERM_ROWS - 1)]))"

text \<open>The place of the cursor, which is drawn when it blinks on.\<close>

definition drawn_cursor :: "int \<Rightarrow> u32 \<Rightarrow> terminal_state \<Rightarrow> (int \<times> int) option" where
  "drawn_cursor ch now ts =
     (let rows = min (visible_rows ch) (int TERM_ROWS); row = int (cursor_row ts) - start_row rows ts
      in if input_active ts \<and> scroll_offset ts = 0 \<and> now mod 120 < 60 \<and> 0 \<le> row \<and> row < rows
         then Some (int (cursor_col ts) * 8 + 4, row * 14 + 4) else None)"

section \<open>Opening and closing\<close>

text \<open>The place of the window on a screen of the given size: \<open>x\<close>, \<open>y\<close>, width and height.\<close>

definition terminal_place :: "int \<Rightarrow> int \<Rightarrow> int \<times> int \<times> int \<times> int" where
  "terminal_place sw sh =
     (let w = cdiv (sw * 2) 3; h = cdiv (sh * 2) 3;
          w = (if w < 400 then 400 else w); h = (if h < 300 then 300 else h)
      in (cdiv (sw - w) 2, cdiv (sh - 124 - h) 2, w, h))"

definition terminal_create :: "'w host \<Rightarrow> 'w terminal \<Rightarrow> 'w terminal" where
  "terminal_create h s = s\<lparr>term_state := term_init (current_user h (world s)) (current_dir h (world s)) term_zero\<rparr>"

definition terminal_on_close :: "('w \<Rightarrow> 'w) \<Rightarrow> 'w terminal \<Rightarrow> 'w terminal" where
  "terminal_on_close fs_reset_sudo s = s\<lparr>world := fs_reset_sudo (world s), terminal_last_char := 3\<rparr>"

text \<open>The globals before the first terminal is opened.\<close>

definition boot_term :: "'w \<Rightarrow> 'w terminal" where
  "boot_term w =
     \<lparr>term_state = term_zero, term_ctx = \<lparr>ctx_open = False, ctx_x = 0, ctx_y = 0, ctx_hover = -1\<rparr>, os_clipboard = [],
      terminal_last_char = 0, prev_left = False, prev_right = False, world = w\<rparr>"

end
