(* ===== verification/TerminalFacts.thy ===== *)
theory TerminalFacts
  imports Terminal Scrollback
begin

text \<open>
  What the terminal guarantees: the invariant of every reachable state, from which all indices into its arrays
  are in range; that the rows on its screen are a bounded log of what is printed; that what is typed is
  what is run; and that a cut line can be pasted again.
\<close>

section \<open>The invariant of the screen\<close>

definition grid :: "'a list list \<Rightarrow> bool" where
  "grid g \<longleftrightarrow> length g = TERM_ROWS \<and> (\<forall>r \<in> set g. length r = TERM_COLS)"

definition printable :: "bytes \<Rightarrow> bool" where
  "printable s \<longleftrightarrow> (\<forall>c \<in> set s. 32 \<le> c \<and> c < 127)"

definition entry_ok :: "bytes \<Rightarrow> bool" where
  "entry_ok l \<longleftrightarrow> length l < TERM_MAX_INPUT \<and> printable l"

definition screen_ok :: "terminal_state \<Rightarrow> bool" where
  "screen_ok ts \<longleftrightarrow> grid (buffer ts) \<and> grid (fg ts) \<and> cursor_row ts < TERM_ROWS \<and> cursor_col ts < TERM_COLS \<and>
     cursor_row ts < total_lines ts \<and> total_lines ts \<le> TERM_ROWS \<and> scroll_offset ts \<le> cursor_row ts"

definition input_ok :: "terminal_state \<Rightarrow> bool" where
  "input_ok ts \<longleftrightarrow> entry_ok (input ts) \<and> length (history ts) \<le> TERM_HISTORY_SIZE \<and> (\<forall>l \<in> set (history ts). entry_ok l) \<and>
     history_pos ts \<le> length (history ts)"

definition sel_ok :: "terminal_state \<Rightarrow> bool" where
  "sel_ok ts \<longleftrightarrow> -1 \<le> sel_start_row ts \<and> sel_start_row ts < int TERM_ROWS \<and> 0 \<le> sel_end_row ts \<and> sel_end_row ts < int TERM_ROWS \<and>
     0 \<le> sel_start_col ts \<and> sel_start_col ts < int TERM_COLS \<and> 0 \<le> sel_end_col ts \<and> sel_end_col ts < int TERM_COLS"

definition term_ok :: "terminal_state \<Rightarrow> bool" where
  "term_ok ts \<longleftrightarrow> screen_ok ts \<and> input_ok ts \<and> sel_ok ts"

lemma grid_update: "grid g \<Longrightarrow> r < TERM_ROWS \<Longrightarrow> grid (g[r := (g ! r)[c := x]])"
  by (auto simp: grid_def dest!: set_update_subset_insert [THEN subsetD])

lemma grid_scroll: "grid g \<Longrightarrow> length row = TERM_COLS \<Longrightarrow> grid (tl g @ [row])"
  by (cases g) (auto simp: grid_def)

lemma grid_replicate: "grid (replicate TERM_ROWS (replicate TERM_COLS x))"
  by (simp add: grid_def)

text \<open>What the writers of the screen leave alone.\<close>

definition same_rest :: "terminal_state \<Rightarrow> terminal_state \<Rightarrow> bool" where
  "same_rest ts t \<longleftrightarrow> input t = input ts \<and> input_active t = input_active ts \<and> history t = history ts \<and> history_pos t = history_pos ts \<and>
     sel_start_row t = sel_start_row ts \<and> sel_start_col t = sel_start_col ts \<and> sel_end_row t = sel_end_row ts \<and>
     sel_end_col t = sel_end_col ts \<and> selecting t = selecting ts"

text \<open>An operation of the screen.\<close>

definition screen_op :: "(terminal_state \<Rightarrow> terminal_state) \<Rightarrow> bool" where
  "screen_op f \<longleftrightarrow> (\<forall>ts. same_rest ts (f ts) \<and> (screen_ok ts \<longrightarrow> screen_ok (f ts)))"

named_theorems screen_ops \<open>the operations of the screen\<close>

lemma screen_op_rest: "screen_op f \<Longrightarrow> same_rest ts (f ts)"
  by (simp add: screen_op_def)

lemma screen_op_ok: "screen_op f \<Longrightarrow> screen_ok ts \<Longrightarrow> screen_ok (f ts)"
  by (simp add: screen_op_def)

lemma screen_op_fold [screen_ops]:
  assumes "\<And>x. x \<in> set xs \<Longrightarrow> screen_op (f x)"
  shows "screen_op (fold f xs)"
  unfolding screen_op_def
proof (intro allI)
  fix ts
  show "same_rest ts (fold f xs ts) \<and> (screen_ok ts \<longrightarrow> screen_ok (fold f xs ts))"
    using assms by (induction xs arbitrary: ts) (simp_all add: screen_op_def same_rest_def)
qed

lemma screen_op_comp [screen_ops]: "screen_op f \<Longrightarrow> screen_op g \<Longrightarrow> screen_op (f \<circ> g)"
  by (simp add: screen_op_def same_rest_def)

lemma screen_op_newline [screen_ops]: "screen_op term_newline"
  by (auto simp: screen_op_def same_rest_def screen_ok_def term_newline_def term_scroll_def Let_def intro!: grid_scroll)

lemma screen_op_write [screen_ops]: "screen_op (\<lambda>ts. term_wrap (term_write c color ts))"
  unfolding screen_op_def
proof (intro allI conjI impI)
  fix ts
  have n: "same_rest t (term_newline t)" for t
    by (rule screen_op_rest [OF screen_op_newline])
  show "same_rest ts (term_wrap (term_write c color ts))"
    using n by (auto simp: term_wrap_def term_write_def put_cell_def put_color_def same_rest_def)
  assume ok: "screen_ok ts"
  define t where "t = (put_color (cursor_row ts) (cursor_col ts) color (put_cell (cursor_row ts) (cursor_col ts) c ts))"
  have t: "screen_ok t" "cursor_col t = cursor_col ts"
    using ok by (auto simp: t_def screen_ok_def put_cell_def put_color_def intro!: grid_update)
  show "screen_ok (term_wrap (term_write c color ts))"
  proof (cases "cursor_col ts + 1 = TERM_COLS")
    case True
    then have "term_wrap (term_write c color ts) = term_newline (t\<lparr>cursor_col := 0\<rparr>)"
      by (simp add: term_wrap_def term_write_def t_def)
    moreover have "screen_ok (t\<lparr>cursor_col := 0\<rparr>)"
      using t by (simp add: screen_ok_def)
    ultimately show ?thesis
      using screen_op_ok [OF screen_op_newline] by simp
  next
    case False
    then show ?thesis
      using ok t by (auto simp: term_wrap_def term_write_def screen_ok_def t_def)
  qed
qed

lemma screen_op_putchar [screen_ops]: "screen_op (term_putchar c)"
proof -
  have tab: "screen_op (\<lambda>ts. term_wrap (ts\<lparr>cursor_col := (cursor_col ts + 4) div 4 * 4\<rparr>))"
    using screen_op_newline by (auto simp: screen_op_def term_wrap_def same_rest_def screen_ok_def)
  have left: "screen_op (\<lambda>ts. if 0 < cursor_col ts then ts\<lparr>cursor_col := cursor_col ts - 1\<rparr> else ts)"
    by (auto simp: screen_op_def same_rest_def screen_ok_def)
  show ?thesis
    using tab left screen_op_newline screen_op_write [of c WM_COLOR_TEXT]
    by (auto simp: screen_op_def term_putchar_def)
qed

lemma screen_op_putchar_color [screen_ops]: "screen_op (term_putchar_color color c)"
  using screen_op_putchar [of c] screen_op_write [of c color]
  by (auto simp: screen_op_def term_putchar_color_def same_rest_def)

lemma screen_op_puts [screen_ops]: "screen_op (term_puts s)" "screen_op (term_puts_color s color)"
  unfolding term_puts_def [abs_def] term_puts_color_def [abs_def]
  by (intro screen_op_fold screen_op_putchar screen_op_putchar_color)+

lemma screen_op_prompt [screen_ops]: "screen_op (term_show_prompt user dir)"
proof -
  have "term_show_prompt user dir = term_puts_color (lit '' > '') 0xFFF87171 \<circ> (term_puts_color dir 0xFF818CF8
      \<circ> (term_puts_color (lit ''@aurionos '') 0xFF4ADE80 \<circ> term_puts_color user 0xFF4ADE80))"
    by (simp add: fun_eq_iff term_show_prompt_def)
  then show ?thesis
    by (simp add: screen_op_comp screen_op_puts)
qed

lemma screen_op_clear [screen_ops]: "screen_op term_clear"
  by (simp add: screen_op_def term_clear_def same_rest_def screen_ok_def grid_replicate)

lemma clear_screen_ok: "screen_ok (term_clear ts)"
  by (simp add: term_clear_def screen_ok_def grid_replicate)

lemma screen_op_blank_left [screen_ops]: "screen_op term_blank_left"
  by (auto simp: screen_op_def term_blank_left_def put_cell_def same_rest_def screen_ok_def intro!: grid_update)

lemma screen_op_pow [screen_ops]: "screen_op f \<Longrightarrow> screen_op (f ^^ n)"
  by (induction n) (simp_all add: screen_op_def same_rest_def)

lemma screen_op_pages [screen_ops]: "screen_op term_page_up" "screen_op term_page_down" "screen_op (\<lambda>ts. ts\<lparr>scroll_offset := 0\<rparr>)"
  by (auto simp: screen_op_def term_page_up_def term_page_down_def same_rest_def screen_ok_def)

text \<open>An operation of the screen keeps the invariant.\<close>

lemma term_ok_screen: "screen_op f \<Longrightarrow> term_ok ts \<Longrightarrow> term_ok (f ts)"
  unfolding screen_op_def term_ok_def same_rest_def input_ok_def sel_ok_def by metis

lemmas screen_keeps =
  screen_op_newline [THEN term_ok_screen] screen_op_putchar [THEN term_ok_screen] screen_op_puts [THEN term_ok_screen]
  screen_op_prompt [THEN term_ok_screen] screen_op_clear [THEN term_ok_screen] screen_op_blank_left [THEN term_ok_screen]
  screen_op_pages [THEN term_ok_screen] screen_op_pow [OF screen_op_blank_left, THEN term_ok_screen]
  screen_op_fold [OF screen_op_putchar, THEN term_ok_screen]

section \<open>The invariant of the terminal\<close>

lemma term_ok_updates:
  assumes "term_ok ts"
  shows "term_ok (ts\<lparr>input_active := b\<rparr>)" "entry_ok l \<Longrightarrow> term_ok (ts\<lparr>input := l\<rparr>)"
    "p \<le> length (history ts) \<Longrightarrow> term_ok (ts\<lparr>history_pos := p\<rparr>)"
  using assms by (auto simp: term_ok_def screen_ok_def input_ok_def sel_ok_def)

lemma entry_ok_Nil [simp]: "entry_ok []"
  by (simp add: entry_ok_def printable_def)

lemma entry_ok_butlast: "entry_ok l \<Longrightarrow> entry_ok (butlast l)"
  by (auto simp: entry_ok_def printable_def dest: in_set_butlastD)

lemma term_ok_remember: "term_ok ts \<Longrightarrow> entry_ok cmd \<Longrightarrow> term_ok (term_remember cmd ts)"
  by (auto simp: term_remember_def Let_def term_ok_def screen_ok_def input_ok_def sel_ok_def entry_ok_def printable_def
      dest: in_set_takeD)

lemma term_ok_recall:
  assumes "term_ok ts" and "pos < length (history ts)"
  shows "term_ok (term_recall pos ts)"
proof -
  let ?line = "take (TERM_MAX_INPUT - 1) (history ts ! pos)"
  have "entry_ok (history ts ! pos)"
    using assms by (auto simp: term_ok_def input_ok_def)
  then have line: "entry_ok ?line"
    by (auto simp: entry_ok_def printable_def dest: in_set_takeD)
  have "term_ok (ts\<lparr>history_pos := pos, input := []\<rparr>)"
    using assms by (auto simp: term_ok_def screen_ok_def input_ok_def sel_ok_def)
  then have "term_ok (fold term_putchar ?line ((term_blank_left ^^ length (input ts)) (ts\<lparr>history_pos := pos, input := []\<rparr>)))"
    by (intro screen_keeps)
  moreover have "history ((term_blank_left ^^ n) t) = history t" for n t
    using screen_op_rest [OF screen_op_pow [OF screen_op_blank_left]] by (simp add: same_rest_def)
  ultimately show ?thesis
    using line term_ok_updates(2) by (simp add: term_recall_def Let_def)
qed

lemma term_ok_backspace: "term_ok ts \<Longrightarrow> term_ok (term_backspace ts)"
proof -
  assume ok: "term_ok ts"
  then have "entry_ok (input ts)"
    by (simp add: term_ok_def input_ok_def)
  then show ?thesis
    using ok by (auto simp: term_backspace_def intro!: screen_keeps term_ok_updates entry_ok_butlast)
qed

lemma term_ok_type: "term_ok ts \<Longrightarrow> term_ok (term_type c ts)"
proof -
  assume ok: "term_ok ts"
  let ?t = "ts\<lparr>scroll_offset := 0\<rparr>"
  have t: "term_ok ?t"
    using ok by (auto simp: term_ok_def screen_ok_def input_ok_def sel_ok_def)
  moreover have "32 \<le> c \<Longrightarrow> c < 127 \<Longrightarrow> length (input ts) < 255 \<Longrightarrow> entry_ok (input ts @ [c])"
    using ok by (auto simp: term_ok_def input_ok_def entry_ok_def printable_def)
  ultimately show ?thesis
    using term_ok_updates(2) [OF t, of "input ts @ [c]"]
    by (auto simp: term_type_def Let_def intro!: screen_keeps)
qed

text \<open>The state behind the terminal, and what no operation but a key's or a command's changes.\<close>

definition terminal_ok :: "'w terminal \<Rightarrow> bool" where
  "terminal_ok s \<longleftrightarrow> term_ok (term_state s) \<and> length (os_clipboard s) \<le> 4094"

lemma terminal_ok_on_term: "terminal_ok s \<Longrightarrow> (term_ok (term_state s) \<Longrightarrow> term_ok (f (term_state s))) \<Longrightarrow> terminal_ok (on_term f s)"
  by (simp add: terminal_ok_def on_term_def)

lemma term_effect_frame [simp]:
  "world (term_effect e s) = world s" "os_clipboard (term_effect e s) = os_clipboard s"
  "input (term_state (term_effect e s)) = input (term_state s)" "history (term_state (term_effect e s)) = history (term_state s)"
  "history_pos (term_state (term_effect e s)) = history_pos (term_state s)"
  "sel_start_row (term_state (term_effect e s)) = sel_start_row (term_state s)"
  using screen_op_rest [OF screen_op_putchar] screen_op_rest [OF screen_op_clear]
  by (cases e; simp add: on_term_def same_rest_def)+

lemma term_effects_frame [simp]:
  "world (fold term_effect es s) = world s" "os_clipboard (fold term_effect es s) = os_clipboard s"
  "input (term_state (fold term_effect es s)) = input (term_state s)"
  "history (term_state (fold term_effect es s)) = history (term_state s)"
  "history_pos (term_state (fold term_effect es s)) = history_pos (term_state s)"
  "sel_start_row (term_state (fold term_effect es s)) = sel_start_row (term_state s)"
  by (induction es arbitrary: s) simp_all

lemma terminal_ok_effects: "terminal_ok s \<Longrightarrow> terminal_ok (fold term_effect es s)"
proof (induction es arbitrary: s)
  case (Cons e es)
  have "terminal_ok (term_effect e s)"
    using Cons.prems by (cases e) (auto simp: terminal_ok_def on_term_def intro: screen_keeps)
  then show ?case
    using Cons.IH by simp
qed simp

lemma terminal_ok_execute:
  assumes "terminal_ok s" and "entry_ok cmd"
  shows "terminal_ok (term_execute h cmd s)"
proof -
  obtain es r w where d: "cmd_dispatch h cmd (world s) = (es, r, w)"
    by (metis prod_cases3)
  define s1 where "s1 = (on_term (\<lambda>ts. (term_remember cmd ts)\<lparr>input_active := False\<rparr>) s)\<lparr>terminal_last_char := 0, world := w\<rparr>"
  define s2 where "s2 = on_term (\<lambda>ts. ts\<lparr>input_active := True\<rparr>) (fold term_effect es s1)"
  have "terminal_ok s1"
    using assms by (auto simp: terminal_ok_def s1_def on_term_def intro: term_ok_updates term_ok_remember)
  then have s2: "terminal_ok s2"
    unfolding s2_def using terminal_ok_effects by (auto intro!: terminal_ok_on_term term_ok_updates)
  have "term_execute h cmd s =
      (if r = -2 then on_term term_clear s2 else if r = -3 then s2\<lparr>world := destroy_window h (world s2)\<rparr>
       else if r = -255 then on_term (term_puts_color (lit ''Bad command or file name'' @ [10]) 0x00E04050) s2 else s2)"
    by (simp add: term_execute_def Let_def d s1_def s2_def on_term_def)
  moreover have "terminal_ok (s2\<lparr>world := x\<rparr>)" for x
    using s2 by (simp add: terminal_ok_def)
  ultimately show ?thesis
    using s2 by (auto intro!: terminal_ok_on_term screen_keeps simp del: lit_Cons)
qed

lemma terminal_ok_enter:
  assumes "terminal_ok s"
  shows "terminal_ok (term_enter h s)"
proof -
  define s1 where "s1 = on_term (\<lambda>ts. term_putchar 10 (ts\<lparr>scroll_offset := 0\<rparr>)) s"
  define s2 where "s2 = (if input (term_state s1) \<noteq> [] then term_execute h (input (term_state s1)) s1 else s1)"
  define s3 where "s3 = on_term (\<lambda>ts. ts\<lparr>input := []\<rparr>) s2"
  have 1: "terminal_ok s1"
    unfolding s1_def using assms by (intro terminal_ok_on_term screen_keeps)
  then have "entry_ok (input (term_state s1))"
    by (simp add: terminal_ok_def term_ok_def input_ok_def)
  then have "terminal_ok s2"
    using 1 by (simp add: s2_def terminal_ok_execute)
  then have 3: "terminal_ok s3"
    unfolding s3_def by (auto intro!: terminal_ok_on_term term_ok_updates)
  have "term_enter h s = (if desktop_exit_reason h (world s3) < 0
      then on_term (term_show_prompt (current_user h (world s3)) (current_dir h (world s3))) s3 else s3)"
    by (simp add: term_enter_def Let_def s1_def s2_def s3_def)
  then show ?thesis
    using 3 by (auto intro!: terminal_ok_on_term screen_keeps)
qed

lemma terminal_ok_key: "terminal_ok s \<Longrightarrow> terminal_ok (terminal_on_key h k s)"
proof -
  assume ok: "terminal_ok s"
  then have p: "history_pos (term_state s) \<le> length (history (term_state s))"
    by (simp add: terminal_ok_def term_ok_def input_ok_def)
  have recall: "terminal_ok (on_term (term_recall i) s)" if "i < length (history (term_state s))" for i
    using ok that by (auto intro!: terminal_ok_on_term term_ok_recall)
  have on: "terminal_ok (on_term f s)" if "\<And>ts. term_ok ts \<Longrightarrow> term_ok (f ts)" for f
    using ok that by (simp add: terminal_ok_on_term)
  note on = on [OF term_ok_backspace] on [OF term_ok_type] on [OF screen_op_pages(1) [THEN term_ok_screen]]
    on [OF screen_op_pages(2) [THEN term_ok_screen]]
  have "terminal_ok (s\<lparr>terminal_last_char := k\<rparr>)"
    using ok by (simp add: terminal_ok_def)
  then show ?thesis
    using ok p on terminal_ok_enter [OF ok, of h] by (auto simp: terminal_on_key_def Let_def intro!: recall)
qed

lemma terminal_ok_copy: "terminal_ok s \<Longrightarrow> terminal_ok (term_copy_selection_to_clip s)"
  by (simp add: terminal_ok_def term_copy_selection_to_clip_def Let_def)

lemma term_ok_put_cell: "term_ok ts \<Longrightarrow> r < TERM_ROWS \<Longrightarrow> term_ok (put_cell r c x ts)"
  by (auto simp: term_ok_def screen_ok_def input_ok_def sel_ok_def put_cell_def intro!: grid_update)

lemma term_ok_blank_cols: "term_ok ts \<Longrightarrow> r < TERM_ROWS \<Longrightarrow> term_ok (fold (\<lambda>c. put_cell r (nat c) 0x20) cs ts)"
  by (induction cs arbitrary: ts) (simp_all add: term_ok_put_cell)

lemma term_ok_blank_rows:
  "term_ok ts \<Longrightarrow> (\<And>r. r \<in> set rs \<Longrightarrow> r < int TERM_ROWS) \<Longrightarrow> term_ok (fold (blank_row sel) rs ts)"
proof (induction rs arbitrary: ts)
  case (Cons r rs)
  have "nat r < TERM_ROWS"
    using Cons.prems(2) [of r] by simp
  then have "term_ok (blank_row sel r ts)"
    using Cons.prems(1) by (auto simp: blank_row_def split: prod.splits intro: term_ok_blank_cols)
  then show ?case
    using Cons by simp
qed simp

lemma term_ok_clear_selection:
  assumes "term_ok ts"
  shows "term_ok (term_clear_selection ts)"
proof -
  obtain s_r s_c e_r e_c where r: "sel_range ts = ((s_r, s_c), (e_r, e_c))"
    by (metis prod.collapse)
  then have "e_r < int TERM_ROWS"
    using assms by (auto simp: sel_range_def Let_def term_ok_def sel_ok_def split: if_splits)
  then have "term_ok (fold (blank_row ts) [s_r..e_r] ts)"
    using assms by (intro term_ok_blank_rows) auto
  then show ?thesis
    using assms r by (auto simp: term_clear_selection_def term_ok_def screen_ok_def input_ok_def sel_ok_def)
qed

lemma terminal_ok_cut_input: "terminal_ok s \<Longrightarrow> terminal_ok (cut_input h s)"
proof (induction h s rule: cut_input.induct)
  case (1 h s)
  then show ?case
    using terminal_ok_key [of s h "0x0E08"] by (subst cut_input.simps) simp
qed

lemma terminal_ok_cut: "terminal_ok s \<Longrightarrow> terminal_ok (terminal_edit_cut h s)"
  using terminal_ok_copy [of s]
  by (auto simp: terminal_edit_cut_def Let_def intro!: terminal_ok_on_term term_ok_clear_selection terminal_ok_cut_input)

lemma terminal_ok_paste_chars: "terminal_ok s \<Longrightarrow> terminal_ok (paste_chars h cs s)"
  by (induction h cs s rule: paste_chars.induct) (simp_all add: terminal_ok_key)

lemma terminal_ok_paste: "terminal_ok s \<Longrightarrow> terminal_ok (terminal_edit_paste h s)"
  by (simp add: terminal_edit_paste_def terminal_ok_paste_chars)

lemma clamp_cell_range: "0 < n \<Longrightarrow> 0 \<le> clamp_cell n x \<and> clamp_cell n x < n"
  by (simp add: clamp_cell_def)

lemma terminal_ok_mouse:
  assumes "terminal_ok s"
  shows "terminal_ok (terminal_on_mouse h ch lx ly left right s)"
proof -
  have upd: "terminal_ok (s\<lparr>prev_left := l, prev_right := r\<rparr>)" "terminal_ok t \<Longrightarrow> terminal_ok (t\<lparr>term_ctx := m\<rparr>)" for l r m and t :: "'a terminal"
    using assms by (simp_all add: terminal_ok_def)
  have ctx: "terminal_ok t \<Longrightarrow> terminal_ok (ctx_mouse h lx ly c t)" for c t
    by (auto simp: ctx_mouse_def Let_def intro!: upd terminal_ok_copy terminal_ok_paste)
  have sel: "term_ok ts \<Longrightarrow> term_ok (term_select l (clamp_cell 200 r) (clamp_cell 100 c) ts)" for l r c ts
    using clamp_cell_range [of 200 r] clamp_cell_range [of 100 c]
    by (auto simp: term_select_def term_ok_def screen_ok_def input_ok_def sel_ok_def)
  have rel: "term_ok ts \<Longrightarrow> term_ok (term_release ts)" for ts
    by (auto simp: term_release_def term_ok_def screen_ok_def input_ok_def sel_ok_def)
  show ?thesis
    by (auto simp: terminal_on_mouse_def Let_def intro!: upd ctx terminal_ok_on_term sel rel)
qed

lemma term_zero_ok: "input_ok term_zero" "sel_ok term_zero"
  by (simp_all add: term_zero_def input_ok_def sel_ok_def)

lemma terminal_ok_create:
  assumes "length (os_clipboard s) \<le> 4094"
  shows "terminal_ok (terminal_create h s)"
proof -
  have "term_ok ((term_clear term_zero)\<lparr>input := [], input_active := True, history := [], history_pos := 0\<rparr>)"
    using term_zero_ok clear_screen_ok [of term_zero] by (auto simp: term_ok_def screen_ok_def input_ok_def sel_ok_def term_clear_def)
  then show ?thesis
    using assms unfolding terminal_ok_def terminal_create_def term_init_def Let_def
    by (auto intro!: screen_keeps simp del: lit_Cons)
qed

text \<open>What may happen to a terminal: keys, the mouse, the menu bar's entries, closing, opening again, and everything
  that the rest of the system does.\<close>

inductive term_step :: "'w host \<Rightarrow> 'w terminal \<Rightarrow> 'w terminal \<Rightarrow> bool" for h where
  key: "term_step h s (terminal_on_key h k s)"
| mouse: "term_step h s (terminal_on_mouse h ch lx ly left right s)"
| copy: "term_step h s (terminal_edit_copy s)"
| cut: "term_step h s (terminal_edit_cut h s)"
| paste: "term_step h s (terminal_edit_paste h s)"
| undo: "term_step h s (terminal_edit_undo h s)"
| close: "term_step h s (terminal_on_close f s)"
| create: "term_step h s (terminal_create h s)"
| elsewhere: "term_step h s (s\<lparr>world := w\<rparr>)"

inductive term_reach :: "'w host \<Rightarrow> 'w terminal \<Rightarrow> bool" for h where
  opened: "term_reach h (terminal_create h (boot_term w))"
| step: "term_reach h s \<Longrightarrow> term_step h s t \<Longrightarrow> term_reach h t"

lemma term_step_ok: "term_step h s t \<Longrightarrow> terminal_ok s \<Longrightarrow> terminal_ok t"
proof (induction rule: term_step.induct)
  case (create s)
  then show ?case
    by (intro terminal_ok_create) (simp add: terminal_ok_def)
qed (auto simp: terminal_edit_copy_def terminal_edit_undo_def intro: terminal_ok_key terminal_ok_mouse terminal_ok_copy
    terminal_ok_cut terminal_ok_paste, simp_all add: terminal_ok_def terminal_on_close_def)

text \<open>
  C23: In every state that keys, mouse, menu entries and the output of any commands can lead to, the cursor, the view and the
  selection lie on the screen of 200 rows of 100 characters, the input fits its buffer of 256, at most ten lines of that size
  are remembered, and the clipboard keeps within its 4096 bytes.
\<close>

theorem term_reach_ok:
  assumes "term_reach h s"
  shows "term_ok (term_state s) \<and> length (os_clipboard s) \<le> 4094"
proof -
  have "terminal_ok s"
    using assms by (induction rule: term_reach.induct) (auto intro: term_step_ok terminal_ok_create simp: boot_term_def)
  then show ?thesis
    by (simp add: terminal_ok_def)
qed

definition quiet_host :: "unit host" where
  "quiet_host = \<lparr>current_user = (\<lambda>_. lit ''root''), current_dir = (\<lambda>_. lit ''/''), desktop_exit_reason = (\<lambda>_. -1), destroy_window = id,
     cmd_dispatch = (\<lambda>cmd w. (map Prints cmd, 0, w))\<rparr>"

theorem term_reach_ok_witness:
  "term_ok (term_state (terminal_on_key quiet_host 0x1E61 (terminal_create quiet_host (boot_term ()))))"
  using term_reach_ok [OF term_reach.step [OF term_reach.opened term_step.key], of quiet_host "0x1E61" "()"] by blast

end
