(* ===== verification/TerminalText.thy ===== *)
theory TerminalText
  imports TerminalFacts
begin

text \<open>
  The text of the terminal: printed lines as a bounded log, the line that is typed and the command that runs, the
  history, cut and paste, and what is drawn behind a tab.
\<close>

section \<open>Printing\<close>

definition row_text :: "terminal_state \<Rightarrow> nat \<Rightarrow> bytes" where
  "row_text ts r = takeWhile (\<lambda>x. x \<noteq> 0) (buffer ts ! r)"

definition plain_char :: "u8 \<Rightarrow> bool" where
  "plain_char c \<longleftrightarrow> c \<notin> {0, 8, 9, 10, 13}"

text \<open>Characters that fit behind the cursor replace what is there.\<close>

lemma print_row:
  assumes "\<forall>x \<in> set xs. plain_char x" and "cursor_col ts + length xs < TERM_COLS" and "cursor_row ts < length (buffer ts)"
    and "length (buffer ts ! cursor_row ts) = TERM_COLS"
  shows "buffer (fold term_putchar xs ts) = (buffer ts)[cursor_row ts :=
      take (cursor_col ts) (buffer ts ! cursor_row ts) @ xs @ drop (cursor_col ts + length xs) (buffer ts ! cursor_row ts)]
    \<and> cursor_row (fold term_putchar xs ts) = cursor_row ts \<and> cursor_col (fold term_putchar xs ts) = cursor_col ts + length xs"
  using assms
proof (induction xs arbitrary: ts)
  case (Cons x xs)
  let ?r = "cursor_row ts" and ?c = "cursor_col ts" and ?row = "buffer ts ! cursor_row ts"
  define t where "t = term_putchar x ts"
  have t: "buffer t = (buffer ts)[?r := ?row[?c := x]]" "cursor_row t = ?r" "cursor_col t = ?c + 1"
    using Cons.prems by (auto simp: t_def term_putchar_def plain_char_def term_wrap_def term_write_def put_cell_def put_color_def)
  have row: "buffer t ! ?r = ?row[?c := x]"
    using Cons.prems(3) by (simp add: t)
  have "take (?c + 1) (?row[?c := x]) = take ?c ?row @ [x]"
    using Cons.prems(2,4) by (simp add: take_Suc_conv_app_nth)
  then show ?case
    using Cons.IH [of t] Cons.prems row by (simp add: t flip: t_def)
qed simp

definition blank_from :: "nat \<Rightarrow> terminal_state \<Rightarrow> bool" where
  "blank_from r ts \<longleftrightarrow> (\<forall>i. r \<le> i \<and> i < TERM_ROWS \<longrightarrow> buffer ts ! i = replicate TERM_COLS 0)"

text \<open>A terminal at the start of an empty line.\<close>

definition at_line :: "terminal_state \<Rightarrow> bool" where
  "at_line ts \<longleftrightarrow> screen_ok ts \<and> cursor_col ts = 0 \<and> blank_from (cursor_row ts) ts"

definition short_line :: "bytes \<Rightarrow> bool" where
  "short_line xs \<longleftrightarrow> length xs < TERM_COLS \<and> (\<forall>x \<in> set xs. plain_char x)"

definition print_line :: "bytes \<Rightarrow> terminal_state \<Rightarrow> terminal_state" where
  "print_line xs ts = term_puts (xs @ [10]) ts"

definition lines_above :: "terminal_state \<Rightarrow> bytes list" where
  "lines_above ts = map (row_text ts) [0..<cursor_row ts]"

lemma print_line_state:
  assumes "at_line ts" and "short_line xs"
  shows "let b = (buffer ts)[cursor_row ts := xs @ replicate (TERM_COLS - length xs) 0]; t = print_line xs ts in
    cursor_col t = 0 \<and>
    (if cursor_row ts + 1 < TERM_ROWS then buffer t = b \<and> cursor_row t = cursor_row ts + 1
     else buffer t = tl b @ [replicate TERM_COLS 0] \<and> cursor_row t = cursor_row ts)"
proof -
  have r: "cursor_row ts < TERM_ROWS" "length (buffer ts) = TERM_ROWS" "buffer ts ! cursor_row ts = replicate TERM_COLS 0"
    using assms(1) by (auto simp: at_line_def screen_ok_def grid_def blank_from_def)
  have "cstr (xs @ [10]) = xs @ [10]"
    using assms(2) by (intro cstr_nul_free) (auto simp: short_line_def plain_char_def nul_free_def)
  then have p: "print_line xs ts = term_newline (fold term_putchar xs ts)"
    by (simp add: print_line_def term_puts_def term_putchar_def)
  have "buffer (fold term_putchar xs ts) = (buffer ts)[cursor_row ts := xs @ replicate (TERM_COLS - length xs) 0]"
    "cursor_row (fold term_putchar xs ts) = cursor_row ts"
    using print_row [of xs ts] assms r by (auto simp: at_line_def short_line_def)
  then show ?thesis
    using r by (auto simp: p term_newline_def term_scroll_def Let_def)
qed

lemma row_of_line: "short_line xs \<Longrightarrow> takeWhile (\<lambda>x. x \<noteq> 0) (xs @ replicate n 0) = xs"
  by (subst takeWhile_append2) (auto simp: short_line_def plain_char_def)

lemma print_line_at_line:
  assumes "at_line ts" and "short_line xs"
  shows "at_line (print_line xs ts)"
proof -
  let ?t = "print_line xs ts"
  have "screen_ok ?t"
    using assms(1) screen_op_ok [OF screen_op_puts(1)] by (simp add: print_line_def at_line_def)
  moreover have "length (buffer ts) = TERM_ROWS"
    using assms(1) by (simp add: at_line_def screen_ok_def grid_def)
  ultimately show ?thesis
    using print_line_state [OF assms] assms(1)
    by (auto simp: at_line_def blank_from_def Let_def nth_append nth_tl screen_ok_def split: if_splits)
qed

lemma lines_above_print:
  assumes "at_line ts" and "short_line xs"
  shows "lines_above (print_line xs ts) = drop (length (lines_above ts) + 1 - (TERM_ROWS - 1)) (lines_above ts @ [xs])"
proof -
  let ?t = "print_line xs ts" and ?r = "cursor_row ts"
  have b: "length (buffer ts) = TERM_ROWS" "?r < TERM_ROWS"
    using assms(1) by (auto simp: at_line_def screen_ok_def grid_def)
  show ?thesis
  proof (cases "?r + 1 < TERM_ROWS")
    case True
    then have "buffer ?t = (buffer ts)[?r := xs @ replicate (TERM_COLS - length xs) 0]" "cursor_row ?t = ?r + 1"
      using print_line_state [OF assms] by (simp_all add: Let_def)
    then show ?thesis
      using True b row_of_line [OF assms(2)] by (simp add: lines_above_def row_text_def)
  next
    case False
    then have r: "?r = TERM_ROWS - 1"
      using b by simp
    then have t: "buffer ?t = tl ((buffer ts)[?r := xs @ replicate (TERM_COLS - length xs) 0]) @ [replicate TERM_COLS 0]" "cursor_row ?t = ?r"
      using print_line_state [OF assms] by (simp_all add: Let_def)
    have "row_text ?t i = (lines_above ts @ [xs]) ! (i + 1)" if "i < ?r" for i
      using that b r row_of_line [OF assms(2)] by (cases "i = 198") (auto simp: row_text_def t nth_append nth_tl lines_above_def)
    moreover have "length (lines_above ts) = TERM_ROWS - 1" "length (lines_above ?t) = TERM_ROWS - 1" "lines_above ?t ! i = row_text ?t i" if "i < ?r" for i
      using that r by (simp_all add: lines_above_def t)
    ultimately have "lines_above ?t = drop 1 (lines_above ts @ [xs])"
      using r by (intro nth_equalityI) (auto simp: lines_above_def t(2) simp del: drop_append)
    then show ?thesis
      using r by (simp add: lines_above_def)
  qed
qed

interpretation term_log: bounded_log "TERM_ROWS - 1" lines_above print_line at_line short_line
  by unfold_locales (auto simp: lines_above_print print_line_at_line, simp add: lines_above_def at_line_def screen_ok_def)

text \<open>
  C34: The screen is a log of what is printed: after any number of lines of up to 99 characters on a cleared terminal, the rows
  above the cursor are the last 199 of these lines in their order, and the cursor is at the start of an empty row.
\<close>

theorem term_shows_last_lines:
  assumes "\<forall>l \<in> set ls. short_line l"
  shows "lines_above (fold print_line ls (term_clear ts)) = drop (length ls - 199) ls \<and>
    cursor_col (fold print_line ls (term_clear ts)) = 0 \<and> blank_from (cursor_row (fold print_line ls (term_clear ts))) (fold print_line ls (term_clear ts))"
proof -
  have "at_line (term_clear ts)" "lines_above (term_clear ts) = []"
    using clear_screen_ok by (simp_all add: at_line_def blank_from_def term_clear_def lines_above_def)
  then show ?thesis
    using term_log.log_pushes [of "term_clear ts" ls] term_log.inv_pushes [of "term_clear ts" ls] assms by (simp add: at_line_def)
qed

theorem term_shows_last_lines_witness:
  "lines_above (fold print_line [lit ''one'', lit ''two''] (term_clear term_zero)) = [lit ''one'', lit ''two'']"
  using term_shows_last_lines [of "[lit ''one'', lit ''two'']" term_zero] by (simp add: short_line_def plain_char_def of_char_def)

section \<open>Typing\<close>

text \<open>A reference editor: backspaces take the last character away, others are appended while there is room.\<close>

definition edit :: "u8 \<Rightarrow> bytes \<Rightarrow> bytes" where
  "edit c l = (if c = 8 then butlast l else if length l < 255 then l @ [c] else l)"

text \<open>The keys of text: printable characters and backspace, with any scan code that means no special key.\<close>

definition text_key :: "u16 \<Rightarrow> bool" where
  "text_key k \<longleftrightarrow> key_ascii k = 8 \<or> 32 \<le> key_ascii k \<and> key_ascii k < 127 \<and> key_scan k \<notin> {0x0E, 0x48, 0x49, 0x50, 0x51}"

definition type_keys :: "'w host \<Rightarrow> u16 list \<Rightarrow> 'w terminal \<Rightarrow> 'w terminal" where
  "type_keys h = fold (terminal_on_key h)"

lemma type_key:
  assumes "text_key k" and "input_active (term_state s)"
  shows "input (term_state (terminal_on_key h k s)) = edit (key_ascii k) (input (term_state s))"
    and "input_active (term_state (terminal_on_key h k s))" and "world (terminal_on_key h k s) = world s"
    and "history (term_state (terminal_on_key h k s)) = history (term_state s)"
    and "os_clipboard (terminal_on_key h k s) = os_clipboard s"
    and "sel_start_row (term_state (terminal_on_key h k s)) = sel_start_row (term_state s)"
proof -
  let ?t = "term_state s"
  have rest: "same_rest t (term_putchar c t)" "same_rest t (term_blank_left t)" for t c
    by (rule screen_op_rest, rule screen_ops)+
  have key: "terminal_on_key h k s = on_term (if key_ascii k = 8 then term_backspace else term_type (key_ascii k)) s"
    using assms by (auto simp: terminal_on_key_def text_key_def Let_def)
  have typed: "term_type c ?t = (if length (input ?t) < 255 then term_putchar c (?t\<lparr>scroll_offset := 0, input := input ?t @ [c]\<rparr>) else ?t\<lparr>scroll_offset := 0\<rparr>)"
    if "32 \<le> c" "c < 127" for c
    using that by (simp add: term_type_def Let_def)
  have taken: "term_backspace ?t = (if input ?t \<noteq> [] then term_blank_left (?t\<lparr>input := butlast (input ?t)\<rparr>) else ?t)"
    by (simp add: term_backspace_def)
  show "input (term_state (terminal_on_key h k s)) = edit (key_ascii k) (input ?t)" "input_active (term_state (terminal_on_key h k s))"
      "world (terminal_on_key h k s) = world s" "history (term_state (terminal_on_key h k s)) = history ?t"
      "os_clipboard (terminal_on_key h k s) = os_clipboard s"
      "sel_start_row (term_state (terminal_on_key h k s)) = sel_start_row (term_state s)"
    using assms rest [unfolded same_rest_def]
    by (auto simp: key on_term_def typed taken edit_def text_key_def)
qed

lemma type_keys_input:
  assumes "\<forall>k \<in> set ks. text_key k" and "input_active (term_state s)"
  shows "input (term_state (type_keys h ks s)) = fold edit (map key_ascii ks) (input (term_state s)) \<and>
    input_active (term_state (type_keys h ks s)) \<and> world (type_keys h ks s) = world s \<and>
    history (term_state (type_keys h ks s)) = history (term_state s)"
  using assms by (induction ks arbitrary: s) (simp_all add: type_keys_def type_key)

lemma execute_result:
  assumes "cmd_dispatch h cmd (world s) = (es, r, w)"
  shows "world (term_execute h cmd s) = (if r = -3 then destroy_window h w else w) \<and>
    history (term_state (term_execute h cmd s)) =
      (if length (history (term_state s)) < TERM_HISTORY_SIZE then history (term_state s) @ [take (TERM_MAX_INPUT - 1) cmd] else history (term_state s))"
proof -
  have rest: "history (term_clear t) = history t" "history (term_puts_color x c t) = history t" for t x c
    using screen_op_rest [OF screen_op_clear] screen_op_rest [OF screen_op_puts(2)] by (simp_all add: same_rest_def)
  show ?thesis
    by (simp add: term_execute_def Let_def assms on_term_def rest term_remember_def)
qed

text \<open>
  C35: What is typed is what is run: printable keys and backspaces, then Enter, hand exactly the edited line of up to 255 characters
  to the command interpreter, once and with the case of its letters; an empty line runs nothing. The line enters the history
  when fewer than ten are there, and is lost to it otherwise.
\<close>

theorem terminal_runs_typed:
  assumes "\<forall>k \<in> set ks. text_key k" and "key_ascii k = 13" and "input_active (term_state s)"
    and "line = fold edit (map key_ascii ks) (input (term_state s))" and "length line \<le> 255"
    and "t = terminal_on_key h k (type_keys h ks s)"
  shows "world t = (if line = [] then world s else
      case cmd_dispatch h line (world s) of (es, r, w) \<Rightarrow> if r = -3 then destroy_window h w else w) \<and>
    input (term_state t) = [] \<and>
    history (term_state t) = (if line = [] \<or> 10 \<le> length (history (term_state s)) then history (term_state s) else history (term_state s) @ [line])"
proof -
  let ?s = "type_keys h ks s"
  have typed: "input (term_state ?s) = line" "input_active (term_state ?s)" "world ?s = world s" "history (term_state ?s) = history (term_state s)"
    using type_keys_input [OF assms(1,3), of h] assms(4) by auto
  have rest: "same_rest x (term_putchar 10 x)" "same_rest x (term_show_prompt a b x)" for x a b
    by (rule screen_op_rest, rule screen_ops)+
  define s1 where "s1 = on_term (\<lambda>ts. term_putchar 10 (ts\<lparr>scroll_offset := 0\<rparr>)) ?s"
  have s1: "input (term_state s1) = line" "world s1 = world s" "history (term_state s1) = history (term_state s)"
    using rest(1) [unfolded same_rest_def] typed by (simp_all add: s1_def on_term_def)
  define s2 where "s2 = on_term (\<lambda>ts. ts\<lparr>input := []\<rparr>) (if line \<noteq> [] then term_execute h line s1 else s1)"
  have "t = term_enter h ?s"
    using assms(2,6) typed by (simp add: terminal_on_key_def Let_def)
  then have "t = (if desktop_exit_reason h (world s2) < 0
      then on_term (term_show_prompt (current_user h (world s2)) (current_dir h (world s2))) s2 else s2)"
    by (simp add: term_enter_def Let_def s1(1) s2_def flip: s1_def)
  then have t: "world t = world (if line \<noteq> [] then term_execute h line s1 else s1)" "input (term_state t) = []"
      "history (term_state t) = history (term_state (if line \<noteq> [] then term_execute h line s1 else s1))"
    using rest(2) [unfolded same_rest_def] by (simp_all add: s2_def on_term_def)
  obtain es r w where d: "cmd_dispatch h line (world s) = (es, r, w)"
    by (metis prod_cases3)
  show ?thesis
    using t s1 execute_result [of h line s1 es r w] d assms(5) by auto
qed

definition counting_host :: "bytes list host" where
  "counting_host = \<lparr>current_user = (\<lambda>_. lit ''root''), current_dir = (\<lambda>_. lit ''/''), desktop_exit_reason = (\<lambda>_. -1), destroy_window = id,
     cmd_dispatch = (\<lambda>cmd w. ([], 0, w @ [cmd]))\<rparr>"

theorem terminal_runs_typed_witness:
  "world (terminal_on_key counting_host 0x1C0D (type_keys counting_host [0x2044, 0x1749, 0x1749, 0x0E08, 0x1352] (terminal_create counting_host (boot_term [])))) = [lit ''DIR'']"
proof -
  let ?s = "terminal_create counting_host (boot_term []) :: bytes list terminal"
  have keys: "key_ascii 0x2044 = 0x44" "key_ascii 0x1749 = 0x49" "key_ascii 0x1352 = 0x52" "key_ascii 0x1C0D = 13"
      "key_scan 0x2044 = 0x20" "key_scan 0x1749 = 0x17" "key_scan 0x1352 = 0x13"
    by (simp_all add: key_ascii_def key_scan_def)
  have rest: "input (term_puts_color x c t) = input t" "input_active (term_puts_color x c t) = input_active t"
      "input (term_show_prompt a b t) = input t" "input_active (term_show_prompt a b t) = input_active t" for x c t a b
    using screen_op_rest [OF screen_op_puts(2)] screen_op_rest [OF screen_op_prompt] by (simp_all add: same_rest_def)
  have s: "input (term_state ?s) = []" "input_active (term_state ?s)" "world ?s = []"
    by (simp_all add: terminal_create_def term_init_def Let_def rest boot_term_def del: lit_Cons)
  have line: "fold edit (map key_ascii [0x2044, 0x1749, 0x1749, 0x0E08, 0x1352]) (input (term_state ?s)) = lit ''DIR''"
    by (simp add: s keys edit_def of_char_def)
  have d: "cmd_dispatch counting_host l w = ([], 0, w @ [l])" for l w
    by (simp add: counting_host_def)
  have "\<forall>k \<in> set [0x2044, 0x1749, 0x1749, 0x0E08, 0x1352]. text_key k"
    by (simp add: text_key_def keys)
  from terminal_runs_typed [OF this keys(4) s(2) refl _ refl, of counting_host] show ?thesis
    unfolding line by (simp add: d s)
qed

section \<open>Cut and paste\<close>

lemma cut_input_empties:
  "input_active (term_state s) \<Longrightarrow> input (term_state (cut_input h s)) = [] \<and> input_active (term_state (cut_input h s)) \<and>
     os_clipboard (cut_input h s) = os_clipboard s \<and> sel_start_row (term_state (cut_input h s)) = sel_start_row (term_state s) \<and> world (cut_input h s) = world s"
proof (induction h s rule: cut_input.induct)
  case (1 h s)
  have "text_key 0x0E08"
    by (simp add: text_key_def)
  then show ?case
    using 1 type_key [of "0x0E08" s h] by (subst (1 2 3 4 5) cut_input.simps) simp
qed

lemma paste_appends:
  assumes "\<forall>c \<in> set cs. 32 \<le> c \<and> c < 127" and "length (input (term_state s)) + length cs \<le> 255" and "input_active (term_state s)"
  shows "input (term_state (paste_chars h cs s)) = input (term_state s) @ cs \<and> world (paste_chars h cs s) = world s \<and>
    os_clipboard (paste_chars h cs s) = os_clipboard s"
  using assms
proof (induction cs arbitrary: s)
  case (Cons c cs)
  have c: "text_key (ucast c)" "c \<noteq> 8" "c \<noteq> 13" "c \<noteq> 10"
    using Cons.prems(1) by (auto simp: text_key_def)
  show ?case
    using Cons type_key [OF c(1), of s h] c by (simp add: edit_def)
qed simp

text \<open>
  Cut and paste restore the line: in every reachable state without a selection that accepts input, cutting empties the
  input line and pasting brings back the same line; no command runs, and the clipboard holds the line.
\<close>

theorem cut_paste_roundtrip:
  assumes "term_reach h s" and "input_active (term_state s)" and "sel_start_row (term_state s) = -1"
  shows "input (term_state (terminal_edit_cut h s)) = [] \<and> os_clipboard (terminal_edit_cut h s) = input (term_state s) \<and>
    input (term_state (terminal_edit_paste h (terminal_edit_cut h s))) = input (term_state s) \<and>
    world (terminal_edit_paste h (terminal_edit_cut h s)) = world s"
proof -
  let ?line = "input (term_state s)" and ?t = "term_copy_selection_to_clip s" and ?u = "terminal_edit_cut h s"
  have "terminal_ok s"
    using assms(1) by (induction rule: term_reach.induct) (auto intro: term_step_ok terminal_ok_create simp: boot_term_def)
  then have line: "length ?line \<le> 255" "\<forall>c \<in> set ?line. 32 \<le> c \<and> c < 127"
    by (auto simp: terminal_ok_def term_ok_def input_ok_def entry_ok_def printable_def)
  have t: "?t = s\<lparr>os_clipboard := ?line\<rparr>"
    using line(1) assms(3) by (simp add: term_copy_selection_to_clip_def)
  then have u: "?u = cut_input h (s\<lparr>os_clipboard := ?line\<rparr>)"
    using assms(2,3) by (simp add: terminal_edit_cut_def)
  have cut: "input (term_state ?u) = []" "input_active (term_state ?u)" "os_clipboard ?u = ?line" "world ?u = world s"
    using cut_input_empties [of "s\<lparr>os_clipboard := ?line\<rparr>" h] assms(2) by (simp_all add: u)
  then show ?thesis
    using paste_appends [of ?line ?u h] line by (auto simp: terminal_edit_paste_def)
qed

section \<open>Tabs\<close>

text \<open>
  A tab hides the rest of its row: after a text, a tab and more text on an empty row, only what stands before the tab is
  drawn, since the tab leaves characters 0 behind, and \<open>terminal_on_draw\<close> stops at the first of them.
\<close>

theorem term_tab_hides:
  assumes "at_line ts" and "short_line xs" and "short_line ys" and "(length xs + 4) div 4 * 4 + length ys < TERM_COLS"
  shows "row_text (term_puts (xs @ 9 # ys) ts) (cursor_row ts) = xs \<and>
    map (\<lambda>(x, c, _). c) (drawn_row 4096 (term_puts (xs @ 9 # ys) ts) (cursor_row ts)) = xs"
proof -
  let ?r = "cursor_row ts" and ?c = "(length xs + 4) div 4 * 4"
  have r: "?r < length (buffer ts)" "buffer ts ! ?r = replicate TERM_COLS 0" "cursor_col ts = 0"
    using assms(1) by (auto simp: at_line_def screen_ok_def grid_def blank_from_def)
  have c: "length xs < ?c"
    by presburger
  have "nul_free (xs @ 9 # ys)"
    using assms(2,3) by (auto simp: short_line_def plain_char_def nul_free_def)
  then have puts: "term_puts (xs @ 9 # ys) ts = fold term_putchar ys (term_putchar 9 (fold term_putchar xs ts))"
    by (simp add: term_puts_def del: nul_free_append nul_free_Cons cstr_Cons)
  define t where "t = term_putchar 9 (fold term_putchar xs ts)"
  have "buffer (fold term_putchar xs ts) = (buffer ts)[?r := xs @ replicate (TERM_COLS - length xs) 0]"
    "cursor_row (fold term_putchar xs ts) = ?r" "cursor_col (fold term_putchar xs ts) = length xs"
    using print_row [of xs ts] assms(2) r by (auto simp: short_line_def)
  then have t: "buffer t = (buffer ts)[?r := xs @ replicate (TERM_COLS - length xs) 0]" "cursor_row t = ?r" "cursor_col t = ?c"
    using assms(4) by (simp_all add: t_def term_putchar_def term_wrap_def)
  have "buffer t ! ?r = xs @ replicate (TERM_COLS - length xs) 0" "length (buffer t ! ?r) = TERM_COLS"
    using r(1) assms(2) by (auto simp: t short_line_def)
  moreover have "take ?c (xs @ replicate (TERM_COLS - length xs) 0) = xs @ replicate (?c - length xs) 0"
    using c assms(4) by (simp add: min_def)
  ultimately have "buffer (fold term_putchar ys t) ! ?r =
      xs @ replicate (?c - length xs) 0 @ ys @ drop (?c + length ys) (xs @ replicate (TERM_COLS - length xs) 0)"
    using print_row [of ys t] assms(3,4) r(1) t by (auto simp: short_line_def)
  moreover have "replicate (?c - length xs) (0 :: u8) = 0 # replicate (?c - length xs - 1) 0"
    using c by (cases "?c - length xs") simp_all
  ultimately have row: "takeWhile (\<lambda>x. x \<noteq> 0) (buffer (fold term_putchar ys t) ! ?r) = xs"
      "take (length xs) (buffer (fold term_putchar ys t) ! ?r) = xs"
    using assms(2) by (auto simp: short_line_def plain_char_def takeWhile_append2)
  have "drawn_row 4096 (fold term_putchar ys t) ?r = map (\<lambda>c. (int c * 8 + 4, buffer (fold term_putchar ys t) ! ?r ! c,
      fg (fold term_putchar ys t) ! ?r ! c, is_sel (fold term_putchar ys t) (int ?r) (int c))) [0..<length xs]"
    unfolding drawn_row_def row(1) using assms(2) by (subst takeWhile_eq_all_conv) (auto simp: short_line_def)
  moreover have "map (\<lambda>c. buffer (fold term_putchar ys t) ! ?r ! c) [0..<length xs] = xs"
    using row(2) by (metis length_take map_nth min.absorb_iff2 nat_le_linear nth_take take_all_iff map_cong atLeastLessThan_upt atLeastLessThan_iff)
  ultimately show ?thesis
    using row(1) by (simp add: row_text_def puts o_def flip: t_def)
qed

theorem term_tab_hides_witness:
  "row_text (term_puts (lit ''Name:'' @ 9 # lit ''eth0'') (term_clear term_zero)) 0 = lit ''Name:''"
proof -
  have "at_line (term_clear term_zero)"
    using clear_screen_ok by (simp add: at_line_def blank_from_def term_clear_def)
  moreover have "cursor_row (term_clear term_zero) = 0"
    by (simp add: term_clear_def)
  ultimately show ?thesis
    using term_tab_hides [of "term_clear term_zero" "lit ''Name:''" "lit ''eth0''"] by (simp add: short_line_def plain_char_def of_char_def)
qed

end
