(* ===== verification/ShellLine.thy ===== *)
theory ShellLine
  imports CmdText Scrollback
begin

text \<open>
  The command line of the text console: \<open>shell_main\<close> of \<open>src/src/shell.c\<close> with its line editor and history, and
  from \<open>src/src/commands.c\<close> the keyboard layout and \<open>cmd_dispatch\<close>.

  The buffer \<open>line\<close> is the list of its 256 characters, since what an abandoned line leaves in it matters;
  \<open>history\<close> is the list of the entries in use. Keys come as a list, and the commands are an argument. The echo on the
  screen is left out; the scrollback is the one of \<open>Scrollback\<close>.
\<close>

section \<open>Keyboard layout\<close>

definition serbian_keys :: "(char \<times> char) list" where
  "serbian_keys =
     [(CHR ''y'', CHR ''z''), (CHR ''Y'', CHR ''Z''), (CHR ''z'', CHR ''y''), (CHR ''Z'', CHR ''Y''),
      (CHR ''@'', CHR 0x22), (CHR ''^'', CHR ''&''), (CHR ''&'', CHR ''/''), (CHR ''*'', CHR ''(''), (CHR ''('', CHR '')''),
      (CHR '')'', CHR ''=''), (CHR ''_'', CHR ''?''), (CHR ''+'', CHR ''*''), (CHR ''-'', CHR 0x27), (CHR ''='', CHR ''+''),
      (CHR ''['', CHR ''s''), (CHR ''{'', CHR ''S''), (CHR '']'', CHR ''d''), (CHR ''}'', CHR ''D''), (CHR 0x5C, CHR ''z''),
      (CHR ''|'', CHR ''Z''), (CHR '';'', CHR ''c''), (CHR '':'', CHR ''C''), (CHR 0x27, CHR ''c''), (CHR 0x22, CHR ''C''),
      (CHR '','', CHR '',''), (CHR ''.'', CHR ''.''), (CHR ''/'', CHR ''-''), (CHR ''<'', CHR '';''), (CHR ''>'', CHR '':''),
      (CHR ''?'', CHR ''_'')]"

definition keyboard_remap :: "int \<Rightarrow> u8 \<Rightarrow> u8" where
  "keyboard_remap layout c =
     (if layout = 0 then c
      else case map_of (map (map_prod of_char of_char) serbian_keys) c of None \<Rightarrow> c | Some d \<Rightarrow> d)"

section \<open>Dispatching\<close>

text \<open>\<open>table\<close> are the commands by name, in the order of the source's array.\<close>

fun find_command :: "(bytes \<times> (bytes \<Rightarrow> 'w \<Rightarrow> int \<times> 'w)) list \<Rightarrow> bytes \<Rightarrow> (bytes \<Rightarrow> 'w \<Rightarrow> int \<times> 'w) option" where
  "find_command [] cmd_name = None"
| "find_command ((name, func) # table) cmd_name =
     (if str_cmp cmd_name name = 0 then Some func else find_command table cmd_name)"

definition cmd_dispatch :: "(bytes \<times> (bytes \<Rightarrow> 'w \<Rightarrow> int \<times> 'w)) list \<Rightarrow> bytes \<Rightarrow> 'w \<Rightarrow> int \<times> 'w" where
  "cmd_dispatch table line w =
     (if peek line = 0 then (0, w)
      else let (args, cmd_name) = get_token line 64
           in case find_command table (str_upper cmd_name) of Some func \<Rightarrow> func args w | None \<Rightarrow> (-255, w))"

section \<open>The line editor\<close>

abbreviation MAX_INPUT :: nat where "MAX_INPUT \<equiv> 256"
abbreviation HISTORY_SIZE :: nat where "HISTORY_SIZE \<equiv> 20"

record 'w shell_state =
  sh_line :: bytes
  sh_pos :: nat
  sh_history :: "bytes list"
  sh_history_pos :: nat
  sh_scrollback :: scrollback
  sh_layout :: int
  sh_world :: 'w

definition store_line :: "bytes \<Rightarrow> bytes \<Rightarrow> bytes" where
  "store_line s buf = s @ [0] @ drop (length s + 1) buf"

definition recall :: "nat \<Rightarrow> 'w shell_state \<Rightarrow> 'w shell_state" where
  "recall i s =
     (let entry = take (MAX_INPUT - 1) (sh_history s ! i)
      in s\<lparr>sh_history_pos := i, sh_line := store_line entry (sh_line s), sh_pos := length entry\<rparr>)"

datatype key_result = Go_on | Line_done

text \<open>The last tests of a key, which a special key reaches when it is no arrow and no page key.\<close>

definition plain_key :: "u8 \<Rightarrow> 'w shell_state \<Rightarrow> key_result \<times> 'w shell_state" where
  "plain_key key s =
     (if key = 13 \<or> key = 10 then (Line_done, s\<lparr>sh_line := (sh_line s)[sh_pos s := 0]\<rparr>)
      else if key = 3 then (Line_done, s\<lparr>sh_pos := 0\<rparr>)
      else if key = 8 then (Go_on, if 0 < sh_pos s then s\<lparr>sh_pos := sh_pos s - 1\<rparr> else s)
      else if sh_pos s < MAX_INPUT - 1 \<and> 32 \<le> key \<and> key \<le> 126 then
        (Go_on, s\<lparr>sh_line := (sh_line s)[sh_pos s := keyboard_remap (sh_layout s) key], sh_pos := sh_pos s + 1\<rparr>)
      else (Go_on, s))"

definition shell_key :: "u16 \<Rightarrow> 'w shell_state \<Rightarrow> key_result \<times> 'w shell_state" where
  "shell_key k s =
     (let key = ucast (k AND 0xFF) :: u8; scan = ucast (drop_bit 8 k AND 0xFF) :: u8
      in if key = 0 \<and> scan = 0x48 then
           (Go_on, if sh_history s = [] then s
             else recall (if 0 < sh_history_pos s then sh_history_pos s - 1 else sh_history_pos s) s)
         else if key = 0 \<and> scan = 0x50 then
           (Go_on, if sh_history_pos s + 1 < length (sh_history s) then recall (sh_history_pos s + 1) s else s)
         else if key = 0 \<and> scan = 0x49 then (Go_on, s\<lparr>sh_scrollback := scrollback_scroll_up (sh_scrollback s)\<rparr>)
         else if key = 0 \<and> scan = 0x51 then (Go_on, s\<lparr>sh_scrollback := scrollback_scroll_down (sh_scrollback s)\<rparr>)
         else plain_key key s)"

text \<open>Keys are read until a line is done; the result has the keys that are left. \<open>None\<close> is waiting for more keys.\<close>

fun edit_line :: "u16 list \<Rightarrow> 'w shell_state \<Rightarrow> ('w shell_state \<times> u16 list) option" where
  "edit_line [] s = None"
| "edit_line (k # ks) s =
     (case shell_key k s of (Line_done, s) \<Rightarrow> Some (s, ks) | (Go_on, s) \<Rightarrow> edit_line ks s)"

definition read_command :: "u16 list \<Rightarrow> 'w shell_state \<Rightarrow> ('w shell_state \<times> u16 list) option" where
  "read_command ks s = edit_line ks (s\<lparr>sh_line := replicate MAX_INPUT 0, sh_pos := 0\<rparr>)"

section \<open>Running a line\<close>

definition line_blank :: "u8 \<Rightarrow> bool" where
  "line_blank c \<longleftrightarrow> c = 0x20 \<or> c = 9 \<or> c = 10 \<or> c = 13"

definition str_trim :: "bytes \<Rightarrow> bytes" where
  "str_trim s = rev (dropWhile line_blank (rev (cstr s)))"

fun str_cmp_nocase :: "bytes \<Rightarrow> bytes \<Rightarrow> int" where
  "str_cmp_nocase a b =
     (if peek a \<noteq> 0 \<and> peek b \<noteq> 0
      then if upper8 (peek a) \<noteq> upper8 (peek b) then sint (upper8 (peek a)) - sint (upper8 (peek b))
           else str_cmp_nocase (tl a) (tl b)
      else sint (peek a) - sint (peek b))"

declare str_cmp_nocase.simps [simp del]

definition shell_remember :: "bytes \<Rightarrow> 'w shell_state \<Rightarrow> 'w shell_state" where
  "shell_remember cmd s =
     (let entry = take (MAX_INPUT - 1) cmd;
          h = (if length (sh_history s) < HISTORY_SIZE then sh_history s @ [entry] else tl (sh_history s) @ [entry])
      in s\<lparr>sh_history := h, sh_history_pos := length h\<rparr>)"

datatype turn = Prompt | Leave

text \<open>One command after the line was read: back to the prompt, or out of the shell.\<close>

definition run_line :: "(bytes \<Rightarrow> 'w \<Rightarrow> int \<times> 'w) \<Rightarrow> 'w shell_state \<Rightarrow> turn \<times> 'w shell_state" where
  "run_line dispatch s =
     (let cmd = str_trim (sh_line s)
      in if cmd = [] \<or> peek cmd = 0x23 then (Prompt, s)
         else
           let s = shell_remember cmd s
           in if str_cmp_nocase cmd (lit ''GUIMODE'') = 0 \<or> str_cmp_nocase cmd (lit ''EXIT'') = 0 then (Leave, s)
              else let (result, w) = dispatch cmd (sh_world s) in (Prompt, s\<lparr>sh_world := w\<rparr>))"

lemma edit_line_rest: "edit_line ks s = Some (s', rest) \<Longrightarrow> length rest < length ks"
  by (induction ks s rule: edit_line.induct) (fastforce split: prod.splits key_result.splits)+

text \<open>The prompt loop: the shell that is left with the keys after it, or \<open>None\<close> while it waits for keys.\<close>

function shell_loop :: "(bytes \<Rightarrow> 'w \<Rightarrow> int \<times> 'w) \<Rightarrow> u16 list \<Rightarrow> 'w shell_state \<Rightarrow> ('w shell_state \<times> u16 list) option" where
  "shell_loop dispatch ks s =
     (case read_command ks s of
        None \<Rightarrow> None
      | Some (s, ks) \<Rightarrow>
          (case run_line dispatch s of (Leave, s) \<Rightarrow> Some (s, ks) | (Prompt, s) \<Rightarrow> shell_loop dispatch ks s))"
  by auto
termination
  by (relation "measure (\<lambda>(d, ks, s). length ks)") (auto simp: read_command_def dest: edit_line_rest)

declare shell_loop.simps [simp del]

definition boot_shell :: "cells list \<Rightarrow> 'w \<Rightarrow> 'w shell_state" where
  "boot_shell v w =
     \<lparr>sh_line = [], sh_pos = 0, sh_history = [], sh_history_pos = 0, sh_scrollback = scrollback_init v, sh_layout = 0,
      sh_world = w\<rparr>"

end
