(* ===== verification/ShellFacts.thy ===== *)
theory ShellFacts
  imports ShellLine
begin

text \<open>
  What the command line of the text console guarantees, and where it does not: the bounds of its buffers, the history as a
  bounded log, and what Ctrl+C does.
\<close>

section \<open>Bounds\<close>

definition shell_ok :: "'w shell_state \<Rightarrow> bool" where
  "shell_ok s \<longleftrightarrow> length (sh_line s) = MAX_INPUT \<and> sh_pos s < MAX_INPUT \<and> sh_line s ! (MAX_INPUT - 1) = 0 \<and>
     length (sh_history s) \<le> HISTORY_SIZE \<and> sh_history_pos s \<le> length (sh_history s) \<and> sb_inv (sh_scrollback s)"

lemma recall_ok:
  assumes "shell_ok s" and "i < length (sh_history s)"
  shows "shell_ok (recall i s)"
  using assms by (auto simp: recall_def store_line_def shell_ok_def nth_append nth_Cons' Let_def not_less)

lemma shell_key_ok: "shell_ok s \<Longrightarrow> shell_ok (snd (shell_key k s))"
proof -
  assume ok: "shell_ok s"
  have sb: "shell_ok (s\<lparr>sh_scrollback := scrollback_scroll_up (sh_scrollback s)\<rparr>)"
      "shell_ok (s\<lparr>sh_scrollback := scrollback_scroll_down (sh_scrollback s)\<rparr>)"
    using ok sb_inv_scroll_up sb_inv_scroll_down by (auto simp: shell_ok_def)
  have "shell_ok (snd (plain_key key s))" for key
    using ok by (auto simp: plain_key_def shell_ok_def nth_list_update)
  moreover have "shell_ok (recall (if 0 < sh_history_pos s then sh_history_pos s - 1 else sh_history_pos s) s)" if "sh_history s \<noteq> []"
    using ok that by (intro recall_ok) (auto simp: shell_ok_def)
  moreover have "shell_ok (recall (sh_history_pos s + 1) s)" if "sh_history_pos s + 1 < length (sh_history s)"
    using ok that by (intro recall_ok) auto
  ultimately show ?thesis
    using ok sb by (simp add: shell_key_def Let_def)
qed

lemma edit_line_ok: "edit_line ks s = Some (t, rest) \<Longrightarrow> shell_ok s \<Longrightarrow> shell_ok t"
proof (induction ks s rule: edit_line.induct)
  case (2 k ks s)
  then show ?case
    using shell_key_ok [of s k] by (auto split: prod.splits key_result.splits)
qed simp

text \<open>What holds between two lines.\<close>

definition between_ok :: "'w shell_state \<Rightarrow> bool" where
  "between_ok s \<longleftrightarrow> length (sh_history s) \<le> HISTORY_SIZE \<and> sh_history_pos s \<le> length (sh_history s) \<and> sb_inv (sh_scrollback s)"

text \<open>
  Whatever keys are pressed, at the end of a line the buffer of 256 characters is terminated, the position is inside it,
  at most 20 lines are remembered with the position among them, and the scrollback keeps its invariant; the same holds after the
  line was run.
\<close>

theorem shell_bounds:
  assumes "between_ok s" and "read_command ks s = Some (t, rest)"
  shows "shell_ok t \<and> between_ok (snd (run_line dispatch t))"
proof -
  have ok: "shell_ok t"
    using edit_line_ok [OF assms(2) [unfolded read_command_def]] assms(1) by (simp add: shell_ok_def between_ok_def)
  then show ?thesis
    by (auto simp: run_line_def Let_def between_ok_def shell_ok_def shell_remember_def split: prod.splits)
qed

theorem shell_bounds_witness:
  "between_ok (snd (run_line (\<lambda>cmd w. (0, w)) (fst (the (read_command [0x0041, 0x0D] (boot_shell (replicate 25 (replicate 80 0)) ()))))))"
proof -
  let ?s = "boot_shell (replicate 25 (replicate 80 0)) ()"
  have "between_ok ?s"
    using sb_inv_init [of "replicate 25 (replicate 80 0)"] by (simp add: between_ok_def boot_shell_def sb_screen_def)
  moreover obtain t where t: "read_command [0x0041, 0x0D] ?s = Some (t, [])"
    by (simp add: read_command_def shell_key_def plain_key_def)
  ultimately show ?thesis
    using shell_bounds [of ?s "[0x0041, 0x0D]" t "[]"] by simp
qed

section \<open>The history\<close>

interpretation shell_log: bounded_log HISTORY_SIZE sh_history shell_remember "\<lambda>s. length (sh_history s) \<le> HISTORY_SIZE" "\<lambda>cmd. length cmd < MAX_INPUT"
proof unfold_locales
  fix s :: "'a shell_state" and cmd :: bytes
  assume "length (sh_history s) \<le> 20" "length cmd < 256"
  then show "sh_history (shell_remember cmd s) = drop (length (sh_history s) + 1 - 20) (sh_history s @ [cmd])"
    by (cases "sh_history s") (auto simp: shell_remember_def Let_def)
qed (auto simp: shell_remember_def Let_def)

lemma remember_pos: "cmds \<noteq> [] \<Longrightarrow> sh_history_pos (fold shell_remember cmds s) = length (sh_history (fold shell_remember cmds s))"
  by (induction cmds rule: rev_induct) (simp_all add: shell_remember_def Let_def)

text \<open>
  The shell remembers the last 20 commands: after any commands its history is the last 20 of them in their order, and the
  first press of the arrow key puts the last one into the line.
\<close>

theorem shell_history_last:
  assumes "\<forall>c \<in> set cmds. length c < MAX_INPUT \<and> nul_free c" and "cmds \<noteq> []" and "s = fold shell_remember cmds (boot_shell v w)"
  shows "sh_history s = drop (length cmds - HISTORY_SIZE) cmds \<and> cstr (sh_line (snd (shell_key 0x4800 s))) = last cmds"
proof -
  have h: "sh_history s = drop (length cmds - 20) cmds"
    using shell_log.log_pushes [of "boot_shell v w" cmds] assms(1,3) by (simp add: boot_shell_def)
  moreover have "length cmds - 20 < length cmds"
    using assms(2) by (cases cmds) auto
  ultimately have "sh_history s \<noteq> []" "last (sh_history s) = last cmds"
    by simp_all
  then have last: "sh_history s ! (length (sh_history s) - 1) = last cmds"
    by (metis last_conv_nth)
  have "0 < length (sh_history s)"
    using \<open>sh_history s \<noteq> []\<close> by simp
  moreover have "length (last cmds) < 256" "nul_free (last cmds)"
    using assms(1,2) by (meson last_in_set)+
  ultimately show ?thesis
    using h remember_pos [OF assms(2), of "boot_shell v w"] last assms(1,3)
    by (simp add: shell_key_def recall_def store_line_def Let_def cstr_append_nul)
qed

theorem shell_history_last_witness:
  "sh_history (fold shell_remember [lit ''DIR'', lit ''CLS''] (boot_shell [] ())) = [lit ''DIR'', lit ''CLS'']"
  using shell_history_last [of "[lit ''DIR'', lit ''CLS'']" _ "[]" "()"] by (simp add: of_char_def)

section \<open>Ctrl+C\<close>

definition key_byte :: "u16 \<Rightarrow> u8" where
  "key_byte k = ucast (k AND 0xFF)"

definition char_key :: "u16 \<Rightarrow> bool" where
  "char_key k \<longleftrightarrow> 32 \<le> key_byte k \<and> key_byte k \<le> 126"

lemma plain_shell_key: "key_byte k \<noteq> 0 \<Longrightarrow> shell_key k s = plain_key (key_byte k) s"
  by (simp add: shell_key_def key_byte_def Let_def)

lemma remap_nonzero: "c \<noteq> 0 \<Longrightarrow> keyboard_remap l c \<noteq> 0"
proof -
  assume c: "c \<noteq> 0"
  have "of_char y \<noteq> (0 :: u8)" if "(x, y) \<in> set serbian_keys" for x y
    using that by (auto simp: serbian_keys_def of_char_def)
  then show ?thesis
    using c by (auto simp: keyboard_remap_def dest!: map_of_SomeD split: option.split)
qed

lemma edit_chars:
  assumes "\<forall>k \<in> set ks. char_key k" and "sh_pos s + length ks < MAX_INPUT" and "length (sh_line s) = MAX_INPUT"
  shows "edit_line (ks @ rest) s = edit_line rest (s\<lparr>sh_line := take (sh_pos s) (sh_line s) @ map (keyboard_remap (sh_layout s) \<circ> key_byte) ks
      @ drop (sh_pos s + length ks) (sh_line s), sh_pos := sh_pos s + length ks\<rparr>)"
  using assms
proof (induction ks arbitrary: s)
  case (Cons k ks)
  let ?c = "keyboard_remap (sh_layout s) (key_byte k)" and ?p = "sh_pos s"
  have k: "key_byte k \<noteq> 0" "key_byte k \<notin> {13, 10, 3, 8}" "32 \<le> key_byte k" "key_byte k \<le> 126"
    using Cons.prems(1) by (auto simp: char_key_def)
  then have "shell_key k s = (Go_on, s\<lparr>sh_line := (sh_line s)[?p := ?c], sh_pos := ?p + 1\<rparr>)"
    using Cons.prems(2) by (simp add: plain_shell_key plain_key_def)
  moreover have "take (?p + 1) ((sh_line s)[?p := ?c]) = take ?p (sh_line s) @ [?c]"
    using Cons.prems(2,3) by (simp add: take_Suc_conv_app_nth)
  ultimately show ?case
    using Cons.IH [of "s\<lparr>sh_line := (sh_line s)[?p := ?c], sh_pos := ?p + 1\<rparr>"] Cons.prems by simp
qed simp

lemma edit_backspaces:
  assumes "\<forall>k \<in> set bs. key_byte k = 8"
  shows "edit_line (bs @ rest) s = edit_line rest (s\<lparr>sh_pos := sh_pos s - length bs\<rparr>)"
  using assms by (induction bs arbitrary: s) (auto simp: plain_shell_key plain_key_def)

lemma char_text:
  assumes "\<forall>k \<in> set ks. char_key k"
  shows "nul_free (map (keyboard_remap l \<circ> key_byte) ks)"
proof -
  have "key_byte k \<noteq> 0" if "char_key k" for k
    using that by (auto simp: char_key_def)
  then show ?thesis
    using assms remap_nonzero by (fastforce simp: nul_free_def)
qed

text \<open>
  C36: Ctrl+C does not cancel a line, it runs it: after typed characters and any number of backspaces, Ctrl+C has the outcome that Enter
  has right after the characters, so that the command runs even with the characters that had been deleted.
\<close>

theorem ctrl_c_runs_line:
  assumes "\<forall>k \<in> set ks. char_key k" and "length ks < MAX_INPUT" and "\<forall>k \<in> set bs. key_byte k = 8"
    and "key_byte c = 3" and "key_byte e = 13" and "text = map (keyboard_remap (sh_layout s) \<circ> key_byte) ks"
  shows "\<exists>t u. read_command (ks @ bs @ c # rest) s = Some (t, rest) \<and> read_command (ks @ e # rest) s = Some (u, rest) \<and>
    sh_line t = store_line text (replicate MAX_INPUT 0) \<and> u = t\<lparr>sh_pos := length ks\<rparr> \<and>
    (let cmd = str_trim text
     in cmd \<noteq> [] \<and> peek cmd \<noteq> 0x23 \<and> str_cmp_nocase cmd (lit ''GUIMODE'') \<noteq> 0 \<and> str_cmp_nocase cmd (lit ''EXIT'') \<noteq> 0 \<longrightarrow>
        sh_world (snd (run_line dispatch t)) = snd (dispatch cmd (sh_world s)))"
proof -
  let ?s = "s\<lparr>sh_line := replicate MAX_INPUT 0, sh_pos := 0\<rparr>" and ?line = "store_line text (replicate MAX_INPUT 0)"
  have n: "length text = length ks" "nul_free text"
    using char_text [OF assms(1)] by (simp_all add: assms(6))
  have "replicate (256 - length ks) (0 :: u8) = 0 # replicate (255 - length ks) 0"
    using assms(2) by (cases "256 - length ks") (auto simp: Suc_diff_Suc)
  then have line: "text @ replicate (256 - length ks) 0 = ?line"
    using assms(2) n by (simp add: store_line_def)
  have chars: "edit_line (ks @ r) ?s = edit_line r (s\<lparr>sh_line := ?line, sh_pos := length ks\<rparr>)" for r
    using edit_chars [OF assms(1), of ?s r] assms(2,6) line by simp
  have "?line ! length ks = 0" "?line[length ks := 0] = ?line"
    using n by (simp_all add: store_line_def list_update_append nth_append)
  then have enter: "read_command (ks @ e # rest) s = Some (s\<lparr>sh_line := ?line, sh_pos := length ks\<rparr>, rest)"
    using assms(5) by (simp add: read_command_def chars plain_shell_key plain_key_def)
  have stop: "read_command (ks @ bs @ c # rest) s = Some (s\<lparr>sh_line := ?line, sh_pos := 0\<rparr>, rest)"
    using assms(4) by (simp add: read_command_def chars edit_backspaces [OF assms(3)] plain_shell_key plain_key_def)
  have "str_trim ?line = str_trim text"
    using n(2) by (simp add: str_trim_def store_line_def cstr_append_nul)
  then show ?thesis
    using enter stop by (auto simp: run_line_def Let_def shell_remember_def split: prod.split)
qed

theorem ctrl_c_runs_line_witness:
  "\<exists>t. read_command ([0x0044, 0x0045, 0x004C, 0x0020, 0x0058] @ [0x0008, 0x0008] @ 0x0003 # []) (boot_shell [] []) = Some (t, []) \<and>
     sh_world (snd (run_line (\<lambda>cmd w. (0, w @ [cmd])) t)) = [lit ''DEL X'']"
proof -
  have b: "key_byte 0x44 = 0x44" "key_byte 0x45 = 0x45" "key_byte 0x4C = 0x4C" "key_byte 0x20 = 0x20" "key_byte 0x58 = 0x58"
      "key_byte 8 = 8" "key_byte 3 = 3" "key_byte 13 = 13"
    by (simp_all add: key_byte_def)
  let ?s = "boot_shell [] [] :: bytes list shell_state" and ?ks = "[0x0044, 0x0045, 0x004C, 0x0020, 0x0058]"
  have "map (keyboard_remap (sh_layout ?s) \<circ> key_byte) ?ks = lit ''DEL X''"
    by (simp add: b boot_shell_def keyboard_remap_def of_char_def)
  moreover have "str_trim (lit ''DEL X'') = lit ''DEL X''" "str_cmp_nocase (lit ''DEL X'') (lit ''GUIMODE'') \<noteq> 0" "str_cmp_nocase (lit ''DEL X'') (lit ''EXIT'') \<noteq> 0"
    by code_simp+
  moreover have "sh_world ?s = []"
    by (simp add: boot_shell_def)
  ultimately show ?thesis
    using ctrl_c_runs_line [of ?ks "[8, 8]" 3 13 "lit ''DEL X''" ?s "[]" "\<lambda>cmd w. (0, w @ [cmd])"] b
    by (auto simp: char_key_def of_char_def)
qed

end
