(* ===== verification/ShellVars.thy ===== *)
theory ShellVars
  imports CmdText NameStore
begin

text \<open>
  The variables and the aliases of the shell, \<open>EXPORT\<close>, \<open>UNSET\<close>, \<open>ALIAS\<close> and \<open>UNALIAS\<close> of \<open>src/src/commands.c\<close>. A table is
  the list of its entries in use, a name of up to 31 characters with a value of up to 63. A printing command yields its text.
\<close>

section \<open>Tables\<close>

type_synonym table = "(bytes \<times> bytes) list"

abbreviation MAX_ENV_VARS :: nat where "MAX_ENV_VARS \<equiv> 16"
abbreviation MAX_ALIASES :: nat where "MAX_ALIASES \<equiv> 16"

record shell_vars =
  env :: table
  env_inited :: bool
  aliases :: table

fun find_name :: "table \<Rightarrow> bytes \<Rightarrow> nat option" where
  "find_name [] name = None"
| "find_name ((k, v) # t) name = (if str_cmp k name = 0 then Some 0 else map_option Suc (find_name t name))"

text \<open>The position of \<open>=\<close> in a token.\<close>

fun find_eq :: "bytes \<Rightarrow> nat option" where
  "find_eq [] = None"
| "find_eq (c # tok) = (if c = 0x3D then Some 0 else map_option Suc (find_eq tok))"

text \<open>The common part of \<open>EXPORT\<close> and \<open>ALIAS\<close>: a full table is left alone.\<close>

definition set_name :: "nat \<Rightarrow> bytes \<Rightarrow> bytes \<Rightarrow> table \<Rightarrow> table" where
  "set_name limit name value t =
     (let entry = (take 31 name, take 63 value)
      in case find_name t name of
           Some i \<Rightarrow> t[i := entry]
         | None \<Rightarrow> if length t < limit then t @ [entry] else t)"

definition unset_name :: "bytes \<Rightarrow> table \<Rightarrow> table" where
  "unset_name name t = (case find_name t name of Some i \<Rightarrow> take i t @ drop (i + 1) t | None \<Rightarrow> t)"

section \<open>Variables\<close>

definition env_init_defaults :: "shell_vars \<Rightarrow> shell_vars" where
  "env_init_defaults s =
     (if env_inited s then s
      else s\<lparr>env_inited := True,
        env := [(lit ''PATH'', lit ''/bin''), (lit ''HOME'', lit ''C:'' @ [0x5C]), (lit ''SHELL'', lit ''/bin/sh''), (lit ''USER'', lit ''root'')]\<rparr>)"

definition cmd_env :: "shell_vars \<Rightarrow> bytes \<times> shell_vars" where
  "cmd_env s = (let s = env_init_defaults s in (concat (map (\<lambda>(k, v). k @ [0x3D] @ v @ [10]) (env s)), s))"

definition cmd_export :: "bytes \<Rightarrow> shell_vars \<Rightarrow> int \<times> bytes \<times> shell_vars" where
  "cmd_export a s =
     (let s = env_init_defaults s; tok = snd (get_token a 96)
      in if tok = [] then let (out, s) = cmd_env s in (0, out, s)
         else case find_eq tok of
           None \<Rightarrow> (-1, [], s)
         | Some eq \<Rightarrow> (0, [], s\<lparr>env := set_name MAX_ENV_VARS (take eq tok) (drop (eq + 1) tok) (env s)\<rparr>))"

definition cmd_unset :: "bytes \<Rightarrow> shell_vars \<Rightarrow> int \<times> shell_vars" where
  "cmd_unset a s =
     (let s = env_init_defaults s; tok = snd (get_token a 32)
      in if tok = [] then (-1, s) else (0, s\<lparr>env := unset_name tok (env s)\<rparr>))"

section \<open>Aliases\<close>

definition cmd_alias :: "bytes \<Rightarrow> shell_vars \<Rightarrow> int \<times> bytes \<times> shell_vars" where
  "cmd_alias a s =
     (let tok = snd (get_token a 96)
      in if tok = [] then (0, concat (map (\<lambda>(k, v). lit ''alias '' @ k @ [0x3D, 0x27] @ v @ [0x27, 10]) (aliases s)), s)
         else case find_eq tok of
           None \<Rightarrow> (-1, [], s)
         | Some eq \<Rightarrow> (0, [], s\<lparr>aliases := set_name MAX_ALIASES (take eq tok) (drop (eq + 1) tok) (aliases s)\<rparr>))"

definition cmd_unalias :: "bytes \<Rightarrow> shell_vars \<Rightarrow> int \<times> shell_vars" where
  "cmd_unalias a s = (0, s\<lparr>aliases := unset_name (snd (get_token a 32)) (aliases s)\<rparr>)"

definition boot_vars :: shell_vars where
  "boot_vars = \<lparr>env = [], env_inited = False, aliases = []\<rparr>"

section \<open>A table is a store of named values\<close>

lemma find_name_append: "find_name (t @ [(k, v)]) n =
    (case find_name t n of Some i \<Rightarrow> Some i | None \<Rightarrow> if fold_case k = fold_case n then Some (length t) else None)"
  by (induction t n rule: find_name.induct) (auto simp: str_cmp_0_iff split: option.split)

lemma find_name_SomeD: "find_name t n = Some i \<Longrightarrow> i < length t \<and> fold_case (fst (t ! i)) = fold_case n"
  by (induction t n arbitrary: i rule: find_name.induct) (auto simp: str_cmp_0_iff split: if_splits)

lemma find_name_cong: "fold_case m = fold_case n \<Longrightarrow> find_name t m = find_name t n"
  by (induction t n rule: find_name.induct) (auto simp: str_cmp_0_iff)

lemma find_name_update:
  "i < length t \<Longrightarrow> fold_case k = fold_case (fst (t ! i)) \<Longrightarrow> find_name (t[i := (k, v)]) n = find_name t n"
  by (induction t n arbitrary: i rule: find_name.induct) (auto simp: str_cmp_0_iff split: nat.split)

lemma find_name_None: "find_name t n = None \<longleftrightarrow> (\<forall>e \<in> set t. fold_case (fst e) \<noteq> fold_case n)"
  by (induction t n rule: find_name.induct) (auto simp: str_cmp_0_iff)

definition name_got :: "bytes \<Rightarrow> table \<Rightarrow> bytes option" where
  "name_got n t = map_option (\<lambda>i. snd (t ! i)) (find_name t n)"

text \<open>Every name is there once.\<close>

definition table_ok :: "nat \<Rightarrow> table \<Rightarrow> bool" where
  "table_ok limit t \<longleftrightarrow> length t \<le> limit \<and> distinct (map (fold_case \<circ> fst) t) \<and> (\<forall>(k, v) \<in> set t. length k \<le> 31 \<and> length v \<le> 63)"

definition name_put :: "nat \<Rightarrow> bytes \<Rightarrow> bytes \<Rightarrow> table \<Rightarrow> table option" where
  "name_put limit n v t =
     (if length n \<le> 31 \<and> (find_name t n \<noteq> None \<or> length t < limit) then Some (set_name limit n v t) else None)"

lemma name_put_ok:
  assumes "table_ok limit t" and "name_put limit n v t = Some t'"
  shows "table_ok limit t'"
proof (cases "find_name t n")
  case None
  then have "fold_case n \<notin> (fold_case \<circ> fst) ` set t"
    unfolding find_name_None by force
  moreover have "t' = t @ [(n, take 63 v)]" "length n \<le> 31" "length t < limit"
    using None assms(2) by (auto simp: name_put_def set_name_def Let_def split: if_splits)
  ultimately show ?thesis
    using assms(1) by (auto simp: table_ok_def)
next
  case (Some i)
  then have t': "t' = t[i := (n, take 63 v)]" and n: "length n \<le> 31"
    using assms(2) by (auto simp: name_put_def set_name_def split: if_splits)
  have i: "i < length t" "fold_case (fst (t ! i)) = fold_case n"
    using find_name_SomeD [OF Some] by auto
  have "map (fold_case \<circ> fst) t' = map (fold_case \<circ> fst) t"
    unfolding t' using i by (simp add: map_update list_update_same_conv)
  moreover have "\<forall>(k, v) \<in> set t'. length k \<le> 31 \<and> length v \<le> 63"
    using assms(1) n unfolding t' table_ok_def by (auto dest!: set_update_subset_insert [THEN subsetD])
  ultimately show ?thesis
    using assms(1) by (simp add: table_ok_def t')
qed

lemma name_got_put:
  assumes "name_put limit n v t = Some t'"
  shows "name_got m t' = (if fold_case m = fold_case n then Some (take 63 v) else name_got m t)"
proof (cases "find_name t n")
  case None
  then have "t' = t @ [(n, take 63 v)]"
    using assms by (auto simp: name_put_def set_name_def Let_def split: if_splits)
  moreover have "fold_case m = fold_case n \<Longrightarrow> find_name t m = None"
    using None find_name_cong by metis
  ultimately show ?thesis
    using find_name_SomeD [of t m] by (auto simp: name_got_def find_name_append nth_append split: option.split)
next
  case (Some i)
  then have t': "t' = t[i := (n, take 63 v)]"
    using assms by (auto simp: name_put_def set_name_def split: if_splits)
  have i: "i < length t" "fold_case n = fold_case (fst (t ! i))"
    using find_name_SomeD [OF Some] by auto
  have same: "fold_case m = fold_case n \<Longrightarrow> find_name t m = Some i"
    using Some find_name_cong by metis
  have f: "find_name t' m = find_name t m"
    unfolding t' by (rule find_name_update [OF i])
  show ?thesis
  proof (cases "fold_case m = fold_case n")
    case True
    then show ?thesis
      using i(1) f same by (simp add: name_got_def t' del: find_name.simps)
  next
    case False
    then have "find_name t m \<noteq> Some i"
      using find_name_SomeD [of t m i] i(2) by auto
    then show ?thesis
      using False f by (cases "find_name t m") (auto simp: name_got_def t' simp del: find_name.simps)
  qed
qed

interpretation shell_names: name_store "table_ok limit" "name_put limit" name_got fold_case "take 63" for limit
  by unfold_locales (auto intro: name_put_ok simp: name_got_put)

lemma name_got_unset:
  assumes "table_ok limit t"
  shows "name_got m (unset_name n t) = (if fold_case m = fold_case n then None else name_got m t)"
proof (cases "find_name t n")
  case None
  then show ?thesis
    using find_name_cong [of m n t] by (auto simp: unset_name_def name_got_def)
next
  case (Some i)
  have i: "i < length t" "fold_case (fst (t ! i)) = fold_case n"
    using find_name_SomeD [OF Some] by auto
  have "distinct (map (fold_case \<circ> fst) t) \<Longrightarrow> i < length t \<Longrightarrow> fold_case (fst (t ! i)) = fold_case n \<Longrightarrow>
    name_got m (take i t @ drop (i + 1) t) = (if fold_case m = fold_case n then None else name_got m t)"
  proof (induction t arbitrary: i)
    case (Cons e t)
    show ?case
    proof (cases i)
      case 0
      have "fold_case m = fold_case n \<Longrightarrow> find_name t m = None"
        using Cons.prems 0 unfolding find_name_None by (force simp: image_iff)
      then show ?thesis
        using Cons.prems 0 by (cases e) (auto simp: name_got_def str_cmp_0_iff option.map_comp o_def)
    next
      case (Suc j)
      have "(fold_case \<circ> fst) (t ! j) \<in> (fold_case \<circ> fst) ` set t"
        using Cons.prems(2) Suc by (intro imageI nth_mem) simp
      then have "fold_case (fst e) \<noteq> fold_case n"
        using Cons.prems(1,3) Suc by (auto simp del: image_iff) (metis image_eqI fst_conv)
      then show ?thesis
        using Cons.IH [of j] Cons.prems Suc by (cases e) (auto simp: name_got_def str_cmp_0_iff option.map_comp o_def)
    qed
  qed simp
  then show ?thesis
    using assms i Some by (simp add: unset_name_def table_ok_def)
qed

section \<open>Properties\<close>

lemma find_eq_append: "0x3D \<notin> set n \<Longrightarrow> find_eq (n @ 0x3D # v) = Some (length n)"
  by (induction n) auto

text \<open>
  EXPORT is assignment and UNSET is removal: after \<open>EXPORT n=v\<close> a lookup of \<open>n\<close> in any case gives the first 63 characters of
  \<open>v\<close> and every other name keeps its value, after \<open>UNSET n\<close> the name is gone; but when 16 other names are set, \<open>EXPORT\<close>
  reports success and changes nothing.
\<close>

theorem export_unset:
  assumes "table_ok MAX_ENV_VARS (env s)" and "env_inited s"
    and "nul_free (n @ v)" and "\<forall>c \<in> set (n @ v). \<not> blank c" and "0x3D \<notin> set n" and "n \<noteq> []" and "length n \<le> 31" and "length v \<le> 63"
    and "(r, out, t) = cmd_export (n @ 0x3D # v) s" and "(q, u) = cmd_unset n t"
  shows "r = 0 \<and> q = 0 \<and> table_ok MAX_ENV_VARS (env t) \<and>
    (find_name (env s) n \<noteq> None \<or> length (env s) < 16 \<longrightarrow>
       (\<forall>m. name_got m (env t) = (if fold_case m = fold_case n then Some v else name_got m (env s)))) \<and>
    (find_name (env s) n = None \<and> length (env s) = 16 \<longrightarrow> env t = env s) \<and>
    (\<forall>m. name_got m (env u) = (if fold_case m = fold_case n then None else name_got m (env s)))"
proof -
  have b: "\<not> blank 0x3D" "blank 0x20"
    by (simp_all add: blank_def)
  have tok: "get_token (n @ 0x3D # v) 96 = ([], n @ 0x3D # v)" "get_token n 32 = ([], n)"
    using get_token_word [of "n @ 0x3D # v" 96 "[]"] get_token_word [of n 32 "[]"] assms(3-8) b by auto
  have t: "r = 0" "t = s\<lparr>env := set_name 16 n v (env s)\<rparr>"
    using assms(2,5,9) by (simp_all add: cmd_export_def tok env_init_defaults_def find_eq_append)
  have u: "q = 0" "u = t\<lparr>env := unset_name n (env t)\<rparr>"
    using assms(2,6,10) by (simp_all add: cmd_unset_def tok env_init_defaults_def t)
  have put: "name_put 16 n v (env s) = Some (env t)" if "find_name (env s) n \<noteq> None \<or> length (env s) < 16"
    using that assms(7) by (auto simp: name_put_def t)
  have drop: "env t = env s" if "find_name (env s) n = None" "\<not> length (env s) < 16"
    using that by (simp add: t set_name_def)
  have ok: "table_ok 16 (env t)"
    using shell_names.put_ok [OF assms(1) put] drop assms(1) by fastforce
  have got: "name_got m (env t) = (if fold_case m = fold_case n then Some v else name_got m (env s))"
    if "find_name (env s) n \<noteq> None \<or> length (env s) < 16" for m
    using name_got_put [OF put [OF that], of m] assms(8) by simp
  have "name_got m (env u) = (if fold_case m = fold_case n then None else name_got m (env s))" for m
    using name_got_unset [OF ok, of m n] got [of m] drop by (cases "find_name (env s) n \<noteq> None \<or> length (env s) < 16") (auto simp: u)
  then show ?thesis
    using t u ok got drop by auto
qed

theorem export_unset_witness:
  "\<exists>out t. cmd_export (lit ''path'' @ 0x3D # lit ''/usr'') (env_init_defaults boot_vars) = (0, out, t) \<and> name_got (lit ''Path'') (env t) = Some (lit ''/usr'')"
proof -
  let ?s = "env_init_defaults boot_vars"
  obtain r out t where t: "(r, out, t) = cmd_export (lit ''path'' @ 0x3D # lit ''/usr'') ?s"
    by (metis prod_cases3)
  obtain q u where u: "(q, u) = cmd_unset (lit ''path'') t"
    by (metis surj_pair)
  have s: "table_ok 16 (env ?s)" "env_inited ?s" "length (env ?s) < 16"
    by (simp_all add: env_init_defaults_def boot_vars_def table_ok_def of_char_def upper8_def)
  have same: "fold_case (lit ''Path'') = fold_case (lit ''path'')"
    by (simp add: of_char_def upper8_def)
  have "r = 0 \<and> name_got (lit ''Path'') (env t) = Some (lit ''/usr'')"
    using export_unset [OF s(1,2) _ _ _ _ _ _ t u] s(3) same by (simp add: blank_def of_char_def del: fold_case_Cons)
  then show ?thesis
    using t by metis
qed

end
