(* ===== verification/BlazeNet.thy ===== *)
theory BlazeNet
  imports Https
begin

text \<open>
  The network layer of the Blaze browser, \<open>src/src/Blaze/blaze_net.c\<close>: URLs, header scanning, chunked bodies, a plain HTTP
  exchange over the sockets, and \<open>blaze_fetch\<close> with redirects and the two ways to fall back between HTTP and HTTPS.

  \<open>getkey i\<close> is the key that the \<open>i\<close>-th turn of the receive loop finds; \<open>km d i n\<close> is what the \<open>i\<close>-th \<open>kmalloc\<close> on the \<open>d\<close>-th
  level of redirects returns for the size \<open>n\<close>. A string built in an array of 1024 characters is cut as the code cuts it.
\<close>

section \<open>Headers\<close>

definition str_lower :: "bytes \<Rightarrow> bytes" where
  "str_lower s = map lower8 (cstr s)"

definition url_is_https_scheme :: "bytes \<Rightarrow> bool" where
  "url_is_https_scheme url \<longleftrightarrow> map lower8 (take 5 url) = lit ''https'' \<and> take 3 (drop 5 url) = lit ''://''"

fun line_has_chunked :: "bytes \<Rightarrow> bool" where
  "line_has_chunked [] \<longleftrightarrow> False"
| "line_has_chunked (c # s) \<longleftrightarrow>
     map lower8 (take 2 (c # s)) = lit ''ch'' \<and> take 5 (drop 2 (c # s)) = lit ''unked'' \<or> line_has_chunked s"

definition find_http_header_end :: "bytes \<Rightarrow> nat option" where
  "find_http_header_end buf =
     (case http_strstr buf [13, 10, 13, 10] of
        Some i \<Rightarrow> Some (i + 4)
      | None \<Rightarrow> (case http_strstr buf [10, 10] of Some i \<Rightarrow> Some (i + 2) | None \<Rightarrow> None))"

definition http_header_text_len :: "bytes \<Rightarrow> nat \<Rightarrow> nat" where
  "http_header_text_len buf header_end =
     (if header_end < 2 then 0
      else if 4 \<le> header_end \<and> take 4 (drop (header_end - 4) buf) = [13, 10, 13, 10] then header_end - 4
      else if take 2 (drop (header_end - 2) buf) = [10, 10] then header_end - 2
      else header_end)"

text \<open>The header lines: the last length and whether one says chunked.\<close>

fun scan_fields :: "bytes \<Rightarrow> int \<Rightarrow> bool \<Rightarrow> int \<times> bool" where
  "scan_fields scan cl ch =
     (if scan = [] then (cl, ch)
      else let line = takeWhile (\<lambda>c. \<not> eol c) scan
           in scan_fields (dropWhile eol (dropWhile (\<lambda>c. \<not> eol c) scan))
                (if hdr_name_match line (lit ''Content-Length'') then line_value line else cl)
                (ch \<or> hdr_name_match line (lit ''Transfer-Encoding'') \<and> line_has_chunked line))"

declare scan_fields.simps [simp del]

text \<open>Status, content length or -1, chunked, and the end of the header or -1.\<close>

definition parse_http_headers :: "bytes \<Rightarrow> int \<times> int \<times> bool \<times> int" where
  "parse_http_headers buf =
     (let b = dropWhile blank_or_eol buf
      in if length buf < 12 \<or> length b < 12 \<or> \<not> http_start b then (0, -1, False, 0)
         else
           let p = dropWhile (\<lambda>c. c = 0x20) (dropWhile (\<lambda>c. c \<noteq> 0 \<and> c \<noteq> 0x20) b);
               status = fst (status_digits p 0)
           in case find_http_header_end buf of
                None \<Rightarrow> (status, -1, False, -1)
              | Some header_end \<Rightarrow>
                  let (cl, ch) = scan_fields (take (http_header_text_len buf header_end) buf) (-1) False
                  in (status, cl, ch, int header_end))"

text \<open>The value of the first \<open>Location\<close> line as a string, empty without one.\<close>

fun location :: "bytes \<Rightarrow> bytes" where
  "location scan =
     (if scan = [] then []
      else let line = takeWhile (\<lambda>c. \<not> eol c) scan
           in if hdr_name_match line (lit ''Location'')
              then cstr (take 1023 (dropWhile (\<lambda>c. c = 0x20 \<or> c = 9) (tl (dropWhile (\<lambda>c. c \<noteq> 0x3A) line))))
              else location (dropWhile eol (dropWhile (\<lambda>c. \<not> eol c) scan)))"

declare location.simps [simp del]

section \<open>URLs\<close>

definition parse_url :: "bytes \<Rightarrow> (bytes \<times> bytes \<times> bytes \<times> u16) option" where
  "parse_url url =
     (let pr = take 15 (takeWhile (\<lambda>c. c \<noteq> 0x3A) url); p = drop (length pr) url; protocol = str_lower pr
      in if take 3 p \<noteq> lit ''://'' then None
         else
           let p = drop 3 p;
               rest = (\<lambda>port. let host = url_host 128 p; p = drop (length host) p;
                   (port, p) = (if peek p = 0x3A then url_port (tl p) 0 else (port, p))
                 in Some (protocol, host, if peek p = 0 then [0x2F] else take 255 p, port))
           in if protocol = lit ''http'' then rest 80 else if protocol = lit ''https'' then rest 443 else None)"

text \<open>Appending to a string while it is shorter than \<open>n\<close>.\<close>

definition put_upto :: "nat \<Rightarrow> bytes \<Rightarrow> bytes \<Rightarrow> bytes" where
  "put_upto n out s = out @ take (n - length out) s"

definition last_slash :: "bytes \<Rightarrow> nat" where
  "last_slash path = (if 0x2F \<in> set path then length path - 1 - length (takeWhile (\<lambda>c. c \<noteq> 0x2F) (rev path)) else 0)"

definition resolve_relative_url :: "bytes \<Rightarrow> bytes \<Rightarrow> nat \<Rightarrow> bytes" where
  "resolve_relative_url base rel max_out =
     (case parse_url base of
        None \<Rightarrow> take (max_out - 1) rel
      | Some (prot, host, path, port) \<Rightarrow>
          if take 2 rel = lit ''//'' then put_upto (max_out - 1) (take (max_out - 1) prot @ lit ''://'') (drop 2 rel)
          else
            let out = put_upto (max_out - 1) (take (max_out - 4) prot @ lit ''://'') host
            in if peek rel = 0x2F then put_upto (max_out - 1) out rel
               else
                 let dir = take (min 255 (if path = [] then 1 else last_slash path + 1)) path;
                     out = put_upto (max_out - 1) out dir;
                     out = (if out \<noteq> [] \<and> last out \<noteq> 0x2F \<and> peek rel \<noteq> 0x2F \<and> length out < max_out - 1 then out @ [0x2F] else out)
                 in put_upto (max_out - 1) out rel)"

section \<open>Chunked bodies\<close>

definition hex_digit :: "u8 \<Rightarrow> u32 option" where
  "hex_digit c =
     (if 0x30 \<le> c \<and> c \<le> 0x39 then Some (ucast c - 0x30)
      else if 0x61 \<le> c \<and> c \<le> 0x66 then Some (10 + ucast c - 0x61)
      else if 0x41 \<le> c \<and> c \<le> 0x46 then Some (10 + ucast c - 0x41) else None)"

text \<open>A chunk's size line up to its end: the rest, the size and whether there was a digit.\<close>

fun size_line :: "bytes \<Rightarrow> u32 \<Rightarrow> bool \<Rightarrow> bytes \<times> u32 \<times> bool" where
  "size_line [] sz saw = ([], sz, saw)"
| "size_line (c # p) sz saw =
     (if eol c then (c # p, sz, saw)
      else if c = 0x3B then (dropWhile (\<lambda>c. \<not> eol c) p, sz, saw)
      else case hex_digit c of Some v \<Rightarrow> size_line p (sz * 16 + v) True | None \<Rightarrow> size_line p sz saw)"

lemma size_line_le: "length (fst (size_line p sz saw)) \<le> length p"
  by (induction p sz saw rule: size_line.induct) (auto intro: le_SucI length_dropWhile_le split: option.split)

lemma skip_eol_le: "length (skip_eol p) \<le> length p"
  by (auto simp: skip_eol_def Let_def)

text \<open>The chunks from \<open>p\<close> on, after the body \<open>acc\<close>. \<open>None\<close> is reading past the end of the source.\<close>

function chunks :: "bytes \<Rightarrow> bytes \<Rightarrow> (int + bytes) option" where
  "chunks p acc =
     (if p = [] then Some (Inr acc)
      else
        let (p1, sz, saw) = size_line p 0 False; p2 = skip_eol p1
        in if \<not> saw \<and> sz = 0 \<and> p2 = [] \<or> sz = 0 then Some (Inr acc)
           else if of_nat (length p2) < sz + 2 then Some (Inl (-1))
           else if length p2 < unat sz then None
           else chunks (skip_eol (drop (unat sz) p2)) (acc @ take (unat sz) p2))"
  by auto
termination
proof (relation "measure (\<lambda>(p, acc). length p)", goal_cases)
  case (2 p acc x p1 y sz saw p2)
  have "length (skip_eol (drop (unat sz) p2)) \<le> length p2 - unat sz"
    by (metis length_drop skip_eol_le)
  moreover have "length p2 \<le> length p"
    using 2 size_line_le [of p 0 False] skip_eol_le [of p1] by (metis fst_conv order_trans)
  moreover have "0 < unat sz"
    using 2 by (auto simp: unat_gt_0)
  ultimately show ?case
    using 2 by (simp; linarith)
qed simp

declare chunks.simps [simp del]

definition decode_chunked_body :: "(u32 \<Rightarrow> bytes option) \<Rightarrow> bytes \<Rightarrow> (int + bytes) option" where
  "decode_chunked_body km src = (if km (of_nat (length src) + 64) = None then Some (Inl (-1)) else chunks src [])"

text \<open>The test whether a chunked body has ended.\<close>

definition chunk_end :: "bytes \<Rightarrow> bool" where
  "chunk_end body_src \<longleftrightarrow> http_strstr body_src (lit ''0'' @ [13, 10, 13, 10]) \<noteq> None"

text \<open>What the response of a finished exchange contains: the status or the code of an error, and the body.\<close>

definition http_entity :: "(nat \<Rightarrow> u32 \<Rightarrow> bytes option) \<Rightarrow> bytes \<Rightarrow> (int \<times> bytes option) option" where
  "http_entity km raw =
     (if raw = [] then Some (-1, None)
      else
        let (status, cl, ch, hdr_end) = parse_http_headers raw
        in if hdr_end \<le> 0 then Some (-1, None)
           else if status < 200 \<or> 300 \<le> status then Some (status, None)
           else
             let body_src = drop (nat hdr_end) raw
             in if ch then
                  (case decode_chunked_body (km 1) body_src of
                     None \<Rightarrow> None
                   | Some (Inl e) \<Rightarrow> Some (-1, None)
                   | Some (Inr b) \<Rightarrow> Some (status, Some b))
                else
                  let want = (if 0 \<le> cl \<and> nat cl < length body_src then nat cl else length body_src)
                  in if km 1 (of_nat want + 1) = None then Some (-1, None) else Some (status, Some (take want body_src)))"

section \<open>A plain exchange\<close>

datatype got = Quit | Moved int bytes | Raw bytes

text \<open>\<open>had_data\<close> does not change what the loop does at its limit of idle turns.\<close>

definition page_complete :: "bytes \<Rightarrow> bool \<Rightarrow> bool \<Rightarrow> nat \<Rightarrow> bool" where
  "page_complete raw quiet had_data idle =
     (let (status, cl, ch, hdr_end) = parse_http_headers raw; body_src = drop (nat hdr_end) raw
      in 0 < hdr_end \<and> status = 200 \<and>
         (if \<not> ch \<and> 0 \<le> cl then nat cl \<le> length body_src
          else if ch then chunk_end body_src
          else quiet \<and> had_data \<and> 2 < idle))"

definition moved :: "bytes \<Rightarrow> (int \<times> bytes) option" where
  "moved raw =
     (let (status, cl, ch, hdr_end) = parse_http_headers raw
      in if 0 < hdr_end \<and> 301 \<le> status \<and> status \<le> 308
         then Some (status, location (take (http_header_text_len raw (nat hdr_end)) raw)) else None)"

function get_loop :: "('d \<Rightarrow> u32 \<times> 'd) \<Rightarrow> (nat \<Rightarrow> u16) \<Rightarrow> nat \<Rightarrow> bytes \<Rightarrow> nat \<Rightarrow> bool \<Rightarrow> 'd tls \<Rightarrow> (got \<times> 'd tls) option" where
  "get_loop g getkey i raw idle had_data s =
     (if length raw + 4096 < 786432 \<and> i < 4096 then
        (case do { s \<leftarrow> polls 12 s; if getkey i AND 0xFF = 27 then Some (None, s)
                   else do { (r, s) \<leftarrow> on_net (tcp_receive g (of_nat (786432 - length raw - 1))) s; Some (Some r, s) } } of
           None \<Rightarrow> None
         | Some (None, s) \<Rightarrow> Some (Quit, s)
         | Some (Some received, s) \<Rightarrow>
             let raw = raw @ received; quiet = (received = []); idle = (if quiet then idle + 1 else 0); had = (had_data \<or> \<not> quiet)
             in if 5 < idle then Some (Raw raw, s)
                else case moved raw of
                  Some (status, loc) \<Rightarrow> Some (Moved status loc, s)
                | None \<Rightarrow> if page_complete raw quiet had idle then Some (Raw raw, s)
                          else get_loop g getkey (i + 1) raw idle had s)
      else Some (Raw raw, s))"
  by auto
termination
  by (relation "measure (\<lambda>(g, k, i, raw, idle, had, s). 4096 - i)") auto

declare get_loop.simps [simp del]

text \<open>The status and the body, or the place to go to.\<close>

definition http_get_simple :: "('d \<Rightarrow> u32 \<times> 'd) \<Rightarrow> (nat \<Rightarrow> u16) \<Rightarrow> (nat \<Rightarrow> u32 \<Rightarrow> bytes option) \<Rightarrow> bytes \<Rightarrow> bytes \<Rightarrow> u16 \<Rightarrow> 'd tls \<Rightarrow> (int \<times> bytes option \<times> bytes \<times> 'd tls) option" where
  "http_get_simple g getkey km host path port s = do {
     (ip, s) \<leftarrow> on_net (dns_resolve g host) s;
     if ip = 0 then Some (-1, None, [], s)
     else do {
       s \<leftarrow> polls 12 s;
       (sock, s) \<leftarrow> on_net (tcp_connect g ip port) s;
       if sock < 0 then Some (-1, None, [], s)
       else do {
         (_, s) \<leftarrow> on_net (tcp_send (https_request host path)) s;
         if km 0 786432 = None then do { (_, s) \<leftarrow> on_net tcp_close s; Some (-1, None, [], s) }
         else do {
           (got, s) \<leftarrow> get_loop g getkey 0 [] 0 False s;
           (_, s) \<leftarrow> on_net tcp_close s;
           case got of
             Quit \<Rightarrow> Some (-1, None, [], s)
           | Moved status loc \<Rightarrow> Some (status, None, loc, s)
           | Raw raw \<Rightarrow> do { (status, content) \<leftarrow> http_entity km raw; Some (status, content, [], s) }
         }
       }
     }
   }"

section \<open>A fetch\<close>

definition plain_url :: "bytes \<Rightarrow> bytes \<Rightarrow> bytes" where
  "plain_url host path = put_upto 1023 (lit ''http://'' @ take 1016 host) path"

fun port_digits :: "nat \<Rightarrow> u16 \<Rightarrow> bytes" where
  "port_digits 0 po = []"
| "port_digits (Suc n) po = (if po = 0 then [] else port_digits n (po div 10) @ [0x30 + ucast (po mod 10)])"

definition tls_url :: "bytes \<Rightarrow> u16 \<Rightarrow> bytes \<Rightarrow> bytes" where
  "tls_url host port path =
     (let url = put_upto 1023 (lit ''https://'') host;
          url = (if port \<noteq> 80 then put_upto 1023 (url @ [0x3A]) (port_digits 7 port) else url)
      in put_upto 1023 url path)"

definition follow_url :: "bytes \<Rightarrow> bytes \<Rightarrow> bytes \<Rightarrow> bytes \<Rightarrow> bytes" where
  "follow_url url protocol host next_url =
     (if peek next_url = 0x2F then put_upto 1023 (put_upto 1023 (take 1020 protocol @ lit ''://'') host) next_url
      else if url_is_https_scheme next_url then take 1023 next_url
      else if take 7 next_url = lit ''http://'' \<or> take 7 next_url = lit ''HTTP://'' then take 1023 next_url
      else resolve_relative_url url next_url 1024)"

function blaze_fetch_recursive ::
  "('d net \<Rightarrow> int \<times> 'd net) \<Rightarrow> ('d \<Rightarrow> u32 \<times> 'd) \<Rightarrow> (nat \<Rightarrow> u32) \<Rightarrow> (nat \<Rightarrow> nat \<Rightarrow> u16) \<Rightarrow> (nat \<Rightarrow> nat \<Rightarrow> u32 \<Rightarrow> bytes option) \<Rightarrow> bytes \<Rightarrow> nat \<Rightarrow> 'd tls \<Rightarrow> (int \<times> bytes option \<times> 'd tls) option" where
  "blaze_fetch_recursive wifi g rt getkey km url depth s =
     (if 8 < depth then Some (-1, None, s)
      else case on_net (network_ensure_ready wifi g) s of
        None \<Rightarrow> None
      | Some (r, s) \<Rightarrow>
          if r \<noteq> 0 then Some (-1, None, s)
          else case parse_url url of
            None \<Rightarrow> Some (-1, None, s)
          | Some (protocol, host, path, port) \<Rightarrow>
              if protocol = lit ''https'' then
                (case network_https_fetch wifi g rt (km depth) url s of
                   None \<Rightarrow> None
                 | Some (r, content, s) \<Rightarrow>
                     if r = 0 then Some (0, content, s)
                     else blaze_fetch_recursive wifi g rt getkey km (plain_url host path) (depth + 1) s)
              else
                (case http_get_simple g (getkey depth) (km depth) host path port s of
                   None \<Rightarrow> None
                 | Some (status, content, next_url, s) \<Rightarrow>
                     if 301 \<le> status \<and> status \<le> 308 \<and> next_url \<noteq> []
                     then blaze_fetch_recursive wifi g rt getkey km (follow_url url protocol host next_url) (depth + 1) s
                     else if status = -1 then
                       (case network_https_fetch wifi g rt (km depth) (tls_url host port path) s of
                          None \<Rightarrow> None
                        | Some (r, content, s) \<Rightarrow> if r = 0 then Some (0, content, s) else Some (-1, None, s))
                     else Some (if status = 200 then 0 else -1, content, s)))"
  by auto
termination
  by (relation "measure (\<lambda>(w, g, r, k, m, u, d, s). 9 - d)") auto

declare blaze_fetch_recursive.simps [simp del]

definition blaze_fetch ::
  "('d net \<Rightarrow> int \<times> 'd net) \<Rightarrow> ('d \<Rightarrow> u32 \<times> 'd) \<Rightarrow> (nat \<Rightarrow> u32) \<Rightarrow> (nat \<Rightarrow> nat \<Rightarrow> u16) \<Rightarrow> (nat \<Rightarrow> nat \<Rightarrow> u32 \<Rightarrow> bytes option) \<Rightarrow> bytes \<Rightarrow> 'd tls \<Rightarrow> (int \<times> bytes option \<times> 'd tls) option" where
  "blaze_fetch wifi g rt getkey km url s = blaze_fetch_recursive wifi g rt getkey km url 0 s"

end
