(* ===== verification/BlazeNetFacts.thy ===== *)
theory BlazeNetFacts
  imports BlazeNet HttpsFacts
begin

text \<open>
  What the network layer of the browser guarantees: chunked bodies are decoded into what was encoded, unless the size of a
  chunk makes the check of the bounds wrap; a page is the body that its header describes.
\<close>

section \<open>Chunks\<close>

text \<open>A chunk is written with its size in hexadecimal digits, each of them small or capital.\<close>

definition hex_char :: "bool \<times> nat \<Rightarrow> u8" where
  "hex_char c = lit (if fst c then ''0123456789ABCDEF'' else ''0123456789abcdef'') ! snd c"

definition hex_val :: "(bool \<times> nat) list \<Rightarrow> nat" where
  "hex_val ds = foldl (\<lambda>v c. v * 16 + snd c) 0 ds"

definition chunk_text :: "(bool \<times> nat) list \<times> bytes \<Rightarrow> bytes" where
  "chunk_text c = map hex_char (fst c) @ crlf @ snd c @ crlf"

definition chunked_text :: "((bool \<times> nat) list \<times> bytes) list \<Rightarrow> bytes" where
  "chunked_text cs = concat (map chunk_text cs) @ lit ''0'' @ crlf @ crlf"

definition chunk_ok :: "(bool \<times> nat) list \<times> bytes \<Rightarrow> bool" where
  "chunk_ok c \<longleftrightarrow> fst c \<noteq> [] \<and> (\<forall>d \<in> set (fst c). snd d < 16) \<and> hex_val (fst c) = length (snd c) \<and> snd c \<noteq> []"

definition hex_word :: "bytes \<Rightarrow> u32 \<Rightarrow> u32" where
  "hex_word hs n = fold (\<lambda>c n. n * 16 + the (hex_digit c)) hs n"

lemma hex_digit_char: "snd c < 16 \<Longrightarrow> hex_digit (hex_char c) = Some (of_nat (snd c))"
proof -
  have "\<forall>n \<in> set [0..<16]. hex_digit (hex_char (True, n)) = Some (of_nat n) \<and> hex_digit (hex_char (False, n)) = Some (of_nat n)"
    by code_simp
  moreover assume "snd c < 16"
  ultimately show ?thesis
    by (cases c; cases "fst c") auto
qed

lemma hex_word_val: "\<forall>d \<in> set ds. snd d < 16 \<Longrightarrow> hex_word (map hex_char ds) 0 = of_nat (hex_val ds)"
proof -
  have "\<forall>d \<in> set ds. snd d < 16 \<Longrightarrow>
    fold (\<lambda>c n. n * 16 + the (hex_digit c)) (map hex_char ds) (of_nat m) = (of_nat (foldl (\<lambda>v c. v * 16 + snd c) m ds) :: u32)" for m
  proof (induction ds arbitrary: m)
    case (Cons c ds)
    have "(of_nat m * 16 + of_nat (snd c) :: u32) = of_nat (m * 16 + snd c)"
      by simp
    then show ?case
      using Cons.IH [of "m * 16 + snd c"] Cons.prems hex_digit_char [of c] by (simp del: of_nat_add of_nat_mult)
  qed simp
  from this [of 0] show "\<forall>d \<in> set ds. snd d < 16 \<Longrightarrow> hex_word (map hex_char ds) 0 = of_nat (hex_val ds)"
    by (simp add: hex_word_def hex_val_def)
qed

lemma hex_digit_not_end: "hex_digit c \<noteq> None \<Longrightarrow> \<not> eol c \<and> c \<noteq> 0x3B"
  by (auto simp: hex_digit_def eol_def)

lemma size_line_hex:
  "\<forall>c \<in> set hs. hex_digit c \<noteq> None \<Longrightarrow> r \<noteq> [] \<Longrightarrow> eol (hd r) \<Longrightarrow> size_line (hs @ r) sz saw = (r, hex_word hs sz, saw \<or> hs \<noteq> [])"
proof (induction hs arbitrary: sz saw)
  case Nil
  then show ?case
    by (cases r) (simp_all add: hex_word_def)
next
  case (Cons c hs)
  then show ?case
    using hex_digit_not_end [of c] by (auto simp: hex_word_def split: option.split)
qed

lemma skip_eol_crlf [simp]: "skip_eol (crlf @ r) = r"
  by (simp add: skip_eol_def crlf_def)

lemma chunks_step:
  assumes "chunk_ok c" and "length (chunk_text c @ r) < 2 ^ 32"
  shows "chunks (chunk_text c @ r) acc = chunks r (acc @ snd c)"
proof -
  obtain ds d where c: "c = (ds, d)"
    by (cases c)
  let ?p2 = "d @ crlf @ r" and ?hs = "map hex_char ds"
  have h: "ds \<noteq> []" "\<forall>c \<in> set ds. snd c < 16" "hex_val ds = length d" "d \<noteq> []"
    using assms(1) by (simp_all add: chunk_ok_def c)
  then have hex: "\<forall>c \<in> set ?hs. hex_digit c \<noteq> None"
    using hex_digit_char by auto
  have line: "size_line (?hs @ crlf @ d @ crlf @ r) 0 False = (crlf @ d @ crlf @ r, of_nat (length d), True)"
    using size_line_hex [OF hex, of "crlf @ d @ crlf @ r"] h hex_word_val [OF h(2)] by (simp add: crlf_def eol_def)
  have len: "length d + 2 + length r < 2 ^ 32"
    using assms(2) by (simp add: chunk_text_def c crlf_def)
  have sz: "unat (of_nat (length d) :: u32) = length d" "(of_nat (length d) :: u32) \<noteq> 0"
    using len h(4) by (simp_all add: unat_of_nat_small) (metis len add_lessD1 length_0_conv unat_0 unat_of_nat_small)
  have "length ?p2 = length d + 2 + length r"
    by (simp add: crlf_def)
  then have "unat (of_nat (length ?p2) :: u32) = length d + 2 + length r"
    using len by (simp only: unat_of_nat_small)
  moreover have "unat (of_nat (length d) + 2 :: u32) = length d + 2"
    using unat_add_small32 [of "of_nat (length d)" 2] len sz(1) by simp
  ultimately have no: "\<not> of_nat (length ?p2) < (of_nat (length d) + 2 :: u32)"
    by (simp only: word_less_nat_alt)
  have ne: "?hs @ crlf @ d @ crlf @ r \<noteq> []"
    by (simp add: crlf_def)
  have enough: "\<not> length ?p2 < length d" "drop (length d) ?p2 = crlf @ r" "take (length d) ?p2 = d"
    by simp_all
  have "chunks (?hs @ crlf @ ?p2) acc = chunks (skip_eol (crlf @ r)) (acc @ d)"
    unfolding chunks.simps [of "?hs @ crlf @ ?p2" acc] line
    by (simp only: ne no sz enough skip_eol_crlf Let_def prod.case if_False simp_thms)
  then show ?thesis
    by (simp add: chunk_text_def c)
qed

lemma chunks_text:
  assumes "\<forall>c \<in> set cs. chunk_ok c" and "length (chunked_text cs @ r) < 2 ^ 32"
  shows "chunks (chunked_text cs @ r) acc = Some (Inr (acc @ concat (map snd cs)))"
  using assms
proof (induction cs arbitrary: acc)
  case Nil
  have "size_line (lit ''0'' @ crlf @ crlf @ r) 0 False = (crlf @ crlf @ r, 0, True)"
    by (simp add: crlf_def eol_def hex_digit_def of_char_def)
  then show ?case
    by (subst chunks.simps) (simp add: chunked_text_def)
next
  case (Cons c cs)
  have "chunked_text (c # cs) @ r = chunk_text c @ chunked_text cs @ r"
    by (simp add: chunked_text_def)
  moreover have "length (chunked_text cs @ r) < 2 ^ 32"
    using Cons.prems(2) by (simp add: chunked_text_def)
  ultimately show ?case
    using chunks_step [of c "chunked_text cs @ r" acc] Cons by simp
qed

lemma decode_chunks:
  assumes "\<forall>c \<in> set cs. chunk_ok c" and "length (chunked_text cs @ r) < 2 ^ 32" and "\<forall>n. km n \<noteq> None"
  shows "decode_chunked_body km (chunked_text cs @ r) = Some (Inr (concat (map snd cs)))"
  using chunks_text [OF assms(1,2)] assms(3) by (simp add: decode_chunked_body_def)

text \<open>
  C39: A chunked body is decoded into what was encoded: for every list of non-empty chunks, their sizes written with hexadecimal digits of
  either case and any number of leading zeros, the last chunk of size 0 and anything after it, decoding gives the concatenation of the chunks.
\<close>

theorem chunked_roundtrip:
  assumes "\<forall>c \<in> set cs. chunk_ok c" and "length (chunked_text cs @ r) < 2 ^ 32" and "\<forall>n. km n \<noteq> None"
  shows "decode_chunked_body km (chunked_text cs @ r) = Some (Inr (concat (map snd cs)))"
  by (rule decode_chunks [OF assms])

theorem chunked_roundtrip_witness:
  "decode_chunked_body (\<lambda>n. Some []) (lit ''0B'' @ crlf @ lit ''Hello world'' @ crlf @ lit ''1'' @ crlf @ lit ''!'' @ crlf @ lit ''0'' @ crlf @ crlf @ lit ''x'') =
    Some (Inr (lit ''Hello world!''))"
  using chunked_roundtrip [of "[([(False, 0), (True, 11)], lit ''Hello world''), ([(False, 1)], lit ''!'')]" "lit ''x''" "\<lambda>n. Some []"]
  by (simp add: chunk_ok_def hex_char_def hex_val_def of_char_def chunked_text_def chunk_text_def crlf_def)

text \<open>
  The bounds check of a chunk wraps: for a size of FFFFFFFE or FFFFFFFF, the sum of the size and 2 is 0 or 1, the check passes whatever
  has been received, and decoding reads past the end of the response.
\<close>

theorem chunk_size_overflow:
  assumes "e = lit ''E'' \<or> e = lit ''F''" and "2 \<le> length r" and "length r < 2 ^ 32 - 2" and "\<forall>n. km n \<noteq> None"
  shows "decode_chunked_body km (lit ''FFFFFFF'' @ e @ crlf @ r) = None"
proof -
  let ?src = "lit ''FFFFFFF'' @ e @ crlf @ r"
  obtain sz :: u32 where line: "size_line ?src 0 False = (crlf @ r, sz, True)" and sz: "sz = 0xFFFFFFFE \<or> sz = 0xFFFFFFFF"
    using assms(1) by (auto simp: crlf_def eol_def hex_digit_def of_char_def)
  have "unat (of_nat (length r) :: u32) = length r"
    using assms(3) by (simp add: unat_of_nat_small)
  then have "\<not> of_nat (length r) < sz + 2" "length r < unat sz" "sz \<noteq> 0"
    using sz assms(2,3) by (auto simp: word_less_nat_alt)
  moreover have "?src \<noteq> []"
    by simp
  ultimately have "chunks ?src [] = None"
    by (subst chunks.simps) (simp add: line del: lit_Cons)
  then show ?thesis
    using assms(4) by (simp add: decode_chunked_body_def del: lit_Cons)
qed

theorem chunk_size_overflow_witness:
  "decode_chunked_body (\<lambda>n. Some []) (lit ''FFFFFFF'' @ lit ''E'' @ crlf @ lit ''Hello'') = None"
  using chunk_size_overflow [of "lit ''E''" "lit ''Hello''" "\<lambda>n. Some []"] by (simp del: lit_Cons) (simp add: lit_def)

section \<open>Pages\<close>

text \<open>A line says chunked when it contains the word, whose first two letters may be in any case.\<close>

definition says_chunked :: "bytes \<Rightarrow> bool" where
  "says_chunked h \<longleftrightarrow> has_name ''Transfer-Encoding'' h \<and> (\<exists>w. sublist w h \<and> map lower8 (take 2 w) = lit ''ch'' \<and> drop 2 w = lit ''unked'')"

lemma line_has_chunked_iff: "line_has_chunked s \<longleftrightarrow> (\<exists>w. sublist w s \<and> map lower8 (take 2 w) = lit ''ch'' \<and> drop 2 w = lit ''unked'')"
proof (induction s)
  case (Cons c s)
  let ?word = "\<lambda>w. map lower8 (take 2 w) = lit ''ch'' \<and> drop 2 w = lit ''unked''"
  have seven: "length w = 7" if "?word w" for w
  proof -
    have "length (drop 2 w) = 5"
      using that by (simp add: lit_def)
    then show ?thesis
      by simp
  qed
  have "(\<exists>w. prefix w (c # s) \<and> ?word w) \<longleftrightarrow> ?word (take 7 (c # s))"
  proof
    assume "\<exists>w. prefix w (c # s) \<and> ?word w"
    then obtain w where w: "prefix w (c # s)" "?word w"
      by blast
    then obtain z where "c # s = w @ z"
      by (auto simp: prefix_def)
    then have "take 7 (c # s) = w"
      using seven [OF w(2)] by simp
    then show "?word (take 7 (c # s))"
      using w(2) by simp
  next
    assume "?word (take 7 (c # s))"
    then show "\<exists>w. prefix w (c # s) \<and> ?word w"
      using take_is_prefix by blast
  qed
  moreover have "take 2 (take 7 (c # s)) = take 2 (c # s)" "drop 2 (take 7 (c # s)) = take 5 (drop 2 (c # s))"
    by (simp_all add: min_def drop_take)
  ultimately show ?case
    using Cons by (simp only: line_has_chunked.simps sublist_Cons_right) blast
qed (auto simp: lit_def)

lemma says_chunked_line: "says_chunked h \<longleftrightarrow> hdr_name_match h (lit ''Transfer-Encoding'') \<and> line_has_chunked h"
  by (simp only: says_chunked_def line_has_chunked_iff name_match_has_name)

lemma scan_fields_text:
  "hs \<noteq> [] \<Longrightarrow> \<forall>h \<in> set hs. line_ok h \<Longrightarrow> scan_fields (lines_text hs) cl ch = (fold announced hs cl, ch \<or> (\<exists>h \<in> set hs. says_chunked h))"
proof (induction hs arbitrary: cl ch)
  case (Cons h hs)
  have e: "scan_fields [] cl ch = (cl, ch)" for cl ch
    by (subst scan_fields.simps) simp
  have "scan_fields (lines_text (h # hs)) cl ch = scan_fields (if hs = [] then [] else lines_text hs) (announced h cl) (ch \<or> says_chunked h)"
    using first_line [of h hs] Cons.prems(2) by (subst scan_fields.simps) (simp add: announced_def says_chunked_line Let_def)
  then show ?case
    using Cons by (auto simp: e)
qed simp

lemma header_end_same: "find_http_header_end = find_http_header_end_hs" "http_header_text_len = http_header_text_len_hs"
  by (auto simp: fun_eq_iff find_http_header_end_def find_http_header_end_hs_def http_header_text_len_def http_header_text_len_hs_def)

lemma parse_headers_text:
  assumes "\<forall>d \<in> set ds. d < 10" and "length ds = 3" and "13 \<notin> set reason" and "10 \<notin> set reason" and "\<forall>h \<in> set hs. line_ok h"
  shows "\<exists>n. parse_http_headers (response_text ds reason hs b) = (int (dec_val ds), fold announced hs (-1), \<exists>h \<in> set hs. says_chunked h, int n)
    \<and> 0 < n \<and> drop n (response_text ds reason hs b) = b"
proof -
  let ?head = "lit ''HTTP/1.1 '' @ digits ds @ 0x20 # reason" and ?raw = "response_text ds reason hs b"
  have dig: "\<forall>c \<in> set (digits ds). is_digit8 c"
    using assms(1) digit_byte(1) by (auto simp: digits_def)
  then have head: "line_ok ?head"
    using assms(3,4) by (auto simp: line_ok_def is_digit8_def of_char_def)
  then have lines: "\<forall>h \<in> set (?head # hs). line_ok h"
    using assms(5) by simp
  define t where "t = lines_text (?head # hs)"
  have raw: "?raw = t @ crlf @ crlf @ b"
    using lines_text_crlf [of "?head # hs"] by (simp add: response_text_def t_def)
  have "take (length t) ?raw = t" "drop (length t + 4) ?raw = b"
    unfolding raw by (simp_all add: crlf_def)
  moreover have "find_http_header_end ?raw = Some (length t + 4)" "http_header_text_len ?raw (length t + 4) = length t"
    unfolding raw t_def header_end_same using header_end_lines [OF _ lines] by simp_all
  moreover have "scan_fields t (-1) False = (fold announced hs (-1), \<exists>h \<in> set hs. says_chunked h)"
    unfolding t_def using scan_fields_text [OF _ lines, of "-1" False]
    by (simp add: announced_def says_chunked_line lower8_def of_char_def)
  moreover have "dropWhile blank_or_eol ?raw = ?raw" "http_start ?raw" "12 \<le> length ?raw"
    using assms(2) by (simp_all add: response_text_def blank_or_eol_def http_start_def lower8_def of_char_def digits_def crlf_def)
  moreover have "fst (status_digits (dropWhile (\<lambda>c. c = 0x20) (dropWhile (\<lambda>c. c \<noteq> 0 \<and> c \<noteq> 0x20) ?raw)) 0) = int (dec_val ds)"
    by (rule status_of_text [OF assms(1,2)])
  ultimately show ?thesis
    by (intro exI [of _ "length t + 4"]) (simp add: parse_http_headers_def Let_def)
qed

text \<open>
  C27: What the browser makes of a complete response with a 2xx status is what the header describes: \<open>http_entity\<close>, the end of \<open>http_get_simple\<close>,
  gives the decoded chunks when a \<open>Transfer-Encoding\<close> line says chunked, even against an announced length, and otherwise the body cut to the number that the
  last \<open>Content-Length\<close> line announces, or all of it without one. The caller shows it for the status 200 only.
\<close>

theorem page_content:
  assumes "\<forall>d \<in> set ds. d < 10" and "length ds = 3" and "200 \<le> dec_val ds" and "dec_val ds < 300"
    and "13 \<notin> set reason" and "10 \<notin> set reason" and "\<forall>h \<in> set hs. line_ok h" and "\<forall>i n. km i n \<noteq> None"
    and "\<forall>c \<in> set cs. chunk_ok c" and "length (chunked_text cs) < 2 ^ 32"
    and "filter (has_name ''Content-Length'') hs = map length_line ann" and "\<forall>a \<in> set ann. announces a \<and> dec_val (digits_of a) < 2 ^ 31"
  shows "((\<exists>h \<in> set hs. says_chunked h) \<longrightarrow>
      http_entity km (response_text ds reason hs (chunked_text cs)) = Some (int (dec_val ds), Some (concat (map snd cs)))) \<and>
    (\<not> (\<exists>h \<in> set hs. says_chunked h) \<longrightarrow>
      http_entity km (response_text ds reason hs b) =
        Some (int (dec_val ds), Some (if ann = [] then b else take (dec_val (digits_of (last ann))) b)))"
proof -
  define cl where "cl = fold announced hs (-1)"
  have cl: "cl = (if ann = [] then -1 else int (dec_val (digits_of (last ann))))"
    unfolding cl_def by (rule announced_last [OF assms(11,12)])
  have ne: "response_text ds reason hs x \<noteq> []" for x
    by (simp add: response_text_def)
  obtain n where n: "parse_http_headers (response_text ds reason hs (chunked_text cs)) = (int (dec_val ds), cl, \<exists>h \<in> set hs. says_chunked h, int n)"
      "0 < n" "drop n (response_text ds reason hs (chunked_text cs)) = chunked_text cs"
    using parse_headers_text [OF assms(1,2,5,6,7)] cl_def by blast
  obtain m where m: "parse_http_headers (response_text ds reason hs b) = (int (dec_val ds), cl, \<exists>h \<in> set hs. says_chunked h, int m)"
      "0 < m" "drop m (response_text ds reason hs b) = b"
    using parse_headers_text [OF assms(1,2,5,6,7)] cl_def by blast
  have km: "km 1 k \<noteq> None" for k
    using assms(8) by blast
  have "decode_chunked_body (km 1) (chunked_text cs) = Some (Inr (concat (map snd cs)))"
    using decode_chunks [of cs "[]" "km 1"] assms(8-10) by simp
  then have "(\<exists>h \<in> set hs. says_chunked h) \<Longrightarrow> ?thesis"
    using n ne assms(3,4) by (simp add: http_entity_def)
  moreover have "?thesis" if none: "\<not> (\<exists>h \<in> set hs. says_chunked h)"
  proof -
    have "http_entity km (response_text ds reason hs b) = Some (int (dec_val ds), Some (if 0 \<le> cl then take (nat cl) b else b))"
      using none m ne km assms(3,4) by (simp add: http_entity_def Let_def)
    then show ?thesis
      using none by (auto simp: cl)
  qed
  ultimately show ?thesis
    by blast
qed

theorem page_content_witness:
  "http_entity (\<lambda>i n. Some []) (response_text [2, 0, 0] (lit ''OK'') [lit ''Transfer-Encoding: chunked''] (chunked_text [([(False, 2)], lit ''Hi'')])) = Some (200, Some (lit ''Hi'')) \<and>
   http_entity (\<lambda>i n. Some []) (response_text [2, 0, 0] (lit ''OK'') [lit ''Content-length: 3''] (lit ''Hello'')) = Some (200, Some (lit ''Hel''))"
proof -
  have "says_chunked (lit ''Transfer-Encoding: chunked'')" "\<not> says_chunked (lit ''Content-length: 3'')"
    unfolding says_chunked_line by code_simp+
  moreover have "filter (has_name ''Content-Length'') [lit ''Content-length: 3''] = map length_line [(lit ''Content-length'', 1, [3])]"
    "filter (has_name ''Content-Length'') [lit ''Transfer-Encoding: chunked''] = []" "announces (lit ''Content-length'', 1, [3])"
    by (simp_all add: has_name_def length_line_def announces_def lower8_def digits_def of_char_def)
  ultimately show ?thesis
    using page_content [of "[2, 0, 0]" "lit ''OK''" "[lit ''Transfer-Encoding: chunked'']" "\<lambda>i n. Some []" "[([(False, 2)], lit ''Hi'')]" "[]" "[]"]
      page_content [of "[2, 0, 0]" "lit ''OK''" "[lit ''Content-length: 3'']" "\<lambda>i n. Some []" "[]" "[(lit ''Content-length'', 1, [3])]" "lit ''Hello''"]
    by (simp add: line_ok_def dec_val_def digits_of_def of_char_def chunk_ok_def hex_char_def hex_val_def chunked_text_def chunk_text_def crlf_def)
qed

end
