(* ===== verification/FsBoot.thy ===== *)
theory FsBoot
  imports FsFacts Accounts
begin

text \<open>
  The start of AurionFS, \<open>fs_init_commands\<close> of \<open>src/src/commands.c\<close>: the tables are cleared and loaded from the disk, the default
  user, directories, pages and scripts are added, and the profile and the keyboard layout are read. It runs when the kernel starts and again
  whenever a shell or the desktop calls \<open>cmd_init\<close>.

  \<open>pages\<close> are the texts of the five web pages that the code holds as string constants, and \<open>behind\<close> the bytes that lie in memory
  behind a string constant: three of the lengths given for the starter scripts are larger than the constant. A string constant is the list of
  its characters. The messages are left out.
\<close>

section \<open>The default entries\<close>

definition ensure_type :: "u8 \<Rightarrow> bytes \<Rightarrow> (bytes \<Rightarrow> 'd aur \<Rightarrow> 'd aur) \<Rightarrow> 'd aur \<Rightarrow> 'd aur" where
  "ensure_type ty path add s = (if fs_find_type s ty path = None \<and> fs_count s < 512 then add path s else s)"

definition ensure :: "bytes \<Rightarrow> (bytes \<Rightarrow> 'd aur \<Rightarrow> 'd aur) \<Rightarrow> 'd aur \<Rightarrow> 'd aur" where
  "ensure path add s = (if fs_find s path = None \<and> fs_count s < 512 then add path s else s)"

text \<open>A directory entry of which only type and size are set.\<close>

definition plain_dir :: "bytes \<Rightarrow> 'd aur \<Rightarrow> 'd aur" where
  "plain_dir path = new_entry path (\<lambda>e. e\<lparr>fe_type := 1, fe_size := 0\<rparr>)"

definition app_shortcuts :: "bytes list" where
  "app_shortcuts =
     [lit ''/Desktop/Applications/Terminal'', lit ''/Desktop/Applications/File Explorer'', lit ''/Desktop/Applications/Notepad'',
      lit ''/Desktop/Applications/Paint'', lit ''/Desktop/Applications/Calculator'', lit ''/Desktop/Applications/Clock'',
      lit ''/Desktop/Applications/System Info'']"

definition fs_ensure_desktop_dir :: "'d disk_io \<Rightarrow> 'd aur \<Rightarrow> 'd aur" where
  "fs_ensure_desktop_dir io s =
     (let s = ensure_type 1 (lit ''/Desktop'') new_dir s;
          s = ensure_type 1 (lit ''/Desktop/Applications'') new_dir s
      in saved io (fold (\<lambda>path. ensure path new_file) app_shortcuts s))"

definition page_data :: "bytes \<Rightarrow> file_content \<Rightarrow> file_content" where
  "page_data content c =
     c\<lparr>fc_size := of_nat (length content), fc_data := take 8192 content @ drop (length (take 8192 content)) (fc_data c)\<rparr>"

definition create_web_file :: "bytes \<times> bytes \<Rightarrow> 'd aur \<Rightarrow> 'd aur" where
  "create_web_file p s =
     (let (name, content) = p; found = fs_find s name
      in if found = None \<and> 512 \<le> fs_count s then s
         else
           let i = (case found of Some i \<Rightarrow> i | None \<Rightarrow> fs_count s);
               s = (if found = None then new_entry name (\<lambda>e. e\<lparr>fe_type := 0, fe_attr := 0x20\<rparr>) s else s);
               s = upd_entry i (\<lambda>e. e\<lparr>fe_size := of_nat (length content)\<rparr>) s
           in case content_slot i s of None \<Rightarrow> s | Some (k, s) \<Rightarrow> upd_content k (page_data content) s)"

definition web_files :: "bytes list" where
  "web_files =
     [lit ''/Documents/index.html'', lit ''/Documents/about.html'', lit ''/Documents/apps.html'', lit ''/Documents/demo.html'',
      lit ''/Documents/cssgrid.html'']"

definition fs_ensure_documents_dir :: "'d disk_io \<Rightarrow> bytes list \<Rightarrow> 'd aur \<Rightarrow> 'd aur" where
  "fs_ensure_documents_dir io pages s =
     (let s = ensure_type 1 (lit ''/Documents'') (\<lambda>path s. saved io (new_dir path s)) s
      in saved io (fold create_web_file (zip web_files pages) s))"

section \<open>Starter scripts\<close>

text \<open>Name, text and the length that is given for it.\<close>

definition starter_scripts :: "(bytes \<times> bytes \<times> int) list" where
  "starter_scripts =
     [(lit ''/Development/hello.py'', lit ''print('' @ [0x22] @ lit ''Hello from Development/hello.py'' @ [0x22] @ lit '')'' @ [10], 43),
      (lit ''/Development/math_demo.py'',
        lit ''a = 12'' @ [10] @ lit ''b = 7'' @ [10] @ lit ''print('' @ [0x22] @ lit ''sum:'' @ [0x22] @ lit '', a + b)'' @ [10] @
        lit ''print('' @ [0x22] @ lit ''mul:'' @ [0x22] @ lit '', a * b)'' @ [10], 57),
      (lit ''/Development/loop_demo.py'',
        lit ''for i in range(5):'' @ [10] @ lit ''    print('' @ [0x22] @ lit ''tick'' @ [0x22] @ lit '', i)'' @ [10], 40),
      (lit ''/Development/files_demo.py'', lit ''print('' @ [0x22] @ lit ''Create files with: touch notes.txt'' @ [0x22] @ lit '')'' @ [10], 42),
      (lit ''/Development/syntax_error.py'', lit ''print('' @ [0x22] @ lit ''Hello world'' @ [0x22] @ lit '')s'' @ [10], 22),
      (lit ''/Development/Makefile'',
        lit ''run:'' @ [10, 9] @ lit ''python hello.py'' @ [10] @ lit ''math:'' @ [10, 9] @ lit ''python math_demo.py'' @ [10] @
        lit ''loop:'' @ [10, 9] @ lit ''python loop_demo.py'' @ [10] @ lit ''files:'' @ [10, 9] @ lit ''python files_demo.py'' @ [10] @
        lit ''syntax:'' @ [10, 9] @ lit ''python syntax_error.py'' @ [10], 141)]"

fun seed_scripts :: "'d disk_io \<Rightarrow> bytes \<Rightarrow> (bytes \<times> bytes \<times> int) list \<Rightarrow> 'd aur \<Rightarrow> 'd aur option" where
  "seed_scripts io behind [] s = Some s"
| "seed_scripts io behind ((name, script, len) # scripts) s =
     do {
       (probe, _) \<leftarrow> load_file_content name [0, 0] 1 s;
       (_, s) \<leftarrow> (if probe \<le> 0 then save_file_content io name (script @ 0 # behind) len s else Some (0, s));
       seed_scripts io behind scripts s }"

section \<open>Profile and keyboard\<close>

definition extra_dirs :: "bytes list" where
  "extra_dirs =
     [lit ''/Music'', lit ''/Pictures'', lit ''/Downloads'', lit ''/Videos'', lit ''/Code'', lit ''/Development'', lit ''/System'', lit ''/Keyboard'']"

definition ensure_keyboard_dir :: "'d aur \<Rightarrow> 'd aur" where
  "ensure_keyboard_dir s =
     (if fs_find s (lit ''/Keyboard'') = None \<and> fs_find s (lit ''/Keyboard/'') = None \<and> fs_count s < 512
      then plain_dir (lit ''/Keyboard'') s else s)"

text \<open>\<open>user_buf\<close> has 32 bytes; what they are before is not looked at.\<close>

definition load_profile :: "'d aur \<Rightarrow> 'd aur option" where
  "load_profile s =
     do {
       (ulen, user_buf) \<leftarrow> load_file_content (lit ''/System/current_user'') (replicate 32 0) 31 s;
       if 0 < ulen
       then let user_buf = user_buf[nat ulen := 0];
                s = s\<lparr>current_user := str_copy (current_user s) user_buf 32\<rparr>;
                hpath = lit ''/users/'' @ cstr (current_user s);
                hpath = (if last hpath \<noteq> 0x2F then hpath @ [0x2F] else hpath);
                s = ensure hpath plain_dir s
            in Some (s\<lparr>current_dir := str_copy (current_dir s) hpath 256\<rparr>)
       else Some (s\<lparr>current_dir := str_copy (current_dir s) (lit ''/users/root/'') 256\<rparr>) }"

definition is_serbian :: "bytes \<Rightarrow> nat \<Rightarrow> bool" where
  "is_serbian kb_buf klen \<longleftrightarrow> peek kb_buf = 0x31 \<or> (\<exists>i \<in> set [0..<klen - 3]. take 4 (drop i kb_buf) = lit ''SERB'')"

definition load_keyboard :: "'d aur \<Rightarrow> 'd aur option" where
  "load_keyboard s =
     do {
       (klen, kb_buf) \<leftarrow> load_file_content (lit ''/Keyboard/config.sys'') (replicate 64 0) 63 s;
       Some (if 0 < klen then s\<lparr>keyboard_layout := (if is_serbian (kb_buf[nat klen := 0]) (nat klen) then 1 else 0)\<rparr> else s) }"

section \<open>The start\<close>

definition cleared :: "'d aur \<Rightarrow> 'd aur" where
  "cleared s = s\<lparr>fs_count := 0, user_count := 0, file_content_count := 0,
     file_contents := replicate 256 \<lparr>fc_idx = 0, fc_size = 0, fc_data = replicate 8192 0\<rparr>\<rparr>"

definition default_user :: "'d aur \<Rightarrow> 'd aur" where
  "default_user s =
     (if user_count s = 0
      then s\<lparr>user_table := (user_table s)[0 := \<lparr>ue_name = str_copy (ue_name (user_table s ! 0)) (lit ''root'') 32,
               ue_hash = hash_bytes (hash_string (lit ''root''))\<rparr>], user_count := 1\<rparr>
      else s)"

definition fs_init_commands :: "'d disk_io \<Rightarrow> u32 \<Rightarrow> bytes list \<Rightarrow> bytes \<Rightarrow> 'd aur \<Rightarrow> 'd aur option" where
  "fs_init_commands io ticks pages behind s =
     do {
       s \<leftarrow> fs_load_from_disk io ticks (cleared s);
       let s = fs_ensure_documents_dir io pages (fs_ensure_desktop_dir io (default_user s));
       let s = fold (\<lambda>path. ensure path plain_dir) extra_dirs (ensure_keyboard_dir s);
       s \<leftarrow> seed_scripts io behind starter_scripts s;
       s \<leftarrow> load_profile s;
       load_keyboard s }"

section \<open>What is loaded\<close>

text \<open>
  The image that the load relies on: sectors of 512 bytes; every used file sector holds a path that is absolute, with either slash and
  a drive letter or none, and a size that fits a slot; every used user sector holds a terminated name.
\<close>

definition absolute :: "bytes \<Rightarrow> bool" where
  "absolute n \<longleftrightarrow> peek n = 0x2F \<or> peek n = 0x5C \<or> (3 \<le> length n \<and> n ! 1 = 0x3A \<and> (n ! 2 = 0x2F \<or> n ! 2 = 0x5C))"

definition image_ok :: "'d disk_io \<Rightarrow> 'd \<Rightarrow> bool" where
  "image_ok io d \<longleftrightarrow>
     (\<forall>lba sec. disk_read_lba io d lba = Some sec \<longrightarrow> length sec = 512) \<and>
     (\<forall>i < 512. \<forall>sec. disk_read_lba io d (1000 + i) = Some sec \<and> peek sec \<noteq> 0 \<longrightarrow>
        absolute (cstr (take 56 sec)) \<and> (\<forall>sz. rd32le sec 56 = Some sz \<longrightarrow> unat sz \<le> 8192)) \<and>
     (\<forall>i < 32. \<forall>sec. disk_read_lba io d (1512 + i) = Some sec \<and> peek sec \<noteq> 0 \<longrightarrow> 0 \<in> set (take 32 sec))"

lemma in_strings: "0 \<in> set b \<Longrightarrow> 0 \<in> set (strip_drive b)" "0 \<in> set b \<Longrightarrow> 0 \<in> set (forward_slashes b)" "0 \<in> set b \<Longrightarrow> 0 \<in> set (strip_slash b)"
proof -
  assume z: "0 \<in> set b"
  have "cstr b @ drop (length (cstr b)) b = b" "0 \<notin> set (cstr b)"
    using cstr_append_drop [of b] nul_free_cstr [of b] by (simp_all add: nul_free_def)
  then have tail: "0 \<in> set (drop (length (cstr b)) b)"
    using z by (metis UnE set_append)
  show "0 \<in> set (strip_drive b)"
    using z by (auto simp: strip_drive_def Let_def)
  show "0 \<in> set (forward_slashes b)"
    using tail by (simp add: forward_slashes_def Let_def)
  show "0 \<in> set (strip_slash b)"
    using z cstr_short [OF z] by (auto simp: strip_slash_def Let_def intro!: set_update_memI)
qed

lemma length_strings: "0 \<in> set b \<Longrightarrow> length (strip_drive b) = length b" "length (forward_slashes b) = length b" "length (strip_slash b) = length b"
proof -
  have "length (cstr b) \<le> length b"
    by (metis cstr_append_drop length_append le_add1)
  then show "length (forward_slashes b) = length b"
    by (simp add: forward_slashes_def Let_def)
  show "length (strip_slash b) = length b"
    by (simp add: strip_slash_def Let_def)
  show "length (strip_drive b) = length b" if "0 \<in> set b"
    using cstr_short [OF that] by (auto simp: strip_drive_def Let_def)
qed

lemma peek_forward: "peek (forward_slashes b) = slash (peek b)"
  by (cases b) (simp_all add: forward_slashes_def Let_def slash_def)

lemma peek_strip_slash: "peek (strip_slash b) = peek b"
proof (cases "1 < length (cstr b) \<and> last (cstr b) = 0x2F")
  case True
  then obtain n where "length (cstr b) - 1 = Suc n"
    by (metis Suc_diff_Suc diff_Suc_1 less_imp_Suc_add plus_nat.simps(2) True)
  then show ?thesis
    by (simp add: strip_slash_def Let_def peek_update)
qed (auto simp: strip_slash_def Let_def)

lemma absolute_loaded: "absolute (cstr b) \<Longrightarrow> peek (strip_slash (forward_slashes (strip_drive b))) = 0x2F"
proof -
  assume a: "absolute (cstr b)"
  have "peek (strip_drive b) = 0x2F \<or> peek (strip_drive b) = 0x5C"
  proof (cases "3 \<le> length (cstr b) \<and> cstr b ! 1 = 0x3A \<and> (cstr b ! 2 = 0x2F \<or> cstr b ! 2 = 0x5C)")
    case True
    then have "drop 2 (cstr b) = cstr b ! 2 # drop (Suc 2) (cstr b)"
      by (intro Cons_nth_drop_Suc [symmetric]) simp
    then show ?thesis
      using True by (simp add: strip_drive_def Let_def)
  next
    case False
    then have "strip_drive b = b"
      by (simp only: strip_drive_def Let_def if_False)
    moreover have "peek b = 0x2F \<or> peek b = 0x5C"
      using a False by (cases b) (auto simp: absolute_def split: if_splits)
    ultimately show ?thesis
      by simp
  qed
  then show ?thesis
    by (auto simp: peek_strip_slash peek_forward slash_def)
qed

lemma load_entry_ok:
  assumes "load_entry sec e = Some e'" and "absolute (cstr (take 56 sec))" and "\<forall>sz. rd32le sec 56 = Some sz \<longrightarrow> unat sz \<le> 8192"
  shows "length (fe_name e') = 56 \<and> 0 \<in> set (fe_name e') \<and> peek (fe_name e') = 0x2F \<and> unat (fe_size e') \<le> 8192"
proof -
  obtain name sz where n: "rdn sec 0 56 = Some name" "rd32le sec 56 = Some sz" "0 \<in> set name"
    and e': "fe_name e' = strip_slash (forward_slashes (strip_drive name))" "fe_size e' = sz"
    using assms(1) by (auto simp: load_entry_def elim!: bind_SomeE split: if_splits)
  have name: "name = take 56 sec" "length name = 56"
    using n(1) length_rdn [OF n(1)] by (auto simp: rdn_def split: if_splits)
  then show ?thesis
    using n e' assms(2,3) absolute_loaded [of name] by (simp add: length_strings in_strings)
qed

section \<open>Starting keeps the invariant\<close>

lemma inv_count: "fs_inv s \<Longrightarrow> fs_inv (s\<lparr>fs_count := 0\<rparr>)" "fs_inv s \<Longrightarrow> fs_inv (s\<lparr>user_count := 0\<rparr>)" "fs_inv s \<Longrightarrow> fs_inv (s\<lparr>file_content_count := 0\<rparr>)"
  by (simp_all add: fs_inv_def fs_ok_def fs_shape_def rooted_def)

lemma inv_saved: "fs_inv s \<Longrightarrow> fs_inv (saved io s)"
  by (simp add: fs_inv_def saved_ok)

lemma inv_cleared: "fs_inv s \<Longrightarrow> fs_inv (cleared s)"
  by (simp add: fs_inv_def fs_ok_def fs_shape_def rooted_def cleared_def)

lemma inv_curdir: "fs_inv s \<Longrightarrow> length c = 256 \<Longrightarrow> 0 \<in> set c \<Longrightarrow> peek c = 0x2F \<Longrightarrow> fs_inv (s\<lparr>current_dir := c\<rparr>)"
  by (simp add: fs_inv_def dir_ok rooted_dir)

lemma load_curdir_inv: "fs_inv s \<Longrightarrow> fs_inv (load_curdir io s)"
proof (cases "disk_read_lba io (disk s) 499")
  case (Some sec)
  assume inv: "fs_inv s"
  let ?n = "cstr (take 256 sec)"
  let ?c = "(?n @ drop (length ?n) (current_dir s))[255 := 0]"
  have len: "length (current_dir s) = 256" "length ?n \<le> 256"
    using inv length_cstr_le [of "take 256 sec"] by (simp_all add: fs_inv_def fs_ok_dir)
  then have "length ?c = 256" "0 \<in> set ?c"
    by (simp_all add: set_update_memI)
  moreover have "peek ?c = 0x2F" if "peek sec = 0x2F"
    using that by (cases sec) (simp_all add: peek_update)
  ultimately show ?thesis
    using inv Some by (auto simp: load_curdir_def Let_def intro: inv_curdir)
qed (simp add: load_curdir_def)

lemma load_volume_inv: "fs_inv s \<Longrightarrow> load_volume io ticks s = Some s' \<Longrightarrow> fs_inv s'"
proof -
  assume inv: "fs_inv s" and l: "load_volume io ticks s = Some s'"
  have "fs_inv (s\<lparr>volume_label := str_copy (volume_label s) x 13, volume_serial := y\<rparr>)"
    "fs_inv (s\<lparr>volume_serial := y, volume_label := str_copy (volume_label s) x 13\<rparr>)" for x y
    using inv by (simp_all add: fs_inv_def fs_ok_def fs_shape_def rooted_def)
  then show ?thesis
    using l inv_saved unfolding load_volume_def Let_def saved_def
    by (auto elim!: bind_SomeE split: option.splits if_splits)
qed

text \<open>The entries in use fit their slots.\<close>

definition sized :: "'d aur \<Rightarrow> bool" where
  "sized s \<longleftrightarrow> (\<forall>i < fs_count s. unat (fe_size (fs_table s ! i)) \<le> 8192)"

lemma load_table_inv:
  "load_table io k i s = Some s' \<Longrightarrow> image_ok io (disk s) \<Longrightarrow> fs_inv s \<Longrightarrow> sized s \<Longrightarrow> fs_count s + k \<le> 512 \<Longrightarrow> i + k \<le> 512 \<Longrightarrow>
   fs_inv s' \<and> sized s' \<and> disk s' = disk s"
proof (induction io k i s rule: load_table.induct)
  case (2 io k i s)
  show ?case
  proof (cases "disk_read_lba io (disk s) (1000 + i)")
    case None
    then show ?thesis
      using 2 by simp
  next
    case (Some sec)
    show ?thesis
    proof (cases "peek sec = 0")
      case False
      then obtain e where e: "load_entry sec (fs_table s ! fs_count s) = Some e"
        and l: "load_table io k (i + 1) (s\<lparr>fs_table := (fs_table s)[fs_count s := e], fs_count := fs_count s + 1\<rparr>) = Some s'"
        using "2.prems"(1) Some by (auto elim!: bind_SomeE)
      let ?t = "s\<lparr>fs_table := (fs_table s)[fs_count s := e], fs_count := fs_count s + 1\<rparr>"
      have "i < 512"
        using "2.prems"(6) by simp
      then have "absolute (cstr (take 56 sec))" "\<forall>sz. rd32le sec 56 = Some sz \<longrightarrow> unat sz \<le> 8192"
        using "2.prems"(2) Some False unfolding image_ok_def by blast+
      then have eok: "length (fe_name e) = 56" "0 \<in> set (fe_name e)" "peek (fe_name e) = 0x2F" "unat (fe_size e) \<le> 8192"
        using load_entry_ok [OF e] by simp_all
      have room: "fs_count s < 512" "length (fs_table s) = 512"
        using "2.prems"(3,5) by (simp_all add: fs_inv_def fs_ok_def fs_shape_def)
      have "fs_ok ?t"
      proof -
        have "\<forall>e \<in> set (fs_table s). length (fe_name e) = 56 \<and> 0 \<in> set (fe_name e)"
          using "2.prems"(3) by (simp add: fs_inv_def fs_ok_def fs_shape_def)
        then have "\<forall>e \<in> set ((fs_table s)[fs_count s := e]). length (fe_name e) = 56 \<and> 0 \<in> set (fe_name e)"
          using eok by (intro all_update) simp_all
        then show ?thesis
          using "2.prems"(3) room by (simp add: fs_inv_def fs_ok_def fs_shape_def)
      qed
      moreover have "rooted ?t"
        using "2.prems"(3) eok(3) room by (auto simp: fs_inv_def rooted_def take_Suc_conv_app_nth)
      moreover have "sized ?t"
        using "2.prems"(4) eok(4) room by (auto simp: sized_def less_Suc_eq nth_list_update)
      ultimately show ?thesis
        using "2.IH"(2) [OF Some False e] l "2.prems" by (simp add: fs_inv_def)
    qed (use 2 Some in simp)
  qed
qed simp

lemma load_users_inv:
  "load_users io k i s = Some s' \<Longrightarrow> image_ok io (disk s) \<Longrightarrow> fs_inv s \<Longrightarrow> user_count s + k \<le> 32 \<Longrightarrow> i + k \<le> 32 \<Longrightarrow>
   fs_inv s' \<and> sized s' = sized s \<and> disk s' = disk s \<and> fs_count s' = fs_count s"
proof (induction io k i s rule: load_users.induct)
  case (2 io k i s)
  show ?case
  proof (cases "disk_read_lba io (disk s) (1512 + i)")
    case None
    then show ?thesis
      using 2 by simp
  next
    case (Some sec)
    show ?thesis
    proof (cases "peek sec = 0")
      case True
      then show ?thesis
        using 2 Some by simp
    next
      case False
      then obtain u where u: "load_user sec = Some u"
        and l: "load_users io k (i + 1) (s\<lparr>user_table := (user_table s)[user_count s := u], user_count := user_count s + 1\<rparr>) = Some s'"
        using "2.prems"(1) Some by (auto elim!: bind_SomeE)
      let ?t = "s\<lparr>user_table := (user_table s)[user_count s := u], user_count := user_count s + 1\<rparr>"
      have "i < 32"
        using "2.prems"(5) by simp
      then have "0 \<in> set (take 32 sec)"
        using "2.prems"(2) Some False unfolding image_ok_def by blast
      then have "length (ue_name u) = 32 \<and> length (ue_hash u) = 32 \<and> 0 \<in> set (ue_name u)"
        using u by (auto simp: load_user_def rdn_def elim!: bind_SomeE split: if_splits)
      moreover have "\<forall>u \<in> set (user_table s). length (ue_name u) = 32 \<and> length (ue_hash u) = 32 \<and> 0 \<in> set (ue_name u)"
        using "2.prems"(3) by (simp add: fs_inv_def fs_ok_def fs_shape_def)
      ultimately have "\<forall>u \<in> set ((user_table s)[user_count s := u]). length (ue_name u) = 32 \<and> length (ue_hash u) = 32 \<and> 0 \<in> set (ue_name u)"
        by (intro all_update)
      then have "fs_inv ?t"
        using "2.prems"(3,4) by (simp add: fs_inv_def fs_ok_def fs_shape_def rooted_def)
      moreover have "sized ?t = sized s"
        by (simp add: sized_def)
      ultimately show ?thesis
        using "2.IH"(3) [OF Some False u] l "2.prems" by simp
    qed
  qed
qed simp

lemma length_load_chunks:
  assumes "image_ok io d" and "length b = 8192"
  shows "got \<le> 8192 \<Longrightarrow> length (load_chunks io d sz k lba got b) = 8192"
  using assms(2)
proof (induction k arbitrary: lba got b)
  case (Suc k)
  show ?case
  proof (cases "disk_read_lba io d lba")
    case (Some sec)
    then have "length sec = 512"
      using assms(1) by (simp add: image_ok_def)
    then show ?thesis
      using Suc Some by (simp add: Let_def)
  qed (use Suc in simp)
qed simp

lemma load_contents_inv:
  "image_ok io (disk s) \<Longrightarrow> fs_inv s \<Longrightarrow> sized s \<Longrightarrow> i + k \<le> fs_count s \<Longrightarrow> fs_inv (load_contents io k i s)"
proof (induction io k i s rule: load_contents.induct)
  case (2 io k i s)
  let ?e = "fs_table s ! i"
  let ?c = "load_content io (disk s) i (fe_size ?e)"
  let ?t = "if 0 < fe_size ?e \<and> fe_type ?e = 0
    then s\<lparr>file_contents := (file_contents s)[file_content_count s := ?c], file_content_count := file_content_count s + 1\<rparr> else s"
  show ?case
  proof (cases "file_content_count s < 256")
    case True
    have "length (fc_data ?c) = 8192 \<and> unat (fc_size ?c) \<le> 8192"
      using "2.prems" by (simp add: load_content_def length_load_chunks sized_def)
    moreover have "\<forall>c \<in> set (file_contents s). length (fc_data c) = 8192 \<and> unat (fc_size c) \<le> 8192"
      using "2.prems"(2) by (simp add: fs_inv_def fs_ok_def fs_shape_def)
    ultimately have "\<forall>c \<in> set ((file_contents s)[file_content_count s := ?c]). length (fc_data c) = 8192 \<and> unat (fc_size c) \<le> 8192"
      by (intro all_update)
    then have "fs_inv ?t" "sized ?t" "disk ?t = disk s" "fs_count ?t = fs_count s"
      using "2.prems"(2,3) True by (simp_all add: fs_inv_def fs_ok_def fs_shape_def rooted_def sized_def)
    then show ?thesis
      using "2.IH" [OF True refl] "2.prems"(1,4) True by (simp add: Let_def)
  qed (use 2 in simp)
qed simp

text \<open>The image that is read: the disk after a missing volume sector has been added.\<close>

definition image_read :: "'d disk_io \<Rightarrow> u32 \<Rightarrow> 'd aur \<Rightarrow> bool" where
  "image_read io ticks s \<longleftrightarrow> (\<forall>v. load_volume io ticks (load_curdir io (cleared s)) = Some v \<longrightarrow> image_ok io (disk v))"

lemma load_inv:
  assumes "fs_load_from_disk io ticks (cleared s) = Some s'" and "fs_inv s" and "image_read io ticks s"
  shows "fs_inv s'"
proof -
  obtain v t u where v: "load_volume io ticks (load_curdir io (cleared s)) = Some v"
    and t: "load_table io 512 0 (v\<lparr>fs_count := 0\<rparr>) = Some t" and u: "load_users io 32 0 (t\<lparr>user_count := 0\<rparr>) = Some u"
    and s': "s' = load_contents io (fs_count u) 0 (u\<lparr>file_content_count := 0\<rparr>)"
    using assms(1) by (auto simp: fs_load_from_disk_def elim!: bind_SomeE)
  have img: "image_ok io (disk v)"
    using assms(3) v by (simp add: image_read_def)
  have inv: "fs_inv v"
    using load_volume_inv [OF load_curdir_inv [OF inv_cleared [OF assms(2)]] v] .
  then have 1: "fs_inv t \<and> sized t \<and> disk t = disk v"
    using load_table_inv [OF t] img inv_count(1) [OF inv] by (simp add: sized_def)
  then have "fs_inv u \<and> sized u = sized t \<and> disk u = disk t \<and> fs_count u = fs_count t"
    using load_users_inv [OF u] img inv_count(2) [of t] by (simp add: sized_def)
  moreover have "sized (u\<lparr>file_content_count := 0\<rparr>) = sized u"
    by (simp add: sized_def)
  ultimately show ?thesis
    unfolding s' using 1 img inv_count(3) [of u] by (intro load_contents_inv) simp_all
qed

text \<open>The default entries.\<close>

lemma inv_new_entry:
  "fs_inv s \<Longrightarrow> fs_count s < 512 \<Longrightarrow> peek path = 0x2F \<Longrightarrow> (\<And>e. fe_name (f e) = fe_name e) \<Longrightarrow> fs_inv (new_entry path f s)"
  by (simp add: fs_inv_def new_entry_ok rooted_new_entry)

lemma inv_dirs:
  assumes "fs_inv s" and "fs_count s < 512" and "peek path = 0x2F"
  shows "fs_inv (new_dir path s)" "fs_inv (new_file path s)" "fs_inv (plain_dir path s)" "fs_inv (saved io (new_dir path s))"
  using assms by (auto simp: new_dir_def new_file_def plain_dir_def intro!: inv_new_entry inv_saved)

lemma inv_fold: "(\<And>x s. x \<in> set xs \<Longrightarrow> fs_inv s \<Longrightarrow> fs_inv (f x s)) \<Longrightarrow> fs_inv s \<Longrightarrow> fs_inv (fold f xs s)"
  by (induction xs arbitrary: s) simp_all

lemma slashes:
  "\<forall>path \<in> set app_shortcuts. peek path = 0x2F" "\<forall>path \<in> set web_files. peek path = 0x2F" "\<forall>path \<in> set extra_dirs. peek path = 0x2F"
  by (simp_all add: app_shortcuts_def web_files_def extra_dirs_def of_char_def)

lemma desktop_inv: "fs_inv s \<Longrightarrow> fs_inv (fs_ensure_desktop_dir io s)"
  unfolding fs_ensure_desktop_dir_def Let_def
  by (intro inv_saved inv_fold) (auto simp: ensure_type_def ensure_def of_char_def slashes intro!: inv_dirs)

lemma create_web_file_inv:
  assumes "fs_inv s" and "peek name = 0x2F" and "length content \<le> 8192"
  shows "fs_inv (create_web_file (name, content) s)"
proof (cases "fs_find s name = None \<and> 512 \<le> fs_count s")
  case False
  define i where "i = (case fs_find s name of Some i \<Rightarrow> i | None \<Rightarrow> fs_count s)"
  define t where "t = (if fs_find s name = None then new_entry name (\<lambda>e. e\<lparr>fe_type := 0, fe_attr := 0x20\<rparr>) s else s)"
  have t: "fs_inv t"
    using assms False by (auto simp: t_def intro!: inv_new_entry)
  have i: "i < fs_count t"
    using fs_find_less(1) [of s name] by (auto simp: i_def t_def new_entry_def Let_def upd_entry_def split: option.split)
  define u where "u = upd_entry i (\<lambda>e. e\<lparr>fe_size := of_nat (length content)\<rparr>) t"
  have u: "fs_inv u"
  proof -
    have "fs_count t \<le> length (fs_table t)" "fs_count t \<le> 512"
      using t by (simp_all add: fs_inv_def fs_ok_def fs_shape_def)
    then show ?thesis
      using t i unfolding u_def fs_inv_def by (auto intro!: upd_entry_ok rooted_upd_entry)
  qed
  have e: "create_web_file (name, content) s = (case content_slot i u of None \<Rightarrow> u | Some (k, s) \<Rightarrow> upd_content k (page_data content) s)"
    by (simp only: create_web_file_def Let_def prod.case False if_False flip: i_def t_def u_def)
  show ?thesis
  proof (cases "content_slot i u")
    case (Some kv)
    obtain k v where kv: "kv = (k, v)"
      by (cases kv)
    have v: "fs_ok v" "k < 256" "rooted v"
      using content_slot_ok [of u i k v] rooted_slot [of i u k v] Some kv u by (simp_all add: fs_inv_def)
    then have "fs_ok (upd_content k (page_data content) v)"
      using assms(3) by (intro upd_content_ok) (simp_all add: page_data_def unat_of_nat_small)
    then show ?thesis
      using v e Some kv by (simp add: fs_inv_def)
  qed (use e u in simp)
qed (use assms in \<open>auto simp: create_web_file_def\<close>)

lemma documents_inv:
  assumes "fs_inv s" and "\<forall>p \<in> set pages. length p \<le> 8192"
  shows "fs_inv (fs_ensure_documents_dir io pages s)"
proof -
  have "fs_inv (create_web_file p t)" if "p \<in> set (zip web_files pages)" and "fs_inv t" for p t
    using create_web_file_inv [OF that(2), of "fst p" "snd p"] that(1) assms(2) slashes(2)
      set_zip_leftD [of "fst p" "snd p" web_files pages] set_zip_rightD [of "fst p" "snd p" web_files pages] by simp
  then show ?thesis
    using assms(1) unfolding fs_ensure_documents_dir_def Let_def
    by (intro inv_saved inv_fold) (auto simp: ensure_type_def of_char_def intro!: inv_dirs)
qed

lemma keyboard_dir_inv: "fs_inv s \<Longrightarrow> fs_inv (ensure_keyboard_dir s)"
  by (auto simp: ensure_keyboard_dir_def of_char_def intro!: inv_dirs)

lemma extra_dirs_inv: "fs_inv s \<Longrightarrow> fs_inv (fold (\<lambda>path. ensure path plain_dir) extra_dirs s)"
  by (rule inv_fold) (auto simp: ensure_def slashes intro!: inv_dirs)

lemma seed_inv: "seed_scripts io behind scripts s = Some s' \<Longrightarrow> fs_inv s \<Longrightarrow> fs_inv s'"
proof (induction io behind scripts s rule: seed_scripts.induct)
  case (2 io behind name script len scripts s)
  obtain probe b r t where l: "load_file_content name [0, 0] 1 s = Some (probe, b)"
    and t: "(if probe \<le> 0 then save_file_content io name (script @ 0 # behind) len s else Some (0, s)) = Some (r, t)"
    and rest: "seed_scripts io behind scripts t = Some s'"
    using "2.prems"(1) by (auto elim!: bind_SomeE simp del: bind_eq_Some_conv)
  have "fs_inv t"
    using t "2.prems"(2) fs_step_inv [OF fs_step.save] by (auto split: if_splits)
  then show ?case
    using "2.IH" [of "(probe, b)" probe b "(r, t)" r t] l t rest by simp
qed simp

lemma default_user_inv: "fs_inv s \<Longrightarrow> fs_inv (default_user s)"
proof -
  assume inv: "fs_inv s"
  let ?u = "\<lparr>ue_name = str_copy (ue_name (user_table s ! 0)) (lit ''root'') 32, ue_hash = hash_bytes (hash_string (lit ''root''))\<rparr>"
  have all: "length (user_table s) = 32" "\<forall>u \<in> set (user_table s). length (ue_name u) = 32 \<and> length (ue_hash u) = 32 \<and> 0 \<in> set (ue_name u)"
    using inv by (simp_all add: fs_inv_def fs_ok_def fs_shape_def)
  then have "length (ue_name (user_table s ! 0)) = 32"
    by simp
  then have "\<forall>u \<in> set ((user_table s)[0 := ?u]). length (ue_name u) = 32 \<and> length (ue_hash u) = 32 \<and> 0 \<in> set (ue_name u)"
    using all(2) by (intro all_update) (simp_all add: hash_bytes_def)
  then show ?thesis
    using inv by (simp add: default_user_def fs_inv_def fs_ok_def fs_shape_def rooted_def)
qed

lemma profile_inv:
  assumes "load_profile s = Some s'" and "fs_inv s"
  shows "fs_inv s'"
proof -
  obtain ulen user_buf where l: "load_file_content (lit ''/System/current_user'') (replicate 32 0) 31 s = Some (ulen, user_buf)"
    using assms(1) by (auto simp: load_profile_def elim!: bind_SomeE)
  have copy: "fs_inv (t\<lparr>current_dir := str_copy (current_dir t) path 256\<rparr>)" if "fs_inv t" "peek path = 0x2F" for t path
    using that by (cases path) (auto simp: fs_inv_def fs_ok_dir str_copy_def Let_def intro!: dir_ok rooted_dir)
  show ?thesis
  proof (cases "0 < ulen")
    case True
    define t where "t = s\<lparr>current_user := str_copy (current_user s) (user_buf[nat ulen := 0]) 32\<rparr>"
    define h where "h = lit ''/users/'' @ cstr (current_user t)"
    define hpath where "hpath = (if last h \<noteq> 0x2F then h @ [0x2F] else h)"
    have "fs_inv t"
      using assms(2) by (simp add: t_def fs_inv_def fs_ok_def fs_shape_def rooted_def)
    moreover have p: "peek hpath = 0x2F"
      by (simp add: hpath_def h_def of_char_def)
    ultimately have "fs_inv (ensure hpath plain_dir t)"
      by (auto simp: ensure_def intro!: inv_dirs)
    moreover have "s' = (ensure hpath plain_dir t)\<lparr>current_dir := str_copy (current_dir (ensure hpath plain_dir t)) hpath 256\<rparr>"
      using assms(1) by (simp only: load_profile_def l Option.bind.simps prod.case Let_def True if_True option.inject flip: t_def h_def hpath_def)
    ultimately show ?thesis
      using copy [OF _ p] by simp
  next
    case False
    then show ?thesis
      using assms l copy [of s "lit ''/users/root/''"] by (simp add: load_profile_def of_char_def)
  qed
qed

lemma keyboard_inv: "load_keyboard s = Some s' \<Longrightarrow> fs_inv s \<Longrightarrow> fs_inv s'"
  by (auto simp: load_keyboard_def fs_inv_def fs_ok_def fs_shape_def rooted_def elim!: bind_SomeE split: if_splits)

lemma init_inv:
  assumes "fs_init_commands io ticks pages behind s = Some s'" and "fs_inv s" and "image_read io ticks s" and "\<forall>p \<in> set pages. length p \<le> 8192"
  shows "fs_inv s'"
proof -
  obtain t u v where t: "fs_load_from_disk io ticks (cleared s) = Some t"
    and u: "seed_scripts io behind starter_scripts (fold (\<lambda>path. ensure path plain_dir) extra_dirs
      (ensure_keyboard_dir (fs_ensure_documents_dir io pages (fs_ensure_desktop_dir io (default_user t))))) = Some u"
    and v: "load_profile u = Some v" "load_keyboard v = Some s'"
    using assms(1) by (auto simp: fs_init_commands_def Let_def elim!: bind_SomeE simp del: bind_eq_Some_conv)
  have "fs_inv t"
    by (rule load_inv [OF t assms(2,3)])
  then have "fs_inv (fold (\<lambda>path. ensure path plain_dir) extra_dirs
      (ensure_keyboard_dir (fs_ensure_documents_dir io pages (fs_ensure_desktop_dir io (default_user t)))))"
    by (intro extra_dirs_inv keyboard_dir_inv documents_inv desktop_inv default_user_inv assms(4))
  then show ?thesis
    by (intro keyboard_inv [OF v(2)] profile_inv [OF v(1)] seed_inv [OF u])
qed

section \<open>A start returns\<close>

lemma load_returns:
  assumes "fs_ok s" and "full_path s name = Some path" and "0 < m" and "nat m \<le> length b"
  shows "\<exists>r b'. load_file_content name b m s = Some (r, b')"
proof (cases "fs_find s path")
  case (Some i)
  show ?thesis
  proof (cases "slot_of s i")
    case slot: (Some k)
    let ?c = "file_contents s ! k"
    have c: "length (fc_data ?c) = 8192" "unat (fc_size ?c) \<le> 8192"
      using fs_ok_nth(4) [OF assms(1) slot_of_less [OF assms(1) slot]] by simp_all
    have "sint (fc_size ?c) = int (unat (fc_size ?c))"
      using c(2) sint_of_nat_small [of "unat (fc_size ?c)"] by simp
    then have "min (sint (fc_size ?c)) m = int (min (unat (fc_size ?c)) (nat m))"
      using assms(3) by (simp add: of_nat_min)
    then obtain n where n: "min (sint (fc_size ?c)) m = int n" "n \<le> 8192" "n \<le> nat m"
      using c(2) by (intro that [of "min (unat (fc_size ?c)) (nat m)"]) auto
    have d: "rdn (fc_data ?c) 0 n = Some (take n (fc_data ?c))"
      using n(2) c(1) by (simp add: rdn_def)
    obtain b1 where b1: "wrn b 0 (take n (fc_data ?c)) = Some b1" "length b1 = length b"
      using n c(1) assms(4) by (auto simp: wrn_def)
    have "\<exists>b2. (if int n < m then wrn b1 n [0] else Some b1) = Some b2"
      using b1(2) assms(4) by (auto simp: wrn_def)
    then show ?thesis
      using assms(2,3) Some slot n(1) d b1(1) by (auto simp: load_file_content_def Let_def)
  qed (use assms Some in \<open>simp add: load_file_content_def\<close>)
qed (use assms in \<open>simp add: load_file_content_def\<close>)

lemma save_returns:
  assumes "full_path s name = Some path" and "0 \<le> len" and "nat len \<le> length data"
  shows "\<exists>r s'. save_file_content io name data len s = Some (r, s')"
  using assms by (auto simp: save_file_content_def Let_def rdn_def split: option.split)

text \<open>A script can be saved: its path is plain and the bytes behind the constant make up for the length that is given.\<close>

definition seedable :: "bytes \<Rightarrow> bytes \<times> bytes \<times> int \<Rightarrow> bool" where
  "seedable behind p \<longleftrightarrow> (case p of (name, script, len) \<Rightarrow> plain_path name \<and> 0 \<le> len \<and> nat len \<le> length script + 1 + length behind)"

lemma starter_scripts_seedable: "3 \<le> length behind \<Longrightarrow> p \<in> set starter_scripts \<Longrightarrow> seedable behind p"
  by (auto simp: starter_scripts_def seedable_def plain_path_def nul_free_def drive_letter_def of_char_def)

lemma seed_returns: "fs_inv s \<Longrightarrow> \<forall>p \<in> set scripts. seedable behind p \<Longrightarrow> \<exists>s'. seed_scripts io behind scripts s = Some s'"
proof (induction scripts arbitrary: s)
  case (Cons p scripts)
  obtain name script len where p: "p = (name, script, len)"
    by (cases p)
  have seed: "plain_path name" "0 \<le> len" "nat len \<le> length (script @ 0 # behind)"
    using Cons.prems(2) by (auto simp: p seedable_def)
  have path: "full_path s name = Some name"
    by (rule plain_full_path [OF seed(1)])
  obtain probe b where l: "load_file_content name [0, 0] 1 s = Some (probe, b)"
    using load_returns [OF _ path, of 1 "[0, 0]"] Cons.prems(1) by (auto simp: fs_inv_def)
  obtain r t where t: "(if probe \<le> 0 then save_file_content io name (script @ 0 # behind) len s else Some (0, s)) = Some (r, t)"
    using save_returns [OF path seed(2,3), of io] by (cases "probe \<le> 0") auto
  have "fs_inv t"
    using t Cons.prems(1) fs_step_inv [OF fs_step.save] by (auto split: if_splits)
  then obtain s' where "seed_scripts io behind scripts t = Some s'"
    using Cons by auto
  then show ?case
    using l t by (simp add: p)
qed simp

text \<open>Once the disk has been loaded the start always comes to its end.\<close>

lemma init_returns:
  assumes "fs_load_from_disk io ticks (cleared s) = Some t" and "fs_inv s" and "image_read io ticks s"
    and "\<forall>p \<in> set pages. length p \<le> 8192" and "3 \<le> length behind"
  shows "\<exists>s'. fs_init_commands io ticks pages behind s = Some s'"
proof -
  define d where "d = fold (\<lambda>path. ensure path plain_dir) extra_dirs
    (ensure_keyboard_dir (fs_ensure_documents_dir io pages (fs_ensure_desktop_dir io (default_user t))))"
  have "fs_inv d"
    unfolding d_def using load_inv [OF assms(1-3)]
    by (intro extra_dirs_inv keyboard_dir_inv documents_inv desktop_inv default_user_inv assms(4))
  then obtain u where u: "seed_scripts io behind starter_scripts d = Some u" "fs_inv u"
    using seed_returns [of d starter_scripts behind io] starter_scripts_seedable [OF assms(5)] seed_inv by blast
  have plain: "plain_path (lit ''/System/current_user'')" "plain_path (lit ''/Keyboard/config.sys'')"
    by (simp_all add: plain_path_def nul_free_def drive_letter_def of_char_def)
  obtain n b where "load_file_content (lit ''/System/current_user'') (replicate 32 0) 31 u = Some (n, b)"
    using load_returns [OF _ plain_full_path [OF plain(1)], of u 31 "replicate 32 0"] u(2) by (auto simp: fs_inv_def)
  then have "\<exists>v. load_profile u = Some v"
    by (cases "0 < n") (simp_all add: load_profile_def Let_def)
  then obtain v where v: "load_profile u = Some v"
    by blast
  then have "fs_inv v"
    by (rule profile_inv [OF _ u(2)])
  then obtain m c where "load_file_content (lit ''/Keyboard/config.sys'') (replicate 64 0) 63 v = Some (m, c)"
    using load_returns [OF _ plain_full_path [OF plain(2)], of v 63 "replicate 64 0"] by (auto simp: fs_inv_def)
  then show ?thesis
    using assms(1) u(1) v by (simp add: fs_init_commands_def load_keyboard_def Let_def flip: d_def)
qed

section \<open>What can be reached\<close>

text \<open>
  The static state, every start from a sane image, at boot or later, and every file operation. The start may be the first one, from
  \<open>boot_aur\<close>, or one of those that \<open>cmd_init\<close> runs on a running kernel.
\<close>

inductive fs_reach :: "'d disk_io \<Rightarrow> 'd aur \<Rightarrow> bool" for io where
  boot: "fs_init_commands io ticks pages behind (boot_aur d) = Some s \<Longrightarrow> image_read io ticks (boot_aur d) \<Longrightarrow>
    \<forall>p \<in> set pages. length p \<le> 8192 \<Longrightarrow> fs_reach io s"
| init: "fs_reach io s \<Longrightarrow> fs_init_commands io ticks pages behind s = Some s' \<Longrightarrow> image_read io ticks s \<Longrightarrow>
    \<forall>p \<in> set pages. length p \<le> 8192 \<Longrightarrow> fs_reach io s'"
| step: "fs_reach io s \<Longrightarrow> fs_step io s s' \<Longrightarrow> fs_reach io s'"

lemma boot_inv: "fs_inv (boot_aur d)"
proof -
  have "fs_count (boot_aur d) = 0"
    by (simp add: boot_aur_def)
  then show ?thesis
    by (simp add: fs_inv_def boot_aur_ok rooted_def boot_fields)
qed

text \<open>
  C2: Once the kernel has started from a disk whose image is sane (names terminated and absolute, sizes at most 8192), the tables stay well formed
  through every sequence of file operations and further starts from such images, whatever the arguments are and whatever the disk does: the
  counters within the arrays, every name terminated, no slot larger than its buffer, and all names in use and the current directory absolute.
\<close>

theorem fs_reach_ok:
  assumes "fs_reach io s"
  shows "fs_ok s \<and> rooted s"
proof -
  have "fs_inv s"
    using assms
  proof induction
    case (boot ticks pages behind d s)
    then show ?case
      by (intro init_inv [OF boot(1) boot_inv])
  next
    case (init s ticks pages behind s')
    then show ?case
      by (intro init_inv [OF init(2)])
  qed (blast intro: fs_step_inv)
  then show ?thesis
    by (simp add: fs_inv_def)
qed

text \<open>A new disk: a volume sector and nothing else.\<close>

definition new_disk :: "nat \<Rightarrow> bytes" where
  "new_disk = blank_disk(998 := lit ''NEW'' @ replicate 509 0)"

theorem fs_reach_ok_witness:
  "\<exists>s. fs_init_commands ram_disk 0 (replicate 5 (lit ''<html></html>'')) [0, 0, 0] (boot_aur new_disk) = Some s \<and>
    fs_ok (snd (fs_mkdir_abs ram_disk (lit ''/a'') s)) \<and> rooted (snd (fs_mkdir_abs ram_disk (lit ''/a'') s))"
proof -
  let ?b = "cleared (boot_aur new_disk)" and ?pages = "replicate 5 (lit ''<html></html>'')"
  have read: "disk_read_lba ram_disk new_disk lba = Some (if lba = 998 then lit ''NEW'' @ replicate 509 0 else replicate 512 0)" for lba
    by (simp add: ram_disk_def new_disk_def blank_disk_def)
  have disk: "disk ?b = new_disk"
    by (simp add: cleared_def boot_fields)
  have "load_curdir ram_disk ?b = ?b"
    by (simp add: load_curdir_def disk read)
  moreover have "rd32le (lit ''NEW'' @ replicate 509 0) 16 = Some 0"
    by (simp add: rd32le_def nth_append join32_def)
  ultimately have v: "load_volume ram_disk 0 (load_curdir ram_disk ?b) =
      Some (?b\<lparr>volume_label := str_copy (volume_label ?b) (lit ''NEW'' @ replicate 509 0) 13, volume_serial := 0\<rparr>)"
    by (simp add: load_volume_def disk read of_char_def)
  have img: "image_read ram_disk 0 (boot_aur new_disk)"
    unfolding image_read_def v by (auto simp: image_ok_def disk read)
  have table: "load_table ram_disk (Suc k) 0 s = Some s" if "disk s = new_disk" for s k
    using that by (simp add: read)
  have users: "load_users ram_disk 32 0 s = Some s" if "disk s = new_disk" for s
    using that by (intro load_users_blank) (simp add: read sector_def)
  have "\<exists>t. fs_load_from_disk ram_disk 0 ?b = Some t"
    using table [of _ 511] users disk by (simp add: fs_load_from_disk_def v)
  then obtain s where s: "fs_init_commands ram_disk 0 ?pages [0, 0, 0] (boot_aur new_disk) = Some s"
    using init_returns [OF _ boot_inv img, where pages = ?pages and behind = "[0, 0, 0]"] by auto
  have "fs_reach ram_disk s"
    by (rule fs_reach.boot [OF s img]) simp
  moreover obtain r t where "fs_mkdir_abs ram_disk (lit ''/a'') s = (r, t)"
    by (cases "fs_mkdir_abs ram_disk (lit ''/a'') s")
  ultimately have "fs_reach ram_disk (snd (fs_mkdir_abs ram_disk (lit ''/a'') s))"
    by (auto intro: fs_reach.step fs_step.mkdir_abs simp del: lit_Cons)
  from fs_reach_ok [OF this] s show ?thesis
    by blast
qed

end
