(* ===== verification/ShaSpec.thy ===== *)
theory ShaSpec
  imports Complex_Main TlsCrypto
begin

text \<open>
  SHA-256 as FIPS 180-4 defines it, written without the definitions of \<open>TlsCrypto\<close>, and the proof that \<open>sha256_raw\<close> computes it: the
  constants are the fractional parts of cube and square roots of primes, the logical functions are given bit by bit, the schedule is a function of
  the round, and numbers are written to bytes by division.
\<close>

section \<open>The standard\<close>

text \<open>The first 64 primes.\<close>

definition first_primes :: "nat list" where
  "first_primes =
    [2, 3, 5, 7, 11, 13, 17, 19, 23, 29, 31, 37, 41, 43, 47, 53,
     59, 61, 67, 71, 73, 79, 83, 89, 97, 101, 103, 107, 109, 113, 127, 131,
     137, 139, 149, 151, 157, 163, 167, 173, 179, 181, 191, 193, 197, 199, 211, 223,
     227, 229, 233, 239, 241, 251, 257, 263, 269, 271, 277, 281, 283, 293, 307, 311]"

text \<open>The first 32 bits of the fractional part: the conversion to 32 bits drops the integer part.\<close>

definition cube_bits :: "nat \<Rightarrow> u32" where
  "cube_bits p = of_int \<lfloor>root 3 (real p) * 2 ^ 32\<rfloor>"

definition square_bits :: "nat \<Rightarrow> u32" where
  "square_bits p = of_int \<lfloor>sqrt (real p) * 2 ^ 32\<rfloor>"

definition fips_K :: "nat \<Rightarrow> u32" where
  "fips_K t = cube_bits (first_primes ! t)"

definition fips_H0 :: "u32 list" where
  "fips_H0 = map square_bits (take 8 first_primes)"

definition of_bits :: "(nat \<Rightarrow> bool) \<Rightarrow> u32" where
  "of_bits f = horner_sum of_bool 2 (map f [0..<32])"

definition fips_Ch :: "u32 \<Rightarrow> u32 \<Rightarrow> u32 \<Rightarrow> u32" where
  "fips_Ch x y z = of_bits (\<lambda>i. if bit x i then bit y i else bit z i)"

definition fips_Maj :: "u32 \<Rightarrow> u32 \<Rightarrow> u32 \<Rightarrow> u32" where
  "fips_Maj x y z = of_bits (\<lambda>i. bit x i \<and> bit y i \<or> bit x i \<and> bit z i \<or> bit y i \<and> bit z i)"

text \<open>\<open>rotate n\<close> is the rotation to the right, \<open>shift n\<close> the shift to the right.\<close>

definition rotate_bits :: "nat \<Rightarrow> u32 \<Rightarrow> nat \<Rightarrow> bool" where
  "rotate_bits n x i \<longleftrightarrow> bit x ((i + n) mod 32)"

definition shift_bits :: "nat \<Rightarrow> u32 \<Rightarrow> nat \<Rightarrow> bool" where
  "shift_bits n x i \<longleftrightarrow> i + n < 32 \<and> bit x (i + n)"

definition xor3 :: "(nat \<Rightarrow> bool) \<Rightarrow> (nat \<Rightarrow> bool) \<Rightarrow> (nat \<Rightarrow> bool) \<Rightarrow> u32" where
  "xor3 f g h = of_bits (\<lambda>i. (f i \<noteq> g i) \<noteq> h i)"

definition big_sigma0 :: "u32 \<Rightarrow> u32" where
  "big_sigma0 x = xor3 (rotate_bits 2 x) (rotate_bits 13 x) (rotate_bits 22 x)"

definition big_sigma1 :: "u32 \<Rightarrow> u32" where
  "big_sigma1 x = xor3 (rotate_bits 6 x) (rotate_bits 11 x) (rotate_bits 25 x)"

definition small_sigma0 :: "u32 \<Rightarrow> u32" where
  "small_sigma0 x = xor3 (rotate_bits 7 x) (rotate_bits 18 x) (shift_bits 3 x)"

definition small_sigma1 :: "u32 \<Rightarrow> u32" where
  "small_sigma1 x = xor3 (rotate_bits 17 x) (rotate_bits 19 x) (shift_bits 10 x)"

text \<open>Numbers in bytes, the highest first.\<close>

definition be_number :: "bytes \<Rightarrow> nat" where
  "be_number b = foldl (\<lambda>v c. v * 256 + unat c) 0 b"

definition be_bytes :: "nat \<Rightarrow> nat \<Rightarrow> bytes" where
  "be_bytes k n = map (\<lambda>i. of_nat (n div 256 ^ (k - 1 - i))) [0..<k]"

text \<open>The message is followed by a 1 bit, the smallest number of 0 bits that leaves room for the length, and the length in bits.\<close>

definition fips_pad :: "bytes \<Rightarrow> bytes" where
  "fips_pad m = m @ [0x80] @ replicate (LEAST k. (length m + 1 + k) mod 64 = 56) 0 @ be_bytes 8 (8 * length m)"

fun fips_W :: "bytes \<Rightarrow> nat \<Rightarrow> u32" where
  "fips_W block t =
     (if t < 16 then of_nat (be_number (take 4 (drop (4 * t) block)))
      else small_sigma1 (fips_W block (t - 2)) + fips_W block (t - 7) + small_sigma0 (fips_W block (t - 15)) + fips_W block (t - 16))"

declare fips_W.simps [simp del]

fun fips_round :: "bytes \<Rightarrow> nat \<Rightarrow> u32 list \<Rightarrow> u32 list" where
  "fips_round block t [a, b, c, d, e, f, g, h] =
     (let T1 = h + big_sigma1 e + fips_Ch e f g + fips_K t + fips_W block t; T2 = big_sigma0 a + fips_Maj a b c
      in [T1 + T2, a, b, c, d + T1, e, f, g])"
| "fips_round block t regs = regs"

definition fips_compress :: "u32 list \<Rightarrow> bytes \<Rightarrow> u32 list" where
  "fips_compress H block = map2 (+) H (fold (fips_round block) [0..<64] H)"

fun fips_blocks :: "u32 list \<Rightarrow> bytes \<Rightarrow> u32 list" where
  "fips_blocks H m = (if length m < 64 then H else fips_blocks (fips_compress H (take 64 m)) (drop 64 m))"

declare fips_blocks.simps [simp del]

definition sha256_fips :: "bytes \<Rightarrow> bytes" where
  "sha256_fips m = concat (map (\<lambda>w. be_bytes 4 (unat w)) (fips_blocks fips_H0 (fips_pad m)))"

section \<open>The constants\<close>

lemma floor_root:
  assumes "n ^ 3 \<le> p * 2 ^ 96" and "p * 2 ^ 96 < (n + 1) ^ 3"
  shows "\<lfloor>root 3 (real p) * 2 ^ 32\<rfloor> = int n"
proof -
  let ?x = "root 3 (real p) * 2 ^ 32"
  have x3: "?x ^ 3 = real (p * 2 ^ 96)"
    by (simp add: power_mult_distrib)
  have "real n ^ Suc 2 \<le> ?x ^ Suc 2"
    using assms(1) by (simp only: Suc_eq_plus1 x3 numeral_plus_one of_nat_le_iff add_num_simps flip: of_nat_power)
  then have "real n \<le> ?x"
    by (rule power_le_imp_le_base) simp
  moreover have "?x ^ 3 < real (n + 1) ^ 3"
    using assms(2) by (simp only: x3 of_nat_less_iff flip: of_nat_power)
  then have "?x < real (n + 1)"
    by (rule power_less_imp_less_base) simp
  ultimately show ?thesis
    by (simp add: floor_eq_iff)
qed

lemma floor_sqrt_bits:
  assumes "n ^ 2 \<le> p * 2 ^ 64" and "p * 2 ^ 64 < (n + 1) ^ 2"
  shows "\<lfloor>sqrt (real p) * 2 ^ 32\<rfloor> = int n"
proof -
  let ?x = "sqrt (real p) * 2 ^ 32"
  have x2: "?x ^ 2 = real (p * 2 ^ 64)"
    by (simp add: power_mult_distrib)
  have "real n ^ 2 \<le> ?x ^ 2"
    using assms(1) by (simp only: x2 of_nat_le_iff flip: of_nat_power)
  then have "real n \<le> ?x"
    by (rule power2_le_imp_le) simp
  moreover have "?x ^ 2 < real (n + 1) ^ 2"
    using assms(2) by (simp only: x2 of_nat_less_iff flip: of_nat_power)
  then have "?x < real (n + 1)"
    by (rule power_less_imp_less_base) simp
  ultimately show ?thesis
    by (simp add: floor_eq_iff)
qed

text \<open>The roots in multiples of \<open>2 ^ -32\<close>.\<close>

definition cube_roots :: "nat list" where
  "cube_roots =
    [5411319704, 6194414737, 7344290767, 8215976869, 9551921755, 10098905585, 11043570340, 11460697813,
     12214315672, 13195500289, 13492127166, 14311783875, 14809980276, 15046980094, 15499789991, 16133124468,
     16720292289, 16907126662, 17444216262, 17784676812, 17950125167, 18429019306, 18734950876, 19175934170,
     19734090066, 20001703533, 20132865992, 20390182855, 20516441075, 20764397895, 21588763473, 21813078375,
     22141143685, 22248366392, 22769593852, 22871018771, 23170020180, 23461497531, 23651862830, 23931792517,
     24205322401, 24295138891, 24734567280, 24820601251, 24990902297, 25075189284, 25569408389, 26045227120,
     26200031510, 26276752392, 26428864332, 26653801653, 26727943347, 27092625994, 27306805839, 27517677555,
     27725365998, 27793908591, 27997534228, 28131656200, 28198240250, 28526537963, 28973835255, 29099129074]"

definition square_roots :: "nat list" where
  "square_roots = [6074000999, 7439101573, 9603838834, 11363415354, 14244795007, 15485724812, 17708603819, 18721328409]"

lemma cube_roots_bits: "list_all2 (\<lambda>n p. cube_bits p = of_nat n) cube_roots first_primes"
proof -
  have "list_all2 (\<lambda>n p. n ^ 3 \<le> p * 2 ^ 96 \<and> p * 2 ^ 96 < (n + 1) ^ 3) cube_roots first_primes"
    unfolding first_primes_def cube_roots_def by simp
  then show ?thesis
    proof (rule list_all2_mono)
    fix n p :: nat
    assume "n ^ 3 \<le> p * 2 ^ 96 \<and> p * 2 ^ 96 < (n + 1) ^ 3"
    then show "cube_bits p = of_nat n"
      unfolding cube_bits_def by (subst floor_root) auto
  qed
qed

lemma square_roots_bits: "list_all2 (\<lambda>n p. square_bits p = of_nat n) square_roots (take 8 first_primes)"
proof -
  have "list_all2 (\<lambda>n p. n ^ 2 \<le> p * 2 ^ 64 \<and> p * 2 ^ 64 < (n + 1) ^ 2) square_roots (take 8 first_primes)"
    unfolding first_primes_def square_roots_def by simp
  then show ?thesis
    proof (rule list_all2_mono)
    fix n p :: nat
    assume "n ^ 2 \<le> p * 2 ^ 64 \<and> p * 2 ^ 64 < (n + 1) ^ 2"
    then show "square_bits p = of_nat n"
      unfolding square_bits_def by (subst floor_sqrt_bits) auto
  qed
qed

lemma sha_K_fips: "map fips_K [0..<64] = sha_K"
proof -
  have "map cube_bits first_primes = map of_nat cube_roots"
    using cube_roots_bits by (intro nth_equalityI) (auto simp: list_all2_conv_all_nth)
  moreover have "map fips_K [0..<length first_primes] = map cube_bits first_primes"
    unfolding fips_K_def by (rule nth_equalityI) simp_all
  moreover have "length first_primes = 64"
    by (simp add: first_primes_def)
  moreover have "(map of_nat cube_roots :: u32 list) = sha_K"
    by (simp add: cube_roots_def sha_K_def)
  ultimately show ?thesis
    by simp
qed

lemma sha_init_fips: "fips_H0 = sha_init"
proof -
  have "map square_bits (take 8 first_primes) = map of_nat square_roots"
    using square_roots_bits by (intro nth_equalityI) (auto simp: list_all2_conv_all_nth)
  moreover have "(map of_nat square_roots :: u32 list) = sha_init"
    by (simp add: square_roots_def sha_init_def)
  ultimately show ?thesis
    by (simp add: fips_H0_def)
qed

section \<open>The functions\<close>

lemma bit_of_bits: "bit (of_bits f) i \<longleftrightarrow> i < 32 \<and> f i"
  by (auto simp: of_bits_def bit_horner_sum_bit_word_iff)

lemma word_bits: "(\<And>i. i < 32 \<Longrightarrow> bit w i = f i) \<Longrightarrow> w = of_bits f" for w :: u32
  by (rule bit_word_eqI) (simp add: bit_of_bits)

lemma bit_ROTR: "0 < n \<Longrightarrow> n < 32 \<Longrightarrow> i < 32 \<Longrightarrow> bit (ROTR x n) i = rotate_bits n x i"
proof -
  assume n: "0 < n" "n < 32" "i < 32"
  show ?thesis
  proof (cases "i + n < 32")
    case True
    then show ?thesis
      using n by (auto simp: ROTR_def rotate_bits_def bit_or_iff bit_drop_bit_eq bit_push_bit_iff add.commute)
  next
    case False
    then have "(i + n) mod 32 = i + n - 32" "32 - n \<le> i" "\<not> bit x (i + n)"
      using n False bit_imp_le_length [of x "i + n"] by (auto simp: le_mod_geq)
    then show ?thesis
      using n False by (simp add: ROTR_def rotate_bits_def bit_or_iff bit_drop_bit_eq bit_push_bit_iff add.commute)
  qed
qed

lemma bit_shift: "i < 32 \<Longrightarrow> bit (drop_bit n x) i = shift_bits n x i" for x :: u32
  using bit_imp_le_length [of x "i + n"] by (auto simp: shift_bits_def bit_drop_bit_eq add.commute)

lemma sigma_fips:
  "EP0 x = big_sigma0 x" "EP1 x = big_sigma1 x" "SIG0 x = small_sigma0 x" "SIG1 x = small_sigma1 x"
  unfolding EP0_def EP1_def SIG0_def SIG1_def big_sigma0_def big_sigma1_def small_sigma0_def small_sigma1_def xor3_def
  by (rule word_bits, use bit_ROTR bit_shift in \<open>auto simp: bit_xor_iff\<close>)+

lemma logic_fips: "CH x y z = fips_Ch x y z" "MAJ x y z = fips_Maj x y z"
  unfolding CH_def MAJ_def fips_Ch_def fips_Maj_def
  by (rule word_bits; auto simp: bit_xor_iff bit_and_iff bit_not_iff)+

section \<open>The compression function\<close>

lemma be_number_four: "of_nat (be_number [a, b, c, d]) = join32 a b c d"
proof -
  have up: "push_bit n w = w * 2 ^ n" for n and w :: u32
    by (simp add: push_bit_eq_mult)
  have small: "bit (ucast c :: u32) n \<Longrightarrow> n < 8" for c :: u8 and n
    using bit_imp_le_length [of c n] by (simp add: bit_ucast_iff)
  have "join32 a b c d = push_bit 24 (ucast a) + push_bit 16 (ucast b) + push_bit 8 (ucast c) + ucast d"
    unfolding join32_def
    by (subst disjunctive_add, auto simp: bit_push_bit_iff bit_or_iff dest!: small)+ (simp only: or.assoc)
  then show ?thesis
    by (simp add: be_number_def up)
qed

lemma block_word: "t < 16 \<Longrightarrow> length block = 64 \<Longrightarrow> block_words block ! t = fips_W block t"
proof -
  assume t: "t < 16" "length block = 64"
  have "take 4 (drop (4 * t) block) = map (\<lambda>j. block ! (4 * t + j)) [0..<4]"
    using t by (intro nth_equalityI) auto
  then have "take 4 (drop (4 * t) block) = [block ! (t * 4), block ! (t * 4 + 1), block ! (t * 4 + 2), block ! (t * 4 + 3)]"
    by (simp add: upt_rec mult.commute numeral_3_eq_3)
  then show ?thesis
    using t by (subst fips_W.simps) (simp add: block_words_def be_number_four)
qed

lemma schedule_fips:
  "16 \<le> length W \<Longrightarrow> \<forall>t < length W. W ! t = fips_W block t \<Longrightarrow>
   length (sha_schedule n W) = length W + n \<and> (\<forall>t < length W + n. sha_schedule n W ! t = fips_W block t)"
proof (induction n W rule: sha_schedule.induct)
  case (2 n W)
  let ?i = "length W"
  let ?w = "SIG1 (W ! (?i - 2)) + W ! (?i - 7) + SIG0 (W ! (?i - 15)) + W ! (?i - 16)"
  have "?w = fips_W block ?i"
    using "2.prems" by (subst fips_W.simps) (simp add: sigma_fips)
  then have "\<forall>t < length (W @ [?w]). (W @ [?w]) ! t = fips_W block t"
    using "2.prems"(2) by (simp add: nth_append less_Suc_eq)
  then show ?case
    using "2.IH" [OF refl] "2.prems"(1) by (simp add: Let_def)
qed simp

lemma block_schedule:
  assumes "length block = 64"
  shows "sha_schedule 48 (block_words block) = map (fips_W block) [0..<64]"
proof -
  have len: "length (block_words block) = 16"
    by (simp add: block_words_def)
  then have "length (sha_schedule 48 (block_words block)) = 64 \<and> (\<forall>t < 64. sha_schedule 48 (block_words block) ! t = fips_W block t)"
    using schedule_fips [of "block_words block" block 48] block_word [OF _ assms] by simp
  then show ?thesis
    by (intro nth_equalityI) auto
qed

fun regs_list :: "sha_regs \<Rightarrow> u32 list" where
  "regs_list (a, b, c, d, e, f, g, h) = [a, b, c, d, e, f, g, h]"

lemma round_fips: "regs_list (sha_round r (fips_K t, fips_W block t)) = fips_round block t (regs_list r)"
  by (cases r rule: regs_list.cases) (simp add: Let_def sigma_fips logic_fips)

lemma rounds_fips:
  "regs_list (foldl sha_round r (map (\<lambda>t. (fips_K t, fips_W block t)) ts)) = fold (fips_round block) ts (regs_list r)"
  by (induction ts arbitrary: r) (simp_all add: round_fips)

lemma transform_fips:
  assumes "length block = 64" and "length st = 8"
  shows "sha256_transform st block = fips_compress st block"
proof -
  let ?r = "(st ! 0, st ! 1, st ! 2, st ! 3, st ! 4, st ! 5, st ! 6, st ! 7)"
  have zip: "zip sha_K (sha_schedule 48 (block_words block)) = map (\<lambda>t. (fips_K t, fips_W block t)) [0..<64]"
    unfolding block_schedule [OF assms(1)] sha_K_fips [symmetric] by (simp add: zip_map_map zip_same_conv_map)
  have st: "regs_list ?r = st"
    using assms(2) by (auto simp: numeral_eq_Suc length_Suc_conv)
  have "sha256_transform st block = map2 (+) st (regs_list (foldl sha_round ?r (zip sha_K (sha_schedule 48 (block_words block)))))"
    by (simp add: sha256_transform_def Let_def split: prod.split)
  then show ?thesis
    unfolding zip rounds_fips st by (simp add: fips_compress_def)
qed

section \<open>The message\<close>

lemma byte_of_word: "ucast (drop_bit k v) = (of_nat (unat v div 2 ^ k) :: u8)" for v :: "'a::len word"
proof -
  have "(ucast (drop_bit k v) :: u8) = of_nat (unat (drop_bit k v))"
    by (rule of_nat_unat [symmetric])
  also have "unat (drop_bit k v) = unat v div 2 ^ k"
    by (rule trans [OF unat_drop_bit_eq drop_bit_eq_div])
  finally show ?thesis .
qed

lemma put32be_fips: "put32be w = be_bytes 4 (unat w)"
  using byte_of_word [of 24 w] byte_of_word [of 16 w] byte_of_word [of 8 w] byte_of_word [of 0 w]
  by (simp add: put32be_def be_bytes_def upt_rec)

lemma be64_fips: "n < 2 ^ 64 \<Longrightarrow> be64 (of_nat n) = be_bytes 8 n"
proof -
  assume "n < 2 ^ 64"
  then have n: "unat (of_nat n :: u64) = n"
    by (simp add: unsigned_of_nat take_bit_nat_eq_self)
  show ?thesis
    using byte_of_word [of _ "of_nat n :: u64", unfolded n] by (simp add: be64_def be_bytes_def upt_rec)
qed

lemma pad_length: "(LEAST k. (l + 1 + k) mod 64 = 56) = (119 - l mod 64) mod 64" for l :: nat
proof -
  define r where "r = l mod 64"
  have r: "r < 64" "(l + 1 + k) mod 64 = (r + 1 + k) mod 64" for k
    using mod_add_left_eq [of l 64 "1 + k"] by (simp_all add: r_def)
  show ?thesis
    unfolding r(2) r_def [symmetric]
  proof (cases "r \<le> 55")
    case True
    show "(LEAST k. (r + 1 + k) mod 64 = 56) = (119 - r) mod 64"
    proof (rule Least_equality)
      show "(r + 1 + (119 - r) mod 64) mod 64 = 56"
        using True by (simp add: le_mod_geq)
      show "(119 - r) mod 64 \<le> k" if "(r + 1 + k) mod 64 = 56" for k
        using that True by (cases "r + 1 + k < 64") (auto simp: le_mod_geq)
    qed
  next
    case False
    show "(LEAST k. (r + 1 + k) mod 64 = 56) = (119 - r) mod 64"
    proof (rule Least_equality)
      show "(r + 1 + (119 - r) mod 64) mod 64 = 56"
        using False r(1) by simp
      show "(119 - r) mod 64 \<le> k" if "(r + 1 + k) mod 64 = 56" for k
        using that False r(1) by (cases "r + 1 + k < 64"; cases "r + 1 + k < 128") (auto simp: le_mod_geq)
    qed
  qed
qed

lemma pad_fips: "length m < 2 ^ 61 \<Longrightarrow> sha_pad m = fips_pad m"
  using be64_fips [of "8 * length m"] by (simp add: sha_pad_def fips_pad_def pad_length [simplified])

lemma blocks_fips: "length H = 8 \<Longrightarrow> fips_blocks H m = foldl sha256_transform H (blocks64 m)"
proof (induction H m rule: fips_blocks.induct)
  case (1 H m)
  show ?case
  proof (cases "length m < 64")
    case True
    then show ?thesis
      by (subst fips_blocks.simps) (simp add: blocks64_short)
  next
    case False
    then have "sha256_transform H (take 64 m) = fips_compress H (take 64 m)"
      using "1.prems" by (intro transform_fips) simp_all
    moreover have "length (sha256_transform H (take 64 m)) = 8"
      using "1.prems" by simp
    ultimately show ?thesis
      using "1.IH" False by (subst fips_blocks.simps) (simp add: blocks64_long)
  qed
qed

lemma digest_fips: "length m < 2 ^ 61 \<Longrightarrow> sha256_digest m = sha256_fips m"
  using sha256_digest_eq [of m] blocks_fips [of sha_init]
  by (simp add: sha256_fips_def pad_fips sha_init_fips put32be_fips [abs_def] sha_init_def)

text \<open>
  C19: \<open>sha256_raw\<close> is SHA-256: for every message of less than \<open>2 ^ 32 - 64\<close> bytes it returns the digest of FIPS 180-4, whose constants,
  functions, schedule, padding and byte order \<open>sha256_fips\<close> states on its own; from \<open>2 ^ 32 - 64\<close> bytes on its counter wraps and it never returns.
\<close>

theorem sha256_raw_fips:
  assumes "length m < 2 ^ 32"
  shows "sha256_raw m = (if length m < 2 ^ 32 - 64 then Some (sha256_fips m) else None)"
proof (cases "length m < 2 ^ 32 - 64")
  case True
  then have "sha256_digest m = sha256_fips m"
    by (intro digest_fips) simp
  then show ?thesis
    using True by (simp add: sha256_raw_digest)
next
  case False
  then show ?thesis
    using sha256_raw_hangs [of m] assms by simp
qed

theorem sha256_raw_fips_witness:
  "sha256_raw (lit ''abc'') = Some (sha256_fips (lit ''abc''))"
  using sha256_raw_fips [of "lit ''abc''"] by (simp add: lit_def)

end
