(* ===== verification/Spec2Isabelle.thy ===== *)
theory Spec2Isabelle
  imports Scrollback KString Fat32 WindowManager NetDns Tls FsFlaws Accounts MakeOrder TextFacts TextCodes PngDecode IconFacts HttpsFacts
    TerminalText ShellFacts ShellVars BlazeNetFacts FsBoot ShaSpec
begin

text \<open>
  AurionOS: a verification library beside the C sources of the kernel.

  AurionOS is a small 32-bit x86 operating system. Its C code runs in one address space without
  processes: the shell calls the commands of \<open>src/src/commands.c\<close>, which work on the tables of the
  file system AurionFS and of the users; \<open>make\<close> runs commands through the same interpreter; the
  network stack is polled by whoever waits for it, the TLS client sits on its sockets; the window
  manager turns key and mouse events into calls of the applications. This library models the parts
  whose behaviour the sources determine, and leaves drawing and device registers to parameters.

  Reading the model. A C integer of \<open>w\<close> bits is a word of that width wherever it can wrap or where
  its bits matter, and a natural number or integer where the code's own guards keep it small. A byte
  buffer is a list of bytes, a structure is a record whose fields have the names of the source, a
  global is a field of the state record of its component. A function that changes globals takes the
  state and returns it with the C result. The value \<open>None\<close> stands for what C leaves undefined and
  for not returning: an access outside an object, a division by zero, and, in a
  \<open>partial_function\<close>, a loop that never ends. Messages on the console are left out, except where
  they are what a command is for.

  Parameters. The disk driver is an argument \<open>io\<close> (AurionFS) or a map from sectors to contents
  (FAT32); a network card is the pair of function pointers in its interface record; the timer
  \<open>get_ticks\<close> is a function of the devices or a list of readings; \<open>kmalloc\<close> is a function from sizes to memory
  or nothing; the CD-ROM and the start of the network driver are functions; the command interpreter that \<open>make\<close>
  and \<open>SUDO\<close> call, and the callbacks of windows, are arguments that may change the whole state. What a
  property needs to know of a parameter is a hypothesis of its theorem, and its witness
  instantiates the parameter by a concrete function.

  Theories, in the order of their imports.

  \<^item> \<open>AurionPrelude\<close>: words, byte order, NUL-terminated strings, checked reads and writes, and the
    automation for them.
  \<^item> \<open>NameStore\<close>: the locale of tables that are searched by name from the front. It is interpreted on
    the files of AurionFS (\<open>FsStore\<close>), on the variables of make (\<open>MakeTables\<close>) and on the variables and
    aliases of the shell (\<open>ShellVars\<close>).
  \<^item> \<open>KMath\<close>, \<open>KString\<close> (\<open>src/src/utils.c\<close>): integer routines, bit tricks, the random generator and
    the input latch; strings, number conversion, memory blocks and tokens. The lemmas relate each
    routine to its mathematical meaning.
  \<^item> \<open>Scrollback\<close> (\<open>scrollback.c\<close>): the ring of lines. A locale of bounded queues is
    interpreted on the ring, and every operation keeps its invariant. The rows of the terminal (\<open>TerminalText\<close>) and
    the history of the shell (\<open>ShellFacts\<close>) interpret it too.
  \<^item> \<open>Fat32\<close> (\<open>fat32.c\<close>): mounting, cluster chains, 8.3 names, directories, reading. A search finds what a
    scan of the directory's live entries finds, those that are not deleted and stand before its end mark, on volumes of at most
    8 sectors per cluster (the code's cluster buffer holds no more) and directories without a cluster behind the end mark; reading a file
    gives the concatenation of its clusters. The code's own bound of 65536 clusters for a chain is kept.
  \<^item> \<open>CmdText\<close>, \<open>FsDisk\<close>, \<open>FsReboot\<close>, \<open>FsOps\<close>, \<open>FsFacts\<close>, \<open>FsStore\<close>, \<open>FsFlaws\<close>, \<open>FsBoot\<close> (\<open>commands.c\<close>,
    \<open>src/include/fs.h\<close>): AurionFS. \<open>FsDisk\<close> holds the tables and saving and loading them,
    \<open>FsReboot\<close> shows that a saved state is loaded again, sector by sector; \<open>FsOps\<close> holds the
    commands on files and directories, \<open>FsFacts\<close> the invariant that they keep, \<open>FsStore\<close>
    the refinement of a map from names to contents, \<open>FsFlaws\<close> where the code falls short of it. \<open>FsBoot\<close> holds the start
    of the kernel, \<open>fs_init_commands\<close>, with the condition on the disk image that the load does not check itself (\<open>image_ok\<close>), the proof that
    the start returns, and the invariant of every state that starts and operations reach.
  \<^item> \<open>Accounts\<close> (\<open>commands.c\<close>): users, passwords, login and \<open>SUDO\<close>, with typed keys as input.
  \<^item> \<open>TextTools\<close>, \<open>TextFacts\<close>, \<open>TextCodes\<close> (\<open>commands.c\<close>): the text and number utilities, with the text
    they print as their result.
  \<^item> \<open>MakeParse\<close>, \<open>MakeTables\<close>, \<open>MakeBuild\<close>, \<open>MakeOrder\<close> (\<open>cmd_make.c\<close>): variables and parser, what
    they guarantee, the builder with the rules by which the proofs take it apart, and the
    order, termination and error behaviour of builds.
  \<^item> \<open>NetBase\<close>, \<open>Dhcp\<close>, \<open>NetStack\<close>, \<open>NetFacts\<close>, \<open>NetDelivery\<close>, \<open>NetDns\<close> (\<open>network_interface.c\<close>,
    \<open>tcp_ip_stack.c\<close>, \<open>dhcp_client.c\<close>): the send side, DHCP, the receive side with sockets and
    resolver; then the invariant of reachable states and the TCP stream as a queue, delivery from one host to
    another, and the resolver and handshake. Spin counts of the blocking calls are naturals the loop
    recurses on, with the code's own initial values.
  \<^item> \<open>TlsCrypto\<close>, \<open>ShaSpec\<close>, \<open>TlsRsa\<close>, \<open>Tls\<close> (\<open>Network/tls12_client.c\<close>): SHA-256, HMAC, the pseudo-random function
    and AES-CBC; \<open>ShaSpec\<close> states SHA-256 as FIPS 180-4 does, from the roots of the primes on, and proves the code's hash equal to it;
    big integers, RSA and padding; records and handshake on top of the sockets of \<open>NetStack\<close>. The hash counts on 32 bits and does not return
    from \<open>2 ^ 32 - 64\<close> bytes on; below, \<open>sha256_digest\<close> is the same as a total function, which HMAC uses. HMAC gives 32 zero bytes above
    1024 bytes, and the properties of the records say so.
  \<^item> \<open>WindowManager\<close> (\<open>window_manager.c\<close>): windows, focus, stacking, hit testing and the input state
    machine, as an inductive step relation with an invariant of every reachable state.
  \<^item> \<open>ShellLine\<close>, \<open>ShellFacts\<close>, \<open>ShellVars\<close> (\<open>shell.c\<close>, \<open>commands.c\<close>): the line editor and prompt loop of the text
    console, its history and what Ctrl+C does; variables and aliases.
  \<^item> \<open>Terminal\<close>, \<open>TerminalFacts\<close>, \<open>TerminalText\<close> (\<open>terminal.c\<close>, \<open>console_shim.c\<close>): the terminal window, the
    invariant of its reachable states, and its text: printing, typing, history, cut and paste. A command is seen by
    its effects on the terminal while it runs.
  \<^item> \<open>Http\<close>, \<open>HttpFacts\<close>, \<open>Https\<close>, \<open>HttpsFacts\<close> (\<open>http_client.c\<close>, \<open>Network/http_full.c\<close>,
    \<open>Network/https_client.c\<close>, \<open>Network/network_bringup.c\<close>): the clients on top of sockets and TLS. URLs and responses
    are read back as they were written, the receive loops stay in their buffers, and a fetch leaves no connection
    and the encryption off. What a header line announces is stated on the line (\<open>has_name\<close>, \<open>length_line\<close>), not by the code's own scanner.
  \<^item> \<open>BlazeNet\<close>, \<open>BlazeNetFacts\<close> (\<open>Blaze/blaze_net.c\<close>): how the browser fetches a page, with redirects and the
    fallbacks between HTTPS and HTTP; chunked bodies are decoded into what was encoded unless a size wraps.
  \<^item> \<open>Inflate\<close>, \<open>InflateFacts\<close>, \<open>Png\<close>, \<open>PngFacts\<close>, \<open>PngDecode\<close> (\<open>drivers/png.c\<close>): the decompressor, and
    that it yields what the tokens of a stream describe; chunks, scan-line filters and the decoder, and that it
    reads back the picture that an encoder has written, when the compressed data is at most 4096 bytes longer than the filtered
    rows: the decoder's buffer for it holds no more.
  \<^item> \<open>Iso9660\<close>, \<open>IsoFacts\<close> (\<open>iso9660.c\<close>): the CD-ROM file system, its directory records and reading a file.
  \<^item> \<open>IconLoader\<close>, \<open>IconFacts\<close> (\<open>icon_loader.c\<close>): fetching an icon from AurionFS, CD-ROM or raw sectors, and scaling
    its bitmap of any size below 512 by means of 16 samples per pixel.

  How the theories interact. The state of AurionFS is a record with the users in it, which
  \<open>Accounts\<close> extends by the grace period, and which \<open>MakeBuild\<close> passes to the interpreter; the text
  utilities read it through the lookup of \<open>FsOps\<close>. The network state is one record from which the
  TLS state is built. The machine integers, strings and tables come from the prelude,
  \<open>KMath\<close>, \<open>KString\<close> and \<open>NameStore\<close>.

  Not modelled, with the reason: drawing (framebuffers, fonts, cursors, wallpaper, dock animation,
  desktop, menu bar, login and boot screens, applications), which has no state a property could
  speak of beyond pixels; device registers (disk, network cards, USB, PCI, Wi-Fi), whose behaviour is not
  in the sources; floating-point code (AurionGL, the MP3 wrapper, the interpreters' numbers);
  the rest of the Blaze browser, the Python interpreter, the installer and the remaining
  commands, which were not reached; the assembly and the build tools, which are not C.
\<close>

end
